(* ===== verification/Rust_Base.thy ===== *)
theory Rust_Base
  imports Main "HOL-Library.Word"
begin

section \<open>Prelude: machine integers, panics and results\<close>

text \<open>
  What every component of the library shares: the Rust integer types as words, a panic as a
  value, and the arithmetic of the core language in its three variants. A plain operator
  panics on overflow (the behaviour of a build with overflow checks); the checked variant
  returns an option; the wrapping variant is the operation of the word type itself.
  Every fact is stated through the natural number that a word denotes, so that component
  proofs are linear arithmetic over \<^const>\<open>unat\<close>. Facts that rewrite the result of an
  operation are collected in \<open>rust_arith\<close>; the definitions of straight-line code are
  collected in \<open>rust_defs\<close>.
\<close>

named_theorems rust_arith
named_theorems rust_defs

unbundle bit_operations_syntax

subsection \<open>Types\<close>

type_synonym u8 = "8 word"
type_synonym u16 = "16 word"
type_synonym u32 = "32 word"
type_synonym u64 = "64 word"
type_synonym usize = "64 word"

text \<open>
  A computation ends with a value or with a fault: a panic with its message, or undefined
  behaviour (an unsafe read or write outside initialised memory), which the proofs exclude.
\<close>

datatype fault = Panic string | Undefined string

type_synonym 'a res = "fault + 'a"

definition bindR :: "'a res \<Rightarrow> ('a \<Rightarrow> 'b res) \<Rightarrow> 'b res" where
  "bindR m f = (case m of Inl p \<Rightarrow> Inl p | Inr x \<Rightarrow> f x)"

lemma bindR_simps [simp]:
  "bindR (Inl p) f = Inl p"
  "bindR (Inr x) f = f x"
  by (simp_all add: bindR_def)

lemma bindR_eq_Inr: "bindR m f = Inr y \<longleftrightarrow> (\<exists>x. m = Inr x \<and> f x = Inr y)"
  by (cases m) simp_all

lemma bindR_Inr_elim:
  assumes "bindR m f = Inr y"
  obtains x where "m = Inr x" and "f x = Inr y"
  using assms by (auto simp: bindR_eq_Inr)

lemma bindR_assoc: "bindR (bindR m f) g = bindR m (\<lambda>x. bindR (f x) g)"
  by (cases m) simp_all

lemma bindR_cong [fundef_cong]:
  "m = m' \<Longrightarrow> (\<And>x. m' = Inr x \<Longrightarrow> f x = f' x) \<Longrightarrow> bindR m f = bindR m' f'"
  by (cases m') simp_all

text \<open>\<open>Option::expect\<close> and \<open>assert!\<close>.\<close>

definition expectR :: "string \<Rightarrow> 'a option \<Rightarrow> 'a res" where
  "expectR msg x = (case x of None \<Rightarrow> Inl (Panic msg) | Some y \<Rightarrow> Inr y)"

lemma expectR_simps [simp]:
  "expectR msg None = Inl (Panic msg)"
  "expectR msg (Some y) = Inr y"
  by (simp_all add: expectR_def)

lemma expectR_eq_Inr [simp]: "expectR msg x = Inr y \<longleftrightarrow> x = Some y"
  by (cases x) simp_all

definition assertR :: "string \<Rightarrow> bool \<Rightarrow> unit res" where
  "assertR msg b = (if b then Inr () else Inl (Panic msg))"

lemma assertR_simps [simp]:
  "assertR msg True = Inr ()"
  "assertR msg False = Inl (Panic msg)"
  by (simp_all add: assertR_def)

lemma assertR_eq_Inr [simp]: "assertR msg b = Inr u \<longleftrightarrow> b"
  by (cases b) simp_all

subsection \<open>Checked arithmetic\<close>

definition word_checked_add :: "'a::len word \<Rightarrow> 'a word \<Rightarrow> 'a word option" where
  "word_checked_add a b = (if unat a + unat b < 2 ^ LENGTH('a) then Some (a + b) else None)"

definition word_checked_sub :: "'a::len word \<Rightarrow> 'a word \<Rightarrow> 'a word option" where
  "word_checked_sub a b = (if b \<le> a then Some (a - b) else None)"

definition word_checked_mul :: "'a::len word \<Rightarrow> 'a word \<Rightarrow> 'a word option" where
  "word_checked_mul a b = (if unat a * unat b < 2 ^ LENGTH('a) then Some (a * b) else None)"

definition addP :: "'a::len word \<Rightarrow> 'a word \<Rightarrow> 'a word res" where
  "addP a b = expectR ''attempt to add with overflow'' (word_checked_add a b)"

definition subP :: "'a::len word \<Rightarrow> 'a word \<Rightarrow> 'a word res" where
  "subP a b = expectR ''attempt to subtract with overflow'' (word_checked_sub a b)"

definition mulP :: "'a::len word \<Rightarrow> 'a word \<Rightarrow> 'a word res" where
  "mulP a b = expectR ''attempt to multiply with overflow'' (word_checked_mul a b)"

lemma unat_less_length [simp]: "unat (a :: 'a::len word) < 2 ^ LENGTH('a)"
  by (rule unsigned_less)

lemma unat_eq_iff: "a = b \<longleftrightarrow> unat a = unat b"
  by (simp add: word_unat_eq_iff)

lemma unat_add_small: "unat a + unat b < 2 ^ LENGTH('a) \<Longrightarrow> unat (a + b) = unat a + unat b"
  for a b :: "'a::len word"
  by (simp add: unat_word_ariths)

lemma unat_mult_small: "unat a * unat b < 2 ^ LENGTH('a) \<Longrightarrow> unat (a * b) = unat a * unat b"
  for a b :: "'a::len word"
  by (simp add: unat_word_ariths)

lemma unat_sub_small: "b \<le> a \<Longrightarrow> unat (a - b) = unat a - unat b"
  for a b :: "'a::len word"
  by (rule unat_sub)

lemma word_checked_add_Some [rust_arith]:
  "word_checked_add a b = Some c \<longleftrightarrow> unat c = unat a + unat b"
  for a b c :: "'a::len word"
proof
  assume "unat c = unat a + unat b"
  moreover from this have "unat a + unat b < 2 ^ LENGTH('a)"
    using unat_less_length [of c] by simp
  ultimately show "word_checked_add a b = Some c"
    by (simp add: word_checked_add_def unat_eq_iff unat_add_small)
qed (auto simp: word_checked_add_def unat_add_small split: if_splits)

lemma word_checked_add_None [rust_arith]:
  "word_checked_add a b = None \<longleftrightarrow> 2 ^ LENGTH('a) \<le> unat a + unat b" for a b :: "'a::len word"
  by (auto simp: word_checked_add_def)

lemma word_checked_sub_Some [rust_arith]:
  "word_checked_sub a b = Some c \<longleftrightarrow> unat a = unat b + unat c"
  for a b c :: "'a::len word"
proof
  assume "unat a = unat b + unat c"
  moreover from this have "b \<le> a" by (simp add: word_le_nat_alt)
  ultimately show "word_checked_sub a b = Some c"
    by (simp add: word_checked_sub_def unat_eq_iff unat_sub_small)
qed (auto simp: word_checked_sub_def unat_sub_small word_le_nat_alt split: if_splits)

lemma word_checked_sub_None [rust_arith]:
  "word_checked_sub a b = None \<longleftrightarrow> unat a < unat b" for a b :: "'a::len word"
  by (auto simp: word_checked_sub_def word_le_nat_alt)

lemma word_checked_mul_Some [rust_arith]:
  "word_checked_mul a b = Some c \<longleftrightarrow> unat c = unat a * unat b"
  for a b c :: "'a::len word"
proof
  assume "unat c = unat a * unat b"
  moreover from this have "unat a * unat b < 2 ^ LENGTH('a)"
    using unat_less_length [of c] by simp
  ultimately show "word_checked_mul a b = Some c"
    by (simp add: word_checked_mul_def unat_eq_iff unat_mult_small)
qed (auto simp: word_checked_mul_def unat_mult_small split: if_splits)

lemma word_checked_mul_None [rust_arith]:
  "word_checked_mul a b = None \<longleftrightarrow> 2 ^ LENGTH('a) \<le> unat a * unat b" for a b :: "'a::len word"
  by (auto simp: word_checked_mul_def)

lemma addP_Inr [rust_arith]: "addP a b = Inr c \<longleftrightarrow> unat c = unat a + unat b"
  by (simp add: addP_def word_checked_add_Some)

lemma subP_Inr [rust_arith]: "subP a b = Inr c \<longleftrightarrow> unat a = unat b + unat c"
  by (simp add: subP_def word_checked_sub_Some)

lemma mulP_Inr [rust_arith]: "mulP a b = Inr c \<longleftrightarrow> unat c = unat a * unat b"
  by (simp add: mulP_def word_checked_mul_Some)

text \<open>The operators return their mathematical result wherever it fits.\<close>

lemma addP_ok: "unat a + unat b < 2 ^ LENGTH('a) \<Longrightarrow> addP a b = Inr (a + b)"
  for a b :: "'a::len word"
  by (simp add: addP_Inr unat_add_small)

lemma subP_ok: "unat b \<le> unat a \<Longrightarrow> subP a b = Inr (a - b)"
  for a b :: "'a::len word"
  by (simp add: subP_Inr unat_sub_small word_le_nat_alt)

lemma mulP_ok: "unat a * unat b < 2 ^ LENGTH('a) \<Longrightarrow> mulP a b = Inr (a * b)"
  for a b :: "'a::len word"
  by (simp add: mulP_Inr unat_mult_small)

lemmas arithP_ok = addP_ok subP_ok mulP_ok
lemmas unat_small = unat_add_small unat_sub_small unat_mult_small

lemma unat_ucast_small: "unat x < 2 ^ LENGTH('b) \<Longrightarrow> unat (ucast x :: 'b::len word) = unat x"
  for x :: "'a::len word"
  by (simp add: unsigned_ucast_eq take_bit_nat_eq_self)

lemma unat_ucast_up [simp]:
  "LENGTH('a) \<le> LENGTH('b) \<Longrightarrow> unat (ucast x :: 'b::len word) = unat x"
  for x :: "'a::len word"
proof -
  assume le: "LENGTH('a) \<le> LENGTH('b)"
  have "unat x < 2 ^ LENGTH('a)" by simp
  also have "\<dots> \<le> 2 ^ LENGTH('b)" using le by simp
  finally show ?thesis by (rule unat_ucast_small)
qed

lemma unat_of_nat_small: "n < 2 ^ LENGTH('a) \<Longrightarrow> unat (of_nat n :: 'a::len word) = n"
  by (simp add: unat_of_nat take_bit_nat_eq_self)


lemma unat_pow2: "n < LENGTH('a) \<Longrightarrow> unat (2 ^ n :: 'a::len word) = 2 ^ n"
  using unat_of_nat_small [of "2 ^ n", where 'a = 'a] by simp

subsection \<open>Signed arithmetic\<close>

definition signed_fits :: "nat \<Rightarrow> int \<Rightarrow> bool" where
  "signed_fits n k \<longleftrightarrow> - (2 ^ n) \<le> k \<and> k < 2 ^ n"

definition signed_checked_add :: "'a::len word \<Rightarrow> 'a word \<Rightarrow> 'a word option" where
  "signed_checked_add a b =
     (if signed_fits (LENGTH('a) - 1) (sint a + sint b) then Some (a + b) else None)"

definition signed_checked_sub :: "'a::len word \<Rightarrow> 'a word \<Rightarrow> 'a word option" where
  "signed_checked_sub a b =
     (if signed_fits (LENGTH('a) - 1) (sint a - sint b) then Some (a - b) else None)"

definition saddP :: "'a::len word \<Rightarrow> 'a word \<Rightarrow> 'a word res" where
  "saddP a b = expectR ''attempt to add with overflow'' (signed_checked_add a b)"

definition ssubP :: "'a::len word \<Rightarrow> 'a word \<Rightarrow> 'a word res" where
  "ssubP a b = expectR ''attempt to subtract with overflow'' (signed_checked_sub a b)"

lemma sint_fits: "signed_fits (LENGTH('a) - 1) (sint a)" for a :: "'a::len word"
  using sint_ge [of a] sint_lt [of a] by (simp add: signed_fits_def)

lemma sint_eq_iff: "sint a = sint b \<longleftrightarrow> a = b" for a b :: "'a::len word"
proof
  assume "sint a = sint b"
  then have "(word_of_int (sint a) :: 'a word) = word_of_int (sint b)" by simp
  then show "a = b" by simp
qed simp

lemma sint_of_fits: "signed_fits (LENGTH('a) - 1) k \<Longrightarrow> sint (word_of_int k :: 'a::len word) = k"
  by (simp add: sint_sbintrunc' signed_fits_def signed_take_bit_int_eq_self)

lemma sint_add_fits: "signed_fits (LENGTH('a) - 1) (sint a + sint b) \<Longrightarrow> sint (a + b) = sint a + sint b"
  for a b :: "'a::len word"
  by (simp add: sint_word_add signed_fits_def signed_take_bit_int_eq_self)

lemma sint_sub_fits: "signed_fits (LENGTH('a) - 1) (sint a - sint b) \<Longrightarrow> sint (a - b) = sint a - sint b"
  for a b :: "'a::len word"
  by (simp add: sint_word_diff signed_fits_def signed_take_bit_int_eq_self)

lemma signed_checked_add_Some [rust_arith]:
  "signed_checked_add a b = Some c \<longleftrightarrow> sint c = sint a + sint b" for a b c :: "'a::len word"
proof
  assume c: "sint c = sint a + sint b"
  then have fits: "signed_fits (LENGTH('a) - 1) (sint a + sint b)" using sint_fits [of c] by simp
  then have "a + b = c" using c sint_add_fits [of a b] by (simp only: sint_eq_iff flip: sint_eq_iff [of "a + b" c])
  then show "signed_checked_add a b = Some c" using fits by (simp add: signed_checked_add_def)
qed (auto simp: signed_checked_add_def sint_add_fits simp del: One_nat_def split: if_splits)

lemma signed_checked_sub_Some [rust_arith]:
  "signed_checked_sub a b = Some c \<longleftrightarrow> sint c = sint a - sint b" for a b c :: "'a::len word"
proof
  assume c: "sint c = sint a - sint b"
  then have fits: "signed_fits (LENGTH('a) - 1) (sint a - sint b)" using sint_fits [of c] by simp
  then have "a - b = c" using c sint_sub_fits [of a b] by (simp only: sint_eq_iff flip: sint_eq_iff [of "a - b" c])
  then show "signed_checked_sub a b = Some c" using fits by (simp add: signed_checked_sub_def)
qed (auto simp: signed_checked_sub_def sint_sub_fits simp del: One_nat_def split: if_splits)

lemma sint_small: "unat x < 2 ^ (LENGTH('a) - 1) \<Longrightarrow> sint x = int (unat x)" for x :: "'a::len word"
proof -
  assume lt: "unat x < 2 ^ (LENGTH('a) - 1)"
  have u: "uint x = int (unat x)" by simp
  also have "\<dots> < 2 ^ (LENGTH('a) - 1)" using lt by (simp only: of_nat_less_numeral_power_cancel_iff)
  finally have "uint x < 2 ^ (LENGTH('a) - 1)" .
  moreover have "- (2 ^ (LENGTH('a) - 1)) \<le> uint x" by (rule order_trans [of _ 0]) simp_all
  ultimately have "sint x = uint x"
    unfolding sint_uint by (intro signed_take_bit_int_eq_self) simp_all
  from this u show ?thesis by (rule trans)
qed

lemma unat_sint: "0 \<le> sint x \<Longrightarrow> unat x = nat (sint x)" for x :: "'a::len word"
proof -
  assume "0 \<le> sint x"
  moreover have "sint x < 2 ^ LENGTH('a)"
    by (rule order_less_le_trans [OF sint_lt]) (simp add: power_increasing)
  ultimately have "uint x = sint x" unfolding uint_sint by (simp add: take_bit_int_eq_self)
  moreover have "unat x = nat (uint x)" by simp
  ultimately show ?thesis by (simp only:)
qed

lemma ssubP_ok: "signed_fits (LENGTH('a) - 1) (sint a - sint b) \<Longrightarrow> ssubP a b = Inr (a - b)"
  for a b :: "'a::len word"
  by (simp add: ssubP_def signed_checked_sub_def)

lemma ssubP_fail: "\<not> signed_fits (LENGTH('a) - 1) (sint a - sint b) \<Longrightarrow>
  ssubP a b = Inl (Panic ''attempt to subtract with overflow'')" for a b :: "'a::len word"
  by (simp add: ssubP_def signed_checked_sub_def)

lemma saddP_ok: "signed_fits (LENGTH('a) - 1) (sint a + sint b) \<Longrightarrow> saddP a b = Inr (a + b)"
  for a b :: "'a::len word"
  by (simp add: saddP_def signed_checked_add_def)

subsection \<open>Loops\<close>

text \<open>
  A loop is a \<^theory_text>\<open>partial_function\<close> into an option: \<^const>\<open>None\<close> is a loop that does not end.
\<close>

type_synonym 'a run = "'a res option"

abbreviation ret :: "'a \<Rightarrow> 'a run" where "ret x \<equiv> Some (Inr x)"

definition bindO :: "'a run \<Rightarrow> ('a \<Rightarrow> 'b run) \<Rightarrow> 'b run" where
  "bindO m f = (case m of None \<Rightarrow> None | Some (Inl p) \<Rightarrow> Some (Inl p) | Some (Inr x) \<Rightarrow> f x)"

lemma bindO_simps [simp]:
  "bindO None f = None"
  "bindO (Some (Inl p)) f = Some (Inl p)"
  "bindO (ret x) f = f x"
  by (simp_all add: bindO_def)

lemma bindO_eq_ret: "bindO m f = ret y \<longleftrightarrow> (\<exists>x. m = ret x \<and> f x = ret y)"
  by (simp add: bindO_def split: option.split sum.split)

lemma bindO_mono [partial_function_mono]:
  assumes "mono_option A" "\<And>y. mono_option (\<lambda>f. C y f)"
  shows "mono_option (\<lambda>f. bindO (A f) (\<lambda>y. C y f))"
proof -
  have "bindO m f = Option.bind m (\<lambda>r. case r of Inl p \<Rightarrow> Some (Inl p) | Inr x \<Rightarrow> f x)"
    for m :: "'c run" and f :: "'c \<Rightarrow> 'd run"
    by (cases m) (simp_all add: bindO_def split: sum.split)
  moreover have "mono_option (\<lambda>f. case r of Inl p \<Rightarrow> Some (Inl p) | Inr x \<Rightarrow> C x f)" for r
    using assms(2) by (cases r) (simp_all add: partial_function_mono)
  ultimately show ?thesis using assms(1)
    by (simp only:) (rule bind_mono)
qed

subsection \<open>Masking a word\<close>

lemma unat_and_mask: "unat (x AND mask n) = unat x mod 2 ^ n" for x :: "'a::len word"
  by (simp flip: take_bit_eq_mask take_bit_eq_mod add: unsigned_take_bit_eq)

lemma or_eq_plus: "(\<And>n. \<not> bit a n \<or> \<not> bit b n) \<Longrightarrow> a OR b = a + b" for a b :: "'a::len word"
  by (rule disjunctive_add [symmetric]) blast

lemma unat_mod_pow2_plus:
  fixes x y :: "'a::len word"
  assumes "n \<le> LENGTH('a)"
  shows "(unat x + unat y) mod 2 ^ n = unat (x + y) mod 2 ^ n"
  using assms by (simp add: unat_word_ariths mod_mod_cancel le_imp_power_dvd)

lemma and_not_mask_minus: "x AND NOT (mask n) = x - (x AND mask n)" for x :: "'a::len word"
proof -
  have "(x AND NOT (mask n)) OR (x AND mask n) = x" by (rule bit_eqI) (auto simp: bit_simps)
  moreover have "(x AND NOT (mask n)) + (x AND mask n) = (x AND NOT (mask n)) OR (x AND mask n)"
    by (rule disjunctive_add) (auto simp: bit_simps)
  ultimately have "(x AND NOT (mask n)) + (x AND mask n) = x" by simp
  then show ?thesis by (simp add: algebra_simps)
qed

lemma unat_and_not_mask: "unat (x AND NOT (mask n)) = unat x - unat x mod 2 ^ n" for x :: "'a::len word"
proof -
  have "x AND mask n \<le> x" by (simp add: word_le_nat_alt unat_and_mask)
  then show ?thesis by (simp add: and_not_mask_minus unat_sub_small unat_and_mask)
qed

lemma or_tag_nat: "x < 2 ^ k \<Longrightarrow> 2 ^ k dvd t \<Longrightarrow> t OR x = t + x" for t x :: nat
proof -
  assume x: "x < 2 ^ k" and "2 ^ k dvd t"
  then obtain q where "t = q * 2 ^ k" by (metis dvdE mult.commute)
  then have "t = push_bit k q" by (simp add: push_bit_eq_mult)
  moreover have "x = take_bit k x" using x by (simp add: take_bit_nat_eq_self)
  ultimately have "\<not> bit t n \<or> \<not> bit x n" for n by (metis bit_push_bit_iff bit_take_bit_iff not_less)
  then show ?thesis by (intro disjunctive_add [symmetric]) blast
qed

lemma unat_or_tag:
  "unat x < 2 ^ k \<Longrightarrow> 2 ^ k dvd unat t \<Longrightarrow> unat (t OR x) = unat t + unat x" for t x :: "'a::len word"
  by (simp add: unsigned_or_eq or_tag_nat)

lemma unat_and_masks:
  "unat (x AND 0x3F) = unat x mod 64" "unat (x AND 0x1F) = unat x mod 32"
  "unat (x AND 0x0F) = unat x mod 16" "unat (x AND 7) = unat x mod 8" "unat (x AND 0x3FF) = unat x mod 1024"
  "unat (x AND 0xFFFF) = unat x mod 65536" for x :: "'a::len word"
  using unat_and_mask [of x 6] unat_and_mask [of x 5] unat_and_mask [of x 4] unat_and_mask [of x 3]
    unat_and_mask [of x 10] unat_and_mask [of x 16]
  by (simp_all add: mask_eq_exp_minus_1)

lemma unat_drop_bit: "unat (drop_bit n x) = unat x div 2 ^ n" for x :: "'a::len word"
  by (subst unat_drop_bit_eq) (rule drop_bit_eq_div)

lemma unat_push_bit: "unat x * 2 ^ n < 2 ^ LENGTH('a) \<Longrightarrow> unat (push_bit n x) = unat x * 2 ^ n" for x :: "'a::len word"
  by (subst unsigned_push_bit_eq) (simp add: push_bit_eq_mult take_bit_nat_eq_self)

subsection \<open>Slices\<close>

text \<open>Indexing a slice by a range that starts, or ends, at a position: out of bounds is a panic.\<close>

definition slice_from :: "'a list \<Rightarrow> nat \<Rightarrow> 'a list res" where
  "slice_from xs n =
     (if n \<le> length xs then Inr (drop n xs) else Inl (Panic ''slice index starts past the end''))"

definition slice_to :: "'a list \<Rightarrow> nat \<Rightarrow> 'a list res" where
  "slice_to xs n =
     (if n \<le> length xs then Inr (take n xs) else Inl (Panic ''slice index ends past the end''))"

text \<open>\<open>self[at..at + n].copy_from_slice(src)\<close> for a source of length \<open>n\<close>.\<close>

definition copy_at :: "'a list \<Rightarrow> nat \<Rightarrow> 'a list \<Rightarrow> 'a list res" where
  "copy_at self pos src =
     (if pos + length src \<le> length self
      then Inr (take pos self @ src @ drop (pos + length src) self)
      else Inl (Panic ''slice index ends past the end''))"

datatype 'a Cow = Borrowed 'a | Owned 'a

text \<open>\<open>wtf8_bytes[pos .. surrogate_pos]\<close>.\<close>

definition slice_range :: "'a list \<Rightarrow> nat \<Rightarrow> nat \<Rightarrow> 'a list res" where
  "slice_range self i j =
     (if i \<le> j \<and> j \<le> length self then Inr (take (j - i) (drop i self))
      else Inl (Panic ''slice index out of range''))"

subsection \<open>Comparison\<close>

datatype Ordering = Less | Equal | Greater

definition cmp_ord :: "'a::linorder \<Rightarrow> 'a \<Rightarrow> Ordering" where
  "cmp_ord a b = (if a < b then Less else if a = b then Equal else Greater)"

text \<open>Slices compare lexicographically.\<close>

fun cmp_list :: "'a::linorder list \<Rightarrow> 'a list \<Rightarrow> Ordering" where
  "cmp_list [] [] = Equal"
| "cmp_list [] (y # ys) = Less"
| "cmp_list (x # xs) [] = Greater"
| "cmp_list (x # xs) (y # ys) = (case cmp_ord x y of Equal \<Rightarrow> cmp_list xs ys | c \<Rightarrow> c)"

lemma cmp_ord_Equal [simp]: "cmp_ord a b = Equal \<longleftrightarrow> a = b"
  by (auto simp: cmp_ord_def)

lemma cmp_list_Equal [simp]: "cmp_list xs ys = Equal \<longleftrightarrow> xs = ys"
  by (induction xs ys rule: cmp_list.induct) (auto simp: cmp_ord_def split: Ordering.split)

end
