(* ===== verification/Duration_Time.thy ===== *)
theory Duration_Time
  imports Rust_Base
begin

section \<open>\<open>time/duration.rs\<close>: the Duration type\<close>

text \<open>
  The value type Duration of \<open>src/time/duration.rs\<close>: seconds as \<open>u64\<close>, nanoseconds as
  \<open>u32\<close>, and the invariant that the nanoseconds stay below one billion. Every constructor
  and checked operation is translated with its overflow behaviour: plain \<open>+\<close>, \<open>-\<close>, \<open>*\<close>
  panic on overflow, \<open>as\<close> truncates. The abstraction \<open>nanos_of\<close> reads a duration as its number
  of nanoseconds; the lemmas show that each operation computes the exact operation on that
  number, fails exactly when the result does not fit, and never panics on valid arguments.
\<close>

datatype Duration = Duration (secs: u64) (nanos: u32)

abbreviation NANOS_PER_SEC :: u32 where "NANOS_PER_SEC \<equiv> 1000000000"
abbreviation NANOS_PER_MILLI :: u32 where "NANOS_PER_MILLI \<equiv> 1000000"
abbreviation NANOS_PER_MICRO :: u32 where "NANOS_PER_MICRO \<equiv> 1000"
abbreviation MILLIS_PER_SEC :: u64 where "MILLIS_PER_SEC \<equiv> 1000"
abbreviation MICROS_PER_SEC :: u64 where "MICROS_PER_SEC \<equiv> 1000000"

definition Duration_new :: "u64 \<Rightarrow> u32 \<Rightarrow> Duration res" where
  "Duration_new s n =
     bindR (expectR ''overflow in Duration::new''
              (word_checked_add s (ucast (n div NANOS_PER_SEC)))) (\<lambda>s'.
     Inr (Duration s' (n mod NANOS_PER_SEC)))"

definition Duration_from_secs :: "u64 \<Rightarrow> Duration" where
  "Duration_from_secs s = Duration s 0"

definition Duration_from_millis :: "u64 \<Rightarrow> Duration res" where
  "Duration_from_millis millis =
     bindR (mulP (ucast (millis mod MILLIS_PER_SEC)) NANOS_PER_MILLI) (\<lambda>n.
     Inr (Duration (millis div MILLIS_PER_SEC) n))"

definition Duration_from_micros :: "u64 \<Rightarrow> Duration res" where
  "Duration_from_micros micros =
     bindR (mulP (ucast (micros mod MICROS_PER_SEC)) NANOS_PER_MICRO) (\<lambda>n.
     Inr (Duration (micros div MICROS_PER_SEC) n))"

definition Duration_as_secs :: "Duration \<Rightarrow> u64" where
  "Duration_as_secs self = secs self"

definition Duration_subsec_nanos :: "Duration \<Rightarrow> u32" where
  "Duration_subsec_nanos self = nanos self"

definition Duration_checked_add :: "Duration \<Rightarrow> Duration \<Rightarrow> Duration option res" where
  "Duration_checked_add self rhs =
     (case word_checked_add (secs self) (secs rhs) of
        None \<Rightarrow> Inr None
      | Some s \<Rightarrow>
          bindR (addP (nanos self) (nanos rhs)) (\<lambda>n.
          if n \<ge> NANOS_PER_SEC then
            bindR (subP n NANOS_PER_SEC) (\<lambda>n'.
            case word_checked_add s 1 of
              None \<Rightarrow> Inr None
            | Some s' \<Rightarrow>
                bindR (assertR ''nanos < NANOS_PER_SEC'' (n' < NANOS_PER_SEC)) (\<lambda>_.
                Inr (Some (Duration s' n'))))
          else
            bindR (assertR ''nanos < NANOS_PER_SEC'' (n < NANOS_PER_SEC)) (\<lambda>_.
            Inr (Some (Duration s n)))))"

definition Duration_checked_sub :: "Duration \<Rightarrow> Duration \<Rightarrow> Duration option res" where
  "Duration_checked_sub self rhs =
     (case word_checked_sub (secs self) (secs rhs) of
        None \<Rightarrow> Inr None
      | Some s \<Rightarrow>
          if nanos self \<ge> nanos rhs then
            bindR (subP (nanos self) (nanos rhs)) (\<lambda>n.
            bindR (assertR ''nanos < NANOS_PER_SEC'' (n < NANOS_PER_SEC)) (\<lambda>_.
            Inr (Some (Duration s n))))
          else
            (case word_checked_sub s 1 of
               None \<Rightarrow> Inr None
             | Some s' \<Rightarrow>
                 bindR (addP (nanos self) NANOS_PER_SEC) (\<lambda>m.
                 bindR (subP m (nanos rhs)) (\<lambda>n.
                 bindR (assertR ''nanos < NANOS_PER_SEC'' (n < NANOS_PER_SEC)) (\<lambda>_.
                 Inr (Some (Duration s' n)))))))"

definition Duration_checked_mul :: "Duration \<Rightarrow> u32 \<Rightarrow> Duration option res" where
  "Duration_checked_mul self rhs =
     bindR (mulP (ucast (nanos self) :: u64) (ucast rhs)) (\<lambda>total_nanos.
     let extra_secs = total_nanos div ucast NANOS_PER_SEC;
         n = ucast (total_nanos mod ucast NANOS_PER_SEC)
     in case Option.bind (word_checked_mul (secs self) (ucast rhs))
               (\<lambda>s. word_checked_add s extra_secs) of
          None \<Rightarrow> Inr None
        | Some s \<Rightarrow>
            bindR (assertR ''nanos < NANOS_PER_SEC'' (n < NANOS_PER_SEC)) (\<lambda>_.
            Inr (Some (Duration s n))))"

definition Duration_checked_div :: "Duration \<Rightarrow> u32 \<Rightarrow> Duration option res" where
  "Duration_checked_div self rhs =
     (if rhs \<noteq> 0 then
        let s = secs self div ucast rhs in
        bindR (mulP s (ucast rhs)) (\<lambda>m.
        bindR (subP (secs self) m) (\<lambda>carry.
        bindR (mulP carry (ucast NANOS_PER_SEC)) (\<lambda>p.
        let extra_nanos = p div ucast rhs in
        bindR (addP (nanos self div rhs) (ucast extra_nanos)) (\<lambda>n.
        bindR (assertR ''nanos < NANOS_PER_SEC'' (n < NANOS_PER_SEC)) (\<lambda>_.
        Inr (Some (Duration s n)))))))
      else Inr None)"

text \<open>The operator implementations unwrap the checked operations.\<close>

definition Duration_add :: "Duration \<Rightarrow> Duration \<Rightarrow> Duration res" where
  "Duration_add self rhs =
     bindR (Duration_checked_add self rhs) (expectR ''overflow when adding durations'')"

definition Duration_sub :: "Duration \<Rightarrow> Duration \<Rightarrow> Duration res" where
  "Duration_sub self rhs =
     bindR (Duration_checked_sub self rhs) (expectR ''overflow when subtracting durations'')"

definition Duration_mul :: "Duration \<Rightarrow> u32 \<Rightarrow> Duration res" where
  "Duration_mul self rhs =
     bindR (Duration_checked_mul self rhs)
       (expectR ''overflow when multiplying duration by scalar'')"

definition Duration_div :: "Duration \<Rightarrow> u32 \<Rightarrow> Duration res" where
  "Duration_div self rhs =
     bindR (Duration_checked_div self rhs)
       (expectR ''divide by zero error when dividing duration by scalar'')"

fun Duration_sum_from :: "Duration \<Rightarrow> Duration list \<Rightarrow> Duration res" where
  "Duration_sum_from acc [] = Inr acc"
| "Duration_sum_from acc (d # ds) =
     bindR (Duration_add acc d) (\<lambda>acc'. Duration_sum_from acc' ds)"

definition Duration_sum :: "Duration list \<Rightarrow> Duration res" where
  "Duration_sum iter = bindR (Duration_new 0 0) (\<lambda>z. Duration_sum_from z iter)"

text \<open>The derived ordering compares the seconds, then the nanoseconds.\<close>

instantiation Duration :: linorder
begin

definition less_eq_Duration :: "Duration \<Rightarrow> Duration \<Rightarrow> bool" where
  "less_eq_Duration a b \<longleftrightarrow> secs a < secs b \<or> secs a = secs b \<and> nanos a \<le> nanos b"

definition less_Duration :: "Duration \<Rightarrow> Duration \<Rightarrow> bool" where
  "less_Duration a b \<longleftrightarrow> secs a < secs b \<or> secs a = secs b \<and> nanos a < nanos b"

instance
  by standard (auto simp: less_eq_Duration_def less_Duration_def Duration.expand)

end

subsection \<open>The invariant and the number of nanoseconds\<close>

definition valid_duration :: "Duration \<Rightarrow> bool" where
  "valid_duration d \<longleftrightarrow> unat (nanos d) < 10 ^ 9"

definition nanos_of :: "Duration \<Rightarrow> nat" where
  "nanos_of d = unat (secs d) * 10 ^ 9 + unat (nanos d)"

abbreviation duration_limit :: nat where
  "duration_limit \<equiv> 2 ^ 64 * 10 ^ 9"

lemma u64_bound: "unat (s :: u64) < 2 ^ 64"
  using unat_less_length [of s] by simp

lemma u32_bound: "unat (n :: u32) < 2 ^ 32"
  using unat_less_length [of n] by simp

lemma nanos_of_less_limit: "valid_duration d \<Longrightarrow> nanos_of d < duration_limit"
  using u64_bound [of "secs d"] by (simp add: valid_duration_def nanos_of_def)

lemma nanos_of_div_mod:
  assumes "valid_duration d"
  shows "nanos_of d div 10 ^ 9 = unat (secs d)" "nanos_of d mod 10 ^ 9 = unat (nanos d)"
  using assms by (simp_all add: valid_duration_def nanos_of_def)

lemma nanos_of_eq_iff:
  assumes "valid_duration a" "valid_duration b"
  shows "nanos_of a = nanos_of b \<longleftrightarrow> a = b"
proof
  assume "nanos_of a = nanos_of b"
  with assms have "unat (secs a) = unat (secs b) \<and> unat (nanos a) = unat (nanos b)"
    by (metis nanos_of_div_mod)
  then show "a = b" by (simp add: Duration.expand unat_eq_iff)
qed simp

lemma nanos_of_le_iff:
  assumes "valid_duration a" "valid_duration b"
  shows "nanos_of a \<le> nanos_of b \<longleftrightarrow> a \<le> b"
  using assms
  unfolding valid_duration_def nanos_of_def less_eq_Duration_def
    word_less_nat_alt word_le_nat_alt unat_eq_iff
  by auto

text \<open>What an operation that may not fit returns, against the exact number \<open>n\<close>.\<close>

definition computes_nanos :: "Duration option res \<Rightarrow> nat \<Rightarrow> bool" where
  "computes_nanos r n \<longleftrightarrow>
     (if n < duration_limit
      then \<exists>d. r = Inr (Some d) \<and> valid_duration d \<and> nanos_of d = n
      else r = Inr None)"

lemma computes_nanosI:
  assumes "r = Inr (Some d)" "valid_duration d" "nanos_of d = n"
  shows "computes_nanos r n"
  using assms nanos_of_less_limit [of d] by (auto simp: computes_nanos_def)

lemma computes_nanos_fail: "r = Inr None \<Longrightarrow> duration_limit \<le> n \<Longrightarrow> computes_nanos r n"
  by (simp add: computes_nanos_def)

lemma checked_add_computes:
  assumes v: "valid_duration a" "valid_duration b"
  shows "computes_nanos (Duration_checked_add a b) (nanos_of a + nanos_of b)"
proof (cases "word_checked_add (secs a) (secs b)")
  case None
  then have "2 ^ 64 \<le> unat (secs a) + unat (secs b)"
    by (simp add: word_checked_add_None)
  with None show ?thesis
    by (intro computes_nanos_fail) (simp_all add: Duration_checked_add_def nanos_of_def)
next
  case (Some s)
  let ?n = "nanos a + nanos b" and ?r = "nanos a + nanos b - NANOS_PER_SEC"
  have s: "unat s = unat (secs a) + unat (secs b)"
    using Some by (simp add: word_checked_add_Some)
  have fits: "unat (nanos a) + unat (nanos b) < 2 ^ LENGTH(32)"
    using v by (simp add: valid_duration_def)
  then have n: "unat ?n = unat (nanos a) + unat (nanos b)" by (rule unat_add_small)
  show ?thesis
  proof (cases "?n \<ge> NANOS_PER_SEC")
    case False
    then show ?thesis using s n v Some fits
      by (intro computes_nanosI [of _ "Duration s ?n"])
        (simp_all add: Duration_checked_add_def addP_ok valid_duration_def nanos_of_def
          word_le_nat_alt not_le word_less_nat_alt)
  next
    case True
    then have ge: "10 ^ 9 \<le> unat ?n" by (simp add: word_le_nat_alt)
    then have n': "unat ?r = unat ?n - 10 ^ 9"
      using True by (simp add: unat_sub_small)
    then have small: "unat ?r < 10 ^ 9" using n v by (simp add: valid_duration_def)
    show ?thesis
    proof (cases "word_checked_add s 1")
      case None
      then have "2 ^ 64 \<le> unat s + 1" by (simp add: word_checked_add_None)
      with None Some True fits ge n s show ?thesis
        by (intro computes_nanos_fail)
          (simp_all add: Duration_checked_add_def arithP_ok nanos_of_def)
    next
      case (Some s')
      then have "unat s' = unat s + 1" by (simp add: word_checked_add_Some)
      with Some \<open>word_checked_add (secs a) (secs b) = Some s\<close> True fits ge n n' s small show ?thesis
        by (intro computes_nanosI [of _ "Duration s' ?r"])
          (simp_all add: Duration_checked_add_def arithP_ok nanos_of_def valid_duration_def
            word_less_nat_alt)
    qed
  qed
qed

lemma checked_sub_computes:
  assumes v: "valid_duration a" "valid_duration b"
  shows "if nanos_of b \<le> nanos_of a
         then computes_nanos (Duration_checked_sub a b) (nanos_of a - nanos_of b)
         else Duration_checked_sub a b = Inr None"
proof (cases "word_checked_sub (secs a) (secs b)")
  case None
  then have "unat (secs a) < unat (secs b)" by (simp add: word_checked_sub_None)
  with None v show ?thesis
    by (auto simp: Duration_checked_sub_def nanos_of_def valid_duration_def)
next
  case (Some s)
  then have s: "unat (secs a) = unat (secs b) + unat s" by (simp add: word_checked_sub_Some)
  show ?thesis
  proof (cases "nanos a \<ge> nanos b")
    case True
    let ?n = "nanos a - nanos b"
    have n: "unat ?n = unat (nanos a) - unat (nanos b)" "unat (nanos b) \<le> unat (nanos a)"
      using True by (simp_all add: unat_sub_small word_le_nat_alt)
    moreover from n have "unat ?n < 10 ^ 9" using v by (simp add: valid_duration_def)
    ultimately have "computes_nanos (Duration_checked_sub a b) (nanos_of a - nanos_of b)"
      using s Some True
      by (intro computes_nanosI [of _ "Duration s ?n"])
        (simp_all add: Duration_checked_sub_def subP_ok valid_duration_def nanos_of_def
          word_less_nat_alt)
    with s n show ?thesis by (simp add: nanos_of_def)
  next
    case False
    then have lt: "unat (nanos a) < unat (nanos b)" by (simp add: word_le_nat_alt)
    show ?thesis
    proof (cases "word_checked_sub s 1")
      case None
      then have "unat s = 0" by (simp add: word_checked_sub_None)
      with None Some False lt s show ?thesis
        by (simp add: Duration_checked_sub_def nanos_of_def)
    next
      case (Some s')
      let ?m = "nanos a + NANOS_PER_SEC"
      have s': "unat s = 1 + unat s'" using Some by (simp add: word_checked_sub_Some)
      have fits: "unat (nanos a) + unat NANOS_PER_SEC < 2 ^ LENGTH(32)"
        using v by (simp add: valid_duration_def)
      then have m: "unat ?m = unat (nanos a) + 10 ^ 9" by (simp add: unat_add_small)
      then have le: "unat (nanos b) \<le> unat ?m" using v by (simp add: valid_duration_def)
      then have d: "unat (?m - nanos b) = unat ?m - unat (nanos b)"
        by (simp add: unat_sub_small word_le_nat_alt)
      then have "unat (?m - nanos b) < 10 ^ 9" using m lt by simp
      with le d have "computes_nanos (Duration_checked_sub a b) (nanos_of a - nanos_of b)"
        using s s' m lt v fits False Some \<open>word_checked_sub (secs a) (secs b) = Some s\<close>
        by (intro computes_nanosI [of _ "Duration s' (?m - nanos b)"])
          (simp_all add: Duration_checked_sub_def arithP_ok valid_duration_def nanos_of_def
            word_less_nat_alt)
      with s s' v show ?thesis by (simp add: nanos_of_def valid_duration_def)
    qed
  qed
qed

lemma checked_mul_computes:
  assumes v: "valid_duration a"
  shows "computes_nanos (Duration_checked_mul a r) (nanos_of a * unat r)"
proof -
  let ?t = "(ucast (nanos a) :: u64) * ucast r"
  let ?e = "?t div ucast NANOS_PER_SEC" and ?n = "ucast (?t mod ucast NANOS_PER_SEC) :: u32"
  have "unat (nanos a) * unat r < 10 ^ 9 * 2 ^ 32"
    using v u32_bound [of r] by (intro mult_strict_mono) (simp_all add: valid_duration_def)
  then have fits: "unat (ucast (nanos a) :: u64) * unat (ucast r :: u64) < 2 ^ LENGTH(64)"
    by simp
  then have t: "unat ?t = unat (nanos a) * unat r" by (simp add: unat_mult_small)
  have e: "unat ?e = unat (nanos a) * unat r div 10 ^ 9"
    using t by (simp add: unat_div)
  have n: "unat ?n = unat (nanos a) * unat r mod 10 ^ 9"
    using t by (subst unat_ucast_small) (simp_all add: unat_mod order_less_trans [OF mod_less_divisor])
  then have small: "unat ?n < 10 ^ 9" by simp
  have total: "nanos_of a * unat r = (unat (secs a) * unat r + unat ?e) * 10 ^ 9 + unat ?n"
    unfolding e n nanos_of_def by (simp add: algebra_simps flip: distrib_left) 
  let ?s = "Option.bind (word_checked_mul (secs a) (ucast r)) (\<lambda>s. word_checked_add s ?e)"
  show ?thesis
  proof (cases ?s)
    case None
    then have "2 ^ 64 \<le> unat (secs a) * unat r + unat ?e"
      by (cases "word_checked_mul (secs a) (ucast r)") (simp_all add: rust_arith)
    then show ?thesis using None fits total
      by (intro computes_nanos_fail) (simp_all add: Duration_checked_mul_def mulP_ok Let_def)
  next
    case (Some s)
    then have "unat s = unat (secs a) * unat r + unat ?e"
      by (auto simp: bind_eq_Some_conv rust_arith)
    then show ?thesis using Some fits total small
      by (intro computes_nanosI [of _ "Duration s ?n"])
        (simp_all add: Duration_checked_mul_def mulP_ok Let_def nanos_of_def valid_duration_def
           word_less_nat_alt)
  qed
qed

lemma div_sum_bound:
  fixes S N R :: nat
  assumes R: "0 < R" and N: "N < B"
  shows "N div R + S mod R * B div R < B"
proof -
  have "S mod R * B + B \<le> R * B"
    using mod_less_divisor [OF R, of S] by (metis Suc_leI add.commute mult_Suc mult_le_mono1)
  with N have "(S mod R * B + N) div R < B"
    by (intro less_mult_imp_div_less) (simp add: mult.commute)
  then show ?thesis using div_add1_eq [of "S mod R * B" N R] by linarith
qed

lemma div_sum_exact:
  fixes S N R :: nat
  assumes R: "0 < R"
  shows "(S * B + N) div R = S div R * B + (N div R + S mod R * B div R)
    + (S mod R * B mod R + N mod R) div R"
proof -
  have "S * B + N = (S div R * B) * R + (S mod R * B + N)"
    by (metis (no_types, lifting) add.assoc div_mult_mod_eq distrib_right mult.assoc mult.commute)
  then have "(S * B + N) div R = S div R * B + (S mod R * B + N) div R"
    using R div_mult_self3 [of R "S div R * B" "S mod R * B + N"]
    by (metis less_numeral_extra(3))
  then show ?thesis using div_add1_eq [of "S mod R * B" N R] by linarith
qed

lemma checked_div_computes:
  assumes v: "valid_duration a" and r: "r \<noteq> 0"
  shows "\<exists>d. Duration_checked_div a r = Inr (Some d) \<and> valid_duration d \<and>
    nanos_of a div unat r = nanos_of d +
      (unat (secs a) mod unat r * 10 ^ 9 mod unat r + unat (nanos a) mod unat r) div unat r"
proof -
  let ?R = "unat r" and ?S = "unat (secs a)" and ?N = "unat (nanos a)"
  define q where "q = secs a div ucast r"
  define m where "m = q * ucast r"
  define c where "c = secs a - m"
  define p where "p = c * 1000000000"
  define x where "x = (ucast (p div ucast r) :: u32)"
  define n where "n = nanos a div r + x"
  have R: "0 < ?R" using r by (simp add: unat_gt_0)
  have q: "unat q = ?S div ?R" by (simp add: q_def unat_div)
  have qr: "unat q * unat (ucast r :: u64) < 2 ^ LENGTH(64)"
    using le_less_trans [OF div_times_less_eq_dividend u64_bound [of "secs a"], of ?R]
    by (simp add: q)
  then have m: "unat m = ?S div ?R * ?R" by (simp add: m_def unat_mult_small q)
  then have mS: "unat m \<le> ?S" by simp
  then have c: "unat c = ?S mod ?R"
    using m by (simp add: c_def unat_sub_small word_le_nat_alt minus_div_mult_eq_mod)
  have "unat c * 10 ^ 9 < 2 ^ 32 * 10 ^ 9"
    using mod_less_divisor [OF R, of ?S] u32_bound [of r] by (simp add: c)
  then have pfit: "unat c * unat (1000000000 :: u64) < 2 ^ LENGTH(64)" by simp
  then have p: "unat p = ?S mod ?R * 10 ^ 9" by (simp add: p_def unat_mult_small c)
  have key: "?N div ?R + ?S mod ?R * 10 ^ 9 div ?R < 10 ^ 9"
    using div_sum_bound [OF R, of ?N "10 ^ 9" ?S] v by (simp add: valid_duration_def)
  then have x: "unat x = ?S mod ?R * 10 ^ 9 div ?R"
    unfolding x_def by (subst unat_ucast_small) (simp_all add: unat_div p)
  then have nfit: "unat (nanos a div r) + unat x < 2 ^ LENGTH(32)"
    using key by (simp add: unat_div)
  then have n: "unat n = ?N div ?R + ?S mod ?R * 10 ^ 9 div ?R"
    by (simp add: n_def unat_add_small x unat_div)
  have "Duration_checked_div a r = Inr (Some (Duration q n))"
    using r key mulP_ok [OF qr] subP_ok [OF mS] mulP_ok [OF pfit] addP_ok [OF nfit]
    by (simp add: Duration_checked_div_def Let_def word_less_nat_alt n
        flip: q_def m_def c_def p_def x_def n_def)
  then show ?thesis
    using key n q div_sum_exact [OF R, of ?S "10 ^ 9" ?N]
    by (simp add: valid_duration_def nanos_of_def)
qed

text \<open>Constructors.\<close>

lemma Duration_new_computes:
  "if unat s * 10 ^ 9 + unat n < duration_limit
   then \<exists>d. Duration_new s n = Inr d \<and> valid_duration d \<and> nanos_of d = unat s * 10 ^ 9 + unat n
   else Duration_new s n = Inl (Panic ''overflow in Duration::new'')"
proof (cases "word_checked_add s (ucast (n div NANOS_PER_SEC))")
  case None
  then have "2 ^ 64 \<le> unat s + unat n div 10 ^ 9"
    by (simp add: word_checked_add_None unat_div)
  then have "duration_limit \<le> unat s * 10 ^ 9 + unat n" by simp
  with None show ?thesis by (simp add: Duration_new_def)
next
  case (Some s')
  then have s': "unat s' = unat s + unat n div 10 ^ 9"
    by (simp add: word_checked_add_Some unat_div)
  have n: "unat (n mod NANOS_PER_SEC) = unat n mod 10 ^ 9" by (simp add: unat_mod)
  then have "nanos_of (Duration s' (n mod NANOS_PER_SEC)) = unat s * 10 ^ 9 + unat n"
    by (simp add: nanos_of_def s' add_mult_distrib)
  moreover have "valid_duration (Duration s' (n mod NANOS_PER_SEC))"
    by (simp add: valid_duration_def n)
  moreover have "unat s * 10 ^ 9 + unat n < duration_limit"
    using calculation nanos_of_less_limit by metis
  ultimately show ?thesis using Some by (simp add: Duration_new_def)
qed

lemma Duration_from_secs_computes:
  "valid_duration (Duration_from_secs s) \<and> nanos_of (Duration_from_secs s) = unat s * 10 ^ 9"
  by (simp add: Duration_from_secs_def valid_duration_def nanos_of_def)

lemma from_scaled:
  assumes k: "unat (M :: u64) * unat (K :: u32) = 10 ^ 9"
  shows "\<exists>n. mulP (ucast (x mod M) :: u32) K = Inr n \<and> unat n < 10 ^ 9 \<and>
     unat (x div M) * 10 ^ 9 + unat n = unat x * unat K"
proof -
  have M: "0 < unat M" "unat M \<le> 10 ^ 9" using k by (auto intro: Nat.gr0I)
      (metis dvd_imp_le dvd_triv_left k zero_less_numeral zero_less_power)
  have r: "unat (x mod M) < unat M" using M by (simp add: unat_mod)
  then have u: "unat (ucast (x mod M) :: u32) = unat x mod unat M"
    using M r by (subst unat_ucast_small) (simp_all add: unat_mod)
  have "unat x mod unat M * unat K < unat M * unat K"
    using M k by (intro mult_strict_right_mono) (auto intro: Nat.gr0I)
  then have lt: "unat x mod unat M * unat K < 10 ^ 9" using k by simp
  then have fit: "unat (ucast (x mod M) :: u32) * unat K < 2 ^ LENGTH(32)" by (simp add: u)
  have "unat (x div M) * 10 ^ 9 + unat x mod unat M * unat K = unat x * unat K"
    unfolding k [symmetric] unat_div
    by (metis add_mult_distrib div_mult_mod_eq mult.assoc)
  then show ?thesis using lt fit u by (auto simp: mulP_ok unat_mult_small)
qed

lemma Duration_from_millis_computes:
  "\<exists>d. Duration_from_millis x = Inr d \<and> valid_duration d \<and> nanos_of d = unat x * 10 ^ 6"
  using from_scaled [of MILLIS_PER_SEC NANOS_PER_MILLI x]
  by (auto simp: Duration_from_millis_def valid_duration_def nanos_of_def)

lemma Duration_from_micros_computes:
  "\<exists>d. Duration_from_micros x = Inr d \<and> valid_duration d \<and> nanos_of d = unat x * 10 ^ 3"
  using from_scaled [of MICROS_PER_SEC NANOS_PER_MICRO x]
  by (auto simp: Duration_from_micros_def valid_duration_def nanos_of_def)

text \<open>The operators, and the sum of a list.\<close>

lemma Duration_add_computes:
  assumes "valid_duration a" "valid_duration b"
  shows "if nanos_of a + nanos_of b < duration_limit
     then \<exists>d. Duration_add a b = Inr d \<and> valid_duration d \<and> nanos_of d = nanos_of a + nanos_of b
     else Duration_add a b = Inl (Panic ''overflow when adding durations'')"
  using checked_add_computes [OF assms]
  by (auto simp: computes_nanos_def Duration_add_def split: if_splits)

lemma Duration_sum_from_computes:
  assumes "valid_duration a" "\<forall>d \<in> set ds. valid_duration d"
  shows "if nanos_of a + sum_list (map nanos_of ds) < duration_limit
     then \<exists>d. Duration_sum_from a ds = Inr d \<and> valid_duration d \<and>
            nanos_of d = nanos_of a + sum_list (map nanos_of ds)
     else Duration_sum_from a ds = Inl (Panic ''overflow when adding durations'')"
  using assms
proof (induction ds arbitrary: a)
  case Nil
  then show ?case using nanos_of_less_limit by auto
next
  case (Cons e ds)
  show ?case
  proof (cases "nanos_of a + nanos_of e < duration_limit")
    case True
    then obtain d where d: "Duration_add a e = Inr d" "valid_duration d"
      "nanos_of d = nanos_of a + nanos_of e"
      using Duration_add_computes [of a e] Cons.prems by auto
    moreover have "\<forall>d \<in> set ds. valid_duration d" using Cons.prems by simp
    ultimately show ?thesis using Cons.IH [of d] by (auto simp: add.assoc split: if_splits)
  next
    case False
    then show ?thesis using Duration_add_computes [of a e] Cons.prems by simp
  qed
qed

subsection \<open>Correctness of the arithmetic\<close>

text \<open>
  C10: on valid durations \<open>checked_add\<close>, \<open>checked_sub\<close> and \<open>checked_mul\<close> compute exactly the
  sum, the difference and the multiple of the numbers of nanoseconds; they return \<open>None\<close>
  exactly when that number is negative or does not fit the type, and neither the inner
  operators nor the debug assertion ever panics.
\<close>

theorem Duration_checked_ops_exact:
  assumes "valid_duration a" "valid_duration b"
  shows "computes_nanos (Duration_checked_add a b) (nanos_of a + nanos_of b) \<and>
    (if nanos_of b \<le> nanos_of a
     then computes_nanos (Duration_checked_sub a b) (nanos_of a - nanos_of b)
     else Duration_checked_sub a b = Inr None) \<and>
    computes_nanos (Duration_checked_mul a r) (nanos_of a * unat r)"
  using checked_add_computes [OF assms] checked_sub_computes [OF assms]
    checked_mul_computes [OF assms(1)] by blast

theorem Duration_checked_ops_exact_witness:
  "valid_duration (Duration 2 700000000) \<and> valid_duration (Duration 1 800000000) \<and>
   computes_nanos (Duration_checked_add (Duration 2 700000000) (Duration 1 800000000)) 4500000000 \<and>
   computes_nanos (Duration_checked_sub (Duration 2 700000000) (Duration 1 800000000)) 900000000 \<and>
   computes_nanos (Duration_checked_mul (Duration 2 700000000) 3) 8100000000"
proof -
  have v: "valid_duration (Duration 2 700000000)" "valid_duration (Duration 1 800000000)"
    by (simp_all add: valid_duration_def)
  show ?thesis
    using v Duration_checked_ops_exact [OF v, of 3] by (simp add: nanos_of_def)
qed

text \<open>
  C11: division by a non-zero scalar never panics and returns a valid duration that is at most
  one nanosecond below the exact quotient of the numbers of nanoseconds; it is exact whenever
  the two remainders that the code discards add up to less than the divisor.
\<close>

theorem Duration_checked_div_within_one:
  assumes "valid_duration a" "r \<noteq> 0"
  shows "\<exists>d. Duration_checked_div a r = Inr (Some d) \<and> valid_duration d \<and>
    nanos_of d \<le> nanos_of a div unat r \<and> nanos_of a div unat r \<le> nanos_of d + 1 \<and>
    (nanos_of d = nanos_of a div unat r \<longleftrightarrow>
       unat (secs a) mod unat r * 10 ^ 9 mod unat r + unat (nanos a) mod unat r < unat r)"
proof -
  let ?R = "unat r"
  let ?e = "unat (secs a) mod ?R * 10 ^ 9 mod ?R + unat (nanos a) mod ?R"
  have R: "0 < ?R" using assms by (simp add: unat_gt_0)
  obtain d where d: "Duration_checked_div a r = Inr (Some d)" "valid_duration d"
    and eq: "nanos_of a div ?R = nanos_of d + ?e div ?R"
    using checked_div_computes [OF assms] by blast
  have "?e < 2 * ?R" using R mod_less_divisor [OF R] by (simp add: add_strict_mono mult_2)
  then have "?e div ?R \<le> 1" by (simp add: div_less_iff_less_mult R less_Suc_eq_le [symmetric])
  moreover have "?e div ?R = 0 \<longleftrightarrow> ?e < ?R" using R by (simp add: div_eq_0_iff)
  ultimately show ?thesis using d eq by auto
qed

theorem Duration_checked_div_within_one_witness:
  "\<exists>d. Duration_checked_div (Duration 1 2) 3 = Inr (Some d) \<and> valid_duration d \<and>
    nanos_of d = 333333333 \<and> nanos_of (Duration 1 2) div 3 = 333333334"
proof -
  have "valid_duration (Duration 1 2)" "(3 :: u32) \<noteq> 0" by (simp_all add: valid_duration_def)
  from Duration_checked_div_within_one [OF this] show ?thesis
    by (auto simp: nanos_of_def)
qed

end
