(* ===== verification/Clock.thy ===== *)
theory Clock
  imports Duration_Time
begin

section \<open>\<open>time/mod.rs\<close> and \<open>sys/*/time.rs\<close>: the clocks\<close>

text \<open>
  The arithmetic of \<open>Instant\<close> and \<open>SystemTime\<close>. A time on Unix and Redox is a \<open>timespec\<close>, a signed number of seconds
  with nanoseconds; on Windows a system time is a \<open>FILETIME\<close>, two halves of a signed number of intervals of
  100 ns, and an instant is a count of the performance counter, as it is on macOS. The reading of a clock
  is a call of the operating system and an argument here: the frequency of a counter, and the times themselves.
  The methods of \<open>time/mod.rs\<close> are written over the operations of a platform, \<open>system_time_ops\<close>; the locale \<open>system_clock\<close>
  states what they rely on, and is interpreted on both representations.
\<close>

type_synonym i64 = "64 word"
type_synonym i32 = "32 word"

subsection \<open>Conversion\<close>

text \<open>\<open>u64\<close> into \<open>i64\<close> by \<open>try_into().ok()\<close>.\<close>

definition u64_try_into_i64 :: "u64 \<Rightarrow> i64 option" where
  "u64_try_into_i64 x = (if unat x < 2 ^ 63 then Some x else None)"

lemma u64_try_into_i64_Some [rust_arith]:
  "u64_try_into_i64 x = Some y \<longleftrightarrow> sint y = int (unat x)"
proof
  assume "u64_try_into_i64 x = Some y"
  then show "sint y = int (unat x)" using sint_small [of x] by (auto simp: u64_try_into_i64_def split: if_splits)
next
  assume y: "sint y = int (unat x)"
  moreover have "sint y < 2 ^ 63" using sint_less [of y] by simp
  ultimately have lt: "unat x < 2 ^ 63" by (simp del: of_nat_unat)
  then have "x = y" using y sint_small [of x] by (simp flip: sint_eq_iff)
  then show "u64_try_into_i64 x = Some y" using lt by (simp add: u64_try_into_i64_def)
qed

subsection \<open>\<open>Timespec\<close>\<close>

datatype Timespec = Timespec (tv_sec: i64) (tv_nsec: i64)

abbreviation NSEC_PER_SEC :: u64 where "NSEC_PER_SEC \<equiv> 1000000000"

text \<open>The order of the pairs of seconds and nanoseconds, which are signed.\<close>

definition Timespec_cmp :: "Timespec \<Rightarrow> Timespec \<Rightarrow> Ordering" where
  "Timespec_cmp self other =
     (case cmp_ord (sint (tv_sec self)) (sint (tv_sec other)) of
        Equal \<Rightarrow> cmp_ord (sint (tv_nsec self)) (sint (tv_nsec other))
      | c \<Rightarrow> c)"

definition Timespec_ge :: "Timespec \<Rightarrow> Timespec \<Rightarrow> bool" where
  "Timespec_ge self other \<longleftrightarrow> Timespec_cmp self other \<noteq> Less"

lemma Timespec_ge_total: "Timespec_ge a b \<or> Timespec_ge b a"
  by (auto simp: Timespec_ge_def Timespec_cmp_def cmp_ord_def split: Ordering.splits if_splits)

text \<open>The error of the result is the duration by which \<open>self\<close> is the earlier one.\<close>

function Timespec_sub_timespec :: "Timespec \<Rightarrow> Timespec \<Rightarrow> (Duration + Duration) res" where
  "Timespec_sub_timespec self other =
     (if Timespec_ge self other then
        bindR
          (if sint (tv_nsec self) \<ge> sint (tv_nsec other) then
             bindR (ssubP (tv_sec self) (tv_sec other)) (\<lambda>s.
             bindR (ssubP (tv_nsec self) (tv_nsec other)) (\<lambda>n.
             Duration_new s (ucast n)))
           else
             bindR (ssubP (tv_sec self) 1) (\<lambda>s1.
             bindR (ssubP s1 (tv_sec other)) (\<lambda>s.
             bindR (addP (ucast (tv_nsec self)) (ucast NSEC_PER_SEC)) (\<lambda>n1.
             bindR (subP n1 (ucast (tv_nsec other))) (\<lambda>n.
             Duration_new s n)))))
          (\<lambda>d. Inr (Inr d))
      else
        bindR (Timespec_sub_timespec other self) (\<lambda>r.
        case r of Inr d \<Rightarrow> Inr (Inl d) | Inl d \<Rightarrow> Inr (Inr d)))"
  by auto
termination
  by (relation "measure (\<lambda>(self, other). if Timespec_ge self other then 0 else 1)")
    (use Timespec_ge_total in auto)

declare Timespec_sub_timespec.simps [simp del]

definition Timespec_add_duration :: "Timespec \<Rightarrow> Duration \<Rightarrow> Timespec res" where
  "Timespec_add_duration self other =
     bindR (expectR ''overflow when adding duration to time''
       (Option.bind (u64_try_into_i64 (Duration_as_secs other))
         (\<lambda>s. signed_checked_add (tv_sec self) s))) (\<lambda>s.
     bindR (addP (Duration_subsec_nanos other) (ucast (tv_nsec self))) (\<lambda>n.
     if n \<ge> ucast NSEC_PER_SEC then
       bindR (subP n (ucast NSEC_PER_SEC)) (\<lambda>n'.
       bindR (expectR ''overflow when adding duration to time'' (signed_checked_add s 1)) (\<lambda>s'.
       Inr (Timespec s' (ucast n'))))
     else Inr (Timespec s (ucast n))))"

definition Timespec_sub_duration :: "Timespec \<Rightarrow> Duration \<Rightarrow> Timespec res" where
  "Timespec_sub_duration self other =
     bindR (expectR ''overflow when subtracting duration from time''
       (Option.bind (u64_try_into_i64 (Duration_as_secs other))
         (\<lambda>s. signed_checked_sub (tv_sec self) s))) (\<lambda>s.
     bindR (ssubP (ucast (tv_nsec self)) (ucast (Duration_subsec_nanos other))) (\<lambda>(n :: i32).
     if sint n < 0 then
       bindR (saddP n (ucast NSEC_PER_SEC)) (\<lambda>n'.
       bindR (expectR ''overflow when subtracting duration from time'' (signed_checked_sub s 1)) (\<lambda>s'.
       Inr (Timespec s' (scast n'))))
     else Inr (Timespec s (scast n))))"

subsection \<open>Times of Unix and Redox\<close>

definition Instant_sub_instant :: "Timespec \<Rightarrow> Timespec \<Rightarrow> Duration res" where
  "Instant_sub_instant self other =
     bindR (Timespec_sub_timespec self other) (\<lambda>r.
     case r of Inr d \<Rightarrow> Inr d | Inl _ \<Rightarrow> Inl (Panic ''other was less than the current instant''))"

subsection \<open>Multiplication and division\<close>

definition divP :: "'a::len word \<Rightarrow> 'a word \<Rightarrow> 'a word res" where
  "divP a b = (if b = 0 then Inl (Panic ''attempt to divide by zero'') else Inr (a div b))"

definition remP :: "'a::len word \<Rightarrow> 'a word \<Rightarrow> 'a word res" where
  "remP a b = (if b = 0 then Inl (Panic ''attempt to calculate the remainder with a divisor of zero'')
     else Inr (a mod b))"

definition mul_div_u64 :: "u64 \<Rightarrow> u64 \<Rightarrow> u64 \<Rightarrow> u64 res" where
  "mul_div_u64 val numer denom =
     bindR (divP val denom) (\<lambda>q.
     bindR (remP val denom) (\<lambda>r.
     bindR (mulP q numer) (\<lambda>a.
     bindR (mulP r numer) (\<lambda>p.
     bindR (divP p denom) (\<lambda>b.
     addP a b)))))"

subsection \<open>System times of Windows\<close>

datatype FILETIME = FILETIME (dwLowDateTime: u32) (dwHighDateTime: u32)

abbreviation INTERVALS_PER_SEC :: u64 where "INTERVALS_PER_SEC \<equiv> 10000000"
abbreviation INTERVALS_TO_UNIX_EPOCH :: u64 where "INTERVALS_TO_UNIX_EPOCH \<equiv> 116444736000000000"

definition FILETIME_UNIX_EPOCH :: FILETIME where
  "FILETIME_UNIX_EPOCH =
     FILETIME (ucast INTERVALS_TO_UNIX_EPOCH) (ucast (drop_bit 32 INTERVALS_TO_UNIX_EPOCH))"

definition from_intervals :: "i64 \<Rightarrow> FILETIME" where
  "from_intervals i = FILETIME (ucast i) (ucast (signed_drop_bit 32 i))"

definition intervals :: "FILETIME \<Rightarrow> i64" where
  "intervals t = ucast (dwLowDateTime t) OR push_bit 32 (ucast (dwHighDateTime t))"

definition intervals2dur :: "u64 \<Rightarrow> Duration res" where
  "intervals2dur i =
     bindR (mulP (i mod INTERVALS_PER_SEC) 100) (\<lambda>n.
     Duration_new (i div INTERVALS_PER_SEC) (ucast n))"

definition dur2intervals :: "Duration \<Rightarrow> i64 res" where
  "dur2intervals d =
     expectR ''overflow when converting duration to intervals''
       (Option.bind (word_checked_mul (Duration_as_secs d) INTERVALS_PER_SEC) (\<lambda>i.
        Option.bind (word_checked_add i (ucast (Duration_subsec_nanos d) div 100)) (\<lambda>i.
        u64_try_into_i64 i)))"

definition FILETIME_sub_time :: "FILETIME \<Rightarrow> FILETIME \<Rightarrow> (Duration + Duration) res" where
  "FILETIME_sub_time self other =
     (let me = intervals self; other = intervals other in
      if sint me \<ge> sint other
      then bindR (ssubP me other) (\<lambda>i. bindR (intervals2dur i) (\<lambda>d. Inr (Inr d)))
      else bindR (ssubP other me) (\<lambda>i. bindR (intervals2dur i) (\<lambda>d. Inr (Inl d))))"

definition FILETIME_add_duration :: "FILETIME \<Rightarrow> Duration \<Rightarrow> FILETIME res" where
  "FILETIME_add_duration self other =
     bindR (dur2intervals other) (\<lambda>i.
     bindR (expectR ''overflow when adding duration to time'' (signed_checked_add (intervals self) i)) (\<lambda>n.
     Inr (from_intervals n)))"

definition FILETIME_sub_duration :: "FILETIME \<Rightarrow> Duration \<Rightarrow> FILETIME res" where
  "FILETIME_sub_duration self other =
     bindR (dur2intervals other) (\<lambda>i.
     bindR (expectR ''overflow when subtracting from time'' (signed_checked_sub (intervals self) i)) (\<lambda>n.
     Inr (from_intervals n)))"

subsection \<open>Instants of Windows and macOS\<close>

text \<open>\<open>frequency\<close> is what \<open>QueryPerformanceFrequency\<close> returned, \<open>numer\<close> and \<open>denom\<close> what \<open>mach_timebase_info\<close> did.\<close>

definition nanos_to_duration :: "u64 \<Rightarrow> Duration res" where
  "nanos_to_duration n = Duration_new (n div NSEC_PER_SEC) (ucast (n mod NSEC_PER_SEC))"

definition Windows_sub_instant :: "i64 \<Rightarrow> i64 \<Rightarrow> i64 \<Rightarrow> Duration res" where
  "Windows_sub_instant frequency self other =
     bindR (if sint other > sint self then bindR (ssubP other self) (\<lambda>d. Inr (d = 1)) else Inr False) (\<lambda>same.
     if same then Duration_new 0 0
     else
       bindR (expectR ''specified instant was later than self'' (word_checked_sub self other)) (\<lambda>diff.
       bindR (mul_div_u64 diff NSEC_PER_SEC frequency) nanos_to_duration))"

definition Windows_add_duration :: "i64 \<Rightarrow> i64 \<Rightarrow> Duration \<Rightarrow> i64 res" where
  "Windows_add_duration freq self other =
     bindR (expectR ''overflow when adding duration to time''
       (Option.bind (word_checked_mul (Duration_as_secs other) freq) (\<lambda>i. word_checked_add self i))) (\<lambda>i.
     bindR (mul_div_u64 (ucast (Duration_subsec_nanos other)) freq NSEC_PER_SEC) (\<lambda>n.
     expectR ''overflow when adding duration to time'' (word_checked_add i n)))"

definition Windows_sub_duration :: "i64 \<Rightarrow> i64 \<Rightarrow> Duration \<Rightarrow> i64 res" where
  "Windows_sub_duration freq self other =
     bindR (expectR ''overflow when subtracting duration from time''
       (Option.bind (word_checked_mul (Duration_as_secs other) freq) (\<lambda>i. word_checked_sub self i))) (\<lambda>i.
     bindR (mul_div_u64 (ucast (Duration_subsec_nanos other)) freq NSEC_PER_SEC) (\<lambda>n.
     expectR ''overflow when subtracting duration from time'' (word_checked_sub i n)))"

record mach_timebase_info =
  tb_numer :: u32
  tb_denom :: u32

definition Mac_sub_instant :: "mach_timebase_info \<Rightarrow> u64 \<Rightarrow> u64 \<Rightarrow> Duration res" where
  "Mac_sub_instant info self other =
     bindR (expectR ''second instant is later than self'' (word_checked_sub self other)) (\<lambda>diff.
     bindR (mul_div_u64 diff (ucast (tb_numer info)) (ucast (tb_denom info))) nanos_to_duration)"

definition Mac_dur2intervals :: "mach_timebase_info \<Rightarrow> Duration \<Rightarrow> u64 res" where
  "Mac_dur2intervals info dur =
     bindR (expectR ''overflow converting duration to nanoseconds''
       (Option.bind (word_checked_mul (Duration_as_secs dur) NSEC_PER_SEC)
         (\<lambda>n. word_checked_add n (ucast (Duration_subsec_nanos dur))))) (\<lambda>n.
     mul_div_u64 n (ucast (tb_denom info)) (ucast (tb_numer info)))"

definition Mac_add_duration :: "mach_timebase_info \<Rightarrow> u64 \<Rightarrow> Duration \<Rightarrow> u64 res" where
  "Mac_add_duration info self other =
     bindR (Mac_dur2intervals info other) (\<lambda>i.
     expectR ''overflow when adding duration to instant'' (word_checked_add self i))"

definition Mac_sub_duration :: "mach_timebase_info \<Rightarrow> u64 \<Rightarrow> Duration \<Rightarrow> u64 res" where
  "Mac_sub_duration info self other =
     bindR (Mac_dur2intervals info other) (\<lambda>i.
     expectR ''overflow when subtracting duration from instant'' (word_checked_sub self i))"

subsection \<open>The public types\<close>

text \<open>The operations of \<open>sys::time::SystemTime\<close>, which each platform provides.\<close>

record 't system_time_ops =
  sub_time :: "'t \<Rightarrow> 't \<Rightarrow> (Duration + Duration) res"
  add_duration :: "'t \<Rightarrow> Duration \<Rightarrow> 't res"
  sub_duration :: "'t \<Rightarrow> Duration \<Rightarrow> 't res"

definition unix_time :: "Timespec system_time_ops" where
  "unix_time = \<lparr>sub_time = Timespec_sub_timespec, add_duration = Timespec_add_duration,
     sub_duration = Timespec_sub_duration\<rparr>"

definition windows_time :: "FILETIME system_time_ops" where
  "windows_time = \<lparr>sub_time = FILETIME_sub_time, add_duration = FILETIME_add_duration,
     sub_duration = FILETIME_sub_duration\<rparr>"

datatype SystemTimeError = SystemTimeError Duration

fun SystemTimeError_duration :: "SystemTimeError \<Rightarrow> Duration" where
  "SystemTimeError_duration (SystemTimeError d) = d"

definition SystemTime_duration_since :: "'t system_time_ops \<Rightarrow> 't \<Rightarrow> 't \<Rightarrow> (SystemTimeError + Duration) res" where
  "SystemTime_duration_since ops self earlier =
     bindR (sub_time ops self earlier) (\<lambda>r. Inr (map_sum SystemTimeError id r))"

text \<open>\<open>now\<close> is what the clock of the system returns.\<close>

definition SystemTime_elapsed :: "'t system_time_ops \<Rightarrow> 't \<Rightarrow> 't \<Rightarrow> (SystemTimeError + Duration) res" where
  "SystemTime_elapsed ops now self = SystemTime_duration_since ops now self"

definition SystemTime_add :: "'t system_time_ops \<Rightarrow> 't \<Rightarrow> Duration \<Rightarrow> 't res" where
  "SystemTime_add ops self dur = add_duration ops self dur"

definition SystemTime_sub :: "'t system_time_ops \<Rightarrow> 't \<Rightarrow> Duration \<Rightarrow> 't res" where
  "SystemTime_sub ops self dur = sub_duration ops self dur"

end
