(* ===== verification/Clock_Spec.thy ===== *)
theory Clock_Spec
  imports Clock
begin

section \<open>The clocks are exact\<close>

text \<open>
  The operations of \<open>Clock\<close> against the number of nanoseconds since the epoch of a platform: each computes the exact
  result or panics where it does not fit. The locale \<open>system_clock\<close> has what the methods of \<open>SystemTime\<close> rely on; it is
  interpreted on \<open>Timespec\<close> and on \<open>FILETIME\<close>, and C12 rests on the two interpretations.
\<close>

subsection \<open>The number of nanoseconds since the epoch\<close>

definition valid_timespec :: "Timespec \<Rightarrow> bool" where
  "valid_timespec t \<longleftrightarrow> unat (tv_nsec t) < 10 ^ 9"

definition timespec_nanos :: "Timespec \<Rightarrow> int" where
  "timespec_nanos t = sint (tv_sec t) * 10 ^ 9 + sint (tv_nsec t)"

definition timespec_of :: "int \<Rightarrow> Timespec" where
  "timespec_of n = Timespec (word_of_int (n div 10 ^ 9)) (word_of_int (n mod 10 ^ 9))"

definition duration_of :: "nat \<Rightarrow> Duration" where
  "duration_of n = Duration (of_nat (n div 10 ^ 9)) (of_nat (n mod 10 ^ 9))"

lemma duration_of:
  assumes "n < duration_limit"
  shows "valid_duration (duration_of n)" "nanos_of (duration_of n) = n"
proof -
  have "unat (of_nat (n div 10 ^ 9) :: u64) = n div 10 ^ 9"
    using assms by (intro unat_of_nat_small) (simp add: less_mult_imp_div_less)
  moreover have "unat (of_nat (n mod 10 ^ 9) :: u32) = n mod 10 ^ 9"
    by (intro unat_of_nat_small) (simp add: order_less_trans [OF mod_less_divisor])
  ultimately show "valid_duration (duration_of n)" "nanos_of (duration_of n) = n"
    by (simp_all add: duration_of_def valid_duration_def nanos_of_def)
qed

lemma duration_ofI: "valid_duration d \<Longrightarrow> nanos_of d = n \<Longrightarrow> d = duration_of n"
  using duration_of [of n] nanos_of_less_limit [of d] by (metis nanos_of_eq_iff)

lemma Duration_new_small:
  assumes "unat n < 10 ^ 9"
  shows "Duration_new s n = Inr (duration_of (unat s * 10 ^ 9 + unat n))"
proof -
  have "unat s * 10 ^ 9 + unat n < duration_limit" using assms u64_bound [of s] by simp
  then show ?thesis using Duration_new_computes [of s n] duration_ofI by force
qed

lemma valid_timespec_nsec: "valid_timespec t \<Longrightarrow> sint (tv_nsec t) = int (unat (tv_nsec t))"
  by (rule sint_small) (simp add: valid_timespec_def)

lemma timespec_of_parts:
  assumes "0 \<le> n" "n < 10 ^ 9" "sint (s :: i64) = q" "sint (w :: i64) = n"
  shows "Timespec s w = timespec_of (q * 10 ^ 9 + n)"
proof -
  have d: "(q * 10 ^ 9 + n) div 10 ^ 9 = q" "(q * 10 ^ 9 + n) mod 10 ^ 9 = n"
    using assms(1, 2) by simp_all
  have "word_of_int (sint s) = s" "word_of_int (sint w) = w" by simp_all
  then show ?thesis unfolding timespec_of_def d using assms(3, 4) by simp
qed

lemma timespec_nanos_of: "timespec_nanos t = sint (tv_sec t) * 10 ^ 9 + int (unat (tv_nsec t))" if "valid_timespec t"
  using valid_timespec_nsec [OF that] by (simp only: timespec_nanos_def)

lemma timespec_of_nanos: "valid_timespec t \<Longrightarrow> timespec_of (timespec_nanos t) = t"
  using timespec_of_parts [of "int (unat (tv_nsec t))" "tv_sec t" "sint (tv_sec t)" "tv_nsec t"]
  by (simp only: timespec_nanos_of valid_timespec_nsec) (simp add: valid_timespec_def del: of_nat_unat)

lemma timespec_nanos_range:
  assumes "valid_timespec t"
  shows "- (2 ^ 63) * 10 ^ 9 \<le> timespec_nanos t" "timespec_nanos t < 2 ^ 63 * 10 ^ 9"
  using assms sint_ge [of "tv_sec t"] sint_lt [of "tv_sec t"]
  by (simp_all add: timespec_nanos_of valid_timespec_def del: of_nat_unat)

lemma Timespec_ge_iff:
  assumes "valid_timespec a" "valid_timespec b"
  shows "Timespec_ge a b \<longleftrightarrow> timespec_nanos b \<le> timespec_nanos a"
  using assms
  by (auto simp: timespec_nanos_of valid_timespec_nsec valid_timespec_def Timespec_ge_def Timespec_cmp_def cmp_ord_def
    simp del: of_nat_unat split: Ordering.splits if_splits)

lemma ucast_u32: "unat (w :: i64) < 2 ^ 32 \<Longrightarrow> unat (ucast w :: u32) = unat w"
  by (rule unat_ucast_small) simp

text \<open>The seconds and the nanoseconds are subtracted apart, or a second is borrowed.\<close>

lemma sub_timespec_plain:
  assumes v: "valid_timespec a" "valid_timespec b" and ge: "timespec_nanos b \<le> timespec_nanos a"
    and True: "unat (tv_nsec b) \<le> unat (tv_nsec a)"
  shows "Timespec_sub_timespec a b =
    (if timespec_nanos a - timespec_nanos b < 2 ^ 63 * 10 ^ 9
     then Inr (Inr (duration_of (nat (timespec_nanos a - timespec_nanos b))))
     else Inl (Panic ''attempt to subtract with overflow''))"
proof -
  let ?sa = "sint (tv_sec a)" and ?sb = "sint (tv_sec b)" and ?na = "unat (tv_nsec a)" and ?nb = "unat (tv_nsec b)"
  have n: "?na < 10 ^ 9" "?nb < 10 ^ 9" using v by (simp_all add: valid_timespec_def)
  note sn = valid_timespec_nsec [OF v(1)] valid_timespec_nsec [OF v(2)]
  note nn = timespec_nanos_of [OF v(1)] timespec_nanos_of [OF v(2)]
  have ge': "Timespec_ge a b" using ge v by (simp add: Timespec_ge_iff)
  have rng: "?sa < 2 ^ 63" "- (2 ^ 63) \<le> ?sa" "?sb < 2 ^ 63" "- (2 ^ 63) \<le> ?sb"
    using sint_lt [of "tv_sec a"] sint_lt [of "tv_sec b"] sint_ge [of "tv_sec a"] sint_ge [of "tv_sec b"] by simp_all
  define m where "m = tv_nsec a - tv_nsec b"
  have m: "sint m = int (?na - ?nb)"
    unfolding m_def using True n sn by (subst sint_sub_fits) (simp_all add: signed_fits_def of_nat_diff del: of_nat_unat)
  have mP: "ssubP (tv_nsec a) (tv_nsec b) = Inr m"
    unfolding m_def using n sn True by (intro ssubP_ok) (simp add: signed_fits_def del: of_nat_unat)
  have um: "unat m = ?na - ?nb" using m by (subst unat_sint) (simp_all del: of_nat_unat)
  have D: "timespec_nanos a - timespec_nanos b = (?sa - ?sb) * 10 ^ 9 + int (?na - ?nb)"
    using True by (simp add: nn algebra_simps of_nat_diff del: of_nat_unat)
  show ?thesis
  proof (cases "?sa - ?sb < 2 ^ 63")
    case small: True
    have pos: "0 \<le> ?sa - ?sb" using ge n True unfolding nn by (simp del: of_nat_unat)
    then have fits: "signed_fits (LENGTH(64) - 1) (sint (tv_sec a) - sint (tv_sec b))"
      using small by (simp add: signed_fits_def)
    have us: "unat (tv_sec a - tv_sec b) = nat (?sa - ?sb)"
      using sint_sub_fits [OF fits] pos by (subst unat_sint) simp_all
    show ?thesis
    proof -
      have um': "unat (ucast m :: u32) = ?na - ?nb" using n um by (subst ucast_u32) simp_all
      have "Duration_new (tv_sec a - tv_sec b) (ucast m) = Inr (duration_of (nat (?sa - ?sb) * 10 ^ 9 + (?na - ?nb)))"
        using n us um' Duration_new_small [of "ucast m" "tv_sec a - tv_sec b"] by simp
      moreover have "nat (?sa - ?sb) * 10 ^ 9 + (?na - ?nb) = nat (timespec_nanos a - timespec_nanos b)"
        using pos unfolding D by (simp add: nat_add_distrib nat_mult_distrib del: of_nat_unat)
      moreover have "timespec_nanos a - timespec_nanos b < 2 ^ 63 * 10 ^ 9"
        using small n unfolding D by (simp del: of_nat_unat)
      ultimately show ?thesis using ge' True ssubP_ok [OF fits] mP
        by (simp add: Timespec_sub_timespec.simps [of a b] sn del: of_nat_unat)
    qed
  next
    case False
    show ?thesis
    proof -
      have "\<not> signed_fits (LENGTH(64) - 1) (sint (tv_sec a) - sint (tv_sec b))"
        using False by (simp add: signed_fits_def)
      moreover have "\<not> timespec_nanos a - timespec_nanos b < 2 ^ 63 * 10 ^ 9"
        using False unfolding D by (simp del: of_nat_unat)
      ultimately show ?thesis using ge' True
        by (simp add: Timespec_sub_timespec.simps [of a b] sn ssubP_fail del: of_nat_unat)
    qed
  qed
qed

lemma sub_timespec_borrow:
  assumes v: "valid_timespec a" "valid_timespec b" and ge: "timespec_nanos b \<le> timespec_nanos a"
    and False: "\<not> unat (tv_nsec b) \<le> unat (tv_nsec a)"
  shows "Timespec_sub_timespec a b =
    (if timespec_nanos a - timespec_nanos b < 2 ^ 63 * 10 ^ 9
     then Inr (Inr (duration_of (nat (timespec_nanos a - timespec_nanos b))))
     else Inl (Panic ''attempt to subtract with overflow''))"
proof -
  let ?sa = "sint (tv_sec a)" and ?sb = "sint (tv_sec b)" and ?na = "unat (tv_nsec a)" and ?nb = "unat (tv_nsec b)"
  have n: "?na < 10 ^ 9" "?nb < 10 ^ 9" using v by (simp_all add: valid_timespec_def)
  note sn = valid_timespec_nsec [OF v(1)] valid_timespec_nsec [OF v(2)]
  note nn = timespec_nanos_of [OF v(1)] timespec_nanos_of [OF v(2)]
  have ge': "Timespec_ge a b" using ge v by (simp add: Timespec_ge_iff)
  have rng: "?sa < 2 ^ 63" "- (2 ^ 63) \<le> ?sa" "?sb < 2 ^ 63" "- (2 ^ 63) \<le> ?sb"
    using sint_lt [of "tv_sec a"] sint_lt [of "tv_sec b"] sint_ge [of "tv_sec a"] sint_ge [of "tv_sec b"] by simp_all
  have gt: "?sb < ?sa" using ge n False unfolding nn by (simp del: of_nat_unat)
  define s1 where "s1 = tv_sec a - 1"
  have f1: "signed_fits (LENGTH(64) - 1) (sint (tv_sec a) - sint (1 :: i64))"
    using gt rng by (simp add: signed_fits_def)
  have s1: "sint s1 = ?sa - 1" unfolding s1_def using sint_sub_fits [OF f1] by simp
  have s1P: "ssubP (tv_sec a) 1 = Inr s1" unfolding s1_def by (rule ssubP_ok [OF f1])
  have D: "timespec_nanos a - timespec_nanos b = (?sa - 1 - ?sb) * 10 ^ 9 + int (?na + 10 ^ 9 - ?nb)"
    using n by (simp add: nn algebra_simps of_nat_diff del: of_nat_unat)
  have u: "unat (ucast (tv_nsec a) :: u32) = ?na" "unat (ucast (tv_nsec b) :: u32) = ?nb"
    using n by (simp_all add: ucast_u32)
  define n1 where "n1 = ucast (tv_nsec a) + (1000000000 :: u32)"
  have n1: "addP (ucast (tv_nsec a)) (1000000000 :: u32) = Inr n1" "unat n1 = ?na + 10 ^ 9"
    using n u by (simp_all add: n1_def addP_ok unat_add_small)
  have n2: "subP n1 (ucast (tv_nsec b)) = Inr (n1 - ucast (tv_nsec b))" "unat (n1 - ucast (tv_nsec b)) = ?na + 10 ^ 9 - ?nb"
    using n u n1 by (simp_all add: subP_ok unat_sub_small word_le_nat_alt)
  show ?thesis
  proof (cases "?sa - 1 - ?sb < 2 ^ 63")
    case small: True
    have fits: "signed_fits (LENGTH(64) - 1) (sint s1 - sint (tv_sec b))"
      using small gt s1 by (simp add: signed_fits_def)
    have us: "unat (s1 - tv_sec b) = nat (?sa - 1 - ?sb)"
      using sint_sub_fits [OF fits] s1 gt by (subst unat_sint) simp_all
    have "Duration_new (s1 - tv_sec b) (n1 - ucast (tv_nsec b)) =
        Inr (duration_of (nat (?sa - 1 - ?sb) * 10 ^ 9 + (?na + 10 ^ 9 - ?nb)))"
      using n us n2 False Duration_new_small [of "n1 - ucast (tv_nsec b)" "s1 - tv_sec b"] by simp
    moreover have "nat (?sa - 1 - ?sb) * 10 ^ 9 + (?na + 10 ^ 9 - ?nb) = nat (timespec_nanos a - timespec_nanos b)"
      using gt unfolding D by (simp add: nat_add_distrib nat_mult_distrib del: of_nat_unat)
    moreover have "timespec_nanos a - timespec_nanos b < 2 ^ 63 * 10 ^ 9"
      using small n False unfolding D by (simp del: of_nat_unat)
    ultimately show ?thesis using ge' False ssubP_ok [OF fits] s1P n1(1) n2(1)
      by (simp add: Timespec_sub_timespec.simps [of a b] sn del: of_nat_unat)
  next
    case big: False
    have "\<not> signed_fits (LENGTH(64) - 1) (sint s1 - sint (tv_sec b))"
      using big s1 by (simp add: signed_fits_def)
    moreover have "\<not> timespec_nanos a - timespec_nanos b < 2 ^ 63 * 10 ^ 9"
      using big unfolding D by (simp del: of_nat_unat)
    ultimately show ?thesis using ge' False s1P
      by (simp add: Timespec_sub_timespec.simps [of a b] sn ssubP_fail del: of_nat_unat)
  qed
qed

lemma sub_timespec_ge:
  assumes v: "valid_timespec a" "valid_timespec b" and ge: "timespec_nanos b \<le> timespec_nanos a"
  shows "Timespec_sub_timespec a b =
    (if timespec_nanos a - timespec_nanos b < 2 ^ 63 * 10 ^ 9
     then Inr (Inr (duration_of (nat (timespec_nanos a - timespec_nanos b))))
     else Inl (Panic ''attempt to subtract with overflow''))"
  using sub_timespec_plain [OF assms] sub_timespec_borrow [OF assms] by blast

text \<open>The difference of two times, to the nanosecond; it overflows from \<open>2 ^ 63\<close> seconds on.\<close>

lemma Timespec_sub_timespec_exact:
  assumes v: "valid_timespec a" "valid_timespec b"
  shows "Timespec_sub_timespec a b =
    (let n = timespec_nanos a - timespec_nanos b in
     if \<bar>n\<bar> < 2 ^ 63 * 10 ^ 9
     then Inr (if 0 \<le> n then Inr (duration_of (nat n)) else Inl (duration_of (nat (- n))))
     else Inl (Panic ''attempt to subtract with overflow''))"
proof (cases "timespec_nanos b \<le> timespec_nanos a")
  case True
  then show ?thesis using sub_timespec_ge [OF v] by (simp add: Let_def)
next
  case False
  then have "\<not> Timespec_ge a b" using v by (simp add: Timespec_ge_iff)
  with False show ?thesis using sub_timespec_ge [OF v(2, 1)]
    by (simp add: Timespec_sub_timespec.simps [of a b] Let_def)
qed

text \<open>Carrying and borrowing a second.\<close>

lemma timespec_carry:
  assumes m: "unat m < 2 * 10 ^ 9"
  shows "(if m \<ge> ucast NSEC_PER_SEC then
       bindR (subP m (ucast NSEC_PER_SEC)) (\<lambda>m'.
       bindR (expectR msg (signed_checked_add q 1)) (\<lambda>q'. Inr (Timespec q' (ucast m'))))
     else Inr (Timespec q (ucast (m :: u32)))) =
    (let n = sint q * 10 ^ 9 + int (unat m) in
     if n < 2 ^ 63 * 10 ^ 9 then Inr (timespec_of n) else Inl (Panic msg))"
proof (cases "10 ^ 9 \<le> unat m")
  case False
  have "Timespec q (ucast m) = timespec_of (sint q * 10 ^ 9 + int (unat m))"
    using False by (intro timespec_of_parts) (simp_all add: sint_small del: of_nat_unat)
  moreover have "sint q * 10 ^ 9 + int (unat m) < 2 ^ 63 * 10 ^ 9"
    using False sint_lt [of q] by (simp del: of_nat_unat)
  ultimately show ?thesis using False by (simp add: word_le_nat_alt Let_def del: of_nat_unat)
next
  case True
  define m' where "m' = m - 1000000000"
  have m': "subP m 1000000000 = Inr m'" "unat m' = unat m - 10 ^ 9"
    using True by (simp_all add: m'_def subP_ok unat_sub_small word_le_nat_alt)
  have sum: "sint q * 10 ^ 9 + int (unat m) = (sint q + 1) * 10 ^ 9 + int (unat m - 10 ^ 9)"
    using True by (simp add: algebra_simps of_nat_diff del: of_nat_unat)
  show ?thesis
  proof (cases "signed_checked_add q 1")
    case None
    then have "2 ^ 63 \<le> sint q + 1"
      using sint_ge [of q] by (auto simp: signed_checked_add_def signed_fits_def split: if_splits)
    then have "\<not> sint q * 10 ^ 9 + int (unat m) < 2 ^ 63 * 10 ^ 9" unfolding sum by (simp del: of_nat_unat)
    then show ?thesis using m' None True by (simp add: word_le_nat_alt Let_def del: of_nat_unat)
  next
    case (Some q')
    then have q': "sint q' = sint q + 1" by (simp add: signed_checked_add_Some)
    have "Timespec q' (ucast m') = timespec_of ((sint q + 1) * 10 ^ 9 + int (unat m - 10 ^ 9))"
      using m m' q' by (intro timespec_of_parts) (simp_all add: sint_small del: of_nat_unat)
    moreover have "sint q * 10 ^ 9 + int (unat m) < 2 ^ 63 * 10 ^ 9"
      using m q' sint_lt [of q'] unfolding sum by (simp del: of_nat_unat)
    ultimately show ?thesis using Some m' True sum by (simp add: word_le_nat_alt Let_def del: of_nat_unat)
  qed
qed

lemma timespec_borrow:
  assumes n: "- (10 ^ 9) < sint n" "sint n < 10 ^ 9"
  shows "(if sint n < 0 then
       bindR (saddP n (ucast NSEC_PER_SEC)) (\<lambda>n'.
       bindR (expectR msg (signed_checked_sub q 1)) (\<lambda>q'. Inr (Timespec q' (scast n'))))
     else Inr (Timespec q (scast (n :: i32)))) =
    (let k = sint q * 10 ^ 9 + sint n in
     if - (2 ^ 63) * 10 ^ 9 \<le> k then Inr (timespec_of k) else Inl (Panic msg))"
proof (cases "sint n < 0")
  case False
  have "Timespec q (scast n) = timespec_of (sint q * 10 ^ 9 + sint n)"
    using False n by (intro timespec_of_parts) (simp_all add: sint_up_scast is_up)
  moreover have "- (2 ^ 63) * 10 ^ 9 \<le> sint q * 10 ^ 9 + sint n"
    using False sint_ge [of q] by simp
  ultimately show ?thesis using False by (simp add: Let_def)
next
  case True
  define n' where "n' = n + 1000000000"
  have fits: "signed_fits (LENGTH(32) - 1) (sint n + sint (1000000000 :: i32))"
    using True n by (simp add: signed_fits_def)
  have n': "saddP n 1000000000 = Inr n'" "sint n' = sint n + 10 ^ 9"
    using saddP_ok [OF fits] sint_add_fits [OF fits] by (simp_all add: n'_def)
  have sum: "sint q * 10 ^ 9 + sint n = (sint q - 1) * 10 ^ 9 + (sint n + 10 ^ 9)" by simp
  show ?thesis
  proof (cases "signed_checked_sub q 1")
    case None
    then have "sint q - 1 < - (2 ^ 63)"
      using sint_lt [of q] by (auto simp: signed_checked_sub_def signed_fits_def split: if_splits)
    then have "\<not> - (2 ^ 63) * 10 ^ 9 \<le> sint q * 10 ^ 9 + sint n" using True by simp
    then show ?thesis using n' None True by (simp add: Let_def)
  next
    case (Some q')
    then have q': "sint q' = sint q - 1" by (simp add: signed_checked_sub_Some)
    have "Timespec q' (scast n') = timespec_of ((sint q - 1) * 10 ^ 9 + (sint n + 10 ^ 9))"
      using True n n' q' by (intro timespec_of_parts) (simp_all add: sint_up_scast is_up)
    moreover have "- (2 ^ 63) * 10 ^ 9 \<le> sint q * 10 ^ 9 + sint n"
      using n q' sint_ge [of q'] unfolding sum by simp
    ultimately show ?thesis using Some n' True sum by (simp add: Let_def)
  qed
qed

lemma Timespec_add_duration_exact:
  assumes v: "valid_timespec t" "valid_duration d"
  shows "Timespec_add_duration t d =
    (if unat (secs d) < 2 ^ 63 \<and> timespec_nanos t + int (nanos_of d) < 2 ^ 63 * 10 ^ 9
     then Inr (timespec_of (timespec_nanos t + int (nanos_of d)))
     else Inl (Panic ''overflow when adding duration to time''))"
proof (cases "u64_try_into_i64 (secs d)")
  case None
  then have "\<not> unat (secs d) < 2 ^ 63" by (simp add: u64_try_into_i64_def split: if_splits)
  with None show ?thesis by (simp add: Timespec_add_duration_def Duration_as_secs_def)
next
  case (Some s)
  then have s: "sint s = int (unat (secs d))" "unat (secs d) < 2 ^ 63"
    by (simp only: u64_try_into_i64_Some) (use Some in \<open>simp add: u64_try_into_i64_def split: if_splits\<close>)
  have n: "unat (tv_nsec t) < 10 ^ 9" "unat (nanos d) < 10 ^ 9"
    using v by (simp_all add: valid_timespec_def valid_duration_def)
  define m where "m = nanos d + ucast (tv_nsec t)"
  have m: "addP (nanos d) (ucast (tv_nsec t)) = Inr m" "unat m = unat (nanos d) + unat (tv_nsec t)"
    using n by (simp_all add: m_def addP_ok unat_add_small ucast_u32)
  have sum: "timespec_nanos t + int (nanos_of d) = (sint (tv_sec t) + sint s) * 10 ^ 9 + int (unat m)"
    using v s m by (simp add: timespec_nanos_of nanos_of_def algebra_simps del: of_nat_unat)
  show ?thesis
  proof (cases "signed_checked_add (tv_sec t) s")
    case None
    moreover have "0 \<le> sint s" using s by simp
    ultimately have "2 ^ 63 \<le> sint (tv_sec t) + sint s"
      using sint_ge [of "tv_sec t"] by (auto simp: signed_checked_add_def signed_fits_def split: if_splits)
    then have "\<not> timespec_nanos t + int (nanos_of d) < 2 ^ 63 * 10 ^ 9" unfolding sum by (simp del: of_nat_unat)
    with None Some s show ?thesis by (simp add: Timespec_add_duration_def Duration_as_secs_def)
  next
    case q: (Some q)
    then have "sint q = sint (tv_sec t) + sint s" by (simp only: signed_checked_add_Some)
    moreover have "unat m < 2 * 10 ^ 9" using n m by simp
    ultimately show ?thesis using Some q m s(2) sum timespec_carry [of m _ q]
      by (simp add: Timespec_add_duration_def Duration_as_secs_def Duration_subsec_nanos_def Let_def del: of_nat_unat)
  qed
qed

lemma Timespec_sub_duration_exact:
  assumes v: "valid_timespec t" "valid_duration d"
  shows "Timespec_sub_duration t d =
    (if unat (secs d) < 2 ^ 63 \<and> - (2 ^ 63) * 10 ^ 9 \<le> timespec_nanos t - int (nanos_of d)
     then Inr (timespec_of (timespec_nanos t - int (nanos_of d)))
     else Inl (Panic ''overflow when subtracting duration from time''))"
proof (cases "u64_try_into_i64 (secs d)")
  case None
  then have "\<not> unat (secs d) < 2 ^ 63" by (simp add: u64_try_into_i64_def split: if_splits)
  with None show ?thesis by (simp add: Timespec_sub_duration_def Duration_as_secs_def)
next
  case (Some s)
  then have s: "sint s = int (unat (secs d))" "unat (secs d) < 2 ^ 63"
    by (simp only: u64_try_into_i64_Some) (use Some in \<open>simp add: u64_try_into_i64_def split: if_splits\<close>)
  have n: "unat (tv_nsec t) < 10 ^ 9" "unat (nanos d) < 10 ^ 9"
    using v by (simp_all add: valid_timespec_def valid_duration_def)
  define m where "m = (ucast (tv_nsec t) :: i32) - nanos d"
  have sn: "sint (ucast (tv_nsec t) :: i32) = int (unat (tv_nsec t))" "sint (nanos d) = int (unat (nanos d))"
    using n by (simp_all add: sint_small ucast_u32 del: of_nat_unat)
  have fits: "signed_fits (LENGTH(32) - 1) (sint (ucast (tv_nsec t) :: i32) - sint (nanos d))"
    using n unfolding sn by (simp add: signed_fits_def del: of_nat_unat)
  have m: "ssubP (ucast (tv_nsec t)) (nanos d) = Inr m" "sint m = int (unat (tv_nsec t)) - int (unat (nanos d))"
    using ssubP_ok [OF fits] sint_sub_fits [OF fits] unfolding m_def sn by simp_all
  have sum: "timespec_nanos t - int (nanos_of d) = (sint (tv_sec t) - sint s) * 10 ^ 9 + sint m"
    using v s m by (simp add: timespec_nanos_of nanos_of_def algebra_simps del: of_nat_unat)
  have mr: "- (10 ^ 9) < sint m" "sint m < 10 ^ 9" using n m by (simp_all del: of_nat_unat)
  show ?thesis
  proof (cases "signed_checked_sub (tv_sec t) s")
    case None
    moreover have "0 \<le> sint s" using s by simp
    ultimately have "sint (tv_sec t) - sint s < - (2 ^ 63)"
      using sint_lt [of "tv_sec t"] by (auto simp: signed_checked_sub_def signed_fits_def split: if_splits)
    then have "\<not> - (2 ^ 63) * 10 ^ 9 \<le> timespec_nanos t - int (nanos_of d)" using mr unfolding sum by simp
    with None Some s show ?thesis by (simp add: Timespec_sub_duration_def Duration_as_secs_def)
  next
    case q: (Some q)
    then have "sint q = sint (tv_sec t) - sint s" by (simp only: signed_checked_sub_Some)
    then show ?thesis using Some q m(1) s(2) sum timespec_borrow [OF mr, of _ q]
      by (simp add: Timespec_sub_duration_def Duration_as_secs_def Duration_subsec_nanos_def Let_def)
  qed
qed

subsection \<open>What the public methods rely on\<close>

definition exact_difference :: "int \<Rightarrow> int \<Rightarrow> (Duration + Duration) res" where
  "exact_difference span n =
     (if \<bar>n\<bar> < span
      then Inr (if 0 \<le> n then Inr (duration_of (nat n)) else Inl (duration_of (nat (- n))))
      else Inl (Panic ''attempt to subtract with overflow''))"

text \<open>
  Two times and the result of \<open>b.duration_since(a)\<close> agree when adding the duration to the earlier time gives the later one
  and subtracting it from the later one gives the earlier one.
\<close>

definition agree :: "'t system_time_ops \<Rightarrow> 't \<Rightarrow> 't \<Rightarrow> SystemTimeError + Duration \<Rightarrow> bool" where
  "agree ops a b r =
     (case r of
        Inr d \<Rightarrow> SystemTime_add ops a d = Inr b \<and> SystemTime_sub ops b d = Inr a
      | Inl e \<Rightarrow> SystemTime_add ops b (SystemTimeError_duration e) = Inr a \<and>
                 SystemTime_sub ops a (SystemTimeError_duration e) = Inr b)"

definition duration_is :: "SystemTimeError + Duration \<Rightarrow> int \<Rightarrow> bool" where
  "duration_is r n =
     (case r of
        Inr d \<Rightarrow> 0 \<le> n \<and> valid_duration d \<and> int (nanos_of d) = n
      | Inl e \<Rightarrow> n < 0 \<and> valid_duration (SystemTimeError_duration e) \<and>
                 int (nanos_of (SystemTimeError_duration e)) = - n)"

locale system_clock =
  fixes ops :: "'t system_time_ops" and valid :: "'t \<Rightarrow> bool" and at :: "'t \<Rightarrow> int" and span :: int
  assumes span: "span \<le> 2 ^ 64 * 10 ^ 9"
    and sub_time: "valid a \<Longrightarrow> valid b \<Longrightarrow> sub_time ops a b = exact_difference span (at a - at b)"
    and add_duration: "valid a \<Longrightarrow> valid b \<Longrightarrow> valid_duration d \<Longrightarrow> int (nanos_of d) < span \<Longrightarrow>
      at b = at a + int (nanos_of d) \<Longrightarrow> add_duration ops a d = Inr b"
    and sub_duration: "valid a \<Longrightarrow> valid b \<Longrightarrow> valid_duration d \<Longrightarrow> int (nanos_of d) < span \<Longrightarrow>
      at a = at b - int (nanos_of d) \<Longrightarrow> sub_duration ops b d = Inr a"
begin

lemma difference_duration:
  assumes "0 \<le> n" "n < span"
  shows "valid_duration (duration_of (nat n)) \<and> int (nanos_of (duration_of (nat n))) = n"
proof -
  have "nat n < duration_limit" using assms span by (simp add: nat_less_iff)
  then show ?thesis using assms duration_of [of "nat n"] by simp
qed

lemma between:
  assumes "valid a" "valid b" "at a \<le> at b" "at b - at a < span" "d = duration_of (nat (at b - at a))"
  shows "SystemTime_add ops a d = Inr b" "SystemTime_sub ops b d = Inr a"
  using assms difference_duration [of "at b - at a"]
  by (auto simp: SystemTime_add_def SystemTime_sub_def intro!: add_duration sub_duration)

lemma system_time_math:
  assumes "valid a" "valid b"
  shows "if \<bar>at b - at a\<bar> < span
    then \<exists>r. SystemTime_duration_since ops b a = Inr r \<and> duration_is r (at b - at a) \<and> agree ops a b r
    else SystemTime_duration_since ops b a = Inl (Panic ''attempt to subtract with overflow'')"
proof (cases "\<bar>at b - at a\<bar> < span")
  case True
  have eq: "SystemTime_duration_since ops b a = Inr
      (if at a \<le> at b then Inr (duration_of (nat (at b - at a))) else Inl (SystemTimeError (duration_of (nat (at a - at b)))))"
    using True assms by (simp add: SystemTime_duration_since_def sub_time exact_difference_def)
  show ?thesis
  proof (cases "at a \<le> at b")
    case le: True
    then show ?thesis using True eq between [OF assms le _ refl] difference_duration [of "at b - at a"]
      by (simp add: agree_def duration_is_def)
  next
    case False
    then have le: "at b \<le> at a" by simp
    then show ?thesis using True False eq between [OF assms(2, 1) le _ refl] difference_duration [of "at a - at b"]
      by (simp add: agree_def duration_is_def)
  qed
qed (use assms in \<open>simp add: SystemTime_duration_since_def sub_time exact_difference_def\<close>)

end

subsection \<open>The two clocks\<close>

lemma unat_limit: "unat (secs d) < 2 ^ 63" if "int (nanos_of d) < 2 ^ 63 * 10 ^ 9"
proof -
  have "nanos_of d < 2 ^ 63 * 10 ^ 9" using that by simp
  then have "unat (secs d) * 10 ^ 9 < 2 ^ 63 * 10 ^ 9" unfolding nanos_of_def by linarith
  then show ?thesis by simp
qed

interpretation unix: system_clock unix_time valid_timespec timespec_nanos "2 ^ 63 * 10 ^ 9"
proof (unfold_locales, goal_cases)
  case (2 a b)
  then show ?case by (simp add: unix_time_def Timespec_sub_timespec_exact exact_difference_def Let_def)
next
  case (3 a b d)
  then show ?case using unat_limit [of d] timespec_nanos_range [of b] timespec_of_nanos [of b]
    by (simp add: unix_time_def Timespec_add_duration_exact)
next
  case (4 a b d)
  then have "timespec_of (timespec_nanos b - int (nanos_of d)) = a" using timespec_of_nanos [of a] by simp
  then show ?case using 4 unat_limit [of d] timespec_nanos_range [of a]
    by (simp add: unix_time_def Timespec_sub_duration_exact)
qed simp

lemma from_intervals_intervals: "from_intervals (intervals t) = t"
proof -
  have "ucast (intervals t) = dwLowDateTime t"
    by (rule bit_eqI) (auto simp: intervals_def bit_simps)
  moreover have "ucast (signed_drop_bit 32 (intervals t)) = dwHighDateTime t"
    by (rule bit_eqI) (auto simp: intervals_def bit_simps dest: bit_imp_le_length)
  ultimately show ?thesis by (simp add: from_intervals_def)
qed

lemma intervals_from_intervals: "intervals (from_intervals i) = i"
proof (rule bit_word_eqI)
  fix n assume "n < LENGTH(64)"
  then show "bit (intervals (from_intervals i)) n = bit i n"
    by (cases "n < 32") (auto simp: intervals_def from_intervals_def bit_simps le_add_diff_inverse)
qed

definition filetime_nanos :: "FILETIME \<Rightarrow> int" where
  "filetime_nanos t = sint (intervals t) * 100"

lemma scale_digits: "q * 10 ^ 7 + r = x \<Longrightarrow> q * 10 ^ 9 + r * 100 = x * 100" for q r x :: nat
  by simp

lemma intervals2dur_exact: "intervals2dur i = Inr (duration_of (unat i * 100))"
proof -
  let ?r = "i mod INTERVALS_PER_SEC"
  have r: "unat ?r = unat i mod 10 ^ 7" by (simp add: unat_mod)
  then have small: "unat ?r * 100 < 10 ^ 9" by simp
  have m: "mulP ?r 100 = Inr (?r * 100)" "unat (?r * 100) = unat ?r * 100"
    using small by (simp_all add: mulP_ok unat_mult_small)
  then have u: "unat (ucast (?r * 100) :: u32) = unat ?r * 100" using small by (subst ucast_u32) simp_all
  have "unat (i div INTERVALS_PER_SEC) = unat i div 10 ^ 7" by (simp add: unat_div)
  then have "unat (i div INTERVALS_PER_SEC) * 10 ^ 9 + unat ?r * 100 = unat i * 100"
    unfolding r by (simp only:) (rule scale_digits [OF div_mult_mod_eq])
  then show ?thesis
    using small m u Duration_new_small [of "ucast (?r * 100)" "i div INTERVALS_PER_SEC"] by (simp add: intervals2dur_def)
qed

lemma dur2intervals_exact:
  assumes "valid_duration d"
  shows "if nanos_of d div 100 < 2 ^ 63
    then \<exists>i. dur2intervals d = Inr i \<and> sint i = int (nanos_of d div 100)
    else dur2intervals d = Inl (Panic ''overflow when converting duration to intervals'')"
proof -
  have k: "nanos_of d div 100 = unat (secs d) * 10 ^ 7 + unat (nanos d) div 100"
    by (simp add: nanos_of_def)
  have e: "unat ((ucast (nanos d) :: u64) div 100) = unat (nanos d) div 100" by (simp add: unat_div)
  show ?thesis
  proof (cases "word_checked_mul (secs d) INTERVALS_PER_SEC")
    case None
    then have "2 ^ 64 \<le> unat (secs d) * 10 ^ 7" by (simp add: word_checked_mul_None)
    with None show ?thesis by (simp add: k dur2intervals_def Duration_as_secs_def)
  next
    case (Some i)
    then have i: "unat i = unat (secs d) * 10 ^ 7" by (simp add: word_checked_mul_Some)
    show ?thesis
    proof (cases "word_checked_add i (ucast (nanos d) div 100)")
      case None
      then have "2 ^ 64 \<le> unat (secs d) * 10 ^ 7 + unat (nanos d) div 100" using i e by (simp add: word_checked_add_None)
      with None Some show ?thesis by (simp add: k dur2intervals_def Duration_as_secs_def Duration_subsec_nanos_def)
    next
      case j: (Some j)
      then have "unat j = nanos_of d div 100" using i e k by (simp add: word_checked_add_Some)
      then show ?thesis using Some j sint_small [of j]
        by (auto simp: dur2intervals_def Duration_as_secs_def Duration_subsec_nanos_def u64_try_into_i64_def simp del: of_nat_unat)
    qed
  qed
qed

lemma FILETIME_sub_time_exact:
  "FILETIME_sub_time a b = exact_difference (2 ^ 63 * 100) (filetime_nanos a - filetime_nanos b)"
proof -
  have main: "bindR (ssubP x y) (\<lambda>i. bindR (intervals2dur i) (\<lambda>d. Inr (f d))) =
      (if sint x - sint y < 2 ^ 63 then Inr (f (duration_of (nat (sint x * 100 - sint y * 100))))
       else Inl (Panic ''attempt to subtract with overflow''))" if "sint y \<le> sint x"
    for x y :: i64 and f :: "Duration \<Rightarrow> Duration + Duration"
  proof (cases "sint x - sint y < 2 ^ 63")
    case True
    then have fits: "signed_fits (LENGTH(64) - 1) (sint x - sint y)" using that by (simp add: signed_fits_def)
    have "unat (x - y) = nat (sint x - sint y)" using sint_sub_fits [OF fits] that by (subst unat_sint) simp_all
    then have "unat (x - y) * 100 = nat (sint x * 100 - sint y * 100)" using that by linarith
    then show ?thesis using ssubP_ok [OF fits] True by (simp add: intervals2dur_exact)
  next
    case False
    then show ?thesis by (simp add: ssubP_fail signed_fits_def)
  qed
  show ?thesis
    using main [of "intervals b" "intervals a" Inr] main [of "intervals a" "intervals b" Inl]
    by (simp add: FILETIME_sub_time_def exact_difference_def filetime_nanos_def Let_def algebra_simps)
qed

lemma filetime_at:
  assumes "valid_duration d" "filetime_nanos b = filetime_nanos a + int (nanos_of d)" "int (nanos_of d) < 2 ^ 63 * 100"
  obtains i where "dur2intervals d = Inr i" "sint (intervals b) = sint (intervals a) + sint i"
proof -
  have "int (nanos_of d) = (sint (intervals b) - sint (intervals a)) * 100"
    using assms(2) by (simp add: filetime_nanos_def)
  then have "int (nanos_of d) div 100 = sint (intervals b) - sint (intervals a)" by (simp only:) simp
  then have "int (nanos_of d div 100) = sint (intervals b) - sint (intervals a)" by (simp only: zdiv_int of_nat_numeral)
  moreover have "nanos_of d div 100 < 2 ^ 63" using assms(3) by (simp add: less_mult_imp_div_less)
  ultimately show ?thesis using dur2intervals_exact [OF assms(1)] that by auto
qed

interpretation windows: system_clock windows_time "\<lambda>_. True" filetime_nanos "2 ^ 63 * 100"
proof (unfold_locales, goal_cases)
  case (2 a b)
  then show ?case by (simp add: windows_time_def FILETIME_sub_time_exact)
next
  case (3 a b d)
  then obtain i where "dur2intervals d = Inr i" "signed_checked_add (intervals a) i = Some (intervals b)"
    using filetime_at [of d b a] by (auto simp: signed_checked_add_Some)
  then show ?case by (simp add: windows_time_def FILETIME_add_duration_def from_intervals_intervals)
next
  case (4 a b d)
  then have "filetime_nanos b = filetime_nanos a + int (nanos_of d)" by simp
  from filetime_at [OF 4(3) this 4(4)] obtain i where "dur2intervals d = Inr i"
    "sint (intervals b) = sint (intervals a) + sint i" .
  moreover from this have "signed_checked_sub (intervals b) i = Some (intervals a)"
    by (simp add: signed_checked_sub_Some)
  ultimately show ?case by (simp add: windows_time_def FILETIME_sub_duration_def from_intervals_intervals)
qed simp

subsection \<open>Instants\<close>

text \<open>The quotient is exact, though the product of the value and the numerator may not fit.\<close>

lemma mul_div_u64_exact:
  assumes nz: "d \<noteq> 0" and fits: "unat d * unat n < 2 ^ 64"
    and r: "unat x * unat n div unat d < 2 ^ 64"
  shows "\<exists>y. mul_div_u64 x n d = Inr y \<and> unat y = unat x * unat n div unat d"
proof -
  let ?X = "unat x" and ?N = "unat n" and ?D = "unat d"
  have D: "0 < ?D" using nz by (simp add: unat_gt_0)
  have "(?X div ?D * ?D + ?X mod ?D) * ?N = ?X * ?N" by (simp only: div_mult_mod_eq)
  then have "?X * ?N = ?X mod ?D * ?N + (?X div ?D * ?N) * ?D" by (simp only: distrib_left distrib_right mult.commute mult.left_commute add.commute)
  then have eq: "?X * ?N div ?D = ?X div ?D * ?N + ?X mod ?D * ?N div ?D" using D by simp
  have "?X mod ?D * ?N \<le> ?D * ?N" using D by (intro mult_le_mono1) (simp add: less_imp_le)
  then have p: "unat (x mod d) * ?N < 2 ^ LENGTH(64)" using fits unfolding unat_mod by (simp only: len_num1 len_num0 len_bit0 len_bit1) (rule le_less_trans, simp_all)
  have q: "unat (x div d) * ?N < 2 ^ LENGTH(64)" using r eq by (simp add: unat_div)
  have u: "unat (x div d * n) = ?X div ?D * ?N" "unat (x mod d * n div d) = ?X mod ?D * ?N div ?D"
    using p q by (simp_all add: unat_mult_small unat_div unat_mod)
  then have s: "unat (x div d * n) + unat (x mod d * n div d) < 2 ^ LENGTH(64)" using r eq by simp
  then show ?thesis using nz eq u mulP_ok [OF p] mulP_ok [OF q] addP_ok [OF s]
    by (simp add: mul_div_u64_def divP_def remP_def unat_add_small)
qed

lemma nanos_to_duration_exact: "nanos_to_duration n = Inr (duration_of (unat n))"
proof -
  have m: "unat (n mod NSEC_PER_SEC) = unat n mod 10 ^ 9" by (simp add: unat_mod)
  have "unat n mod 10 ^ 9 < 10 ^ 9" by simp
  then have u: "unat (ucast (n mod NSEC_PER_SEC) :: u32) = unat n mod 10 ^ 9" using m by (subst ucast_u32) simp_all
  have "unat (n div NSEC_PER_SEC) = unat n div 10 ^ 9" by (simp add: unat_div)
  then show ?thesis using u Duration_new_small [of "ucast (n mod NSEC_PER_SEC)" "n div NSEC_PER_SEC"]
    by (simp add: nanos_to_duration_def)
qed

lemma Windows_sub_instant_exact:
  assumes f: "0 < unat frequency" "unat frequency * 10 ^ 9 < 2 ^ 64"
    and a: "0 \<le> sint other" "sint other \<le> sint self"
    and n: "nat (sint self - sint other) * 10 ^ 9 div unat frequency < 2 ^ 64"
  shows "Windows_sub_instant frequency self other = Inr (duration_of (nat (sint self - sint other) * 10 ^ 9 div unat frequency))"
proof -
  have u: "unat self = nat (sint self)" "unat other = nat (sint other)" using a by (simp_all add: unat_sint)
  then have le: "other \<le> self" using a by (simp add: word_le_nat_alt nat_mono)
  then have d: "unat (self - other) = nat (sint self - sint other)" using a u by (simp add: unat_sub_small nat_diff_distrib)
  have "frequency \<noteq> 0" using f by auto
  then obtain y where "mul_div_u64 (self - other) NSEC_PER_SEC frequency = Inr y"
    "unat y = nat (sint self - sint other) * 10 ^ 9 div unat frequency"
    using mul_div_u64_exact [of frequency NSEC_PER_SEC "self - other"] f n d by (auto simp: mult.commute)
  then show ?thesis using a le
    by (simp add: Windows_sub_instant_def word_checked_sub_def nanos_to_duration_exact)
qed

text \<open>One tick of the counter in the wrong order counts as no time at all.\<close>

lemma Windows_sub_instant_tick:
  assumes "sint other = sint self + 1"
  shows "Windows_sub_instant frequency self other = Inr (duration_of 0)"
proof -
  have "signed_checked_sub other self = Some 1" using assms by (simp add: signed_checked_sub_Some)
  then have "ssubP other self = Inr 1" by (simp add: ssubP_def)
  then show ?thesis using assms by (simp add: Windows_sub_instant_def Duration_new_small)
qed

lemma Mac_sub_instant_exact:
  assumes "0 < unat (tb_denom info)" "other \<le> self"
    and "(unat self - unat other) * unat (tb_numer info) div unat (tb_denom info) < 2 ^ 64"
  shows "Mac_sub_instant info self other =
    Inr (duration_of ((unat self - unat other) * unat (tb_numer info) div unat (tb_denom info)))"
proof -
  have "unat (tb_denom info) * unat (tb_numer info) < 2 ^ 32 * 2 ^ 32"
    using u32_bound [of "tb_denom info"] u32_bound [of "tb_numer info"] by (intro mult_strict_mono) simp_all
  then have fits: "unat (ucast (tb_denom info) :: u64) * unat (ucast (tb_numer info) :: u64) < 2 ^ 64" by simp
  have "unat (ucast (tb_denom info) :: u64) \<noteq> 0" using assms(1) by simp
  then have nz: "(ucast (tb_denom info) :: u64) \<noteq> 0" by (metis unat_0)
  show ?thesis using assms(2, 3) mul_div_u64_exact [OF nz fits, of "self - other"]
    by (auto simp: Mac_sub_instant_def word_checked_sub_def nanos_to_duration_exact unat_sub_small)
qed

subsection \<open>The edges of the range\<close>

text \<open>
  The extreme times are more than \<open>2 ^ 63\<close> seconds apart: the difference of the seconds overflows before
  it is converted to \<open>u64\<close>, which could hold it.
\<close>

lemma duration_since_overflows:
  "SystemTime_duration_since unix_time (Timespec (2 ^ 63 - 1) 0) (Timespec (- 1) 0) =
     Inl (Panic ''attempt to subtract with overflow'')"
  by (simp add: SystemTime_duration_since_def unix_time_def Timespec_sub_timespec_exact valid_timespec_def timespec_nanos_def)

text \<open>
  A duration of \<open>2 ^ 63\<close> seconds is refused, also where the sum is a time that the type can hold: one second before
  the epoch plus that duration is the last second.
\<close>

lemma add_refuses_representable:
  "SystemTime_add unix_time (Timespec (- 1) 0) (Duration (2 ^ 63) 0) = Inl (Panic ''overflow when adding duration to time'')
   \<and> timespec_nanos (Timespec (- 1) 0) + int (nanos_of (Duration (2 ^ 63) 0)) = timespec_nanos (Timespec (2 ^ 63 - 1) 0)"
  by (simp add: SystemTime_add_def unix_time_def Timespec_add_duration_exact valid_timespec_def valid_duration_def
    timespec_nanos_def nanos_of_def)

text \<open>
  C12: the arithmetic of system times, on Unix and Redox and on Windows. \<open>duration_since\<close> gives the exact distance of
  two times, in the error where the other time is the later one, and addition and subtraction take that
  duration from one time to the other and back, without an overflow; it panics exactly where the distance is
  \<open>2 ^ 63\<close> units of the clock or more.
\<close>

theorem SystemTime_math:
  assumes "valid_timespec a" "valid_timespec b"
  shows "(if \<bar>timespec_nanos b - timespec_nanos a\<bar> < 2 ^ 63 * 10 ^ 9
     then \<exists>r. SystemTime_duration_since unix_time b a = Inr r \<and>
            duration_is r (timespec_nanos b - timespec_nanos a) \<and> agree unix_time a b r
     else SystemTime_duration_since unix_time b a = Inl (Panic ''attempt to subtract with overflow'')) \<and>
    (if \<bar>filetime_nanos y - filetime_nanos x\<bar> < 2 ^ 63 * 100
     then \<exists>r. SystemTime_duration_since windows_time y x = Inr r \<and>
            duration_is r (filetime_nanos y - filetime_nanos x) \<and> agree windows_time x y r
     else SystemTime_duration_since windows_time y x = Inl (Panic ''attempt to subtract with overflow''))"
  by (rule conjI, rule unix.system_time_math [OF assms], rule windows.system_time_math [OF TrueI TrueI])

theorem SystemTime_math_witness:
  "(\<exists>r. SystemTime_duration_since unix_time (Timespec 5 100) (Timespec (- 3) 700) = Inr r \<and>
      duration_is r 7999999400 \<and> agree unix_time (Timespec (- 3) 700) (Timespec 5 100) r) \<and>
   (\<exists>r. SystemTime_duration_since windows_time FILETIME_UNIX_EPOCH (FILETIME 1 (2 ^ 31 - 1)) = Inr r \<and>
      agree windows_time (FILETIME 1 (2 ^ 31 - 1)) FILETIME_UNIX_EPOCH r)"
proof -
  have v: "valid_timespec (Timespec (- 3) 700)" "valid_timespec (Timespec 5 100)" by (simp_all add: valid_timespec_def)
  have "\<bar>filetime_nanos FILETIME_UNIX_EPOCH - filetime_nanos (FILETIME 1 (2 ^ 31 - 1))\<bar> < 2 ^ 63 * 100"
    by (simp add: filetime_nanos_def intervals_def FILETIME_UNIX_EPOCH_def push_bit_eq_mult drop_bit_eq_div)
  then show ?thesis using SystemTime_math [OF v, of FILETIME_UNIX_EPOCH "FILETIME 1 (2 ^ 31 - 1)"]
    by (simp add: timespec_nanos_def) blast
qed

end
