(* ===== verification/Robin_Hood.thy ===== *)
theory Robin_Hood
  imports Rust_Base "HOL-Library.Multiset"
begin

section \<open>Robin Hood tables, abstractly\<close>

text \<open>
  The mathematics behind \<open>collections/hash/map.rs\<close>, over a plain list of slots: an empty slot
  or a stored hash with its key and value. The ideal slot of a hash is the hash modulo the
  number of slots, and its displacement is the cyclic distance from there. The \<^emph>\<open>height\<close> of a
  slot is 0 when it is empty and one more than its displacement otherwise; the table is in
  Robin Hood order when the height grows by at most one from a slot to the next. This one
  inequality carries every argument: probing for a key stops only where it cannot be, stealing
  a slot keeps the order, and so does shifting entries back into a gap.
\<close>

type_synonym ('k, 'v) slot = "(usize \<times> 'k \<times> 'v) option"

subsection \<open>Cyclic distance\<close>

definition nxt :: "nat \<Rightarrow> nat \<Rightarrow> nat" where
  "nxt N i = Suc i mod N"

definition disp :: "nat \<Rightarrow> nat \<Rightarrow> usize \<Rightarrow> nat" where
  "disp N i h = (i + N - unat h mod N) mod N"

lemma nxt_less [simp]: "0 < N \<Longrightarrow> nxt N i < N"
  by (simp add: nxt_def)

lemma disp_less [simp]: "0 < N \<Longrightarrow> disp N i h < N"
  by (simp add: disp_def)

lemma cyc_index:
  fixes b j N :: nat
  assumes "b < N" "j < N"
  shows "(b + j) mod N = (if b + j < N then b + j else b + j - N)"
  using assms by (simp add: le_mod_geq)

lemma disp_cases: "0 < N \<Longrightarrow> i < N \<Longrightarrow>
    disp N i h = (if unat h mod N \<le> i then i - unat h mod N else i + N - unat h mod N)"
  unfolding disp_def using mod_less_divisor [of N "unat h"]
  by (simp add: le_mod_geq mod_less)

lemma disp_eqI:
  assumes "j < N" "(unat h mod N + j) mod N = i"
  shows "disp N i h = j"
proof -
  define b where "b = unat h mod N"
  have b: "b < N" using assms(1) by (simp add: b_def)
  have i: "i = (if b + j < N then b + j else b + j - N)"
    using assms cyc_index [OF b assms(1)] by (simp add: b_def)
  then have "i < N" "0 < N" using b assms(1) by (auto split: if_splits)
  then show ?thesis using i b assms(1) disp_cases [of N i h]
    by (auto simp flip: b_def split: if_splits)
qed

lemma disp_index:
  assumes "i < N"
  shows "(unat h mod N + disp N i h) mod N = i"
proof -
  define b where "b = unat h mod N"
  have N: "0 < N" using assms by (cases N) auto
  then have b: "b < N" by (simp add: b_def)
  have "disp N i h = (if b \<le> i then i - b else i + N - b)"
    using disp_cases [OF N assms] by (simp add: b_def)
  then show ?thesis
    using b assms cyc_index [OF b disp_less [OF N], of i h] by (auto simp flip: b_def)
qed

lemma disp_nxt:
  assumes "i < N" "Suc (disp N i h) < N"
  shows "disp N (nxt N i) h = Suc (disp N i h)"
proof (rule disp_eqI [OF assms(2)])
  have "(unat h mod N + Suc (disp N i h)) mod N = Suc ((unat h mod N + disp N i h) mod N) mod N"
    by (simp add: mod_Suc_eq)
  then show "(unat h mod N + Suc (disp N i h)) mod N = nxt N i"
    using disp_index [OF assms(1), of h] by (simp add: nxt_def)
qed

lemma disp_pred:
  assumes "i < N" "0 < disp N (nxt N i) h"
  shows "disp N (nxt N i) h = Suc (disp N i h)"
proof -
  have "nxt N i < N" using assms by simp
  obtain j where j: "disp N (nxt N i) h = Suc j" using assms(2) by (cases "disp N (nxt N i) h") auto
  have jN: "Suc j < N" using disp_less [of N "nxt N i" h] assms(1) j by simp
  let ?b = "unat h mod N"
  have "(?b + Suc j) mod N = nxt N i" using disp_index [OF \<open>nxt N i < N\<close>, of h] j by simp
  then have "Suc ((?b + j) mod N) mod N = Suc i mod N" by (simp add: nxt_def mod_Suc_eq)
  moreover have "(?b + j) mod N < N" using jN by simp
  ultimately have "(?b + j) mod N = i" using assms(1) by (auto simp: mod_Suc split: if_splits)
  then have "disp N i h = j" using jN by (intro disp_eqI) simp_all
  with j show ?thesis by simp
qed

subsection \<open>Heights and the Robin Hood order\<close>

definition height :: "('k, 'v) slot list \<Rightarrow> nat \<Rightarrow> nat" where
  "height xs i = (case xs ! i of None \<Rightarrow> 0 | Some (h, _) \<Rightarrow> Suc (disp (length xs) i h))"

definition rh :: "('k, 'v) slot list \<Rightarrow> bool" where
  "rh xs \<longleftrightarrow> (\<forall>i < length xs. height xs (nxt (length xs) i) \<le> Suc (height xs i))"

lemma height_None [simp]: "xs ! i = None \<Longrightarrow> height xs i = 0"
  by (simp add: height_def)

lemma height_Some [simp]: "xs ! i = Some (h, kv) \<Longrightarrow> height xs i = Suc (disp (length xs) i h)"
  by (simp add: height_def)

lemma height_eq_0 [simp]: "height xs i = 0 \<longleftrightarrow> xs ! i = None"
  by (auto simp: height_def split: option.splits)

lemma height_update [simp]:
  assumes "p < length xs"
  shows "height (xs[p := e]) i =
    (if i = p then (case e of None \<Rightarrow> 0 | Some (h, _) \<Rightarrow> Suc (disp (length xs) p h)) else height xs i)"
  using assms by (auto simp: height_def split: option.splits)

lemma rhD: "rh xs \<Longrightarrow> i < length xs \<Longrightarrow> height xs (nxt (length xs) i) \<le> Suc (height xs i)"
  by (simp add: rh_def)

text \<open>Every slot on the way from an entry's ideal slot to the entry is taken, and high enough.\<close>

lemma rh_chain:
  assumes rh: "rh xs" and i: "i < length xs" and e: "xs ! i = Some (h, kv)"
    and j: "j \<le> disp (length xs) i h"
  shows "Suc j \<le> height xs ((unat h mod length xs + j) mod length xs)"
  using j
proof (induction "disp (length xs) i h - j" arbitrary: j)
  case 0
  then have "j = disp (length xs) i h" by simp
  then show ?case using e disp_index [OF i, of h] by simp
next
  case (Suc m)
  let ?N = "length xs" and ?b = "unat h mod length xs"
  have N: "0 < ?N" using i by linarith
  have "Suc (Suc j) \<le> height xs ((?b + Suc j) mod ?N)"
    using Suc.hyps(2) Suc.prems by (intro Suc.hyps(1)) simp_all
  also have "(?b + Suc j) mod ?N = nxt ?N ((?b + j) mod ?N)"
    by (simp add: nxt_def mod_Suc_eq)
  also have "height xs \<dots> \<le> Suc (height xs ((?b + j) mod ?N))"
    using N by (intro rhD [OF rh]) simp
  finally show ?case by simp
qed

lemma nxt_inj: "i < N \<Longrightarrow> k < N \<Longrightarrow> nxt N i = nxt N k \<Longrightarrow> i = k"
  by (auto simp: nxt_def mod_Suc split: if_splits)

subsection \<open>Probing and placing\<close>

text \<open>
  A probe for a hash stands at a slot after \<open>j\<close> steps and has so far seen only slots at
  least as high as its own count; it suffices to remember that of the slot just before.
\<close>

definition probe_ok :: "('k, 'v) slot list \<Rightarrow> nat \<Rightarrow> nat \<Rightarrow> bool" where
  "probe_ok xs p j \<longleftrightarrow>
     p < length xs \<and> (\<forall>q < length xs. nxt (length xs) q = p \<longrightarrow> j \<le> height xs q)"

lemma probe_ok_start: "p < length xs \<Longrightarrow> probe_ok xs p 0"
  by (simp add: probe_ok_def)

lemma probe_ok_step:
  assumes "probe_ok xs p j" "j < height xs p"
  shows "probe_ok xs (nxt (length xs) p) (Suc j)"
proof -
  have p: "p < length xs" using assms by (simp add: probe_ok_def)
  then have "0 < length xs" by linarith
  then show ?thesis using assms p by (auto simp: probe_ok_def Suc_le_eq dest: nxt_inj)
qed

lemma rh_place:
  assumes rh: "rh xs" and ok: "probe_ok xs p (disp (length xs) p h)"
    and low: "height xs p \<le> disp (length xs) p h"
  shows "rh (xs[p := Some (h, kv)])"
  unfolding rh_def
proof (intro allI impI)
  fix i assume "i < length (xs[p := Some (h, kv)])"
  then have i: "i < length xs" by simp
  have p: "p < length xs" using ok by (simp add: probe_ok_def)
  show "height (xs[p := Some (h, kv)]) (nxt (length (xs[p := Some (h, kv)])) i)
      \<le> Suc (height (xs[p := Some (h, kv)]) i)"
    using rhD [OF rh i] ok low i p by (auto simp: probe_ok_def)
qed

lemma probe_ok_carry:
  assumes ok: "probe_ok xs p (disp (length xs) p h)" and e: "xs ! p = Some (h', kv')"
    and low: "disp (length xs) p h' < disp (length xs) p h"
  shows "probe_ok (xs[p := Some (h, kv)]) (nxt (length xs) p) (Suc (disp (length xs) p h'))"
proof -
  have p: "p < length xs" using ok by (simp add: probe_ok_def)
  then have "0 < length xs" by linarith
  then show ?thesis using p low by (auto simp: probe_ok_def dest: nxt_inj)
qed

subsection \<open>Gaps\<close>

definition gap_ok :: "('k, 'v) slot list \<Rightarrow> nat \<Rightarrow> bool" where
  "gap_ok xs g \<longleftrightarrow> g < length xs \<and> xs ! g = None \<and>
     (\<forall>i < length xs. (i \<noteq> g \<longrightarrow> height xs (nxt (length xs) i) \<le> Suc (height xs i)) \<and>
        (nxt (length xs) i = g \<longrightarrow> height xs (nxt (length xs) g) \<le> Suc (Suc (height xs i))))"

lemma gap_ok_take:
  assumes rh: "rh xs" and g: "g < length xs"
  shows "gap_ok (xs[g := None]) g"
proof -
  have "height xs (nxt (length xs) g) \<le> Suc (Suc (height xs i))"
    if "i < length xs" "nxt (length xs) i = g" for i
    using rhD [OF rh that(1)] rhD [OF rh g] that(2) by simp
  then show ?thesis using g rhD [OF rh] by (auto simp: gap_ok_def)
qed

lemma gap_ok_close:
  assumes "gap_ok xs g" "height xs (nxt (length xs) g) \<le> 1"
  shows "rh xs"
  using assms unfolding rh_def gap_ok_def by (metis height_None One_nat_def)

lemma gap_ok_shift:
  assumes gap: "gap_ok xs g" and e: "xs ! nxt (length xs) g = Some (h, kv)"
    and d: "0 < disp (length xs) (nxt (length xs) g) h"
  shows "gap_ok (xs[g := Some (h, kv), nxt (length xs) g := None]) (nxt (length xs) g)"
proof -
  let ?N = "length xs"
  let ?g' = "nxt ?N g"
  have g: "g < ?N" using gap by (simp add: gap_ok_def)
  then have N: "0 < ?N" "?g' < ?N" by (auto intro: nxt_less)
  have ne: "?g' \<noteq> g" using gap e by (auto simp: gap_ok_def)
  have hg: "disp ?N ?g' h = Suc (disp ?N g h)" using disp_pred [OF g d] .
  have step: "height xs (nxt ?N i) \<le> Suc (height xs i)" if "i < ?N" "i \<noteq> g" for i
    using gap that by (auto simp: gap_ok_def)
  have two: "height xs ?g' \<le> Suc (Suc (height xs i))" if "i < ?N" "nxt ?N i = g" for i
    using gap that by (auto simp: gap_ok_def)
  have "height xs (nxt ?N ?g') \<le> Suc (height xs ?g')" using step [OF N(2) ne] .
  then have a: "height xs (nxt ?N ?g') \<le> Suc (Suc (Suc (disp ?N g h)))" using e hg by simp
  define ys where "ys = xs[g := Some (h, kv), ?g' := None]"
  have hy: "height ys i =
      (if i = ?g' then 0 else if i = g then Suc (disp ?N g h) else height xs i)" for i
    using g N by (simp add: ys_def)
  have up: "height ys (nxt ?N i) \<le> Suc (height ys i)" if i: "i < ?N" "i \<noteq> ?g'" for i
  proof (cases "nxt ?N i = ?g' \<or> nxt ?N i = g")
    case True
    then show ?thesis using two [OF i(1)] i ne e hg by (auto simp: hy)
  next
    case False
    then have "i \<noteq> g" by auto
    then show ?thesis using step [OF i(1)] i False by (simp add: hy)
  qed
  have over: "height ys (nxt ?N ?g') \<le> Suc (Suc (height ys i))"
    if i: "i < ?N" "nxt ?N i = ?g'" for i
    using nxt_inj [OF i(1) g i(2)] a ne by (simp add: hy)
  have "length ys = ?N" "ys ! ?g' = None" using N by (simp_all add: ys_def)
  with up over N show ?thesis unfolding gap_ok_def ys_def [symmetric] by auto
qed

subsection \<open>Cluster heads\<close>

lemma cyc_reach:
  fixes e i N :: nat
  assumes "e < N" "i < N"
  obtains j where "j < N" "(e + j) mod N = i"
proof (cases "e \<le> i")
  case True
  then show ?thesis using assms by (intro that [of "i - e"]) auto
next
  case False
  then show ?thesis using assms cyc_index [of e N "i + N - e"] by (intro that [of "i + N - e"]) auto
qed

lemma rh_head_exists:
  assumes rh: "rh xs" and e: "e < length xs" "xs ! e = None" and f: "f < length xs" "xs ! f \<noteq> None"
  shows "\<exists>i < length xs. height xs i = 1"
proof (rule ccontr)
  assume none: "\<not> ?thesis"
  let ?N = "length xs"
  have N: "0 < ?N" using e by linarith
  have "height xs ((e + j) mod ?N) = 0" for j
  proof (induction j)
    case 0
    then show ?case using e by simp
  next
    case (Suc j)
    have "nxt ?N ((e + j) mod ?N) = (e + Suc j) mod ?N" by (simp add: nxt_def mod_Suc_eq)
    then have "height xs ((e + Suc j) mod ?N) \<le> 1"
      using rhD [OF rh, of "(e + j) mod ?N"] N Suc by simp
    moreover have "height xs ((e + Suc j) mod ?N) \<noteq> 1" using none N by auto
    ultimately show ?case by linarith
  qed
  moreover obtain j where "(e + j) mod ?N = f" using cyc_reach [OF e(1) f(1)] .
  ultimately show False using f(2) by (metis height_eq_0)
qed

subsection \<open>Counting and contents\<close>

definition count_full :: "('k, 'v) slot list \<Rightarrow> nat" where
  "count_full xs = length (filter (\<lambda>s. s \<noteq> None) xs)"

lemma count_full_simps [simp]:
  "count_full [] = 0"
  "count_full (x # xs) = (if x = None then 0 else 1) + count_full xs"
  by (auto simp: count_full_def)

lemma count_full_update:
  assumes "i < length xs"
  shows "count_full (xs[i := e]) + (if xs ! i = None then 0 else 1)
       = count_full xs + (if e = None then 0 else 1)"
  using assms
proof (induction xs arbitrary: i)
  case (Cons x xs)
  then show ?case by (cases i) (simp_all add: algebra_simps)
qed simp

lemma count_full_le: "count_full xs \<le> length xs"
  by (simp add: count_full_def)

lemma count_full_less_ex:
  assumes "count_full xs < length xs"
  obtains i where "i < length xs" "xs ! i = None"
proof (rule ccontr)
  assume "\<not> thesis"
  then have "\<forall>s \<in> set xs. s \<noteq> None" using that by (metis in_set_conv_nth)
  then have "filter (\<lambda>s. s \<noteq> None) xs = xs" by (rule filter_True)
  then show False using assms by (simp add: count_full_def)
qed

lemma count_full_pos: "i < length xs \<Longrightarrow> xs ! i \<noteq> None \<Longrightarrow> 0 < count_full xs"
  unfolding count_full_def by (rule length_pos_if_in_set [of "xs ! i"]) simp

lemma count_full_pos_ex:
  assumes "0 < count_full xs"
  obtains i where "i < length xs" "xs ! i \<noteq> None"
proof -
  have "\<exists>s \<in> set xs. s \<noteq> None" using assms by (induction xs) (auto split: if_splits)
  then show ?thesis using that by (metis in_set_conv_nth)
qed

lemma count_full_replicate [simp]: "count_full (replicate n None) = 0"
  by (simp add: count_full_def)

text \<open>The entries of a table, in index order and as a multiset.\<close>

definition full_list :: "('k, 'v) slot list \<Rightarrow> (usize \<times> 'k \<times> 'v) list" where
  "full_list xs = List.map_filter id xs"

definition contents :: "('k, 'v) slot list \<Rightarrow> (usize \<times> 'k \<times> 'v) multiset" where
  "contents xs = mset (full_list xs)"

abbreviation slot_mset :: "('k, 'v) slot \<Rightarrow> (usize \<times> 'k \<times> 'v) multiset" where
  "slot_mset s \<equiv> (case s of None \<Rightarrow> {#} | Some e \<Rightarrow> {#e#})"

lemma full_list_simps [simp]:
  "full_list [] = []"
  "full_list (None # xs) = full_list xs"
  "full_list (Some e # xs) = e # full_list xs"
  by (simp_all add: full_list_def List.map_filter_simps)

lemma contents_simps [simp]:
  "contents [] = {#}"
  "contents (s # xs) = slot_mset s + contents xs"
  by (auto simp: contents_def split: option.split)

lemma contents_update:
  assumes "i < length xs"
  shows "contents (xs[i := s]) + slot_mset (xs ! i) = contents xs + slot_mset s"
  using assms
proof (induction xs arbitrary: i)
  case (Cons x xs)
  then show ?case by (cases i) (simp add: ac_simps, simp add: add.assoc)
qed simp

lemma contents_put: "i < length xs \<Longrightarrow> xs ! i = None \<Longrightarrow> contents (xs[i := Some e]) = add_mset e (contents xs)"
  using contents_update [of i xs "Some e"] by simp

lemma contents_take: "i < length xs \<Longrightarrow> xs ! i = Some e \<Longrightarrow> add_mset e (contents (xs[i := None])) = contents xs"
  using contents_update [of i xs None] by simp

lemma contents_replace:
  "i < length xs \<Longrightarrow> xs ! i = Some e' \<Longrightarrow> add_mset e' (contents (xs[i := Some e])) = add_mset e (contents xs)"
  using contents_update [of i xs "Some e"] by simp

lemma size_contents: "size (contents xs) = count_full xs"
  by (induction xs) (auto split: option.split)

lemma in_contents: "e \<in># contents xs \<longleftrightarrow> Some e \<in> set xs"
  by (induction xs) (auto split: option.splits)

lemma in_contents_nth: "e \<in># contents xs \<longleftrightarrow> (\<exists>i < length xs. xs ! i = Some e)"
  by (auto simp: in_contents in_set_conv_nth)

lemma contents_replicate [simp]: "contents (replicate n None) = {#}"
  by (induction n) simp_all

text \<open>Consecutive full slots are counted.\<close>

lemma count_full_card: "count_full xs = card {i. i < length xs \<and> xs ! i \<noteq> None}"
  unfolding count_full_def by (rule length_filter_conv_card)

lemma count_full_run:
  assumes m: "m \<le> length xs" and full: "\<forall>j < m. xs ! ((b + j) mod length xs) \<noteq> None"
  shows "m \<le> count_full xs"
proof -
  let ?N = "length xs" and ?f = "\<lambda>j. (b + j) mod length xs"
  have "inj_on ?f {..<m}"
  proof (rule inj_onI)
    fix j k assume jk: "j \<in> {..<m}" "k \<in> {..<m}" "?f j = ?f k"
    then have lt: "j < ?N" "k < ?N" "b mod ?N < ?N" using m by (auto intro!: mod_less_divisor)
    have "(b mod ?N + j) mod ?N = (b mod ?N + k) mod ?N" using jk(3) by (simp add: mod_add_left_eq)
    then show "j = k"
      using cyc_index [OF lt(3,1)] cyc_index [OF lt(3,2)] lt by (simp split: if_splits)
  qed
  moreover have "?f ` {..<m} \<subseteq> {i. i < ?N \<and> xs ! i \<noteq> None}"
    using m full by (auto intro!: mod_less_divisor)
  ultimately have "card {..<m} \<le> card {i. i < ?N \<and> xs ! i \<noteq> None}"
    by (intro card_inj_on_le) auto
  then show ?thesis by (simp add: count_full_card)
qed

lemma rh_height_le:
  assumes rh: "rh xs" and p: "p < length xs"
  shows "height xs p \<le> count_full xs"
proof (cases "xs ! p")
  case (Some e)
  then obtain h kv where e: "xs ! p = Some (h, kv)" by (cases e) auto
  have N: "0 < length xs" using p by linarith
  have "Suc (disp (length xs) p h) \<le> count_full xs"
  proof (rule count_full_run)
    show "Suc (disp (length xs) p h) \<le> length xs" using N by (simp add: Suc_le_eq)
    show "\<forall>j < Suc (disp (length xs) p h). xs ! ((unat h mod length xs + j) mod length xs) \<noteq> None"
    proof (intro allI impI)
      fix j assume "j < Suc (disp (length xs) p h)"
      then have "Suc j \<le> height xs ((unat h mod length xs + j) mod length xs)"
        by (intro rh_chain [OF rh p e]) simp
      then show "xs ! ((unat h mod length xs + j) mod length xs) \<noteq> None"
        by (metis height_None not_less_eq_eq le0)
    qed
  qed
  then show ?thesis using e by simp
qed simp

lemma cyc_neq:
  fixes b i j N :: nat
  assumes "i < j" "j < i + N"
  shows "(b + i) mod N \<noteq> (b + j) mod N"
proof
  assume eq: "(b + i) mod N = (b + j) mod N"
  then have "N dvd (b + j) - (b + i)" using assms by (metis mod_eq_dvd_iff_nat add_le_cancel_left less_imp_le)
  then have "N dvd j - i" by simp
  then show False using assms by (auto dest!: dvd_imp_le)
qed

end
