(* ===== verification/Raw_Table.thy ===== *)
theory Raw_Table
  imports Robin_Hood
begin

section \<open>\<open>collections/hash/table.rs\<close>: the raw table\<close>

text \<open>
  The unsafe bucket array of \<open>src/collections/hash/table.rs\<close>. The single heap buffer of the
  source is two lists, the stored hashes (0 is \<open>EMPTY_BUCKET\<close>) and the key/value memory, in which
  \<^const>\<open>None\<close> is uninitialised memory; every unsafe read or write checks its bounds and its
  initialisation and faults with \<^const>\<open>Undefined\<close> otherwise. The tag bit that the source
  keeps in the low bit of the hash pointer is the field \<open>ttag\<close>, and the pointer arithmetic
  that stores it is modelled on its own; the dangling pointer of a table without buckets is
  \<open>EMPTY = 1\<close>, so such a table reads as tagged. The size and alignment of a key/value pair, which the
  type system supplies, travel in the field \<open>kv_layout\<close>. A bucket is an index together with the
  table it was made from. Heap exhaustion and the layout check of the allocator are not modelled.
\<close>

abbreviation EMPTY_BUCKET :: usize where "EMPTY_BUCKET \<equiv> 0"

subsection \<open>The tagged pointer\<close>

definition TaggedHashUintPtr_set_tag :: "usize \<Rightarrow> bool \<Rightarrow> usize" where
  "TaggedHashUintPtr_set_tag p value = (if value then p OR 1 else p AND NOT 1)"

definition TaggedHashUintPtr_tag :: "usize \<Rightarrow> bool" where
  "TaggedHashUintPtr_tag p \<longleftrightarrow> p AND 1 = 1"

definition TaggedHashUintPtr_ptr :: "usize \<Rightarrow> usize" where
  "TaggedHashUintPtr_ptr p = p AND NOT 1"

subsection \<open>Hashes\<close>

type_synonym safe_hash = usize

definition SafeHash_new :: "u64 \<Rightarrow> safe_hash" where
  "SafeHash_new h = push_bit (64 - 1) 1 OR h"

definition SafeHash_inspect :: "safe_hash \<Rightarrow> usize" where
  "SafeHash_inspect h = h"

text \<open>
  The hash builder is the function from a key to the 64 bits that its hasher finishes with.
\<close>

definition make_hash :: "('q \<Rightarrow> u64) \<Rightarrow> 'q \<Rightarrow> safe_hash" where
  "make_hash hash_state t = SafeHash_new (hash_state t)"

subsection \<open>The table and its memory\<close>

record ('k, 'v) raw_table =
  capacity_mask :: usize
  tsize :: usize
  ttag :: bool
  hashes :: "usize list"
  pairs :: "('k \<times> 'v) option list"
  kv_layout :: "usize \<times> usize"

definition read_hash :: "('k, 'v) raw_table \<Rightarrow> usize \<Rightarrow> usize res" where
  "read_hash t i =
     (if unat i < length (hashes t) then Inr (hashes t ! unat i)
      else Inl (Undefined ''hash read out of bounds''))"

definition write_hash :: "('k, 'v) raw_table \<Rightarrow> usize \<Rightarrow> usize \<Rightarrow> ('k, 'v) raw_table res" where
  "write_hash t i h =
     (if unat i < length (hashes t) then Inr (t\<lparr>hashes := (hashes t)[unat i := h]\<rparr>)
      else Inl (Undefined ''hash write out of bounds''))"

definition read_pair :: "('k, 'v) raw_table \<Rightarrow> usize \<Rightarrow> ('k \<times> 'v) res" where
  "read_pair t i =
     (if unat i < length (pairs t) then
        (case pairs t ! unat i of
           None \<Rightarrow> Inl (Undefined ''read of uninitialised memory'')
         | Some kv \<Rightarrow> Inr kv)
      else Inl (Undefined ''pair read out of bounds''))"

definition write_pair :: "('k, 'v) raw_table \<Rightarrow> usize \<Rightarrow> ('k \<times> 'v) option \<Rightarrow> ('k, 'v) raw_table res" where
  "write_pair t i kv =
     (if unat i < length (pairs t) then Inr (t\<lparr>pairs := (pairs t)[unat i := kv]\<rparr>)
      else Inl (Undefined ''pair write out of bounds''))"

subsection \<open>Allocation\<close>

definition word_is_power_of_two :: "'a::len word \<Rightarrow> bool" where
  "word_is_power_of_two x \<longleftrightarrow> x AND (x - 1) = 0 \<and> x \<noteq> 0"

definition round_up_to_next :: "usize \<Rightarrow> usize \<Rightarrow> usize res" where
  "round_up_to_next unrounded target_alignment =
     bindR (assertR ''target_alignment.is_power_of_two()'' (word_is_power_of_two target_alignment)) (\<lambda>_.
     bindR (addP unrounded target_alignment) (\<lambda>s.
     bindR (subP s 1) (\<lambda>a.
     bindR (subP target_alignment 1) (\<lambda>b.
     Inr (a AND NOT b)))))"

definition word_overflowing_add :: "'a::len word \<Rightarrow> 'a word \<Rightarrow> 'a word \<times> bool" where
  "word_overflowing_add a b = (a + b, 2 ^ LENGTH('a) \<le> unat a + unat b)"

definition calculate_offsets :: "usize \<Rightarrow> usize \<Rightarrow> usize \<Rightarrow> (usize \<times> usize \<times> bool) res" where
  "calculate_offsets hashes_size pairs_size pairs_align =
     bindR (round_up_to_next hashes_size pairs_align) (\<lambda>pairs_offset.
     let (end_of_pairs, oflo) = word_overflowing_add pairs_offset pairs_size
     in Inr (pairs_offset, end_of_pairs, oflo))"

definition calculate_allocation ::
    "usize \<Rightarrow> usize \<Rightarrow> usize \<Rightarrow> usize \<Rightarrow> (usize \<times> usize \<times> bool) res" where
  "calculate_allocation hash_size hash_align pairs_size pairs_align =
     bindR (calculate_offsets hash_size pairs_size pairs_align) (\<lambda>(_, end_of_pairs, oflo).
     Inr (max hash_align pairs_align, end_of_pairs, oflo))"

definition RawTable_new_uninitialized :: "usize \<times> usize \<Rightarrow> usize \<Rightarrow> ('k, 'v) raw_table res" where
  "RawTable_new_uninitialized ly capacity =
     (if capacity = 0 then
        Inr \<lparr>capacity_mask = capacity - 1, tsize = 0, ttag = True, hashes = [], pairs = [],
             kv_layout = ly\<rparr>
      else
        let hashes_size = capacity * 8; pairs_size = capacity * fst ly in
        bindR (calculate_allocation hashes_size 8 pairs_size (snd ly)) (\<lambda>(alignment, size, oflo).
        bindR (assertR ''capacity overflow'' (\<not> oflo)) (\<lambda>_.
        bindR (expectR ''called `Option::unwrap()` on a `None` value''
                 (word_checked_add 8 (fst ly))) (\<lambda>size_of_bucket.
        bindR (expectR ''capacity overflow'' (word_checked_mul capacity size_of_bucket)) (\<lambda>needed.
        bindR (assertR ''capacity overflow'' (size \<ge> needed)) (\<lambda>_.
        Inr \<lparr>capacity_mask = capacity - 1, tsize = 0, ttag = False,
             hashes = replicate (unat capacity) undefined,
             pairs = replicate (unat capacity) None, kv_layout = ly\<rparr>))))))"

definition RawTable_new :: "usize \<times> usize \<Rightarrow> usize \<Rightarrow> ('k, 'v) raw_table res" where
  "RawTable_new ly capacity =
     bindR (RawTable_new_uninitialized ly capacity) (\<lambda>ret.
     Inr (ret\<lparr>hashes := replicate (unat capacity) EMPTY_BUCKET\<rparr>))"

definition RawTable_capacity :: "('k, 'v) raw_table \<Rightarrow> usize" where
  "RawTable_capacity t = capacity_mask t + 1"

definition RawTable_size :: "('k, 'v) raw_table \<Rightarrow> usize" where
  "RawTable_size t = tsize t"

definition RawTable_set_tag :: "('k, 'v) raw_table \<Rightarrow> bool \<Rightarrow> ('k, 'v) raw_table" where
  "RawTable_set_tag t value = t\<lparr>ttag := value\<rparr>"

definition RawTable_tag :: "('k, 'v) raw_table \<Rightarrow> bool" where
  "RawTable_tag t = ttag t"

subsection \<open>Buckets\<close>

datatype BucketState = Empty usize | Full usize

definition Bucket_at_index :: "('k, 'v) raw_table \<Rightarrow> usize \<Rightarrow> usize res" where
  "Bucket_at_index t ib_index =
     bindR (assertR ''Table should have capacity at this point'' (RawTable_capacity t > 0)) (\<lambda>_.
     Inr (ib_index AND capacity_mask t))"

definition Bucket_new :: "('k, 'v) raw_table \<Rightarrow> safe_hash \<Rightarrow> usize res" where
  "Bucket_new t hash = Bucket_at_index t (SafeHash_inspect hash)"

definition Bucket_first :: "('k, 'v) raw_table \<Rightarrow> usize" where
  "Bucket_first t = 0"

definition Bucket_peek :: "('k, 'v) raw_table \<Rightarrow> usize \<Rightarrow> BucketState res" where
  "Bucket_peek t i =
     bindR (read_hash t i) (\<lambda>h. if h = EMPTY_BUCKET then Inr (Empty i) else Inr (Full i))"

definition Bucket_next :: "('k, 'v) raw_table \<Rightarrow> usize \<Rightarrow> usize" where
  "Bucket_next t i = (i + 1) AND capacity_mask t"

definition Bucket_prev :: "('k, 'v) raw_table \<Rightarrow> usize \<Rightarrow> usize" where
  "Bucket_prev t i = (i - 1) AND capacity_mask t"

definition FullBucket_hash :: "('k, 'v) raw_table \<Rightarrow> usize \<Rightarrow> safe_hash res" where
  "FullBucket_hash t i = read_hash t i"

definition FullBucket_displacement :: "('k, 'v) raw_table \<Rightarrow> usize \<Rightarrow> usize res" where
  "FullBucket_displacement t i =
     bindR (FullBucket_hash t i) (\<lambda>h. Inr ((i - SafeHash_inspect h) AND capacity_mask t))"

definition FullBucket_read :: "('k, 'v) raw_table \<Rightarrow> usize \<Rightarrow> ('k \<times> 'v) res" where
  "FullBucket_read t i = read_pair t i"

definition EmptyBucket_put ::
    "('k, 'v) raw_table \<Rightarrow> usize \<Rightarrow> safe_hash \<Rightarrow> 'k \<Rightarrow> 'v \<Rightarrow> ('k, 'v) raw_table res" where
  "EmptyBucket_put t i hash key value =
     bindR (write_hash t i (SafeHash_inspect hash)) (\<lambda>t.
     bindR (write_pair t i (Some (key, value))) (\<lambda>t.
     bindR (addP (tsize t) 1) (\<lambda>s.
     Inr (t\<lparr>tsize := s\<rparr>))))"

definition FullBucket_take ::
    "('k, 'v) raw_table \<Rightarrow> usize \<Rightarrow> (('k, 'v) raw_table \<times> 'k \<times> 'v) res" where
  "FullBucket_take t i =
     bindR (subP (tsize t) 1) (\<lambda>s.
     bindR (write_hash (t\<lparr>tsize := s\<rparr>) i EMPTY_BUCKET) (\<lambda>t.
     bindR (read_pair t i) (\<lambda>(k, v).
     bindR (write_pair t i None) (\<lambda>t.
     Inr (t, k, v)))))"

definition FullBucket_replace ::
    "('k, 'v) raw_table \<Rightarrow> usize \<Rightarrow> safe_hash \<Rightarrow> 'k \<Rightarrow> 'v \<Rightarrow>
     (('k, 'v) raw_table \<times> safe_hash \<times> 'k \<times> 'v) res" where
  "FullBucket_replace t i h k v =
     bindR (read_hash t i) (\<lambda>old_hash.
     bindR (write_hash t i h) (\<lambda>t.
     bindR (read_pair t i) (\<lambda>(old_key, old_val).
     bindR (write_pair t i (Some (k, v))) (\<lambda>t.
     Inr (t, old_hash, old_key, old_val)))))"

definition FullBucket_write_value ::
    "('k, 'v) raw_table \<Rightarrow> usize \<Rightarrow> 'v \<Rightarrow> ('k, 'v) raw_table res" where
  "FullBucket_write_value t i v =
     bindR (read_pair t i) (\<lambda>(k, _). write_pair t i (Some (k, v)))"

text \<open>
  A gap followed by a full bucket; the error case carries the bucket after the gap.
\<close>

definition EmptyBucket_gap_peek ::
    "('k, 'v) raw_table \<Rightarrow> usize \<Rightarrow> (usize + usize \<times> usize) res" where
  "EmptyBucket_gap_peek t gap =
     bindR (Bucket_peek t (Bucket_next t gap)) (\<lambda>b.
     case b of Full bucket \<Rightarrow> Inr (Inr (gap, bucket)) | Empty e \<Rightarrow> Inr (Inl e))"

definition GapThenFull_shift ::
    "('k, 'v) raw_table \<Rightarrow> usize \<Rightarrow> usize \<Rightarrow> (('k, 'v) raw_table \<times> (usize + usize \<times> usize)) res" where
  "GapThenFull_shift t gap full =
     bindR (read_hash t full) (\<lambda>full_hash.
     bindR (write_hash t full EMPTY_BUCKET) (\<lambda>t.
     bindR (write_hash t gap full_hash) (\<lambda>t.
     bindR (read_pair t full) (\<lambda>full_pair.
     bindR (write_pair t gap (Some full_pair)) (\<lambda>t.
     bindR (write_pair t full None) (\<lambda>t.
     bindR (Bucket_peek t (Bucket_next t full)) (\<lambda>b.
     case b of Full bucket \<Rightarrow> Inr (t, Inr (full, bucket)) | Empty e \<Rightarrow> Inr (t, Inl e))))))))"

partial_function (option) head_bucket_loop :: "('k, 'v) raw_table \<Rightarrow> usize \<Rightarrow> usize run" where
  "head_bucket_loop t bucket =
     bindO (Some (Bucket_peek t bucket)) (\<lambda>b.
     case b of
       Full full \<Rightarrow>
         bindO (Some (FullBucket_displacement t full)) (\<lambda>d.
         if d = 0 then ret full else head_bucket_loop t (Bucket_next t full))
     | Empty b \<Rightarrow> head_bucket_loop t (Bucket_next t b))"

definition Bucket_head_bucket :: "('k, 'v) raw_table \<Rightarrow> usize run" where
  "Bucket_head_bucket t = head_bucket_loop t (Bucket_first t)"

subsection \<open>The table invariant\<close>

definition slot_of :: "usize \<Rightarrow> ('k \<times> 'v) option \<Rightarrow> ('k, 'v) slot" where
  "slot_of h p = (if h = EMPTY_BUCKET then None
                  else (case p of None \<Rightarrow> None | Some (k, v) \<Rightarrow> Some (h, k, v)))"

lemma slot_of_simps [simp]:
  "slot_of EMPTY_BUCKET p = None"
  "h \<noteq> EMPTY_BUCKET \<Longrightarrow> slot_of h (Some (k, v)) = Some (h, k, v)"
  by (simp_all add: slot_of_def)

definition slots :: "('k, 'v) raw_table \<Rightarrow> ('k, 'v) slot list" where
  "slots t = map2 slot_of (hashes t) (pairs t)"

text \<open>
  A table has no buckets at all, or a power of two of them, at most $2^{60}$ since the hashes
  alone must fit the address space; both arrays have that length, a
  bucket with a non-zero hash holds an initialised pair, and the size counts those buckets.
\<close>

definition wf_table :: "('k, 'v) raw_table \<Rightarrow> bool" where
  "wf_table t \<longleftrightarrow>
     length (pairs t) = length (hashes t) \<and>
     (hashes t = [] \<and> capacity_mask t = - 1 \<or>
      (\<exists>n < 61. length (hashes t) = 2 ^ n \<and> capacity_mask t = mask n)) \<and>
     (\<forall>i < length (hashes t). hashes t ! i \<noteq> EMPTY_BUCKET \<longrightarrow> pairs t ! i \<noteq> None) \<and>
     unat (tsize t) = count_full (slots t)"

lemma wf_size: "wf_table t \<Longrightarrow> unat (tsize t) = count_full (slots t)"
  by (simp add: wf_table_def)

lemma length_slots: "wf_table t \<Longrightarrow> length (slots t) = length (hashes t)"
  by (simp add: wf_table_def slots_def)

lemma nth_slots:
  "length (pairs t) = length (hashes t) \<Longrightarrow> i < length (hashes t) \<Longrightarrow> slots t ! i =
    (if hashes t ! i = EMPTY_BUCKET then None
     else (case pairs t ! i of None \<Rightarrow> None | Some (k, v) \<Rightarrow> Some (hashes t ! i, k, v)))"
  by (simp add: slots_def slot_of_def)

text \<open>What a slot says about the memory behind it.\<close>

lemma slots_None:
  assumes "wf_table t" "i < length (slots t)"
  shows "slots t ! i = None \<longleftrightarrow> hashes t ! i = EMPTY_BUCKET"
  using assms length_slots [OF assms(1)]
  by (auto simp: wf_table_def nth_slots split: option.splits)

lemma slots_Some:
  assumes "wf_table t" "i < length (slots t)"
  shows "slots t ! i = Some (h, k, v) \<longleftrightarrow>
    hashes t ! i = h \<and> h \<noteq> EMPTY_BUCKET \<and> pairs t ! i = Some (k, v)"
  using assms length_slots [OF assms(1)]
  by (auto simp: wf_table_def nth_slots split: option.splits)

subsection \<open>Every bucket operation on a well-formed table\<close>

text \<open>The capacity of a table that has buckets, as a natural number.\<close>

lemma wf_capacity:
  assumes "wf_table t" "slots t \<noteq> []"
  obtains n where "n < 61" "length (slots t) = 2 ^ n" "capacity_mask t = mask n"
  using assms length_slots [OF assms(1)] by (auto simp: wf_table_def)

lemma wf_capacity_0: "wf_table t \<Longrightarrow> RawTable_capacity t = 0 \<longleftrightarrow> slots t = []"
proof
  assume wf: "wf_table t" and "slots t = []"
  then have "hashes t = []" using length_slots [OF wf] by simp
  then show "RawTable_capacity t = 0" using wf by (auto simp: wf_table_def RawTable_capacity_def)
next
  assume wf: "wf_table t" and c: "RawTable_capacity t = 0"
  show "slots t = []"
  proof (rule ccontr)
    assume "slots t \<noteq> []"
    then obtain n where n: "n < 61" "capacity_mask t = mask n" using wf_capacity [OF wf] by metis
    have "RawTable_capacity t = 2 ^ n" using n by (simp add: RawTable_capacity_def mask_eq_exp_minus_1)
    then show False using c n by (simp add: exp_eq_zero_iff)
  qed
qed

lemma wf_capacity_eq:
  assumes "wf_table t"
  shows "unat (RawTable_capacity t) = length (slots t)"
proof (cases "slots t = []")
  case True
  then show ?thesis using wf_capacity_0 [OF assms] by simp
next
  case False
  then obtain n where n: "n < 61" "length (slots t) = 2 ^ n" "capacity_mask t = mask n"
    using wf_capacity [OF assms] by metis
  have "RawTable_capacity t = 2 ^ n"
    using n by (simp add: RawTable_capacity_def mask_eq_exp_minus_1)
  then show ?thesis using n by (simp add: unat_pow2)
qed

lemma Bucket_next_nxt:
  assumes wf: "wf_table t" and i: "unat i < length (slots t)"
  shows "unat (Bucket_next t i) = nxt (length (slots t)) (unat i)"
proof -
  obtain n where n: "n < 61" "length (slots t) = 2 ^ n" "capacity_mask t = mask n"
    using wf_capacity [OF wf] i by (metis list.size(3) not_less_zero)
  have "unat (Bucket_next t i) = (unat i + unat (1 :: usize)) mod 2 ^ n"
    unfolding Bucket_next_def n(3) unat_and_mask using n(1) by (intro unat_mod_pow2_plus [symmetric]) simp
  then show ?thesis by (simp add: nxt_def n)
qed

lemma displacement_word:
  assumes wf: "wf_table t" and i: "unat i < length (slots t)"
  shows "unat ((i - h) AND capacity_mask t) = disp (length (slots t)) (unat i) h"
proof -
  obtain n where n: "n < 61" "length (slots t) = 2 ^ n" "capacity_mask t = mask n"
    using wf_capacity [OF wf] i by (metis list.size(3) not_less_zero)
  have "(unat h + unat (i - h)) mod 2 ^ n = unat (h + (i - h)) mod 2 ^ n"
    using n(1) by (intro unat_mod_pow2_plus) simp
  then have "(unat h mod 2 ^ n + unat ((i - h) AND mask n)) mod 2 ^ n = unat i"
    using i n by (simp add: unat_and_mask mod_simps)
  then show ?thesis using n by (intro disp_eqI [symmetric]) (simp_all add: unat_and_mask)
qed

lemma read_hash_ok: "wf_table t \<Longrightarrow> unat i < length (slots t) \<Longrightarrow> read_hash t i = Inr (hashes t ! unat i)"
  by (simp add: read_hash_def length_slots)

lemma Bucket_peek_None:
  assumes "wf_table t" "unat i < length (slots t)" "slots t ! unat i = None"
  shows "Bucket_peek t i = Inr (Empty i)"
  using assms by (simp add: Bucket_peek_def read_hash_ok slots_None)

lemma Bucket_peek_Some:
  assumes "wf_table t" "unat i < length (slots t)" "slots t ! unat i = Some e"
  shows "Bucket_peek t i = Inr (Full i)"
  using assms slots_None [OF assms(1,2)] by (simp add: Bucket_peek_def read_hash_ok)

lemma FullBucket_ops:
  assumes "wf_table t" "unat i < length (slots t)" "slots t ! unat i = Some (h, k, v)"
  shows "FullBucket_hash t i = Inr h" "FullBucket_read t i = Inr (k, v)"
    "read_hash t i = Inr h" "read_pair t i = Inr (k, v)"
  using assms slots_Some [OF assms(1,2)] length_slots [OF assms(1)]
  by (simp_all add: FullBucket_hash_def FullBucket_read_def read_hash_def read_pair_def wf_table_def)

lemma FullBucket_displacement_ok:
  assumes "wf_table t" "unat i < length (slots t)" "slots t ! unat i = Some (h, k, v)"
  shows "\<exists>d. FullBucket_displacement t i = Inr d \<and> unat d = disp (length (slots t)) (unat i) h"
  using FullBucket_ops [OF assms] displacement_word [OF assms(1,2)]
  by (simp add: FullBucket_displacement_def SafeHash_inspect_def)

lemma Bucket_new_ok:
  assumes wf: "wf_table t" and ne: "slots t \<noteq> []"
  shows "\<exists>i. Bucket_new t h = Inr i \<and> unat i = unat h mod length (slots t)"
proof -
  obtain n where n: "n < 61" "length (slots t) = 2 ^ n" "capacity_mask t = mask n"
    using wf_capacity [OF wf ne] .
  have "0 < RawTable_capacity t" using wf_capacity_0 [OF wf] ne by (simp add: word_neq_0_conv)
  then show ?thesis using n
    by (simp add: Bucket_new_def Bucket_at_index_def SafeHash_inspect_def unat_and_mask)
qed

subsection \<open>Writing to a bucket\<close>

text \<open>A table whose bucket \<open>i\<close> was overwritten with a hash and a pair, and its size set.\<close>

definition poke :: "('k, 'v) raw_table \<Rightarrow> nat \<Rightarrow> usize \<Rightarrow> ('k \<times> 'v) option \<Rightarrow> usize \<Rightarrow> ('k, 'v) raw_table" where
  "poke t i h p s = t\<lparr>tsize := s, hashes := (hashes t)[i := h], pairs := (pairs t)[i := p]\<rparr>"

lemma poke_fields [simp]:
  "tsize (poke t i h p s) = s"
  "ttag (poke t i h p s) = ttag t"
  "capacity_mask (poke t i h p s) = capacity_mask t"
  "kv_layout (poke t i h p s) = kv_layout t"
  by (simp_all add: poke_def)

lemma slots_poke:
  assumes "length (pairs t) = length (hashes t)"
  shows "slots (poke t i h p s) = (slots t)[i := slot_of h p]"
  using assms
  by (simp add: slots_def poke_def zip_update map_update)

lemma wf_poke:
  assumes wf: "wf_table t" and i: "i < length (slots t)"
    and init: "h \<noteq> EMPTY_BUCKET \<Longrightarrow> p \<noteq> None"
    and s: "unat s = count_full ((slots t)[i := slot_of h p])"
  shows "wf_table (poke t i h p s)"
proof -
  have len: "length (pairs t) = length (hashes t)" "length (slots t) = length (hashes t)"
    using wf length_slots [OF wf] by (auto simp: wf_table_def)
  then have "unat (tsize (poke t i h p s)) = count_full (slots (poke t i h p s))"
    using s by (simp add: slots_poke)
  then show ?thesis using wf init i len unfolding wf_table_def
    by (auto simp: poke_def nth_list_update)
qed

lemma size_less:
  assumes "wf_table t" "i < length (slots t)" "slots t ! i = None"
  shows "unat (tsize t) + 1 < 2 ^ LENGTH(64)"
proof -
  obtain n where n: "n < 61" "length (slots t) = 2 ^ n"
    using wf_capacity [OF assms(1)] assms(2) by (metis list.size(3) not_less_zero)
  have "count_full (slots t) < length (slots t)"
    using count_full_update [OF assms(2), of "Some undefined"] assms(3)
      count_full_le [of "(slots t)[i := Some undefined]"] by simp
  also have "\<dots> \<le> 2 ^ 63" using n power_increasing [of n 63 "2 :: nat"] by simp
  finally show ?thesis using assms(1) by (simp add: wf_table_def)
qed

lemma EmptyBucket_put_ok:
  assumes wf: "wf_table t" and i: "unat i < length (slots t)" and e: "slots t ! unat i = None"
    and h: "h \<noteq> EMPTY_BUCKET"
  shows "EmptyBucket_put t i h k v = Inr (poke t (unat i) h (Some (k, v)) (tsize t + 1)) \<and>
    wf_table (poke t (unat i) h (Some (k, v)) (tsize t + 1)) \<and>
    slots (poke t (unat i) h (Some (k, v)) (tsize t + 1)) = (slots t)[unat i := Some (h, k, v)]"
proof -
  have len: "length (pairs t) = length (hashes t)" "length (slots t) = length (hashes t)"
    using wf length_slots [OF wf] by (auto simp: wf_table_def)
  have fit: "unat (tsize t) + unat (1 :: usize) < 2 ^ LENGTH(64)"
    using size_less [OF wf i e] by simp
  have s: "unat (tsize t + 1) = count_full ((slots t)[unat i := Some (h, k, v)])"
    using fit count_full_update [OF i, of "Some (h, k, v)"] e wf
    by (simp add: unat_add_small wf_table_def)
  then have "wf_table (poke t (unat i) h (Some (k, v)) (tsize t + 1))"
    using h by (intro wf_poke [OF wf i]) simp_all
  moreover have "EmptyBucket_put t i h k v = Inr (poke t (unat i) h (Some (k, v)) (tsize t + 1))"
    using i len addP_ok [OF fit]
    by (simp add: EmptyBucket_put_def write_hash_def write_pair_def SafeHash_inspect_def poke_def)
  ultimately show ?thesis using h by (simp add: slots_poke len)
qed

lemma FullBucket_take_ok:
  assumes wf: "wf_table t" and i: "unat i < length (slots t)" and e: "slots t ! unat i = Some (h, k, v)"
  shows "FullBucket_take t i = Inr (poke t (unat i) EMPTY_BUCKET None (tsize t - 1), k, v) \<and>
    wf_table (poke t (unat i) EMPTY_BUCKET None (tsize t - 1)) \<and>
    slots (poke t (unat i) EMPTY_BUCKET None (tsize t - 1)) = (slots t)[unat i := None]"
proof -
  have len: "length (pairs t) = length (hashes t)" "length (slots t) = length (hashes t)"
    using wf length_slots [OF wf] by (auto simp: wf_table_def)
  have pos: "unat (1 :: usize) \<le> unat (tsize t)"
    using count_full_pos [OF i] e wf by (simp add: wf_table_def Suc_le_eq)
  then have s: "unat (tsize t - 1) = count_full ((slots t)[unat i := None])"
    using count_full_update [OF i, of None] e wf
    by (simp add: unat_sub_small word_le_nat_alt wf_table_def)
  then have "wf_table (poke t (unat i) EMPTY_BUCKET None (tsize t - 1))"
    by (intro wf_poke [OF wf i]) simp_all
  moreover have "FullBucket_take t i = Inr (poke t (unat i) EMPTY_BUCKET None (tsize t - 1), k, v)"
    using i len subP_ok [OF pos] slots_Some [OF wf i, of h k v] e
    by (simp add: FullBucket_take_def write_hash_def write_pair_def read_pair_def poke_def)
  ultimately show ?thesis by (simp add: slots_poke len)
qed

lemma FullBucket_replace_ok:
  assumes wf: "wf_table t" and i: "unat i < length (slots t)" and e: "slots t ! unat i = Some (h', k', v')"
    and h: "h \<noteq> EMPTY_BUCKET"
  shows "FullBucket_replace t i h k v = Inr (poke t (unat i) h (Some (k, v)) (tsize t), h', k', v') \<and>
    wf_table (poke t (unat i) h (Some (k, v)) (tsize t)) \<and>
    slots (poke t (unat i) h (Some (k, v)) (tsize t)) = (slots t)[unat i := Some (h, k, v)]"
proof -
  have len: "length (pairs t) = length (hashes t)" "length (slots t) = length (hashes t)"
    using wf length_slots [OF wf] by (auto simp: wf_table_def)
  have s: "unat (tsize t) = count_full ((slots t)[unat i := Some (h, k, v)])"
    using count_full_update [OF i, of "Some (h, k, v)"] e wf by (simp add: wf_table_def)
  then have "wf_table (poke t (unat i) h (Some (k, v)) (tsize t))"
    using h by (intro wf_poke [OF wf i]) simp_all
  moreover have "FullBucket_replace t i h k v = Inr (poke t (unat i) h (Some (k, v)) (tsize t), h', k', v')"
    using i len slots_Some [OF wf i, of h' k' v'] e
    by (simp add: FullBucket_replace_def read_hash_def write_hash_def write_pair_def read_pair_def poke_def)
  ultimately show ?thesis using h by (simp add: slots_poke len)
qed

lemma FullBucket_write_value_ok:
  assumes wf: "wf_table t" and i: "unat i < length (slots t)" and e: "slots t ! unat i = Some (h, k, v')"
  shows "FullBucket_write_value t i v = Inr (poke t (unat i) h (Some (k, v)) (tsize t)) \<and>
    wf_table (poke t (unat i) h (Some (k, v)) (tsize t)) \<and>
    slots (poke t (unat i) h (Some (k, v)) (tsize t)) = (slots t)[unat i := Some (h, k, v)]"
proof -
  have len: "length (pairs t) = length (hashes t)" "length (slots t) = length (hashes t)"
    using wf length_slots [OF wf] by (auto simp: wf_table_def)
  have m: "hashes t ! unat i = h" "h \<noteq> EMPTY_BUCKET" "pairs t ! unat i = Some (k, v')"
    using slots_Some [OF wf i] e by auto
  have "FullBucket_write_value t i v = Inr (poke t (unat i) h (Some (k, v)) (tsize t))"
    using i len m list_update_id [of "hashes t" "unat i"]
    by (simp add: FullBucket_write_value_def write_pair_def read_pair_def poke_def)
  then show ?thesis using FullBucket_replace_ok [OF wf i e m(2), of k v] by simp
qed

subsection \<open>Gaps and cluster heads\<close>

lemma Bucket_next_less [simp]:
  assumes "wf_table t" "unat i < length (slots t)"
  shows "unat (Bucket_next t i) < length (slots t)"
proof -
  have "0 < length (slots t)" using assms(2) by linarith
  then show ?thesis using Bucket_next_nxt [OF assms] by simp
qed

lemma Bucket_peek_cases:
  assumes "wf_table t" "unat i < length (slots t)"
  shows "Bucket_peek t i = Inr (if slots t ! unat i = None then Empty i else Full i)"
  using Bucket_peek_None [OF assms] Bucket_peek_Some [OF assms] by auto

definition after_gap :: "('k, 'v) raw_table \<Rightarrow> usize \<Rightarrow> usize + usize \<times> usize" where
  "after_gap t g =
     (if slots t ! unat (Bucket_next t g) = None then Inl (Bucket_next t g) else Inr (g, Bucket_next t g))"

lemma EmptyBucket_gap_peek_ok:
  assumes "wf_table t" "unat g < length (slots t)"
  shows "EmptyBucket_gap_peek t g = Inr (after_gap t g)"
  using Bucket_peek_cases [of t "Bucket_next t g"] assms
  by (simp add: EmptyBucket_gap_peek_def after_gap_def)

definition shifted :: "('k, 'v) raw_table \<Rightarrow> usize \<Rightarrow> usize \<Rightarrow> safe_hash \<Rightarrow> 'k \<times> 'v \<Rightarrow> ('k, 'v) raw_table" where
  "shifted t g f h kv =
     poke (poke t (unat f) EMPTY_BUCKET None (tsize t - 1)) (unat g) h (Some kv) (tsize t)"

lemma GapThenFull_shift_ok:
  assumes wf: "wf_table t" and g: "unat g < length (slots t)" "slots t ! unat g = None"
    and f: "unat f < length (slots t)" "slots t ! unat f = Some (h, k, v)"
  shows "GapThenFull_shift t g f =
      Inr (shifted t g f h (k, v), after_gap (shifted t g f h (k, v)) f) \<and>
    wf_table (shifted t g f h (k, v)) \<and>
    slots (shifted t g f h (k, v)) = (slots t)[unat g := Some (h, k, v), unat f := None]"
proof -
  have len: "length (pairs t) = length (hashes t)" "length (slots t) = length (hashes t)"
    using wf length_slots [OF wf] by (auto simp: wf_table_def)
  have ne: "unat g \<noteq> unat f" using g f by auto
  have m: "hashes t ! unat f = h" "h \<noteq> EMPTY_BUCKET" "pairs t ! unat f = Some (k, v)"
    using slots_Some [OF wf f(1)] f(2) by auto
  let ?t1 = "poke t (unat f) EMPTY_BUCKET None (tsize t - 1)" and ?t2 = "shifted t g f h (k, v)"
  have 1: "wf_table ?t1" "slots ?t1 = (slots t)[unat f := None]"
    using FullBucket_take_ok [OF wf f] by auto
  have "unat (tsize t) = count_full ((slots ?t1)[unat g := Some (h, k, v)])"
    using count_full_update [OF f(1), of None] f(2)
      count_full_update [of "unat g" "slots ?t1" "Some (h, k, v)"] g ne 1 wf
    by (simp add: wf_table_def)
  then have 2: "wf_table ?t2" unfolding shifted_def
    using m(2) g 1 by (intro wf_poke [OF 1(1)]) simp_all
  have len1: "length (pairs ?t1) = length (hashes ?t1)" using 1(1) by (simp add: wf_table_def)
  have 3: "slots ?t2 = (slots t)[unat g := Some (h, k, v), unat f := None]"
    unfolding shifted_def slots_poke [OF len1] 1(2) using m(2) ne by (simp add: list_update_swap)
  have "t\<lparr>hashes := (hashes t)[unat f := EMPTY_BUCKET, unat g := h],
          pairs := (pairs t)[unat g := Some (k, v), unat f := None]\<rparr> = ?t2"
    using ne by (simp add: shifted_def poke_def list_update_swap)
  then have "GapThenFull_shift t g f = bindR (Bucket_peek ?t2 (Bucket_next ?t2 f))
      (\<lambda>b. case b of Full bucket \<Rightarrow> Inr (?t2, Inr (f, bucket)) | Empty e \<Rightarrow> Inr (?t2, Inl e))"
    using g(1) f(1) len m ne
    by (simp add: GapThenFull_shift_def read_hash_def write_hash_def read_pair_def write_pair_def)
  then have "GapThenFull_shift t g f = Inr (?t2, after_gap ?t2 f)"
    using Bucket_peek_cases [OF 2, of "Bucket_next ?t2 f"] Bucket_next_less [OF 2, of f] f(1) 3
    by (simp add: after_gap_def)
  with 2 3 show ?thesis by simp
qed

lemma displacement_0:
  assumes "wf_table t" "unat i < length (slots t)" "slots t ! unat i \<noteq> None"
  shows "\<exists>d. FullBucket_displacement t i = Inr d \<and> Suc (unat d) = height (slots t) (unat i)"
proof -
  obtain h k v where e: "slots t ! unat i = Some (h, k, v)" using assms(3) by auto
  then show ?thesis using FullBucket_displacement_ok [OF assms(1,2) e] by simp
qed

lemma head_bucket_loop_ok:
  assumes wf: "wf_table t" and m: "m < length (slots t)" "height (slots t) m = 1" and i: "unat i \<le> m"
  shows "\<exists>r. head_bucket_loop t i = ret r \<and> unat r < length (slots t) \<and> height (slots t) (unat r) = 1"
  using i
proof (induction "m - unat i" arbitrary: i)
  case 0
  then have i: "unat i = m" by simp
  then have "slots t ! unat i \<noteq> None" using m height_eq_0 [of "slots t" m] by auto
  moreover obtain d where "FullBucket_displacement t i = Inr d" "unat d = 0"
    using displacement_0 [OF wf, of i] calculation i m by auto
  ultimately show ?case using i m
    by (subst head_bucket_loop.simps) (auto simp: Bucket_peek_cases [OF wf] unat_eq_zero)
next
  case (Suc n)
  have lt: "unat i < length (slots t)" using Suc m by simp
  have next_i: "unat (Bucket_next t i) = Suc (unat i)"
    using Bucket_next_nxt [OF wf lt] Suc.hyps(2) m by (simp add: nxt_def)
  have IH: "\<exists>r. head_bucket_loop t (Bucket_next t i) = ret r \<and> unat r < length (slots t) \<and>
      height (slots t) (unat r) = 1"
    using Suc.hyps(2) Suc.prems by (intro Suc.hyps(1)) (simp_all add: next_i)
  show ?case
  proof (cases "slots t ! unat i = None")
    case True
    then show ?thesis using IH
      by (subst head_bucket_loop.simps) (simp add: Bucket_peek_cases [OF wf lt])
  next
    case False
    then obtain d where d: "FullBucket_displacement t i = Inr d" "Suc (unat d) = height (slots t) (unat i)"
      using displacement_0 [OF wf lt] by blast
    obtain e where "slots t ! unat i = Some e" using False by blast
    then show ?thesis using IH lt d
      by (subst head_bucket_loop.simps) (cases "d = 0"; simp add: Bucket_peek_Some [OF wf lt])
  qed
qed

lemma head_bucket_ok:
  assumes wf: "wf_table t" and rh: "rh (slots t)"
    and size: "0 < unat (tsize t)" "unat (tsize t) < length (slots t)"
  shows "\<exists>r. Bucket_head_bucket t = ret r \<and> unat r < length (slots t) \<and> height (slots t) (unat r) = 1"
proof -
  obtain e where e: "e < length (slots t)" "slots t ! e = None"
    using count_full_less_ex [of "slots t"] size wf_size [OF wf] by metis
  obtain f where f: "f < length (slots t)" "slots t ! f \<noteq> None"
    using count_full_pos_ex [of "slots t"] size(1) wf_size [OF wf] by metis
  obtain m where "m < length (slots t)" "height (slots t) m = 1"
    using rh_head_exists [OF rh e f] by blast
  then show ?thesis
    using head_bucket_loop_ok [OF wf, of m 0] by (simp add: Bucket_head_bucket_def Bucket_first_def)
qed

subsection \<open>New tables, hashes and the tagged pointer\<close>

lemma SafeHash_new_nonzero [simp]: "SafeHash_new h \<noteq> EMPTY_BUCKET"
proof
  assume "SafeHash_new h = EMPTY_BUCKET"
  moreover have "bit (SafeHash_new h) 63" by (simp add: SafeHash_new_def bit_simps)
  ultimately show False by simp
qed

lemma make_hash_nonzero [simp]: "make_hash s k \<noteq> EMPTY_BUCKET"
  by (simp add: make_hash_def)

lemma TaggedHashUintPtr_laws:
  "TaggedHashUintPtr_tag (TaggedHashUintPtr_set_tag p b) = b"
  "TaggedHashUintPtr_ptr (TaggedHashUintPtr_set_tag p b) = TaggedHashUintPtr_ptr p"
proof -
  have [simp]: "bit (1 :: usize) n \<longleftrightarrow> n = 0" for n by (simp add: bit_1_iff)
  show "TaggedHashUintPtr_ptr (TaggedHashUintPtr_set_tag p b) = TaggedHashUintPtr_ptr p"
    by (rule bit_eqI) (auto simp: TaggedHashUintPtr_ptr_def TaggedHashUintPtr_set_tag_def bit_simps)
  have "((p OR 1) AND 1) = 1" by (rule bit_eqI) (auto simp: bit_simps)
  moreover have "((p AND NOT 1) AND 1) = 0" by (rule bit_eqI) (auto simp: bit_simps)
  ultimately show "TaggedHashUintPtr_tag (TaggedHashUintPtr_set_tag p b) = b"
    by (simp add: TaggedHashUintPtr_tag_def TaggedHashUintPtr_set_tag_def)
qed

lemma RawTable_new_Inr:
  assumes "RawTable_new ly c = Inr t"
  shows "tsize t = 0 \<and> ttag t = (c = 0) \<and> capacity_mask t = c - 1 \<and> kv_layout t = ly \<and>
    hashes t = replicate (unat c) EMPTY_BUCKET \<and> pairs t = replicate (unat c) None"
  using assms
  by (auto simp: RawTable_new_def RawTable_new_uninitialized_def bindR_eq_Inr Let_def
      split: if_splits prod.splits)

lemma RawTable_new_bound:
  assumes "RawTable_new ly c = Inr t" "c \<noteq> 0"
  shows "unat c * 8 < 2 ^ 64"
proof -
  obtain b m where b: "word_checked_add 8 (fst ly) = Some b" and m: "word_checked_mul c b = Some m"
    using assms
    by (auto simp: RawTable_new_def RawTable_new_uninitialized_def bindR_eq_Inr Let_def
        split: if_splits prod.splits)
  have "unat c * 8 \<le> unat c * unat b" using b by (simp add: word_checked_add_Some)
  also have "\<dots> = unat m" using m by (simp add: word_checked_mul_Some)
  finally show ?thesis using unat_less_length [of m] by simp
qed

lemma slots_replicate:
  "hashes t = replicate n EMPTY_BUCKET \<Longrightarrow> pairs t = replicate n None \<Longrightarrow>
   slots t = replicate n None"
  by (simp add: slots_def zip_replicate)

lemma RawTable_new_wf:
  assumes new: "RawTable_new ly c = Inr t" and c: "c = 0 \<or> (\<exists>n < 64. c = 2 ^ n)"
  shows "wf_table t \<and> slots t = replicate (unat c) None"
proof -
  note f = RawTable_new_Inr [OF new]
  then have s: "slots t = replicate (unat c) None" by (intro slots_replicate) simp_all
  have "hashes t = [] \<and> capacity_mask t = - 1 \<or>
      (\<exists>n < 61. length (hashes t) = 2 ^ n \<and> capacity_mask t = mask n)"
  proof (cases "c = 0")
    case False
    then obtain n where n: "n < 64" "c = 2 ^ n" using c by auto
    have "unat c * 8 < 2 ^ 64" using RawTable_new_bound [OF new False] .
    then have "(2 :: nat) ^ (n + 3) < 2 ^ 64" using n by (simp add: unat_pow2 power_add)
    then have "n < 61" using power_less_imp_less_exp [of "2 :: nat" "n + 3" 64] by simp
    then show ?thesis using n f by (auto simp: unat_pow2 mask_eq_exp_minus_1)
  qed (use f in simp)
  then show ?thesis using f s by (simp add: wf_table_def)
qed

lemma RawTable_new_0: "\<exists>t. RawTable_new ly 0 = Inr t"
  by (simp add: RawTable_new_def RawTable_new_uninitialized_def)

lemma rh_replicate [simp]: "rh (replicate n None)"
proof -
  have "height (replicate n None) i = 0" if "i < n" for i using that by simp
  moreover have "nxt n i < n" if "i < n" for i using that by (cases n) auto
  ultimately show ?thesis by (simp add: rh_def)
qed

end
