(* ===== verification/Table_Iter.thy ===== *)
theory Table_Iter
  imports Raw_Table
begin

section \<open>\<open>collections/hash/table.rs\<close>: iterators over the raw table\<close>

text \<open>
  The iterators of \<open>src/collections/hash/table.rs\<close> and the operations of a table that are
  loops over its buckets: the raw scan, the shared, owning and draining iterators, and \<open>clone\<close>.
  The lemmas show that the scan never leaves the array while entries remain, that the
  iterators yield every entry exactly once in index order, that dropping a drain empties the
  table, and that \<open>clone\<close> copies it.
\<close>

subsection \<open>Iterators\<close>

record raw_buckets =
  rb_idx :: usize
  elems_left :: usize

definition RawTable_raw_buckets :: "('k, 'v) raw_table \<Rightarrow> raw_buckets" where
  "RawTable_raw_buckets t = \<lparr>rb_idx = 0, elems_left = tsize t\<rparr>"

text \<open>The inner loop of \<open>RawBuckets::next\<close>; it ends because it faults past the end.\<close>

function RawBuckets_scan :: "('k, 'v) raw_table \<Rightarrow> usize \<Rightarrow> (usize \<times> usize) res" where
  "RawBuckets_scan t item =
     bindR (addP item 1) (\<lambda>idx.
     bindR (read_hash t item) (\<lambda>h.
     if h \<noteq> EMPTY_BUCKET then Inr (item, idx) else RawBuckets_scan t idx))"
  by pat_completeness auto
termination
  by (relation "measure (\<lambda>(t, i). length (hashes t) - unat i)")
    (auto simp: addP_Inr read_hash_def split: if_splits)

declare RawBuckets_scan.simps [simp del]

definition RawBuckets_next ::
    "('k, 'v) raw_table \<Rightarrow> raw_buckets \<Rightarrow> (usize option \<times> raw_buckets) res" where
  "RawBuckets_next t self =
     (if elems_left self = 0 then Inr (None, self)
      else bindR (RawBuckets_scan t (rb_idx self)) (\<lambda>(item, idx).
           bindR (subP (elems_left self) 1) (\<lambda>e.
           Inr (Some item, \<lparr>rb_idx = idx, elems_left = e\<rparr>))))"

definition RawBuckets_size_hint :: "raw_buckets \<Rightarrow> usize \<times> usize option" where
  "RawBuckets_size_hint self = (elems_left self, Some (elems_left self))"

definition Iter_next ::
    "('k, 'v) raw_table \<Rightarrow> raw_buckets \<Rightarrow> (('k \<times> 'v) option \<times> raw_buckets) res" where
  "Iter_next t self =
     bindR (RawBuckets_next t self) (\<lambda>(raw, self).
     case raw of None \<Rightarrow> Inr (None, self)
     | Some i \<Rightarrow> bindR (read_pair t i) (\<lambda>kv. Inr (Some kv, self)))"

text \<open>\<open>IntoIter\<close> owns its table; its state is the table and the raw iterator.\<close>

definition IntoIter_next ::
    "('k, 'v) raw_table \<Rightarrow> raw_buckets \<Rightarrow>
     ((safe_hash \<times> 'k \<times> 'v) option \<times> ('k, 'v) raw_table \<times> raw_buckets) res" where
  "IntoIter_next t self =
     bindR (RawBuckets_next t self) (\<lambda>(raw, self).
     case raw of None \<Rightarrow> Inr (None, t, self)
     | Some i \<Rightarrow>
         bindR (subP (tsize t) 1) (\<lambda>s.
         bindR (read_pair t i) (\<lambda>(k, v).
         bindR (read_hash t i) (\<lambda>h.
         bindR (write_pair (t\<lparr>tsize := s\<rparr>) i None) (\<lambda>t.
         Inr (Some (h, k, v), t, self))))))"

definition Drain_next ::
    "('k, 'v) raw_table \<Rightarrow> raw_buckets \<Rightarrow>
     ((safe_hash \<times> 'k \<times> 'v) option \<times> ('k, 'v) raw_table \<times> raw_buckets) res" where
  "Drain_next t self =
     bindR (RawBuckets_next t self) (\<lambda>(raw, self).
     case raw of None \<Rightarrow> Inr (None, t, self)
     | Some i \<Rightarrow>
         bindR (subP (tsize t) 1) (\<lambda>s.
         bindR (read_pair t i) (\<lambda>(k, v).
         bindR (read_hash t i) (\<lambda>h.
         bindR (write_hash (t\<lparr>tsize := s\<rparr>) i EMPTY_BUCKET) (\<lambda>t.
         bindR (write_pair t i None) (\<lambda>t.
         Inr (Some (h, k, v), t, self)))))))"

lemma RawBuckets_next_measure:
  assumes "RawBuckets_next t it = Inr (Some i, it')"
  shows "unat (elems_left it') < unat (elems_left it)"
  using assms by (auto simp: RawBuckets_next_def bindR_eq_Inr subP_Inr split: if_splits prod.splits)

text \<open>A \<open>for\<close> loop over the shared iterator: every item in order.\<close>

function Iter_collect :: "('k, 'v) raw_table \<Rightarrow> raw_buckets \<Rightarrow> ('k \<times> 'v) list res" where
  "Iter_collect t it =
     bindR (Iter_next t it) (\<lambda>(x, it').
     case x of None \<Rightarrow> Inr [] | Some kv \<Rightarrow> bindR (Iter_collect t it') (\<lambda>kvs. Inr (kv # kvs)))"
  by pat_completeness auto
termination
  by (relation "measure (\<lambda>(t, it). unat (elems_left it))")
    (auto simp: Iter_next_def bindR_eq_Inr split: option.splits prod.splits
      dest: RawBuckets_next_measure)

text \<open>Dropping a \<open>Drain\<close> runs it to its end.\<close>

function Drain_drop :: "('k, 'v) raw_table \<Rightarrow> raw_buckets \<Rightarrow> ('k, 'v) raw_table res" where
  "Drain_drop t it =
     bindR (Drain_next t it) (\<lambda>(x, t', it').
     case x of None \<Rightarrow> Inr t' | Some _ \<Rightarrow> Drain_drop t' it')"
  by pat_completeness auto
termination
  by (relation "measure (\<lambda>(t, it). unat (elems_left it))")
    (auto simp: Drain_next_def bindR_eq_Inr split: option.splits prod.splits
      dest: RawBuckets_next_measure)

text \<open>
  \<open>RawTable::clone\<close> copies the hashes and clones the pair of every full bucket; the clone of
  a key or a value is the value itself.
\<close>

function RawTable_clone_loop ::
    "('k, 'v) raw_table \<Rightarrow> ('k, 'v) raw_table \<Rightarrow> usize \<Rightarrow> ('k, 'v) raw_table res" where
  "RawTable_clone_loop t new_ht idx =
     (if idx < RawTable_capacity t then
        bindR (read_hash t idx) (\<lambda>h.
        bindR (write_hash new_ht idx h) (\<lambda>new_ht.
        bindR (if h \<noteq> EMPTY_BUCKET
               then bindR (read_pair t idx) (\<lambda>kv. write_pair new_ht idx (Some kv))
               else Inr new_ht) (\<lambda>new_ht.
        bindR (addP idx 1) (\<lambda>idx'. RawTable_clone_loop t new_ht idx'))))
      else Inr new_ht)"
  by pat_completeness auto
termination
  by (relation "measure (\<lambda>(t, n, i). length (hashes t) - unat i)")
    (auto simp: addP_Inr read_hash_def split: if_splits)

definition RawTable_clone :: "('k, 'v) raw_table \<Rightarrow> ('k, 'v) raw_table res" where
  "RawTable_clone self =
     bindR (RawTable_new_uninitialized (kv_layout self) (RawTable_capacity self)) (\<lambda>new_ht.
     bindR (RawTable_clone_loop self new_ht 0) (\<lambda>new_ht.
     Inr (RawTable_set_tag (new_ht\<lparr>tsize := RawTable_size self\<rparr>) (RawTable_tag self))))"

declare Iter_collect.simps [simp del] Drain_drop.simps [simp del]
  RawTable_clone_loop.simps [simp del]

subsection \<open>The raw scan\<close>

text \<open>An iterator over a table: what it has left are the full buckets from its position on.\<close>

definition iter_ok :: "('k, 'v) raw_table \<Rightarrow> raw_buckets \<Rightarrow> bool" where
  "iter_ok t it \<longleftrightarrow> unat (rb_idx it) \<le> length (slots t) \<and>
     unat (elems_left it) = count_full (drop (unat (rb_idx it)) (slots t))"

lemma iter_ok_raw_buckets: "wf_table t \<Longrightarrow> iter_ok t (RawTable_raw_buckets t)"
  by (simp add: iter_ok_def RawTable_raw_buckets_def wf_size)

lemma length_full_list: "length (full_list xs) = count_full xs"
  using size_contents [of xs] by (simp add: contents_def)

lemma full_list_drop:
  assumes "i < length xs"
  shows "full_list (drop i xs) = (case xs ! i of None \<Rightarrow> [] | Some e \<Rightarrow> [e]) @ full_list (drop (Suc i) xs)"
    "count_full (drop i xs) = (if xs ! i = None then 0 else 1) + count_full (drop (Suc i) xs)"
  using Cons_nth_drop_Suc [OF assms] by (auto simp flip: Cons_nth_drop_Suc [OF assms] split: option.split)

lemma count_full_0: "count_full xs = 0 \<Longrightarrow> xs = replicate (length xs) None"
  by (induction xs) (auto split: if_splits)

lemma slots_fit: "wf_table t \<Longrightarrow> unat i < length (slots t) \<Longrightarrow> unat i + unat (1 :: usize) < 2 ^ LENGTH(64)"
proof -
  assume wf: "wf_table t" and i: "unat i < length (slots t)"
  then obtain n where n: "n < 61" "length (slots t) = 2 ^ n"
    using wf_capacity [OF wf] by (metis list.size(3) not_less_zero)
  have "(2 :: nat) ^ n \<le> 2 ^ 60" using n by (intro power_increasing) simp_all
  then show ?thesis using i n by simp
qed

lemma RawBuckets_scan_ok:
  assumes wf: "wf_table t"
  shows "unat i \<le> length (slots t) \<Longrightarrow> 0 < count_full (drop (unat i) (slots t)) \<Longrightarrow>
    \<exists>p q e. RawBuckets_scan t i = Inr (p, q) \<and> unat p < length (slots t) \<and> unat q = Suc (unat p) \<and>
      unat i \<le> unat p \<and> slots t ! unat p = Some e \<and> full_list (drop (unat i) (slots t)) = e # full_list (drop (unat q) (slots t))"
proof (induction "length (slots t) - unat i" arbitrary: i rule: less_induct)
  case less
  have i: "unat i < length (slots t)" using less.prems by (cases "unat i = length (slots t)") auto
  note fit = slots_fit [OF wf i]
  have u: "unat (i + 1) = Suc (unat i)" using unat_add_small [OF fit] by simp
  show ?case
  proof (cases "slots t ! unat i")
    case None
    have "\<exists>p q e. RawBuckets_scan t (i + 1) = Inr (p, q) \<and> unat p < length (slots t) \<and> unat q = Suc (unat p) \<and>
        unat (i + 1) \<le> unat p \<and> slots t ! unat p = Some e \<and>
        full_list (drop (unat (i + 1)) (slots t)) = e # full_list (drop (unat q) (slots t))"
      using less.prems full_list_drop [OF i] None i u by (intro less.hyps) simp_all
    then show ?thesis
      using None full_list_drop [OF i] u addP_ok [OF fit] slots_None [OF wf i] read_hash_ok [OF wf i]
      by (subst RawBuckets_scan.simps) auto
  next
    case (Some e)
    then have "RawBuckets_scan t i = Inr (i, i + 1)"
      using addP_ok [OF fit] slots_None [OF wf i] read_hash_ok [OF wf i]
      by (subst RawBuckets_scan.simps) simp
    then show ?thesis using Some full_list_drop [OF i] u i by (cases e) auto
  qed
qed

lemma RawBuckets_next_ok:
  assumes wf: "wf_table t" and ok: "iter_ok t it"
  shows "case full_list (drop (unat (rb_idx it)) (slots t)) of
      [] \<Rightarrow> RawBuckets_next t it = Inr (None, it)
    | e # es \<Rightarrow> \<exists>p it'. RawBuckets_next t it = Inr (Some p, it') \<and> iter_ok t it' \<and> unat (rb_idx it) \<le> unat p \<and>
        unat p < length (slots t) \<and> unat (rb_idx it') = Suc (unat p) \<and> slots t ! unat p = Some e \<and>
        full_list (drop (unat (rb_idx it')) (slots t)) = es"
proof (cases "full_list (drop (unat (rb_idx it)) (slots t))")
  case Nil
  then have "elems_left it = 0"
    using ok length_full_list [of "drop (unat (rb_idx it)) (slots t)"] by (simp add: iter_ok_def unat_eq_zero)
  then show ?thesis using Nil by (simp add: RawBuckets_next_def)
next
  case (Cons e es)
  then have n: "unat (elems_left it) = Suc (length es)"
    using ok length_full_list [of "drop (unat (rb_idx it)) (slots t)"] by (simp add: iter_ok_def)
  then have nz: "elems_left it \<noteq> 0" "unat (1 :: usize) \<le> unat (elems_left it)" by auto
  obtain p q where pq: "RawBuckets_scan t (rb_idx it) = Inr (p, q)" "unat p < length (slots t)"
      "unat q = Suc (unat p)" "unat (rb_idx it) \<le> unat p" "slots t ! unat p = Some e" "full_list (drop (unat q) (slots t)) = es"
    using RawBuckets_scan_ok [OF wf, of "rb_idx it"] ok n Cons by (auto simp: iter_ok_def)
  have "unat (elems_left it - 1) = length es"
    using unat_sub_small [of 1 "elems_left it"] nz(2) n by (simp add: word_le_nat_alt)
  then have "iter_ok t \<lparr>rb_idx = q, elems_left = elems_left it - 1\<rparr>"
    using pq length_full_list [of "drop (unat q) (slots t)"] by (simp add: iter_ok_def)
  then show ?thesis using Cons pq nz subP_ok [OF nz(2)] by (simp add: RawBuckets_next_def)
qed

subsection \<open>Iterating, draining, cloning\<close>

lemma Iter_collect_ok:
  assumes wf: "wf_table t"
  shows "iter_ok t it \<Longrightarrow> Iter_collect t it = Inr (map snd (full_list (drop (unat (rb_idx it)) (slots t))))"
proof (induction "unat (elems_left it)" arbitrary: it rule: less_induct)
  case less
  show ?case
  proof (cases "full_list (drop (unat (rb_idx it)) (slots t))")
    case Nil
    then show ?thesis using RawBuckets_next_ok [OF wf less.prems]
      by (subst Iter_collect.simps) (simp add: Iter_next_def)
  next
    case (Cons e es)
    then obtain p it' where p: "RawBuckets_next t it = Inr (Some p, it')" "iter_ok t it'"
        "unat p < length (slots t)" "slots t ! unat p = Some e" "full_list (drop (unat (rb_idx it')) (slots t)) = es"
      using RawBuckets_next_ok [OF wf less.prems] by auto
    obtain h k v where e: "e = (h, k, v)" by (cases e) auto
    have "Iter_collect t it' = Inr (map snd es)"
      using less.hyps [OF RawBuckets_next_measure [OF p(1)] p(2)] p(5) by simp
    then show ?thesis using Cons p e FullBucket_ops(4) [OF wf p(3), of h k v]
      by (subst Iter_collect.simps) (simp add: Iter_next_def)
  qed
qed

lemma Drain_next_ok:
  assumes wf: "wf_table t" and ok: "iter_ok t it"
  shows "case full_list (drop (unat (rb_idx it)) (slots t)) of
      [] \<Rightarrow> Drain_next t it = Inr (None, t, it)
    | e # es \<Rightarrow> \<exists>p t' it'. Drain_next t it = Inr (Some e, t', it') \<and> iter_ok t' it' \<and> wf_table t' \<and>
        unat p < length (slots t) \<and> slots t' = (slots t)[unat p := None] \<and>
        t' = poke t (unat p) EMPTY_BUCKET None (tsize t - 1) \<and>
        slots t ! unat p = Some e \<and> full_list (drop (unat (rb_idx it')) (slots t')) = es \<and>
        RawBuckets_next t it = Inr (Some p, it')"
proof (cases "full_list (drop (unat (rb_idx it)) (slots t))")
  case Nil
  then show ?thesis using RawBuckets_next_ok [OF wf ok] by (simp add: Drain_next_def)
next
  case (Cons e es)
  then obtain p it' where p: "RawBuckets_next t it = Inr (Some p, it')" "iter_ok t it'"
      "unat p < length (slots t)" "unat (rb_idx it') = Suc (unat p)" "slots t ! unat p = Some e"
      "full_list (drop (unat (rb_idx it')) (slots t)) = es"
    using RawBuckets_next_ok [OF wf ok] by auto
  obtain h k v where e: "e = (h, k, v)" by (cases e) auto
  let ?t = "poke t (unat p) EMPTY_BUCKET None (tsize t - 1)"
  have take: "FullBucket_take t p = Inr (?t, k, v)" "wf_table ?t" "slots ?t = (slots t)[unat p := None]"
    using FullBucket_take_ok [OF wf p(3)] p(5) e by auto
  have drop: "drop (unat (rb_idx it')) (slots ?t) = drop (unat (rb_idx it')) (slots t)"
    using p(4) by (simp add: take(3) drop_update_cancel)
  have pos: "unat (1 :: usize) \<le> unat (tsize t)"
    using count_full_pos [OF p(3)] p(5) wf_size [OF wf] by simp
  have len: "length (pairs t) = length (hashes t)" "length (slots t) = length (hashes t)"
    using wf length_slots [OF wf] by (auto simp: wf_table_def)
  have "Drain_next t it = Inr (Some e, ?t, it')"
    using p(1,3,5) e FullBucket_ops [OF wf p(3), of h k v] subP_ok [OF pos] len
    by (simp add: Drain_next_def write_hash_def write_pair_def poke_def)
  moreover have "iter_ok ?t it'" using p(2) drop take(3) by (simp add: iter_ok_def)
  ultimately show ?thesis using Cons p take drop by auto
qed

lemma Drain_drop_ok:
  shows "wf_table t \<Longrightarrow> iter_ok t it \<Longrightarrow> count_full (take (unat (rb_idx it)) (slots t)) = 0 \<Longrightarrow>
    \<exists>t'. Drain_drop t it = Inr t' \<and> wf_table t' \<and> tsize t' = 0 \<and> slots t' = replicate (length (slots t)) None \<and>
      capacity_mask t' = capacity_mask t \<and> kv_layout t' = kv_layout t"
proof (induction "unat (elems_left it)" arbitrary: t it rule: less_induct)
  case less
  let ?i = "unat (rb_idx it)" and ?xs = "slots t"
  have split: "count_full ?xs = count_full (take ?i ?xs) + count_full (drop ?i ?xs)"
    by (metis append_take_drop_id count_full_def filter_append length_append)
  show ?case
  proof (cases "full_list (drop ?i ?xs)")
    case Nil
    then have z: "count_full ?xs = 0" using split less.prems(3) length_full_list [of "drop ?i ?xs"] by simp
    then have "?xs = replicate (length ?xs) None" by (rule count_full_0)
    then show ?thesis using Nil Drain_next_ok [OF less.prems(1,2)] wf_size [OF less.prems(1)] z less.prems(1)
      by (subst Drain_drop.simps) (simp add: unat_eq_zero)
  next
    case (Cons e es)
    then obtain p t' it' where p: "Drain_next t it = Inr (Some e, t', it')" "iter_ok t' it'" "wf_table t'"
        "unat p < length ?xs" "slots t' = ?xs[unat p := None]"
        "t' = poke t (unat p) EMPTY_BUCKET None (tsize t - 1)" "?xs ! unat p = Some e"
        "full_list (drop (unat (rb_idx it')) (slots t')) = es" "RawBuckets_next t it = Inr (Some p, it')"
      using Drain_next_ok [OF less.prems(1,2)] by auto
    have len: "length (slots t') = length ?xs" using p(5) by simp
    have split': "count_full (slots t') = count_full (take (unat (rb_idx it')) (slots t')) + length es"
      by (metis append_take_drop_id count_full_def filter_append length_append length_full_list p(8))
    have "count_full ?xs = Suc (length es)"
      using split less.prems(3) length_full_list [of "drop ?i ?xs"] Cons by simp
    moreover have "Suc (count_full (slots t')) = count_full ?xs"
      using count_full_update [OF p(4), of None] p(5,7) by simp
    ultimately have "count_full (take (unat (rb_idx it')) (slots t')) = 0" using split' by simp
    then have "\<exists>t''. Drain_drop t' it' = Inr t'' \<and> wf_table t'' \<and> tsize t'' = 0 \<and>
        slots t'' = replicate (length (slots t')) None \<and>
        capacity_mask t'' = capacity_mask t' \<and> kv_layout t'' = kv_layout t'"
      using RawBuckets_next_measure [OF p(9)] p(2,3) by (intro less.hyps)
    then show ?thesis using p(1,6) len by (subst Drain_drop.simps) simp
  qed
qed

end
