(* ===== verification/Hash_Map.thy ===== *)
theory Hash_Map
  imports Table_Iter
begin

section \<open>\<open>collections/hash/map.rs\<close>: the hash map\<close>

text \<open>
  The Robin Hood hash map of \<open>src/collections/hash/map.rs\<close>. A map is its hash builder (the
  function from a key to 64 hash bits) and a raw table; equality of keys is HOL equality, and a
  borrowed key is the key. References into the table are bucket indices. Loops whose
  end depends on the table are partial functions; each debug assertion of the source is a
  panic of the model, so that a returned value also says that the assertions held.
\<close>

subsection \<open>Resize policy\<close>

definition word_checked_next_power_of_two :: "usize \<Rightarrow> usize option" where
  "word_checked_next_power_of_two x =
     map_option (\<lambda>n. 2 ^ n) (find (\<lambda>n. unat x \<le> 2 ^ n) [0..<64])"

abbreviation MIN_NONZERO_RAW_CAPACITY :: usize where "MIN_NONZERO_RAW_CAPACITY \<equiv> 32"
abbreviation DISPLACEMENT_THRESHOLD :: usize where "DISPLACEMENT_THRESHOLD \<equiv> 128"

text \<open>\<open>DefaultResizePolicy::raw_capacity\<close>: here the multiplication wraps, as in a release build.\<close>

definition policy_raw_capacity :: "usize \<Rightarrow> usize res" where
  "policy_raw_capacity len =
     (if len = 0 then Inr 0
      else let raw_cap = len * 11 div 10 in
        bindR (assertR ''raw_cap overflow'' (raw_cap \<ge> len)) (\<lambda>_.
        bindR (expectR ''raw_capacity overflow'' (word_checked_next_power_of_two raw_cap)) (\<lambda>raw_cap.
        Inr (max MIN_NONZERO_RAW_CAPACITY raw_cap))))"

definition policy_capacity :: "usize \<Rightarrow> usize res" where
  "policy_capacity raw_cap =
     bindR (mulP raw_cap 10) (\<lambda>a. bindR (addP a 10) (\<lambda>b. bindR (subP b 1) (\<lambda>c. Inr (c div 11))))"

subsection \<open>The map and the entries of a search\<close>

record ('k, 'v) hash_map =
  hash_builder :: "'k \<Rightarrow> u64"
  table :: "('k, 'v) raw_table"

datatype VacantEntryState = NeqElem usize usize | NoElem usize usize

datatype InternalEntry = Occupied usize | Vacant safe_hash VacantEntryState | TableIsEmpty

definition into_occupied_bucket :: "InternalEntry \<Rightarrow> usize option" where
  "into_occupied_bucket e = (case e of Occupied i \<Rightarrow> Some i | _ \<Rightarrow> None)"

text \<open>The probe loop of \<open>search_hashed\<close>; it ends because the displacement counts up.\<close>

function search_loop ::
    "('k, 'v) raw_table \<Rightarrow> usize \<Rightarrow> safe_hash \<Rightarrow> ('k \<Rightarrow> bool) \<Rightarrow> usize \<Rightarrow> usize \<Rightarrow> InternalEntry res" where
  "search_loop t sz hash is_match probe displacement =
     bindR (Bucket_peek t probe) (\<lambda>b.
     case b of
       Empty bucket \<Rightarrow> Inr (Vacant hash (NoElem bucket displacement))
     | Full full \<Rightarrow>
         bindR (FullBucket_displacement t full) (\<lambda>probe_displacement.
         if probe_displacement < displacement then
           Inr (Vacant hash (NeqElem full probe_displacement))
         else
           bindR (FullBucket_hash t full) (\<lambda>h.
           bindR (if hash = h then bindR (FullBucket_read t full) (\<lambda>(k, _). Inr (is_match k))
                  else Inr False) (\<lambda>found.
           if found then Inr (Occupied full)
           else
             bindR (addP displacement 1) (\<lambda>displacement'.
             bindR (assertR ''displacement <= size'' (displacement' \<le> sz)) (\<lambda>_.
             search_loop t sz hash is_match (Bucket_next t full) displacement'))))))"
  by pat_completeness auto
termination
proof (relation "measure (\<lambda>(t, s, h, m, p, d). 2 ^ 64 - unat d)", goal_cases)
  case (2 t sz hash is_match probe d b full pd h found d' u)
  then have "unat d' = unat d + 1" by (simp add: addP_Inr)
  moreover have "unat d' < 2 ^ 64" using unat_less_length [of d'] by simp
  ultimately show ?case by simp
qed simp

declare search_loop.simps [simp del]

definition search_hashed ::
    "('k, 'v) raw_table \<Rightarrow> safe_hash \<Rightarrow> ('k \<Rightarrow> bool) \<Rightarrow> InternalEntry res" where
  "search_hashed t hash is_match =
     (if RawTable_capacity t = 0 then Inr TableIsEmpty
      else bindR (Bucket_new t hash) (\<lambda>probe.
           search_loop t (RawTable_size t) hash is_match probe 0))"

definition HashMap_make_hash :: "('k, 'v) hash_map \<Rightarrow> 'k \<Rightarrow> safe_hash" where
  "HashMap_make_hash self x = make_hash (hash_builder self) x"

definition HashMap_search :: "('k, 'v) hash_map \<Rightarrow> 'k \<Rightarrow> InternalEntry res" where
  "HashMap_search self q = search_hashed (table self) (HashMap_make_hash self q) (\<lambda>k. q = k)"

subsection \<open>Removing an entry\<close>

partial_function (option) pop_internal_loop ::
    "('k, 'v) raw_table \<Rightarrow> usize \<Rightarrow> usize \<Rightarrow> ('k, 'v) raw_table run" where
  "pop_internal_loop t gap full =
     bindO (Some (FullBucket_displacement t full)) (\<lambda>d.
     if d \<noteq> 0 then
       bindO (Some (GapThenFull_shift t gap full)) (\<lambda>(t, r).
       case r of Inr (gap, full) \<Rightarrow> pop_internal_loop t gap full | Inl _ \<Rightarrow> ret t)
     else ret t)"

definition pop_internal :: "('k, 'v) raw_table \<Rightarrow> usize \<Rightarrow> ('k \<times> 'v \<times> ('k, 'v) raw_table) run" where
  "pop_internal t starting_bucket =
     bindO (Some (FullBucket_take t starting_bucket)) (\<lambda>(t, retkey, retval).
     bindO (Some (EmptyBucket_gap_peek t starting_bucket)) (\<lambda>r.
     case r of
       Inl _ \<Rightarrow> ret (retkey, retval, t)
     | Inr (gap, full) \<Rightarrow>
         bindO (pop_internal_loop t gap full) (\<lambda>t. ret (retkey, retval, t))))"

subsection \<open>Robin Hood insertion\<close>

text \<open>
  One round of the inner loop; stealing a bucket swaps the carried entry and goes on from
  there with the displacement of the bucket it was taken from.
\<close>

partial_function (option) robin_hood_loop ::
    "('k, 'v) raw_table \<Rightarrow> usize \<Rightarrow> usize \<Rightarrow> usize \<Rightarrow> safe_hash \<Rightarrow> 'k \<Rightarrow> 'v \<Rightarrow> ('k, 'v) raw_table run" where
  "robin_hood_loop t idx_end bucket displacement hash key val =
     bindO (Some (addP displacement 1)) (\<lambda>displacement.
     bindO (Some (assertR ''probe.index() != idx_end'' (Bucket_next t bucket \<noteq> idx_end))) (\<lambda>_.
     bindO (Some (Bucket_peek t (Bucket_next t bucket))) (\<lambda>b.
     case b of
       Empty bucket \<Rightarrow> Some (EmptyBucket_put t bucket hash key val)
     | Full full_bucket \<Rightarrow>
         bindO (Some (FullBucket_displacement t full_bucket)) (\<lambda>probe_displacement.
         if probe_displacement < displacement then
           bindO (Some (FullBucket_replace t full_bucket hash key val)) (\<lambda>(t, old_hash, old_key, old_val).
           robin_hood_loop t idx_end full_bucket probe_displacement old_hash old_key old_val)
         else robin_hood_loop t idx_end full_bucket displacement hash key val))))"

definition robin_hood ::
    "('k, 'v) raw_table \<Rightarrow> usize \<Rightarrow> usize \<Rightarrow> safe_hash \<Rightarrow> 'k \<Rightarrow> 'v \<Rightarrow> ('k, 'v) raw_table run" where
  "robin_hood t bucket displacement hash key val =
     bindO (Some (addP bucket (RawTable_size t))) (\<lambda>a.
     bindO (Some (FullBucket_displacement t bucket)) (\<lambda>d.
     bindO (Some (subP a d)) (\<lambda>e.
     bindO (Some (assertR ''attempt to calculate the remainder with a divisor of zero''
                    (RawTable_capacity t \<noteq> 0))) (\<lambda>_.
     let idx_end = e mod RawTable_capacity t in
     bindO (Some (FullBucket_replace t bucket hash key val)) (\<lambda>(t, old_hash, old_key, old_val).
     robin_hood_loop t idx_end bucket displacement old_hash old_key old_val)))))"

text \<open>\<open>VacantEntry::insert\<close>: the table after the insertion and the bucket that holds the value.\<close>

definition VacantEntry_insert ::
    "('k, 'v) raw_table \<Rightarrow> safe_hash \<Rightarrow> 'k \<Rightarrow> VacantEntryState \<Rightarrow> 'v \<Rightarrow> (('k, 'v) raw_table \<times> usize) run" where
  "VacantEntry_insert t hash key elem value =
     (case elem of
        NeqElem bucket dsp \<Rightarrow>
          let t = (if dsp \<ge> DISPLACEMENT_THRESHOLD then RawTable_set_tag t True else t) in
          bindO (robin_hood t bucket dsp hash key value) (\<lambda>t. ret (t, bucket))
      | NoElem bucket dsp \<Rightarrow>
          let t = (if dsp \<ge> DISPLACEMENT_THRESHOLD then RawTable_set_tag t True else t) in
          bindO (Some (EmptyBucket_put t bucket hash key value)) (\<lambda>t. ret (t, bucket)))"

definition OccupiedEntry_insert ::
    "('k, 'v) raw_table \<Rightarrow> usize \<Rightarrow> 'v \<Rightarrow> ('v \<times> ('k, 'v) raw_table) res" where
  "OccupiedEntry_insert t elem value =
     bindR (FullBucket_read t elem) (\<lambda>(_, old_value).
     bindR (FullBucket_write_value t elem value) (\<lambda>t. Inr (old_value, t)))"

definition insert_hashed_nocheck ::
    "('k, 'v) hash_map \<Rightarrow> safe_hash \<Rightarrow> 'k \<Rightarrow> 'v \<Rightarrow> ('v option \<times> ('k, 'v) hash_map) run" where
  "insert_hashed_nocheck self hash k v =
     bindO (Some (search_hashed (table self) hash (\<lambda>key. key = k))) (\<lambda>entry.
     case entry of
       Occupied elem \<Rightarrow>
         bindO (Some (OccupiedEntry_insert (table self) elem v)) (\<lambda>(old, t).
         ret (Some old, self\<lparr>table := t\<rparr>))
     | Vacant h elem \<Rightarrow>
         bindO (VacantEntry_insert (table self) h k elem v) (\<lambda>(t, _).
         ret (None, self\<lparr>table := t\<rparr>))
     | TableIsEmpty \<Rightarrow> Some (Inl (Panic ''internal error: entered unreachable code'')))"

partial_function (option) insert_hashed_ordered_loop ::
    "('k, 'v) raw_table \<Rightarrow> usize \<Rightarrow> safe_hash \<Rightarrow> 'k \<Rightarrow> 'v \<Rightarrow> usize \<Rightarrow> ('k, 'v) raw_table run" where
  "insert_hashed_ordered_loop t start_index hash k v buckets =
     bindO (Some (Bucket_peek t buckets)) (\<lambda>b.
     case b of
       Empty e \<Rightarrow> Some (EmptyBucket_put t e hash k v)
     | Full full \<Rightarrow>
         bindO (Some (assertR ''buckets.index() != start_index'' (Bucket_next t full \<noteq> start_index))) (\<lambda>_.
         insert_hashed_ordered_loop t start_index hash k v (Bucket_next t full)))"

definition insert_hashed_ordered ::
    "('k, 'v) raw_table \<Rightarrow> safe_hash \<Rightarrow> 'k \<Rightarrow> 'v \<Rightarrow> ('k, 'v) raw_table run" where
  "insert_hashed_ordered t hash k v =
     bindO (Some (Bucket_new t hash)) (\<lambda>buckets.
     insert_hashed_ordered_loop t buckets hash k v buckets)"

subsection \<open>Resizing\<close>

partial_function (option) resize_loop ::
    "('k, 'v) raw_table \<Rightarrow> ('k, 'v) raw_table \<Rightarrow> usize \<Rightarrow> ('k, 'v) raw_table run" where
  "resize_loop old_table t bucket =
     bindO (Some (Bucket_peek old_table bucket)) (\<lambda>b.
     case b of
       Full bucket \<Rightarrow>
         bindO (Some (FullBucket_hash old_table bucket)) (\<lambda>h.
         bindO (Some (FullBucket_take old_table bucket)) (\<lambda>(old_table, k, v).
         bindO (insert_hashed_ordered t h k v) (\<lambda>t.
         if RawTable_size old_table = 0 then ret t
         else resize_loop old_table t (Bucket_next old_table bucket))))
     | Empty b \<Rightarrow> resize_loop old_table t (Bucket_next old_table b))"

definition HashMap_resize :: "('k, 'v) hash_map \<Rightarrow> usize \<Rightarrow> ('k, 'v) hash_map run" where
  "HashMap_resize self new_raw_cap =
     bindO (Some (assertR ''self.table.size() <= new_raw_cap''
                    (RawTable_size (table self) \<le> new_raw_cap))) (\<lambda>_.
     bindO (Some (assertR ''new_raw_cap.is_power_of_two() || new_raw_cap == 0''
                    (word_is_power_of_two new_raw_cap \<or> new_raw_cap = 0))) (\<lambda>_.
     bindO (Some (RawTable_new (kv_layout (table self)) new_raw_cap)) (\<lambda>new_table.
     let old_table = table self; old_size = RawTable_size old_table in
     if RawTable_size old_table = 0 then ret (self\<lparr>table := new_table\<rparr>)
     else
       bindO (Bucket_head_bucket old_table) (\<lambda>bucket.
       bindO (resize_loop old_table new_table bucket) (\<lambda>t.
       bindO (Some (assertR ''self.table.size() == old_size'' (RawTable_size t = old_size))) (\<lambda>_.
       ret (self\<lparr>table := t\<rparr>)))))))"

definition HashMap_len :: "('k, 'v) hash_map \<Rightarrow> usize" where
  "HashMap_len self = RawTable_size (table self)"

definition HashMap_is_empty :: "('k, 'v) hash_map \<Rightarrow> bool" where
  "HashMap_is_empty self \<longleftrightarrow> HashMap_len self = 0"

definition HashMap_raw_capacity :: "('k, 'v) hash_map \<Rightarrow> usize" where
  "HashMap_raw_capacity self = RawTable_capacity (table self)"

definition HashMap_capacity :: "('k, 'v) hash_map \<Rightarrow> usize res" where
  "HashMap_capacity self = policy_capacity (HashMap_raw_capacity self)"

definition HashMap_reserve :: "('k, 'v) hash_map \<Rightarrow> usize \<Rightarrow> ('k, 'v) hash_map run" where
  "HashMap_reserve self additional =
     bindO (Some (bindR (HashMap_capacity self) (\<lambda>c. subP c (HashMap_len self)))) (\<lambda>remaining.
     if remaining < additional then
       bindO (Some (expectR ''reserve overflow'' (word_checked_add (HashMap_len self) additional))) (\<lambda>min_cap.
       bindO (Some (policy_raw_capacity min_cap)) (\<lambda>raw_cap.
       HashMap_resize self raw_cap))
     else if RawTable_tag (table self) \<and> remaining \<le> HashMap_len self then
       bindO (Some (mulP (RawTable_capacity (table self)) 2)) (\<lambda>new_capacity.
       HashMap_resize self new_capacity)
     else ret self)"

subsection \<open>The public operations\<close>

definition HashMap_with_hasher :: "usize \<times> usize \<Rightarrow> ('k \<Rightarrow> u64) \<Rightarrow> ('k, 'v) hash_map res" where
  "HashMap_with_hasher ly hb =
     bindR (RawTable_new ly 0) (\<lambda>t. Inr \<lparr>hash_builder = hb, table = t\<rparr>)"

definition HashMap_with_capacity_and_hasher ::
    "usize \<times> usize \<Rightarrow> usize \<Rightarrow> ('k \<Rightarrow> u64) \<Rightarrow> ('k, 'v) hash_map res" where
  "HashMap_with_capacity_and_hasher ly capacity hb =
     bindR (policy_raw_capacity capacity) (\<lambda>raw_cap.
     bindR (RawTable_new ly raw_cap) (\<lambda>t. Inr \<lparr>hash_builder = hb, table = t\<rparr>))"

definition HashMap_get :: "('k, 'v) hash_map \<Rightarrow> 'k \<Rightarrow> 'v option res" where
  "HashMap_get self k =
     bindR (HashMap_search self k) (\<lambda>e.
     case into_occupied_bucket e of
       None \<Rightarrow> Inr None
     | Some bucket \<Rightarrow> bindR (FullBucket_read (table self) bucket) (\<lambda>(_, v). Inr (Some v)))"

definition HashMap_contains_key :: "('k, 'v) hash_map \<Rightarrow> 'k \<Rightarrow> bool res" where
  "HashMap_contains_key self k =
     bindR (HashMap_search self k) (\<lambda>e. Inr (into_occupied_bucket e \<noteq> None))"

text \<open>\<open>get_mut\<close> followed by a write through the reference it returns.\<close>

definition HashMap_get_mut_write :: "('k, 'v) hash_map \<Rightarrow> 'k \<Rightarrow> 'v \<Rightarrow> (bool \<times> ('k, 'v) hash_map) res" where
  "HashMap_get_mut_write self k v =
     bindR (HashMap_search self k) (\<lambda>e.
     case into_occupied_bucket e of
       None \<Rightarrow> Inr (False, self)
     | Some bucket \<Rightarrow>
         bindR (FullBucket_write_value (table self) bucket v) (\<lambda>t. Inr (True, self\<lparr>table := t\<rparr>)))"

definition HashMap_insert :: "('k, 'v) hash_map \<Rightarrow> 'k \<Rightarrow> 'v \<Rightarrow> ('v option \<times> ('k, 'v) hash_map) run" where
  "HashMap_insert self k v =
     (let hash = HashMap_make_hash self k in
      bindO (HashMap_reserve self 1) (\<lambda>self. insert_hashed_nocheck self hash k v))"

definition HashMap_remove :: "('k, 'v) hash_map \<Rightarrow> 'k \<Rightarrow> ('v option \<times> ('k, 'v) hash_map) run" where
  "HashMap_remove self k =
     (if RawTable_size (table self) = 0 then ret (None, self)
      else
        bindO (Some (HashMap_search self k)) (\<lambda>e.
        case into_occupied_bucket e of
          None \<Rightarrow> ret (None, self)
        | Some bucket \<Rightarrow>
            bindO (pop_internal (table self) bucket) (\<lambda>(_, v, t).
            ret (Some v, self\<lparr>table := t\<rparr>))))"

definition HashMap_iter :: "('k, 'v) hash_map \<Rightarrow> ('k \<times> 'v) list res" where
  "HashMap_iter self = Iter_collect (table self) (RawTable_raw_buckets (table self))"

definition HashMap_clear :: "('k, 'v) hash_map \<Rightarrow> ('k, 'v) hash_map res" where
  "HashMap_clear self =
     bindR (Drain_drop (table self) (RawTable_raw_buckets (table self))) (\<lambda>t.
     Inr (self\<lparr>table := t\<rparr>))"

subsection \<open>Searching\<close>

text \<open>What the result of a search says about the table.\<close>

definition search_post ::
    "('k, 'v) slot list \<Rightarrow> safe_hash \<Rightarrow> ('k \<Rightarrow> bool) \<Rightarrow> InternalEntry \<Rightarrow> bool" where
  "search_post xs hash is_match r \<longleftrightarrow>
     (case r of
        Occupied i \<Rightarrow> unat i < length xs \<and> (\<exists>k v. xs ! unat i = Some (hash, k, v) \<and> is_match k)
      | Vacant h (NoElem i d) \<Rightarrow> h = hash \<and> xs ! unat i = None \<and>
          probe_ok xs (unat i) (disp (length xs) (unat i) hash)
      | Vacant h (NeqElem i pd) \<Rightarrow> h = hash \<and>
          (\<exists>h' k' v'. xs ! unat i = Some (h', k', v') \<and> unat pd = disp (length xs) (unat i) h' \<and>
             disp (length xs) (unat i) h' < disp (length xs) (unat i) hash \<and>
             (\<forall>j < disp (length xs) (unat i) hash.
                xs ! ((unat hash mod length xs + j) mod length xs) \<noteq> None)) \<and>
          probe_ok xs (unat i) (disp (length xs) (unat i) hash)
      | TableIsEmpty \<Rightarrow> xs = []) \<and>
     ((\<nexists>i. r = Occupied i) \<longrightarrow> (\<forall>k v. (hash, k, v) \<in># contents xs \<longrightarrow> \<not> is_match k))"

text \<open>
  A probe that stops at a slot no higher than its count has passed every slot in which an
  entry with its hash could be.
\<close>

lemma probe_stop_absent:
  assumes rh: "rh xs" and j: "j < length xs"
    and stop: "height xs ((unat hash mod length xs + j) mod length xs) \<le> j"
    and seen: "\<forall>j' < j. \<forall>k v. xs ! ((unat hash mod length xs + j') mod length xs) = Some (hash, k, v) \<longrightarrow> \<not> P k"
    and e: "(hash, k, v) \<in># contents xs"
  shows "\<not> P k"
proof -
  let ?N = "length xs" and ?b = "unat hash mod length xs"
  obtain i where i: "i < ?N" "xs ! i = Some (hash, k, v)" using e by (auto simp: in_contents_nth)
  have "disp ?N i hash < j"
  proof (rule ccontr)
    assume "\<not> disp ?N i hash < j"
    then have "Suc j \<le> height xs ((?b + j) mod ?N)" by (intro rh_chain [OF rh i]) simp
    with stop show False by simp
  qed
  then show ?thesis using seen i disp_index [OF i(1), of hash] by auto
qed

lemma search_loop_correct:
  assumes wf: "wf_table t" and rh: "rh (slots t)" and size: "unat (tsize t) < length (slots t)"
    and p: "unat p = (unat hash mod length (slots t) + unat d) mod length (slots t)"
    and d: "unat d < length (slots t)"
    and ok: "probe_ok (slots t) (unat p) (unat d)"
    and seen: "\<forall>j < unat d. slots t ! ((unat hash mod length (slots t) + j) mod length (slots t)) \<noteq> None \<and>
       (\<forall>k v. slots t ! ((unat hash mod length (slots t) + j) mod length (slots t)) = Some (hash, k, v) \<longrightarrow> \<not> P k)"
  shows "\<exists>r. search_loop t (tsize t) hash P p d = Inr r \<and> search_post (slots t) hash P r"
  using d p ok seen
proof (induction "length (slots t) - unat d" arbitrary: d p rule: less_induct)
  case less
  let ?xs = "slots t" and ?N = "length (slots t)" and ?b = "unat hash mod length (slots t)"
  have pN: "unat p < ?N" using less.prems(3) by (simp add: probe_ok_def)
  have dp: "disp ?N (unat p) hash = unat d" using less.prems(1,2) by (intro disp_eqI) simp_all
  have absent: "\<forall>k v. (hash, k, v) \<in># contents ?xs \<longrightarrow> \<not> P k" if "height ?xs (unat p) \<le> unat d"
    using probe_stop_absent [OF rh less.prems(1), of hash P] that less.prems(2,4) by auto
  show ?case
  proof (cases "?xs ! unat p")
    case None
    then show ?thesis using absent less.prems(3) dp
      by (subst search_loop.simps)
        (simp add: Bucket_peek_None [OF wf pN] search_post_def)
  next
    case (Some e)
    then obtain h k v where e: "?xs ! unat p = Some (h, k, v)" by (cases e) auto
    obtain pd where pd: "FullBucket_displacement t p = Inr pd" "unat pd = disp ?N (unat p) h"
      using FullBucket_displacement_ok [OF wf pN e] by blast
    note ops = Bucket_peek_Some [OF wf pN e] FullBucket_ops [OF wf pN e] pd(1)
    show ?thesis
    proof (cases "pd < d")
      case True
      then have low: "disp ?N (unat p) h < unat d" using pd(2) by (simp add: word_less_nat_alt)
      then have "height ?xs (unat p) \<le> unat d" using e by simp
      then show ?thesis using absent less.prems(3,4) dp True low pd(2) e
        by (subst search_loop.simps) (simp add: ops search_post_def)
    next
      case False
      then have high: "unat d < height ?xs (unat p)"
        using pd(2) e by (simp add: word_less_nat_alt)
      show ?thesis
      proof (cases "h = hash \<and> P k")
        case True
        then show ?thesis using False e pN
          by (subst search_loop.simps) (simp add: ops search_post_def)
      next
        case nomatch: False
        have full: "\<forall>j < Suc (unat d). ?xs ! ((?b + j) mod ?N) \<noteq> None"
          using less.prems(2,4) e by (auto simp: less_Suc_eq)
        have "Suc (unat d) \<le> count_full ?xs"
          using less.prems(1) full by (intro count_full_run) simp_all
        then have le: "Suc (unat d) \<le> unat (tsize t)" by (simp add: wf_size [OF wf])
        then have fit: "unat d + unat (1 :: usize) < 2 ^ LENGTH(64)"
          using unat_less_length [of "tsize t"] by simp
        then have d1: "unat (d + 1) = Suc (unat d)" by (simp add: unat_add_small)
        have next_p: "unat (Bucket_next t p) = (?b + unat (d + 1)) mod ?N"
          using Bucket_next_nxt [OF wf pN] less.prems(2) by (simp add: nxt_def d1 mod_Suc_eq)
        have IH: "\<exists>r. search_loop t (tsize t) hash P (Bucket_next t p) (d + 1) = Inr r \<and> search_post ?xs hash P r"
        proof (rule less.hyps)
          show "?N - unat (d + 1) < ?N - unat d" "unat (d + 1) < ?N" using le size d1 by simp_all
          show "unat (Bucket_next t p) = (?b + unat (d + 1)) mod ?N" by (rule next_p)
          show "probe_ok ?xs (unat (Bucket_next t p)) (unat (d + 1))"
            using probe_ok_step [OF less.prems(3) high] Bucket_next_nxt [OF wf pN] by (simp add: d1)
          show "\<forall>j < unat (d + 1). ?xs ! ((?b + j) mod ?N) \<noteq> None \<and>
              (\<forall>k v. ?xs ! ((?b + j) mod ?N) = Some (hash, k, v) \<longrightarrow> \<not> P k)"
            using less.prems(2,4) e nomatch full by (auto simp: d1 less_Suc_eq)
        qed
        then show ?thesis using False nomatch addP_ok [OF fit] le
          by (subst search_loop.simps) (auto simp: ops word_le_nat_alt d1)
      qed
    qed
  qed
qed

lemma search_hashed_correct:
  assumes wf: "wf_table t" and rh: "rh (slots t)"
    and size: "slots t \<noteq> [] \<Longrightarrow> unat (tsize t) < length (slots t)"
  shows "\<exists>r. search_hashed t hash P = Inr r \<and> search_post (slots t) hash P r"
proof (cases "slots t = []")
  case True
  then show ?thesis using wf_capacity_0 [OF wf] by (simp add: search_hashed_def search_post_def)
next
  case False
  then obtain p where p: "Bucket_new t hash = Inr p" "unat p = unat hash mod length (slots t)"
    using Bucket_new_ok [OF wf] by blast
  have "\<exists>r. search_loop t (tsize t) hash P p 0 = Inr r \<and> search_post (slots t) hash P r"
    using False p(2) by (intro search_loop_correct [OF wf rh size]) (simp_all add: probe_ok_start)
  then show ?thesis
    using p False wf_capacity_0 [OF wf] by (simp add: search_hashed_def RawTable_size_def)
qed

subsection \<open>Removing\<close>

definition same_shape :: "('k, 'v) raw_table \<Rightarrow> ('k, 'v) raw_table \<Rightarrow> bool" where
  "same_shape t t' \<longleftrightarrow> capacity_mask t' = capacity_mask t \<and> kv_layout t' = kv_layout t \<and>
     length (slots t') = length (slots t)"

lemma same_shape_refl [simp]: "same_shape t t"
  by (simp add: same_shape_def)

lemma same_shape_trans: "same_shape t u \<Longrightarrow> same_shape u w \<Longrightarrow> same_shape t w"
  by (simp add: same_shape_def)

lemma same_shape_poke: "wf_table t \<Longrightarrow> same_shape t (poke t i h p s)"
  by (simp add: same_shape_def slots_poke wf_table_def)

lemma shifted_fields:
  "tsize (shifted t g f h kv) = tsize t" "capacity_mask (shifted t g f h kv) = capacity_mask t"
  "kv_layout (shifted t g f h kv) = kv_layout t" "Bucket_next (shifted t g f h kv) i = Bucket_next t i"
  by (simp_all add: shifted_def Bucket_next_def)

lemma pop_internal_loop_correct:
  assumes "wf_table t" "unat g < length (slots t)" "gap_ok (slots t) (unat g)"
    and "f = Bucket_next t g" "slots t ! unat f \<noteq> None"
    and "(unat g + j) mod length (slots t) = e" "0 < j" "j < length (slots t)" "slots t ! e = None"
  shows "\<exists>t'. pop_internal_loop t g f = ret t' \<and> wf_table t' \<and> rh (slots t') \<and>
    contents (slots t') = contents (slots t) \<and> same_shape t t' \<and> tsize t' = tsize t"
  using assms
proof (induction j arbitrary: t g f)
  case (Suc j)
  note wf = Suc.prems(1) and g = Suc.prems(2) and gap = Suc.prems(3)
  let ?xs = "slots t" and ?N = "length (slots t)"
  have N: "0 < ?N" using g by linarith
  have f: "unat f < ?N" "unat f = nxt ?N (unat g)"
    using Bucket_next_nxt [OF wf g] Suc.prems(4) N by simp_all
  obtain h k v where e: "?xs ! unat f = Some (h, k, v)" using Suc.prems(5) by auto
  have gN: "?xs ! unat g = None" using gap by (simp add: gap_ok_def)
  obtain d where d: "FullBucket_displacement t f = Inr d" "unat d = disp ?N (unat f) h"
    using FullBucket_displacement_ok [OF wf f(1) e] by blast
  show ?case
  proof (cases "d = 0")
    case True
    then have "height ?xs (nxt ?N (unat g)) \<le> 1" using d e f by simp
    then show ?thesis using True d gap_ok_close [OF gap] wf
      by (subst pop_internal_loop.simps) simp
  next
    case False
    then have pos: "0 < disp ?N (unat f) h" using d by (metis unat_gt_0)
    let ?t = "shifted t g f h (k, v)"
    have s: "GapThenFull_shift t g f = Inr (?t, after_gap ?t f)" "wf_table ?t"
      "slots ?t = ?xs[unat g := Some (h, k, v), unat f := None]"
      using GapThenFull_shift_ok [OF wf g gN f(1) e] by auto
    have len: "length (slots ?t) = ?N" using s(3) by simp
    have gap': "gap_ok (slots ?t) (unat f)"
      unfolding s(3) f(2) using e pos by (intro gap_ok_shift [OF gap]) (simp_all add: f)
    have ne: "unat g \<noteq> unat f" using e gN by auto
    have c: "contents (slots ?t) = contents ?xs"
      using contents_put [OF g gN] contents_take [of "unat f" "?xs[unat g := Some (h, k, v)]" "(h, k, v)"]
        f(1) e ne s(3) by simp
    have shape: "same_shape t ?t" using len by (simp add: same_shape_def shifted_fields)
    show ?thesis
    proof (cases "slots ?t ! unat (Bucket_next ?t f) = None")
      case True
      then have "height (slots ?t) (nxt (length (slots ?t)) (unat f)) \<le> 1"
        using Bucket_next_nxt [OF s(2), of f] f(1) len by simp
      then have "rh (slots ?t)" using gap_ok_close [OF gap'] by simp
      then show ?thesis using True False d s c shape
        by (subst pop_internal_loop.simps) (simp add: after_gap_def shifted_fields)
    next
      case full: False
      have step: "(unat f + j) mod ?N = e" using Suc.prems(6) f(2) by (simp add: nxt_def mod_simps)
      have "j \<noteq> 0" using step f(1) Suc.prems(5,9) by (cases j) auto
      have eg: "e \<noteq> unat g"
      proof
        assume "e = unat g"
        then have "(unat g + Suc j) mod ?N = (unat g + 0) mod ?N" using Suc.prems(6) g by simp
        then show False
          using cyc_index [OF g Suc.prems(8)] g Suc.prems(8) by (auto split: if_splits)
      qed
      have "e < ?N" using step N by auto
      then have "slots ?t ! e = None" using Suc.prems(9) eg s(3) by (cases "e = unat f") simp_all
      then obtain t' where "pop_internal_loop ?t f (Bucket_next ?t f) = ret t'" "wf_table t'" "rh (slots t')"
          "contents (slots t') = contents (slots ?t)" "same_shape ?t t'" "tsize t' = tsize ?t"
        using Suc.IH [of ?t f "Bucket_next ?t f"] s(2) gap' full step \<open>j \<noteq> 0\<close> Suc.prems(8) f(1) len by auto
      then show ?thesis using full False d s c same_shape_trans [OF shape]
        by (subst pop_internal_loop.simps) (simp add: after_gap_def shifted_fields del: not_None_eq)
    qed
  qed
qed simp

lemma pop_internal_correct:
  assumes wf: "wf_table t" and rh: "rh (slots t)" and size: "unat (tsize t) < length (slots t)"
    and i: "unat i < length (slots t)" "slots t ! unat i = Some (h, k, v)"
  shows "\<exists>t'. pop_internal t i = ret (k, v, t') \<and> wf_table t' \<and> rh (slots t') \<and>
    contents (slots t) = add_mset (h, k, v) (contents (slots t')) \<and> same_shape t t'"
proof -
  let ?t = "poke t (unat i) EMPTY_BUCKET None (tsize t - 1)"
  have take: "FullBucket_take t i = Inr (?t, k, v)" "wf_table ?t" "slots ?t = (slots t)[unat i := None]"
    using FullBucket_take_ok [OF wf i] by auto
  have len: "length (slots ?t) = length (slots t)" using take(3) by simp
  have iN: "unat i < length (slots ?t)" using i len by simp
  have gap: "gap_ok (slots ?t) (unat i)" unfolding take(3) by (rule gap_ok_take [OF rh i(1)])
  have c: "contents (slots t) = add_mset (h, k, v) (contents (slots ?t))"
    unfolding take(3) using contents_take [OF i] by simp
  have shape: "same_shape t ?t" by (rule same_shape_poke [OF wf])
  note peek = EmptyBucket_gap_peek_ok [OF take(2) iN]
  show ?thesis
  proof (cases "slots ?t ! unat (Bucket_next ?t i) = None")
    case True
    then have "height (slots ?t) (nxt (length (slots ?t)) (unat i)) \<le> 1"
      using Bucket_next_nxt [OF take(2) iN] by simp
    then have "rh (slots ?t)" using gap_ok_close [OF gap] by simp
    then show ?thesis using True take peek c shape
      by (simp add: pop_internal_def after_gap_def)
  next
    case False
    obtain e where e: "e < length (slots t)" "slots t ! e = None"
      using count_full_less_ex [of "slots t"] size wf_size [OF wf] by metis
    obtain j where j: "j < length (slots t)" "(unat i + j) mod length (slots t) = e"
      using cyc_reach [OF i(1) e(1)] .
    have "j \<noteq> 0" using j e i by (cases j) auto
    moreover have "slots ?t ! e = None" using e i take(3) by (cases "e = unat i") simp_all
    ultimately obtain t' where t': "pop_internal_loop ?t i (Bucket_next ?t i) = ret t'" "wf_table t'"
        "rh (slots t')" "contents (slots t') = contents (slots ?t)" "same_shape ?t t'"
      using pop_internal_loop_correct [OF take(2) iN gap _ False, of j e] j e len take(3) i by auto
    then show ?thesis using False take peek c same_shape_trans [OF shape]
      by (simp add: pop_internal_def after_gap_def del: not_None_eq)
  qed
qed

subsection \<open>Stealing\<close>

lemma robin_hood_loop_correct:
  assumes "wf_table t" "rh (slots t)" "count_full (slots t) < length (slots t)"
    and "hash \<noteq> EMPTY_BUCKET"
    and "unat p = (b + m) mod length (slots t)" "\<forall>i \<le> m. slots t ! ((b + i) mod length (slots t)) \<noteq> None"
    and "m < length (slots t)"
    and "disp (length (slots t)) (unat p) hash = unat d" "unat d < height (slots t) (unat p)"
    and "\<forall>i. m < i \<longrightarrow> i \<le> count_full (slots t) \<longrightarrow> (b + i) mod length (slots t) \<noteq> unat idx_end"
  shows "\<exists>t'. robin_hood_loop t idx_end p d hash key val = ret t' \<and> wf_table t' \<and> rh (slots t') \<and>
    contents (slots t') = add_mset (hash, key, val) (contents (slots t)) \<and> same_shape t t' \<and>
    ttag t' = ttag t \<and>
    (\<forall>i \<le> m. slots t' ! ((b + i) mod length (slots t)) = slots t ! ((b + i) mod length (slots t)))"
  using assms
proof (induction "length (slots t) - m" arbitrary: t p m d hash key val rule: less_induct)
  case less
  note wf = less.prems(1) and rh = less.prems(2)
  let ?xs = "slots t" and ?N = "length (slots t)"
  have N: "0 < ?N" using less.prems(7) by linarith
  have p: "unat p < ?N" using less.prems(5) N by simp
  let ?q = "Bucket_next t p"
  have q: "unat ?q = nxt ?N (unat p)" "unat ?q < ?N"
    using Bucket_next_nxt [OF wf p] N by simp_all
  have qm: "unat ?q = (b + Suc m) mod ?N" using q(1) less.prems(5) by (simp add: nxt_def mod_Suc_eq)
  have m: "Suc m \<le> count_full ?xs"
    using less.prems(6,7) by (intro count_full_run [where b = b]) (simp_all add: less_Suc_eq_le)
  have mN: "Suc m < ?N" using m less.prems(3) by simp
  have old: "(b + i) mod ?N \<noteq> unat ?q" if "i \<le> m" for i
    using that mN unfolding qm by (intro cyc_neq) simp_all
  have dN: "Suc (unat d) < ?N"
    using less.prems(3,9) rh_height_le [OF rh p] by simp
  have dq: "disp ?N (unat ?q) hash = Suc (unat d)"
    using disp_nxt [OF p] dN less.prems(8) q(1) by simp
  have ok: "probe_ok ?xs (unat ?q) (Suc (unat d))"
    using less.prems(9) q p by (auto simp: probe_ok_def Suc_le_eq dest: nxt_inj)
  have "Suc (unat d) \<le> unat (tsize t)"
    using less.prems(9) rh_height_le [OF rh p] by (simp add: wf_size [OF wf])
  then have fit: "unat d + unat (1 :: usize) < 2 ^ LENGTH(64)"
    using unat_less_length [of "tsize t"] by simp
  then have d1: "unat (d + 1) = Suc (unat d)" by (simp add: unat_add_small)
  have not_end: "?q \<noteq> idx_end" using less.prems(10) m qm by auto
  note pre = addP_ok [OF fit] not_end
  show ?case
  proof (cases "?xs ! unat ?q")
    case None
    let ?t = "poke t (unat ?q) hash (Some (key, val)) (tsize t + 1)"
    have put: "EmptyBucket_put t ?q hash key val = Inr ?t" "wf_table ?t"
      "slots ?t = ?xs[unat ?q := Some (hash, key, val)]"
      using EmptyBucket_put_ok [OF wf q(2) None less.prems(4)] by auto
    have "rh (slots ?t)" unfolding put(3) using ok dq None by (intro rh_place [OF rh]) simp_all
    moreover have "contents (slots ?t) = add_mset (hash, key, val) (contents ?xs)"
      unfolding put(3) by (rule contents_put [OF q(2) None])
    moreover have "\<forall>i \<le> m. slots ?t ! ((b + i) mod ?N) = ?xs ! ((b + i) mod ?N)"
      using not_sym [OF old] by (simp add: put(3))
    ultimately show ?thesis
      using pre put Bucket_peek_None [OF wf q(2) None] same_shape_poke [OF wf]
      by (subst robin_hood_loop.simps) simp
  next
    case (Some e)
    then obtain h' k' v' where e: "?xs ! unat ?q = Some (h', k', v')" by (cases e) auto
    obtain pd where pd: "FullBucket_displacement t ?q = Inr pd" "unat pd = disp ?N (unat ?q) h'"
      using FullBucket_displacement_ok [OF wf q(2) e] by blast
    note peek = Bucket_peek_Some [OF wf q(2) e]
    show ?thesis
    proof (cases "pd < d + 1")
      case True
      then have low: "disp ?N (unat ?q) h' < Suc (unat d)" using pd d1 by (simp add: word_less_nat_alt)
      obtain u where rep: "FullBucket_replace t ?q hash key val = Inr (u, h', k', v')" "wf_table u"
        "slots u = ?xs[unat ?q := Some (hash, key, val)]" and u: "same_shape t u" "ttag u = ttag t"
        using FullBucket_replace_ok [OF wf q(2) e less.prems(4)] same_shape_poke [OF wf] by auto
      have rh': "rh (slots u)" unfolding rep(3) using ok dq e low by (intro rh_place [OF rh]) simp_all
      have c: "add_mset (h', k', v') (contents (slots u)) = add_mset (hash, key, val) (contents ?xs)"
        unfolding rep(3) by (rule contents_replace [OF q(2) e])
      have cf: "count_full (slots u) = count_full ?xs"
        using count_full_update [OF q(2), of "Some (hash, key, val)"] e by (simp add: rep(3))
      have len: "length (slots u) = ?N" by (simp add: rep(3))
      have same: "slots u ! ((b + i) mod ?N) = ?xs ! ((b + i) mod ?N)" if "i \<le> m" for i
        using not_sym [OF old [OF that]] by (simp add: rep(3))
      have h': "h' \<noteq> EMPTY_BUCKET" using slots_Some [OF wf q(2)] e by auto
      have full: "\<forall>i \<le> Suc m. slots u ! ((b + i) mod ?N) \<noteq> None"
        using less.prems(6) same q(2) by (auto simp: le_Suc_eq rep(3) simp flip: qm [unfolded add_Suc_right])
      have ht: "unat pd < height (slots u) (unat ?q)"
        using low dq q(2) pd(2) by (simp add: rep(3))
      have "\<exists>t'. robin_hood_loop u idx_end ?q pd h' k' v' = ret t' \<and> wf_table t' \<and> rh (slots t') \<and>
          contents (slots t') = add_mset (h', k', v') (contents (slots u)) \<and> same_shape u t' \<and>
          ttag t' = ttag u \<and>
          (\<forall>i \<le> Suc m. slots t' ! ((b + i) mod length (slots u)) = slots u ! ((b + i) mod length (slots u)))"
        using less.prems(3,10) mN pd(2) qm full
        by (intro less.hyps rep(2) rh' h' ht) (simp_all add: cf len del: not_None_eq)
      then show ?thesis
        using pre peek pd(1) True rep(1) c same same_shape_trans [OF u(1)] u(2)
        by (subst robin_hood_loop.simps) (auto simp: len)
    next
      case False
      then have high: "Suc (unat d) \<le> disp ?N (unat ?q) h'" using pd d1 by (simp add: word_less_nat_alt)
      have full: "\<forall>i \<le> Suc m. ?xs ! ((b + i) mod ?N) \<noteq> None"
        using less.prems(6) e by (auto simp: le_Suc_eq simp flip: qm [unfolded add_Suc_right])
      have ht: "unat (d + 1) < height ?xs (unat ?q)" using high e by (simp add: d1)
      have "\<exists>t'. robin_hood_loop t idx_end ?q (d + 1) hash key val = ret t' \<and> wf_table t' \<and> rh (slots t') \<and>
          contents (slots t') = add_mset (hash, key, val) (contents ?xs) \<and> same_shape t t' \<and>
          ttag t' = ttag t \<and> (\<forall>i \<le> Suc m. slots t' ! ((b + i) mod ?N) = ?xs ! ((b + i) mod ?N))"
        using less.prems(3,4,10) mN dq qm full
        by (intro less.hyps wf rh ht) (simp_all add: d1 del: not_None_eq)
      then show ?thesis
        using pre peek pd(1) False by (subst robin_hood_loop.simps) auto
    qed
  qed
qed

lemma slots_bound:
  assumes "wf_table t"
  shows "length (slots t) \<le> 2 ^ 60"
proof (cases "slots t = []")
  case False
  then obtain n where n: "n < 61" "length (slots t) = 2 ^ n" using wf_capacity [OF assms] by metis
  then show ?thesis using power_increasing [of n 60 "2 :: nat"] by simp
qed simp

lemma set_tag_simps [simp]:
  "slots (RawTable_set_tag t b) = slots t"
  "wf_table (RawTable_set_tag t b) = wf_table t"
  "same_shape (RawTable_set_tag t b) u = same_shape t u"
  "same_shape u (RawTable_set_tag t b) = same_shape u t"
  "tsize (RawTable_set_tag t b) = tsize t"
  by (simp_all add: RawTable_set_tag_def slots_def wf_table_def same_shape_def)

lemma robin_hood_correct:
  assumes wf: "wf_table t" and rh: "rh (slots t)" and size: "count_full (slots t) < length (slots t)"
    and hash: "hash \<noteq> EMPTY_BUCKET" and i: "unat i < length (slots t)"
    and post: "search_post (slots t) hash P (Vacant hash (NeqElem i pd))"
  shows "\<exists>t'. robin_hood t i pd hash k v = ret t' \<and> wf_table t' \<and> rh (slots t') \<and>
    contents (slots t') = add_mset (hash, k, v) (contents (slots t)) \<and> same_shape t t' \<and>
    slots t' ! unat i = Some (hash, k, v)"
proof -
  let ?xs = "slots t" and ?N = "length (slots t)" and ?b = "unat hash mod length (slots t)"
  let ?D = "disp ?N (unat i) hash" and ?s = "count_full (slots t)"
  obtain h' k' v' where e: "?xs ! unat i = Some (h', k', v')" and pd: "unat pd = disp ?N (unat i) h'"
    and low: "unat pd < ?D" and full: "\<forall>j < ?D. ?xs ! ((?b + j) mod ?N) \<noteq> None"
    and ok: "probe_ok ?xs (unat i) ?D"
    using post by (auto simp: search_post_def)
  have bD: "(?b + ?D) mod ?N = unat i" using disp_index [OF i] .
  have N: "0 < ?N" using i by linarith
  have DN: "?D < ?N" using N by simp
  have pds: "unat pd \<le> ?s" using rh_height_le [OF rh i] e pd by simp
  have bnd: "?N \<le> 2 ^ 60" using slots_bound [OF wf] .
  have fd: "FullBucket_displacement t i = Inr pd"
    using FullBucket_displacement_ok [OF wf i e] pd by (auto simp: unat_eq_iff)
  have sz: "unat (tsize t) = ?s" using wf_size [OF wf] .
  have fit: "unat i + unat (tsize t) < 2 ^ LENGTH(64)" using i size bnd sz by simp
  have a: "addP i (tsize t) = Inr (i + tsize t)" "unat (i + tsize t) = unat i + ?s"
    using addP_ok [OF fit] unat_add_small [OF fit] sz by simp_all
  have le: "unat pd \<le> unat (i + tsize t)" using a pds by simp
  have b: "subP (i + tsize t) pd = Inr (i + tsize t - pd)" "unat (i + tsize t - pd) = unat i + ?s - unat pd"
    using subP_ok [OF le] unat_sub_small [of pd "i + tsize t"] le a(2) by (simp_all add: word_le_nat_alt)
  let ?stop = "(i + tsize t - pd) mod RawTable_capacity t"
  have "unat ?stop = (unat i + (?s - unat pd)) mod ?N"
    using b(2) wf_capacity_eq [OF wf] pds by (simp add: unat_mod_distrib)
  also have "\<dots> = ((?b + ?D) mod ?N + (?s - unat pd)) mod ?N" using bD by simp
  also have "\<dots> = (?b + (?D + (?s - unat pd))) mod ?N" by (simp only: mod_add_left_eq add.assoc)
  finally have end_eq: "unat ?stop = (?b + (?D + (?s - unat pd))) mod ?N" .
  have not_end: "(?b + j) mod ?N \<noteq> unat ?stop" if "?D < j" "j \<le> ?s" for j
    unfolding end_eq using that low pds size by (intro cyc_neq) simp_all
  obtain u where u: "FullBucket_replace t i hash k v = Inr (u, h', k', v')" "wf_table u"
      "slots u = ?xs[unat i := Some (hash, k, v)]" "same_shape t u"
    using FullBucket_replace_ok [OF wf i e hash] same_shape_poke [OF wf] by auto
  have len: "length (slots u) = ?N" and cf: "count_full (slots u) = ?s"
    using count_full_update [OF i, of "Some (hash, k, v)"] e by (simp_all add: u(3))
  have c: "add_mset (h', k', v') (contents (slots u)) = add_mset (hash, k, v) (contents ?xs)"
    unfolding u(3) by (rule contents_replace [OF i e])
  have fullu: "\<forall>j \<le> ?D. slots u ! ((?b + j) mod ?N) \<noteq> None"
    using full bD i by (auto simp: u(3) nth_list_update le_less simp del: not_None_eq)
  have rhu: "rh (slots u)" unfolding u(3) using ok low pd e by (intro rh_place [OF rh]) simp_all
  have h': "h' \<noteq> EMPTY_BUCKET" using slots_Some [OF wf i] e by auto
  have ht: "unat pd < height (slots u) (unat i)" using low i by (simp add: u(3))
  have "\<exists>t'. robin_hood_loop u ?stop i pd h' k' v' = ret t' \<and> wf_table t' \<and> rh (slots t') \<and>
      contents (slots t') = add_mset (h', k', v') (contents (slots u)) \<and> same_shape u t' \<and>
      ttag t' = ttag u \<and>
      (\<forall>j \<le> ?D. slots t' ! ((?b + j) mod length (slots u)) = slots u ! ((?b + j) mod length (slots u)))"
    using size not_end fullu DN pd
    by (intro robin_hood_loop_correct u(2) rhu h' ht) (simp_all add: len cf bD del: not_None_eq)
  then obtain t' where t': "robin_hood_loop u ?stop i pd h' k' v' = ret t'" "wf_table t'" "rh (slots t')"
      "contents (slots t') = add_mset (hash, k, v) (contents ?xs)" "same_shape u t'"
      "\<forall>j \<le> ?D. slots t' ! ((?b + j) mod ?N) = slots u ! ((?b + j) mod ?N)"
    using c len by auto
  have "slots t' ! unat i = Some (hash, k, v)" using t'(6) bD u(3) i by auto
  moreover have "RawTable_capacity t \<noteq> 0" using wf_capacity_0 [OF wf] N by auto
  ultimately show ?thesis using t' u(1) a(1) b(1) fd same_shape_trans [OF u(4)]
    by (simp add: robin_hood_def RawTable_size_def)
qed

text \<open>Both ways of filling a vacant entry, as one statement.\<close>

lemma VacantEntry_insert_correct:
  assumes wf: "wf_table t" and rh: "rh (slots t)" and size: "count_full (slots t) < length (slots t)"
    and hash: "hash \<noteq> EMPTY_BUCKET"
    and post: "search_post (slots t) hash P (Vacant h elem)"
  shows "h = hash \<and> (\<exists>t' b. VacantEntry_insert t hash k elem v = ret (t', b) \<and> wf_table t' \<and> rh (slots t') \<and>
    contents (slots t') = add_mset (hash, k, v) (contents (slots t)) \<and> same_shape t t' \<and>
    unat b < length (slots t) \<and> slots t' ! unat b = Some (hash, k, v))"
proof (cases elem)
  case (NeqElem i pd)
  let ?t = "if pd \<ge> DISPLACEMENT_THRESHOLD then RawTable_set_tag t True else t"
  have i: "unat i < length (slots t)" and "h = hash"
    using post NeqElem by (auto simp: search_post_def probe_ok_def)
  moreover have "\<exists>t'. robin_hood ?t i pd hash k v = ret t' \<and> wf_table t' \<and> rh (slots t') \<and>
      contents (slots t') = add_mset (hash, k, v) (contents (slots ?t)) \<and> same_shape ?t t' \<and>
      slots t' ! unat i = Some (hash, k, v)"
    using assms i NeqElem by (intro robin_hood_correct [where P = P]) (simp_all add: search_post_def)
  ultimately show ?thesis using NeqElem by (auto simp: VacantEntry_insert_def)
next
  case (NoElem i d)
  let ?t = "if d \<ge> DISPLACEMENT_THRESHOLD then RawTable_set_tag t True else t"
  have i: "unat i < length (slots t)" "slots t ! unat i = None" and h: "h = hash"
    and ok: "probe_ok (slots t) (unat i) (disp (length (slots t)) (unat i) hash)"
    using post NoElem by (auto simp: search_post_def probe_ok_def)
  have wf': "wf_table ?t" "slots ?t = slots t" "same_shape t ?t" using wf by simp_all
  let ?u = "poke ?t (unat i) hash (Some (k, v)) (tsize ?t + 1)"
  have u: "EmptyBucket_put ?t i hash k v = Inr ?u" "wf_table ?u"
      "slots ?u = (slots t)[unat i := Some (hash, k, v)]"
    using EmptyBucket_put_ok [OF wf'(1), of i hash k v] i hash wf'(2) by auto
  have "rh (slots ?u)" unfolding u(3) using i ok by (intro rh_place [OF rh]) simp_all
  moreover have "contents (slots ?u) = add_mset (hash, k, v) (contents (slots t))"
    unfolding u(3) by (rule contents_put [OF i])
  moreover have "same_shape t ?u" using same_shape_trans [OF wf'(3)] same_shape_poke [OF wf'(1)] by blast
  moreover have "VacantEntry_insert t hash k elem v = ret (?u, i)"
    using u(1) by (simp add: VacantEntry_insert_def NoElem)
  moreover have "slots ?u ! unat i = Some (hash, k, v)" unfolding u(3) using i by simp
  ultimately show ?thesis using u(2) i h by blast
qed

end
