(* ===== verification/Hash_Map_Resize.thy ===== *)
theory Hash_Map_Resize
  imports Hash_Map
begin

section \<open>\<open>HashMap::resize\<close>: growing the table in Robin Hood order\<close>

text \<open>
  \<open>resize\<close> walks the old table from a cluster head and puts every entry into the first free
  bucket of the new table, without comparing displacements. The lemmas show why this is enough:
  seen from the head the ideal positions come in order, a larger power of two of buckets is a
  number of images of the old table, an entry never leaves its image, and so the new
  table is again in Robin Hood order and holds the same entries.
\<close>

subsection \<open>Positions relative to a cluster head\<close>

definition rel :: "nat \<Rightarrow> nat \<Rightarrow> nat \<Rightarrow> nat" where
  "rel m s x = (x + (m - s)) mod m"

lemma rel_less [simp]: "0 < m \<Longrightarrow> rel m s x < m"
  by (simp add: rel_def)

lemma rel_walk: "s < m \<Longrightarrow> i < m \<Longrightarrow> rel m s ((s + i) mod m) = i"
  unfolding rel_def mod_add_left_eq by simp

lemma rel_step:
  assumes "m dvd n" "rel m s x + j < m"
  shows "rel m s ((x + j) mod n) = rel m s x + j"
proof -
  have "rel m s ((x + j) mod n) = (((x + j) mod n) mod m + (m - s)) mod m"
    by (simp add: rel_def mod_add_left_eq)
  also have "\<dots> = (rel m s x + j) mod m"
    using assms(1) by (simp add: rel_def mod_mod_cancel mod_simps ac_simps)
  finally show ?thesis using assms(2) by simp
qed

text \<open>
  A table filled in order: seen from the head, the entries lie before position \<open>r\<close>, none has its
  ideal position behind \<open>b\<close>, and none is displaced out of its image of the old table.
\<close>

definition ordered :: "nat \<Rightarrow> nat \<Rightarrow> nat \<Rightarrow> nat \<Rightarrow> ('k, 'v) slot list \<Rightarrow> bool" where
  "ordered m s r b xs \<longleftrightarrow>
     (\<forall>p < length xs. \<forall>h kv. xs ! p = Some (h, kv) \<longrightarrow>
        rel m s p < r \<and> rel m s (unat h) \<le> b \<and> rel m s p = rel m s (unat h) + disp (length xs) p h)"

lemma ordered_mono: "ordered m s r b xs \<Longrightarrow> r \<le> r' \<Longrightarrow> b \<le> b' \<Longrightarrow> ordered m s r' b' xs"
  unfolding ordered_def by (meson le_trans less_le_trans)

lemma ordered_replicate: "ordered m s r b (replicate n None)"
  by (simp add: ordered_def)

lemma ordered_put:
  assumes ord: "ordered m s r b xs" and b: "b = rel m s (unat h)" and m: "m dvd length xs"
    and j: "b + j < Suc r" "r < m" and p: "p = (unat h + j) mod length xs" "p < length xs"
    and jN: "j < length xs"
  shows "ordered m s (Suc r) b (xs[p := Some (h, kv)])"
proof -
  have d: "disp (length xs) p h = j"
    using p jN by (intro disp_eqI) (simp_all add: mod_add_left_eq)
  have rp: "rel m s p = b + j"
    unfolding p(1) b using j b by (intro rel_step [OF m]) simp
  show ?thesis
    unfolding ordered_def
  proof (intro allI impI)
    fix q h' kv'
    assume q: "q < length (xs[p := Some (h, kv)])" and e: "xs[p := Some (h, kv)] ! q = Some (h', kv')"
    show "rel m s q < Suc r \<and> rel m s (unat h') \<le> b \<and>
        rel m s q = rel m s (unat h') + disp (length (xs[p := Some (h, kv)])) q h'"
    proof (cases "q = p")
      case True
      then show ?thesis using e p(2) d rp b j by auto
    next
      case False
      then show ?thesis using e q ord unfolding ordered_def by auto
    qed
  qed
qed

subsection \<open>\<open>insert_hashed_ordered\<close>\<close>

lemma insert_ordered_loop_correct:
  assumes wf: "wf_table t" and rh: "rh (slots t)" and hash: "hash \<noteq> EMPTY_BUCKET"
    and ord: "ordered m s r (rel m s (unat hash)) (slots t)"
    and m: "m dvd length (slots t)" "r < m" and ne: "slots t \<noteq> []"
    and st: "unat st = unat hash mod length (slots t)"
  shows "rel m s (unat hash) + j \<le> r \<Longrightarrow> unat p = (unat hash + j) mod length (slots t) \<Longrightarrow>
    probe_ok (slots t) (unat p) j \<Longrightarrow>
    \<exists>t'. insert_hashed_ordered_loop t st hash k v p = ret t' \<and> wf_table t' \<and> rh (slots t') \<and>
      contents (slots t') = add_mset (hash, k, v) (contents (slots t)) \<and> same_shape t t' \<and>
      ordered m s (Suc r) (rel m s (unat hash)) (slots t')"
proof (induction "r - j" arbitrary: j p rule: less_induct)
  case less
  let ?xs = "slots t" and ?N = "length (slots t)" and ?b = "rel m s (unat hash)"
  have N: "0 < ?N" using ne by simp
  have mN: "m \<le> ?N" using m(1) N by (rule dvd_imp_le)
  have p: "unat p < ?N" using less.prems(2) N by simp
  have jN: "j < ?N" using less.prems(1) m(2) mN by simp
  have d: "disp ?N (unat p) hash = j"
    using less.prems(2) jN by (intro disp_eqI) (simp_all add: mod_add_left_eq)
  have rp: "rel m s (unat p) = ?b + j"
    unfolding less.prems(2) using less.prems(1) m(2) by (intro rel_step [OF m(1)]) simp
  show ?case
  proof (cases "?xs ! unat p")
    case None
    obtain u where u: "EmptyBucket_put t p hash k v = Inr u" "wf_table u"
        "slots u = ?xs[unat p := Some (hash, k, v)]" "same_shape t u"
      using EmptyBucket_put_ok [OF wf p None hash] same_shape_poke [OF wf] by auto
    have "rh (slots u)" unfolding u(3) using less.prems(3) d None by (intro rh_place [OF rh]) simp_all
    moreover have "contents (slots u) = add_mset (hash, k, v) (contents ?xs)"
      unfolding u(3) by (rule contents_put [OF p None])
    moreover have "ordered m s (Suc r) ?b (slots u)"
      unfolding u(3) using less.prems(1,2) m jN p by (intro ordered_put [OF ord refl]) simp_all
    ultimately show ?thesis using u Bucket_peek_None [OF wf p None]
      by (subst insert_hashed_ordered_loop.simps) simp
  next
    case (Some e)
    then obtain h' kv' where e: "?xs ! unat p = Some (h', kv')" by (cases e) auto
    have o: "rel m s (unat p) < r" "rel m s (unat h') \<le> ?b"
        "rel m s (unat p) = rel m s (unat h') + disp ?N (unat p) h'"
      using ord p e unfolding ordered_def by blast+
    have step: "?b + Suc j \<le> r" using o(1) rp by simp
    have q: "unat (Bucket_next t p) = (unat hash + Suc j) mod ?N"
      using Bucket_next_nxt [OF wf p] less.prems(2) by (simp add: nxt_def mod_Suc_eq)
    have "Suc j < ?N" using step m(2) mN by simp
    then have "(unat hash + 0) mod ?N \<noteq> (unat hash + Suc j) mod ?N" by (intro cyc_neq) simp_all
    then have "Bucket_next t p \<noteq> st" using q st by auto
    moreover have "j < height ?xs (unat p)" using e o rp by simp
    then have "probe_ok ?xs (unat (Bucket_next t p)) (Suc j)"
      using probe_ok_step [OF less.prems(3)] Bucket_next_nxt [OF wf p] by simp
    moreover have "r - Suc j < r - j" using step by simp
    ultimately show ?thesis using less.hyps [OF _ step q] Bucket_peek_Some [OF wf p Some]
      by (subst insert_hashed_ordered_loop.simps) simp
  qed
qed

lemma insert_hashed_ordered_correct:
  assumes wf: "wf_table t" and rh: "rh (slots t)" and hash: "hash \<noteq> EMPTY_BUCKET"
    and ord: "ordered m s r (rel m s (unat hash)) (slots t)" and le: "rel m s (unat hash) \<le> r"
    and m: "m dvd length (slots t)" "r < m" and ne: "slots t \<noteq> []"
  shows "\<exists>t'. insert_hashed_ordered t hash k v = ret t' \<and> wf_table t' \<and> rh (slots t') \<and>
      contents (slots t') = add_mset (hash, k, v) (contents (slots t)) \<and> same_shape t t' \<and>
      ordered m s (Suc r) (rel m s (unat hash)) (slots t')"
proof -
  obtain p where p: "Bucket_new t hash = Inr p" "unat p = unat hash mod length (slots t)"
    using Bucket_new_ok [OF wf ne] by blast
  have "probe_ok (slots t) (unat p) 0" using p(2) ne by (intro probe_ok_start) simp
  then show ?thesis
    using insert_ordered_loop_correct [OF wf rh hash ord m ne p(2), of 0 p k v] p le
    by (simp add: insert_hashed_ordered_def)
qed

subsection \<open>The walk over the old table\<close>

text \<open>
  From a cluster head, an entry's distance to the head is at least its displacement, and the
  ideal positions come in order.
\<close>

definition ideal_from :: "('k, 'v) slot list \<Rightarrow> nat \<Rightarrow> nat \<Rightarrow> nat" where
  "ideal_from xs s i = Suc i - height xs ((s + i) mod length xs)"

lemma walk_height:
  assumes rh: "rh xs" and s: "s < length xs" "height xs s = 1"
  shows "height xs ((s + i) mod length xs) \<le> Suc i"
proof (induction i)
  case 0
  then show ?case using s by simp
next
  case (Suc i)
  have "(s + Suc i) mod length xs = nxt (length xs) ((s + i) mod length xs)"
    by (simp add: nxt_def mod_Suc_eq)
  moreover have "(s + i) mod length xs < length xs" using s by (intro mod_less_divisor) linarith
  ultimately show ?case using rhD [OF rh, of "(s + i) mod length xs"] Suc by simp
qed

lemma ideal_from_mono:
  assumes rh: "rh xs" and s: "s < length xs" "height xs s = 1"
  shows "ideal_from xs s i \<le> ideal_from xs s (Suc i)"
proof -
  have "(s + Suc i) mod length xs = nxt (length xs) ((s + i) mod length xs)"
    by (simp add: nxt_def mod_Suc_eq)
  moreover have "(s + i) mod length xs < length xs" using s by (intro mod_less_divisor) linarith
  ultimately show ?thesis using rhD [OF rh, of "(s + i) mod length xs"]
    by (simp add: ideal_from_def)
qed

lemma ideal_from_rel:
  assumes rh: "rh xs" and s: "s < length xs" "height xs s = 1" and i: "i < length xs"
    and e: "xs ! ((s + i) mod length xs) = Some (h, kv)"
  shows "rel (length xs) s (unat h) = ideal_from xs s i" "ideal_from xs s i \<le> i"
proof -
  let ?N = "length xs" and ?p = "(s + i) mod length xs"
  have p: "?p < ?N" using s by (intro mod_less_divisor) linarith
  have d: "disp ?N ?p h \<le> i" using walk_height [OF rh s, of i] e by simp
  have "(unat h + disp ?N ?p h) mod ?N = ?p" using disp_index [OF p, of h] by (simp add: mod_add_left_eq)
  then have "(unat h + disp ?N ?p h + (?N - s)) mod ?N = (s + i + (?N - s)) mod ?N"
    by (metis mod_add_left_eq)
  moreover have "s + i + (?N - s) = i + ?N" using s by simp
  ultimately have "(rel ?N s (unat h) + disp ?N ?p h) mod ?N = i"
    using i by (simp add: rel_def mod_simps ac_simps)
  moreover have "(i - disp ?N ?p h + disp ?N ?p h) mod ?N = i" using d i by simp
  ultimately have "(rel ?N s (unat h) + disp ?N ?p h) mod ?N = (i - disp ?N ?p h + disp ?N ?p h) mod ?N" by simp
  moreover have lt: "rel ?N s (unat h) < ?N" "i - disp ?N ?p h < ?N"
    using i rel_less [of ?N s "unat h"] by linarith+
  ultimately have "rel ?N s (unat h) = i - disp ?N ?p h"
    using cyc_neq [of "rel ?N s (unat h)" "i - disp ?N ?p h" ?N "disp ?N ?p h"]
      cyc_neq [of "i - disp ?N ?p h" "rel ?N s (unat h)" ?N "disp ?N ?p h"]
    by (cases "rel ?N s (unat h)" "i - disp ?N ?p h" rule: linorder_cases) (auto simp: add.commute)
  then show "rel ?N s (unat h) = ideal_from xs s i" using e by (simp add: ideal_from_def)
  show "ideal_from xs s i \<le> i" using e by (simp add: ideal_from_def)
qed

text \<open>What is left of the old table when the walk has reached position \<open>r\<close>.\<close>

definition walked :: "('k, 'v) slot list \<Rightarrow> nat \<Rightarrow> nat \<Rightarrow> ('k, 'v) slot list \<Rightarrow> bool" where
  "walked xs s r zs \<longleftrightarrow> length zs = length xs \<and>
     (\<forall>i < length xs. zs ! ((s + i) mod length xs) = (if i < r then None else xs ! ((s + i) mod length xs)))"

lemma walked_bound:
  assumes w: "walked xs s r zs" and s: "s < length xs" and pos: "0 < count_full zs"
  shows "r < length xs"
proof -
  obtain f where f: "f < length zs" "zs ! f \<noteq> None" using count_full_pos_ex [OF pos] .
  then obtain i where i: "i < length xs" "(s + i) mod length xs = f"
    using cyc_reach [OF s, of f] w by (auto simp: walked_def)
  then have "\<not> i < r" using f(2) w by (auto simp: walked_def)
  then show ?thesis using i(1) by simp
qed

lemma walked_skip:
  assumes w: "walked xs s r zs" and r: "r < length xs" and s: "s < length xs"
  shows "walked xs s (Suc r) (zs[(s + r) mod length xs := None])"
proof -
  have "(s + r) mod length xs \<noteq> (s + i) mod length xs" if "i < length xs" "i \<noteq> r" for i
    using that r cyc_neq [of i r "length xs" s] cyc_neq [of r i "length xs" s] by (cases i r rule: linorder_cases) auto
  moreover have "(s + r) mod length xs < length xs" using s by (intro mod_less_divisor) linarith
  ultimately have "zs[(s + r) mod length xs := None] ! ((s + i) mod length xs) =
      (if i < Suc r then None else xs ! ((s + i) mod length xs))" if "i < length xs" for i
    using that w unfolding walked_def by (cases "i = r") (auto simp: less_Suc_eq)
  then show ?thesis using w unfolding walked_def by simp
qed

lemma resize_loop_correct:
  assumes xs: "rh xs" "s < length xs" "height xs s = 1"
  shows "wf_table told \<Longrightarrow> walked xs s r (slots told) \<Longrightarrow> 0 < count_full (slots told) \<Longrightarrow>
    unat p = (s + r) mod length xs \<Longrightarrow>
    wf_table t \<Longrightarrow> rh (slots t) \<Longrightarrow> ordered (length xs) s r (ideal_from xs s r) (slots t) \<Longrightarrow>
    length xs dvd length (slots t) \<Longrightarrow> slots t \<noteq> [] \<Longrightarrow>
    \<exists>t'. resize_loop told t p = ret t' \<and> wf_table t' \<and> rh (slots t') \<and>
      contents (slots t') = contents (slots t) + contents (slots told) \<and> same_shape t t'"
proof (induction "length xs - r" arbitrary: r told p t rule: less_induct)
  case less
  note wfo = less.prems(1) and w = less.prems(2) and wft = less.prems(5)
  let ?O = "length xs"
  have r: "r < ?O" using walked_bound [OF w xs(2) less.prems(3)] .
  have len: "length (slots told) = ?O" using w by (simp add: walked_def)
  have p: "unat p < length (slots told)"
    unfolding len less.prems(4) using xs(2) by (intro mod_less_divisor) linarith
  have nxt_p: "unat (Bucket_next told p) = (s + Suc r) mod ?O"
    using Bucket_next_nxt [OF wfo p] less.prems(4) len by (simp add: nxt_def mod_Suc_eq)
  have here: "slots told ! unat p = xs ! ((s + r) mod ?O)"
    using w r less.prems(4) by (simp add: walked_def)
  note w' = walked_skip [OF w r xs(2), folded less.prems(4)]
  have mono: "ideal_from xs s r \<le> ideal_from xs s (Suc r)" by (rule ideal_from_mono [OF xs])
  show ?case
  proof (cases "slots told ! unat p")
    case None
    then have "(slots told)[unat p := None] = slots told" by (metis list_update_id)
    then have "\<exists>t'. resize_loop told t (Bucket_next told p) = ret t' \<and> wf_table t' \<and> rh (slots t') \<and>
        contents (slots t') = contents (slots t) + contents (slots told) \<and> same_shape t t'"
      using w' r less.prems nxt_p mono
      by (intro less.hyps [of "Suc r"]) (auto intro: ordered_mono)
    then show ?thesis using Bucket_peek_None [OF wfo p None]
      by (subst resize_loop.simps) simp
  next
    case (Some e)
    then obtain h k v where e: "slots told ! unat p = Some (h, k, v)" by (cases e) auto
    have rl: "rel ?O s (unat h) = ideal_from xs s r" "ideal_from xs s r \<le> r"
      using ideal_from_rel [OF xs r here [symmetric, unfolded e]] by simp_all
    have hz: "h \<noteq> EMPTY_BUCKET" using slots_Some [OF wfo p] e by auto
    obtain u where u: "FullBucket_take told p = Inr (u, k, v)" "wf_table u"
        "slots u = (slots told)[unat p := None]"
        "Bucket_next u p = Bucket_next told p"
      using FullBucket_take_ok [OF wfo p e] by (auto simp: Bucket_next_def)
    have c: "contents (slots told) = add_mset (h, k, v) (contents (slots u))"
      unfolding u(3) using contents_take [OF p e] by simp
    obtain t1 where t1: "insert_hashed_ordered t h k v = ret t1" "wf_table t1" "rh (slots t1)"
        "contents (slots t1) = add_mset (h, k, v) (contents (slots t))" "same_shape t t1"
        "ordered ?O s (Suc r) (ideal_from xs s r) (slots t1)"
      using insert_hashed_ordered_correct [OF wft less.prems(6) hz, of ?O s r k v] less.prems(7,8,9) rl r
      by auto
    note ops = Bucket_peek_Some [OF wfo p e] FullBucket_ops [OF wfo p e]
    show ?thesis
    proof (cases "tsize u = 0")
      case True
      then have "contents (slots u) = {#}"
        using wf_size [OF u(2)] size_contents [of "slots u"] by simp
      then show ?thesis using True ops u(1) t1 c
        by (subst resize_loop.simps) (simp add: RawTable_size_def)
    next
      case False
      then have "0 < count_full (slots u)" using wf_size [OF u(2)] by (metis unat_gt_0)
      moreover have "length (slots t1) = length (slots t)" "slots t1 \<noteq> []"
        using t1(5) less.prems(9) by (auto simp: same_shape_def)
      ultimately have "\<exists>t'. resize_loop u t1 (Bucket_next told p) = ret t' \<and> wf_table t' \<and> rh (slots t') \<and>
          contents (slots t') = contents (slots t1) + contents (slots u) \<and> same_shape t1 t'"
        using w' r less.prems(8) nxt_p t1 u mono
        by (intro less.hyps [of "Suc r"]) (auto intro: ordered_mono)
      then show ?thesis using False ops u t1 c same_shape_trans [OF t1(5)]
        by (subst resize_loop.simps) (auto simp: RawTable_size_def)
    qed
  qed
qed

lemma pow2_dvd:
  fixes c :: usize
  assumes "wf_table t" "slots t \<noteq> []" "c = 2 ^ n" "n < 64" "length (slots t) \<le> unat c"
  shows "length (slots t) dvd unat c"
proof -
  obtain l where l: "length (slots t) = 2 ^ l" using wf_capacity [OF assms(1,2)] by metis
  have "unat c = 2 ^ n" using assms(3,4) by (simp add: unat_pow2)
  then show ?thesis using l assms(5) by (auto simp: le_imp_power_dvd)
qed

lemma word_is_power_of_two_exp: "n < LENGTH('a) \<Longrightarrow> word_is_power_of_two (2 ^ n :: 'a::len word)"
proof -
  assume n: "n < LENGTH('a)"
  have "(2 ^ n :: 'a word) AND (2 ^ n - 1) = 0"
    by (rule bit_eqI) (auto simp: bit_simps simp flip: mask_eq_exp_minus_1)
  moreover have "(2 ^ n :: 'a word) \<noteq> 0" using n by simp
  ultimately show ?thesis by (simp add: word_is_power_of_two_def)
qed

text \<open>
  Growing succeeds exactly when the new table can be allocated, and keeps the entries.
\<close>

lemma HashMap_resize_correct:
  fixes m :: "('k, 'v) hash_map"
  assumes wf: "wf_table (table m)" and rh: "rh (slots (table m))"
    and size: "slots (table m) \<noteq> [] \<Longrightarrow> count_full (slots (table m)) < length (slots (table m))"
    and c: "c = 2 ^ n" "n < 64" and le: "length (slots (table m)) \<le> unat c"
  shows "case RawTable_new (kv_layout (table m)) c :: ('k, 'v) raw_table res of
      Inl f \<Rightarrow> HashMap_resize m c = Some (Inl f)
    | Inr _ \<Rightarrow> \<exists>t'. HashMap_resize m c = ret (m\<lparr>table := t'\<rparr>) \<and> wf_table t' \<and> rh (slots t') \<and>
        contents (slots t') = contents (slots (table m)) \<and> length (slots t') = unat c \<and>
        kv_layout t' = kv_layout (table m)"
    (is "case ?new of Inl f \<Rightarrow> _ | Inr _ \<Rightarrow> _")
proof -
  let ?t = "table m"
  have a1: "RawTable_size ?t \<le> c"
    using wf_size [OF wf] count_full_le [of "slots ?t"] le by (simp add: RawTable_size_def word_le_nat_alt)
  have a2: "word_is_power_of_two c" using c by (simp add: word_is_power_of_two_exp)
  show ?thesis
  proof (cases ?new)
    case (Inl f)
    then show ?thesis using a1 a2 by (simp add: HashMap_resize_def)
  next
    case (Inr t0)
    have t0: "wf_table t0" "slots t0 = replicate (unat c) None"
      using RawTable_new_wf [OF Inr] c by auto
    have ly: "kv_layout t0 = kv_layout ?t" using RawTable_new_Inr [OF Inr] by simp
    have cpos: "0 < unat c" using c by (simp add: unat_pow2)
    show ?thesis
    proof (cases "tsize ?t = 0")
      case True
      then have "contents (slots ?t) = {#}"
        using wf_size [OF wf] size_contents [of "slots ?t"] by simp
      then show ?thesis using True Inr a1 a2 t0 ly
        by (auto simp: HashMap_resize_def RawTable_size_def intro!: exI [of _ t0])
    next
      case False
      then have pos: "0 < count_full (slots ?t)" using wf_size [OF wf] by (metis unat_gt_0)
      then have ne: "slots ?t \<noteq> []" by auto
      obtain s where s: "Bucket_head_bucket ?t = ret s" "unat s < length (slots ?t)"
          "height (slots ?t) (unat s) = 1"
        using head_bucket_ok [OF wf rh] pos size [OF ne] wf_size [OF wf] by auto
      have "\<exists>t'. resize_loop ?t t0 s = ret t' \<and> wf_table t' \<and> rh (slots t') \<and>
          contents (slots t') = contents (slots t0) + contents (slots ?t) \<and> same_shape t0 t'"
        using wf pos t0 s(2) pow2_dvd [OF wf ne c le] cpos
        by (intro resize_loop_correct [OF rh s(2,3), where r = 0])
          (simp_all add: walked_def ordered_replicate)
      then obtain t' where t': "resize_loop ?t t0 s = ret t'" "wf_table t'" "rh (slots t')"
          "contents (slots t') = contents (slots ?t)" "same_shape t0 t'"
        using t0 by auto
      have "unat (tsize t') = unat (tsize ?t)"
        using t'(4) wf_size [OF wf] wf_size [OF t'(2)] size_contents [of "slots ?t"]
          size_contents [of "slots t'"] by simp
      then show ?thesis using False Inr a1 a2 s(1) t' t0 ly
        by (auto simp: HashMap_resize_def RawTable_size_def same_shape_def unat_eq_iff intro!: exI [of _ t'])
    qed
  qed
qed

subsection \<open>The resize policy\<close>

lemma next_power_of_two_Some:
  assumes "word_checked_next_power_of_two x = Some c"
  obtains n where "n < 64" "c = 2 ^ n" "unat x \<le> 2 ^ n"
proof -
  obtain n where "find (\<lambda>n. unat x \<le> 2 ^ n) [0..<64] = Some n" "c = 2 ^ n"
    using assms by (auto simp: word_checked_next_power_of_two_def)
  then show ?thesis using that by (auto simp: find_Some_iff)
qed

lemma next_power_of_two_exists:
  assumes "unat x \<le> 2 ^ 63"
  shows "\<exists>c. word_checked_next_power_of_two x = Some c"
proof -
  have "find (\<lambda>n. unat x \<le> 2 ^ n) [0..<64] \<noteq> None"
    using assms by (auto simp: find_None_iff intro!: exI [of _ 63])
  then show ?thesis by (auto simp: word_checked_next_power_of_two_def)
qed

text \<open>The wrapped product passes the assertion only when it did not wrap.\<close>

lemma raw_cap_no_wrap:
  fixes len :: usize
  assumes "len \<le> len * 11 div 10"
  shows "unat len * 11 < 2 ^ 64"
proof (rule ccontr)
  assume "\<not> ?thesis"
  then have big: "2 ^ 64 \<le> unat len * 11" by simp
  have "unat (len * 11) = unat len * 11 mod 2 ^ 64" by (simp add: unat_word_ariths)
  also have "\<dots> = (unat len * 11 - 2 ^ 64) mod 2 ^ 64" using big by (simp add: le_mod_geq)
  also have "\<dots> \<le> unat len * 11 - 2 ^ 64" by simp
  finally have "unat (len * 11) \<le> unat len * 11 - 2 ^ 64" .
  moreover have "unat len \<le> unat (len * 11) div 10"
    using assms by (simp add: word_le_nat_alt unat_div_distrib)
  moreover have "unat len < 2 ^ 64" using unat_less_length [of len] by simp
  ultimately show False using big by linarith
qed

lemma policy_raw_capacity_Inr:
  assumes "policy_raw_capacity len = Inr c" "len \<noteq> 0"
  obtains n where "n < 64" "c = 2 ^ n" "32 \<le> unat c" "unat len * 11 div 10 \<le> unat c"
proof -
  obtain d where le: "len \<le> len * 11 div 10" and d: "word_checked_next_power_of_two (len * 11 div 10) = Some d"
    and c: "c = max 32 d"
    using assms by (auto simp: policy_raw_capacity_def Let_def bindR_eq_Inr)
  obtain n where n: "n < 64" "d = 2 ^ n" "unat (len * 11 div 10) \<le> 2 ^ n"
    using next_power_of_two_Some [OF d] by metis
  have u: "unat (len * 11 div 10) = unat len * 11 div 10"
    using raw_cap_no_wrap [OF le] by (simp add: unat_div_distrib unat_mult_small)
  have ud: "unat d = 2 ^ n" using n by (simp add: unat_pow2)
  show ?thesis
  proof (cases "d \<le> 32")
    case True
    then have "c = 2 ^ 5" using c by (simp add: max_def)
    then show ?thesis using that [of 5] True n(3) u ud by (simp add: word_le_nat_alt)
  next
    case False
    then have "c = d" using c by (simp add: max_absorb2)
    then show ?thesis using that [of n] False n u ud by (simp add: word_le_nat_alt)
  qed
qed

lemma policy_raw_capacity_panics:
  assumes "policy_raw_capacity len = Inl f"
  shows "f \<in> {Panic ''raw_cap overflow'', Panic ''raw_capacity overflow''}"
proof -
  let ?r = "len * 11 div 10"
  show ?thesis using assms
    by (cases "len \<le> ?r"; cases "word_checked_next_power_of_two ?r"; cases "len = 0")
      (simp_all add: policy_raw_capacity_def Let_def)
qed

lemma policy_raw_capacity_ok:
  assumes "unat len * 11 \<le> 2 ^ 63"
  shows "\<exists>c. policy_raw_capacity len = Inr c"
proof (cases "len = 0")
  case True
  then show ?thesis by (simp add: policy_raw_capacity_def)
next
  case False
  have u: "unat (len * 11 div 10) = unat len * 11 div 10"
    using assms by (simp add: unat_div_distrib unat_mult_small)
  then have "unat (len * 11 div 10) \<le> 2 ^ 63" using assms by simp
  then obtain d where "word_checked_next_power_of_two (len * 11 div 10) = Some d"
    using next_power_of_two_exists by blast
  moreover have "len \<le> len * 11 div 10" using u by (simp add: word_le_nat_alt)
  ultimately show ?thesis using False by (simp add: policy_raw_capacity_def Let_def)
qed

definition usable :: "nat \<Rightarrow> nat" where
  "usable n = (n * 10 + 9) div 11"

lemma usable_less: "32 \<le> n \<Longrightarrow> usable n < n"
  by (simp add: usable_def)

lemma usable_grow: "usable n < l \<Longrightarrow> n < l * 11 div 10"
  by (simp add: usable_def)

lemma policy_capacity_ok:
  assumes "unat c \<le> 2 ^ 60"
  shows "\<exists>d. policy_capacity c = Inr d \<and> unat d = usable (unat c)"
proof -
  have m: "unat c * unat (10 :: usize) < 2 ^ LENGTH(64)" using assms by simp
  have um: "unat (c * 10) = unat c * 10" using unat_mult_small [OF m] by simp
  then have a: "unat (c * 10) + unat (10 :: usize) < 2 ^ LENGTH(64)" using assms by simp
  have ua: "unat (c * 10 + 10) = unat c * 10 + 10" using unat_add_small [OF a] um by simp
  then have s: "unat (1 :: usize) \<le> unat (c * 10 + 10)" by simp
  have us: "unat (c * 10 + 10 - 1) = unat c * 10 + 9"
    using unat_sub_small [of 1 "c * 10 + 10"] s ua by (simp add: word_le_nat_alt)
  show ?thesis using mulP_ok [OF m] addP_ok [OF a] subP_ok [OF s] us
    by (simp add: policy_capacity_def unat_div_distrib usable_def)
qed

subsection \<open>Properties of the resize policy\<close>



end
