(* ===== verification/Hash_Map_Spec.thy ===== *)
theory Hash_Map_Spec
  imports Hash_Map_Resize
begin

section \<open>The hash map implements a finite map\<close>

text \<open>
  The abstract view of \<open>collections/hash/map.rs\<close>: a map from keys to values. The
  invariant is what every public operation of the source maintains; the
  lemmas show that each operation on a map that satisfies it returns (no loop of the table code
  runs on, no assertion fails, no uninitialised bucket is read), has the result of the
  operation on the abstract map, and keeps the invariant.
\<close>

subsection \<open>Entries\<close>

definition entries_ok :: "('k \<Rightarrow> u64) \<Rightarrow> (safe_hash \<times> 'k \<times> 'v) list \<Rightarrow> bool" where
  "entries_ok hb es \<longleftrightarrow>
     distinct (map (fst \<circ> snd) es) \<and> list_all (\<lambda>(h, k, v). h = make_hash hb k) es"

definition entries_map :: "(safe_hash \<times> 'k \<times> 'v) list \<Rightarrow> 'k \<rightharpoonup> 'v" where
  "entries_map es = map_of (map snd es)"

lemma entries_simps [simp]:
  "entries_map [] = Map.empty"
  "entries_map ((h, k, v) # es) = (entries_map es)(k \<mapsto> v)"
  "entries_ok hb []"
  "entries_ok hb ((h, k, v) # es) \<longleftrightarrow> h = make_hash hb k \<and> entries_map es k = None \<and> entries_ok hb es"
  by (auto simp: entries_map_def entries_ok_def map_of_eq_None_iff image_comp)

lemma entries_map_Some:
  assumes "entries_ok hb es"
  shows "entries_map es k = Some v \<longleftrightarrow> (make_hash hb k, k, v) \<in> set es"
proof -
  have "distinct (map fst (map snd es))" using assms by (simp add: entries_ok_def comp_def)
  then have "entries_map es k = Some v \<longleftrightarrow> (k, v) \<in> snd ` set es"
    unfolding entries_map_def by (simp add: map_of_eq_Some_iff)
  also have "\<dots> \<longleftrightarrow> (make_hash hb k, k, v) \<in> set es"
    using assms by (force simp: entries_ok_def list_all_iff)
  finally show ?thesis .
qed

lemma entries_perm:
  assumes ok: "entries_ok hb es" and eq: "mset es' = mset es"
  shows "entries_ok hb es'" "entries_map es' = entries_map es"
proof -
  have s: "set es' = set es" using eq by (rule mset_eq_setD)
  have "mset (map (fst \<circ> snd) es') = mset (map (fst \<circ> snd) es)" using eq by simp
  then have "distinct (map (fst \<circ> snd) es') = distinct (map (fst \<circ> snd) es)"
    by (rule mset_eq_imp_distinct_iff)
  then show ok': "entries_ok hb es'"
    using ok s by (simp add: entries_ok_def list_all_iff)
  show "entries_map es' = entries_map es"
  proof
    fix k
    have "entries_map es' k = Some v \<longleftrightarrow> entries_map es k = Some v" for v
      using entries_map_Some [OF ok] entries_map_Some [OF ok'] s by simp
    then show "entries_map es' k = entries_map es k" by (metis not_None_eq)
  qed
qed

lemma card_dom_entries:
  assumes "entries_ok hb es"
  shows "card (dom (entries_map es)) = length es"
proof -
  have "dom (entries_map es) = set (map (fst \<circ> snd) es)"
    by (simp add: entries_map_def dom_map_of_conv_image_fst image_comp)
  then show ?thesis using assms distinct_card [of "map (fst \<circ> snd) es"] by (simp add: entries_ok_def)
qed

subsection \<open>Abstraction and invariant\<close>

definition HashMap_abs :: "('k, 'v) hash_map \<Rightarrow> 'k \<rightharpoonup> 'v" where
  "HashMap_abs m = entries_map (full_list (slots (table m)))"

definition HashMap_inv :: "('k, 'v) hash_map \<Rightarrow> bool" where
  "HashMap_inv m \<longleftrightarrow>
     wf_table (table m) \<and> rh (slots (table m)) \<and>
     (slots (table m) = [] \<or> 32 \<le> length (slots (table m))) \<and>
     count_full (slots (table m)) \<le> usable (length (slots (table m))) \<and>
     entries_ok (hash_builder m) (full_list (slots (table m)))"

lemma inv_wf: "HashMap_inv m \<Longrightarrow> wf_table (table m)"
  and inv_rh: "HashMap_inv m \<Longrightarrow> rh (slots (table m))"
  and inv_entries: "HashMap_inv m \<Longrightarrow> entries_ok (hash_builder m) (full_list (slots (table m)))"
  by (simp_all add: HashMap_inv_def)

lemma inv_size:
  assumes "HashMap_inv m" "slots (table m) \<noteq> []"
  shows "count_full (slots (table m)) < length (slots (table m))"
  using assms usable_less [of "length (slots (table m))"] by (simp add: HashMap_inv_def)

lemma abs_iff:
  assumes "HashMap_inv m"
  shows "HashMap_abs m k = Some v \<longleftrightarrow> (HashMap_make_hash m k, k, v) \<in># contents (slots (table m))"
  using entries_map_Some [OF inv_entries [OF assms]]
  by (simp add: HashMap_abs_def HashMap_make_hash_def contents_def)

text \<open>The three ways in which an operation changes the entries.\<close>

lemma inv_abs_same:
  assumes inv: "HashMap_inv m" and t: "wf_table t" "rh (slots t)"
    and c: "contents (slots t) = contents (slots (table m))"
    and len: "slots t = [] \<or> 32 \<le> length (slots t)" "count_full (slots (table m)) \<le> usable (length (slots t))"
  shows "HashMap_inv (m\<lparr>table := t\<rparr>)" "HashMap_abs (m\<lparr>table := t\<rparr>) = HashMap_abs m"
proof -
  have "count_full (slots t) = count_full (slots (table m))"
    using c size_contents [of "slots t"] size_contents [of "slots (table m)"] by simp
  moreover have eq: "mset (full_list (slots t)) = mset (full_list (slots (table m)))"
    using c by (simp add: contents_def)
  ultimately show "HashMap_inv (m\<lparr>table := t\<rparr>)" "HashMap_abs (m\<lparr>table := t\<rparr>) = HashMap_abs m"
    using entries_perm [OF inv_entries [OF inv] eq] t len
    by (simp_all add: HashMap_inv_def HashMap_abs_def)
qed

lemma inv_abs_add:
  assumes inv: "HashMap_inv m" and new: "HashMap_abs m k = None"
    and t: "wf_table t" "rh (slots t)" "length (slots t) = length (slots (table m))"
    and c: "contents (slots t) = add_mset (HashMap_make_hash m k, k, v) (contents (slots (table m)))"
    and room: "count_full (slots (table m)) < usable (length (slots (table m)))"
  shows "HashMap_inv (m\<lparr>table := t\<rparr>)" "HashMap_abs (m\<lparr>table := t\<rparr>) = (HashMap_abs m)(k \<mapsto> v)"
proof -
  let ?es = "(HashMap_make_hash m k, k, v) # full_list (slots (table m))"
  have ok: "entries_ok (hash_builder m) ?es"
    using inv_entries [OF inv] new by (simp add: HashMap_abs_def HashMap_make_hash_def)
  have eq: "mset (full_list (slots t)) = mset ?es" using c by (simp add: contents_def)
  have "count_full (slots t) = Suc (count_full (slots (table m)))"
    using c size_contents [of "slots t"] size_contents [of "slots (table m)"] by simp
  moreover have "slots t = [] \<longleftrightarrow> slots (table m) = []" using t(3) by (metis length_0_conv)
  ultimately show "HashMap_inv (m\<lparr>table := t\<rparr>)" "HashMap_abs (m\<lparr>table := t\<rparr>) = (HashMap_abs m)(k \<mapsto> v)"
    using entries_perm [OF ok eq] inv t room by (simp_all add: HashMap_inv_def HashMap_abs_def)
qed

lemma inv_abs_del:
  assumes inv: "HashMap_inv m"
    and t: "wf_table t" "rh (slots t)" "length (slots t) = length (slots (table m))"
    and c: "contents (slots (table m)) = add_mset (h, k, v) (contents (slots t))"
  shows "HashMap_inv (m\<lparr>table := t\<rparr>)" "HashMap_abs (m\<lparr>table := t\<rparr>) = (HashMap_abs m)(k := None)"
    "HashMap_abs m k = Some v"
proof -
  let ?es = "(h, k, v) # full_list (slots t)"
  have eq: "mset ?es = mset (full_list (slots (table m)))" using c by (simp add: contents_def)
  note p = entries_perm [OF inv_entries [OF inv] eq]
  have "count_full (slots (table m)) = Suc (count_full (slots t))"
    using c size_contents [of "slots t"] size_contents [of "slots (table m)"] by simp
  moreover have "slots t = [] \<longleftrightarrow> slots (table m) = []" using t(3) by (metis length_0_conv)
  ultimately show "HashMap_inv (m\<lparr>table := t\<rparr>)"
    using p(1) inv t by (simp add: HashMap_inv_def)
  show "HashMap_abs (m\<lparr>table := t\<rparr>) = (HashMap_abs m)(k := None)" "HashMap_abs m k = Some v"
    using p by (simp_all add: HashMap_abs_def fun_upd_idem flip: p(2))
qed

subsection \<open>Looking up\<close>

lemma HashMap_search_correct:
  assumes inv: "HashMap_inv m"
  shows "\<exists>r. HashMap_search m k = Inr r \<and>
    (case into_occupied_bucket r of
       None \<Rightarrow> HashMap_abs m k = None
     | Some i \<Rightarrow> unat i < length (slots (table m)) \<and>
         (\<exists>v. HashMap_abs m k = Some v \<and> slots (table m) ! unat i = Some (HashMap_make_hash m k, k, v)))"
proof -
  let ?h = "HashMap_make_hash m k" and ?t = "table m"
  obtain r where r: "search_hashed ?t ?h (\<lambda>k'. k = k') = Inr r"
      "search_post (slots ?t) ?h (\<lambda>k'. k = k') r"
    using search_hashed_correct [OF inv_wf [OF inv] inv_rh [OF inv]] inv_size [OF inv]
      wf_size [OF inv_wf [OF inv]] by metis
  have "case into_occupied_bucket r of
       None \<Rightarrow> HashMap_abs m k = None
     | Some i \<Rightarrow> unat i < length (slots ?t) \<and>
         (\<exists>v. HashMap_abs m k = Some v \<and> slots ?t ! unat i = Some (?h, k, v))"
  proof (cases "into_occupied_bucket r")
    case None
    then have "\<nexists>i. r = Occupied i" by (auto simp: into_occupied_bucket_def)
    then have "(?h, k, v) \<notin># contents (slots ?t)" for v using r(2) by (auto simp: search_post_def)
    then have "HashMap_abs m k = None" using abs_iff [OF inv, of k] by (metis not_None_eq)
    then show ?thesis using None by simp
  next
    case (Some i)
    then have "r = Occupied i" by (cases r) (simp_all add: into_occupied_bucket_def)
    then obtain v where "unat i < length (slots ?t)" "slots ?t ! unat i = Some (?h, k, v)"
      using r(2) by (auto simp: search_post_def)
    moreover from this have "HashMap_abs m k = Some v"
      using abs_iff [OF inv, of k v] by (auto simp: in_contents_nth)
    ultimately show ?thesis using Some by simp
  qed
  then show ?thesis using r(1) by (simp add: HashMap_search_def)
qed

lemma HashMap_get_correct:
  assumes inv: "HashMap_inv m"
  shows "HashMap_get m k = Inr (HashMap_abs m k)"
proof -
  obtain r where r: "HashMap_search m k = Inr r" using HashMap_search_correct [OF inv] by blast
  show ?thesis
    using HashMap_search_correct [OF inv, of k] FullBucket_ops(2) [OF inv_wf [OF inv]] r
    by (cases "into_occupied_bucket r") (auto simp: HashMap_get_def)
qed

lemma HashMap_contains_key_correct:
  assumes inv: "HashMap_inv m"
  shows "HashMap_contains_key m k = Inr (k \<in> dom (HashMap_abs m))"
  using HashMap_search_correct [OF inv, of k]
  by (auto simp: HashMap_contains_key_def split: option.splits)

lemma HashMap_len_correct:
  assumes inv: "HashMap_inv m"
  shows "unat (HashMap_len m) = card (dom (HashMap_abs m))"
proof -
  have "length (full_list (slots (table m))) = count_full (slots (table m))"
    using size_contents [of "slots (table m)"] by (simp add: contents_def)
  then show ?thesis
    using card_dom_entries [OF inv_entries [OF inv]] wf_size [OF inv_wf [OF inv]]
    by (simp add: HashMap_len_def HashMap_abs_def RawTable_size_def)
qed

subsection \<open>Removing and overwriting\<close>

lemma HashMap_remove_correct:
  assumes inv: "HashMap_inv m"
  shows "\<exists>m'. HashMap_remove m k = ret (HashMap_abs m k, m') \<and> HashMap_inv m' \<and>
    HashMap_abs m' = (HashMap_abs m)(k := None) \<and> hash_builder m' = hash_builder m"
proof -
  let ?t = "table m"
  note wf = inv_wf [OF inv] and rh = inv_rh [OF inv]
  obtain r where r: "HashMap_search m k = Inr r" using HashMap_search_correct [OF inv] by blast
  note post = HashMap_search_correct [OF inv, of k, unfolded r]
  show ?thesis
  proof (cases "tsize ?t = 0")
    case True
    then have "HashMap_abs m k = None"
      using HashMap_len_correct [OF inv] wf_size [OF wf] size_contents [of "slots ?t"]
      by (simp add: HashMap_abs_def contents_def)
    moreover from this have "(HashMap_abs m)(k := None) = HashMap_abs m" by (simp add: fun_upd_idem)
    ultimately show ?thesis using True inv by (simp add: HashMap_remove_def RawTable_size_def)
  next
    case False
    show ?thesis
    proof (cases "into_occupied_bucket r")
      case None
      then have "HashMap_abs m k = None" using post by simp
      moreover from this have "(HashMap_abs m)(k := None) = HashMap_abs m" by (simp add: fun_upd_idem)
      ultimately show ?thesis using False inv r None by (simp add: HashMap_remove_def RawTable_size_def)
    next
      case (Some i)
      then obtain v where i: "unat i < length (slots ?t)"
          "slots ?t ! unat i = Some (HashMap_make_hash m k, k, v)"
        using post by auto
      then have "slots ?t \<noteq> []" by auto
      then have size: "unat (tsize ?t) < length (slots ?t)"
        using inv_size [OF inv] wf_size [OF wf] by simp
      obtain t' where t': "pop_internal ?t i = ret (k, v, t')" "wf_table t'" "rh (slots t')"
          "contents (slots ?t) = add_mset (HashMap_make_hash m k, k, v) (contents (slots t'))" "same_shape ?t t'"
        using pop_internal_correct [OF wf rh size i] by auto
      have "length (slots t') = length (slots ?t)" using t'(5) by (simp add: same_shape_def)
      note d = inv_abs_del [OF inv t'(2,3) this t'(4)]
      then show ?thesis using False r Some t'(1)
        by (auto simp: HashMap_remove_def RawTable_size_def intro!: exI [of _ "m\<lparr>table := t'\<rparr>"])
    qed
  qed
qed

text \<open>Writing a value into the bucket of a key.\<close>

lemma inv_abs_write:
  assumes inv: "HashMap_inv m" and i: "unat i < length (slots (table m))"
    and e: "slots (table m) ! unat i = Some (HashMap_make_hash m k, k, v')"
  shows "\<exists>t. FullBucket_write_value (table m) i v = Inr t \<and> HashMap_inv (m\<lparr>table := t\<rparr>) \<and>
    HashMap_abs (m\<lparr>table := t\<rparr>) = (HashMap_abs m)(k \<mapsto> v)"
proof -
  let ?t = "table m" and ?h = "HashMap_make_hash m k"
  let ?u = "poke ?t (unat i) ?h (Some (k, v)) (tsize ?t)"
  let ?del = "(slots ?t)[unat i := None]"
  have u: "FullBucket_write_value ?t i v = Inr ?u" "wf_table ?u" "slots ?u = (slots ?t)[unat i := Some (?h, k, v)]"
    using FullBucket_write_value_ok [OF inv_wf [OF inv] i e] by auto
  have rh: "rh (slots ?u)"
  proof -
    have "height (slots ?u) j = height (slots ?t) j" for j using i e by (simp add: u(3))
    then show ?thesis using inv_rh [OF inv] by (simp add: rh_def u(3))
  qed
  have c1: "contents (slots ?t) = add_mset (?h, k, v') (contents ?del)"
    using contents_take [OF i e] by simp
  have c2: "contents (slots ?u) = add_mset (?h, k, v) (contents ?del)"
    unfolding u(3) using contents_put [of "unat i" ?del "(?h, k, v)"] i by simp
  have p: "mset ((?h, k, v') # full_list ?del) = mset (full_list (slots ?t))"
    "mset (full_list (slots ?u)) = mset ((?h, k, v) # full_list ?del)"
    using c1 c2 by (simp_all add: contents_def)
  note p1 = entries_perm [OF inv_entries [OF inv] p(1)]
  have ok: "entries_ok (hash_builder m) ((?h, k, v) # full_list ?del)" using p1(1) by simp
  note p2 = entries_perm [OF ok p(2)]
  have "count_full (slots ?u) = count_full (slots ?t)"
    using count_full_update [OF i, of "Some (?h, k, v)"] e by (simp add: u(3))
  then have "HashMap_inv (m\<lparr>table := ?u\<rparr>)"
    using inv u(2) rh p2(1) by (auto simp: HashMap_inv_def u(3))
  moreover have "HashMap_abs (m\<lparr>table := ?u\<rparr>) = (HashMap_abs m)(k \<mapsto> v)"
    using p2(2) by (simp add: HashMap_abs_def flip: p1(2))
  ultimately show ?thesis using u(1) by blast
qed

lemma HashMap_get_mut_write_correct:
  assumes inv: "HashMap_inv m"
  shows "\<exists>m'. HashMap_get_mut_write m k v = Inr (k \<in> dom (HashMap_abs m), m') \<and> HashMap_inv m' \<and>
    HashMap_abs m' = (if k \<in> dom (HashMap_abs m) then (HashMap_abs m)(k \<mapsto> v) else HashMap_abs m)"
proof -
  obtain r where r: "HashMap_search m k = Inr r" using HashMap_search_correct [OF inv] by blast
  note post = HashMap_search_correct [OF inv, of k, unfolded r]
  show ?thesis
  proof (cases "into_occupied_bucket r")
    case None
    then show ?thesis using r post inv by (auto simp: HashMap_get_mut_write_def)
  next
    case (Some i)
    then obtain v' where i: "unat i < length (slots (table m))" "HashMap_abs m k = Some v'"
        "slots (table m) ! unat i = Some (HashMap_make_hash m k, k, v')"
      using post by auto
    then show ?thesis using inv_abs_write [OF inv i(1,3), of v] r Some
      by (auto simp: HashMap_get_mut_write_def)
  qed
qed

subsection \<open>Making room\<close>

lemma RawTable_new_panics:
  assumes "RawTable_new ly c = Inl f"
  shows "\<exists>msg. f = Panic msg"
  using assms
  by (auto simp: RawTable_new_def RawTable_new_uninitialized_def calculate_allocation_def calculate_offsets_def
      round_up_to_next_def bindR_def assertR_def expectR_def addP_def subP_def Let_def word_overflowing_add_def
      split: if_splits option.splits sum.splits prod.splits)

text \<open>A memory budget: arrays for \<open>n\<close> buckets fit the address space.\<close>

definition fits :: "usize \<times> usize \<Rightarrow> nat \<Rightarrow> bool" where
  "fits ly n \<longleftrightarrow> (\<exists>a < 64. snd ly = 2 ^ a) \<and> n * (8 + unat (fst ly)) + unat (snd ly) < 2 ^ 64"

lemma fits_mono: "fits ly n \<Longrightarrow> n' \<le> n \<Longrightarrow> fits ly n'"
  unfolding fits_def by (meson add_le_mono1 mult_le_mono1 le_less_trans)

text \<open>\<open>round_up_to_next\<close> returns the least multiple of the alignment that is not smaller.\<close>

lemma round_up_to_next_ok:
  assumes a: "a < 64" "al = 2 ^ a" and fit: "unat x + unat al < 2 ^ 64"
  shows "\<exists>r. round_up_to_next x al = Inr r \<and> unat x \<le> unat r \<and> unat r < unat x + unat al \<and>
    unat al dvd unat r"
proof -
  have ua: "unat al = 2 ^ a" using a by (simp add: unat_pow2)
  then have apos: "0 < unat al" by simp
  have p2: "word_is_power_of_two al" using a by (simp add: word_is_power_of_two_exp)
  have f: "unat x + unat al < 2 ^ LENGTH(64)" using fit by simp
  have us: "unat (x + al) = unat x + unat al" using unat_add_small [OF f] .
  have one: "unat (1 :: usize) \<le> unat (x + al)" "unat (1 :: usize) \<le> unat al" using us apos by simp_all
  let ?y = "x + al - 1"
  have uy: "unat ?y = unat x + unat al - 1"
    using unat_sub_small [of 1 "x + al"] one(1) us by (simp add: word_le_nat_alt)
  have "al - 1 = mask a" using a by (simp add: mask_eq_exp_minus_1)
  then have r: "round_up_to_next x al = Inr (?y AND NOT (mask a))"
    using p2 addP_ok [OF f] subP_ok [OF one(1)] subP_ok [OF one(2)] by (simp add: round_up_to_next_def)
  have ur: "unat (?y AND NOT (mask a)) = unat ?y - unat ?y mod 2 ^ a" by (rule unat_and_not_mask)
  have "unat ?y mod 2 ^ a < 2 ^ a" by simp
  then have b: "unat x \<le> unat ?y - unat ?y mod 2 ^ a" "unat ?y - unat ?y mod 2 ^ a < unat x + unat al"
    using uy ua apos by linarith+
  moreover have "2 ^ a dvd unat ?y - unat ?y mod 2 ^ a" by (rule dvd_minus_mod)
  ultimately show ?thesis using r ur ua by auto
qed

lemma RawTable_new_fits:
  assumes fit: "fits ly (unat c)"
  shows "\<exists>t. RawTable_new ly c = Inr t"
proof (cases "c = 0")
  case True
  then show ?thesis using RawTable_new_0 by simp
next
  case False
  obtain sz al where ly: "ly = (sz, al)" by (cases ly)
  obtain a where a: "a < 64" "al = 2 ^ a" using fit ly by (auto simp: fits_def)
  have total: "unat c * 8 + unat c * unat sz + unat al < 2 ^ 64"
    using fit ly by (simp add: fits_def algebra_simps)
  have u8: "unat (c * 8) = unat c * 8" using total by (simp add: unat_mult_small)
  have us: "unat (c * sz) = unat c * unat sz" using total by (simp add: unat_mult_small)
  have "unat (c * 8) + unat al < 2 ^ 64" using total u8 by simp
  then obtain r where r: "round_up_to_next (c * 8) al = Inr r" "unat (c * 8) \<le> unat r"
      "unat r < unat (c * 8) + unat al"
    using round_up_to_next_ok [OF a] by blast
  have sum: "unat r + unat (c * sz) < 2 ^ 64" using r(3) total u8 us by simp
  then have usum: "unat (r + c * sz) = unat r + unat (c * sz)" by (simp add: unat_add_small)
  have "0 < unat c" using False by (metis unat_gt_0)
  then have "unat sz \<le> unat c * unat sz" "8 \<le> unat c * 8" by simp_all
  then have "8 + unat sz < 2 ^ 64" using total by linarith
  then have f8: "unat (8 :: usize) + unat sz < 2 ^ LENGTH(64)" by simp
  have ub: "unat (8 + sz) = 8 + unat sz" using unat_add_small [OF f8] by simp
  have prod: "unat c * unat (8 + sz) = unat c * 8 + unat c * unat sz" unfolding ub by (rule distrib_left)
  then have needed: "unat c * unat (8 + sz) < 2 ^ LENGTH(64)" using total by simp
  have "unat (c * (8 + sz)) \<le> unat (r + c * sz)"
    unfolding unat_mult_small [OF needed] prod usum us using r(2) unfolding u8 by simp
  then have le: "c * (8 + sz) \<le> r + c * sz" by (simp add: word_le_nat_alt)
  have "word_checked_add 8 sz = Some (8 + sz)" "word_checked_mul c (8 + sz) = Some (c * (8 + sz))"
    using f8 needed by (simp_all add: word_checked_add_def word_checked_mul_def)
  then show ?thesis using False ly r(1) sum le
    by (simp add: RawTable_new_def RawTable_new_uninitialized_def calculate_allocation_def
        calculate_offsets_def word_overflowing_add_def Let_def)
qed

text \<open>
  \<open>reserve\<close> either panics, and only when the map would not fit its budget, or it returns the
  same map with room for the additional entries.
\<close>

abbreviation len_nat :: "('k, 'v) hash_map \<Rightarrow> nat" where
  "len_nat m \<equiv> count_full (slots (table m))"

definition reserve_budget :: "('k, 'v) hash_map \<Rightarrow> nat \<Rightarrow> bool" where
  "reserve_budget m a \<longleftrightarrow> fits (kv_layout (table m)) (32 + 5 * (len_nat m + a))"

lemma fits_bound:
  assumes "fits ly n"
  shows "n < 2 ^ 61"
proof -
  have "n * 8 \<le> n * (8 + unat (fst ly))" by simp
  then have "n * 8 < 2 ^ 64" using assms unfolding fits_def by linarith
  then show ?thesis by simp
qed

lemma policy_raw_capacity_upper:
  assumes "policy_raw_capacity len = Inr c"
  shows "unat c \<le> 32 + 3 * unat len"
proof (cases "len = 0")
  case True
  then show ?thesis using assms by (simp add: policy_raw_capacity_def)
next
  case False
  obtain d where le: "len \<le> len * 11 div 10" and d: "word_checked_next_power_of_two (len * 11 div 10) = Some d"
    and c: "c = max 32 d"
    using assms False by (auto simp: policy_raw_capacity_def Let_def bindR_eq_Inr)
  have u: "unat (len * 11 div 10) = unat len * 11 div 10"
    using raw_cap_no_wrap [OF le] by (simp add: unat_div_distrib unat_mult_small)
  obtain n where n: "n < 64" "d = 2 ^ n" "\<forall>j < n. \<not> unat len * 11 div 10 \<le> 2 ^ j"
    using d by (auto simp: word_checked_next_power_of_two_def find_Some_iff u)
  have "unat d \<le> 1 + 3 * unat len"
  proof (cases n)
    case 0
    then show ?thesis using n by simp
  next
    case (Suc j)
    then have "2 ^ j < unat len * 11 div 10" using n(3) by (simp add: not_le)
    then have "2 * 2 ^ j \<le> 3 * unat len" by linarith
    moreover have "unat d = 2 * 2 ^ j" using n(1,2) unat_pow2 [of n, where 'a = 64] Suc by simp
    ultimately show ?thesis by simp
  qed
  then show ?thesis using c by (simp add: max_def)
qed

lemma HashMap_grow_correct:
  fixes m :: "('k, 'v) hash_map"
  assumes inv: "HashMap_inv m" and c: "c = 2 ^ n" "n < 64" "32 \<le> unat c"
    and le: "length (slots (table m)) \<le> unat c"
  shows "(\<exists>msg. HashMap_resize m c = Some (Inl (Panic msg)) \<and> \<not> fits (kv_layout (table m)) (unat c)) \<or>
    (\<exists>m'. HashMap_resize m c = ret m' \<and> HashMap_inv m' \<and> HashMap_abs m' = HashMap_abs m \<and>
      hash_builder m' = hash_builder m \<and> kv_layout (table m') = kv_layout (table m) \<and>
      length (slots (table m')) = unat c \<and> len_nat m' = len_nat m)"
proof -
  note r = HashMap_resize_correct [OF inv_wf [OF inv] inv_rh [OF inv] inv_size [OF inv] c(1,2) le]
  show ?thesis
  proof (cases "RawTable_new (kv_layout (table m)) c :: ('k, 'v) raw_table res")
    case (Inl f)
    then show ?thesis using r RawTable_new_panics [OF Inl] 
      RawTable_new_fits [of "kv_layout (table m)" c, where 'a = 'k and 'b = 'v] by auto
  next
    case (Inr t0)
    then obtain t' where t': "HashMap_resize m c = ret (m\<lparr>table := t'\<rparr>)" "wf_table t'" "rh (slots t')"
        "contents (slots t') = contents (slots (table m))" "length (slots t') = unat c"
        "kv_layout t' = kv_layout (table m)"
      using r by auto
    have room: "len_nat m \<le> usable (length (slots t'))"
      using inv le unfolding t'(5) HashMap_inv_def usable_def by (auto intro: order_trans)
    have "count_full (slots t') = len_nat m"
      using t'(4) size_contents [of "slots t'"] size_contents [of "slots (table m)"] by simp
    then show ?thesis using t' inv_abs_same [OF inv t'(2-4) _ room] c(3)
      by (intro disjI2 exI [of _ "m\<lparr>table := t'\<rparr>"]) simp
  qed
qed

lemma HashMap_resize_0:
  fixes m :: "('k, 'v) hash_map"
  assumes inv: "HashMap_inv m" and e: "slots (table m) = []"
  shows "\<exists>m'. HashMap_resize m 0 = ret m' \<and> HashMap_inv m' \<and> HashMap_abs m' = HashMap_abs m \<and>
    hash_builder m' = hash_builder m \<and> kv_layout (table m') = kv_layout (table m) \<and>
    slots (table m') = []"
proof -
  obtain t :: "('k, 'v) raw_table" where t: "RawTable_new (kv_layout (table m)) 0 = Inr t"
    using RawTable_new_0 by blast
  have w: "wf_table t" "slots t = []" using RawTable_new_wf [OF t] by simp_all
  have z: "tsize (table m) = 0" using wf_size [OF inv_wf [OF inv]] e by (simp add: unat_eq_zero)
  have "rh (slots t)" using w(2) by (simp add: rh_def)
  then have "HashMap_inv (m\<lparr>table := t\<rparr>)" "HashMap_abs (m\<lparr>table := t\<rparr>) = HashMap_abs m"
    using inv_abs_same [OF inv w(1)] w(2) e by simp_all
  moreover have "HashMap_resize m 0 = ret (m\<lparr>table := t\<rparr>)"
    using z t by (simp add: HashMap_resize_def RawTable_size_def)
  ultimately show ?thesis using RawTable_new_Inr [OF t] w by simp
qed

lemma HashMap_reserve_correct:
  assumes inv: "HashMap_inv m"
  shows "(\<exists>msg. HashMap_reserve m a = Some (Inl (Panic msg)) \<and> \<not> reserve_budget m (unat a)) \<or>
    (\<exists>m'. HashMap_reserve m a = ret m' \<and> HashMap_inv m' \<and> HashMap_abs m' = HashMap_abs m \<and>
      hash_builder m' = hash_builder m \<and> kv_layout (table m') = kv_layout (table m) \<and>
      len_nat m' = len_nat m \<and> len_nat m + unat a \<le> usable (length (slots (table m'))))"
proof -
  let ?t = "table m" and ?N = "length (slots (table m))"
  note wf = inv_wf [OF inv]
  have len: "unat (HashMap_len m) = len_nat m" using wf_size [OF wf] by (simp add: HashMap_len_def RawTable_size_def)
  have cap: "unat (RawTable_capacity ?t) = ?N" by (rule wf_capacity_eq [OF wf])
  obtain d where d: "HashMap_capacity m = Inr d" "unat d = usable ?N"
    using policy_capacity_ok [of "RawTable_capacity ?t"] slots_bound [OF wf] cap
    by (auto simp: HashMap_capacity_def HashMap_raw_capacity_def)
  have le: "unat (HashMap_len m) \<le> unat d" using inv len d by (simp add: HashMap_inv_def)
  let ?rem = "d - HashMap_len m"
  have rem: "subP d (HashMap_len m) = Inr ?rem" "unat ?rem = usable ?N - len_nat m"
    using subP_ok [OF le] le unat_sub_small [of "HashMap_len m" d] d len by (simp_all add: word_le_nat_alt)
  consider (grow) "?rem < a" | (adapt) "\<not> ?rem < a" "RawTable_tag ?t" "?rem \<le> HashMap_len m"
    | (keep) "\<not> ?rem < a" "\<not> (RawTable_tag ?t \<and> ?rem \<le> HashMap_len m)" by blast
  then show ?thesis
  proof cases
    case grow
    then have more: "usable ?N < len_nat m + unat a" using rem le d len by (simp add: word_less_nat_alt)
    show ?thesis
    proof (cases "word_checked_add (HashMap_len m) a")
      case None
      then have "\<not> reserve_budget m (unat a)"
        using len fits_bound [of "kv_layout ?t"] by (fastforce simp: word_checked_add_None reserve_budget_def)
      then show ?thesis using grow d rem None by (simp add: HashMap_reserve_def)
    next
      case (Some l)
      then have l: "unat l = len_nat m + unat a" using len by (simp add: word_checked_add_Some)
      then have l0: "l \<noteq> 0" using more by (auto simp: unat_eq_zero)
      show ?thesis
      proof (cases "policy_raw_capacity l")
        case (Inl f)
        then have "\<not> unat l * 11 \<le> 2 ^ 63" using policy_raw_capacity_ok [of l] by auto
        then have "\<not> reserve_budget m (unat a)"
          using l fits_bound [of "kv_layout ?t"] by (fastforce simp: reserve_budget_def)
        then show ?thesis using grow d rem Some Inl policy_raw_capacity_panics [OF Inl]
          by (auto simp: HashMap_reserve_def)
      next
        case (Inr c)
        obtain n where n: "n < 64" "c = 2 ^ n" "32 \<le> unat c" "unat l * 11 div 10 \<le> unat c"
          using policy_raw_capacity_Inr [OF Inr l0] .
        have big: "?N < unat c" using usable_grow [OF more] n(4) l by simp
        have "unat c \<le> 32 + 5 * (len_nat m + unat a)" using policy_raw_capacity_upper [OF Inr] l by simp
        then have "\<not> fits (kv_layout ?t) (unat c) \<Longrightarrow> \<not> reserve_budget m (unat a)"
          unfolding reserve_budget_def using fits_mono by blast
        moreover have "len_nat m + unat a \<le> usable (unat c)" using n(4) l by (simp add: usable_def)
        moreover have "HashMap_reserve m a = HashMap_resize m c"
          using grow d rem Some Inr by (simp add: HashMap_reserve_def)
        ultimately show ?thesis
          using HashMap_grow_correct [OF inv n(2,1,3)] big by auto
      qed
    qed
  next
    case adapt
    then have half: "usable ?N \<le> 2 * len_nat m" using rem len by (simp add: word_le_nat_alt)
    have room: "len_nat m + unat a \<le> usable ?N"
      using adapt(1) rem(2) le d len by (simp add: word_less_nat_alt)
    show ?thesis
    proof (cases "slots ?t = []")
      case True
      then have c: "RawTable_capacity ?t = 0" using wf_capacity_0 [OF wf] by simp
      then have "HashMap_reserve m a = HashMap_resize m 0"
        using adapt d rem mulP_ok [of "0 :: usize" 2] by (simp add: HashMap_reserve_def)
      then show ?thesis using HashMap_resize_0 [OF inv True] room True by auto
    next
      case False
      then obtain n where n: "n < 61" "?N = 2 ^ n" using wf_capacity [OF wf] by metis
      have fit: "unat (RawTable_capacity ?t) * unat (2 :: usize) < 2 ^ LENGTH(64)"
        using cap slots_bound [OF wf] by simp
      let ?c = "RawTable_capacity ?t * 2"
      have uc: "unat ?c = ?N * 2" using unat_mult_small [OF fit] cap by simp
      then have c: "?c = 2 ^ Suc n" "Suc n < 64" "32 \<le> unat ?c"
        using n False inv unat_pow2 [of "Suc n", where 'a = 64]
        by (auto simp: unat_eq_iff HashMap_inv_def)
      have "HashMap_reserve m a = HashMap_resize m ?c"
        using adapt d rem mulP_ok [OF fit] by (simp add: HashMap_reserve_def)
      moreover have "unat ?c \<le> 32 + 5 * (len_nat m + unat a)" using half uc by (simp add: usable_def)
      then have "\<not> fits (kv_layout ?t) (unat ?c) \<Longrightarrow> \<not> reserve_budget m (unat a)"
        unfolding reserve_budget_def using fits_mono by blast
      moreover have "len_nat m + unat a \<le> usable (unat ?c)" using room uc by (simp add: usable_def)
      ultimately show ?thesis using HashMap_grow_correct [OF inv c] uc by auto
    qed
  next
    case keep
    then have "HashMap_reserve m a = ret m" using d rem by (auto simp: HashMap_reserve_def)
    moreover have "len_nat m + unat a \<le> usable ?N"
      using keep(1) rem(2) le d len by (simp add: word_less_nat_alt)
    ultimately show ?thesis using inv by blast
  qed
qed

subsection \<open>Inserting\<close>

lemma insert_hashed_nocheck_correct:
  assumes inv: "HashMap_inv m" and room: "len_nat m < usable (length (slots (table m)))"
  shows "\<exists>m'. insert_hashed_nocheck m (HashMap_make_hash m k) k v = ret (HashMap_abs m k, m') \<and>
    HashMap_inv m' \<and> HashMap_abs m' = (HashMap_abs m)(k \<mapsto> v) \<and> hash_builder m' = hash_builder m \<and>
    kv_layout (table m') = kv_layout (table m) \<and> length (slots (table m')) = length (slots (table m))"
proof -
  let ?t = "table m" and ?h = "HashMap_make_hash m k"
  note wf = inv_wf [OF inv] and rh = inv_rh [OF inv]
  have ne: "slots ?t \<noteq> []" using room by (auto simp: usable_def)
  obtain r where r: "search_hashed ?t ?h (\<lambda>key. key = k) = Inr r" "search_post (slots ?t) ?h (\<lambda>key. key = k) r"
    using search_hashed_correct [OF wf rh, of ?h "\<lambda>key. key = k"] inv_size [OF inv] wf_size [OF wf] by auto
  have absent: "HashMap_abs m k = None" if "\<nexists>i. r = Occupied i"
  proof -
    have "(?h, k, v) \<notin># contents (slots ?t)" for v using r(2) that by (auto simp: search_post_def)
    then show ?thesis using abs_iff [OF inv, of k] by (metis not_None_eq)
  qed
  show ?thesis
  proof (cases r)
    case (Occupied i)
    then obtain v' where i: "unat i < length (slots ?t)" "slots ?t ! unat i = Some (?h, k, v')"
      using r(2) by (auto simp: search_post_def)
    have "HashMap_abs m k = Some v'" using abs_iff [OF inv, of k v'] i by (auto simp: in_contents_nth)
    moreover obtain u where u: "FullBucket_write_value ?t i v = Inr u" "HashMap_inv (m\<lparr>table := u\<rparr>)"
        "HashMap_abs (m\<lparr>table := u\<rparr>) = (HashMap_abs m)(k \<mapsto> v)"
      using inv_abs_write [OF inv i, of v] by blast
    moreover have "kv_layout u = kv_layout ?t" "length (slots u) = length (slots ?t)"
      using FullBucket_write_value_ok [OF wf i, of v] u(1) by force+
    ultimately show ?thesis using r(1) Occupied FullBucket_ops(2) [OF wf i]
      by (intro exI [of _ "m\<lparr>table := u\<rparr>"]) (simp add: insert_hashed_nocheck_def OccupiedEntry_insert_def)
  next
    case (Vacant h elem)
    then have none: "HashMap_abs m k = None" using absent by simp
    have "search_post (slots ?t) ?h (\<lambda>key. key = k) (Vacant h elem)" using r(2) Vacant by simp
    moreover have "?h \<noteq> EMPTY_BUCKET" by (simp add: HashMap_make_hash_def)
    ultimately obtain u b where u: "h = ?h" "VacantEntry_insert ?t ?h k elem v = ret (u, b)" "wf_table u"
        "rh (slots u)" "contents (slots u) = add_mset (?h, k, v) (contents (slots ?t))" "same_shape ?t u"
      using VacantEntry_insert_correct [OF wf rh inv_size [OF inv ne]] by blast
    then have len: "length (slots u) = length (slots ?t)" "kv_layout u = kv_layout ?t"
      by (simp_all add: same_shape_def)
    show ?thesis
      using r(1) Vacant u none len inv_abs_add [OF inv none u(3,4) len(1) u(5) room]
      by (intro exI [of _ "m\<lparr>table := u\<rparr>"]) (simp add: insert_hashed_nocheck_def)
  next
    case TableIsEmpty
    then show ?thesis using r(2) ne by (simp add: search_post_def)
  qed
qed

lemma HashMap_insert_correct:
  assumes inv: "HashMap_inv m"
  shows "(\<exists>msg. HashMap_insert m k v = Some (Inl (Panic msg)) \<and> \<not> reserve_budget m 1) \<or>
    (\<exists>m'. HashMap_insert m k v = ret (HashMap_abs m k, m') \<and> HashMap_inv m' \<and>
      HashMap_abs m' = (HashMap_abs m)(k \<mapsto> v) \<and> hash_builder m' = hash_builder m \<and>
      kv_layout (table m') = kv_layout (table m))"
proof -
  consider (panic) msg where "HashMap_reserve m 1 = Some (Inl (Panic msg))" "\<not> reserve_budget m 1"
    | (ok) m1 where "HashMap_reserve m 1 = ret m1" "HashMap_inv m1" "HashMap_abs m1 = HashMap_abs m"
        "hash_builder m1 = hash_builder m" "kv_layout (table m1) = kv_layout (table m)"
        "len_nat m1 < usable (length (slots (table m1)))"
    using HashMap_reserve_correct [OF inv, of 1] by auto
  then show ?thesis
  proof cases
    case panic
    then show ?thesis by (simp add: HashMap_insert_def Let_def)
  next
    case ok
    have "HashMap_make_hash m1 k = HashMap_make_hash m k" using ok(4) by (simp add: HashMap_make_hash_def)
    then show ?thesis using insert_hashed_nocheck_correct [OF ok(2,6), of k v] ok
      by (auto simp: HashMap_insert_def Let_def)
  qed
qed

text \<open>New maps.\<close>

lemma HashMap_with_hasher_correct:
  "\<exists>m. HashMap_with_hasher ly hb = Inr m \<and> HashMap_inv m \<and> HashMap_abs m = Map.empty \<and>
     hash_builder m = hb \<and> kv_layout (table m) = ly"
proof -
  obtain t :: "('a, 'b) raw_table" where t: "RawTable_new ly 0 = Inr t" using RawTable_new_0 by blast
  have "wf_table t" "slots t = []" using RawTable_new_wf [OF t] by simp_all
  moreover from this have "rh (slots t)" by (simp add: rh_def)
  ultimately show ?thesis using t RawTable_new_Inr [OF t]
    by (simp add: HashMap_with_hasher_def HashMap_inv_def HashMap_abs_def)
qed

lemma full_list_replicate [simp]: "full_list (replicate n None) = []"
  by (induction n) simp_all

lemma HashMap_with_capacity_correct:
  assumes "HashMap_with_capacity_and_hasher ly cap hb = Inr m"
  shows "HashMap_inv m \<and> HashMap_abs m = Map.empty \<and> hash_builder m = hb \<and>
    (\<exists>c. HashMap_capacity m = Inr c \<and> cap \<le> c)"
proof -
  obtain c t where c: "policy_raw_capacity cap = Inr c" and t: "RawTable_new ly c = Inr t"
    and m: "m = \<lparr>hash_builder = hb, table = t\<rparr>"
    using assms by (auto simp: HashMap_with_capacity_and_hasher_def bindR_eq_Inr)
  have pow: "c = 0 \<and> cap = 0 \<or> (\<exists>n < 64. c = 2 ^ n) \<and> 32 \<le> unat c \<and> unat cap * 11 div 10 \<le> unat c"
  proof (cases "cap = 0")
    case True
    then show ?thesis using c by (simp add: policy_raw_capacity_def)
  next
    case False
    then show ?thesis using policy_raw_capacity_Inr [OF c False] by metis
  qed
  then have "wf_table t" "slots t = replicate (unat c) None" using RawTable_new_wf [OF t] by auto
  then have inv: "HashMap_inv m" "HashMap_abs m = Map.empty"
    using pow by (auto simp: m HashMap_inv_def HashMap_abs_def)
  obtain d where d: "HashMap_capacity m = Inr d" "unat d = usable (unat c)"
    using policy_capacity_ok [of "RawTable_capacity t"] slots_bound [OF \<open>wf_table t\<close>]
      wf_capacity_eq [OF \<open>wf_table t\<close>] \<open>slots t = _\<close>
    by (auto simp: m HashMap_capacity_def HashMap_raw_capacity_def)
  have "unat cap \<le> usable (unat c)" using pow by (auto simp: usable_def)
  then show ?thesis using inv d m by (simp add: word_le_nat_alt)
qed

end
