(* ===== verification/Map_Interface.thy ===== *)
theory Map_Interface
  imports Rust_Base
begin

section \<open>The contract of a map\<close>

text \<open>
  What the collections promise their clients, independent of the representation: a lookup, an
  insertion that returns the old value, and a removal, over an abstract map. An operation that
  has to allocate may panic, but only when a memory budget is exceeded. From these laws alone
  the locale proves that every sequence of operations has the results of the abstract map, and
  what the set built from a map with unit values does. The hash map interprets it.
\<close>

datatype ('k, 'v) map_op = Get 'k | Insert 'k 'v | Remove 'k

text \<open>The abstract map under a sequence of operations, with the value each one returns.\<close>

fun spec_ops :: "('k \<rightharpoonup> 'v) \<Rightarrow> ('k, 'v) map_op list \<Rightarrow> 'v option list \<times> ('k \<rightharpoonup> 'v)" where
  "spec_ops f [] = ([], f)"
| "spec_ops f (Get k # ops) = (let (rs, g) = spec_ops f ops in (f k # rs, g))"
| "spec_ops f (Insert k v # ops) = (let (rs, g) = spec_ops (f(k \<mapsto> v)) ops in (f k # rs, g))"
| "spec_ops f (Remove k # ops) = (let (rs, g) = spec_ops (f(k := None)) ops in (f k # rs, g))"

text \<open>A program that runs the operations one after the other, and stops at the first panic.\<close>

fun run_ops ::
    "('m \<Rightarrow> 'k \<Rightarrow> 'v option res) \<Rightarrow> ('m \<Rightarrow> 'k \<Rightarrow> 'v \<Rightarrow> ('v option \<times> 'm) run) \<Rightarrow>
     ('m \<Rightarrow> 'k \<Rightarrow> ('v option \<times> 'm) run) \<Rightarrow> 'm \<Rightarrow> ('k, 'v) map_op list \<Rightarrow> ('v option list \<times> 'm) run" where
  "run_ops get ins del m [] = ret ([], m)"
| "run_ops get ins del m (Get k # ops) =
     bindO (Some (get m k)) (\<lambda>r.
     bindO (run_ops get ins del m ops) (\<lambda>(rs, m). ret (r # rs, m)))"
| "run_ops get ins del m (Insert k v # ops) =
     bindO (ins m k v) (\<lambda>(r, m).
     bindO (run_ops get ins del m ops) (\<lambda>(rs, m). ret (r # rs, m)))"
| "run_ops get ins del m (Remove k # ops) =
     bindO (del m k) (\<lambda>(r, m).
     bindO (run_ops get ins del m ops) (\<lambda>(rs, m). ret (r # rs, m)))"

locale fallible_map =
  fixes inv :: "'m \<Rightarrow> bool"
    and abs :: "'m \<Rightarrow> 'k \<Rightarrow> 'v option"
    and budget :: "'m \<Rightarrow> bool"
    and get :: "'m \<Rightarrow> 'k \<Rightarrow> 'v option res"
    and ins :: "'m \<Rightarrow> 'k \<Rightarrow> 'v \<Rightarrow> ('v option \<times> 'm) run"
    and del :: "'m \<Rightarrow> 'k \<Rightarrow> ('v option \<times> 'm) run"
  assumes get_law: "inv m \<Longrightarrow> get m k = Inr (abs m k)"
    and ins_law: "inv m \<Longrightarrow>
      (\<exists>msg. ins m k v = Some (Inl (Panic msg)) \<and> \<not> budget m) \<or>
      (\<exists>m'. ins m k v = ret (abs m k, m') \<and> inv m' \<and> abs m' = (abs m)(k \<mapsto> v))"
    and del_law: "inv m \<Longrightarrow>
      \<exists>m'. del m k = ret (abs m k, m') \<and> inv m' \<and> abs m' = (abs m)(k := None)"
begin

lemma ins_result:
  assumes "inv m" "ins m k v = ret (old, m')"
  shows "old = abs m k" "inv m'" "abs m' = (abs m)(k \<mapsto> v)"
  using ins_law [OF assms(1), of k v] assms(2) by auto

lemma ins_budget:
  assumes "inv m" "budget m"
  shows "\<exists>m'. ins m k v = ret (abs m k, m') \<and> inv m' \<and> abs m' = (abs m)(k \<mapsto> v)"
  using ins_law [OF assms(1), of k v] assms(2) by auto

lemma get_after_ins:
  assumes "inv m" "ins m k v = ret (old, m')"
  shows "get m' j = Inr (if j = k then Some v else abs m j)"
  using get_law [OF ins_result(2) [OF assms]] ins_result(3) [OF assms] by simp

lemma get_after_del:
  assumes "inv m" "del m k = ret (old, m')"
  shows "get m' j = Inr (if j = k then None else abs m j)"
  using get_law del_law [OF assms(1), of k] assms(2) by auto

text \<open>An operation has the result of the abstract map, or it is an insertion that exceeds the budget.\<close>

lemma run_ops_step:
  assumes "inv m"
  shows "(\<exists>k v msg. op = Insert k v \<and> ins m k v = Some (Inl (Panic msg)) \<and> \<not> budget m) \<or>
    (\<exists>r m'. inv m' \<and> (\<forall>rest.
       run_ops get ins del m (op # rest) = bindO (run_ops get ins del m' rest) (\<lambda>(rs, m). ret (r # rs, m)) \<and>
       spec_ops (abs m) (op # rest) = (r # fst (spec_ops (abs m') rest), snd (spec_ops (abs m') rest))))"
proof (cases op)
  case (Get k)
  then show ?thesis using assms get_law [OF assms, of k]
    by (intro disjI2 exI [of _ "abs m k"] exI [of _ m]) (simp add: case_prod_unfold Let_def)
next
  case (Insert k v)
  consider msg where "ins m k v = Some (Inl (Panic msg))" "\<not> budget m"
    | m' where "ins m k v = ret (abs m k, m')" "inv m'" "abs m' = (abs m)(k \<mapsto> v)"
    using ins_law [OF assms, of k v] by blast
  then show ?thesis
  proof cases
    case (2 m')
    then show ?thesis using Insert
      by (intro disjI2 exI [of _ "abs m k"] exI [of _ m']) (simp add: case_prod_unfold Let_def fun_upd_def)
  qed (use Insert in blast)
next
  case (Remove k)
  then obtain m' where "del m k = ret (abs m k, m')" "inv m'" "abs m' = (abs m)(k := None)"
    using del_law [OF assms] by blast
  then show ?thesis using Remove
    by (intro disjI2 exI [of _ "abs m k"] exI [of _ m']) (simp add: case_prod_unfold Let_def fun_upd_def)
qed

text \<open>
  Every program over the map has the results of the abstract map, or it stops at an insertion that exceeds the budget of
  the map that it has by then, and all earlier results are those of the abstract map.
\<close>

lemma run_ops_refines:
  assumes "inv m"
  shows "(\<exists>m'. run_ops get ins del m ops = ret (fst (spec_ops (abs m) ops), m') \<and> inv m' \<and>
       abs m' = snd (spec_ops (abs m) ops)) \<or>
    (\<exists>ops1 k v rest m' msg. ops = ops1 @ Insert k v # rest \<and>
       run_ops get ins del m ops1 = ret (fst (spec_ops (abs m) ops1), m') \<and> inv m' \<and>
       abs m' = snd (spec_ops (abs m) ops1) \<and> \<not> budget m' \<and>
       ins m' k v = Some (Inl (Panic msg)) \<and> run_ops get ins del m ops = Some (Inl (Panic msg)))"
  using assms
proof (induction ops arbitrary: m)
  case (Cons op ops)
  from run_ops_step [OF Cons.prems, of op] show ?case
  proof (elim disjE exE conjE)
    fix k v msg assume "op = Insert k v" "ins m k v = Some (Inl (Panic msg))" "\<not> budget m"
    then show ?thesis using Cons.prems
      by (intro disjI2 exI [of _ "[]"] exI [of _ k] exI [of _ v] exI [of _ ops] exI [of _ m] exI [of _ msg]) simp
  next
    fix r m1 assume m1: "inv m1" and eq: "\<forall>rest.
      run_ops get ins del m (op # rest) = bindO (run_ops get ins del m1 rest) (\<lambda>(rs, m). ret (r # rs, m)) \<and>
      spec_ops (abs m) (op # rest) = (r # fst (spec_ops (abs m1) rest), snd (spec_ops (abs m1) rest))"
    from Cons.IH [OF m1] show ?thesis
    proof (elim disjE exE conjE)
      fix m' assume "run_ops get ins del m1 ops = ret (fst (spec_ops (abs m1) ops), m')" "inv m'" "abs m' = snd (spec_ops (abs m1) ops)"
      then show ?thesis using eq by (intro disjI1) (simp del: run_ops.simps spec_ops.simps)
    next
      fix ops1 k v rest m' msg
      assume "ops = ops1 @ Insert k v # rest" "run_ops get ins del m1 ops1 = ret (fst (spec_ops (abs m1) ops1), m')" "inv m'"
        "abs m' = snd (spec_ops (abs m1) ops1)" "\<not> budget m'" "ins m' k v = Some (Inl (Panic msg))"
        "run_ops get ins del m1 ops = Some (Inl (Panic msg))"
      then show ?thesis using eq
        by (intro disjI2 exI [of _ "op # ops1"] exI [of _ k] exI [of _ v] exI [of _ rest] exI [of _ m'] exI [of _ msg])
          (simp del: run_ops.simps spec_ops.simps)
    qed
  qed
qed simp

end

end
