(* ===== verification/Hash_Map_Api.thy ===== *)
theory Hash_Map_Api
  imports Hash_Map_Spec Map_Interface
begin

section \<open>\<open>collections/hash/map.rs\<close>: entries, bulk operations, the map as an interface\<close>

text \<open>
  The operations of \<open>src/collections/hash/map.rs\<close> that are built from the core ones: the entry
  interface, \<open>shrink_to_fit\<close>, \<open>extend\<close> and \<open>from_iter\<close>, comparison and
  indexing. An entry is the bucket or the vacant place that the search found; the reference that
  \<open>or_insert\<close> returns is the bucket it points to. The second half states the contract of a map
  as a locale, proves what follows from it alone, and interprets it on the hash map.
\<close>

subsection \<open>Entries\<close>

datatype 'k Entry = OccupiedEntry "'k option" usize | VacantEntry safe_hash 'k VacantEntryState

definition into_entry :: "InternalEntry \<Rightarrow> 'k \<Rightarrow> 'k Entry option" where
  "into_entry e key =
     (case e of
        Occupied elem \<Rightarrow> Some (OccupiedEntry (Some key) elem)
      | Vacant hash elem \<Rightarrow> Some (VacantEntry hash key elem)
      | TableIsEmpty \<Rightarrow> None)"

definition HashMap_entry :: "('k, 'v) hash_map \<Rightarrow> 'k \<Rightarrow> ('k Entry \<times> ('k, 'v) hash_map) run" where
  "HashMap_entry self key =
     bindO (HashMap_reserve self 1) (\<lambda>self.
     let hash = HashMap_make_hash self key in
     bindO (Some (search_hashed (table self) hash (\<lambda>q. q = key))) (\<lambda>e.
     bindO (Some (expectR ''unreachable'' (into_entry e key))) (\<lambda>entry.
     ret (entry, self))))"

definition OccupiedEntry_get :: "('k, 'v) raw_table \<Rightarrow> usize \<Rightarrow> 'v res" where
  "OccupiedEntry_get t elem = bindR (FullBucket_read t elem) (\<lambda>(_, v). Inr v)"

definition OccupiedEntry_key :: "('k, 'v) raw_table \<Rightarrow> usize \<Rightarrow> 'k res" where
  "OccupiedEntry_key t elem = bindR (FullBucket_read t elem) (\<lambda>(k, _). Inr k)"

definition OccupiedEntry_remove_entry ::
    "('k, 'v) raw_table \<Rightarrow> usize \<Rightarrow> ('k \<times> 'v \<times> ('k, 'v) raw_table) run" where
  "OccupiedEntry_remove_entry t elem = pop_internal t elem"

definition Entry_key :: "('k, 'v) raw_table \<Rightarrow> 'k Entry \<Rightarrow> 'k res" where
  "Entry_key t e = (case e of OccupiedEntry _ elem \<Rightarrow> OccupiedEntry_key t elem | VacantEntry _ key _ \<Rightarrow> Inr key)"

definition Entry_or_insert_with ::
    "('k, 'v) raw_table \<Rightarrow> 'k Entry \<Rightarrow> (unit \<Rightarrow> 'v) \<Rightarrow> (('k, 'v) raw_table \<times> usize) run" where
  "Entry_or_insert_with t e dflt =
     (case e of
        OccupiedEntry _ elem \<Rightarrow> ret (t, elem)
      | VacantEntry hash key elem \<Rightarrow> VacantEntry_insert t hash key elem (dflt ()))"

definition Entry_or_insert ::
    "('k, 'v) raw_table \<Rightarrow> 'k Entry \<Rightarrow> 'v \<Rightarrow> (('k, 'v) raw_table \<times> usize) run" where
  "Entry_or_insert t e dflt =
     (case e of
        OccupiedEntry _ elem \<Rightarrow> ret (t, elem)
      | VacantEntry hash key elem \<Rightarrow> VacantEntry_insert t hash key elem dflt)"

definition Entry_and_modify ::
    "('k, 'v) raw_table \<Rightarrow> 'k Entry \<Rightarrow> ('v \<Rightarrow> 'v) \<Rightarrow> ('k, 'v) raw_table res" where
  "Entry_and_modify t e f =
     (case e of
        OccupiedEntry _ elem \<Rightarrow> bindR (OccupiedEntry_get t elem) (\<lambda>v. FullBucket_write_value t elem (f v))
      | VacantEntry _ _ _ \<Rightarrow> Inr t)"

subsection \<open>Bulk operations\<close>

fun insert_all :: "('k, 'v) hash_map \<Rightarrow> ('k \<times> 'v) list \<Rightarrow> ('k, 'v) hash_map run" where
  "insert_all self [] = ret self"
| "insert_all self ((k, v) # iter) =
     bindO (HashMap_insert self k v) (\<lambda>(_, self). insert_all self iter)"

text \<open>\<open>extend\<close>: the iterator is the lower bound of its size hint and the list of its items.\<close>

definition HashMap_extend ::
    "('k, 'v) hash_map \<Rightarrow> usize \<Rightarrow> ('k \<times> 'v) list \<Rightarrow> ('k, 'v) hash_map run" where
  "HashMap_extend self size_hint iter =
     bindO (Some (if HashMap_is_empty self then Inr size_hint
                  else bindR (addP size_hint 1) (\<lambda>s. Inr (s div 2)))) (\<lambda>reserve.
     bindO (HashMap_reserve self reserve) (\<lambda>self.
     insert_all self iter))"

definition HashMap_from_iter ::
    "usize \<times> usize \<Rightarrow> ('k \<Rightarrow> u64) \<Rightarrow> usize \<Rightarrow> ('k \<times> 'v) list \<Rightarrow> ('k, 'v) hash_map run" where
  "HashMap_from_iter ly hb size_hint iter =
     bindO (Some (HashMap_with_hasher ly hb)) (\<lambda>map. HashMap_extend map size_hint iter)"

fun eq_all :: "('k, 'v) hash_map \<Rightarrow> ('k \<times> 'v) list \<Rightarrow> bool res" where
  "eq_all other [] = Inr True"
| "eq_all other ((key, value) # kvs) =
     bindR (HashMap_get other key) (\<lambda>r.
     if (case r of None \<Rightarrow> False | Some v \<Rightarrow> value = v) then eq_all other kvs else Inr False)"

definition HashMap_eq :: "('k, 'v) hash_map \<Rightarrow> ('k, 'v) hash_map \<Rightarrow> bool res" where
  "HashMap_eq self other =
     (if HashMap_len self \<noteq> HashMap_len other then Inr False
      else bindR (HashMap_iter self) (eq_all other))"

definition HashMap_index :: "('k, 'v) hash_map \<Rightarrow> 'k \<Rightarrow> 'v res" where
  "HashMap_index self index = bindR (HashMap_get self index) (expectR ''no entry found for key'')"

text \<open>The loop of \<open>shrink_to_fit\<close> over the owning iterator of the old table.\<close>

partial_function (option) shrink_loop ::
    "('k, 'v) raw_table \<Rightarrow> raw_buckets \<Rightarrow> ('k, 'v) hash_map \<Rightarrow> ('k, 'v) hash_map run" where
  "shrink_loop old_table it self =
     bindO (Some (IntoIter_next old_table it)) (\<lambda>(x, old_table, it).
     case x of
       None \<Rightarrow> ret self
     | Some (h, k, v) \<Rightarrow>
         bindO (insert_hashed_nocheck self h k v) (\<lambda>(_, self). shrink_loop old_table it self))"

definition HashMap_shrink_to_fit :: "('k, 'v) hash_map \<Rightarrow> ('k, 'v) hash_map run" where
  "HashMap_shrink_to_fit self =
     bindO (Some (policy_raw_capacity (HashMap_len self))) (\<lambda>new_raw_cap.
     if HashMap_raw_capacity self \<noteq> new_raw_cap then
       bindO (Some (RawTable_new (kv_layout (table self)) new_raw_cap)) (\<lambda>new_table.
       let old_table = table self; old_size = RawTable_size old_table in
       bindO (shrink_loop old_table (RawTable_raw_buckets old_table) (self\<lparr>table := new_table\<rparr>)) (\<lambda>self.
       bindO (Some (assertR ''self.table.size() == old_size'' (RawTable_size (table self) = old_size))) (\<lambda>_.
       ret self)))
     else ret self)"

text \<open>The derived \<open>clone\<close>: the hash builder and the table.\<close>

definition HashMap_clone :: "('k, 'v) hash_map \<Rightarrow> ('k, 'v) hash_map res" where
  "HashMap_clone self = bindR (RawTable_clone (table self)) (\<lambda>t. Inr (self\<lparr>table := t\<rparr>))"

subsection \<open>Entries find or fill the place of a key\<close>

definition entry_at :: "('k, 'v) hash_map \<Rightarrow> 'k \<Rightarrow> 'k Entry \<Rightarrow> bool" where
  "entry_at m k e \<longleftrightarrow>
     (case e of
        OccupiedEntry key i \<Rightarrow> key = Some k \<and> unat i < length (slots (table m)) \<and>
          (\<exists>v. HashMap_abs m k = Some v \<and> slots (table m) ! unat i = Some (HashMap_make_hash m k, k, v))
      | VacantEntry h key elem \<Rightarrow> key = k \<and> h = HashMap_make_hash m k \<and> HashMap_abs m k = None \<and>
          search_post (slots (table m)) h (\<lambda>q. q = k) (Vacant h elem))"

lemma HashMap_entry_correct:
  assumes inv: "HashMap_inv m" and budget: "reserve_budget m 1"
  shows "\<exists>e m'. HashMap_entry m k = ret (e, m') \<and> HashMap_inv m' \<and> HashMap_abs m' = HashMap_abs m \<and>
    entry_at m' k e \<and> len_nat m' < usable (length (slots (table m')))"
proof -
  obtain m' where m': "HashMap_reserve m 1 = ret m'" "HashMap_inv m'" "HashMap_abs m' = HashMap_abs m"
      "len_nat m' < usable (length (slots (table m')))"
    using HashMap_reserve_correct [OF inv, of 1] budget by auto
  let ?t = "table m'" and ?h = "HashMap_make_hash m' k"
  note wf = inv_wf [OF m'(2)]
  have ne: "slots ?t \<noteq> []" using m'(4) by (auto simp: usable_def)
  obtain r where r: "search_hashed ?t ?h (\<lambda>q. q = k) = Inr r" "search_post (slots ?t) ?h (\<lambda>q. q = k) r"
    using search_hashed_correct [OF wf inv_rh [OF m'(2)], of ?h "\<lambda>q. q = k"] inv_size [OF m'(2)] wf_size [OF wf]
    by auto
  have absent: "HashMap_abs m' k = None" if "\<nexists>i. r = Occupied i"
  proof -
    have "(?h, k, v) \<notin># contents (slots ?t)" for v using r(2) that by (auto simp: search_post_def)
    then show ?thesis using abs_iff [OF m'(2), of k] by (metis not_None_eq)
  qed
  have "\<exists>e. into_entry r k = Some e \<and> entry_at m' k e"
  proof (cases r)
    case (Occupied i)
    then obtain v where i: "unat i < length (slots ?t)" "slots ?t ! unat i = Some (?h, k, v)"
      using r(2) by (auto simp: search_post_def)
    have "HashMap_abs m' k = Some v" using abs_iff [OF m'(2), of k v] i by (auto simp: in_contents_nth)
    then show ?thesis using Occupied i by (simp add: into_entry_def entry_at_def)
  next
    case (Vacant h elem)
    then have "h = ?h" using r(2) by (cases elem) (auto simp: search_post_def)
    then show ?thesis using Vacant absent r(2) by (simp add: into_entry_def entry_at_def)
  next
    case TableIsEmpty
    then show ?thesis using r(2) ne by (simp add: search_post_def)
  qed
  then show ?thesis using m' r(1) by (auto simp: HashMap_entry_def Let_def)
qed

text \<open>\<open>entry(k).or_insert(v)\<close>: an occupied place is left alone, a vacant one gets the value, and
  the reference that comes back points to the value of the key.\<close>

lemma Entry_or_insert_correct:
  assumes inv: "HashMap_inv m" and e: "entry_at m k e"
    and room: "len_nat m < usable (length (slots (table m)))"
  shows "\<exists>t b. Entry_or_insert (table m) e v = ret (t, b) \<and> HashMap_inv (m\<lparr>table := t\<rparr>) \<and>
    HashMap_abs (m\<lparr>table := t\<rparr>) =
      (case HashMap_abs m k of None \<Rightarrow> (HashMap_abs m)(k \<mapsto> v) | Some _ \<Rightarrow> HashMap_abs m) \<and>
    OccupiedEntry_get t b = Inr (case HashMap_abs m k of None \<Rightarrow> v | Some w \<Rightarrow> w)"
proof (cases e)
  case (OccupiedEntry key i)
  then obtain w where w: "unat i < length (slots (table m))" "HashMap_abs m k = Some w"
      "slots (table m) ! unat i = Some (HashMap_make_hash m k, k, w)"
    using e by (auto simp: entry_at_def)
  then show ?thesis using OccupiedEntry inv FullBucket_ops(2) [OF inv_wf [OF inv] w(1,3)]
    by (simp add: Entry_or_insert_def OccupiedEntry_get_def)
next
  case (VacantEntry h key elem)
  let ?h = "HashMap_make_hash m k" and ?t = "table m"
  have v: "key = k" "h = ?h" and none: "HashMap_abs m k = None"
    and post: "search_post (slots ?t) ?h (\<lambda>q. q = k) (Vacant h elem)"
    using e VacantEntry by (auto simp: entry_at_def)
  have ne: "slots ?t \<noteq> []" using room by (auto simp: usable_def)
  have "?h \<noteq> EMPTY_BUCKET" by (simp add: HashMap_make_hash_def)
  then obtain u b where u: "VacantEntry_insert ?t ?h k elem v = ret (u, b)" "wf_table u"
      "rh (slots u)" "contents (slots u) = add_mset (?h, k, v) (contents (slots ?t))" "same_shape ?t u"
      "unat b < length (slots ?t)" "slots u ! unat b = Some (?h, k, v)"
    using VacantEntry_insert_correct [OF inv_wf [OF inv] inv_rh [OF inv] inv_size [OF inv ne] _ post] by blast
  have len: "length (slots u) = length (slots ?t)" using u(5) by (simp add: same_shape_def)
  show ?thesis
    using VacantEntry v none u inv_abs_add [OF inv none u(2,3) len u(4) room] len
      FullBucket_ops(2) [OF u(2), of b] by (simp add: Entry_or_insert_def OccupiedEntry_get_def)
qed

subsection \<open>Iterating, clearing, comparing\<close>

lemma HashMap_iter_correct:
  assumes inv: "HashMap_inv m"
  shows "\<exists>kvs. HashMap_iter m = Inr kvs \<and> distinct (map fst kvs) \<and> map_of kvs = HashMap_abs m \<and>
    length kvs = unat (HashMap_len m)"
proof -
  let ?es = "full_list (slots (table m))"
  have "HashMap_iter m = Inr (map snd ?es)"
    using Iter_collect_ok [OF inv_wf [OF inv] iter_ok_raw_buckets [OF inv_wf [OF inv]]]
    by (simp add: HashMap_iter_def RawTable_raw_buckets_def)
  moreover have "distinct (map fst (map snd ?es))"
    using inv_entries [OF inv] by (simp add: entries_ok_def comp_def)
  moreover have "length (map snd ?es) = unat (HashMap_len m)"
    using wf_size [OF inv_wf [OF inv]] by (simp add: length_full_list HashMap_len_def RawTable_size_def)
  ultimately show ?thesis by (simp add: HashMap_abs_def entries_map_def)
qed

lemma HashMap_clear_correct:
  assumes inv: "HashMap_inv m"
  shows "\<exists>m'. HashMap_clear m = Inr m' \<and> HashMap_inv m' \<and> HashMap_abs m' = Map.empty \<and>
    HashMap_capacity m' = HashMap_capacity m"
proof -
  let ?t = "table m"
  obtain t where t: "Drain_drop ?t (RawTable_raw_buckets ?t) = Inr t" "wf_table t"
      "slots t = replicate (length (slots ?t)) None" "capacity_mask t = capacity_mask ?t"
    using Drain_drop_ok [OF inv_wf [OF inv] iter_ok_raw_buckets [OF inv_wf [OF inv]]]
    by (auto simp: RawTable_raw_buckets_def)
  then have "HashMap_inv (m\<lparr>table := t\<rparr>)" "HashMap_abs (m\<lparr>table := t\<rparr>) = Map.empty"
    using inv by (auto simp: HashMap_inv_def HashMap_abs_def)
  then show ?thesis using t
    by (simp add: HashMap_clear_def HashMap_capacity_def HashMap_raw_capacity_def RawTable_capacity_def)
qed

lemma eq_all_correct:
  assumes inv: "HashMap_inv other"
  shows "eq_all other kvs = Inr (\<forall>(k, v) \<in> set kvs. HashMap_abs other k = Some v)"
  by (induction kvs) (auto simp: HashMap_get_correct [OF inv] split: option.split)

lemma HashMap_eq_correct:
  assumes inv: "HashMap_inv m" "HashMap_inv m'"
  shows "HashMap_eq m m' = Inr (HashMap_abs m = HashMap_abs m')"
proof (cases "HashMap_len m = HashMap_len m'")
  case False
  then have "unat (HashMap_len m) \<noteq> unat (HashMap_len m')" by (simp add: unat_eq_iff)
  then have "HashMap_abs m \<noteq> HashMap_abs m'"
    using HashMap_len_correct [OF inv(1)] HashMap_len_correct [OF inv(2)] by auto
  then show ?thesis using False by (simp add: HashMap_eq_def)
next
  case True
  obtain kvs where kvs: "HashMap_iter m = Inr kvs" "distinct (map fst kvs)" "map_of kvs = HashMap_abs m"
    using HashMap_iter_correct [OF inv(1)] by blast
  have "(\<forall>(k, v) \<in> set kvs. HashMap_abs m' k = Some v) \<longleftrightarrow> HashMap_abs m \<subseteq>\<^sub>m HashMap_abs m'"
    unfolding map_le_def kvs(3) [symmetric] using kvs(2) by (force dest: map_of_SomeD)
  moreover have "HashMap_abs m \<subseteq>\<^sub>m HashMap_abs m' \<longleftrightarrow> HashMap_abs m = HashMap_abs m'"
  proof
    assume le: "HashMap_abs m \<subseteq>\<^sub>m HashMap_abs m'"
    have "finite (dom (HashMap_abs m'))" by (simp add: HashMap_abs_def entries_map_def finite_dom_map_of)
    then have "dom (HashMap_abs m) = dom (HashMap_abs m')"
      using map_le_implies_dom_le [OF le] HashMap_len_correct [OF inv(1)] HashMap_len_correct [OF inv(2)] True
      by (intro card_subset_eq) simp_all
    then show "HashMap_abs m = HashMap_abs m'" using le by (metis map_le_antisym map_le_def)
  qed simp
  ultimately show ?thesis using True kvs(1) eq_all_correct [OF inv(2)] by (simp add: HashMap_eq_def)
qed

lemma HashMap_index_correct:
  assumes inv: "HashMap_inv m"
  shows "HashMap_index m k = (case HashMap_abs m k of
    None \<Rightarrow> Inl (Panic ''no entry found for key'') | Some v \<Rightarrow> Inr v)"
  using HashMap_get_correct [OF inv, of k] by (simp add: HashMap_index_def split: option.split)

subsection \<open>\<open>shrink_to_fit\<close> and \<open>clone\<close>\<close>

text \<open>The owning iterator moves pairs out, but leaves the part of the table before it unread.\<close>

definition moved_from :: "('k, 'v) raw_table \<Rightarrow> raw_buckets \<Rightarrow> ('k, 'v) raw_table \<Rightarrow> bool" where
  "moved_from t0 it t \<longleftrightarrow> hashes t = hashes t0 \<and> length (pairs t) = length (pairs t0) \<and>
     tsize t = elems_left it \<and> (\<forall>j \<ge> unat (rb_idx it). j < length (pairs t) \<longrightarrow> pairs t ! j = pairs t0 ! j)"

lemma RawBuckets_scan_cong: "hashes t = hashes t0 \<Longrightarrow> RawBuckets_scan t i = RawBuckets_scan t0 i"
proof (induction t i rule: RawBuckets_scan.induct)
  case (1 t i)
  then show ?case
    by (subst (1 2) RawBuckets_scan.simps) (auto simp: bindR_def read_hash_def split: sum.split)
qed

lemma IntoIter_next_ok:
  assumes wf: "wf_table t0" and ok: "iter_ok t0 it" and mv: "moved_from t0 it t"
  shows "case full_list (drop (unat (rb_idx it)) (slots t0)) of
      [] \<Rightarrow> IntoIter_next t it = Inr (None, t, it)
    | e # es \<Rightarrow> \<exists>t' it'. IntoIter_next t it = Inr (Some e, t', it') \<and> iter_ok t0 it' \<and> moved_from t0 it' t' \<and>
        full_list (drop (unat (rb_idx it')) (slots t0)) = es"
proof -
  have nx: "RawBuckets_next t it = RawBuckets_next t0 it"
    using mv RawBuckets_scan_cong [of t t0] by (simp add: RawBuckets_next_def moved_from_def)
  show ?thesis
  proof (cases "full_list (drop (unat (rb_idx it)) (slots t0))")
    case Nil
    then show ?thesis using RawBuckets_next_ok [OF wf ok] nx by (simp add: IntoIter_next_def)
  next
    case (Cons e es)
    then obtain p it' where p: "RawBuckets_next t0 it = Inr (Some p, it')" "iter_ok t0 it'"
        "unat (rb_idx it) \<le> unat p" "unat p < length (slots t0)" "unat (rb_idx it') = Suc (unat p)"
        "slots t0 ! unat p = Some e" "full_list (drop (unat (rb_idx it')) (slots t0)) = es"
      using RawBuckets_next_ok [OF wf ok] by auto
    obtain h k v where e: "e = (h, k, v)" by (cases e) auto
    have len: "length (pairs t0) = length (hashes t0)" "length (slots t0) = length (hashes t0)"
      using wf length_slots [OF wf] by (auto simp: wf_table_def)
    have m0: "hashes t0 ! unat p = h" "pairs t0 ! unat p = Some (k, v)"
      using slots_Some [OF wf p(4)] p(6) e by auto
    then have m: "read_pair t p = Inr (k, v)" "read_hash t p = Inr h"
      using mv p(3,4) len by (simp_all add: moved_from_def read_pair_def read_hash_def)
    have el: "elems_left it' = elems_left it - 1" "unat (1 :: usize) \<le> unat (elems_left it)"
      using p(1) by (auto simp: RawBuckets_next_def bindR_eq_Inr subP_Inr unat_sub_small word_le_nat_alt
        unat_eq_iff split: if_splits prod.splits)
    let ?t = "t\<lparr>tsize := elems_left it - 1, pairs := (pairs t)[unat p := None]\<rparr>"
    have "IntoIter_next t it = Inr (Some e, ?t, it')"
      using p(1,4) m e nx mv len subP_ok [OF el(2)]
      by (simp add: IntoIter_next_def write_pair_def moved_from_def)
    moreover have "moved_from t0 it' ?t"
      using mv p(3,5) el(1) by (auto simp: moved_from_def nth_list_update)
    ultimately show ?thesis using Cons p by auto
  qed
qed

lemma finite_dom_entries [simp]: "finite (dom (entries_map es))"
  by (simp add: entries_map_def finite_dom_map_of)

lemma shrink_loop_correct:
  assumes wf: "wf_table t0" and ok: "entries_ok (hash_builder m) (full_list (slots t0))"
  shows "iter_ok t0 it \<Longrightarrow> moved_from t0 it t \<Longrightarrow>
    full_list (slots t0) = es0 @ full_list (drop (unat (rb_idx it)) (slots t0)) \<Longrightarrow>
    HashMap_inv m \<Longrightarrow> HashMap_abs m = entries_map es0 \<Longrightarrow> len_nat m = length es0 \<Longrightarrow>
    length (full_list (slots t0)) \<le> usable (length (slots (table m))) \<Longrightarrow>
    \<exists>m'. shrink_loop t it m = ret m' \<and> HashMap_inv m' \<and> HashMap_abs m' = entries_map (full_list (slots t0)) \<and>
      length (slots (table m')) = length (slots (table m))"
  using ok
proof (induction "full_list (drop (unat (rb_idx it)) (slots t0))" arbitrary: it t m es0)
  case Nil
  then show ?case using IntoIter_next_ok [OF wf Nil.prems(1,2)]
    by (subst shrink_loop.simps) simp
next
  case (Cons e es)
  note ok = Cons.prems(8)
  obtain h k v where e: "e = (h, k, v)" by (cases e) auto
  obtain t' it' where it': "IntoIter_next t it = Inr (Some e, t', it')" "iter_ok t0 it'" "moved_from t0 it' t'"
      "full_list (drop (unat (rb_idx it')) (slots t0)) = es"
    using IntoIter_next_ok [OF wf Cons.prems(1,2)] Cons.hyps(2) by (auto split: list.splits)
  have all: "full_list (slots t0) = es0 @ e # es" using Cons.prems(3) Cons.hyps(2) by simp
  have "entries_ok (hash_builder m) ((h, k, v) # es0 @ es)"
    by (rule entries_perm [OF ok]) (simp add: all e)
  then have new: "h = HashMap_make_hash m k" "entries_map (es0 @ es) k = None" "entries_ok (hash_builder m) (es0 @ es)"
    by (simp_all add: HashMap_make_hash_def)
  then have none: "entries_map es0 k = None" by (simp add: entries_map_def)
  have room: "len_nat m < usable (length (slots (table m)))"
    using Cons.prems(6,7) all by simp
  obtain m1 where m1: "insert_hashed_nocheck m h k v = ret (HashMap_abs m k, m1)" "HashMap_inv m1"
      "HashMap_abs m1 = (HashMap_abs m)(k \<mapsto> v)" "hash_builder m1 = hash_builder m"
      "length (slots (table m1)) = length (slots (table m))"
    using insert_hashed_nocheck_correct [OF Cons.prems(4) room, of k v] new(1) by auto
  have "card (dom (HashMap_abs m1)) = Suc (card (dom (HashMap_abs m)))"
    using m1(3) none Cons.prems(5) finite_dom_entries [of es0] by (simp add: card_insert_if domIff)
  then have len: "len_nat m1 = Suc (length es0)"
    using HashMap_len_correct [OF m1(2)] HashMap_len_correct [OF Cons.prems(4)] Cons.prems(6)
      wf_size [OF inv_wf [OF m1(2)]] wf_size [OF inv_wf [OF Cons.prems(4)]]
    by (simp add: HashMap_len_def RawTable_size_def)
  have "entries_ok (hash_builder m) es0" using new(3) by (simp add: entries_ok_def)
  then have "entries_ok (hash_builder m) (e # es0)" using none new(1) e by (simp add: HashMap_make_hash_def)
  then have perm: "entries_map (es0 @ [e]) = entries_map (e # es0)" by (rule entries_perm) simp
  have "\<exists>m'. shrink_loop t' it' m1 = ret m' \<and> HashMap_inv m' \<and>
      HashMap_abs m' = entries_map (full_list (slots t0)) \<and> length (slots (table m')) = length (slots (table m1))"
    using it' all m1 len perm Cons.prems(5,7) ok e
    by (intro Cons.hyps(1) [where ?es0.0 = "es0 @ [e]"]) simp_all
  then show ?case using it'(1) m1 e by (subst shrink_loop.simps) auto
qed

lemma HashMap_shrink_to_fit_correct:
  fixes m :: "('k, 'v) hash_map"
  assumes inv: "HashMap_inv m" and budget: "reserve_budget m 0"
  shows "\<exists>m'. HashMap_shrink_to_fit m = ret m' \<and> HashMap_inv m' \<and> HashMap_abs m' = HashMap_abs m \<and>
    policy_raw_capacity (HashMap_len m) = Inr (HashMap_raw_capacity m')"
proof -
  let ?t = "table m"
  note wf = inv_wf [OF inv]
  have len: "unat (HashMap_len m) = len_nat m" using wf_size [OF wf] by (simp add: HashMap_len_def RawTable_size_def)
  have "32 + 5 * len_nat m < 2 ^ 61" using budget fits_bound by (fastforce simp: reserve_budget_def)
  then obtain c where c: "policy_raw_capacity (HashMap_len m) = Inr c"
    using policy_raw_capacity_ok [of "HashMap_len m"] len by auto
  show ?thesis
  proof (cases "HashMap_raw_capacity m = c")
    case True
    then show ?thesis using c inv by (simp add: HashMap_shrink_to_fit_def)
  next
    case False
    have "unat c \<le> 32 + 5 * (len_nat m + 0)" using policy_raw_capacity_upper [OF c] len by simp
    then have "fits (kv_layout ?t) (unat c)" using budget fits_mono unfolding reserve_budget_def by blast
    then obtain t0 :: "('k, 'v) raw_table" where t0: "RawTable_new (kv_layout ?t) c = Inr t0"
      using RawTable_new_fits by blast
    have pow: "c = 0 \<and> len_nat m = 0 \<or> (\<exists>n < 64. c = 2 ^ n) \<and> 32 \<le> unat c \<and> len_nat m * 11 div 10 \<le> unat c"
    proof (cases "HashMap_len m = 0")
      case True
      then show ?thesis using c len by (simp add: policy_raw_capacity_def)
    next
      case False
      then show ?thesis using policy_raw_capacity_Inr [OF c False] len by metis
    qed
    then have w: "wf_table t0" "slots t0 = replicate (unat c) None" using RawTable_new_wf [OF t0] by auto
    let ?m = "m\<lparr>table := t0\<rparr>"
    have m0: "HashMap_inv ?m" "HashMap_abs ?m = entries_map []" "len_nat ?m = length []"
      using w pow by (auto simp: HashMap_inv_def HashMap_abs_def)
    have "moved_from ?t (RawTable_raw_buckets ?t) ?t" by (simp add: moved_from_def RawTable_raw_buckets_def)
    moreover have "length (full_list (slots ?t)) \<le> usable (length (slots (table ?m)))"
      using pow w by (auto simp: length_full_list usable_def)
    ultimately have "\<exists>m'. shrink_loop ?t (RawTable_raw_buckets ?t) ?m = ret m' \<and> HashMap_inv m' \<and>
        HashMap_abs m' = entries_map (full_list (slots ?t)) \<and> length (slots (table m')) = length (slots (table ?m))"
      using inv_entries [OF inv] by (intro shrink_loop_correct [OF wf _ iter_ok_raw_buckets [OF wf] _ _ m0])
        (simp_all add: RawTable_raw_buckets_def)
    then obtain m' where m': "shrink_loop ?t (RawTable_raw_buckets ?t) ?m = ret m'" "HashMap_inv m'"
        "HashMap_abs m' = entries_map (full_list (slots ?t))" "length (slots (table m')) = unat c"
      using w(2) by auto
    have abs: "HashMap_abs m' = HashMap_abs m" using m'(3) by (simp add: HashMap_abs_def)
    then have "unat (HashMap_len m') = unat (HashMap_len m)"
      using HashMap_len_correct [OF m'(2)] HashMap_len_correct [OF inv] by simp
    then have "tsize (table m') = tsize ?t" by (simp add: HashMap_len_def RawTable_size_def unat_eq_iff)
    moreover have "HashMap_raw_capacity m' = c"
      using wf_capacity_eq [OF inv_wf [OF m'(2)]] m'(4) by (simp add: HashMap_raw_capacity_def unat_eq_iff)
    ultimately show ?thesis using False c t0 m' abs
      by (simp add: HashMap_shrink_to_fit_def Let_def RawTable_size_def)
  qed
qed

text \<open>A clone has the same hashes and the same pair in every full bucket.\<close>

lemma RawTable_clone_loop_ok:
  assumes wf: "wf_table t"
  shows "length (hashes n) = length (hashes t) \<Longrightarrow> length (pairs n) = length (pairs t) \<Longrightarrow>
    \<forall>j < unat i. hashes n ! j = hashes t ! j \<and> (hashes t ! j \<noteq> EMPTY_BUCKET \<longrightarrow> pairs n ! j = pairs t ! j) \<Longrightarrow>
    unat i \<le> length (hashes t) \<Longrightarrow>
    \<exists>hs ps. RawTable_clone_loop t n i = Inr (n\<lparr>hashes := hs, pairs := ps\<rparr>) \<and> length hs = length (hashes t) \<and>
      length ps = length (pairs t) \<and>
      (\<forall>j < length (hashes t). hs ! j = hashes t ! j \<and> (hashes t ! j \<noteq> EMPTY_BUCKET \<longrightarrow> ps ! j = pairs t ! j))"
proof (induction "length (hashes t) - unat i" arbitrary: n i rule: less_induct)
  case less
  have cap: "unat (RawTable_capacity t) = length (hashes t)" using wf_capacity_eq [OF wf] length_slots [OF wf] by simp
  show ?case
  proof (cases "unat i < length (hashes t)")
    case False
    then show ?thesis using less.prems cap
      by (subst RawTable_clone_loop.simps)
        (auto simp: word_less_nat_alt intro!: exI [of _ "hashes n"] exI [of _ "pairs n"])
  next
    case True
    then have i: "unat i < length (slots t)" using length_slots [OF wf] by simp
    have len: "length (pairs t) = length (hashes t)" using wf by (simp add: wf_table_def)
    note fit = slots_fit [OF wf i]
    have u: "unat (i + 1) = Suc (unat i)" using unat_add_small [OF fit] by simp
    let ?h = "hashes t ! unat i"
    let ?n = "n\<lparr>hashes := (hashes n)[unat i := ?h],
      pairs := (if ?h \<noteq> EMPTY_BUCKET then (pairs n)[unat i := pairs t ! unat i] else pairs n)\<rparr>"
    have init: "?h \<noteq> EMPTY_BUCKET \<Longrightarrow> \<exists>kv. pairs t ! unat i = Some kv"
      using wf True by (auto simp: wf_table_def)
    have step: "RawTable_clone_loop t n i = RawTable_clone_loop t ?n (i + 1)"
      using True cap less.prems len init addP_ok [OF fit]
      by (subst RawTable_clone_loop.simps)
        (auto simp: word_less_nat_alt read_hash_def write_hash_def read_pair_def write_pair_def)
    have "\<exists>hs ps. RawTable_clone_loop t ?n (i + 1) = Inr (?n\<lparr>hashes := hs, pairs := ps\<rparr>) \<and>
      length hs = length (hashes t) \<and> length ps = length (pairs t) \<and>
      (\<forall>j < length (hashes t). hs ! j = hashes t ! j \<and> (hashes t ! j \<noteq> EMPTY_BUCKET \<longrightarrow> ps ! j = pairs t ! j))"
      using less.prems True u len
      by (intro less.hyps) (auto simp: less_Suc_eq nth_list_update)
    then show ?thesis unfolding step by simp
  qed
qed

lemma RawTable_clone_correct:
  assumes wf: "wf_table t" and fit: "fits (kv_layout t) (length (slots t))"
  shows "\<exists>t'. RawTable_clone t = Inr t' \<and> wf_table t' \<and> slots t' = slots t \<and> ttag t' = ttag t \<and>
    capacity_mask t' = capacity_mask t"
proof -
  let ?c = "RawTable_capacity t"
  have cap: "unat ?c = length (hashes t)" using wf_capacity_eq [OF wf] length_slots [OF wf] by simp
  have len: "length (pairs t) = length (hashes t)" using wf by (simp add: wf_table_def)
  have "fits (kv_layout t) (unat ?c)" using fit cap length_slots [OF wf] by simp
  then obtain t0 :: "('a, 'b) raw_table" where "RawTable_new (kv_layout t) ?c = Inr t0"
    using RawTable_new_fits by blast
  then obtain n :: "('a, 'b) raw_table" where n: "RawTable_new_uninitialized (kv_layout t) ?c = Inr n"
    by (auto simp: RawTable_new_def bindR_eq_Inr)
  then have "capacity_mask n = ?c - 1" and f': "length (hashes n) = unat ?c" "length (pairs n) = unat ?c"
    by (auto simp: RawTable_new_uninitialized_def bindR_eq_Inr Let_def split: if_splits prod.splits)
  then have f: "capacity_mask n = capacity_mask t" "length (hashes n) = unat ?c" "length (pairs n) = unat ?c"
    by (simp_all add: RawTable_capacity_def)
  obtain hs ps where l: "RawTable_clone_loop t n 0 = Inr (n\<lparr>hashes := hs, pairs := ps\<rparr>)"
      "length hs = length (hashes t)" "length ps = length (pairs t)"
      "\<forall>j < length (hashes t). hs ! j = hashes t ! j \<and> (hashes t ! j \<noteq> EMPTY_BUCKET \<longrightarrow> ps ! j = pairs t ! j)"
    using RawTable_clone_loop_ok [OF wf, of n 0] f cap len by auto
  let ?t = "RawTable_set_tag ((n\<lparr>hashes := hs, pairs := ps\<rparr>)\<lparr>tsize := RawTable_size t\<rparr>) (RawTable_tag t)"
  have hs: "hs = hashes t" using l by (intro nth_equalityI) simp_all
  have sl: "slots ?t = slots t"
    using l len by (intro nth_equalityI) (auto simp: slots_def slot_of_def RawTable_set_tag_def)
  have "wf_table ?t"
    unfolding wf_table_def sl using wf l hs f
    by (auto simp: wf_table_def RawTable_set_tag_def RawTable_size_def)
  then show ?thesis using n l(1) sl f
    by (auto simp: RawTable_clone_def RawTable_set_tag_def RawTable_tag_def)
qed

subsection \<open>The hash map is a map\<close>

interpretation hm: fallible_map HashMap_inv HashMap_abs "\<lambda>m. reserve_budget m 1"
  HashMap_get HashMap_insert HashMap_remove
proof
  fix m :: "('k, 'v) hash_map" and k v
  assume inv: "HashMap_inv m"
  show "HashMap_get m k = Inr (HashMap_abs m k)" by (rule HashMap_get_correct [OF inv])
  show "(\<exists>msg. HashMap_insert m k v = Some (Inl (Panic msg)) \<and> \<not> reserve_budget m 1) \<or>
      (\<exists>m'. HashMap_insert m k v = ret (HashMap_abs m k, m') \<and> HashMap_inv m' \<and>
        HashMap_abs m' = (HashMap_abs m)(k \<mapsto> v))"
    using HashMap_insert_correct [OF inv, of k v] by blast
  show "\<exists>m'. HashMap_remove m k = ret (HashMap_abs m k, m') \<and> HashMap_inv m' \<and>
      HashMap_abs m' = (HashMap_abs m)(k := None)"
    using HashMap_remove_correct [OF inv, of k] by blast
qed

lemma insert_all_correct:
  "HashMap_inv m \<Longrightarrow> insert_all m kvs = ret m' \<Longrightarrow>
    HashMap_inv m' \<and> HashMap_abs m' = HashMap_abs m ++ map_of (rev kvs) \<and> hash_builder m' = hash_builder m"
proof (induction kvs arbitrary: m)
  case (Cons kv kvs)
  obtain k v where kv: "kv = (k, v)" by (cases kv)
  then obtain old m1 where m1: "HashMap_insert m k v = ret (old, m1)" "insert_all m1 kvs = ret m'"
    using Cons.prems(2) by (auto simp: bindO_eq_ret)
  have hb: "hash_builder m1 = hash_builder m" using HashMap_insert_correct [OF Cons.prems(1), of k v] m1(1) by auto
  show ?case
    using Cons.IH [OF hm.ins_result(2) [OF Cons.prems(1) m1(1)] m1(2)] hm.ins_result(3) [OF Cons.prems(1) m1(1)] kv hb
    by (simp add: map_add_def fun_eq_iff split: option.split)
qed simp

lemma insert_all_no_fault:
  "HashMap_inv m \<Longrightarrow> (\<exists>msg. insert_all m kvs = Some (Inl (Panic msg))) \<or> (\<exists>m'. insert_all m kvs = ret m')"
proof (induction kvs arbitrary: m)
  case (Cons kv kvs)
  obtain k v where kv: "kv = (k, v)" by (cases kv)
  show ?case using HashMap_insert_correct [OF Cons.prems, of k v] Cons.IH kv by fastforce
qed simp

text \<open>\<open>extend\<close> inserts every item; later items win.\<close>

lemma HashMap_extend_correct:
  assumes inv: "HashMap_inv m" and ok: "HashMap_extend m hint kvs = ret m'"
  shows "HashMap_inv m' \<and> HashMap_abs m' = HashMap_abs m ++ map_of (rev kvs)"
proof -
  obtain r m1 where "HashMap_reserve m r = ret m1" and all: "insert_all m1 kvs = ret m'"
    using ok by (auto simp: HashMap_extend_def bindO_eq_ret)
  then have "HashMap_inv m1" "HashMap_abs m1 = HashMap_abs m"
    using HashMap_reserve_correct [OF inv, of r] by auto
  then show ?thesis using insert_all_correct [OF _ all] by simp
qed

lemma HashMap_from_iter_correct:
  fixes m :: "('k, 'v) hash_map"
  assumes ok: "HashMap_from_iter ly hb hint kvs = ret m"
  shows "HashMap_inv m \<and> HashMap_abs m = map_of (rev kvs)"
proof -
  obtain m0 :: "('k, 'v) hash_map" where m0: "HashMap_with_hasher ly hb = Inr m0" "HashMap_inv m0" "HashMap_abs m0 = Map.empty"
    using HashMap_with_hasher_correct by blast
  then have "HashMap_extend m0 hint kvs = ret m" using ok by (simp add: HashMap_from_iter_def)
  then show ?thesis using HashMap_extend_correct [OF m0(2)] m0(3) by simp
qed

subsection \<open>Properties of the hash map\<close>

lemma new_map:
  obtains m :: "('k, 'v) hash_map" where "HashMap_with_hasher ly hb = Inr m" "HashMap_inv m"
    "HashMap_abs m = Map.empty" "kv_layout (table m) = ly" "len_nat m = 0"
proof -
  obtain m :: "('k, 'v) hash_map" where m: "HashMap_with_hasher ly hb = Inr m" "HashMap_inv m"
      "HashMap_abs m = Map.empty" "kv_layout (table m) = ly"
    using HashMap_with_hasher_correct by blast
  moreover have "len_nat m = 0"
    using HashMap_len_correct [OF m(2)] m(3) wf_size [OF inv_wf [OF m(2)]]
    by (simp add: HashMap_len_def RawTable_size_def)
  ultimately show ?thesis using that by blast
qed

lemma fits_16_8: "n \<le> 1000 \<Longrightarrow> fits (16, 8) n"
proof -
  assume "n \<le> 1000"
  moreover have "(8 :: usize) = 2 ^ 3" by simp
  ultimately show ?thesis unfolding fits_def by (auto intro!: exI [of _ 3])
qed

text \<open>Two concrete maps: a new one whose hash function collides everywhere, and one with a single entry.\<close>

lemma empty_example:
  obtains m :: "(nat, bool) hash_map" where "HashMap_with_hasher (16, 8) (\<lambda>_. 5) = Inr m" "HashMap_inv m"
    "HashMap_abs m = Map.empty" "reserve_budget m 0" "reserve_budget m 1" "reserve_budget m 100"
proof -
  obtain m :: "(nat, bool) hash_map" where m: "HashMap_with_hasher (16, 8) (\<lambda>_. 5) = Inr m"
      "HashMap_inv m" "HashMap_abs m = Map.empty" "kv_layout (table m) = (16, 8)" "len_nat m = 0"
    by (rule new_map)
  moreover from this have "reserve_budget m 0" "reserve_budget m 1" "reserve_budget m 100"
    using fits_16_8 by (simp_all add: reserve_budget_def)
  ultimately show ?thesis using that by blast
qed

lemma single_example:
  obtains m m' :: "(nat, bool) hash_map" where "HashMap_with_hasher (16, 8) (\<lambda>_. 5) = Inr m"
    "HashMap_insert m 7 True = ret (None, m')" "HashMap_inv m'" "HashMap_abs m' = [7 \<mapsto> True]"
proof -
  obtain m :: "(nat, bool) hash_map" where m: "HashMap_with_hasher (16, 8) (\<lambda>_. 5) = Inr m" "HashMap_inv m" "HashMap_abs m = Map.empty"
    and budget: "reserve_budget m 0" "reserve_budget m 1" "reserve_budget m 100"
    by (rule empty_example)
  then show ?thesis using hm.ins_budget [OF m(2) budget(2), of 7 True] m(3) that [OF m(1)] by auto
qed

text \<open>
  C1: a program that starts with a new hash map and runs any sequence of lookups, insertions and removals ends, and
  every operation has returned what it returns on a mathematical map, the final table satisfies the invariant, and it
  represents the final mathematical map. The one exception is a program that runs out of memory: it stops at an
  insertion into a map that does not fit its memory budget with one more entry, and up to that insertion every result is that of the
  mathematical map. No other operation panics, no loop of the table code fails to end, and no access leaves initialised memory, for
  every hash function.
\<close>

theorem HashMap_trace_refines:
  "\<exists>m. HashMap_with_hasher ly hb = Inr m \<and>
    ((\<exists>m'. run_ops HashMap_get HashMap_insert HashMap_remove m ops =
          ret (fst (spec_ops Map.empty ops), m') \<and>
        HashMap_inv m' \<and> HashMap_abs m' = snd (spec_ops Map.empty ops)) \<or>
     (\<exists>ops1 k v rest m' msg. ops = ops1 @ Insert k v # rest \<and>
        run_ops HashMap_get HashMap_insert HashMap_remove m ops1 = ret (fst (spec_ops Map.empty ops1), m') \<and>
        HashMap_inv m' \<and> HashMap_abs m' = snd (spec_ops Map.empty ops1) \<and> \<not> reserve_budget m' 1 \<and>
        HashMap_insert m' k v = Some (Inl (Panic msg)) \<and>
        run_ops HashMap_get HashMap_insert HashMap_remove m ops = Some (Inl (Panic msg))))"
proof -
  obtain m :: "('a, 'b) hash_map" where m: "HashMap_with_hasher ly hb = Inr m" "HashMap_inv m"
      "HashMap_abs m = Map.empty"
    using new_map [of ly hb] by metis
  show ?thesis by (rule exI [of _ m], rule conjI [OF m(1)]) (rule hm.run_ops_refines [OF m(2), of ops, unfolded m(3)])
qed

text \<open>
  C2: \<open>insert\<close> on a map whose next table fits the address space always returns, with the value that the key had
  before, and the map afterwards has the key at the new value and every other key unchanged, whatever growing,
  stealing of buckets and early resizing it did on the way.
\<close>

theorem HashMap_insert_updates:
  assumes "HashMap_inv m" and "reserve_budget m 1"
  shows "\<exists>m'. HashMap_insert m k v = ret (HashMap_abs m k, m') \<and> HashMap_inv m' \<and>
    HashMap_abs m' = (HashMap_abs m)(k \<mapsto> v) \<and>
    (\<forall>j. HashMap_get m' j = Inr (if j = k then Some v else HashMap_abs m j))"
  using hm.ins_budget [OF assms, of k v] hm.get_after_ins [OF assms(1)] by metis

theorem HashMap_insert_updates_witness:
  "\<exists>m m'. HashMap_with_hasher (16, 8) (\<lambda>_ :: nat. 5) = Inr m \<and> HashMap_insert m 7 True = ret (None, m') \<and>
     HashMap_get m' 7 = Inr (Some True) \<and> HashMap_get m' 8 = Inr None"
proof -
  obtain m :: "(nat, bool) hash_map" where m: "HashMap_with_hasher (16, 8) (\<lambda>_. 5) = Inr m" "HashMap_inv m" "HashMap_abs m = Map.empty"
    and budget: "reserve_budget m 0" "reserve_budget m 1" "reserve_budget m 100"
    by (rule empty_example)
  then show ?thesis using HashMap_insert_updates [OF m(2) budget(2), of 7 True] by auto
qed

text \<open>
  C3: \<open>remove\<close> always returns, with the value of the key or nothing, and deletes exactly that key:
  shifting the following entries back keeps every other key reachable.
\<close>

theorem HashMap_remove_deletes:
  assumes "HashMap_inv m"
  shows "\<exists>m'. HashMap_remove m k = ret (HashMap_abs m k, m') \<and> HashMap_inv m' \<and>
    (\<forall>j. HashMap_get m' j = Inr (if j = k then None else HashMap_abs m j)) \<and>
    unat (HashMap_len m') = unat (HashMap_len m) - (if k \<in> dom (HashMap_abs m) then 1 else 0)"
proof -
  obtain m' where m': "HashMap_remove m k = ret (HashMap_abs m k, m')" "HashMap_inv m'"
      "HashMap_abs m' = (HashMap_abs m)(k := None)"
    using hm.del_law [OF assms, of k] by blast
  have "unat (HashMap_len m') = unat (HashMap_len m) - (if k \<in> dom (HashMap_abs m) then 1 else 0)"
    using m'(3) HashMap_len_correct [OF m'(2)] HashMap_len_correct [OF assms]
    by (auto simp: card_Diff_singleton_if)
  then show ?thesis using m' hm.get_after_del [OF assms m'(1)] by auto
qed

theorem HashMap_remove_deletes_witness:
  "\<exists>m m' m''. HashMap_with_hasher (16, 8) (\<lambda>_ :: nat. 5) = Inr m \<and> HashMap_insert m 7 True = ret (None, m') \<and>
     HashMap_remove m' 7 = ret (Some True, m'') \<and> HashMap_get m'' 7 = Inr None"
proof -
  obtain m m' :: "(nat, bool) hash_map" where m: "HashMap_with_hasher (16, 8) (\<lambda>_. 5) = Inr m"
      and m': "HashMap_insert m 7 True = ret (None, m')" "HashMap_inv m'" "HashMap_abs m' = [7 \<mapsto> True]"
    by (rule single_example)
  then show ?thesis using HashMap_remove_deletes [OF m'(2), of 7] m m' by auto
qed

text \<open>
  C4: \<open>reserve\<close> never changes what the map holds; when it returns, the requested number of further entries fits
  below the load factor, and it panics only when the map with the additional entries does not fit its budget. The new
  table, filled in walking order without any comparison of displacements, is in Robin Hood order again.
\<close>

theorem HashMap_reserve_makes_room:
  assumes "HashMap_inv m"
  shows "(\<exists>msg. HashMap_reserve m a = Some (Inl (Panic msg)) \<and> \<not> reserve_budget m (unat a)) \<or>
    (\<exists>m' c. HashMap_reserve m a = ret m' \<and> HashMap_inv m' \<and> HashMap_abs m' = HashMap_abs m \<and>
      HashMap_capacity m' = Inr c \<and> unat (HashMap_len m') + unat a \<le> unat c)"
proof -
  consider "\<exists>msg. HashMap_reserve m a = Some (Inl (Panic msg)) \<and> \<not> reserve_budget m (unat a)"
    | m' where "HashMap_reserve m a = ret m'" "HashMap_inv m'" "HashMap_abs m' = HashMap_abs m"
        "len_nat m' = len_nat m" "len_nat m + unat a \<le> usable (length (slots (table m')))"
    using HashMap_reserve_correct [OF assms, of a] by blast
  then show ?thesis
  proof cases
    case (2 m')
    note wf = inv_wf [OF 2(2)]
    obtain c where "HashMap_capacity m' = Inr c" "unat c = usable (length (slots (table m')))"
      using policy_capacity_ok [of "RawTable_capacity (table m')"] slots_bound [OF wf] wf_capacity_eq [OF wf]
      by (auto simp: HashMap_capacity_def HashMap_raw_capacity_def)
    moreover have "unat (HashMap_len m') = len_nat m" using wf_size [OF wf] 2(4)
      by (simp add: HashMap_len_def RawTable_size_def)
    ultimately show ?thesis using 2 by auto
  qed simp
qed

theorem HashMap_reserve_makes_room_witness:
  "\<exists>m m' c. HashMap_with_hasher (16, 8) (\<lambda>_ :: nat. 5) = Inr (m :: (nat, bool) hash_map) \<and>
     HashMap_reserve m 100 = ret m' \<and> HashMap_capacity m' = Inr c \<and> 100 \<le> unat c"
proof -
  obtain m :: "(nat, bool) hash_map" where m: "HashMap_with_hasher (16, 8) (\<lambda>_. 5) = Inr m" "HashMap_inv m" "HashMap_abs m = Map.empty"
    and budget: "reserve_budget m 0" "reserve_budget m 1" "reserve_budget m 100"
    by (rule empty_example)
  then show ?thesis using HashMap_reserve_makes_room [OF m(2), of 100] budget by auto
qed

text \<open>
  C5: iteration yields every entry exactly once: the keys are distinct, the pairs are those of the map,
  and their number is \<open>len\<close>.
\<close>

theorem HashMap_iter_enumerates:
  assumes "HashMap_inv m"
  shows "\<exists>kvs. HashMap_iter m = Inr kvs \<and> distinct (map fst kvs) \<and> map_of kvs = HashMap_abs m \<and>
    length kvs = unat (HashMap_len m)"
  by (rule HashMap_iter_correct [OF assms])

theorem HashMap_iter_enumerates_witness:
  "\<exists>m m'. HashMap_with_hasher (16, 8) (\<lambda>_ :: nat. 5) = Inr m \<and> HashMap_insert m 7 True = ret (None, m') \<and>
     HashMap_iter m' = Inr [(7, True)]"
proof -
  obtain m m' :: "(nat, bool) hash_map" where m: "HashMap_with_hasher (16, 8) (\<lambda>_. 5) = Inr m"
      and m': "HashMap_insert m 7 True = ret (None, m')" "HashMap_inv m'" "HashMap_abs m' = [7 \<mapsto> True]"
    by (rule single_example)
  obtain kvs where kvs: "HashMap_iter m' = Inr kvs" "map_of kvs = [7 \<mapsto> True]" "length kvs = 1"
    using HashMap_iter_enumerates [OF m'(2)] m'(3) HashMap_len_correct [OF m'(2)] by auto
  obtain p where p: "kvs = [p]" using kvs(3) by (auto simp: length_Suc_conv)
  then have "p = (7, True)" using kvs(2) by (cases p) (metis fun_upd_same fun_upd_other map_of.simps option.discI option.inject fst_conv snd_conv)
  then show ?thesis using m m'(1) kvs(1) p by auto
qed

text \<open>
  C6: \<open>shrink_to_fit\<close> keeps the contents, and leaves the smallest raw capacity the policy gives for the
  current length.
\<close>

theorem HashMap_shrink_keeps:
  assumes "HashMap_inv m" and "reserve_budget m 0"
  shows "\<exists>m'. HashMap_shrink_to_fit m = ret m' \<and> HashMap_inv m' \<and> HashMap_abs m' = HashMap_abs m \<and>
    policy_raw_capacity (HashMap_len m) = Inr (HashMap_raw_capacity m')"
  by (rule HashMap_shrink_to_fit_correct [OF assms])

theorem HashMap_shrink_keeps_witness:
  "\<exists>m m'. HashMap_with_hasher (16, 8) (\<lambda>_ :: nat. 5) = Inr (m :: (nat, bool) hash_map) \<and>
     HashMap_shrink_to_fit m = ret m' \<and> HashMap_raw_capacity m' = 0"
proof -
  obtain m :: "(nat, bool) hash_map" where m: "HashMap_with_hasher (16, 8) (\<lambda>_. 5) = Inr m" "HashMap_inv m" "HashMap_abs m = Map.empty"
    and budget: "reserve_budget m 0" "reserve_budget m 1" "reserve_budget m 100"
    by (rule empty_example)
  have "HashMap_len m = 0" using HashMap_len_correct [OF m(2)] m(3) by (simp add: unat_eq_zero)
  then show ?thesis using HashMap_shrink_keeps [OF m(2) budget(1)] m(1) by (auto simp: policy_raw_capacity_def)
qed

text \<open>
  C7: \<open>entry(k).or_insert(v)\<close> finds or fills the place of the key: an existing value is kept, a missing one becomes
  \<open>v\<close>, and the reference it returns is to the value that the key then has.
\<close>

theorem HashMap_entry_or_insert:
  assumes "HashMap_inv m" and "reserve_budget m 1"
  shows "\<exists>e m1 t b. HashMap_entry m k = ret (e, m1) \<and> Entry_or_insert (table m1) e v = ret (t, b) \<and>
    HashMap_inv (m1\<lparr>table := t\<rparr>) \<and>
    HashMap_abs (m1\<lparr>table := t\<rparr>) = (case HashMap_abs m k of None \<Rightarrow> (HashMap_abs m)(k \<mapsto> v) | Some _ \<Rightarrow> HashMap_abs m) \<and>
    OccupiedEntry_get t b = Inr (case HashMap_abs m k of None \<Rightarrow> v | Some w \<Rightarrow> w)"
proof -
  obtain e m1 where m1: "HashMap_entry m k = ret (e, m1)" "HashMap_inv m1" "HashMap_abs m1 = HashMap_abs m"
      "entry_at m1 k e" "len_nat m1 < usable (length (slots (table m1)))"
    using HashMap_entry_correct [OF assms] by blast
  show ?thesis using Entry_or_insert_correct [OF m1(2,4,5), of v, unfolded m1(3)] m1(1) by blast
qed

theorem HashMap_entry_or_insert_witness:
  "\<exists>m e m1 t b. HashMap_with_hasher (16, 8) (\<lambda>_ :: nat. 5) = Inr (m :: (nat, bool) hash_map) \<and>
     HashMap_entry m 3 = ret (e, m1) \<and> Entry_or_insert (table m1) e True = ret (t, b) \<and>
     OccupiedEntry_get t b = Inr True"
proof -
  obtain m :: "(nat, bool) hash_map" where m: "HashMap_with_hasher (16, 8) (\<lambda>_. 5) = Inr m" "HashMap_inv m" "HashMap_abs m = Map.empty"
    and budget: "reserve_budget m 0" "reserve_budget m 1" "reserve_budget m 100"
    by (rule empty_example)
  then show ?thesis using HashMap_entry_or_insert [OF m(2) budget(2), of 3 True] m(1,3) by auto
qed

end
