(* ===== verification/Hash_Set.thy ===== *)
theory Hash_Set
  imports Hash_Map_Api
begin

section \<open>\<open>collections/hash/set.rs\<close>: the hash set\<close>

text \<open>
  The set of \<open>src/collections/hash/set.rs\<close>: a hash map with unit values. Its iterators are modelled
  by the list of items they yield; the lazily filtered ones (\<open>Difference\<close> and
  \<open>Intersection\<close>) by the loop of their \<open>next\<close>. The lemmas use the map only through the
  contract of \<open>Map_Interface\<close> and the facts about its iterator, and show that
  every operation is the operation on sets.
\<close>

record 'k hash_set =
  set_map :: "('k, unit) hash_map"

subsection \<open>Operations\<close>

definition HashSet_with_hasher :: "usize \<times> usize \<Rightarrow> ('k \<Rightarrow> u64) \<Rightarrow> 'k hash_set res" where
  "HashSet_with_hasher ly hb = bindR (HashMap_with_hasher ly hb) (\<lambda>m. Inr \<lparr>set_map = m\<rparr>)"

definition HashSet_with_capacity_and_hasher ::
    "usize \<times> usize \<Rightarrow> usize \<Rightarrow> ('k \<Rightarrow> u64) \<Rightarrow> 'k hash_set res" where
  "HashSet_with_capacity_and_hasher ly capacity hb =
     bindR (HashMap_with_capacity_and_hasher ly capacity hb) (\<lambda>m. Inr \<lparr>set_map = m\<rparr>)"

definition HashSet_capacity :: "'k hash_set \<Rightarrow> usize res" where
  "HashSet_capacity self = HashMap_capacity (set_map self)"

definition HashSet_reserve :: "'k hash_set \<Rightarrow> usize \<Rightarrow> 'k hash_set run" where
  "HashSet_reserve self additional =
     bindO (HashMap_reserve (set_map self) additional) (\<lambda>m. ret \<lparr>set_map = m\<rparr>)"

definition HashSet_shrink_to_fit :: "'k hash_set \<Rightarrow> 'k hash_set run" where
  "HashSet_shrink_to_fit self = bindO (HashMap_shrink_to_fit (set_map self)) (\<lambda>m. ret \<lparr>set_map = m\<rparr>)"

definition HashSet_len :: "'k hash_set \<Rightarrow> usize" where
  "HashSet_len self = HashMap_len (set_map self)"

definition HashSet_is_empty :: "'k hash_set \<Rightarrow> bool" where
  "HashSet_is_empty self = HashMap_is_empty (set_map self)"

definition HashSet_clear :: "'k hash_set \<Rightarrow> 'k hash_set res" where
  "HashSet_clear self = bindR (HashMap_clear (set_map self)) (\<lambda>m. Inr \<lparr>set_map = m\<rparr>)"

definition HashSet_contains :: "'k hash_set \<Rightarrow> 'k \<Rightarrow> bool res" where
  "HashSet_contains self value = HashMap_contains_key (set_map self) value"

definition HashSet_insert :: "'k hash_set \<Rightarrow> 'k \<Rightarrow> (bool \<times> 'k hash_set) run" where
  "HashSet_insert self value =
     bindO (HashMap_insert (set_map self) value ()) (\<lambda>(r, m). ret (r = None, \<lparr>set_map = m\<rparr>))"

definition HashSet_remove :: "'k hash_set \<Rightarrow> 'k \<Rightarrow> (bool \<times> 'k hash_set) run" where
  "HashSet_remove self value =
     bindO (HashMap_remove (set_map self) value) (\<lambda>(r, m). ret (r \<noteq> None, \<lparr>set_map = m\<rparr>))"

definition HashSet_iter :: "'k hash_set \<Rightarrow> 'k list res" where
  "HashSet_iter self = bindR (HashMap_iter (set_map self)) (\<lambda>kvs. Inr (map fst kvs))"

text \<open>\<open>Iterator::all\<close> with a predicate that may fault.\<close>

fun all_res :: "('a \<Rightarrow> bool res) \<Rightarrow> 'a list \<Rightarrow> bool res" where
  "all_res f [] = Inr True"
| "all_res f (x # xs) = bindR (f x) (\<lambda>b. if b then all_res f xs else Inr False)"

definition HashSet_is_disjoint :: "'k hash_set \<Rightarrow> 'k hash_set \<Rightarrow> bool res" where
  "HashSet_is_disjoint self other =
     bindR (HashSet_iter self) (all_res (\<lambda>v. bindR (HashSet_contains other v) (\<lambda>b. Inr (\<not> b))))"

definition HashSet_is_subset :: "'k hash_set \<Rightarrow> 'k hash_set \<Rightarrow> bool res" where
  "HashSet_is_subset self other = bindR (HashSet_iter self) (all_res (HashSet_contains other))"

definition HashSet_is_superset :: "'k hash_set \<Rightarrow> 'k hash_set \<Rightarrow> bool res" where
  "HashSet_is_superset self other = HashSet_is_subset other self"

definition HashSet_eq :: "'k hash_set \<Rightarrow> 'k hash_set \<Rightarrow> bool res" where
  "HashSet_eq self other =
     (if HashSet_len self \<noteq> HashSet_len other then Inr False
      else bindR (HashSet_iter self) (all_res (HashSet_contains other)))"

text \<open>The loop of \<open>next\<close> in \<open>Intersection\<close> and \<open>Difference\<close>, and the items they yield.\<close>

function filter_next ::
    "('k \<Rightarrow> bool res) \<Rightarrow> ('k, 'v) raw_table \<Rightarrow> raw_buckets \<Rightarrow> ('k option \<times> raw_buckets) res" where
  "filter_next keep t it =
     bindR (Iter_next t it) (\<lambda>(x, it').
     case x of
       None \<Rightarrow> Inr (None, it')
     | Some (elt, _) \<Rightarrow> bindR (keep elt) (\<lambda>b. if b then Inr (Some elt, it') else filter_next keep t it'))"
  by pat_completeness auto

lemma Iter_next_measure:
  assumes "Iter_next t it = Inr (Some x, it')"
  shows "unat (elems_left it') < unat (elems_left it)"
  using assms by (auto simp: Iter_next_def bindR_eq_Inr split: option.splits prod.splits
      dest: RawBuckets_next_measure)

termination filter_next
  by (relation "measure (\<lambda>(p, t, it). unat (elems_left it))") (auto dest: Iter_next_measure)

declare filter_next.simps [simp del]

lemma filter_next_measure:
  "filter_next keep t it = Inr (Some x, it') \<Longrightarrow> unat (elems_left it') < unat (elems_left it)"
proof (induction keep t it rule: filter_next.induct)
  case (1 keep t it)
  from 1(2) obtain e v it1 b where n: "Iter_next t it = Inr (Some (e, v), it1)" "keep e = Inr b"
      and r: "if b then e = x \<and> it1 = it' else filter_next keep t it1 = Inr (Some x, it')"
    by (subst (asm) filter_next.simps) (auto simp: bindR_eq_Inr split: option.splits if_splits)
  show ?case
  proof (cases b)
    case True
    then show ?thesis using r Iter_next_measure [OF n(1)] by simp
  next
    case False
    then have "unat (elems_left it') < unat (elems_left it1)"
      using 1(1) [OF n(1) refl refl refl n(2) _ ] r by simp
    then show ?thesis using Iter_next_measure [OF n(1)] by simp
  qed
qed

function filter_collect :: "('k \<Rightarrow> bool res) \<Rightarrow> ('k, 'v) raw_table \<Rightarrow> raw_buckets \<Rightarrow> 'k list res" where
  "filter_collect keep t it =
     bindR (filter_next keep t it) (\<lambda>(x, it').
     case x of None \<Rightarrow> Inr [] | Some e \<Rightarrow> bindR (filter_collect keep t it') (\<lambda>es. Inr (e # es)))"
  by pat_completeness auto
termination
  by (relation "measure (\<lambda>(p, t, it). unat (elems_left it))") (auto dest: filter_next_measure)

declare filter_collect.simps [simp del]

definition Difference_next ::
    "'k hash_set \<Rightarrow> ('k, unit) raw_table \<Rightarrow> raw_buckets \<Rightarrow> ('k option \<times> raw_buckets) res" where
  "Difference_next other = filter_next (\<lambda>elt. bindR (HashSet_contains other elt) (\<lambda>b. Inr (\<not> b)))"

definition Intersection_next ::
    "'k hash_set \<Rightarrow> ('k, unit) raw_table \<Rightarrow> raw_buckets \<Rightarrow> ('k option \<times> raw_buckets) res" where
  "Intersection_next other = filter_next (HashSet_contains other)"

definition HashSet_difference :: "'k hash_set \<Rightarrow> 'k hash_set \<Rightarrow> 'k list res" where
  "HashSet_difference self other =
     filter_collect (\<lambda>elt. bindR (HashSet_contains other elt) (\<lambda>b. Inr (\<not> b)))
       (table (set_map self)) (RawTable_raw_buckets (table (set_map self)))"

definition HashSet_intersection :: "'k hash_set \<Rightarrow> 'k hash_set \<Rightarrow> 'k list res" where
  "HashSet_intersection self other =
     filter_collect (HashSet_contains other)
       (table (set_map self)) (RawTable_raw_buckets (table (set_map self)))"

text \<open>\<open>Chain\<close> yields the items of the first iterator and then those of the second.\<close>

definition chain_res :: "'a list res \<Rightarrow> 'a list res \<Rightarrow> 'a list res" where
  "chain_res a b = bindR a (\<lambda>xs. bindR b (\<lambda>ys. Inr (xs @ ys)))"

definition HashSet_union :: "'k hash_set \<Rightarrow> 'k hash_set \<Rightarrow> 'k list res" where
  "HashSet_union self other = chain_res (HashSet_iter self) (HashSet_difference other self)"

definition HashSet_symmetric_difference :: "'k hash_set \<Rightarrow> 'k hash_set \<Rightarrow> 'k list res" where
  "HashSet_symmetric_difference self other =
     chain_res (HashSet_difference self other) (HashSet_difference other self)"

definition HashSet_extend :: "'k hash_set \<Rightarrow> usize \<Rightarrow> 'k list \<Rightarrow> 'k hash_set run" where
  "HashSet_extend self size_hint iter =
     bindO (HashMap_extend (set_map self) size_hint (map (\<lambda>k. (k, ())) iter)) (\<lambda>m. ret \<lparr>set_map = m\<rparr>)"

definition HashSet_from_iter ::
    "usize \<times> usize \<Rightarrow> ('k \<Rightarrow> u64) \<Rightarrow> usize \<Rightarrow> 'k list \<Rightarrow> 'k hash_set run" where
  "HashSet_from_iter ly hb size_hint iter =
     bindO (Some (HashSet_with_hasher ly hb)) (\<lambda>set. HashSet_extend set size_hint iter)"

text \<open>
  The operators collect the lazy iterators into a new set; the lower bound of their size hint is
  that of the underlying chain, which for the filtered parts is 0.
\<close>

definition HashSet_bitor :: "usize \<times> usize \<Rightarrow> ('k \<Rightarrow> u64) \<Rightarrow> 'k hash_set \<Rightarrow> 'k hash_set \<Rightarrow> 'k hash_set run" where
  "HashSet_bitor ly hb self rhs =
     bindO (Some (HashSet_union self rhs)) (HashSet_from_iter ly hb (HashSet_len self))"

definition HashSet_bitand :: "usize \<times> usize \<Rightarrow> ('k \<Rightarrow> u64) \<Rightarrow> 'k hash_set \<Rightarrow> 'k hash_set \<Rightarrow> 'k hash_set run" where
  "HashSet_bitand ly hb self rhs =
     bindO (Some (HashSet_intersection self rhs)) (HashSet_from_iter ly hb 0)"

definition HashSet_bitxor :: "usize \<times> usize \<Rightarrow> ('k \<Rightarrow> u64) \<Rightarrow> 'k hash_set \<Rightarrow> 'k hash_set \<Rightarrow> 'k hash_set run" where
  "HashSet_bitxor ly hb self rhs =
     bindO (Some (HashSet_symmetric_difference self rhs)) (HashSet_from_iter ly hb 0)"

definition HashSet_sub :: "usize \<times> usize \<Rightarrow> ('k \<Rightarrow> u64) \<Rightarrow> 'k hash_set \<Rightarrow> 'k hash_set \<Rightarrow> 'k hash_set run" where
  "HashSet_sub ly hb self rhs =
     bindO (Some (HashSet_difference self rhs)) (HashSet_from_iter ly hb 0)"

subsection \<open>The set it denotes\<close>

definition HashSet_abs :: "'k hash_set \<Rightarrow> 'k set" where
  "HashSet_abs s = dom (HashMap_abs (set_map s))"

definition HashSet_inv :: "'k hash_set \<Rightarrow> bool" where
  "HashSet_inv s = HashMap_inv (set_map s)"

lemma HashSet_contains_correct: "HashSet_inv s \<Longrightarrow> HashSet_contains s x = Inr (x \<in> HashSet_abs s)"
  by (simp add: HashSet_inv_def HashSet_abs_def HashSet_contains_def HashMap_contains_key_correct)

lemma HashSet_insert_correct:
  assumes inv: "HashSet_inv s"
  shows "(\<exists>msg. HashSet_insert s x = Some (Inl (Panic msg)) \<and> \<not> reserve_budget (set_map s) 1) \<or>
    (\<exists>s'. HashSet_insert s x = ret (x \<notin> HashSet_abs s, s') \<and> HashSet_inv s' \<and>
      HashSet_abs s' = insert x (HashSet_abs s))"
  using hm.ins_law [of "set_map s" x "()"] inv
  by (auto simp: HashSet_insert_def HashSet_inv_def HashSet_abs_def domIff)

lemma HashSet_remove_correct:
  assumes inv: "HashSet_inv s"
  shows "\<exists>s'. HashSet_remove s x = ret (x \<in> HashSet_abs s, s') \<and> HashSet_inv s' \<and>
    HashSet_abs s' = HashSet_abs s - {x}"
  using hm.del_law [of "set_map s" x] inv
  by (auto simp: HashSet_remove_def HashSet_inv_def HashSet_abs_def domIff)

lemma HashSet_iter_correct:
  assumes inv: "HashSet_inv s"
  shows "\<exists>ks. HashSet_iter s = Inr ks \<and> distinct ks \<and> set ks = HashSet_abs s \<and> length ks = unat (HashSet_len s)"
proof -
  obtain kvs where "HashMap_iter (set_map s) = Inr kvs" "distinct (map fst kvs)" "map_of kvs = HashMap_abs (set_map s)"
      "length kvs = unat (HashMap_len (set_map s))"
    using HashMap_iter_correct inv unfolding HashSet_inv_def by blast
  then show ?thesis
    by (auto simp: HashSet_iter_def HashSet_abs_def HashSet_len_def dom_map_of_conv_image_fst
        simp flip: \<open>map_of kvs = _\<close>)
qed

lemma all_res_Inr: "(\<And>x. f x = Inr (P x)) \<Longrightarrow> all_res f xs = Inr (\<forall>x \<in> set xs. P x)"
  by (induction xs) auto

lemma HashSet_predicates_correct:
  assumes inv: "HashSet_inv s" "HashSet_inv s'"
  shows "HashSet_is_subset s s' = Inr (HashSet_abs s \<subseteq> HashSet_abs s')"
    "HashSet_is_superset s s' = Inr (HashSet_abs s' \<subseteq> HashSet_abs s)"
    "HashSet_is_disjoint s s' = Inr (HashSet_abs s \<inter> HashSet_abs s' = {})"
    "HashSet_eq s s' = Inr (HashSet_abs s = HashSet_abs s')"
proof -
  obtain ks where ks: "HashSet_iter s = Inr ks" "distinct ks" "set ks = HashSet_abs s" "length ks = unat (HashSet_len s)"
    using HashSet_iter_correct [OF inv(1)] by blast
  obtain ks' where ks': "HashSet_iter s' = Inr ks'" "distinct ks'" "set ks' = HashSet_abs s'"
      "length ks' = unat (HashSet_len s')"
    using HashSet_iter_correct [OF inv(2)] by blast
  have all: "all_res (HashSet_contains s') xs = Inr (\<forall>x \<in> set xs. x \<in> HashSet_abs s')"
    "all_res (HashSet_contains s) xs = Inr (\<forall>x \<in> set xs. x \<in> HashSet_abs s)"
    "all_res (\<lambda>v. bindR (HashSet_contains s' v) (\<lambda>b. Inr (\<not> b))) xs = Inr (\<forall>x \<in> set xs. x \<notin> HashSet_abs s')" for xs
    using inv by (auto intro!: all_res_Inr simp: HashSet_contains_correct)
  show "HashSet_is_subset s s' = Inr (HashSet_abs s \<subseteq> HashSet_abs s')"
    "HashSet_is_superset s s' = Inr (HashSet_abs s' \<subseteq> HashSet_abs s)"
    "HashSet_is_disjoint s s' = Inr (HashSet_abs s \<inter> HashSet_abs s' = {})"
    using ks(1,3) ks'(1,3) all
    by (auto simp: HashSet_is_subset_def HashSet_is_superset_def HashSet_is_disjoint_def)
  have card: "card (HashSet_abs s) = unat (HashSet_len s)" "card (HashSet_abs s') = unat (HashSet_len s')"
    using ks ks' distinct_card by metis+
  have "finite (HashSet_abs s')" unfolding ks'(3) [symmetric] by simp
  then have "HashSet_abs s \<subseteq> HashSet_abs s' \<longleftrightarrow> HashSet_abs s = HashSet_abs s'" if "HashSet_len s = HashSet_len s'"
    using card that card_subset_eq [of "HashSet_abs s'" "HashSet_abs s"] by auto
  then show "HashSet_eq s s' = Inr (HashSet_abs s = HashSet_abs s')"
    using ks(1,3) all(1) card by (auto simp: HashSet_eq_def unat_eq_iff)
qed

subsection \<open>The lazy set operations\<close>

abbreviation keys_from :: "('k, 'v) raw_table \<Rightarrow> raw_buckets \<Rightarrow> 'k list" where
  "keys_from t it \<equiv> map (fst \<circ> snd) (full_list (drop (unat (rb_idx it)) (slots t)))"

lemma Iter_next_ok:
  assumes wf: "wf_table t" and ok: "iter_ok t it"
  shows "case full_list (drop (unat (rb_idx it)) (slots t)) of
      [] \<Rightarrow> Iter_next t it = Inr (None, it)
    | (h, kv) # es \<Rightarrow> \<exists>it'. Iter_next t it = Inr (Some kv, it') \<and> iter_ok t it' \<and>
        full_list (drop (unat (rb_idx it')) (slots t)) = es"
proof (cases "full_list (drop (unat (rb_idx it)) (slots t))")
  case Nil
  then show ?thesis using RawBuckets_next_ok [OF wf ok] by (simp add: Iter_next_def)
next
  case (Cons e es)
  then obtain p it' where p: "RawBuckets_next t it = Inr (Some p, it')" "iter_ok t it'"
      "unat p < length (slots t)" "slots t ! unat p = Some e" "full_list (drop (unat (rb_idx it')) (slots t)) = es"
    using RawBuckets_next_ok [OF wf ok] by auto
  obtain h k v where e: "e = (h, k, v)" by (cases e) auto
  then show ?thesis using Cons p FullBucket_ops(4) [OF wf p(3), of h k v] by (simp add: Iter_next_def)
qed

lemma filter_next_ok:
  assumes wf: "wf_table t" and keep: "\<And>x. keep x = Inr (P x)"
  shows "iter_ok t it \<Longrightarrow>
    (case filter P (keys_from t it) of
       [] \<Rightarrow> \<exists>it'. filter_next keep t it = Inr (None, it')
     | x # xs \<Rightarrow> \<exists>it'. filter_next keep t it = Inr (Some x, it') \<and> iter_ok t it' \<and> filter P (keys_from t it') = xs)"
proof (induction "full_list (drop (unat (rb_idx it)) (slots t))" arbitrary: it)
  case Nil
  then show ?case using Iter_next_ok [OF wf Nil.prems] by (subst filter_next.simps) auto
next
  case (Cons e es)
  obtain h k v where e: "e = (h, k, v)" by (cases e) auto
  obtain it1 where it1: "Iter_next t it = Inr (Some (k, v), it1)" "iter_ok t it1"
      "full_list (drop (unat (rb_idx it1)) (slots t)) = es"
    using Iter_next_ok [OF wf Cons.prems] Cons.hyps(2) [symmetric] e by auto
  have keys: "keys_from t it = k # keys_from t it1" using Cons.hyps(2) [symmetric] e it1(3) by simp
  have step: "filter_next keep t it = (if P k then Inr (Some k, it1) else filter_next keep t it1)"
    by (subst filter_next.simps) (simp add: it1(1) keep)
  show ?case using Cons.hyps(1) [OF it1(3) [symmetric] it1(2)] it1(2) unfolding keys step by simp
qed

lemma filter_collect_ok:
  assumes wf: "wf_table t" and keep: "\<And>x. keep x = Inr (P x)"
  shows "iter_ok t it \<Longrightarrow> filter_collect keep t it = Inr (filter P (keys_from t it))"
proof (induction "filter P (keys_from t it)" arbitrary: it)
  case Nil
  then show ?case using filter_next_ok [of t keep P, OF wf keep Nil.prems]
    by (subst filter_collect.simps) (auto simp flip: Nil.hyps)
next
  case (Cons x xs)
  obtain it' where it': "filter_next keep t it = Inr (Some x, it')" "iter_ok t it'" "filter P (keys_from t it') = xs"
    using filter_next_ok [of t keep P, OF wf keep Cons.prems] by (auto simp flip: Cons.hyps(2))
  then show ?case using Cons.hyps(1) [OF it'(3) [symmetric] it'(2)]
    by (subst filter_collect.simps) (simp flip: Cons.hyps(2))
qed

lemma HashSet_filter_correct:
  assumes inv: "HashSet_inv s" and keep: "\<And>x. keep x = Inr (P x)"
  shows "\<exists>ks. filter_collect keep (table (set_map s)) (RawTable_raw_buckets (table (set_map s))) = Inr ks \<and>
    distinct ks \<and> set ks = {x \<in> HashSet_abs s. P x}"
proof -
  let ?t = "table (set_map s)"
  have i: "HashMap_inv (set_map s)" using inv by (simp add: HashSet_inv_def)
  note wf = inv_wf [OF i]
  have "keys_from ?t (RawTable_raw_buckets ?t) = map (fst \<circ> snd) (full_list (slots ?t))"
    by (simp add: RawTable_raw_buckets_def)
  moreover have "distinct (map (fst \<circ> snd) (full_list (slots ?t)))"
    using inv_entries [OF i] by (simp add: entries_ok_def)
  moreover have "set (map (fst \<circ> snd) (full_list (slots ?t))) = HashSet_abs s"
    by (simp add: HashSet_abs_def HashMap_abs_def entries_map_def dom_map_of_conv_image_fst image_comp)
  ultimately show ?thesis
    using filter_collect_ok [of ?t keep P, OF wf keep iter_ok_raw_buckets [OF wf]] by auto
qed

lemma HashSet_lazy_correct:
  assumes inv: "HashSet_inv s" "HashSet_inv s'"
  shows "\<exists>ks. HashSet_difference s s' = Inr ks \<and> distinct ks \<and> set ks = HashSet_abs s - HashSet_abs s'"
    "\<exists>ks. HashSet_intersection s s' = Inr ks \<and> distinct ks \<and> set ks = HashSet_abs s \<inter> HashSet_abs s'"
proof -
  have "\<exists>ks. HashSet_difference s s' = Inr ks \<and> distinct ks \<and> set ks = {x \<in> HashSet_abs s. x \<notin> HashSet_abs s'}"
    unfolding HashSet_difference_def
    using inv by (intro HashSet_filter_correct) (simp_all add: HashSet_contains_correct)
  then show "\<exists>ks. HashSet_difference s s' = Inr ks \<and> distinct ks \<and> set ks = HashSet_abs s - HashSet_abs s'"
    by (simp add: set_diff_eq)
  have "\<exists>ks. HashSet_intersection s s' = Inr ks \<and> distinct ks \<and> set ks = {x \<in> HashSet_abs s. x \<in> HashSet_abs s'}"
    unfolding HashSet_intersection_def
    using inv by (intro HashSet_filter_correct) (simp_all add: HashSet_contains_correct)
  then show "\<exists>ks. HashSet_intersection s s' = Inr ks \<and> distinct ks \<and> set ks = HashSet_abs s \<inter> HashSet_abs s'"
    by (simp add: Int_def)
qed

text \<open>Union and symmetric difference yield no element twice.\<close>

lemma HashSet_chain_correct:
  assumes inv: "HashSet_inv s" "HashSet_inv s'"
  shows "\<exists>ks. HashSet_union s s' = Inr ks \<and> distinct ks \<and> set ks = HashSet_abs s \<union> HashSet_abs s'"
    "\<exists>ks. HashSet_symmetric_difference s s' = Inr ks \<and> distinct ks \<and>
      set ks = (HashSet_abs s - HashSet_abs s') \<union> (HashSet_abs s' - HashSet_abs s)"
proof -
  obtain d where d: "HashSet_difference s s' = Inr d" "distinct d" "set d = HashSet_abs s - HashSet_abs s'"
    using HashSet_lazy_correct(1) [OF inv] by blast
  obtain e where e: "HashSet_difference s' s = Inr e" "distinct e" "set e = HashSet_abs s' - HashSet_abs s"
    using HashSet_lazy_correct(1) [OF inv(2,1)] by blast
  obtain ks where "HashSet_iter s = Inr ks" "distinct ks" "set ks = HashSet_abs s"
    using HashSet_iter_correct [OF inv(1)] by blast
  then show "\<exists>ks. HashSet_union s s' = Inr ks \<and> distinct ks \<and> set ks = HashSet_abs s \<union> HashSet_abs s'"
    using e by (auto simp: HashSet_union_def chain_res_def)
  show "\<exists>ks. HashSet_symmetric_difference s s' = Inr ks \<and> distinct ks \<and>
      set ks = (HashSet_abs s - HashSet_abs s') \<union> (HashSet_abs s' - HashSet_abs s)"
    using d e by (auto simp: HashSet_symmetric_difference_def chain_res_def)
qed

lemma HashSet_from_iter_correct:
  assumes "HashSet_from_iter ly hb hint ks = ret s"
  shows "HashSet_inv s \<and> HashSet_abs s = set ks"
proof -
  have "HashMap_from_iter ly hb hint (map (\<lambda>k. (k, ())) ks) = ret (set_map s)"
    using assms by (auto simp: HashSet_from_iter_def HashSet_extend_def HashSet_with_hasher_def
        HashMap_from_iter_def bindO_eq_ret bindR_eq_Inr)
  then show ?thesis using HashMap_from_iter_correct
    by (fastforce simp: HashSet_inv_def HashSet_abs_def dom_map_of_conv_image_fst image_image)
qed

lemma HashSet_operators_correct:
  assumes inv: "HashSet_inv s" "HashSet_inv s'"
  shows "HashSet_bitor ly hb s s' = ret r \<Longrightarrow> HashSet_inv r \<and> HashSet_abs r = HashSet_abs s \<union> HashSet_abs s'"
    "HashSet_bitand ly hb s s' = ret r \<Longrightarrow> HashSet_inv r \<and> HashSet_abs r = HashSet_abs s \<inter> HashSet_abs s'"
    "HashSet_sub ly hb s s' = ret r \<Longrightarrow> HashSet_inv r \<and> HashSet_abs r = HashSet_abs s - HashSet_abs s'"
    "HashSet_bitxor ly hb s s' = ret r \<Longrightarrow> HashSet_inv r \<and>
      HashSet_abs r = (HashSet_abs s - HashSet_abs s') \<union> (HashSet_abs s' - HashSet_abs s)"
  using HashSet_lazy_correct [OF inv] HashSet_chain_correct [OF inv] HashSet_from_iter_correct [of ly hb]
  by (auto simp: HashSet_bitor_def HashSet_bitand_def HashSet_sub_def HashSet_bitxor_def)

subsection \<open>Properties of the hash set\<close>

lemma HashSet_example:
  obtains s s' :: "nat hash_set" where "HashSet_with_hasher (8, 8) (\<lambda>_. 5) = Inr s" "HashSet_inv s"
    "HashSet_abs s = {}" "HashSet_insert s 4 = ret (True, s')" "HashSet_inv s'" "HashSet_abs s' = {4}"
proof -
  obtain m :: "(nat, unit) hash_map" where m: "HashMap_with_hasher (8, 8) (\<lambda>_. 5) = Inr m"
      "HashMap_inv m" "HashMap_abs m = Map.empty" "kv_layout (table m) = (8, 8)" "len_nat m = 0"
    by (rule new_map)
  let ?s = "\<lparr>set_map = m\<rparr>"
  have s: "HashSet_with_hasher (8, 8) (\<lambda>_. 5) = Inr ?s" "HashSet_inv ?s" "HashSet_abs ?s = {}"
    using m by (simp_all add: HashSet_with_hasher_def HashSet_inv_def HashSet_abs_def)
  have "fits (8, 8) n" if "n \<le> 1000" for n
    using that unfolding fits_def by (auto intro!: exI [of _ 3])
  then have "reserve_budget m 1" using m(4,5) by (simp add: reserve_budget_def)
  then obtain s' where "HashSet_insert ?s 4 = ret (True, s')" "HashSet_inv s'" "HashSet_abs s' = {4}"
    using HashSet_insert_correct [OF s(2), of 4] s(3) by auto
  then show ?thesis using that [OF s] by blast
qed

text \<open>
  C9: the set operations are those of mathematics: union, intersection, difference and symmetric difference
  yield each of their elements exactly once, and the predicates decide inclusion, disjointness and equality.
\<close>

theorem HashSet_algebra:
  assumes "HashSet_inv s" and "HashSet_inv s'"
  shows "\<exists>u i d x. HashSet_union s s' = Inr u \<and> distinct u \<and> set u = HashSet_abs s \<union> HashSet_abs s' \<and>
    HashSet_intersection s s' = Inr i \<and> distinct i \<and> set i = HashSet_abs s \<inter> HashSet_abs s' \<and>
    HashSet_difference s s' = Inr d \<and> distinct d \<and> set d = HashSet_abs s - HashSet_abs s' \<and>
    HashSet_symmetric_difference s s' = Inr x \<and> distinct x \<and>
      set x = (HashSet_abs s - HashSet_abs s') \<union> (HashSet_abs s' - HashSet_abs s) \<and>
    HashSet_is_subset s s' = Inr (HashSet_abs s \<subseteq> HashSet_abs s') \<and>
    HashSet_is_disjoint s s' = Inr (HashSet_abs s \<inter> HashSet_abs s' = {}) \<and>
    HashSet_eq s s' = Inr (HashSet_abs s = HashSet_abs s')"
  using HashSet_lazy_correct [OF assms] HashSet_chain_correct [OF assms] HashSet_predicates_correct [OF assms]
  by metis

theorem HashSet_algebra_witness:
  "\<exists>s s' u. HashSet_with_hasher (8, 8) (\<lambda>_ :: nat. 5) = Inr s \<and> HashSet_insert s 4 = ret (True, s') \<and>
     HashSet_union s s' = Inr u \<and> set u = {4} \<and> HashSet_is_subset s s' = Inr True \<and> HashSet_eq s s' = Inr False"
proof -
  obtain s s' :: "nat hash_set" where s: "HashSet_with_hasher (8, 8) (\<lambda>_. 5) = Inr s" "HashSet_inv s"
      "HashSet_abs s = {}" "HashSet_insert s 4 = ret (True, s')" "HashSet_inv s'" "HashSet_abs s' = {4}"
    by (rule HashSet_example)
  then show ?thesis using HashSet_algebra [OF s(2,5)] by auto
qed

text \<open>
  \<open>insert\<close> reports whether the value was new and \<open>remove\<close> whether it was present; a removed value is
  gone, and inserting it back restores the set.
\<close>

lemma HashSet_insert_remove:
  assumes "HashSet_inv s" and "reserve_budget (set_map s) 1"
  shows "\<exists>s1 s2. HashSet_insert s x = ret (x \<notin> HashSet_abs s, s1) \<and> HashSet_abs s1 = insert x (HashSet_abs s) \<and>
    HashSet_remove s1 x = ret (True, s2) \<and> HashSet_inv s2 \<and> HashSet_abs s2 = HashSet_abs s - {x} \<and>
    HashSet_contains s2 x = Inr False"
proof -
  obtain s1 where s1: "HashSet_insert s x = ret (x \<notin> HashSet_abs s, s1)" "HashSet_inv s1"
      "HashSet_abs s1 = insert x (HashSet_abs s)"
    using HashSet_insert_correct [OF assms(1), of x] assms(2) by auto
  obtain s2 where s2: "HashSet_remove s1 x = ret (True, s2)" "HashSet_inv s2" "HashSet_abs s2 = HashSet_abs s - {x}"
    using HashSet_remove_correct [OF s1(2), of x] s1(3) by auto
  then show ?thesis using s1 HashSet_contains_correct [OF s2(2), of x] by auto
qed

lemma HashSet_insert_remove_example:
  "\<exists>s s1 s2. HashSet_with_hasher (8, 8) (\<lambda>_ :: nat. 5) = Inr s \<and> HashSet_insert s 4 = ret (True, s1) \<and>
     HashSet_remove s1 4 = ret (True, s2) \<and> HashSet_contains s2 4 = Inr False"
proof -
  obtain m :: "(nat, unit) hash_map" where m: "HashMap_with_hasher (8, 8) (\<lambda>_. 5) = Inr m"
      "HashMap_inv m" "HashMap_abs m = Map.empty" "kv_layout (table m) = (8, 8)" "len_nat m = 0"
    by (rule new_map)
  let ?s = "\<lparr>set_map = m\<rparr>"
  have "fits (8, 8) n" if "n \<le> 1000" for n
    using that unfolding fits_def by (auto intro!: exI [of _ 3])
  then have b: "reserve_budget (set_map ?s) 1" using m(4,5) by (simp add: reserve_budget_def)
  have s: "HashSet_inv ?s" "HashSet_with_hasher (8, 8) (\<lambda>_. 5) = Inr ?s" "HashSet_abs ?s = {}"
    using m by (simp_all add: HashSet_inv_def HashSet_with_hasher_def HashSet_abs_def)
  then show ?thesis using HashSet_insert_remove [OF s(1) b, of 4] by auto
qed

end
