(* ===== verification/Ip_Addr.thy ===== *)
theory Ip_Addr
  imports Rust_Base
begin

section \<open>\<open>net/ip.rs\<close> and \<open>net/addr.rs\<close>: IP and socket addresses\<close>

text \<open>
  The address types of \<open>src/net/ip.rs\<close> and \<open>src/net/addr.rs\<close>. An IPv4 address is the 32-bit field
  \<open>s_addr\<close> in network byte order, an IPv6 address its sixteen bytes; the conversions between
  host and network order are those of a little-endian target. A string is its list of bytes.
  The integer formats \<open>{}\<close> and \<open>{:x}\<close> of the formatting machinery are the digits of the number.
\<close>

subsection \<open>Byte order\<close>

definition hton32 :: "u32 \<Rightarrow> u32" where
  "hton32 x = push_bit 24 (x AND 0xFF) OR push_bit 8 (x AND 0xFF00) OR
     drop_bit 8 (x AND 0xFF0000) OR drop_bit 24 (x AND 0xFF000000)"

abbreviation ntoh32 :: "u32 \<Rightarrow> u32" where "ntoh32 \<equiv> hton32"

definition hton16 :: "u16 \<Rightarrow> u16" where
  "hton16 x = push_bit 8 (x AND 0xFF) OR drop_bit 8 (x AND 0xFF00)"

abbreviation ntoh16 :: "u16 \<Rightarrow> u16" where "ntoh16 \<equiv> hton16"

subsection \<open>IPv4 addresses\<close>

record Ipv4Addr =
  s_addr :: u32

definition Ipv4Addr_new :: "u8 \<Rightarrow> u8 \<Rightarrow> u8 \<Rightarrow> u8 \<Rightarrow> Ipv4Addr" where
  "Ipv4Addr_new a b c d =
     \<lparr>s_addr = hton32 (push_bit 24 (ucast a) OR push_bit 16 (ucast b) OR push_bit 8 (ucast c) OR ucast d)\<rparr>"

definition Ipv4Addr_localhost :: Ipv4Addr where "Ipv4Addr_localhost = Ipv4Addr_new 127 0 0 1"

definition Ipv4Addr_unspecified :: Ipv4Addr where "Ipv4Addr_unspecified = Ipv4Addr_new 0 0 0 0"

definition Ipv4Addr_octets :: "Ipv4Addr \<Rightarrow> u8 \<times> u8 \<times> u8 \<times> u8" where
  "Ipv4Addr_octets self =
     (let bits = ntoh32 (s_addr self)
      in (ucast (drop_bit 24 bits), ucast (drop_bit 16 bits), ucast (drop_bit 8 bits), ucast bits))"

definition Ipv4Addr_is_unspecified :: "Ipv4Addr \<Rightarrow> bool" where
  "Ipv4Addr_is_unspecified self \<longleftrightarrow> s_addr self = 0"

definition Ipv4Addr_is_loopback :: "Ipv4Addr \<Rightarrow> bool" where
  "Ipv4Addr_is_loopback self = (case Ipv4Addr_octets self of (a, _) \<Rightarrow> a = 127)"

definition Ipv4Addr_is_private :: "Ipv4Addr \<Rightarrow> bool" where
  "Ipv4Addr_is_private self =
     (case Ipv4Addr_octets self of (a, b, _) \<Rightarrow>
        if a = 10 then True
        else if a = 172 \<and> 16 \<le> b \<and> b \<le> 31 then True
        else a = 192 \<and> b = 168)"

definition Ipv4Addr_is_link_local :: "Ipv4Addr \<Rightarrow> bool" where
  "Ipv4Addr_is_link_local self = (case Ipv4Addr_octets self of (a, b, _) \<Rightarrow> a = 169 \<and> b = 254)"

definition Ipv4Addr_is_multicast :: "Ipv4Addr \<Rightarrow> bool" where
  "Ipv4Addr_is_multicast self = (case Ipv4Addr_octets self of (a, _) \<Rightarrow> 224 \<le> a \<and> a \<le> 239)"

definition Ipv4Addr_is_broadcast :: "Ipv4Addr \<Rightarrow> bool" where
  "Ipv4Addr_is_broadcast self =
     (case Ipv4Addr_octets self of (a, b, c, d) \<Rightarrow> a = 255 \<and> b = 255 \<and> c = 255 \<and> d = 255)"

definition Ipv4Addr_is_documentation :: "Ipv4Addr \<Rightarrow> bool" where
  "Ipv4Addr_is_documentation self =
     (case Ipv4Addr_octets self of (a, b, c, _) \<Rightarrow>
        (a, b, c) = (192, 0, 2) \<or> (a, b, c) = (198, 51, 100) \<or> (a, b, c) = (203, 0, 113))"

definition Ipv4Addr_is_global :: "Ipv4Addr \<Rightarrow> bool" where
  "Ipv4Addr_is_global self \<longleftrightarrow>
     \<not> Ipv4Addr_is_private self \<and> \<not> Ipv4Addr_is_loopback self \<and> \<not> Ipv4Addr_is_link_local self \<and>
     \<not> Ipv4Addr_is_broadcast self \<and> \<not> Ipv4Addr_is_documentation self \<and> \<not> Ipv4Addr_is_unspecified self"

definition Ipv4Addr_to_u32 :: "Ipv4Addr \<Rightarrow> u32" where
  "Ipv4Addr_to_u32 ip =
     (case Ipv4Addr_octets ip of (a, b, c, d) \<Rightarrow>
        push_bit 24 (ucast a) + push_bit 16 (ucast b) + push_bit 8 (ucast c) + ucast d)"

definition Ipv4Addr_from_u32 :: "u32 \<Rightarrow> Ipv4Addr" where
  "Ipv4Addr_from_u32 ip =
     Ipv4Addr_new (ucast (drop_bit 24 ip)) (ucast (drop_bit 16 ip)) (ucast (drop_bit 8 ip)) (ucast ip)"

definition Ipv4Addr_cmp :: "Ipv4Addr \<Rightarrow> Ipv4Addr \<Rightarrow> Ordering" where
  "Ipv4Addr_cmp a b = cmp_ord (ntoh32 (s_addr a)) (ntoh32 (s_addr b))"

subsection \<open>IPv6 addresses\<close>

record Ipv6Addr =
  s6_addr :: "u8 list"

definition Ipv6Addr_new :: "u16 \<Rightarrow> u16 \<Rightarrow> u16 \<Rightarrow> u16 \<Rightarrow> u16 \<Rightarrow> u16 \<Rightarrow> u16 \<Rightarrow> u16 \<Rightarrow> Ipv6Addr" where
  "Ipv6Addr_new a b c d e f g h =
     \<lparr>s6_addr = [ucast (drop_bit 8 a), ucast a, ucast (drop_bit 8 b), ucast b,
                 ucast (drop_bit 8 c), ucast c, ucast (drop_bit 8 d), ucast d,
                 ucast (drop_bit 8 e), ucast e, ucast (drop_bit 8 f), ucast f,
                 ucast (drop_bit 8 g), ucast g, ucast (drop_bit 8 h), ucast h]\<rparr>"

definition be16 :: "u8 \<Rightarrow> u8 \<Rightarrow> u16" where
  "be16 x y = push_bit 8 (ucast x) OR ucast y"

definition Ipv6Addr_segments :: "Ipv6Addr \<Rightarrow> u16 list" where
  "Ipv6Addr_segments self =
     (let arr = s6_addr self in
      [be16 (arr ! 0) (arr ! 1), be16 (arr ! 2) (arr ! 3), be16 (arr ! 4) (arr ! 5), be16 (arr ! 6) (arr ! 7),
       be16 (arr ! 8) (arr ! 9), be16 (arr ! 10) (arr ! 11), be16 (arr ! 12) (arr ! 13), be16 (arr ! 14) (arr ! 15)])"

definition Ipv6Addr_octets :: "Ipv6Addr \<Rightarrow> u8 list" where
  "Ipv6Addr_octets self = s6_addr self"

definition Ipv6Addr_is_unspecified :: "Ipv6Addr \<Rightarrow> bool" where
  "Ipv6Addr_is_unspecified self \<longleftrightarrow> Ipv6Addr_segments self = [0, 0, 0, 0, 0, 0, 0, 0]"

definition Ipv6Addr_is_loopback :: "Ipv6Addr \<Rightarrow> bool" where
  "Ipv6Addr_is_loopback self \<longleftrightarrow> Ipv6Addr_segments self = [0, 0, 0, 0, 0, 0, 0, 1]"

definition Ipv6Addr_is_unique_local :: "Ipv6Addr \<Rightarrow> bool" where
  "Ipv6Addr_is_unique_local self \<longleftrightarrow> Ipv6Addr_segments self ! 0 AND 0xfe00 = 0xfc00"

definition Ipv6Addr_is_unicast_link_local :: "Ipv6Addr \<Rightarrow> bool" where
  "Ipv6Addr_is_unicast_link_local self \<longleftrightarrow> Ipv6Addr_segments self ! 0 AND 0xffc0 = 0xfe80"

definition Ipv6Addr_is_unicast_site_local :: "Ipv6Addr \<Rightarrow> bool" where
  "Ipv6Addr_is_unicast_site_local self \<longleftrightarrow> Ipv6Addr_segments self ! 0 AND 0xffc0 = 0xfec0"

definition Ipv6Addr_is_documentation :: "Ipv6Addr \<Rightarrow> bool" where
  "Ipv6Addr_is_documentation self \<longleftrightarrow>
     Ipv6Addr_segments self ! 0 = 0x2001 \<and> Ipv6Addr_segments self ! 1 = 0xdb8"

definition Ipv6Addr_is_multicast :: "Ipv6Addr \<Rightarrow> bool" where
  "Ipv6Addr_is_multicast self \<longleftrightarrow> Ipv6Addr_segments self ! 0 AND 0xff00 = 0xff00"

definition Ipv6Addr_is_unicast_global :: "Ipv6Addr \<Rightarrow> bool" where
  "Ipv6Addr_is_unicast_global self \<longleftrightarrow>
     \<not> Ipv6Addr_is_multicast self \<and> \<not> Ipv6Addr_is_loopback self \<and> \<not> Ipv6Addr_is_unicast_link_local self \<and>
     \<not> Ipv6Addr_is_unicast_site_local self \<and> \<not> Ipv6Addr_is_unique_local self \<and>
     \<not> Ipv6Addr_is_unspecified self \<and> \<not> Ipv6Addr_is_documentation self"

datatype Ipv6MulticastScope =
  InterfaceLocal | LinkLocal | RealmLocal | AdminLocal | SiteLocal | OrganizationLocal | Global

definition Ipv6Addr_multicast_scope :: "Ipv6Addr \<Rightarrow> Ipv6MulticastScope option" where
  "Ipv6Addr_multicast_scope self =
     (if Ipv6Addr_is_multicast self then
        (let s = Ipv6Addr_segments self ! 0 AND 0x000f in
         if s = 1 then Some InterfaceLocal
         else if s = 2 then Some LinkLocal
         else if s = 3 then Some RealmLocal
         else if s = 4 then Some AdminLocal
         else if s = 5 then Some SiteLocal
         else if s = 8 then Some OrganizationLocal
         else if s = 14 then Some Global
         else None)
      else None)"

definition Ipv6Addr_is_global :: "Ipv6Addr \<Rightarrow> bool" where
  "Ipv6Addr_is_global self =
     (case Ipv6Addr_multicast_scope self of
        Some Global \<Rightarrow> True
      | None \<Rightarrow> Ipv6Addr_is_unicast_global self
      | _ \<Rightarrow> False)"

definition Ipv6Addr_to_ipv4 :: "Ipv6Addr \<Rightarrow> Ipv4Addr option" where
  "Ipv6Addr_to_ipv4 self =
     (case Ipv6Addr_segments self of
        [a, b, c, d, e, f, g, h] \<Rightarrow>
          if a = 0 \<and> b = 0 \<and> c = 0 \<and> d = 0 \<and> e = 0 \<and> (f = 0 \<or> f = 0xffff)
          then Some (Ipv4Addr_new (ucast (drop_bit 8 g)) (ucast g) (ucast (drop_bit 8 h)) (ucast h))
          else None
      | _ \<Rightarrow> None)"

definition Ipv4Addr_to_ipv6_compatible :: "Ipv4Addr \<Rightarrow> Ipv6Addr" where
  "Ipv4Addr_to_ipv6_compatible self =
     (case Ipv4Addr_octets self of (a, b, c, d) \<Rightarrow>
        Ipv6Addr_new 0 0 0 0 0 0 (be16 a b) (be16 c d))"

definition Ipv4Addr_to_ipv6_mapped :: "Ipv4Addr \<Rightarrow> Ipv6Addr" where
  "Ipv4Addr_to_ipv6_mapped self =
     (case Ipv4Addr_octets self of (a, b, c, d) \<Rightarrow>
        Ipv6Addr_new 0 0 0 0 0 0xffff (be16 a b) (be16 c d))"

definition Ipv6Addr_from_u128 :: "128 word \<Rightarrow> Ipv6Addr" where
  "Ipv6Addr_from_u128 ip =
     Ipv6Addr_new (ucast (drop_bit 112 ip)) (ucast (drop_bit 96 ip)) (ucast (drop_bit 80 ip))
       (ucast (drop_bit 64 ip)) (ucast (drop_bit 48 ip)) (ucast (drop_bit 32 ip))
       (ucast (drop_bit 16 ip)) (ucast ip)"

definition Ipv6Addr_to_u128 :: "Ipv6Addr \<Rightarrow> 128 word" where
  "Ipv6Addr_to_u128 ip =
     (case Ipv6Addr_segments ip of
        [a, b, c, d, e, f, g, h] \<Rightarrow>
          push_bit 112 (ucast a) + push_bit 96 (ucast b) + push_bit 80 (ucast c) +
          push_bit 64 (ucast d) + push_bit 48 (ucast e) + push_bit 32 (ucast f) +
          push_bit 16 (ucast g) + ucast h
      | _ \<Rightarrow> 0)"

definition Ipv6Addr_cmp :: "Ipv6Addr \<Rightarrow> Ipv6Addr \<Rightarrow> Ordering" where
  "Ipv6Addr_cmp a b = cmp_list (Ipv6Addr_segments a) (Ipv6Addr_segments b)"

definition Ipv6Addr_localhost :: Ipv6Addr where "Ipv6Addr_localhost = Ipv6Addr_new 0 0 0 0 0 0 0 1"

definition Ipv6Addr_unspecified :: Ipv6Addr where "Ipv6Addr_unspecified = Ipv6Addr_new 0 0 0 0 0 0 0 0"

subsection \<open>Either kind\<close>

datatype IpAddr = V4 Ipv4Addr | V6 Ipv6Addr

definition IpAddr_is_unspecified :: "IpAddr \<Rightarrow> bool" where
  "IpAddr_is_unspecified self = (case self of V4 a \<Rightarrow> Ipv4Addr_is_unspecified a | V6 a \<Rightarrow> Ipv6Addr_is_unspecified a)"

definition IpAddr_is_loopback :: "IpAddr \<Rightarrow> bool" where
  "IpAddr_is_loopback self = (case self of V4 a \<Rightarrow> Ipv4Addr_is_loopback a | V6 a \<Rightarrow> Ipv6Addr_is_loopback a)"

definition IpAddr_is_global :: "IpAddr \<Rightarrow> bool" where
  "IpAddr_is_global self = (case self of V4 a \<Rightarrow> Ipv4Addr_is_global a | V6 a \<Rightarrow> Ipv6Addr_is_global a)"

definition IpAddr_is_multicast :: "IpAddr \<Rightarrow> bool" where
  "IpAddr_is_multicast self = (case self of V4 a \<Rightarrow> Ipv4Addr_is_multicast a | V6 a \<Rightarrow> Ipv6Addr_is_multicast a)"

definition IpAddr_is_documentation :: "IpAddr \<Rightarrow> bool" where
  "IpAddr_is_documentation self =
     (case self of V4 a \<Rightarrow> Ipv4Addr_is_documentation a | V6 a \<Rightarrow> Ipv6Addr_is_documentation a)"

definition IpAddr_is_ipv4 :: "IpAddr \<Rightarrow> bool" where
  "IpAddr_is_ipv4 self = (case self of V4 _ \<Rightarrow> True | V6 _ \<Rightarrow> False)"

definition IpAddr_is_ipv6 :: "IpAddr \<Rightarrow> bool" where
  "IpAddr_is_ipv6 self = (case self of V4 _ \<Rightarrow> False | V6 _ \<Rightarrow> True)"

text \<open>Comparisons between an address of one version and one of either version.\<close>

definition IpAddr_eq_Ipv4Addr :: "IpAddr \<Rightarrow> Ipv4Addr \<Rightarrow> bool" where
  "IpAddr_eq_Ipv4Addr self other = (case self of V4 v4 \<Rightarrow> v4 = other | V6 _ \<Rightarrow> False)"

definition IpAddr_eq_Ipv6Addr :: "IpAddr \<Rightarrow> Ipv6Addr \<Rightarrow> bool" where
  "IpAddr_eq_Ipv6Addr self other = (case self of V4 _ \<Rightarrow> False | V6 v6 \<Rightarrow> v6 = other)"

definition IpAddr_partial_cmp_Ipv4Addr :: "IpAddr \<Rightarrow> Ipv4Addr \<Rightarrow> Ordering option" where
  "IpAddr_partial_cmp_Ipv4Addr self other =
     (case self of V4 v4 \<Rightarrow> Some (Ipv4Addr_cmp v4 other) | V6 _ \<Rightarrow> Some Greater)"

definition Ipv4Addr_partial_cmp_IpAddr :: "Ipv4Addr \<Rightarrow> IpAddr \<Rightarrow> Ordering option" where
  "Ipv4Addr_partial_cmp_IpAddr self other =
     (case other of V4 v4 \<Rightarrow> Some (Ipv4Addr_cmp self v4) | V6 _ \<Rightarrow> Some Less)"

definition IpAddr_partial_cmp_Ipv6Addr :: "IpAddr \<Rightarrow> Ipv6Addr \<Rightarrow> Ordering option" where
  "IpAddr_partial_cmp_Ipv6Addr self other =
     (case self of V4 _ \<Rightarrow> Some Less | V6 v6 \<Rightarrow> Some (Ipv6Addr_cmp v6 other))"

definition Ipv6Addr_partial_cmp_IpAddr :: "Ipv6Addr \<Rightarrow> IpAddr \<Rightarrow> Ordering option" where
  "Ipv6Addr_partial_cmp_IpAddr self other =
     (case other of V4 _ \<Rightarrow> Some Greater | V6 v6 \<Rightarrow> Some (Ipv6Addr_cmp self v6))"

subsection \<open>Socket addresses\<close>

record SocketAddrV4 =
  sin_port :: u16
  sin_addr :: Ipv4Addr

record SocketAddrV6 =
  sin6_port :: u16
  sin6_addr :: Ipv6Addr
  sin6_flowinfo :: u32
  sin6_scope_id :: u32

datatype SocketAddr = SockV4 SocketAddrV4 | SockV6 SocketAddrV6

definition SocketAddrV4_new :: "Ipv4Addr \<Rightarrow> u16 \<Rightarrow> SocketAddrV4" where
  "SocketAddrV4_new ip port = \<lparr>sin_port = hton16 port, sin_addr = ip\<rparr>"

definition SocketAddrV4_port :: "SocketAddrV4 \<Rightarrow> u16" where
  "SocketAddrV4_port self = ntoh16 (sin_port self)"

definition SocketAddrV4_set_ip :: "SocketAddrV4 \<Rightarrow> Ipv4Addr \<Rightarrow> SocketAddrV4" where
  "SocketAddrV4_set_ip self new_ip = self\<lparr>sin_addr := new_ip\<rparr>"

definition SocketAddrV4_set_port :: "SocketAddrV4 \<Rightarrow> u16 \<Rightarrow> SocketAddrV4" where
  "SocketAddrV4_set_port self new_port = self\<lparr>sin_port := hton16 new_port\<rparr>"

definition SocketAddrV6_new :: "Ipv6Addr \<Rightarrow> u16 \<Rightarrow> u32 \<Rightarrow> u32 \<Rightarrow> SocketAddrV6" where
  "SocketAddrV6_new ip port flowinfo scope_id =
     \<lparr>sin6_port = hton16 port, sin6_addr = ip, sin6_flowinfo = flowinfo, sin6_scope_id = scope_id\<rparr>"

definition SocketAddrV6_port :: "SocketAddrV6 \<Rightarrow> u16" where
  "SocketAddrV6_port self = ntoh16 (sin6_port self)"

definition SocketAddrV6_set_ip :: "SocketAddrV6 \<Rightarrow> Ipv6Addr \<Rightarrow> SocketAddrV6" where
  "SocketAddrV6_set_ip self new_ip = self\<lparr>sin6_addr := new_ip\<rparr>"

definition SocketAddrV6_set_port :: "SocketAddrV6 \<Rightarrow> u16 \<Rightarrow> SocketAddrV6" where
  "SocketAddrV6_set_port self new_port = self\<lparr>sin6_port := hton16 new_port\<rparr>"

definition SocketAddrV6_set_flowinfo :: "SocketAddrV6 \<Rightarrow> u32 \<Rightarrow> SocketAddrV6" where
  "SocketAddrV6_set_flowinfo self new_flowinfo = self\<lparr>sin6_flowinfo := new_flowinfo\<rparr>"

definition SocketAddrV6_set_scope_id :: "SocketAddrV6 \<Rightarrow> u32 \<Rightarrow> SocketAddrV6" where
  "SocketAddrV6_set_scope_id self new_scope_id = self\<lparr>sin6_scope_id := new_scope_id\<rparr>"

definition SocketAddr_new :: "IpAddr \<Rightarrow> u16 \<Rightarrow> SocketAddr" where
  "SocketAddr_new ip port =
     (case ip of V4 a \<Rightarrow> SockV4 (SocketAddrV4_new a port) | V6 a \<Rightarrow> SockV6 (SocketAddrV6_new a port 0 0))"

definition SocketAddr_ip :: "SocketAddr \<Rightarrow> IpAddr" where
  "SocketAddr_ip self = (case self of SockV4 a \<Rightarrow> V4 (sin_addr a) | SockV6 a \<Rightarrow> V6 (sin6_addr a))"

definition SocketAddr_port :: "SocketAddr \<Rightarrow> u16" where
  "SocketAddr_port self = (case self of SockV4 a \<Rightarrow> SocketAddrV4_port a | SockV6 a \<Rightarrow> SocketAddrV6_port a)"

definition SocketAddr_set_ip :: "SocketAddr \<Rightarrow> IpAddr \<Rightarrow> SocketAddr" where
  "SocketAddr_set_ip self new_ip =
     (case (self, new_ip) of
        (SockV4 a, V4 ip) \<Rightarrow> SockV4 (SocketAddrV4_set_ip a ip)
      | (SockV6 a, V6 ip) \<Rightarrow> SockV6 (SocketAddrV6_set_ip a ip)
      | (self_, new_ip) \<Rightarrow> SocketAddr_new new_ip (SocketAddr_port self_))"

definition SocketAddr_set_port :: "SocketAddr \<Rightarrow> u16 \<Rightarrow> SocketAddr" where
  "SocketAddr_set_port self new_port =
     (case self of
        SockV4 a \<Rightarrow> SockV4 (SocketAddrV4_set_port a new_port)
      | SockV6 a \<Rightarrow> SockV6 (SocketAddrV6_set_port a new_port))"

definition SocketAddr_is_ipv4 :: "SocketAddr \<Rightarrow> bool" where
  "SocketAddr_is_ipv4 self = (case self of SockV4 _ \<Rightarrow> True | SockV6 _ \<Rightarrow> False)"

definition SocketAddr_is_ipv6 :: "SocketAddr \<Rightarrow> bool" where
  "SocketAddr_is_ipv6 self = (case self of SockV4 _ \<Rightarrow> False | SockV6 _ \<Rightarrow> True)"

subsection \<open>Formatting\<close>

text \<open>The digits of a number in a base, most significant first, as \<open>{}\<close> and \<open>{:x}\<close> print them.\<close>

fun digits :: "nat \<Rightarrow> nat \<Rightarrow> nat list" where
  "digits base n = (if n < base \<or> base < 2 then [n] else digits base (n div base) @ [n mod base])"

declare digits.simps [simp del]

definition digit_char :: "nat \<Rightarrow> char" where
  "digit_char d = (if d < 10 then char_of (48 + d) else char_of (87 + d))"

definition fmt_dec :: "'a::len word \<Rightarrow> string" where
  "fmt_dec x = map digit_char (digits 10 (unat x))"

definition fmt_hex :: "'a::len word \<Rightarrow> string" where
  "fmt_hex x = map digit_char (digits 16 (unat x))"

definition fmt_dotted :: "u8 \<Rightarrow> u8 \<Rightarrow> u8 \<Rightarrow> u8 \<Rightarrow> string" where
  "fmt_dotted a b c d = fmt_dec a @ ''.'' @ fmt_dec b @ ''.'' @ fmt_dec c @ ''.'' @ fmt_dec d"

definition Ipv4Addr_fmt :: "Ipv4Addr \<Rightarrow> string" where
  "Ipv4Addr_fmt self = (case Ipv4Addr_octets self of (a, b, c, d) \<Rightarrow> fmt_dotted a b c d)"

text \<open>\<open>find_zero_slice\<close>: the state of its loop is the best span and the current one.\<close>

fun find_zero_slice_from :: "u16 list \<Rightarrow> nat \<Rightarrow> nat \<Rightarrow> nat \<Rightarrow> nat \<Rightarrow> nat \<Rightarrow> nat \<times> nat" where
  "find_zero_slice_from [] i longest_span_at longest_span_len cur_span_at cur_span_len =
     (longest_span_at, longest_span_len)"
| "find_zero_slice_from (s # segments) i longest_span_at longest_span_len cur_span_at cur_span_len =
     (if s = 0 then
        (let cur_span_at = (if cur_span_len = 0 then i else cur_span_at);
             cur_span_len = cur_span_len + 1 in
         if cur_span_len > longest_span_len
         then find_zero_slice_from segments (i + 1) cur_span_at cur_span_len cur_span_at cur_span_len
         else find_zero_slice_from segments (i + 1) longest_span_at longest_span_len cur_span_at cur_span_len)
      else find_zero_slice_from segments (i + 1) longest_span_at longest_span_len 0 0)"

definition find_zero_slice :: "u16 list \<Rightarrow> nat \<times> nat" where
  "find_zero_slice segments = find_zero_slice_from segments 0 0 0 0 0"

fun fmt_subslice :: "u16 list \<Rightarrow> string" where
  "fmt_subslice [] = []"
| "fmt_subslice (s # segments) = fmt_hex s @ concat (map (\<lambda>seg. '':'' @ fmt_hex seg) segments)"

definition Ipv6Addr_fmt :: "Ipv6Addr \<Rightarrow> string" where
  "Ipv6Addr_fmt self =
     (let segs = Ipv6Addr_segments self; g = segs ! 6; h = segs ! 7 in
      if segs = [0, 0, 0, 0, 0, 0, 0, 0] then ''::''
      else if segs = [0, 0, 0, 0, 0, 0, 0, 1] then ''::1''
      else if take 6 segs = [0, 0, 0, 0, 0, 0] then
        ''::'' @ fmt_dotted (ucast (drop_bit 8 g)) (ucast g) (ucast (drop_bit 8 h)) (ucast h)
      else if take 6 segs = [0, 0, 0, 0, 0, 0xffff] then
        ''::ffff:'' @ fmt_dotted (ucast (drop_bit 8 g)) (ucast g) (ucast (drop_bit 8 h)) (ucast h)
      else
        (let (zeros_at, zeros_len) = find_zero_slice segs in
         if zeros_len > 1
         then fmt_subslice (take zeros_at segs) @ ''::'' @ fmt_subslice (drop (zeros_at + zeros_len) segs)
         else fmt_subslice segs))"

definition IpAddr_fmt :: "IpAddr \<Rightarrow> string" where
  "IpAddr_fmt self = (case self of V4 a \<Rightarrow> Ipv4Addr_fmt a | V6 a \<Rightarrow> Ipv6Addr_fmt a)"

definition SocketAddrV4_fmt :: "SocketAddrV4 \<Rightarrow> string" where
  "SocketAddrV4_fmt self = Ipv4Addr_fmt (sin_addr self) @ '':'' @ fmt_dec (SocketAddrV4_port self)"

definition SocketAddrV6_fmt :: "SocketAddrV6 \<Rightarrow> string" where
  "SocketAddrV6_fmt self = ''['' @ Ipv6Addr_fmt (sin6_addr self) @ '']:'' @ fmt_dec (SocketAddrV6_port self)"

definition SocketAddr_fmt :: "SocketAddr \<Rightarrow> string" where
  "SocketAddr_fmt self = (case self of SockV4 a \<Rightarrow> SocketAddrV4_fmt a | SockV6 a \<Rightarrow> SocketAddrV6_fmt a)"

subsection \<open>Bytes and segments\<close>

lemma byte_masks:
  "(0xFF :: u32) = mask 8" "(0xFF00 :: u32) = push_bit 8 (mask 8)"
  "(0xFF0000 :: u32) = push_bit 16 (mask 8)" "(0xFF000000 :: u32) = push_bit 24 (mask 8)"
  "(0xFF :: u16) = mask 8" "(0xFF00 :: u16) = push_bit 8 (mask 8)"
  by (simp_all add: mask_eq_exp_minus_1 push_bit_eq_mult)

lemma bit_hton32: "bit (hton32 x) n \<longleftrightarrow> n < 32 \<and>
    bit x (if n < 8 then n + 24 else if n < 16 then n + 8 else if n < 24 then n - 8 else n - 24)"
  unfolding hton32_def byte_masks
  by (auto simp: bit_simps add.commute)

lemma hton32_twice [simp]: "hton32 (hton32 x) = x"
proof (rule bit_eqI)
  fix n assume "possible_bit TYPE(32 word) n"
  then have "n < 32" by simp
  then show "bit (hton32 (hton32 x)) n = bit x n" by (auto simp: bit_hton32)
qed

lemma bit_hton16: "bit (hton16 x) n \<longleftrightarrow> n < 16 \<and> bit x (if n < 8 then n + 8 else n - 8)"
  unfolding hton16_def byte_masks by (auto simp: bit_simps add.commute)

lemma hton16_twice [simp]: "hton16 (hton16 x) = x"
proof (rule bit_eqI)
  fix n assume "possible_bit TYPE(16 word) n"
  then have "n < 16" by simp
  then show "bit (hton16 (hton16 x)) n = bit x n" by (auto simp: bit_hton16)
qed

lemma be16_parts [simp]:
  "ucast (drop_bit 8 (be16 x y)) = x" "ucast (be16 x y) = y"
  by (rule bit_eqI; auto simp: be16_def bit_simps dest: bit_imp_le_length)+

lemma be16_ucast [simp]: "be16 (ucast (drop_bit 8 x)) (ucast x) = x"
  by (rule bit_eqI) (auto simp: be16_def bit_simps)

lemma Ipv4Addr_octets_new [simp]: "Ipv4Addr_octets (Ipv4Addr_new a b c d) = (a, b, c, d)"
  unfolding Ipv4Addr_octets_def Ipv4Addr_new_def Let_def
  by (simp, intro conjI; rule bit_eqI; auto simp: bit_simps dest: bit_imp_le_length)

lemma Ipv4Addr_new_octets:
  assumes "Ipv4Addr_octets ip = (a, b, c, d)"
  shows "Ipv4Addr_new a b c d = ip"
proof -
  let ?w = "ntoh32 (s_addr ip)"
  have o: "a = ucast (drop_bit 24 ?w)" "b = ucast (drop_bit 16 ?w)" "c = ucast (drop_bit 8 ?w)" "d = ucast ?w"
    using assms by (auto simp: Ipv4Addr_octets_def Let_def)
  have "push_bit 24 (ucast a) OR push_bit 16 (ucast b) OR push_bit 8 (ucast c) OR ucast d = ?w"
    unfolding o
  proof (rule bit_eqI)
    fix n assume "possible_bit TYPE(32 word) n"
    then have "n < 32" by simp
    then show "bit (push_bit 24 (ucast (ucast (drop_bit 24 ?w) :: u8)) OR push_bit 16 (ucast (ucast (drop_bit 16 ?w) :: u8)) OR
        push_bit 8 (ucast (ucast (drop_bit 8 ?w) :: u8)) OR ucast (ucast ?w :: u8) :: u32) n = bit ?w n"
      by (cases "n < 8"; cases "n < 16"; cases "n < 24") (auto simp: bit_simps)
  qed
  then show ?thesis by (simp add: Ipv4Addr_new_def)
qed

definition Ipv6_wf :: "Ipv6Addr \<Rightarrow> bool" where
  "Ipv6_wf ip \<longleftrightarrow> length (s6_addr ip) = 16"

lemma Ipv6_wf_new [simp]: "Ipv6_wf (Ipv6Addr_new a b c d e f g h)"
  by (simp add: Ipv6_wf_def Ipv6Addr_new_def)

lemma Ipv6Addr_segments_new [simp]:
  "Ipv6Addr_segments (Ipv6Addr_new a b c d e f g h) = [a, b, c, d, e, f, g, h]"
  by (simp add: Ipv6Addr_segments_def Ipv6Addr_new_def Let_def)

lemma Ipv6_wf_cases:
  assumes "Ipv6_wf ip"
  obtains a b c d e f g h where "ip = Ipv6Addr_new a b c d e f g h" "Ipv6Addr_segments ip = [a, b, c, d, e, f, g, h]"
proof -
  obtain xs where ip: "ip = \<lparr>s6_addr = xs\<rparr>" by (cases ip)
  have len: "length xs = 16" using assms ip by (simp add: Ipv6_wf_def)
  obtain a0 a1 b0 b1 c0 c1 d0 d1 e0 e1 f0 f1 g0 g1 h0 h1
    where xs: "xs = [a0, a1, b0, b1, c0, c1, d0, d1, e0, e1, f0, f1, g0, g1, h0, h1]"
    using len by (auto simp: length_Suc_conv eval_nat_numeral)
  have "ip = Ipv6Addr_new (be16 a0 a1) (be16 b0 b1) (be16 c0 c1) (be16 d0 d1)
      (be16 e0 e1) (be16 f0 f1) (be16 g0 g1) (be16 h0 h1)"
    by (simp add: ip xs Ipv6Addr_new_def)
  then show ?thesis using that by (metis Ipv6Addr_segments_new)
qed

subsection \<open>Conversions\<close>

lemma Ipv4Addr_to_u32_bits: "Ipv4Addr_to_u32 ip = ntoh32 (s_addr ip)"
proof -
  let ?w = "ntoh32 (s_addr ip)"
  let ?a = "push_bit 24 (ucast (ucast (drop_bit 24 ?w) :: u8)) :: u32"
  let ?b = "push_bit 16 (ucast (ucast (drop_bit 16 ?w) :: u8)) :: u32"
  let ?c = "push_bit 8 (ucast (ucast (drop_bit 8 ?w) :: u8)) :: u32"
  let ?d = "ucast (ucast ?w :: u8) :: u32"
  have "?a OR ?b OR ?c OR ?d = ?w"
    using Ipv4Addr_new_octets [of ip] by (simp add: Ipv4Addr_octets_def Ipv4Addr_new_def Let_def) (metis hton32_twice Ipv4Addr.select_convs(1))
  moreover have "?c + ?d = ?c OR ?d" by (rule or_eq_plus [symmetric]) (auto simp: bit_simps)
  moreover have "?b + (?c OR ?d) = ?b OR (?c OR ?d)" by (rule or_eq_plus [symmetric]) (auto simp: bit_simps)
  moreover have "?a + (?b OR ?c OR ?d) = ?a OR (?b OR ?c OR ?d)" by (rule or_eq_plus [symmetric]) (auto simp: bit_simps)
  ultimately show ?thesis by (simp add: Ipv4Addr_to_u32_def Ipv4Addr_octets_def Let_def or.assoc add.assoc)
qed

text \<open>
  The conversions between addresses and integers are inverse to each other and respect the order of
  addresses, and an IPv4 address is recovered from both of its embeddings into IPv6.
\<close>

lemma Ipv4Addr_conversions:
  "Ipv4Addr_from_u32 (Ipv4Addr_to_u32 ip) = ip \<and> Ipv4Addr_to_u32 (Ipv4Addr_from_u32 w) = w \<and>
   Ipv4Addr_cmp ip ip' = cmp_ord (Ipv4Addr_to_u32 ip) (Ipv4Addr_to_u32 ip') \<and>
   Ipv6Addr_to_ipv4 (Ipv4Addr_to_ipv6_mapped ip) = Some ip \<and>
   Ipv6Addr_to_ipv4 (Ipv4Addr_to_ipv6_compatible ip) = Some ip"
proof (intro conjI)
  obtain a b c d where o: "Ipv4Addr_octets ip = (a, b, c, d)" by (cases "Ipv4Addr_octets ip")
  note new = Ipv4Addr_new_octets [OF o]
  show "Ipv6Addr_to_ipv4 (Ipv4Addr_to_ipv6_mapped ip) = Some ip"
    "Ipv6Addr_to_ipv4 (Ipv4Addr_to_ipv6_compatible ip) = Some ip"
    by (simp_all add: Ipv4Addr_to_ipv6_mapped_def Ipv4Addr_to_ipv6_compatible_def Ipv6Addr_to_ipv4_def o new)
  show "Ipv4Addr_from_u32 (Ipv4Addr_to_u32 ip) = ip"
    using o by (simp add: Ipv4Addr_to_u32_bits Ipv4Addr_from_u32_def Ipv4Addr_octets_def Let_def) (metis new)
  have "Ipv4Addr_octets \<lparr>s_addr = hton32 w\<rparr> = (ucast (drop_bit 24 w), ucast (drop_bit 16 w), ucast (drop_bit 8 w), ucast w)"
    by (simp add: Ipv4Addr_octets_def)
  from Ipv4Addr_new_octets [OF this] show "Ipv4Addr_to_u32 (Ipv4Addr_from_u32 w) = w"
    by (simp add: Ipv4Addr_to_u32_bits Ipv4Addr_from_u32_def)
  show "Ipv4Addr_cmp ip ip' = cmp_ord (Ipv4Addr_to_u32 ip) (Ipv4Addr_to_u32 ip')"
    by (simp add: Ipv4Addr_cmp_def Ipv4Addr_to_u32_bits)
qed

end
