(* ===== verification/Ip_Parser.thy ===== *)
theory Ip_Parser
  imports Ip_Addr
begin

section \<open>\<open>net/parser.rs\<close>: parsing addresses\<close>

text \<open>
  The recursive-descent parser of \<open>src/net/parser.rs\<close>. Its state is the input bytes and a position;
  a parser takes the state and returns an optional value with the new state, so that the
  backtracking of \<open>read_atomically\<close> is visible. The lemmas show that every address is
  recovered from its printed form, for both families, with and without port.
\<close>

subsection \<open>The parser\<close>

record Parser =
  parser_s :: string
  parser_pos :: nat

type_synonym 'a parse = "Parser \<Rightarrow> 'a option \<times> Parser"

definition Parser_new :: "string \<Rightarrow> Parser" where
  "Parser_new str = \<lparr>parser_s = str, parser_pos = 0\<rparr>"

definition is_eof :: "Parser \<Rightarrow> bool" where
  "is_eof self \<longleftrightarrow> parser_pos self = length (parser_s self)"

definition read_atomically :: "'a parse \<Rightarrow> 'a parse" where
  "read_atomically cb self =
     (let pos = parser_pos self; (r, self) = cb self
      in if r = None then (r, self\<lparr>parser_pos := pos\<rparr>) else (r, self))"

definition read_till_eof :: "'a parse \<Rightarrow> 'a parse" where
  "read_till_eof cb =
     read_atomically (\<lambda>p. case cb p of
         (Some x, p) \<Rightarrow> (if is_eof p then (Some x, p) else (None, p))
       | (None, p) \<Rightarrow> (None, p))"

fun read_or :: "'a parse list \<Rightarrow> 'a parse" where
  "read_or [] self = (None, self)"
| "read_or (pf # parsers) self =
     (case read_atomically pf self of
        (Some r, self) \<Rightarrow> (Some r, self)
      | (None, self) \<Rightarrow> read_or parsers self)"

definition read_seq_3 :: "'a parse \<Rightarrow> 'b parse \<Rightarrow> 'c parse \<Rightarrow> ('a \<times> 'b \<times> 'c) parse" where
  "read_seq_3 pa pb pc =
     read_atomically (\<lambda>p.
       let (a, p) = pa p;
           (b, p) = (if a \<noteq> None then pb p else (None, p));
           (c, p) = (if b \<noteq> None then pc p else (None, p))
       in (case (a, b, c) of
             (Some a, Some b, Some c) \<Rightarrow> (Some (a, b, c), p)
           | _ \<Rightarrow> (None, p)))"

definition read_char :: "char parse" where
  "read_char self =
     (if is_eof self then (None, self) else (Some (parser_s self ! parser_pos self), self\<lparr>parser_pos := parser_pos self + 1\<rparr>))"

definition read_given_char :: "char \<Rightarrow> char parse" where
  "read_given_char c =
     read_atomically (\<lambda>p. case read_char p of
         (Some nxt, p) \<Rightarrow> (if nxt = c then (Some nxt, p) else (None, p))
       | (None, p) \<Rightarrow> (None, p))"

definition parse_digit :: "char \<Rightarrow> u8 \<Rightarrow> u8 option" where
  "parse_digit ch radix =
     (let c = of_char ch :: u8 in
      if c \<ge> 48 \<and> c \<le> 57 then Some (c - 48)
      else if radix > 10 \<and> c \<ge> 97 \<and> c < 97 + (radix - 10) then Some (c - 97 + 10)
      else if radix > 10 \<and> c \<ge> 65 \<and> c < 65 + (radix - 10) then Some (c - 65 + 10)
      else None)"

definition read_digit :: "u8 \<Rightarrow> u8 parse" where
  "read_digit radix =
     read_atomically (\<lambda>p. case read_char p of
         (Some c, p) \<Rightarrow> (parse_digit c radix, p)
       | (None, p) \<Rightarrow> (None, p))"

lemma read_digit_measure:
  assumes "read_digit radix p = (Some d, p')" "parser_pos p \<le> length (parser_s p)"
  shows "parser_s p' = parser_s p \<and> parser_pos p' = Suc (parser_pos p) \<and> parser_pos p' \<le> length (parser_s p)"
  using assms
  by (auto simp: read_digit_def read_atomically_def read_char_def is_eof_def Let_def
      split: option.splits prod.splits if_splits)

text \<open>
  The loop of \<open>read_number_impl\<close>. A position behind the end of the input, which no
  parser reaches, is an explicit branch only so that the recursion is seen to end.
\<close>

function read_number_loop :: "u8 \<Rightarrow> u32 \<Rightarrow> u32 \<Rightarrow> u32 \<Rightarrow> u32 \<Rightarrow> u32 parse" where
  "read_number_loop radix max_digits up_to r digit_count self =
     (if parser_pos self > length (parser_s self) then (None, self)
      else
     (case read_digit radix self of
        (Some d, self) \<Rightarrow>
          (let r = r * ucast radix + ucast d; digit_count = digit_count + 1 in
           if digit_count > max_digits \<or> r \<ge> up_to then (None, self)
           else read_number_loop radix max_digits up_to r digit_count self)
      | (None, self) \<Rightarrow> (if digit_count = 0 then (None, self) else (Some r, self))))"
  by pat_completeness auto
termination
proof (relation "measure (\<lambda>(a, b, c, d, e, p). length (parser_s p) - parser_pos p)", goal_cases)
  case (2 radix max_digits up_to r digit_count self x p' d)
  then show ?case using read_digit_measure [of radix self d p'] by auto
qed simp

declare read_number_loop.simps [simp del]

definition read_number :: "u8 \<Rightarrow> u32 \<Rightarrow> u32 \<Rightarrow> u32 parse" where
  "read_number radix max_digits up_to =
     read_atomically (\<lambda>p. read_number_loop radix max_digits up_to 0 0 p)"

definition parse_map :: "('a \<Rightarrow> 'b) \<Rightarrow> 'a parse \<Rightarrow> 'b parse" where
  "parse_map f pa self = (case pa self of (r, self) \<Rightarrow> (map_option f r, self))"

fun read_ipv4_loop :: "nat \<Rightarrow> u8 list \<Rightarrow> u8 list parse" where
  "read_ipv4_loop 0 bs self = (Some bs, self)"
| "read_ipv4_loop (Suc n) bs self =
     (case (if bs \<noteq> [] then read_given_char CHR ''.'' self else (Some CHR ''.'', self)) of
        (None, self) \<Rightarrow> (None, self)
      | (Some _, self) \<Rightarrow>
          (case parse_map (ucast :: u32 \<Rightarrow> u8) (read_number 10 3 0x100) self of
             (Some d, self) \<Rightarrow> read_ipv4_loop n (bs @ [d]) self
           | (None, self) \<Rightarrow> (None, self)))"

definition read_ipv4_addr :: "Ipv4Addr parse" where
  "read_ipv4_addr =
     read_atomically (parse_map (\<lambda>bs. Ipv4Addr_new (bs ! 0) (bs ! 1) (bs ! 2) (bs ! 3)) (read_ipv4_loop 4 []))"

text \<open>\<open>read_groups\<close>: the groups read so far are a list of length \<open>i\<close>; \<open>n\<close> is \<open>limit - i\<close>.\<close>

fun read_groups_loop :: "nat \<Rightarrow> u16 list \<Rightarrow> Parser \<Rightarrow> u16 list \<times> bool \<times> Parser" where
  "read_groups_loop 0 groups p = (groups, False, p)"
| "read_groups_loop (Suc n) groups p =
     (let sep = (\<lambda>p. if groups = [] then (Some CHR '':'', p) else read_given_char CHR '':'' p);
          (ipv4, p) = (if n > 0
                       then read_atomically (\<lambda>p. case sep p of
                              (Some _, p) \<Rightarrow> read_ipv4_addr p | (None, p) \<Rightarrow> (None, p)) p
                       else (None, p))
      in (case ipv4 of
            Some v4_addr \<Rightarrow>
              (case Ipv4Addr_octets v4_addr of (a, b, c, d) \<Rightarrow> (groups @ [be16 a b, be16 c d], True, p))
          | None \<Rightarrow>
              (let (group, p) = read_atomically (\<lambda>p. case sep p of
                     (Some _, p) \<Rightarrow> parse_map (ucast :: u32 \<Rightarrow> u16) (read_number 16 4 0x10000) p
                   | (None, p) \<Rightarrow> (None, p)) p
               in (case group of
                     Some g \<Rightarrow> read_groups_loop n (groups @ [g]) p
                   | None \<Rightarrow> (groups, False, p)))))"

definition read_groups :: "nat \<Rightarrow> Parser \<Rightarrow> u16 list \<times> bool \<times> Parser" where
  "read_groups limit p = read_groups_loop limit [] p"

definition Ipv6Addr_of_list :: "u16 list \<Rightarrow> Ipv6Addr" where
  "Ipv6Addr_of_list gs =
     Ipv6Addr_new (gs ! 0) (gs ! 1) (gs ! 2) (gs ! 3) (gs ! 4) (gs ! 5) (gs ! 6) (gs ! 7)"

text \<open>Its assertion \<open>head.len() + tail.len() <= 8\<close> is shown to hold where it is called.\<close>

definition ipv6_addr_from_head_tail :: "u16 list \<Rightarrow> u16 list \<Rightarrow> Ipv6Addr" where
  "ipv6_addr_from_head_tail head tail =
     Ipv6Addr_of_list (head @ replicate (8 - length tail - length head) 0 @ tail)"

definition read_ipv6_addr_impl :: "Ipv6Addr parse" where
  "read_ipv6_addr_impl self =
     (case read_groups 8 self of (head, head_ipv4, self) \<Rightarrow>
      if length head = 8 then (Some (Ipv6Addr_of_list head), self)
      else if head_ipv4 then (None, self)
      else
        (case read_given_char CHR '':'' self of
           (None, self) \<Rightarrow> (None, self)
         | (Some _, self) \<Rightarrow>
             (case read_given_char CHR '':'' self of
                (None, self) \<Rightarrow> (None, self)
              | (Some _, self) \<Rightarrow>
                  (case read_groups (8 - length head) self of (tail, _, self) \<Rightarrow>
                     (Some (ipv6_addr_from_head_tail head tail), self)))))"

definition read_ipv6_addr :: "Ipv6Addr parse" where
  "read_ipv6_addr = read_atomically read_ipv6_addr_impl"

definition read_ip_addr :: "IpAddr parse" where
  "read_ip_addr = read_or [parse_map V4 read_ipv4_addr, parse_map V6 read_ipv6_addr]"

definition read_port :: "u16 parse" where
  "read_port = parse_map (ucast :: u32 \<Rightarrow> u16) (read_number 10 5 0x10000)"

definition read_socket_addr_v4 :: "SocketAddrV4 parse" where
  "read_socket_addr_v4 =
     parse_map (\<lambda>(ip, _, port). SocketAddrV4_new ip port)
       (read_seq_3 read_ipv4_addr (read_given_char CHR '':'') read_port)"

definition read_socket_addr_v6 :: "SocketAddrV6 parse" where
  "read_socket_addr_v6 =
     (let ip_addr = parse_map (\<lambda>(_, ip, _). ip)
            (read_seq_3 (read_given_char CHR ''['') read_ipv6_addr (read_given_char CHR '']''))
      in parse_map (\<lambda>(ip, _, port). SocketAddrV6_new ip port 0 0)
           (read_seq_3 ip_addr (read_given_char CHR '':'') read_port))"

definition read_socket_addr :: "SocketAddr parse" where
  "read_socket_addr = read_or [parse_map SockV4 read_socket_addr_v4, parse_map SockV6 read_socket_addr_v6]"

subsection \<open>\<open>FromStr\<close>\<close>

datatype AddrParseError = AddrParseError

definition from_str_with :: "'a parse \<Rightarrow> string \<Rightarrow> AddrParseError + 'a" where
  "from_str_with pa str =
     (case fst (read_till_eof pa (Parser_new str)) of Some x \<Rightarrow> Inr x | None \<Rightarrow> Inl AddrParseError)"

definition IpAddr_from_str :: "string \<Rightarrow> AddrParseError + IpAddr" where
  "IpAddr_from_str = from_str_with read_ip_addr"

definition Ipv4Addr_from_str :: "string \<Rightarrow> AddrParseError + Ipv4Addr" where
  "Ipv4Addr_from_str = from_str_with read_ipv4_addr"

definition Ipv6Addr_from_str :: "string \<Rightarrow> AddrParseError + Ipv6Addr" where
  "Ipv6Addr_from_str = from_str_with read_ipv6_addr"

definition SocketAddrV4_from_str :: "string \<Rightarrow> AddrParseError + SocketAddrV4" where
  "SocketAddrV4_from_str = from_str_with read_socket_addr_v4"

definition SocketAddrV6_from_str :: "string \<Rightarrow> AddrParseError + SocketAddrV6" where
  "SocketAddrV6_from_str = from_str_with read_socket_addr_v6"

definition SocketAddr_from_str :: "string \<Rightarrow> AddrParseError + SocketAddr" where
  "SocketAddr_from_str = from_str_with read_socket_addr"

subsection \<open>Accepting and rejecting a prefix of the input\<close>

abbreviation at :: "string \<Rightarrow> nat \<Rightarrow> Parser" where
  "at str n \<equiv> \<lparr>parser_s = str, parser_pos = n\<rparr>"

text \<open>
  A parser accepts \<open>x\<close> with value \<open>v\<close> before \<open>rest\<close> when at every place where the input goes on with
  \<open>x @ rest\<close> it returns \<open>v\<close> and stops after \<open>x\<close>; it rejects \<open>r\<close> when it fails wherever the input
  goes on with \<open>r\<close>, without touching the input.
\<close>

definition accepts :: "'a parse \<Rightarrow> string \<Rightarrow> 'a \<Rightarrow> string \<Rightarrow> bool" where
  "accepts pa x v rest \<longleftrightarrow>
     (\<forall>str n. n \<le> length str \<longrightarrow> drop n str = x @ rest \<longrightarrow> pa (at str n) = (Some v, at str (n + length x)))"

definition rejects :: "'a parse \<Rightarrow> string \<Rightarrow> bool" where
  "rejects pa r \<longleftrightarrow>
     (\<forall>str n. n \<le> length str \<longrightarrow> drop n str = r \<longrightarrow> (\<exists>n'. pa (at str n) = (None, at str n')))"

definition rejects_back :: "'a parse \<Rightarrow> string \<Rightarrow> bool" where
  "rejects_back pa r \<longleftrightarrow>
     (\<forall>str n. n \<le> length str \<longrightarrow> drop n str = r \<longrightarrow> pa (at str n) = (None, at str n))"

lemma acceptsD: "accepts pa x v rest \<Longrightarrow> n \<le> length str \<Longrightarrow> drop n str = x @ rest \<Longrightarrow>
    pa (at str n) = (Some v, at str (n + length x))"
  by (simp add: accepts_def)

lemma rejects_backD: "rejects_back pa r \<Longrightarrow> n \<le> length str \<Longrightarrow> drop n str = r \<Longrightarrow> pa (at str n) = (None, at str n)"
  by (simp add: rejects_back_def)

lemma rejects_back_rejects: "rejects_back pa r \<Longrightarrow> rejects pa r"
  by (auto simp: rejects_back_def rejects_def)

lemma after_prefix:
  assumes "n \<le> length str" "drop n str = x @ rest"
  shows "n + length x \<le> length str" "drop (n + length x) str = rest"
proof -
  have "length str - n = length x + length rest" using assms(2) by (metis length_append length_drop)
  then show "n + length x \<le> length str" using assms(1) by linarith
  show "drop (n + length x) str = rest" using assms(2) by (metis add.commute append_eq_conv_conj drop_drop)
qed

lemma accepts_atomically: "accepts pa x v rest \<Longrightarrow> accepts (read_atomically pa) x v rest"
  by (simp add: accepts_def read_atomically_def)

lemma rejects_atomically: "rejects pa r \<Longrightarrow> rejects_back (read_atomically pa) r"
  by (fastforce simp: rejects_def rejects_back_def read_atomically_def)

lemma accepts_map: "accepts pa x v rest \<Longrightarrow> accepts (parse_map f pa) x (f v) rest"
  by (simp add: accepts_def parse_map_def)

lemma rejects_map: "rejects pa r \<Longrightarrow> rejects (parse_map f pa) r"
  by (fastforce simp: rejects_def parse_map_def)

lemma rejects_back_map: "rejects_back pa r \<Longrightarrow> rejects_back (parse_map f pa) r"
  by (simp add: rejects_back_def parse_map_def)

text \<open>Characters.\<close>

lemma read_char_at:
  assumes "n \<le> length str"
  shows "read_char (at str n) =
    (case drop n str of [] \<Rightarrow> (None, at str n) | c # _ \<Rightarrow> (Some c, at str (Suc n)))"
proof (cases "n = length str")
  case False
  then have "n < length str" using assms by simp
  then have "drop n str = str ! n # drop (Suc n) str" by (simp add: Cons_nth_drop_Suc)
  then show ?thesis using False by (simp add: read_char_def is_eof_def)
qed (simp add: read_char_def is_eof_def)

lemma accepts_given_char: "accepts (read_given_char c) [c] c rest"
  unfolding read_given_char_def
  by (rule accepts_atomically) (simp add: accepts_def read_char_at)

lemma rejects_given_char: "(r = [] \<or> hd r \<noteq> c) \<Longrightarrow> rejects_back (read_given_char c) r"
  unfolding read_given_char_def
  by (rule rejects_atomically) (auto simp: rejects_def read_char_at split: list.split)

text \<open>Digits.\<close>

abbreviation hex :: "nat list \<Rightarrow> string" where "hex ds \<equiv> map digit_char ds"

lemma of_char_char_of: "n < 256 \<Longrightarrow> (of_char (char_of n) :: u8) = of_nat n" for n :: nat
  by (metis of_nat_of_char of_char_of mod_less)

lemma less_16: "d < 16 \<Longrightarrow> d \<in> {0, 1, 2, 3, 4, 5, 6, 7, 8, 9, 10, 11, 12, 13, 14, 15}" for d :: nat
  by (simp, presburger)

lemma less_10: "d < 10 \<Longrightarrow> d \<in> {0, 1, 2, 3, 4, 5, 6, 7, 8, 9}" for d :: nat
  by (simp, presburger)

lemma parse_digit_char:
  "d < 10 \<Longrightarrow> parse_digit (digit_char d) 10 = Some (of_nat d)"
  "d < 16 \<Longrightarrow> parse_digit (digit_char d) 16 = Some (of_nat d)"
  by (drule less_10, elim insertE emptyE; simp add: parse_digit_def digit_char_def of_char_char_of)
    (drule less_16, elim insertE emptyE; simp add: parse_digit_def digit_char_def of_char_char_of)

lemma read_digit_at:
  assumes "n \<le> length str"
  shows "read_digit radix (at str n) =
    (case drop n str of [] \<Rightarrow> (None, at str n)
     | c # _ \<Rightarrow> (case parse_digit c radix of None \<Rightarrow> (None, at str n) | Some d \<Rightarrow> (Some d, at str (Suc n))))"
  using read_char_at [OF assms]
  by (auto simp: read_digit_def read_atomically_def split: list.split option.split)

definition stops_digits :: "u8 \<Rightarrow> string \<Rightarrow> bool" where
  "stops_digits radix rest \<longleftrightarrow> rest = [] \<or> parse_digit (hd rest) radix = None"

abbreviation horner :: "nat \<Rightarrow> nat \<Rightarrow> nat list \<Rightarrow> nat" where
  "horner b r ds \<equiv> foldl (\<lambda>r d. r * b + d) r ds"

lemma horner_ge: "0 < b \<Longrightarrow> r \<le> horner b r ds"
proof (induction ds arbitrary: r)
  case (Cons d ds)
  have "r \<le> r * b + d" using Cons.prems by (simp add: trans_le_add1)
  also have "\<dots> \<le> horner b (r * b + d) ds" using Cons by simp
  finally show ?case by simp
qed simp

lemma digits_props:
  assumes "2 \<le> b"
  shows "horner b 0 (digits b n) = n" "\<forall>d \<in> set (digits b n). d < b" "digits b n \<noteq> []"
    "n < b ^ k \<Longrightarrow> 0 < k \<Longrightarrow> length (digits b n) \<le> k"
proof -
  have "horner b 0 (digits b n) = n \<and> (\<forall>d \<in> set (digits b n). d < b) \<and> digits b n \<noteq> [] \<and>
      (\<forall>k. n < b ^ k \<longrightarrow> 0 < k \<longrightarrow> length (digits b n) \<le> k)"
    using assms
  proof (induction b n rule: digits.induct)
    case (1 b n)
    show ?case
    proof (cases "n < b")
      case True
      then show ?thesis using 1 by (subst (1 2 3 4) digits.simps) auto
    next
      case False
      note IH = 1(1) [simplified]
      have "length (digits b n) \<le> k" if k: "n < b ^ k" "0 < k" for k
      proof (cases k)
        case (Suc j)
        have "j \<noteq> 0" using False k(1) Suc by (cases j) auto
        moreover have "n div b < b ^ j" using k(1) Suc 1(2) by (simp add: less_mult_imp_div_less mult.commute)
        ultimately show ?thesis using IH False 1(2) Suc by (subst digits.simps) simp
      qed (use k in simp)
      then show ?thesis using IH False 1(2) by (subst (1 2 3) digits.simps) auto
    qed
  qed
  then show "horner b 0 (digits b n) = n" "\<forall>d \<in> set (digits b n). d < b" "digits b n \<noteq> []"
    "n < b ^ k \<Longrightarrow> 0 < k \<Longrightarrow> length (digits b n) \<le> k" by blast+
qed

lemma number_loop_accepts:
  assumes radix: "radix = 10 \<or> radix = 16" and rest: "stops_digits radix rest"
    and up_to: "unat up_to \<le> 0x10000" and maxd: "unat max_digits < 10"
  shows "\<forall>d \<in> set ds. d < unat radix \<Longrightarrow> horner (unat radix) (unat r) ds < unat up_to \<Longrightarrow>
    unat cnt + length ds \<le> unat max_digits \<Longrightarrow> ds \<noteq> [] \<or> cnt \<noteq> 0 \<Longrightarrow>
    accepts (read_number_loop radix max_digits up_to r cnt) (hex ds) (of_nat (horner (unat radix) (unat r) ds)) rest"
proof (induction ds arbitrary: r cnt)
  case Nil
  then show ?case using rest
    by (auto simp: accepts_def read_number_loop.simps read_digit_at stops_digits_def split: list.split)
next
  case (Cons d ds)
  let ?R = "unat radix"
  have R: "?R = 10 \<or> ?R = 16" using radix by auto
  let ?r = "r * ucast radix + ucast (of_nat d :: u8) :: u32"
  have d: "parse_digit (digit_char d) radix = Some (of_nat d)" "d < 16"
    using radix parse_digit_char Cons.prems(1) by auto
  have ge: "unat r * ?R + d \<le> horner ?R (unat r) (d # ds)"
    using horner_ge [of ?R "unat r * ?R + d" ds] R by auto
  then have lt: "unat r * ?R + d < unat up_to" using Cons.prems(2) by simp
  have ud: "unat (ucast (of_nat d :: u8) :: u32) = d" using d(2) by (simp add: unat_of_nat_small)
  have ur: "unat ?r = unat r * ?R + d"
    using lt up_to ud by (simp add: unat_word_ariths)
  have uc: "unat (cnt + 1) = Suc (unat cnt)"
    using Cons.prems(3) maxd by (simp add: unat_word_ariths)
  have go: "\<not> (max_digits < cnt + 1 \<or> up_to \<le> ?r)"
    using lt ur uc Cons.prems(3) by (simp add: word_less_nat_alt word_le_nat_alt)
  have IH: "accepts (read_number_loop radix max_digits up_to ?r (cnt + 1)) (hex ds)
      (of_nat (horner ?R (unat r) (d # ds))) rest"
    using Cons.IH [of ?r "cnt + 1"] Cons.prems uc ur by (auto simp: unat_eq_zero [symmetric])
  show ?case
    unfolding accepts_def
  proof (intro allI impI)
    fix str n assume n: "n \<le> length str" "drop n str = hex (d # ds) @ rest"
    then have n': "Suc n \<le> length str" "drop (Suc n) str = hex ds @ rest"
      using after_prefix [of n str "[digit_char d]" "hex ds @ rest"] by simp_all
    have "read_number_loop radix max_digits up_to r cnt (at str n) =
        read_number_loop radix max_digits up_to ?r (cnt + 1) (at str (Suc n))"
      using n go d(1) by (subst read_number_loop.simps) (simp add: read_digit_at Let_def)
    then show "read_number_loop radix max_digits up_to r cnt (at str n) =
        (Some (of_nat (horner ?R (unat r) (d # ds))), at str (n + length (hex (d # ds))))"
      using acceptsD [OF IH n'] by simp
  qed
qed

subsection \<open>Numbers\<close>

lemma accepts_number_dec:
  fixes x :: "'a::len word"
  assumes "unat x < 10 ^ unat k" "0 < unat k" "unat k < 10" "unat x < unat up_to" "unat up_to \<le> 0x10000"
    and "stops_digits 10 rest"
  shows "accepts (read_number 10 k up_to) (fmt_dec x) (of_nat (unat x)) rest"
proof -
  have "accepts (read_number_loop 10 k up_to 0 0) (hex (digits 10 (unat x)))
      (of_nat (horner (unat (10 :: u8)) (unat (0 :: u32)) (digits 10 (unat x)))) rest"
    using assms digits_props [of 10 "unat x"] digits_props(4) [of 10 "unat x" "unat k"]
    by (intro number_loop_accepts) simp_all
  then show ?thesis using digits_props(1) [of 10 "unat x"]
    by (simp add: read_number_def fmt_dec_def accepts_atomically)
qed

lemma accepts_number_hex:
  fixes x :: "'a::len word"
  assumes "unat x < 16 ^ unat k" "0 < unat k" "unat k < 10" "unat x < unat up_to" "unat up_to \<le> 0x10000"
    and "stops_digits 16 rest"
  shows "accepts (read_number 16 k up_to) (fmt_hex x) (of_nat (unat x)) rest"
proof -
  have "accepts (read_number_loop 16 k up_to 0 0) (hex (digits 16 (unat x)))
      (of_nat (horner (unat (16 :: u8)) (unat (0 :: u32)) (digits 16 (unat x)))) rest"
    using assms digits_props [of 16 "unat x"] digits_props(4) [of 16 "unat x" "unat k"]
    by (intro number_loop_accepts) simp_all
  then show ?thesis using digits_props(1) [of 16 "unat x"]
    by (simp add: read_number_def fmt_hex_def accepts_atomically)
qed

lemma cast_back: "(ucast (ucast (x :: u8) :: u32) :: u8) = x" "(ucast (ucast (y :: u16) :: u32) :: u16) = y"
  by (rule bit_eqI; simp add: bit_simps)+

lemma accepts_octet:
  assumes "stops_digits 10 rest"
  shows "accepts (parse_map ucast (read_number 10 3 0x100)) (fmt_dec (x :: u8)) x rest"
proof -
  have "unat x < 256" using unat_less_length [of x] by simp
  then have "accepts (read_number 10 3 0x100) (fmt_dec x) (of_nat (unat x)) rest"
    using assms by (intro accepts_number_dec) simp_all
  from accepts_map [OF this, of "ucast :: u32 \<Rightarrow> u8"] show ?thesis
    by (simp add: cast_back)
qed

lemma accepts_group:
  assumes "stops_digits 16 rest"
  shows "accepts (parse_map ucast (read_number 16 4 0x10000)) (fmt_hex (x :: u16)) x rest"
proof -
  have "unat x < 65536" using unat_less_length [of x] by simp
  then have "accepts (read_number 16 4 0x10000) (fmt_hex x) (of_nat (unat x)) rest"
    using assms by (intro accepts_number_hex) simp_all
  from accepts_map [OF this, of "ucast :: u32 \<Rightarrow> u16"] show ?thesis
    by (simp add: cast_back)
qed

lemma accepts_port:
  assumes "stops_digits 10 rest"
  shows "accepts read_port (fmt_dec (x :: u16)) x rest"
proof -
  have "unat x < 65536" using unat_less_length [of x] by simp
  then have "accepts (read_number 10 5 0x10000) (fmt_dec x) (of_nat (unat x)) rest"
    using assms by (intro accepts_number_dec) simp_all
  from accepts_map [OF this, of "ucast :: u32 \<Rightarrow> u16"] show ?thesis
    by (simp add: read_port_def cast_back)
qed

text \<open>Where a number ends, whatever it was: behind all the digits.\<close>

lemma number_loop_result:
  "n \<le> length str \<Longrightarrow> \<exists>r'. \<exists>n'. read_number_loop radix m u r cnt (at str n) = (r', at str n') \<and>
     (r' \<noteq> None \<longrightarrow> n' = n + length (takeWhile (\<lambda>c. parse_digit c radix \<noteq> None) (drop n str)))"
proof (induction "length str - n" arbitrary: n r cnt rule: less_induct)
  case less
  show ?case
  proof (cases "drop n str")
    case Nil
    then show ?thesis using less.prems
      by (subst (1) read_number_loop.simps) (auto simp: read_digit_at)
  next
    case (Cons c cs)
    then have n': "Suc n \<le> length str" "drop (Suc n) str = cs"
      using after_prefix [of n str "[c]" cs] less.prems by simp_all
    show ?thesis
    proof (cases "parse_digit c radix")
      case None
      then show ?thesis using Cons less.prems
        by (subst (1) read_number_loop.simps) (auto simp: read_digit_at)
    next
      case (Some d)
      let ?r = "r * ucast radix + ucast d :: u32"
      have step: "read_number_loop radix m u r cnt (at str n) =
          (if m < cnt + 1 \<or> u \<le> ?r then (None, at str (Suc n))
           else read_number_loop radix m u ?r (cnt + 1) (at str (Suc n)))"
        using Cons Some less.prems by (subst (1) read_number_loop.simps) (simp add: read_digit_at Let_def)
      have "length str - Suc n < length str - n" using n'(1) by simp
      from less.hyps [OF this n'(1), of ?r "cnt + 1"] show ?thesis
        unfolding step using Cons Some n'(2) by (auto simp: takeWhile_eq_all_conv)
    qed
  qed
qed

lemma read_number_result:
  assumes "n \<le> length str"
  obtains "read_number radix m u (at str n) = (None, at str n)"
  | v where "read_number radix m u (at str n) =
      (Some v, at str (n + length (takeWhile (\<lambda>c. parse_digit c radix \<noteq> None) (drop n str))))"
proof -
  obtain r' n' where r: "read_number_loop radix m u 0 0 (at str n) = (r', at str n')"
      "r' \<noteq> None \<Longrightarrow> n' = n + length (takeWhile (\<lambda>c. parse_digit c radix \<noteq> None) (drop n str))"
    using number_loop_result [OF assms, of radix m u 0 0] by blast
  then show ?thesis using that by (cases r') (simp_all add: read_number_def read_atomically_def)
qed

subsection \<open>IPv4\<close>

lemma stops_dot: "stops_digits 10 (CHR ''.'' # r)" "stops_digits 10 (CHR '':'' # r)" "stops_digits 10 []"
    "stops_digits 16 (CHR '':'' # r)" "stops_digits 16 []" "stops_digits 16 (CHR '']'' # r)"
    "stops_digits 10 (CHR '']'' # r)"
  by (simp_all add: stops_digits_def parse_digit_def)

lemma ipv4_loop_step:
  assumes "accepts (read_ipv4_loop n (bs @ [x])) y zs rest" "stops_digits 10 (y @ rest)"
  shows "accepts (read_ipv4_loop (Suc n) bs) ((if bs = [] then [] else ''.'') @ fmt_dec x @ y) zs rest"
  unfolding accepts_def
proof (intro allI impI)
  fix str i
  assume i: "i \<le> length str" "drop i str = ((if bs = [] then [] else ''.'') @ fmt_dec x @ y) @ rest"
  let ?sep = "if bs = [] then [] else ''.''"
  have j: "i + length ?sep \<le> length str" "drop (i + length ?sep) str = fmt_dec x @ y @ rest"
    using after_prefix [of i str ?sep "fmt_dec x @ y @ rest"] i by simp_all
  have k: "i + length ?sep + length (fmt_dec x) \<le> length str"
      "drop (i + length ?sep + length (fmt_dec x)) str = y @ rest"
    using after_prefix [OF j] by simp_all
  have sep: "bs \<noteq> [] \<Longrightarrow> read_given_char CHR ''.'' (at str i) = (Some CHR ''.'', at str (Suc i))"
    using acceptsD [OF accepts_given_char, of i str "CHR ''.''" "fmt_dec x @ y @ rest"] i by simp
  show "read_ipv4_loop (Suc n) bs (at str i) =
      (Some zs, at str (i + length (?sep @ fmt_dec x @ y)))"
    using sep acceptsD [OF accepts_octet [OF assms(2)] j] acceptsD [OF assms(1) k]
    by (cases "bs = []") (simp_all add: add.assoc)
qed

lemma accepts_ipv4_end: "accepts (read_ipv4_loop 0 bs) [] bs rest"
  by (simp add: accepts_def)

lemma accepts_ipv4:
  assumes "stops_digits 10 rest"
  shows "accepts read_ipv4_addr (fmt_dotted a b c d) (Ipv4Addr_new a b c d) rest"
proof -
  have "accepts (read_ipv4_loop (Suc 0) [a, b, c]) (''.'' @ fmt_dec d) [a, b, c, d] rest"
    using ipv4_loop_step [OF accepts_ipv4_end, of rest "[a, b, c]" d] assms by simp
  then have "accepts (read_ipv4_loop (Suc (Suc 0)) [a, b]) (''.'' @ fmt_dec c @ ''.'' @ fmt_dec d) [a, b, c, d] rest"
    using ipv4_loop_step [of "Suc 0" "[a, b]" c] stops_dot by simp
  then have "accepts (read_ipv4_loop (Suc (Suc (Suc 0))) [a]) (''.'' @ fmt_dec b @ ''.'' @ fmt_dec c @ ''.'' @ fmt_dec d)
      [a, b, c, d] rest"
    using ipv4_loop_step [of "Suc (Suc 0)" "[a]" b] stops_dot by simp
  then have "accepts (read_ipv4_loop 4 []) (fmt_dotted a b c d) [a, b, c, d] rest"
    using ipv4_loop_step [of "Suc (Suc (Suc 0))" "[]" a] stops_dot by (simp add: fmt_dotted_def eval_nat_numeral)
  from accepts_map [OF this, of "\<lambda>bs. Ipv4Addr_new (bs ! 0) (bs ! 1) (bs ! 2) (bs ! 3)"] show ?thesis
    unfolding read_ipv4_addr_def by (intro accepts_atomically) (simp add: eval_nat_numeral)
qed

text \<open>Text whose leading digits are not followed by a dot is no IPv4 address.\<close>

definition no_dotted :: "string \<Rightarrow> bool" where
  "no_dotted r \<longleftrightarrow>
     (case dropWhile (\<lambda>c. parse_digit c 10 \<noteq> None) r of [] \<Rightarrow> True | c # _ \<Rightarrow> c \<noteq> CHR ''.'')"

lemma rejects_ipv4:
  assumes "no_dotted r"
  shows "rejects_back read_ipv4_addr r"
proof -
  let ?dig = "\<lambda>c. parse_digit c 10 \<noteq> None"
  have "rejects (read_ipv4_loop 4 []) r"
    unfolding rejects_def
  proof (intro allI impI)
    fix str n assume n: "n \<le> length str" "drop n str = r"
    show "\<exists>n'. read_ipv4_loop 4 [] (at str n) = (None, at str n')"
    proof (rule read_number_result [OF n(1), of 10 3 "0x100"])
      assume "read_number 10 3 256 (at str n) = (None, at str n)"
      then show ?thesis by (simp add: eval_nat_numeral parse_map_def)
    next
      fix v
      let ?k = "n + length (takeWhile ?dig (drop n str))"
      assume v: "read_number 10 3 256 (at str n) = (Some v, at str ?k)"
      have k: "?k \<le> length str" "drop ?k str = dropWhile ?dig r"
        using after_prefix [of n str "takeWhile ?dig r" "dropWhile ?dig r"] n by simp_all
      have "rejects_back (read_given_char CHR ''.'') (dropWhile ?dig r)"
        using assms by (intro rejects_given_char) (auto simp: no_dotted_def split: list.splits)
      from rejects_backD [OF this k] show ?thesis using v
        by (simp add: eval_nat_numeral parse_map_def)
    qed
  qed
  then show ?thesis unfolding read_ipv4_addr_def by (intro rejects_atomically rejects_map)
qed

subsection \<open>IPv6\<close>

text \<open>What may follow the groups of an address: nothing, a closing bracket, or a double colon.\<close>

definition ends_groups :: "string \<Rightarrow> bool" where
  "ends_groups rest \<longleftrightarrow> rest = [] \<or> hd rest = CHR '']'' \<or> (\<exists>r. rest = CHR '':'' # CHR '':'' # r)"

lemma ends_groups_cases:
  assumes "ends_groups rest"
  obtains "rest = []" | r where "rest = CHR '']'' # r" | r where "rest = CHR '':'' # CHR '':'' # r"
  using assms by (cases rest) (auto simp: ends_groups_def)

lemma digit_char_neq:
  "d < 16 \<Longrightarrow> digit_char d \<noteq> CHR ''.'' \<and> digit_char d \<noteq> CHR '':''"
  by (drule less_16, elim insertE emptyE; simp add: digit_char_def char_of_def)

lemma no_dotted_append:
  assumes "CHR ''.'' \<notin> set x" "no_dotted r"
  shows "no_dotted (x @ r)"
  using assms by (induction x) (auto simp: no_dotted_def)

lemma fmt_hex_no_dot: "CHR ''.'' \<notin> set (fmt_hex x)"
  using digits_props(2) [of 16 "unat x"] digit_char_neq by (fastforce simp: fmt_hex_def)

lemma no_dotted_simps: "no_dotted []" "no_dotted (CHR '':'' # r)" "no_dotted (CHR '']'' # r)"
  using stops_dot(2,7) by (simp_all add: no_dotted_def stops_digits_def)

lemma ends_no_dotted: "ends_groups rest \<Longrightarrow> no_dotted rest"
  by (erule ends_groups_cases) (simp_all add: no_dotted_simps)

lemma ends_stops: "ends_groups rest \<Longrightarrow> stops_digits 16 rest"
  by (erule ends_groups_cases) (simp_all add: stops_dot)

abbreviation colon_groups :: "u16 list \<Rightarrow> string" where
  "colon_groups gs \<equiv> concat (map (\<lambda>seg. '':'' @ fmt_hex seg) gs)"

lemma colon_groups_follow:
  assumes "ends_groups rest"
  shows "no_dotted (colon_groups gs @ rest)" "stops_digits 16 (colon_groups gs @ rest)"
  using ends_no_dotted [OF assms] ends_stops [OF assms]
  by (cases gs; simp add: no_dotted_simps stops_dot)+

text \<open>The separator before a group, and a number or an address behind it.\<close>

definition sep_then :: "bool \<Rightarrow> 'a parse \<Rightarrow> 'a parse" where
  "sep_then first pa =
     read_atomically (\<lambda>p. case (if first then (Some CHR '':'', p) else read_given_char CHR '':'' p) of
       (Some _, p) \<Rightarrow> pa p | (None, p) \<Rightarrow> (None, p))"

abbreviation sep_text :: "bool \<Rightarrow> string" where
  "sep_text first \<equiv> (if first then [] else '':'')"

lemma accepts_sep_then:
  assumes "accepts pa x v rest"
  shows "accepts (sep_then first pa) (sep_text first @ x) v rest"
  unfolding sep_then_def
proof (rule accepts_atomically, unfold accepts_def, intro allI impI)
  fix str n assume n: "n \<le> length str" "drop n str = (sep_text first @ x) @ rest"
  show "(case (if first then (Some CHR '':'', at str n) else read_given_char CHR '':'' (at str n)) of
        (Some _, p) \<Rightarrow> pa p | (None, p) \<Rightarrow> (None, p)) = (Some v, at str (n + length (sep_text first @ x)))"
  proof (cases first)
    case True
    then show ?thesis using acceptsD [OF assms] n by simp
  next
    case False
    have k: "Suc n \<le> length str" "drop (Suc n) str = x @ rest"
      using after_prefix [of n str "'':''" "x @ rest"] n False by simp_all
    have "read_given_char CHR '':'' (at str n) = (Some CHR '':'', at str (Suc n))"
      using acceptsD [OF accepts_given_char, of n str "CHR '':''" "x @ rest"] n False by simp
    then show ?thesis using False acceptsD [OF assms k] by simp
  qed
qed

lemma rejects_sep_then:
  assumes "if first then rejects pa r else (r = [] \<or> hd r \<noteq> CHR '':'' \<or> rejects pa (tl r))"
  shows "rejects_back (sep_then first pa) r"
  unfolding sep_then_def
proof (rule rejects_atomically, unfold rejects_def, intro allI impI)
  fix str n assume n: "n \<le> length str" "drop n str = r"
  show "\<exists>n'. (case (if first then (Some CHR '':'', at str n) else read_given_char CHR '':'' (at str n)) of
        (Some _, p) \<Rightarrow> pa p | (None, p) \<Rightarrow> (None, p)) = (None, at str n')"
  proof (cases first)
    case True
    then show ?thesis using assms n by (auto simp: rejects_def)
  next
    case notfirst: False
    show ?thesis
    proof (cases "r = [] \<or> hd r \<noteq> CHR '':''")
      case True
      then show ?thesis using rejects_backD [OF rejects_given_char n] notfirst by auto
    next
      case False
      then obtain r' where r': "r = CHR '':'' # r'" by (cases r) auto
      have k: "Suc n \<le> length str" "drop (Suc n) str = r'"
        using after_prefix [of n str "'':''" r'] n r' by simp_all
      have "read_given_char CHR '':'' (at str n) = (Some CHR '':'', at str (Suc n))"
        using acceptsD [OF accepts_given_char, of n str "CHR '':''" r'] n r' by simp
      moreover have "rejects pa r'" using assms notfirst False r' by simp
      ultimately show ?thesis using notfirst k by (auto simp: rejects_def)
    qed
  qed
qed

lemma read_groups_loop_Suc:
  "read_groups_loop (Suc n) groups p =
     (case (if n > 0 then sep_then (groups = []) read_ipv4_addr p else (None, p)) of
        (Some v4_addr, p) \<Rightarrow>
          (case Ipv4Addr_octets v4_addr of (a, b, c, d) \<Rightarrow> (groups @ [be16 a b, be16 c d], True, p))
      | (None, p) \<Rightarrow>
          (case sep_then (groups = []) (parse_map ucast (read_number 16 4 0x10000)) p of
             (Some g, p) \<Rightarrow> read_groups_loop n (groups @ [g]) p
           | (None, p) \<Rightarrow> (groups, False, p)))"
  by (simp add: sep_then_def Let_def split: option.split prod.split)

declare read_groups_loop.simps(2) [simp del]

lemma rejects_number_colon: "rejects (parse_map f (read_number 16 4 0x10000)) (CHR '':'' # r)"
    "rejects (parse_map f (read_number 16 4 0x10000)) []" "rejects (parse_map f (read_number 16 4 0x10000)) (CHR '']'' # r)"
proof -
  have *: "rejects (read_number_loop 16 4 0x10000 0 0) r" if "stops_digits 16 r" for r
    using that by (auto simp: rejects_def read_number_loop.simps read_digit_at stops_digits_def split: list.split)
  have "rejects (parse_map f (read_number 16 4 0x10000)) r" if "stops_digits 16 r" for r
    unfolding read_number_def by (rule rejects_map [OF rejects_back_rejects [OF rejects_atomically [OF * [OF that]]]])
  then show "rejects (parse_map f (read_number 16 4 0x10000)) (CHR '':'' # r)"
    "rejects (parse_map f (read_number 16 4 0x10000)) []" "rejects (parse_map f (read_number 16 4 0x10000)) (CHR '']'' # r)"
    using stops_dot by simp_all
qed

text \<open>The loop stops where the groups end.\<close>

lemma groups_stop:
  assumes "ends_groups rest" "n \<le> length str" "drop n str = rest"
  shows "read_groups_loop k groups (at str n) = (groups, False, at str n)"
proof (cases k)
  case (Suc m)
  have v4: "rejects_back (sep_then (groups = []) read_ipv4_addr) rest"
    using assms(1) by (intro rejects_sep_then, elim ends_groups_cases)
      (auto intro!: rejects_back_rejects rejects_ipv4 simp: no_dotted_simps)
  have gr: "rejects_back (sep_then (groups = []) (parse_map ucast (read_number 16 4 0x10000) :: u16 parse)) rest"
    using assms(1) by (intro rejects_sep_then, elim ends_groups_cases) (auto intro: rejects_number_colon)
  show ?thesis
    using rejects_backD [OF v4 assms(2,3)] rejects_backD [OF gr assms(2,3)] Suc by (simp add: read_groups_loop_Suc)
qed simp

text \<open>One group.\<close>

lemma groups_step:
  assumes rest: "no_dotted rest" "stops_digits 16 rest"
    and n: "n \<le> length str" "drop n str = sep_text (groups = []) @ fmt_hex g @ rest"
  shows "read_groups_loop (Suc k) groups (at str n) =
    read_groups_loop k (groups @ [g]) (at str (n + length (sep_text (groups = []) @ fmt_hex g)))"
proof -
  have "no_dotted (fmt_hex g @ rest)" by (rule no_dotted_append [OF fmt_hex_no_dot rest(1)])
  then have r: "rejects read_ipv4_addr (fmt_hex g @ rest)" by (intro rejects_back_rejects rejects_ipv4)
  have "rejects_back (sep_then (groups = []) read_ipv4_addr) (sep_text (groups = []) @ fmt_hex g @ rest)"
    using r by (intro rejects_sep_then) simp
  from rejects_backD [OF this n(1)] have v4: "sep_then (groups = []) read_ipv4_addr (at str n) = (None, at str n)"
    using n(2) by simp
  have "accepts (sep_then (groups = []) (parse_map ucast (read_number 16 4 0x10000)))
      (sep_text (groups = []) @ fmt_hex g) g rest"
    by (intro accepts_sep_then accepts_group rest)
  from acceptsD [OF this n(1)] v4 show ?thesis using n(2) by (simp add: read_groups_loop_Suc)
qed

lemma groups_read:
  assumes "ends_groups rest" "groups \<noteq> []"
  shows "length gs \<le> k \<Longrightarrow> n \<le> length str \<Longrightarrow> drop n str = colon_groups gs @ rest \<Longrightarrow>
    read_groups_loop k groups (at str n) = (groups @ gs, False, at str (n + length (colon_groups gs)))"
  using assms(2)
proof (induction gs arbitrary: k n groups)
  case Nil
  then show ?case using groups_stop [OF assms(1)] by simp
next
  case (Cons g gs)
  obtain k' where k: "k = Suc k'" using Cons.prems(1) by (cases k) auto
  let ?x = "sep_text (groups = []) @ fmt_hex g"
  have d: "drop n str = sep_text (groups = []) @ fmt_hex g @ colon_groups gs @ rest"
    using Cons.prems(3,4) by simp
  have n': "n + length ?x \<le> length str" "drop (n + length ?x) str = colon_groups gs @ rest"
    using after_prefix [of n str ?x "colon_groups gs @ rest"] d Cons.prems(2) by simp_all
  show ?case
    using groups_step [OF colon_groups_follow [OF assms(1)] Cons.prems(2) d, of k'] k
      Cons.IH [of k' "n + length ?x" "groups @ [g]"] n' Cons.prems(1,4) by (simp add: add.assoc)
qed

lemma groups_read_first:
  assumes "ends_groups rest" "length gs \<le> k" "n \<le> length str" "drop n str = fmt_subslice gs @ rest"
  shows "read_groups_loop k [] (at str n) = (gs, False, at str (n + length (fmt_subslice gs)))"
proof (cases gs)
  case Nil
  then show ?thesis using groups_stop [OF assms(1,3)] assms(4) by simp
next
  case (Cons g gs')
  obtain k' where k: "k = Suc k'" using Cons assms(2) by (cases k) auto
  have d: "drop n str = sep_text (([] :: u16 list) = []) @ fmt_hex g @ colon_groups gs' @ rest"
    using assms(4) Cons by simp
  have n': "n + length (fmt_hex g) \<le> length str" "drop (n + length (fmt_hex g)) str = colon_groups gs' @ rest"
    using after_prefix [of n str "fmt_hex g" "colon_groups gs' @ rest"] d assms(3) by simp_all
  show ?thesis
    using groups_step [OF colon_groups_follow [OF assms(1)] assms(3) d, of k'] k
      groups_read [OF assms(1) _ _ n', of "[g]" k'] Cons assms(2) by (simp add: add.assoc)
qed

text \<open>A dotted tail.\<close>

lemma groups_dotted:
  assumes "stops_digits 10 rest" "0 < k"
    and n: "n \<le> length str" "drop n str = sep_text (groups = []) @ fmt_dotted a b c d @ rest"
  shows "read_groups_loop (Suc k) groups (at str n) =
    (groups @ [be16 a b, be16 c d], True, at str (n + length (sep_text (groups = []) @ fmt_dotted a b c d)))"
proof -
  have "accepts (sep_then (groups = []) read_ipv4_addr) (sep_text (groups = []) @ fmt_dotted a b c d)
      (Ipv4Addr_new a b c d) rest"
    by (intro accepts_sep_then accepts_ipv4 assms(1))
  from acceptsD [OF this n(1)] show ?thesis using n(2) assms(2) by (simp add: read_groups_loop_Suc)
qed

text \<open>An address with a double colon: the head groups, and whatever the tail reads.\<close>

lemma ipv6_double_colon:
  assumes hd: "length h0 < 8" and n: "n \<le> length str" "drop n str = fmt_subslice h0 @ ''::'' @ y @ rest"
    and tl: "\<And>m. m \<le> length str \<Longrightarrow> drop m str = y @ rest \<Longrightarrow>
      read_groups_loop (8 - length h0) [] (at str m) = (t0, b, at str (m + length y))"
  shows "read_ipv6_addr_impl (at str n) =
    (Some (ipv6_addr_from_head_tail h0 t0), at str (n + length (fmt_subslice h0 @ ''::'' @ y)))"
proof -
  let ?a = "n + length (fmt_subslice h0)"
  have a: "?a \<le> length str" "drop ?a str = '':'' @ '':'' @ y @ rest"
    using after_prefix [OF n] by simp_all
  have b: "Suc ?a \<le> length str" "drop (Suc ?a) str = '':'' @ y @ rest"
    using after_prefix [OF a] by simp_all
  have c: "Suc (Suc ?a) \<le> length str" "drop (Suc (Suc ?a)) str = y @ rest"
    using after_prefix [OF b] by simp_all
  have "ends_groups (''::'' @ y @ rest)" by (simp add: ends_groups_def)
  from groups_read_first [OF this, of h0 8 n str] hd n
  have "read_groups 8 (at str n) = (h0, False, at str ?a)" by (simp add: read_groups_def)
  moreover have "read_given_char CHR '':'' (at str ?a) = (Some CHR '':'', at str (Suc ?a))"
    using acceptsD [OF accepts_given_char a(1)] a(2) by simp
  moreover have "read_given_char CHR '':'' (at str (Suc ?a)) = (Some CHR '':'', at str (Suc (Suc ?a)))"
    using acceptsD [OF accepts_given_char b(1)] b(2) by simp
  ultimately show ?thesis
    using hd tl [OF c] by (simp add: read_ipv6_addr_impl_def read_groups_def)
qed

lemma accepts_ipv6_compressed:
  assumes "length h0 + length t0 < 8" "ends_groups rest"
  shows "accepts read_ipv6_addr_impl (fmt_subslice h0 @ ''::'' @ fmt_subslice t0)
    (ipv6_addr_from_head_tail h0 t0) rest"
  unfolding accepts_def
proof (intro allI impI)
  fix str n assume n: "n \<le> length str" "drop n str = (fmt_subslice h0 @ ''::'' @ fmt_subslice t0) @ rest"
  show "read_ipv6_addr_impl (at str n) = (Some (ipv6_addr_from_head_tail h0 t0),
      at str (n + length (fmt_subslice h0 @ ''::'' @ fmt_subslice t0)))"
    using assms n
    by (intro ipv6_double_colon [where b = False and rest = rest] groups_read_first [OF assms(2)]) simp_all
qed

lemma limit_8: "8 - length ([] :: u16 list) = Suc 7"
  by simp_all

lemma accepts_ipv6_compatible:
  assumes "stops_digits 10 rest"
  shows "accepts read_ipv6_addr_impl (''::'' @ fmt_dotted a b c d)
    (ipv6_addr_from_head_tail [] [be16 a b, be16 c d]) rest"
  unfolding accepts_def
proof (intro allI impI)
  fix str n assume n: "n \<le> length str" "drop n str = (''::'' @ fmt_dotted a b c d) @ rest"
  have tl: "read_groups_loop (8 - length ([] :: u16 list)) [] (at str m) =
      ([be16 a b, be16 c d], True, at str (m + length (fmt_dotted a b c d)))"
    if "m \<le> length str" "drop m str = fmt_dotted a b c d @ rest" for m
    unfolding limit_8 using groups_dotted [OF assms, of 7 m str "[]" a b c d] that by simp
  have "read_ipv6_addr_impl (at str n) = (Some (ipv6_addr_from_head_tail [] [be16 a b, be16 c d]),
      at str (n + length (fmt_subslice [] @ ''::'' @ fmt_dotted a b c d)))"
    by (rule ipv6_double_colon [OF _ n(1), where rest = rest and b = True], simp, simp add: n(2), rule tl)
  then show "read_ipv6_addr_impl (at str n) = (Some (ipv6_addr_from_head_tail [] [be16 a b, be16 c d]),
      at str (n + length (''::'' @ fmt_dotted a b c d)))" by simp
qed

lemma accepts_ipv6_mapped:
  assumes "stops_digits 10 rest"
  shows "accepts read_ipv6_addr_impl (''::ffff:'' @ fmt_dotted a b c d)
    (ipv6_addr_from_head_tail [] [0xffff, be16 a b, be16 c d]) rest"
  unfolding accepts_def
proof (intro allI impI)
  fix str n assume n: "n \<le> length str" "drop n str = (''::ffff:'' @ fmt_dotted a b c d) @ rest"
  let ?y = "''ffff:'' @ fmt_dotted a b c d"
  have ffff: "fmt_hex (0xffff :: u16) = ''ffff''" by (simp add: fmt_hex_def digits.simps digit_char_def char_of_def bit_Suc_0_iff)
  have tl: "read_groups_loop (8 - length ([] :: u16 list)) [] (at str m) =
      ([0xffff, be16 a b, be16 c d], True, at str (m + length ?y))"
    if m: "m \<le> length str" "drop m str = ?y @ rest" for m
  proof -
    let ?r = "'':'' @ fmt_dotted a b c d @ rest"
    have d: "drop m str = sep_text (([] :: u16 list) = []) @ fmt_hex (0xffff :: u16) @ ?r" using m(2) ffff by simp
    have k: "Suc (Suc (Suc (Suc m))) \<le> length str" "drop (Suc (Suc (Suc (Suc m)))) str = ?r"
      using after_prefix [of m str "''ffff''" ?r] m by simp_all
    have "read_groups_loop (Suc 7) [] (at str m) = read_groups_loop 7 [0xffff] (at str (Suc (Suc (Suc (Suc m)))))"
      using groups_step [OF _ _ m(1) d, of 7] stops_dot no_dotted_simps ffff by simp
    also have "\<dots> = ([0xffff, be16 a b, be16 c d], True, at str (m + length ?y))"
      using groups_dotted [OF assms, of 6 "Suc (Suc (Suc (Suc m)))" str "[0xffff]" a b c d] k by simp
    finally show ?thesis unfolding limit_8 .
  qed
  have "read_ipv6_addr_impl (at str n) = (Some (ipv6_addr_from_head_tail [] [0xffff, be16 a b, be16 c d]),
      at str (n + length (fmt_subslice [] @ ''::'' @ ?y)))"
    by (rule ipv6_double_colon [OF _ n(1), where rest = rest and b = True], simp, simp add: n(2), rule tl)
  then show "read_ipv6_addr_impl (at str n) = (Some (ipv6_addr_from_head_tail [] [0xffff, be16 a b, be16 c d]),
      at str (n + length (''::ffff:'' @ fmt_dotted a b c d)))" by simp
qed

lemma accepts_ipv6_full:
  assumes "length gs = 8" "ends_groups rest"
  shows "accepts read_ipv6_addr_impl (fmt_subslice gs) (Ipv6Addr_of_list gs) rest"
  unfolding accepts_def
proof (intro allI impI)
  fix str n assume n: "n \<le> length str" "drop n str = fmt_subslice gs @ rest"
  show "read_ipv6_addr_impl (at str n) = (Some (Ipv6Addr_of_list gs), at str (n + length (fmt_subslice gs)))"
    using groups_read_first [OF assms(2) _ n, of 8] assms(1)
    by (simp add: read_ipv6_addr_impl_def read_groups_def)
qed

subsection \<open>The longest run of zeros\<close>

definition zero_span :: "u16 list \<Rightarrow> nat \<Rightarrow> nat \<Rightarrow> bool" where
  "zero_span xs a l \<longleftrightarrow> a + l \<le> length xs \<and> (\<forall>i. a \<le> i \<longrightarrow> i < a + l \<longrightarrow> xs ! i = 0)"

lemma find_zero_slice_from_span:
  "zero_span pre la ll \<Longrightarrow> zero_span pre ca cl \<Longrightarrow> cl = 0 \<or> ca + cl = length pre \<Longrightarrow>
    case find_zero_slice_from segs (length pre) la ll ca cl of (a, l) \<Rightarrow> zero_span (pre @ segs) a l"
proof (induction segs arbitrary: pre la ll ca cl)
  case (Cons x segs)
  have keep: "zero_span (pre @ [x]) la ll" using Cons.prems(1) by (auto simp: zero_span_def nth_append)
  show ?case
  proof (cases "x = 0")
    case False
    have "zero_span (pre @ [x]) 0 0" by (simp add: zero_span_def)
    then show ?thesis using Cons.IH [OF keep, of 0 0] False by simp
  next
    case True
    let ?ca = "if cl = 0 then length pre else ca"
    have cur: "zero_span (pre @ [x]) ?ca (cl + 1)" "?ca + (cl + 1) = length (pre @ [x])"
      using Cons.prems(2,3) True by (auto simp: zero_span_def nth_append less_Suc_eq)
    show ?thesis
      using Cons.IH [OF cur(1) cur(1)] Cons.IH [OF keep cur(1)] cur(2) True by (simp add: Let_def)
  qed
qed simp

lemma find_zero_slice_span: "find_zero_slice segs = (a, l) \<Longrightarrow> zero_span segs a l"
  using find_zero_slice_from_span [of "[]" 0 0 0 0 segs] by (simp add: find_zero_slice_def zero_span_def)

lemma zero_span_split:
  assumes "zero_span segs a l"
  shows "take a segs @ replicate l 0 @ drop (a + l) segs = segs"
proof -
  have "take l (drop a segs) = replicate l 0"
    using assms by (intro nth_equalityI) (auto simp: zero_span_def)
  then have "segs = take a segs @ replicate l 0 @ drop l (drop a segs)" by (metis append_take_drop_id)
  then show ?thesis by (simp add: add.commute)
qed

subsection \<open>Printing and parsing\<close>

lemma of_list_segments:
  assumes "Ipv6_wf ip"
  shows "Ipv6Addr_of_list (Ipv6Addr_segments ip) = ip" "length (Ipv6Addr_segments ip) = 8"
proof -
  obtain a b c d e f g h where ip: "ip = Ipv6Addr_new a b c d e f g h"
    "Ipv6Addr_segments ip = [a, b, c, d, e, f, g, h]"
    by (rule Ipv6_wf_cases [OF assms])
  show "Ipv6Addr_of_list (Ipv6Addr_segments ip) = ip" "length (Ipv6Addr_segments ip) = 8"
    by (simp_all add: ip(2) Ipv6Addr_of_list_def) (simp_all add: ip(1))
qed

lemma accepts_ipv6:
  assumes wf: "Ipv6_wf ip" and rest: "rest = [] \<or> hd rest = CHR '']''"
  shows "accepts read_ipv6_addr (Ipv6Addr_fmt ip) ip rest"
  unfolding read_ipv6_addr_def
proof (rule accepts_atomically)
  let ?segs = "Ipv6Addr_segments ip"
  have ends: "ends_groups rest" using rest by (auto simp: ends_groups_def)
  have stop: "stops_digits 10 rest" using rest stops_dot(3,7) by (cases rest) auto
  obtain a b c d e f g h where segs: "?segs = [a, b, c, d, e, f, g, h]" by (rule Ipv6_wf_cases [OF wf])
  have ip_eq: "ip = Ipv6Addr_of_list [a, b, c, d, e, f, g, h]" using of_list_segments(1) [OF wf] segs by simp
  let ?dot = "fmt_dotted (ucast (drop_bit 8 g)) (ucast g) (ucast (drop_bit 8 h)) (ucast h)"
  consider (zero) "?segs = [0, 0, 0, 0, 0, 0, 0, 0]" | (one) "?segs = [0, 0, 0, 0, 0, 0, 0, 1]"
    | (compat) "take 6 ?segs = [0, 0, 0, 0, 0, 0]" "?segs \<noteq> [0, 0, 0, 0, 0, 0, 0, 0]" "?segs \<noteq> [0, 0, 0, 0, 0, 0, 0, 1]"
    | (mapped) "take 6 ?segs = [0, 0, 0, 0, 0, 0xffff]"
    | (general) "take 6 ?segs \<noteq> [0, 0, 0, 0, 0, 0]" "take 6 ?segs \<noteq> [0, 0, 0, 0, 0, 0xffff]" by blast
  then show "accepts read_ipv6_addr_impl (Ipv6Addr_fmt ip) ip rest"
  proof cases
    case zero
    then show ?thesis using accepts_ipv6_compressed [of "[]" "[]", OF _ ends] ip_eq segs
      by (simp add: Ipv6Addr_fmt_def ipv6_addr_from_head_tail_def eval_nat_numeral)
  next
    case one
    have "fmt_hex (1 :: u16) = ''1''" by (simp add: fmt_hex_def digits.simps digit_char_def char_of_def bit_Suc_0_iff)
    then show ?thesis using accepts_ipv6_compressed [of "[]" "[1]", OF _ ends] ip_eq segs one
      by (simp add: Ipv6Addr_fmt_def ipv6_addr_from_head_tail_def eval_nat_numeral)
  next
    case compat
    then have "Ipv6Addr_fmt ip = ''::'' @ ?dot" using segs by (auto simp: Ipv6Addr_fmt_def Let_def)
    moreover have "ipv6_addr_from_head_tail [] [g, h] = ip"
      using compat(1) ip_eq segs by (simp add: ipv6_addr_from_head_tail_def eval_nat_numeral)
    ultimately show ?thesis
      using accepts_ipv6_compatible [OF stop, of "ucast (drop_bit 8 g)" "ucast g" "ucast (drop_bit 8 h)" "ucast h"]
      by simp
  next
    case mapped
    then have "Ipv6Addr_fmt ip = ''::ffff:'' @ ?dot" using segs by (auto simp: Ipv6Addr_fmt_def Let_def)
    moreover have "ipv6_addr_from_head_tail [] [0xffff, g, h] = ip"
      using mapped ip_eq segs by (simp add: ipv6_addr_from_head_tail_def eval_nat_numeral)
    ultimately show ?thesis
      using accepts_ipv6_mapped [OF stop, of "ucast (drop_bit 8 g)" "ucast g" "ucast (drop_bit 8 h)" "ucast h"]
      by simp
  next
    case general
    obtain z l where z: "find_zero_slice ?segs = (z, l)" by (cases "find_zero_slice ?segs")
    note span = find_zero_slice_span [OF z]
    have len: "length ?segs = 8" by (rule of_list_segments [OF wf])
    have fmt: "Ipv6Addr_fmt ip = (if l > 1 then fmt_subslice (take z ?segs) @ ''::'' @ fmt_subslice (drop (z + l) ?segs)
        else fmt_subslice ?segs)"
    proof -
      have "?segs \<noteq> [0, 0, 0, 0, 0, 0, 0, 0]" "?segs \<noteq> [0, 0, 0, 0, 0, 0, 0, 1]" using general(1) by auto
      then show ?thesis using general by (simp add: Ipv6Addr_fmt_def Let_def z)
    qed
    show ?thesis
    proof (cases "l > 1")
      case True
      have zl: "z + l \<le> 8" using span len by (simp add: zero_span_def)
      have "8 - length (drop (z + l) ?segs) - length (take z ?segs) = l" using zl len by simp
      then have "ipv6_addr_from_head_tail (take z ?segs) (drop (z + l) ?segs) = ip"
        using zero_span_split [OF span] of_list_segments(1) [OF wf] by (simp add: ipv6_addr_from_head_tail_def)
      moreover have "length (take z ?segs) + length (drop (z + l) ?segs) < 8" using zl len True by simp
      ultimately show ?thesis
        using accepts_ipv6_compressed [OF _ ends, of "take z ?segs" "drop (z + l) ?segs"] fmt True by simp
    next
      case False
      then show ?thesis using accepts_ipv6_full [OF len ends] of_list_segments(1) [OF wf] fmt by simp
    qed
  qed
qed

lemma from_str_accepts: "accepts pa x v [] \<Longrightarrow> from_str_with pa x = Inr v"
  using acceptsD [of pa x v "[]" 0 x]
  by (simp add: from_str_with_def read_till_eof_def read_atomically_def Parser_new_def is_eof_def)

lemma accepts_read_or:
  "accepts pa x v rest \<Longrightarrow> accepts (read_or (pa # ps)) x v rest"
  "rejects pa (x @ rest) \<Longrightarrow> accepts (read_or ps) x v rest \<Longrightarrow> accepts (read_or (pa # ps)) x v rest"
proof -
  assume "accepts pa x v rest"
  from accepts_atomically [OF this] show "accepts (read_or (pa # ps)) x v rest" by (simp add: accepts_def)
next
  assume r: "rejects pa (x @ rest)" and a: "accepts (read_or ps) x v rest"
  show "accepts (read_or (pa # ps)) x v rest"
    using rejects_backD [OF rejects_atomically [OF r]] a by (simp add: accepts_def)
qed

lemma accepts_seq_3:
  assumes "accepts pa x a (y @ z @ rest)" "accepts pb y b (z @ rest)" "accepts pc z c rest"
  shows "accepts (read_seq_3 pa pb pc) (x @ y @ z) (a, b, c) rest"
  unfolding read_seq_3_def
proof (rule accepts_atomically, unfold accepts_def, intro allI impI)
  fix str n assume n: "n \<le> length str" "drop n str = (x @ y @ z) @ rest"
  have d1: "drop n str = x @ (y @ z @ rest)" using n(2) by simp
  have n1: "n + length x \<le> length str" "drop (n + length x) str = y @ (z @ rest)"
    using after_prefix [OF n(1) d1] by simp_all
  have n2: "n + length x + length y \<le> length str" "drop (n + length x + length y) str = z @ rest"
    using after_prefix [OF n1] by simp_all
  show "(let (a, p) = pa (at str n); (b, p) = if a \<noteq> None then pb p else (None, p);
        (c, p) = if b \<noteq> None then pc p else (None, p)
      in case (a, b, c) of (Some a, Some b, Some c) \<Rightarrow> (Some (a, b, c), p) | _ \<Rightarrow> (None, p)) =
      (Some (a, b, c), at str (n + length (x @ y @ z)))"
    using acceptsD [OF assms(1) n(1) d1] acceptsD [OF assms(2) n1] acceptsD [OF assms(3) n2]
    by (simp add: add.assoc)
qed

text \<open>The printed form of an IPv6 address is not taken for an IPv4 address.\<close>

lemma fmt_subslice_no_dotted:
  assumes "ends_groups t"
  shows "no_dotted (fmt_subslice gs @ t)"
proof (cases gs)
  case Nil
  then show ?thesis using ends_no_dotted [OF assms] by simp
next
  case (Cons g gs')
  then show ?thesis using no_dotted_append [OF fmt_hex_no_dot colon_groups_follow(1) [OF assms]] by simp
qed

lemma Ipv6Addr_fmt_no_dotted: "no_dotted (Ipv6Addr_fmt ip)"
proof -
  have c: "no_dotted (fmt_subslice gs @ CHR '':'' # CHR '':'' # r)" for gs r
    by (rule fmt_subslice_no_dotted) (simp add: ends_groups_def)
  have e: "no_dotted (fmt_subslice gs)" for gs
    using fmt_subslice_no_dotted [of "[]" gs] by (simp add: ends_groups_def)
  show ?thesis
    by (simp add: Ipv6Addr_fmt_def Let_def no_dotted_simps c e split: prod.split)
qed

lemma accepts_Ipv4Addr_fmt:
  assumes "stops_digits 10 rest"
  shows "accepts read_ipv4_addr (Ipv4Addr_fmt ip) ip rest"
proof -
  obtain a b c d where o: "Ipv4Addr_octets ip = (a, b, c, d)" by (cases "Ipv4Addr_octets ip")
  then show ?thesis using accepts_ipv4 [OF assms, of a b c d] Ipv4Addr_new_octets [OF o]
    by (simp add: Ipv4Addr_fmt_def)
qed

lemma SocketAddr_new_eta:
  "SocketAddrV4_new (sin_addr a) (SocketAddrV4_port a) = a"
  "SocketAddrV6_new (sin6_addr b) (SocketAddrV6_port b) (sin6_flowinfo b) (sin6_scope_id b) = b"
  by (cases a, simp add: SocketAddrV4_new_def SocketAddrV4_port_def)
    (cases b, simp add: SocketAddrV6_new_def SocketAddrV6_port_def)

definition IpAddr_wf :: "IpAddr \<Rightarrow> bool" where
  "IpAddr_wf ip = (case ip of V4 a \<Rightarrow> True | V6 a \<Rightarrow> Ipv6_wf a)"

definition SocketAddr_wf :: "SocketAddr \<Rightarrow> bool" where
  "SocketAddr_wf sa =
     (case sa of SockV4 a \<Rightarrow> True
      | SockV6 a \<Rightarrow> Ipv6_wf (sin6_addr a) \<and> sin6_flowinfo a = 0 \<and> sin6_scope_id a = 0)"

text \<open>
  C13: parsing recovers every IP address from its printed form. For IPv6 this covers the double
  colon for the longest run of zeros, the special forms of the unspecified and the loopback address, and
  the dotted tail of compatible and mapped addresses.
\<close>

theorem IpAddr_print_parse:
  assumes "IpAddr_wf ip"
  shows "IpAddr_from_str (IpAddr_fmt ip) = Inr ip"
proof (cases ip)
  case (V4 a)
  have "accepts (parse_map V4 read_ipv4_addr) (Ipv4Addr_fmt a) (V4 a) []"
    by (intro accepts_map accepts_Ipv4Addr_fmt stops_dot)
  then show ?thesis using V4
    by (simp add: IpAddr_from_str_def read_ip_addr_def IpAddr_fmt_def from_str_accepts accepts_read_or(1))
next
  case (V6 a)
  have "rejects (parse_map V4 read_ipv4_addr) (Ipv6Addr_fmt a @ [])"
    using rejects_ipv4 [OF Ipv6Addr_fmt_no_dotted, of a] by (simp add: rejects_map rejects_back_rejects)
  moreover have "accepts (parse_map V6 read_ipv6_addr) (Ipv6Addr_fmt a) (V6 a) []"
    using assms V6 by (intro accepts_map accepts_ipv6) (simp_all add: IpAddr_wf_def)
  ultimately have "accepts read_ip_addr (Ipv6Addr_fmt a) (V6 a) []"
    unfolding read_ip_addr_def by (intro accepts_read_or(2) accepts_read_or(1))
  then show ?thesis using V6 by (simp add: IpAddr_from_str_def IpAddr_fmt_def from_str_accepts)
qed

theorem IpAddr_print_parse_witness:
  "IpAddr_from_str (IpAddr_fmt (V6 (Ipv6Addr_new 0x2001 0xdb8 0 0 1 0 0 0x1f))) =
     Inr (V6 (Ipv6Addr_new 0x2001 0xdb8 0 0 1 0 0 0x1f))"
  by (rule IpAddr_print_parse) (simp add: IpAddr_wf_def)

lemma SocketAddr_from_str_fmt:
  assumes "SocketAddr_wf sa"
  shows "SocketAddr_from_str (SocketAddr_fmt sa) = Inr sa"
proof (cases sa)
  case (SockV4 a)
  have "accepts (read_seq_3 read_ipv4_addr (read_given_char CHR '':'') read_port)
      (Ipv4Addr_fmt (sin_addr a) @ '':'' @ fmt_dec (SocketAddrV4_port a)) (sin_addr a, CHR '':'', SocketAddrV4_port a) []"
    by (intro accepts_seq_3 accepts_Ipv4Addr_fmt accepts_given_char accepts_port) (simp_all add: stops_dot)
  from accepts_map [OF this, of "\<lambda>(ip, _, port). SocketAddrV4_new ip port"]
  have "accepts read_socket_addr_v4 (SocketAddrV4_fmt a) a []"
    by (simp add: read_socket_addr_v4_def SocketAddrV4_fmt_def SocketAddr_new_eta)
  then show ?thesis using SockV4
    by (simp add: SocketAddr_from_str_def read_socket_addr_def SocketAddr_fmt_def from_str_accepts
        accepts_read_or(1) accepts_map)
next
  case (SockV6 a)
  have wf: "Ipv6_wf (sin6_addr a)" "sin6_flowinfo a = 0" "sin6_scope_id a = 0"
    using assms SockV6 by (simp_all add: SocketAddr_wf_def)
  let ?tail = "'':'' @ fmt_dec (SocketAddrV6_port a)"
  have "accepts (read_seq_3 (read_given_char CHR ''['') read_ipv6_addr (read_given_char CHR '']''))
      (''['' @ Ipv6Addr_fmt (sin6_addr a) @ '']'') (CHR ''['', sin6_addr a, CHR '']'') ?tail"
    by (intro accepts_seq_3 accepts_ipv6 [OF wf(1)] accepts_given_char) simp
  from accepts_map [OF this, of "\<lambda>(_, ip, _). ip"]
  have ip: "accepts (parse_map (\<lambda>(_, ip, _). ip) (read_seq_3 (read_given_char CHR ''['') read_ipv6_addr (read_given_char CHR '']'')))
      (''['' @ Ipv6Addr_fmt (sin6_addr a) @ '']'') (sin6_addr a) (?tail @ [])" by simp
  have "accepts (read_seq_3 (parse_map (\<lambda>(_, ip, _). ip)
        (read_seq_3 (read_given_char CHR ''['') read_ipv6_addr (read_given_char CHR '']'')))
      (read_given_char CHR '':'') read_port)
      ((''['' @ Ipv6Addr_fmt (sin6_addr a) @ '']'') @ '':'' @ fmt_dec (SocketAddrV6_port a))
      (sin6_addr a, CHR '':'', SocketAddrV6_port a) []"
    using ip by (intro accepts_seq_3 accepts_given_char accepts_port) (simp_all add: stops_dot)
  from accepts_map [OF this, of "\<lambda>(ip, _, port). SocketAddrV6_new ip port 0 0"]
  have "accepts read_socket_addr_v6 (SocketAddrV6_fmt a) a []"
    using SocketAddr_new_eta(2) [of a] by (simp add: read_socket_addr_v6_def SocketAddrV6_fmt_def wf)
  then have v6: "accepts (parse_map SockV6 read_socket_addr_v6) (SocketAddrV6_fmt a) (SockV6 a) []"
    by (rule accepts_map)
  have "no_dotted (SocketAddrV6_fmt a)" by (simp add: SocketAddrV6_fmt_def no_dotted_def parse_digit_def)
  from rejects_ipv4 [OF this]
  have "rejects (read_seq_3 read_ipv4_addr (read_given_char CHR '':'') read_port) (SocketAddrV6_fmt a)"
    by (auto simp: read_seq_3_def rejects_def rejects_back_def read_atomically_def)
  then have "rejects (parse_map SockV4 read_socket_addr_v4) (SocketAddrV6_fmt a @ [])"
    by (simp add: read_socket_addr_v4_def rejects_map)
  with v6 have "accepts read_socket_addr (SocketAddrV6_fmt a) (SockV6 a) []"
    unfolding read_socket_addr_def by (intro accepts_read_or(2) accepts_read_or(1))
  then show ?thesis using SockV6 by (simp add: SocketAddr_from_str_def SocketAddr_fmt_def from_str_accepts)
qed

text \<open>
  C14: parsing recovers every socket address from its printed form, except for the flow label and the
  scope of an IPv6 address, which are not printed and have to be zero.
\<close>

theorem SocketAddr_print_parse:
  assumes "SocketAddr_wf sa"
  shows "SocketAddr_from_str (SocketAddr_fmt sa) = Inr sa"
  using assms by (rule SocketAddr_from_str_fmt)

theorem SocketAddr_print_parse_witness:
  "SocketAddr_from_str (SocketAddr_fmt (SocketAddr_new (V6 (Ipv6Addr_new 0 0 0 0 0 0 0 1)) 8080)) =
     Inr (SocketAddr_new (V6 (Ipv6Addr_new 0 0 0 0 0 0 0 1)) 8080)"
  by (rule SocketAddr_print_parse) (simp add: SocketAddr_wf_def SocketAddr_new_def SocketAddrV6_new_def)

end
