(* ===== verification/Socket_Resolve.thy ===== *)
theory Socket_Resolve
  imports Ip_Parser
begin

section \<open>\<open>net/addr.rs\<close> and \<open>net/mod.rs\<close>: resolving what names a socket address\<close>

text \<open>
  The implementations of \<open>ToSocketAddrs\<close> and \<open>each_addr\<close>, which every \<open>connect\<close> and \<open>bind\<close> goes
  through. The resolver of the operating system, \<open>lookup_host\<close>, is a parameter: it maps a host to
  the addresses found, or to an error. The closure that \<open>each_addr\<close> tries is a parameter too; the
  attempts it makes are part of the result.
\<close>

datatype io_error = InvalidInput string | Os_Error nat

type_synonym 'a io = "io_error + 'a"

subsection \<open>Splitting off the port and reading it\<close>

text \<open>\<open>str::rsplitn(2, ':')\<close>: the part after the last separator and, if there is one, the part before it.\<close>

fun rsplit_colon :: "string \<Rightarrow> string \<times> string option" where
  "rsplit_colon [] = ([], None)"
| "rsplit_colon (c # cs) =
     (case rsplit_colon cs of
        (port, Some host) \<Rightarrow> (port, Some (c # host))
      | (rest, None) \<Rightarrow> if c = CHR '':'' then (rest, Some []) else (c # rest, None))"

text \<open>\<open>str::parse::<u16>\<close> of the core library: an optional plus sign and at least one decimal digit.\<close>

definition dec_value :: "char \<Rightarrow> nat option" where
  "dec_value c = (let n = of_char c :: nat in if 48 \<le> n \<and> n \<le> 57 then Some (n - 48) else None)"

fun dec_number :: "nat \<Rightarrow> string \<Rightarrow> nat option" where
  "dec_number acc [] = Some acc"
| "dec_number acc (c # cs) =
     (case dec_value c of None \<Rightarrow> None
      | Some d \<Rightarrow> if acc * 10 + d < 65536 then dec_number (acc * 10 + d) cs else None)"

definition u16_from_str :: "string \<Rightarrow> u16 option" where
  "u16_from_str str =
     (let ds = (case str of c # cs \<Rightarrow> if c = CHR ''+'' then cs else str | [] \<Rightarrow> [])
      in if ds = [] then None else map_option of_nat (dec_number 0 ds))"

subsection \<open>The implementations\<close>

definition resolve_socket_addr :: "(string \<Rightarrow> SocketAddr list io) \<Rightarrow> string \<Rightarrow> u16 \<Rightarrow> SocketAddr list io" where
  "resolve_socket_addr lookup_host h p =
     (case lookup_host h of Inl e \<Rightarrow> Inl e | Inr ips \<Rightarrow> Inr (map (\<lambda>a. SocketAddr_set_port a p) ips))"

definition SocketAddr_to_socket_addrs :: "SocketAddr \<Rightarrow> SocketAddr list io" where
  "SocketAddr_to_socket_addrs self = Inr [self]"

definition Ipv4Addr_u16_to_socket_addrs :: "Ipv4Addr \<times> u16 \<Rightarrow> SocketAddr list io" where
  "Ipv4Addr_u16_to_socket_addrs self =
     (case self of (ip, port) \<Rightarrow> SocketAddr_to_socket_addrs (SockV4 (SocketAddrV4_new ip port)))"

definition Ipv6Addr_u16_to_socket_addrs :: "Ipv6Addr \<times> u16 \<Rightarrow> SocketAddr list io" where
  "Ipv6Addr_u16_to_socket_addrs self =
     (case self of (ip, port) \<Rightarrow> SocketAddr_to_socket_addrs (SockV6 (SocketAddrV6_new ip port 0 0)))"

definition IpAddr_u16_to_socket_addrs :: "IpAddr \<times> u16 \<Rightarrow> SocketAddr list io" where
  "IpAddr_u16_to_socket_addrs self =
     (case self of (ip, port) \<Rightarrow>
        (case ip of V4 a \<Rightarrow> Ipv4Addr_u16_to_socket_addrs (a, port)
         | V6 a \<Rightarrow> Ipv6Addr_u16_to_socket_addrs (a, port)))"

definition str_u16_to_socket_addrs :: "(string \<Rightarrow> SocketAddr list io) \<Rightarrow> string \<times> u16 \<Rightarrow> SocketAddr list io" where
  "str_u16_to_socket_addrs lookup_host self =
     (case self of (host, port) \<Rightarrow>
        (case Ipv4Addr_from_str host of
           Inr addr \<Rightarrow> Inr [SockV4 (SocketAddrV4_new addr port)]
         | Inl _ \<Rightarrow>
             (case Ipv6Addr_from_str host of
                Inr addr \<Rightarrow> Inr [SockV6 (SocketAddrV6_new addr port 0 0)]
              | Inl _ \<Rightarrow> resolve_socket_addr lookup_host host port)))"

definition str_to_socket_addrs :: "(string \<Rightarrow> SocketAddr list io) \<Rightarrow> string \<Rightarrow> SocketAddr list io" where
  "str_to_socket_addrs lookup_host self =
     (case SocketAddr_from_str self of
        Inr addr \<Rightarrow> Inr [addr]
      | Inl _ \<Rightarrow>
          (case rsplit_colon self of
             (port_str, None) \<Rightarrow> Inl (InvalidInput ''invalid socket address'')
           | (port_str, Some host) \<Rightarrow>
               (case u16_from_str port_str of
                  None \<Rightarrow> Inl (InvalidInput ''invalid port value'')
                | Some port \<Rightarrow> resolve_socket_addr lookup_host host port)))"

text \<open>
  \<open>each_addr\<close>: the closure is tried on one address after another until it succeeds; the state it
  changes is passed along.
\<close>

fun each_addr_loop :: "('s \<Rightarrow> SocketAddr \<Rightarrow> 't io \<times> 's) \<Rightarrow> SocketAddr list \<Rightarrow> io_error option \<Rightarrow> 's \<Rightarrow> 't io \<times> 's" where
  "each_addr_loop f [] last_err s =
     (Inl (case last_err of Some e \<Rightarrow> e
           | None \<Rightarrow> InvalidInput ''could not resolve to any addresses''), s)"
| "each_addr_loop f (addr # addrs) last_err s =
     (case f s addr of
        (Inr l, s') \<Rightarrow> (Inr l, s')
      | (Inl e, s') \<Rightarrow> each_addr_loop f addrs (Some e) s')"

definition each_addr :: "SocketAddr list io \<Rightarrow> ('s \<Rightarrow> SocketAddr \<Rightarrow> 't io \<times> 's) \<Rightarrow> 's \<Rightarrow> 't io \<times> 's" where
  "each_addr addr f s = (case addr of Inl e \<Rightarrow> (Inl e, s) | Inr addrs \<Rightarrow> each_addr_loop f addrs None s)"

subsection \<open>Splitting and reading\<close>

lemma rsplit_colon_spec:
  "case rsplit_colon str of
     (port, Some host) \<Rightarrow> str = host @ '':'' @ port \<and> CHR '':'' \<notin> set port
   | (rest, None) \<Rightarrow> rest = str \<and> CHR '':'' \<notin> set str"
  by (induction str) (auto split: prod.splits option.splits)

lemma rsplit_colon_append:
  "CHR '':'' \<notin> set port \<Longrightarrow> rsplit_colon (host @ '':'' @ port) = (port, Some host)"
proof (induction host)
  case Nil
  then have "rsplit_colon port = (port, None)"
    using rsplit_colon_spec [of port] by (auto split: prod.splits option.splits)
  then show ?case by simp
qed simp

lemma dec_number_digits:
  "\<forall>d \<in> set ds. d < 10 \<Longrightarrow> foldl (\<lambda>a d. a * 10 + d) acc ds < 65536 \<Longrightarrow>
   dec_number acc (map digit_char ds) = Some (foldl (\<lambda>a d. a * 10 + d) acc ds)"
proof (induction ds arbitrary: acc)
  case (Cons d ds)
  have "a \<le> foldl (\<lambda>a d. a * 10 + d) a xs" for a :: nat and xs
  proof (induction xs arbitrary: a)
    case (Cons x xs)
    show ?case using Cons [of "a * 10 + x"] by simp
  qed simp
  from this [of "acc * 10 + d" ds] Cons.prems have small: "acc * 10 + d < 65536" by simp
  have "dec_value (digit_char d) = Some d"
    using Cons.prems(1) by (simp add: dec_value_def digit_char_def)
  with Cons small show ?case by simp
qed simp

lemma digit_char_not:
  assumes "d < 10"
  shows "digit_char d \<noteq> CHR '':''" "digit_char d \<noteq> CHR ''+''"
proof -
  have "of_char (digit_char d) = 48 + d" using assms by (simp add: digit_char_def)
  moreover have "of_char (CHR '':'') = (58 :: nat)" "of_char (CHR ''+'') = (43 :: nat)" by simp_all
  ultimately show "digit_char d \<noteq> CHR '':''" "digit_char d \<noteq> CHR ''+''" using assms by fastforce+
qed

lemma fmt_dec_port:
  fixes p :: u16
  shows "CHR '':'' \<notin> set (fmt_dec p)" "u16_from_str (fmt_dec p) = Some p"
proof -
  let ?ds = "digits 10 (unat p)"
  have ds: "foldl (\<lambda>a d. a * 10 + d) 0 ?ds = unat p" "\<forall>d \<in> set ?ds. d < 10" "?ds \<noteq> []"
    using digits_props [of 10 "unat p"] by (simp_all add: mult.commute)
  then show "CHR '':'' \<notin> set (fmt_dec p)"
    by (auto simp: fmt_dec_def dest: digit_char_not(1) [symmetric])
  have "unat p < 65536" using unat_less_length [of p] by simp
  then have "dec_number 0 (map digit_char ?ds) = Some (unat p)"
    using dec_number_digits [OF ds(2), of 0] ds(1) by simp
  then show "u16_from_str (fmt_dec p) = Some p"
    using ds(2,3) by (cases ?ds) (auto simp: u16_from_str_def fmt_dec_def Let_def digit_char_not)
qed

text \<open>
  What a string resolves to. The printed form of a socket address resolves to that address
  without asking the resolver; a string that is no address but a host, a colon and a port resolves
  to the addresses that the resolver has for that host, each with that port, and fails as
  the resolver does; a string without a colon is refused.
\<close>

theorem str_to_socket_addrs_resolves:
  assumes "SocketAddr_wf sa"
    and "SocketAddr_from_str (host @ '':'' @ fmt_dec port) = Inl AddrParseError"
    and "CHR '':'' \<notin> set bare"
  shows "str_to_socket_addrs lookup_host (SocketAddr_fmt sa) = Inr [sa] \<and>
    str_to_socket_addrs lookup_host (host @ '':'' @ fmt_dec port) =
      map_sum id (map (\<lambda>a. SocketAddr_set_port a port)) (lookup_host host) \<and>
    (SocketAddr_from_str bare = Inl AddrParseError \<longrightarrow>
      str_to_socket_addrs lookup_host bare = Inl (InvalidInput ''invalid socket address''))"
proof (intro conjI impI)
  show "str_to_socket_addrs lookup_host (SocketAddr_fmt sa) = Inr [sa]"
    by (simp add: str_to_socket_addrs_def SocketAddr_from_str_fmt [OF assms(1)])
  show "str_to_socket_addrs lookup_host (host @ '':'' @ fmt_dec port) =
      map_sum id (map (\<lambda>a. SocketAddr_set_port a port)) (lookup_host host)"
    using assms(2) rsplit_colon_append [OF fmt_dec_port(1), of host port]
    by (simp add: str_to_socket_addrs_def resolve_socket_addr_def fmt_dec_port(2) split: sum.split)
  show "str_to_socket_addrs lookup_host bare = Inl (InvalidInput ''invalid socket address'')"
    if "SocketAddr_from_str bare = Inl AddrParseError"
    using that assms(3) rsplit_colon_spec [of bare]
    by (auto simp: str_to_socket_addrs_def split: prod.splits option.splits)
qed

theorem str_to_socket_addrs_resolves_witness:
  "str_to_socket_addrs (\<lambda>h. if h = ''a'' then Inr [SocketAddr_new (V4 Ipv4Addr_localhost) 0] else Inl (Os_Error 1)) ''a:80'' =
     Inr [SocketAddr_new (V4 Ipv4Addr_localhost) 80]"
proof -
  have h: "''a'' @ '':'' @ fmt_dec (80::u16) = ''a:80''"
    by code_simp
  have w: "SocketAddr_wf (SockV4 \<lparr>sin_port = 0, sin_addr = Ipv4Addr_localhost\<rparr>)" by (simp add: SocketAddr_wf_def)
  have e: "SocketAddr_from_str (''a'' @ '':'' @ fmt_dec (80::u16)) = Inl AddrParseError"
    unfolding h by code_simp
  show ?thesis
    using str_to_socket_addrs_resolves [OF w e, of "''b''"
      "\<lambda>h. if h = ''a'' then Inr [SocketAddr_new (V4 Ipv4Addr_localhost) 0] else Inl (Os_Error 1)"]
    unfolding h by (simp add: SocketAddr_new_def SocketAddr_set_port_def SocketAddrV4_new_def SocketAddrV4_set_port_def)
qed

lemma each_addr_loop_logged:
  "each_addr_loop (\<lambda>tried a. (g a, tried @ [a])) addrs last_err tried =
     (case dropWhile (\<lambda>a. isl (g a)) addrs of
        [] \<Rightarrow> (Inl (if addrs = [] then (case last_err of Some e \<Rightarrow> e
                    | None \<Rightarrow> InvalidInput ''could not resolve to any addresses'')
                  else projl (g (last addrs))), tried @ addrs)
      | a # _ \<Rightarrow> (g a, tried @ takeWhile (\<lambda>a. isl (g a)) addrs @ [a]))"
proof (induction addrs arbitrary: last_err tried)
  case (Cons a addrs)
  show ?case
    by (cases "g a"; cases "dropWhile (\<lambda>a. isl (g a)) addrs") (simp_all add: Cons del: dropWhile_eq_Nil_conv)
qed simp

text \<open>
  \<open>each_addr\<close> tries the addresses in order and stops at the first success; every address before it
  is tried once and none after it. When all fail the error is that of the last, with no address
  at all the error says so, and a failed resolution is passed on with nothing tried.
\<close>

lemma each_addr_first_success:
  "each_addr resolved (\<lambda>tried a. (g a, tried @ [a])) [] =
     (case resolved of
        Inl e \<Rightarrow> (Inl e, [])
      | Inr [] \<Rightarrow> (Inl (InvalidInput ''could not resolve to any addresses''), [])
      | Inr addrs \<Rightarrow>
          (case dropWhile (\<lambda>a. isl (g a)) addrs of
             [] \<Rightarrow> (Inl (projl (g (last addrs))), addrs)
           | a # _ \<Rightarrow> (g a, takeWhile (\<lambda>a. isl (g a)) addrs @ [a])))"
proof (cases resolved)
  case (Inr addrs)
  then show ?thesis
    by (cases addrs; cases "dropWhile (\<lambda>a. isl (g a)) addrs") (simp_all add: each_addr_def each_addr_loop_logged)
qed (simp add: each_addr_def)

end
