(* ===== verification/Memchr.thy ===== *)
theory Memchr
  imports Rust_Base
begin

section \<open>\<open>sys_common/memchr.rs\<close>: searching a byte two words at a time\<close>

text \<open>
  The portable search of \<open>src/sys_common/memchr.rs\<close> on a 64-bit little-endian target. A slice is
  its bytes together with the address of the first one. The unsafe word reads check what makes them
  defined, an aligned address and eight bytes inside the slice, and are undefined behaviour
  otherwise, so that a theorem that gives the result of a search also shows that all its reads are
  sound. Lengths and offsets are natural numbers: the code only adds to an offset that is below the
  length of a slice.
\<close>

subsection \<open>Words made of bytes\<close>

definition LO_USIZE :: usize where "LO_USIZE = 0x0101010101010101"

definition HI_USIZE :: usize where "HI_USIZE = 0x8080808080808080"

abbreviation usize_bytes :: nat where "usize_bytes \<equiv> 8"

definition contains_zero_byte :: "usize \<Rightarrow> bool" where
  "contains_zero_byte x \<longleftrightarrow> (x - LO_USIZE) AND NOT x AND HI_USIZE \<noteq> 0"

definition repeat_byte :: "u8 \<Rightarrow> usize" where
  "repeat_byte b =
     (let rep = push_bit 8 (ucast b) OR ucast b;
          rep = push_bit 16 rep OR rep;
          rep = push_bit 32 rep OR rep
      in rep)"

text \<open>The word at an address: its first byte is the least significant.\<close>

fun of_le_bytes :: "u8 list \<Rightarrow> usize" where
  "of_le_bytes [] = 0"
| "of_le_bytes (b # bs) = ucast b OR push_bit 8 (of_le_bytes bs)"

definition read_usize :: "nat \<Rightarrow> u8 list \<Rightarrow> nat \<Rightarrow> usize res" where
  "read_usize addr txt offset =
     (if (addr + offset) mod usize_bytes \<noteq> 0 then Inl (Undefined ''unaligned read'')
      else if length txt < offset + usize_bytes then Inl (Undefined ''read out of bounds'')
      else Inr (of_le_bytes (take usize_bytes (drop offset txt))))"

subsection \<open>Slices\<close>

text \<open>\<open>Iterator::position\<close> and \<open>rposition\<close>.\<close>

fun position :: "('a \<Rightarrow> bool) \<Rightarrow> 'a list \<Rightarrow> nat option" where
  "position p [] = None"
| "position p (x # xs) = (if p x then Some 0 else map_option Suc (position p xs))"

fun rposition :: "('a \<Rightarrow> bool) \<Rightarrow> 'a list \<Rightarrow> nat option" where
  "rposition p [] = None"
| "rposition p (x # xs) =
     (case rposition p xs of Some i \<Rightarrow> Some (Suc i) | None \<Rightarrow> if p x then Some 0 else None)"

definition align_offset :: "nat \<Rightarrow> nat \<Rightarrow> nat" where
  "align_offset addr n = (n - addr mod n) mod n"

subsection \<open>Searching forwards\<close>

function memchr_body :: "nat \<Rightarrow> usize \<Rightarrow> u8 list \<Rightarrow> nat \<Rightarrow> nat res" where
  "memchr_body addr repeated_x txt offset =
     (if offset \<le> length txt - 2 * usize_bytes then
        bindR (read_usize addr txt offset) (\<lambda>u.
        bindR (read_usize addr txt (offset + usize_bytes)) (\<lambda>v.
        let zu = contains_zero_byte (u XOR repeated_x);
            zv = contains_zero_byte (v XOR repeated_x)
        in if zu \<or> zv then Inr offset
           else memchr_body addr repeated_x txt (offset + usize_bytes * 2)))
      else Inr offset)"
  by pat_completeness auto
termination by (relation "measure (\<lambda>(_, _, txt, offset). Suc (length txt) - offset)") auto

declare memchr_body.simps [simp del]

definition memchr :: "nat \<Rightarrow> u8 \<Rightarrow> u8 list \<Rightarrow> nat option res" where
  "memchr addr x txt =
     (let len = length txt;
          offset = align_offset addr usize_bytes;
          aligned = (if offset > 0 then min offset len else offset);
          early = (if offset > 0 then position (\<lambda>elt. elt = x) (take aligned txt) else None)
      in case early of
           Some index \<Rightarrow> Inr (Some index)
         | None \<Rightarrow>
             let repeated_x = repeat_byte x in
             bindR (if len \<ge> 2 * usize_bytes then memchr_body addr repeated_x txt aligned else Inr aligned)
               (\<lambda>offset. bindR (slice_from txt offset)
                 (\<lambda>tail. Inr (map_option (\<lambda>i. offset + i) (position (\<lambda>elt. elt = x) tail)))))"

subsection \<open>Searching backwards\<close>

function memrchr_body :: "nat \<Rightarrow> usize \<Rightarrow> u8 list \<Rightarrow> nat \<Rightarrow> nat res" where
  "memrchr_body addr repeated_x txt offset =
     (if offset \<ge> 2 * usize_bytes then
        bindR (read_usize addr txt (offset - 2 * usize_bytes)) (\<lambda>u.
        bindR (read_usize addr txt (offset - usize_bytes)) (\<lambda>v.
        let zu = contains_zero_byte (u XOR repeated_x);
            zv = contains_zero_byte (v XOR repeated_x)
        in if zu \<or> zv then Inr offset
           else memrchr_body addr repeated_x txt (offset - 2 * usize_bytes)))
      else Inr offset)"
  by pat_completeness auto
termination by (relation "measure (\<lambda>(_, _, _, offset). offset)") auto

declare memrchr_body.simps [simp del]

definition memrchr :: "nat \<Rightarrow> u8 \<Rightarrow> u8 list \<Rightarrow> nat option res" where
  "memrchr addr x txt =
     (let len = length txt;
          end_align = (addr + len) mod usize_bytes;
          offset = (if end_align > 0 then (if end_align \<ge> len then 0 else len - end_align) else len)
      in bindR (if end_align > 0 then
                  bindR (slice_from txt offset) (\<lambda>tail. Inr (rposition (\<lambda>elt. elt = x) tail))
                else Inr None)
           (\<lambda>early. case early of
              Some index \<Rightarrow> Inr (Some (offset + index))
            | None \<Rightarrow>
                let repeated_x = repeat_byte x in
                bindR (memrchr_body addr repeated_x txt offset)
                  (\<lambda>offset. bindR (slice_to txt offset)
                    (\<lambda>front. Inr (rposition (\<lambda>elt. elt = x) front)))))"

subsection \<open>The bit trick\<close>

fun le_val :: "u8 list \<Rightarrow> int" where
  "le_val [] = 0"
| "le_val (b # bs) = uint b + 256 * le_val bs"

fun lo_val :: "nat \<Rightarrow> int" where
  "lo_val 0 = 0"
| "lo_val (Suc n) = 1 + 256 * lo_val n"

text \<open>
  Some byte of the difference has its highest bit set where the number itself has not.
\<close>

definition borrowed :: "u8 list \<Rightarrow> bool" where
  "borrowed bs \<longleftrightarrow>
     (\<exists>i < length bs. bit (le_val bs - lo_val (length bs)) (8 * i + 7) \<and> \<not> bit (le_val bs) (8 * i + 7))"

lemma bit_low_high:
  fixes a c :: int
  assumes "0 \<le> a" "a < 256"
  shows "bit (a + 256 * c) (8 * Suc i + 7) \<longleftrightarrow> bit c (8 * i + 7)" "bit (a + 256 * c) 7 \<longleftrightarrow> 128 \<le> a"
proof -
  have "drop_bit 8 (a + 256 * c) = c" using assms by (simp add: drop_bit_eq_div)
  then show "bit (a + 256 * c) (8 * Suc i + 7) \<longleftrightarrow> bit c (8 * i + 7)"
    using bit_drop_bit_eq [of 8 "a + 256 * c"] by (metis (no_types, lifting) add.assoc comp_apply mult_Suc_right)
  have "(a + 256 * c) div 128 = a div 128 + 2 * c" by simp
  moreover have "a div 128 = (if 128 \<le> a then 1 else 0)" using assms by (simp add: div_pos_pos_trivial) presburger
  ultimately show "bit (a + 256 * c) 7 \<longleftrightarrow> 128 \<le> a" by (simp add: bit_iff_odd)
qed

lemma uint_u8: "0 \<le> uint b" "uint b < 256" for b :: u8
  using uint_bounded [of b] by simp_all

lemma ex_less_Suc_shift: "(\<exists>i < Suc n. P i) \<longleftrightarrow> P 0 \<or> (\<exists>i < n. P (Suc i))"
  by (auto simp: less_Suc_eq_0_disj)

lemma borrowed_iff: "borrowed bs \<longleftrightarrow> 0 \<in> set bs"
proof (induction bs)
  case (Cons b bs)
  let ?v = "le_val bs" and ?l = "lo_val (length bs)"
  note u = uint_u8 [of b]
  show ?case
  proof (cases "b = 0")
    case True
    have "le_val (b # bs) - lo_val (length (b # bs)) = 255 + 256 * (?v - ?l - 1)" using True by simp
    then have "bit (le_val (b # bs) - lo_val (length (b # bs))) 7" by (simp only: bit_low_high(2))
    moreover have "\<not> bit (le_val (b # bs)) 7" using bit_low_high(2) [of 0 ?v] True by simp
    ultimately show ?thesis using True
      by (simp add: borrowed_def ex_less_Suc_shift del: le_val.simps lo_val.simps)
  next
    case False
    then have pos: "1 \<le> uint b" using u by (simp add: int_one_le_iff_zero_less order_less_le uint_0_iff)
    have d: "le_val (b # bs) - lo_val (length (b # bs)) = (uint b - 1) + 256 * (?v - ?l)" by simp
    have "bit (le_val (b # bs) - lo_val (length (b # bs))) 7 \<longleftrightarrow> 128 < uint b"
      unfolding d using u pos by (subst bit_low_high) simp_all
    moreover have "bit (le_val (b # bs)) 7 \<longleftrightarrow> 128 \<le> uint b"
      unfolding le_val.simps using u by (subst bit_low_high) simp_all
    moreover have "bit (le_val (b # bs) - lo_val (length (b # bs))) (8 * Suc i + 7) \<longleftrightarrow> bit (?v - ?l) (8 * i + 7)" for i
      unfolding d using u pos by (subst bit_low_high) simp_all
    moreover have "bit (le_val (b # bs)) (8 * Suc i + 7) \<longleftrightarrow> bit ?v (8 * i + 7)" for i
      unfolding le_val.simps using u by (subst bit_low_high) simp_all
    ultimately have "borrowed (b # bs) \<longleftrightarrow> borrowed bs"
      by (simp add: borrowed_def ex_less_Suc_shift del: le_val.simps lo_val.simps) auto
    then show ?thesis using Cons False by auto
  qed
qed (simp add: borrowed_def)

lemma uint_of_le_bytes: "length bs \<le> 8 \<Longrightarrow> uint (of_le_bytes bs) = le_val bs \<and> le_val bs < 2 ^ (8 * length bs)"
proof (induction bs)
  case (Cons b bs)
  note u = uint_u8 [of b]
  have IH: "uint (of_le_bytes bs) = le_val bs" "le_val bs < 2 ^ (8 * length bs)" using Cons by simp_all
  have ge: "0 \<le> le_val bs" using IH(1) by (metis uint_ge_0)
  have p: "(2 :: int) ^ (8 * length (b # bs)) = 256 * 2 ^ (8 * length bs)" by (simp add: power_add)
  have small: "uint b + 256 * le_val bs < 2 ^ (8 * length (b # bs))" unfolding p using u IH(2) by linarith
  also have "\<dots> \<le> 2 ^ 64" using Cons.prems by (intro power_increasing) simp_all
  finally have "uint b + 256 * le_val bs < 2 ^ 64" .
  moreover have "of_le_bytes (b # bs) = ucast b + push_bit 8 (of_le_bytes bs)"
    unfolding of_le_bytes.simps by (rule disjunctive_add [symmetric]) (auto simp: bit_simps dest: bit_imp_le_length)
  ultimately have "uint (of_le_bytes (b # bs)) = uint b + 256 * le_val bs"
    using u ge IH(1) by (simp add: push_bit_eq_mult uint_word_ariths unsigned_ucast_eq take_bit_int_eq_self mod_add_right_eq mult.commute [of _ 256] mod_pos_pos_trivial)
  then show ?case using small by simp
qed simp

lemma bit_of_le_bytes:
  "bit (of_le_bytes bs) n \<longleftrightarrow> n < 64 \<and> n div 8 < length bs \<and> bit (bs ! (n div 8)) (n mod 8)"
proof (induction bs arbitrary: n)
  case (Cons b bs)
  show ?case
  proof (cases "n < 8")
    case True
    then show ?thesis by (auto simp: bit_simps)
  next
    case False
    then obtain m where m: "n = m + 8" by (metis add.commute le_add_diff_inverse not_less)
    then have q: "n div 8 = Suc (m div 8)" "n mod 8 = m mod 8" by simp_all
    have "bit (of_le_bytes (b # bs)) n \<longleftrightarrow> n < 64 \<and> bit (of_le_bytes bs) m"
      using m by (auto simp: bit_simps dest: bit_imp_le_length)
    then show ?thesis unfolding q list.size nth_Cons_Suc using Cons [of m] m by auto
  qed
qed simp

lemma of_le_bytes_append:
  "of_le_bytes (xs @ ys) = of_le_bytes xs OR push_bit (8 * length xs) (of_le_bytes ys)"
  by (induction xs) (simp_all add: push_bit_push_bit or.assoc)

lemma repeat_byte_bytes: "repeat_byte x = of_le_bytes (replicate 8 x)"
proof -
  have "push_bit 8 (ucast x) OR ucast x = of_le_bytes [x, x]" by (simp add: or.commute)
  moreover have "push_bit 16 (of_le_bytes [x, x]) OR of_le_bytes [x, x] = of_le_bytes [x, x, x, x]"
    using of_le_bytes_append [of "[x, x]" "[x, x]"] by (simp add: or.commute del: of_le_bytes.simps)
  moreover have "push_bit 32 (of_le_bytes [x, x, x, x]) OR of_le_bytes [x, x, x, x] = of_le_bytes [x, x, x, x, x, x, x, x]"
    using of_le_bytes_append [of "[x, x, x, x]" "[x, x, x, x]"] by (simp add: or.commute del: of_le_bytes.simps)
  moreover have "[x, x, x, x, x, x, x, x] = replicate 8 x" by (simp add: numeral_eq_Suc)
  ultimately show ?thesis by (simp only: repeat_byte_def Let_def)
qed

lemma HI_USIZE_bytes: "HI_USIZE = of_le_bytes (replicate 8 0x80)"
  by code_simp

lemma LO_USIZE_bytes: "LO_USIZE = of_le_bytes (replicate 8 1)"
  by code_simp

lemma bit_HI_USIZE: "bit HI_USIZE n \<longleftrightarrow> (\<exists>i < 8. n = 8 * i + 7)"
proof -
  have "bit (0x80 :: u8) m \<longleftrightarrow> m = 7" if "m < 8" for m
  proof -
    have "m \<in> {0, 1, 2, 3, 4, 5, 6, 7}" using that by auto
    then show ?thesis by auto
  qed
  then have "bit HI_USIZE n \<longleftrightarrow> n div 8 < 8 \<and> n mod 8 = 7"
    unfolding HI_USIZE_bytes bit_of_le_bytes by auto
  also have "\<dots> \<longleftrightarrow> (\<exists>i < 8. n = 8 * i + 7)"
  proof
    assume "n div 8 < 8 \<and> n mod 8 = 7"
    then show "\<exists>i < 8. n = 8 * i + 7" using mult_div_mod_eq [of 8 n] by auto
  qed auto
  finally show ?thesis .
qed

text \<open>The test finds a zero byte exactly when the word has one.\<close>

lemma contains_zero_byte_iff:
  assumes "length bs = 8"
  shows "contains_zero_byte (of_le_bytes bs) \<longleftrightarrow> 0 \<in> set bs"
proof -
  let ?w = "of_le_bytes bs"
  have v: "uint ?w = le_val bs" using uint_of_le_bytes [of bs] assms by simp
  have lo: "lo_val 8 = 0x0101010101010101" by (simp add: numeral_eq_Suc)
  have hi: "8 * i + 7 < (64 :: nat)" if "i < 8" for i using that by simp
  have d: "bit (?w - LO_USIZE) (8 * i + 7) \<longleftrightarrow> bit (le_val bs - lo_val 8) (8 * i + 7)" if "i < 8" for i
  proof -
    have "uint (?w - LO_USIZE) = take_bit 64 (le_val bs - lo_val 8)"
      by (simp add: uint_word_ariths v lo LO_USIZE_def take_bit_eq_mod)
    then have "bit (uint (?w - LO_USIZE)) (8 * i + 7) \<longleftrightarrow> bit (take_bit 64 (le_val bs - lo_val 8)) (8 * i + 7)" by simp
    then show ?thesis using hi [OF that] by (simp add: bit_uint_iff bit_take_bit_iff)
  qed
  have "contains_zero_byte ?w \<longleftrightarrow> (\<exists>n. bit ((?w - LO_USIZE) AND NOT ?w AND HI_USIZE) n)"
    by (simp add: contains_zero_byte_def bit_eq_iff) (use bit_imp_le_length [where 'a = 64] in fastforce)
  also have "\<dots> \<longleftrightarrow> (\<exists>i < 8. bit (?w - LO_USIZE) (8 * i + 7) \<and> \<not> bit ?w (8 * i + 7))"
    by (auto simp: bit_simps bit_HI_USIZE dest: hi)
  also have "\<dots> \<longleftrightarrow> borrowed bs"
    using d by (auto simp: borrowed_def assms v [symmetric] bit_uint_iff dest: hi)
  finally show ?thesis by (simp add: borrowed_iff)
qed

lemma of_le_bytes_xor:
  "length xs = length ys \<Longrightarrow> of_le_bytes xs XOR of_le_bytes ys = of_le_bytes (map2 (XOR) xs ys)"
  by (rule bit_eqI) (auto simp: bit_simps bit_of_le_bytes)

lemma word_has_byte:
  assumes "length bs = 8"
  shows "contains_zero_byte (of_le_bytes bs XOR repeat_byte x) \<longleftrightarrow> x \<in> set bs"
proof -
  have "map2 (XOR) bs (replicate 8 x) = map (\<lambda>b. b XOR x) bs"
    using assms by (simp add: zip_replicate2 comp_def)
  moreover have "b XOR x = 0 \<longleftrightarrow> b = x" for b :: u8
    by (metis xor.assoc xor_self_eq xor.right_neutral xor.left_neutral)
  ultimately show ?thesis using assms
    by (auto simp: repeat_byte_bytes of_le_bytes_xor contains_zero_byte_iff image_iff)
qed

subsection \<open>The searches\<close>

lemma position_Some: "position p xs = Some i \<longleftrightarrow> i < length xs \<and> p (xs ! i) \<and> (\<forall>j < i. \<not> p (xs ! j))"
proof (induction xs arbitrary: i)
  case (Cons x xs)
  then show ?case by (cases i) (auto simp: less_Suc_eq_0_disj)
qed simp

lemma position_None: "position p xs = None \<longleftrightarrow> (\<forall>x \<in> set xs. \<not> p x)"
  by (induction xs) simp_all

lemma position_append:
  "position p (xs @ ys) =
     (case position p xs of Some i \<Rightarrow> Some i | None \<Rightarrow> map_option (\<lambda>i. length xs + i) (position p ys))"
  by (induction xs) (cases "position p ys"; auto split: option.split)+

lemma rposition_None: "rposition p xs = None \<longleftrightarrow> (\<forall>x \<in> set xs. \<not> p x)"
  by (induction xs) (auto split: option.split)

lemma position_split:
  assumes "position p xs = Some i"
  obtains s where "xs = take i xs @ s # drop (Suc i) xs" "p s" "list_all (\<lambda>x. \<not> p x) (take i xs)" "i < length xs"
proof -
  from assms have "i < length xs" "p (xs ! i)" "\<forall>j < i. \<not> p (xs ! j)" by (simp_all add: position_Some)
  then show ?thesis using that [of "xs ! i"] id_take_nth_drop [of i xs] by (auto simp: list_all_length)
qed

lemma rposition_split:
  assumes "rposition p xs = Some i"
  obtains s where "xs = take i xs @ s # drop (Suc i) xs" "p s" "list_all (\<lambda>x. \<not> p x) (drop (Suc i) xs)" "i < length xs"
proof -
  have "i < length xs \<and> p (xs ! i) \<and> list_all (\<lambda>x. \<not> p x) (drop (Suc i) xs)"
    using assms
  proof (induction xs arbitrary: i)
    case (Cons x xs)
    show ?case
    proof (cases "rposition p xs")
      case None
      then have "\<forall>x \<in> set xs. \<not> p x" "p x" "i = 0" using Cons.prems rposition_None [of p xs] by (auto split: if_splits)
      then show ?thesis by (simp add: list_all_iff)
    next
      case (Some j)
      then show ?thesis using Cons by auto
    qed
  qed simp
  then show ?thesis using that [of "xs ! i"] id_take_nth_drop [of i xs] by blast
qed

lemma rposition_append:
  "rposition p (xs @ ys) =
     (case rposition p ys of Some i \<Rightarrow> Some (length xs + i) | None \<Rightarrow> rposition p xs)"
  by (induction xs) (auto split: option.split)

lemma read_usize_ok:
  assumes "(addr + off) mod 8 = 0" "off + 8 \<le> length txt"
  shows "\<exists>w. read_usize addr txt off = Inr w \<and>
    (contains_zero_byte (w XOR repeat_byte x) \<longleftrightarrow> x \<in> set (take 8 (drop off txt)))"
  using assms by (simp add: read_usize_def word_has_byte)

lemma take_drop_8: "take (off + 16) xs = take off xs @ take 8 (drop off xs) @ take 8 (drop (off + 8) xs)"
proof -
  have "take (off + 8 + 8) xs = (take off xs @ take 8 (drop off xs)) @ take 8 (drop (off + 8) xs)"
    by (simp only: take_add)
  then show ?thesis by (simp add: add.assoc)
qed

lemma memchr_body_ok:
  assumes "16 \<le> length txt"
  shows "(addr + off) mod 8 = 0 \<Longrightarrow> off \<le> length txt \<Longrightarrow> x \<notin> set (take off txt) \<Longrightarrow>
    \<exists>off'. memchr_body addr (repeat_byte x) txt off = Inr off' \<and> off' \<le> length txt \<and> x \<notin> set (take off' txt)"
  using assms
proof (induction addr "repeat_byte x" "txt" off rule: memchr_body.induct)
  case (1 addr "txt" off)
  show ?case
  proof (cases "off \<le> length txt - 16")
    case True
    have al: "(addr + (off + 8)) mod 8 = 0" "(addr + (off + 16)) mod 8 = 0" using "1.prems"(1) by presburger+
    have le: "off + 8 \<le> length txt" "off + 8 + 8 \<le> length txt" "off + 16 \<le> length txt" using True "1.prems"(4) by linarith+
    obtain u where u: "read_usize addr txt off = Inr u"
      "contains_zero_byte (u XOR repeat_byte x) \<longleftrightarrow> x \<in> set (take 8 (drop off txt))"
      using read_usize_ok [OF "1.prems"(1) le(1)] by blast
    obtain v where v: "read_usize addr txt (off + 8) = Inr v"
      "contains_zero_byte (v XOR repeat_byte x) \<longleftrightarrow> x \<in> set (take 8 (drop (off + 8) txt))"
      using read_usize_ok [OF al(1) le(2)] by blast
    show ?thesis
    proof (cases "contains_zero_byte (u XOR repeat_byte x) \<or> contains_zero_byte (v XOR repeat_byte x)")
      case hit: True
      then have "memchr_body addr (repeat_byte x) txt off = Inr off"
        using True u(1) v(1) by (subst memchr_body.simps) simp
      then show ?thesis using "1.prems" by blast
    next
      case miss: False
      have "memchr_body addr (repeat_byte x) txt off = memchr_body addr (repeat_byte x) txt (off + 16)"
        using True u(1) v(1) miss by (subst memchr_body.simps) simp
      moreover have "x \<notin> set (take (off + 16) txt)"
        using "1.prems"(3) miss u(2) v(2) by (simp add: take_drop_8)
      ultimately show ?thesis
        using "1.hyps" [OF _ u(1) v(1) refl refl] True miss al(2) le(3) "1.prems"(4) by simp
    qed
  next
    case False
    then have "memchr_body addr (repeat_byte x) txt off = Inr off" by (subst memchr_body.simps) simp
    then show ?thesis using "1.prems" by blast
  qed
qed

lemma position_skip:
  assumes "x \<notin> set (take off txt)" "off \<le> length txt"
  shows "position (\<lambda>e. e = x) txt = map_option (\<lambda>i. off + i) (position (\<lambda>e. e = x) (drop off txt))"
proof -
  have "position (\<lambda>e. e = x) (take off txt) = None" using assms(1) by (auto simp: position_None)
  then show ?thesis
    using position_append [of "\<lambda>e. e = x" "take off txt" "drop off txt"] assms(2) by (simp add: min_absorb2)
qed

lemma align_offset_aligned: "(addr + align_offset addr 8) mod 8 = 0"
proof -
  have "(addr + (8 - addr mod 8)) mod 8 = (addr mod 8 + (8 - addr mod 8)) mod 8" by (simp only: mod_add_left_eq)
  also have "\<dots> = 0" using mod_less_divisor [of 8 addr] by simp
  finally show ?thesis by (simp only: align_offset_def mod_add_right_eq)
qed

lemma memchr_finds_first: "memchr addr x txt = Inr (position (\<lambda>elt. elt = x) txt)"
proof -
  let ?o = "align_offset addr 8"
  define a where "a = (if ?o > 0 then min ?o (length txt) else ?o)"
  have al: "(addr + a) mod 8 = 0" if "16 \<le> length txt"
  proof -
    have "?o < 8" by (simp add: align_offset_def)
    then have "a = ?o" using that by (simp add: a_def)
    then show ?thesis using align_offset_aligned by simp
  qed
  have a_le: "a \<le> length txt" by (simp add: a_def)
  show ?thesis
  proof (cases "?o > 0 \<and> position (\<lambda>elt. elt = x) (take a txt) \<noteq> None")
    case True
    then obtain i where i: "position (\<lambda>elt. elt = x) (take a txt) = Some i" by blast
    have "position (\<lambda>elt. elt = x) txt = Some i"
      using position_append [of "\<lambda>elt. elt = x" "take a txt" "drop a txt"] i by simp
    then show ?thesis unfolding memchr_def Let_def a_def [symmetric] using True i by simp
  next
    case False
    then have early: "(if ?o > 0 then position (\<lambda>elt. elt = x) (take a txt) else None) = None" by auto
    have nx: "x \<notin> set (take a txt)"
      using False by (cases "?o > 0") (auto simp: position_None a_def)
    obtain off where off: "(if 16 \<le> length txt then memchr_body addr (repeat_byte x) txt a else Inr a) = Inr off"
      "off \<le> length txt" "x \<notin> set (take off txt)"
      using memchr_body_ok [OF _ al a_le nx] a_le nx by (cases "16 \<le> length txt") auto
    show ?thesis
      unfolding memchr_def Let_def a_def [symmetric] early
      using off position_skip [OF off(3,2)] by (simp add: slice_from_def)
  qed
qed

lemma memrchr_body_ok:
  "(addr + off) mod 8 = 0 \<Longrightarrow> off \<le> length txt \<Longrightarrow> x \<notin> set (drop off txt) \<Longrightarrow>
    \<exists>off'. memrchr_body addr (repeat_byte x) txt off = Inr off' \<and> off' \<le> length txt \<and> x \<notin> set (drop off' txt)"
proof (induction addr "repeat_byte x" "txt" off rule: memrchr_body.induct)
  case (1 addr "txt" off)
  show ?case
  proof (cases "16 \<le> off")
    case True
    then obtain m0 where m0: "off = m0 + 16" by (metis le_add_diff_inverse2)
    have al: "(addr + m0) mod 8 = 0" "(addr + (m0 + 8)) mod 8 = 0" using "1.prems"(1) unfolding m0 by presburger+
    have le: "m0 + 8 \<le> length txt" "m0 + 8 + 8 \<le> length txt" using "1.prems"(2) m0 by linarith+
    have i: "off - 16 = m0" "off - 8 = m0 + 8" using m0 by simp_all
    obtain u where u: "read_usize addr txt m0 = Inr u"
      "contains_zero_byte (u XOR repeat_byte x) \<longleftrightarrow> x \<in> set (take 8 (drop m0 txt))"
      using read_usize_ok [OF al(1) le(1)] by blast
    obtain v where v: "read_usize addr txt (m0 + 8) = Inr v"
      "contains_zero_byte (v XOR repeat_byte x) \<longleftrightarrow> x \<in> set (take 8 (drop (m0 + 8) txt))"
      using read_usize_ok [OF al(2) le(2)] by blast
    show ?thesis
    proof (cases "contains_zero_byte (u XOR repeat_byte x) \<or> contains_zero_byte (v XOR repeat_byte x)")
      case hit: True
      then have "memrchr_body addr (repeat_byte x) txt off = Inr off"
        using True u(1) v(1) i by (subst memrchr_body.simps) simp
      then show ?thesis using "1.prems" by blast
    next
      case miss: False
      have "memrchr_body addr (repeat_byte x) txt off = memrchr_body addr (repeat_byte x) txt m0"
        using True u(1) v(1) miss i by (subst memrchr_body.simps) simp
      moreover have "drop m0 txt = take 8 (drop m0 txt) @ take 8 (drop (m0 + 8) txt) @ drop off txt"
        unfolding m0 by (metis (no_types, lifting) add.commute add.left_commute append_take_drop_id drop_drop numeral_Bit0)
      then have "x \<notin> set (drop m0 txt)"
        using "1.prems"(3) miss u(2) v(2) by (metis Un_iff set_append)
      moreover have "\<exists>off'. memrchr_body addr (repeat_byte x) txt (off - 2 * 8) = Inr off' \<and> off' \<le> length txt \<and>
          x \<notin> set (drop off' txt)" if "x \<notin> set (drop m0 txt)"
        using "1.hyps" [of u v] True u(1) v(1) miss al(1) le(1) that i by simp
      ultimately show ?thesis using i by simp
    qed
  next
    case False
    then have "memrchr_body addr (repeat_byte x) txt off = Inr off" by (subst memrchr_body.simps) simp
    then show ?thesis using "1.prems" by blast
  qed
qed

lemma rposition_skip:
  assumes "x \<notin> set (drop off txt)" "off \<le> length txt"
  shows "rposition (\<lambda>e. e = x) txt = rposition (\<lambda>e. e = x) (take off txt)"
proof -
  have "rposition (\<lambda>e. e = x) (drop off txt) = None" using assms(1) by (auto simp: rposition_None)
  then show ?thesis
    using rposition_append [of "\<lambda>e. e = x" "take off txt" "drop off txt"] by simp
qed

lemma memrchr_finds_last: "memrchr addr x txt = Inr (rposition (\<lambda>elt. elt = x) txt)"
proof -
  let ?e = "(addr + length txt) mod 8"
  define off where "off = (if ?e > 0 then (if ?e \<ge> length txt then 0 else length txt - ?e) else length txt)"
  have le: "off \<le> length txt" by (simp add: off_def)
  have al: "(addr + off) mod 8 = 0 \<or> off = 0"
  proof (cases "?e < length txt")
    case True
    then have m0: "off = length txt - ?e" by (auto simp: off_def)
    have "addr + off = addr + length txt - ?e" using m0 True by simp
    then show ?thesis by simp
  qed (auto simp: off_def)
  define early where "early = (if ?e > 0 then rposition (\<lambda>elt. elt = x) (drop off txt) else None)"
  show ?thesis
  proof (cases early)
    case (Some i)
    then have "rposition (\<lambda>elt. elt = x) txt = Some (off + i)"
      using rposition_append [of "\<lambda>elt. elt = x" "take off txt" "drop off txt"] le
      by (simp add: early_def min_absorb2 split: if_splits)
    then show ?thesis unfolding memrchr_def Let_def off_def [symmetric]
      using Some le by (simp add: early_def slice_from_def split: if_splits)
  next
    case None
    then have nx: "x \<notin> set (drop off txt)"
      by (cases "?e > 0") (auto simp: early_def rposition_None off_def)
    obtain m0 where m0: "memrchr_body addr (repeat_byte x) txt off = Inr m0" "m0 \<le> length txt" "x \<notin> set (drop m0 txt)"
    proof (cases "off = 0")
      case True
      then show ?thesis using that [of 0] nx by (simp add: memrchr_body.simps)
    next
      case False
      then show ?thesis using memrchr_body_ok [OF _ le nx, of addr] al that by auto
    qed
    show ?thesis unfolding memrchr_def Let_def off_def [symmetric]
      using None m0(1) rposition_skip [OF m0(3,2)] le m0(2)
      by (simp add: early_def slice_from_def slice_to_def split: if_splits)
  qed
qed

text \<open>
  C15: the word-wise searches return the index of the first and of the last occurrence of the byte, as
  the plain searches by bytes do, for a slice at any address; none of their reads is unaligned or out
  of bounds, and no slice index panics.
\<close>

theorem memchr_equals_bytewise:
  "memchr addr x txt = Inr (position (\<lambda>elt. elt = x) txt) \<and>
   memrchr addr x txt = Inr (rposition (\<lambda>elt. elt = x) txt)"
  by (simp only: memchr_finds_first memrchr_finds_last)

end
