(* ===== verification/Wtf8.thy ===== *)
theory Wtf8
  imports Rust_Base
begin

section \<open>\<open>sys_common/wtf8.rs\<close>: strings that may hold surrogates\<close>

text \<open>
  The encoding behind \<open>OsString\<close> on Windows. \<open>Wtf8Buf\<close> and \<open>Wtf8\<close> have one field, the bytes; they are
  byte lists here, and a \<open>CodePoint\<close> is its value. The parts of the core library that the code
  calls are modelled with it: \<open>char::encode_utf8\<close>, \<open>str::next_code_point\<close>, \<open>char::encode_utf16\<close> and
  \<open>char::decode_utf16\<close>. An iterator is its state, a \<open>next\<close> function, and a function that collects
  what it yields.
\<close>

type_synonym CodePoint = u32
type_synonym Wtf8 = "u8 list"
type_synonym Wtf8Buf = "u8 list"

subsection \<open>Encodings of the core library\<close>

definition encode_utf8 :: "u32 \<Rightarrow> u8 list" where
  "encode_utf8 code =
     (if code < 0x80 then [ucast code]
      else if code < 0x800 then
        [ucast (drop_bit 6 code AND 0x1F) OR 0xC0, ucast (code AND 0x3F) OR 0x80]
      else if code < 0x10000 then
        [ucast (drop_bit 12 code AND 0x0F) OR 0xE0, ucast (drop_bit 6 code AND 0x3F) OR 0x80,
         ucast (code AND 0x3F) OR 0x80]
      else
        [ucast (drop_bit 18 code AND 0x07) OR 0xF0, ucast (drop_bit 12 code AND 0x3F) OR 0x80,
         ucast (drop_bit 6 code AND 0x3F) OR 0x80, ucast (code AND 0x3F) OR 0x80])"

definition utf8_first_byte :: "u8 \<Rightarrow> nat \<Rightarrow> u32" where
  "utf8_first_byte byte width = ucast (byte AND drop_bit width 0x7F)"

definition utf8_acc_cont_byte :: "u32 \<Rightarrow> u8 \<Rightarrow> u32" where
  "utf8_acc_cont_byte ch byte = push_bit 6 ch OR ucast (byte AND 0x3F)"

fun unwrap_or_0 :: "u8 list \<Rightarrow> u8 \<times> u8 list" where
  "unwrap_or_0 [] = (0, [])"
| "unwrap_or_0 (b # bs) = (b, bs)"

fun next_code_point :: "u8 list \<Rightarrow> (u32 \<times> u8 list) option" where
  "next_code_point [] = None"
| "next_code_point (x # bytes) =
     (if x < 128 then Some (ucast x, bytes)
      else
        let init = utf8_first_byte x 2;
            (y, bytes) = unwrap_or_0 bytes;
            ch = utf8_acc_cont_byte init y
        in if x \<ge> 0xE0 then
             let (z, bytes) = unwrap_or_0 bytes;
                 y_z = utf8_acc_cont_byte (ucast (y AND 0x3F)) z;
                 ch = push_bit 12 init OR y_z
             in if x \<ge> 0xF0 then
                  let (w, bytes) = unwrap_or_0 bytes;
                      ch = push_bit 18 (init AND 7) OR utf8_acc_cont_byte y_z w
                  in Some (ch, bytes)
                else Some (ch, bytes)
           else Some (ch, bytes))"

definition encode_utf16 :: "u32 \<Rightarrow> u16 list" where
  "encode_utf16 code =
     (if code AND 0xFFFF = code then [ucast code]
      else let code = code - 0x10000
           in [0xD800 OR ucast (drop_bit 10 code), 0xDC00 OR (ucast code AND 0x3FF)])"

text \<open>An unpaired surrogate is an error, after which decoding goes on with the next unit.\<close>

fun decode_utf16 :: "u16 list \<Rightarrow> (u16 + u32) list" where
  "decode_utf16 [] = []"
| "decode_utf16 (u # us) =
     (if u AND 0xF800 \<noteq> 0xD800 then Inr (ucast u) # decode_utf16 us
      else if u \<ge> 0xDC00 then Inl u # decode_utf16 us
      else case us of
             [] \<Rightarrow> [Inl u]
           | u2 # us' \<Rightarrow>
               if u2 < 0xDC00 \<or> u2 > 0xDFFF then Inl u # decode_utf16 us
               else Inr ((push_bit 10 (ucast (u - 0xD800)) OR ucast (u2 - 0xDC00)) + 0x10000) # decode_utf16 us')"

subsection \<open>Code points\<close>

definition CodePoint_from_u32 :: "u32 \<Rightarrow> CodePoint option" where
  "CodePoint_from_u32 value = (if value \<le> 0x10FFFF then Some value else None)"

definition CodePoint_to_char :: "CodePoint \<Rightarrow> u32 option" where
  "CodePoint_to_char self = (if 0xD800 \<le> self \<and> self \<le> 0xDFFF then None else Some self)"

definition CodePoint_to_char_lossy :: "CodePoint \<Rightarrow> u32" where
  "CodePoint_to_char_lossy self = (case CodePoint_to_char self of None \<Rightarrow> 0xFFFD | Some c \<Rightarrow> c)"

subsection \<open>Surrogates in the byte string\<close>

definition decode_surrogate :: "u8 \<Rightarrow> u8 \<Rightarrow> u16" where
  "decode_surrogate second_byte third_byte =
     0xD800 OR push_bit 6 (ucast second_byte AND 0x3F) OR (ucast third_byte AND 0x3F)"

definition decode_surrogate_pair :: "u16 \<Rightarrow> u16 \<Rightarrow> u32 res" where
  "decode_surrogate_pair lead trail =
     bindR (subP lead 0xD800) (\<lambda>l.
     bindR (subP trail 0xDC00) (\<lambda>t.
     addP 0x10000 (push_bit 10 (ucast l) OR ucast t)))"

fun next_surrogate_loop :: "u8 list \<Rightarrow> nat \<Rightarrow> (nat \<times> u16) option" where
  "next_surrogate_loop [] pos = None"
| "next_surrogate_loop (b # iter) pos =
     (if b < 0x80 then next_surrogate_loop iter (pos + 1)
      else if b < 0xE0 then next_surrogate_loop (drop 1 iter) (pos + 2)
      else if b = 0xED then
        (case iter of
           b2 # b3 # _ \<Rightarrow>
             if b2 \<ge> 0xA0 then Some (pos, decode_surrogate b2 b3)
             else next_surrogate_loop (drop 2 iter) (pos + 3)
         | _ \<Rightarrow> next_surrogate_loop (drop 2 iter) (pos + 3))
      else if b < 0xF0 then next_surrogate_loop (drop 2 iter) (pos + 3)
      else next_surrogate_loop (drop 3 iter) (pos + 4))"

definition next_surrogate :: "Wtf8 \<Rightarrow> nat \<Rightarrow> (nat \<times> u16) option res" where
  "next_surrogate self pos = bindR (slice_from self pos) (\<lambda>iter. Inr (next_surrogate_loop iter pos))"

definition final_lead_surrogate :: "Wtf8 \<Rightarrow> u16 option" where
  "final_lead_surrogate self =
     (let len = length self in
      if len < 3 then None
      else case drop (len - 3) self of
             [a, b2, b3] \<Rightarrow>
               if a = 0xED \<and> 0xA0 \<le> b2 \<and> b2 \<le> 0xAF then Some (decode_surrogate b2 b3) else None
           | _ \<Rightarrow> None)"

definition initial_trail_surrogate :: "Wtf8 \<Rightarrow> u16 option" where
  "initial_trail_surrogate self =
     (let len = length self in
      if len < 3 then None
      else case take 3 self of
             [a, b2, b3] \<Rightarrow>
               if a = 0xED \<and> 0xB0 \<le> b2 \<and> b2 \<le> 0xBF then Some (decode_surrogate b2 b3) else None
           | _ \<Rightarrow> None)"

subsection \<open>Building strings\<close>

definition push_code_point_unchecked :: "Wtf8Buf \<Rightarrow> CodePoint \<Rightarrow> Wtf8Buf" where
  "push_code_point_unchecked self code_point = self @ encode_utf8 code_point"

definition push_char :: "Wtf8Buf \<Rightarrow> u32 \<Rightarrow> Wtf8Buf" where
  "push_char self c = push_code_point_unchecked self c"

definition from_wide :: "u16 list \<Rightarrow> Wtf8Buf" where
  "from_wide v =
     foldl (\<lambda>string item. case item of
              Inr ch \<Rightarrow> push_char string ch
            | Inl surrogate \<Rightarrow> push_code_point_unchecked string (ucast surrogate))
       [] (decode_utf16 v)"

definition push_str :: "Wtf8Buf \<Rightarrow> u8 list \<Rightarrow> Wtf8Buf" where
  "push_str self other = self @ other"

definition push_wtf8 :: "Wtf8Buf \<Rightarrow> Wtf8 \<Rightarrow> Wtf8Buf res" where
  "push_wtf8 self other =
     (case (final_lead_surrogate self, initial_trail_surrogate other) of
        (Some lead, Some trail) \<Rightarrow>
          bindR (slice_from other 3) (\<lambda>other_without_trail_surrogate.
          bindR (decode_surrogate_pair lead trail) (\<lambda>c.
          Inr (push_char (take (length self - 3) self) c @ other_without_trail_surrogate)))
      | _ \<Rightarrow> Inr (self @ other))"

definition Wtf8Buf_push :: "Wtf8Buf \<Rightarrow> CodePoint \<Rightarrow> Wtf8Buf res" where
  "Wtf8Buf_push self code_point =
     (case (if 0xDC00 \<le> code_point \<and> code_point \<le> 0xDFFF then final_lead_surrogate self else None) of
        Some lead \<Rightarrow>
          bindR (decode_surrogate_pair lead (ucast code_point)) (\<lambda>c.
          Inr (push_char (take (length self - 3) self) c))
      | None \<Rightarrow> Inr (push_code_point_unchecked self code_point))"

fun Wtf8Buf_extend :: "Wtf8Buf \<Rightarrow> CodePoint list \<Rightarrow> Wtf8Buf res" where
  "Wtf8Buf_extend self [] = Inr self"
| "Wtf8Buf_extend self (code_point # iterator) = bindR (Wtf8Buf_push self code_point) (\<lambda>self. Wtf8Buf_extend self iterator)"

definition Wtf8Buf_from_iter :: "CodePoint list \<Rightarrow> Wtf8Buf res" where
  "Wtf8Buf_from_iter iter = Wtf8Buf_extend [] iter"

subsection \<open>Conversion to UTF-8\<close>

definition UTF8_REPLACEMENT_CHARACTER :: "u8 list" where
  "UTF8_REPLACEMENT_CHARACTER = [0xEF, 0xBF, 0xBD]"

text \<open>A string that is UTF-8 is its bytes; \<open>Err\<close> returns the string itself.\<close>

definition into_string :: "Wtf8Buf \<Rightarrow> (Wtf8Buf + u8 list) res" where
  "into_string self =
     bindR (next_surrogate self 0) (\<lambda>r. Inr (case r of None \<Rightarrow> Inr self | Some _ \<Rightarrow> Inl self))"

definition as_str :: "Wtf8 \<Rightarrow> u8 list option res" where
  "as_str self = bindR (next_surrogate self 0) (\<lambda>r. Inr (case r of None \<Rightarrow> Some self | Some _ \<Rightarrow> None))"

lemma next_surrogate_loop_bounds:
  "next_surrogate_loop bs pos = Some (p, u) \<Longrightarrow> pos \<le> p \<and> p + 3 \<le> pos + length bs"
proof (induction bs pos rule: next_surrogate_loop.induct)
  case (2 b iter pos)
  have step: "pos \<le> p \<and> p + 3 \<le> pos + length (b # iter)"
    if "next_surrogate_loop (drop k iter) (pos + Suc k) = Some (p, u)"
      "next_surrogate_loop (drop k iter) (pos + Suc k) = Some (p, u) \<Longrightarrow> pos + Suc k \<le> p \<and> p + 3 \<le> pos + Suc k + length (drop k iter)" for k
    using that by (cases "k \<le> length iter") auto
  show ?case
    using "2.prems" "2.IH" step [of 0] step [of 1] step [of 2] step [of 3]
    by (auto simp: numeral_eq_Suc split: if_splits list.splits)
qed simp

function into_string_lossy_loop :: "Wtf8Buf \<Rightarrow> nat \<Rightarrow> u8 list res" where
  "into_string_lossy_loop self pos =
     bindR (next_surrogate self pos) (\<lambda>r. case r of
        Some (surrogate_pos, _) \<Rightarrow>
          bindR (copy_at self surrogate_pos UTF8_REPLACEMENT_CHARACTER) (\<lambda>self.
          into_string_lossy_loop self (surrogate_pos + 3))
      | None \<Rightarrow> Inr self)"
  by pat_completeness auto
termination
  by (relation "measure (\<lambda>(self, pos). length self - pos)")
    (auto simp: next_surrogate_def copy_at_def slice_from_def UTF8_REPLACEMENT_CHARACTER_def
      dest!: next_surrogate_loop_bounds split: if_splits)

declare into_string_lossy_loop.simps [simp del]

definition into_string_lossy :: "Wtf8Buf \<Rightarrow> u8 list res" where
  "into_string_lossy self = into_string_lossy_loop self 0"

function to_string_lossy_loop :: "Wtf8 \<Rightarrow> u8 list \<Rightarrow> nat \<Rightarrow> u8 list res" where
  "to_string_lossy_loop self utf8_bytes pos =
     bindR (next_surrogate self pos) (\<lambda>r. case r of
        Some (surrogate_pos, _) \<Rightarrow>
          bindR (slice_range self pos surrogate_pos) (\<lambda>part.
          to_string_lossy_loop self (utf8_bytes @ part @ UTF8_REPLACEMENT_CHARACTER) (surrogate_pos + 3))
      | None \<Rightarrow> bindR (slice_from self pos) (\<lambda>part. Inr (utf8_bytes @ part)))"
  by pat_completeness auto
termination
  by (relation "measure (\<lambda>(self, _, pos). length self - pos)")
    (auto simp: next_surrogate_def slice_from_def dest!: next_surrogate_loop_bounds split: if_splits)

declare to_string_lossy_loop.simps [simp del]

definition to_string_lossy :: "Wtf8 \<Rightarrow> u8 list Cow res" where
  "to_string_lossy self =
     bindR (next_surrogate self 0) (\<lambda>r. case r of
        None \<Rightarrow> Inr (Borrowed self)
      | Some (surrogate_pos, _) \<Rightarrow>
          bindR (slice_to self surrogate_pos) (\<lambda>part.
          bindR (to_string_lossy_loop self (part @ UTF8_REPLACEMENT_CHARACTER) (surrogate_pos + 3)) (\<lambda>s.
          Inr (Owned s))))"

subsection \<open>Slicing\<close>

definition is_code_point_boundary :: "Wtf8 \<Rightarrow> nat \<Rightarrow> bool" where
  "is_code_point_boundary self index =
     (if index = length self then True
      else if index < length self then self ! index < 128 \<or> self ! index \<ge> 192
      else False)"

definition Wtf8Buf_truncate :: "Wtf8Buf \<Rightarrow> nat \<Rightarrow> Wtf8Buf res" where
  "Wtf8Buf_truncate self new_len =
     bindR (assertR ''assertion failed: is_code_point_boundary(self, new_len)''
       (is_code_point_boundary self new_len)) (\<lambda>_. Inr (take new_len self))"

definition slice_error_fail :: "nat \<Rightarrow> nat \<Rightarrow> 'a res" where
  "slice_error_fail i j =
     bindR (assertR ''assertion failed: begin <= end'' (i \<le> j))
       (\<lambda>_. Inl (Panic ''index does not lie on character boundary''))"

text \<open>\<open>slice_unchecked\<close> is defined behaviour only inside the string.\<close>

definition slice_unchecked :: "Wtf8 \<Rightarrow> nat \<Rightarrow> nat \<Rightarrow> Wtf8 res" where
  "slice_unchecked self i j =
     (if i \<le> j \<and> j \<le> length self then Inr (take (j - i) (drop i self))
      else Inl (Undefined ''slice out of bounds''))"

definition index_range :: "Wtf8 \<Rightarrow> nat \<Rightarrow> nat \<Rightarrow> Wtf8 res" where
  "index_range self i j =
     (if i \<le> j \<and> is_code_point_boundary self i \<and> is_code_point_boundary self j
      then slice_unchecked self i j else slice_error_fail i j)"

definition index_range_from :: "Wtf8 \<Rightarrow> nat \<Rightarrow> Wtf8 res" where
  "index_range_from self i =
     (if is_code_point_boundary self i then slice_unchecked self i (length self)
      else slice_error_fail i (length self))"

definition index_range_to :: "Wtf8 \<Rightarrow> nat \<Rightarrow> Wtf8 res" where
  "index_range_to self j =
     (if is_code_point_boundary self j then slice_unchecked self 0 j else slice_error_fail 0 j)"

definition ascii_byte_at :: "Wtf8 \<Rightarrow> nat \<Rightarrow> u8 res" where
  "ascii_byte_at self pos =
     (if pos < length self then Inr (if self ! pos \<le> 0x7F then self ! pos else 0xFF)
      else Inl (Panic ''index out of bounds''))"

subsection \<open>Iterators\<close>

lemma next_code_point_length: "next_code_point bs = Some (c, bs') \<Longrightarrow> length bs' < length bs"
proof (cases bs)
  case (Cons x xs)
  moreover have "length (snd (unwrap_or_0 ys)) \<le> length ys" for ys by (cases ys) simp_all
  moreover assume "next_code_point bs = Some (c, bs')"
  ultimately show ?thesis
    by (auto simp: Let_def split: if_splits prod.splits) (metis le_imp_less_Suc le_trans snd_conv)+
qed simp

function code_points :: "Wtf8 \<Rightarrow> CodePoint list" where
  "code_points bytes =
     (case next_code_point bytes of None \<Rightarrow> [] | Some (c, bytes') \<Rightarrow> c # code_points bytes')"
  by pat_completeness auto
termination by (relation "measure length") (auto dest: next_code_point_length)

declare code_points.simps [simp del]

definition code_points_size_hint :: "Wtf8 \<Rightarrow> usize \<times> usize option" where
  "code_points_size_hint bytes =
     (let len = of_nat (length bytes) :: usize;
          sum = (case word_checked_add len 3 of Some n \<Rightarrow> n | None \<Rightarrow> - 1)
      in (sum div 4, Some len))"

record EncodeWide =
  wide_code_points :: Wtf8
  wide_extra :: u16

definition encode_wide :: "Wtf8 \<Rightarrow> EncodeWide" where
  "encode_wide self = \<lparr>wide_code_points = self, wide_extra = 0\<rparr>"

definition EncodeWide_next :: "EncodeWide \<Rightarrow> (u16 \<times> EncodeWide) option" where
  "EncodeWide_next self =
     (if wide_extra self \<noteq> 0 then Some (wide_extra self, self\<lparr>wide_extra := 0\<rparr>)
      else case next_code_point (wide_code_points self) of
             None \<Rightarrow> None
           | Some (c, rest) \<Rightarrow>
               let buf = encode_utf16 c;
                   self = self\<lparr>wide_code_points := rest\<rparr>;
                   self = (if length buf = 2 then self\<lparr>wide_extra := buf ! 1\<rparr> else self)
               in Some (buf ! 0, self))"

definition EncodeWide_size_hint :: "EncodeWide \<Rightarrow> usize \<times> usize option" where
  "EncodeWide_size_hint self =
     (case code_points_size_hint (wide_code_points self) of
        (low, high) \<Rightarrow> (low, Option.bind high (\<lambda>n. word_checked_mul n 2)))"

definition wide_left :: "EncodeWide \<Rightarrow> nat" where
  "wide_left self = 2 * length (wide_code_points self) + (if wide_extra self \<noteq> 0 then 1 else 0)"

lemma EncodeWide_next_measure: "EncodeWide_next self = Some (u, self') \<Longrightarrow> wide_left self' < wide_left self"
  by (auto simp: wide_left_def EncodeWide_next_def Let_def dest: next_code_point_length
      split: if_splits option.splits prod.splits)

function EncodeWide_collect :: "EncodeWide \<Rightarrow> u16 list" where
  "EncodeWide_collect self =
     (case EncodeWide_next self of None \<Rightarrow> [] | Some (u, self') \<Rightarrow> u # EncodeWide_collect self')"
  by pat_completeness auto
termination by (relation "measure wide_left") (auto dest: EncodeWide_next_measure)

declare EncodeWide_collect.simps [simp del]

subsection \<open>Tagged words\<close>

lemma unat_cont_byte:
  "unat (ucast (x AND 0x3F) OR (0x80 :: u8)) = 128 + unat x mod 64" for x :: u32
  using unat_or_tag [of "ucast (x AND 0x3F) :: u8" 6 "0x80"]
  by (simp add: unat_ucast_small unat_and_masks or.commute)

lemma unat_tag_bytes:
  "unat (ucast (x AND 0x1F) OR (0xC0 :: u8)) = 192 + unat x mod 32"
  "unat (ucast (x AND 0x0F) OR (0xE0 :: u8)) = 224 + unat x mod 16"
  "unat (ucast (x AND 0x07) OR (0xF0 :: u8)) = 240 + unat x mod 8" for x :: u32
  using unat_or_tag [of "ucast (x AND 0x1F) :: u8" 5 "0xC0"] unat_or_tag [of "ucast (x AND 0xF) :: u8" 4 "0xE0"]
    unat_or_tag [of "ucast (x AND 7) :: u8" 3 "0xF0"]
  by (simp_all add: unat_ucast_small unat_and_masks or.commute)

lemma unat_utf8_acc: "unat ch * 64 < 2 ^ 32 \<Longrightarrow> unat (utf8_acc_cont_byte ch b) = unat ch * 64 + unat b mod 64"
  using unat_or_tag [of "ucast (b AND 0x3F) :: u32" 6 "push_bit 6 ch"]
  by (simp add: utf8_acc_cont_byte_def unat_push_bit unat_and_masks)

lemma unat_utf8_first: "unat (utf8_first_byte b 2) = unat b mod 32"
  by (simp add: utf8_first_byte_def unat_and_masks)

subsection \<open>Encoding and decoding one code point\<close>

text \<open>The bytes of a code point as numbers.\<close>

definition utf8_nat :: "nat \<Rightarrow> nat list" where
  "utf8_nat n =
     (if n < 0x80 then [n]
      else if n < 0x800 then [192 + n div 64, 128 + n mod 64]
      else if n < 0x10000 then [224 + n div 4096, 128 + n div 64 mod 64, 128 + n mod 64]
      else [240 + n div 262144, 128 + n div 4096 mod 64, 128 + n div 64 mod 64, 128 + n mod 64])"

lemma map_unat_encode_utf8:
  assumes "unat c < 0x110000"
  shows "map unat (encode_utf8 c) = utf8_nat (unat c)"
  using assms
  by (auto simp: encode_utf8_def utf8_nat_def word_less_nat_alt unat_ucast_small unat_cont_byte unat_tag_bytes unat_drop_bit)

lemma encode_utf8_not_Nil [simp]: "encode_utf8 c \<noteq> []"
  by (simp add: encode_utf8_def)

lemma mod_tags:
  "(192 + a) mod 32 = a mod 32" "(128 + a) mod 64 = a mod 64" "(224 + a) mod 32 = a mod 32"
  "(240 + a) mod 32 mod 8 = a mod 8" for a :: nat
proof -
  have "(192 + a) mod 32 = (a + 6 * 32) mod 32" "(128 + a) mod 64 = (a + 2 * 64) mod 64"
    "(224 + a) mod 32 = (a + 7 * 32) mod 32" by (simp_all add: add.commute)
  then show "(192 + a) mod 32 = a mod 32" "(128 + a) mod 64 = a mod 64" "(224 + a) mod 32 = a mod 32"
    by (simp_all only: mod_mult_self1)
  have "(240 + a) mod 32 mod 8 = (240 + a) mod 8" by (rule mod_mod_cancel) simp
  also have "\<dots> = (a + 30 * 8) mod 8" by (simp add: add.commute)
  finally show "(240 + a) mod 32 mod 8 = a mod 8" by (simp only: mod_mult_self1)
qed

lemma mod_digits:
  "n div 64 mod 64 * 64 + n mod 64 = n mod 4096"
  "(n div 4096 mod 64 * 64 + n div 64 mod 64) * 64 + n mod 64 = n mod 262144" for n :: nat
proof -
  show d: "n div 64 mod 64 * 64 + n mod 64 = n mod 4096" for n :: nat
    using mod_mult2_eq [of n 64 64] by simp
  have "n div 64 div 64 mod 64 * 64 + n div 64 mod 64 = n div 64 mod 4096" by (rule d)
  then show "(n div 4096 mod 64 * 64 + n div 64 mod 64) * 64 + n mod 64 = n mod 262144"
    using mod_mult2_eq [of n 64 4096] by (simp add: div_mult2_eq [symmetric])
qed

lemma next_code_point_encode:
  assumes "unat c < 0x110000"
  shows "next_code_point (encode_utf8 c @ rest) = Some (c, rest)"
proof -
  let ?n = "unat c"
  note enc = map_unat_encode_utf8 [OF assms]
  note word_nat = word_less_nat_alt word_le_nat_alt
  consider "?n < 0x80" | "\<not> ?n < 0x80" "?n < 0x800" | "\<not> ?n < 0x800" "?n < 0x10000" | "\<not> ?n < 0x10000" by linarith
  then show ?thesis
  proof cases
    case 1
    then show ?thesis by (simp add: encode_utf8_def word_nat unat_ucast_small unat_eq_iff)
  next
    case 2
    then obtain x y where e: "encode_utf8 c = [x, y]" by (simp add: encode_utf8_def word_nat)
    have u: "unat x = 192 + ?n div 64" "unat y = 128 + ?n mod 64" using enc 2 e by (simp_all add: utf8_nat_def)
    have "?n div 64 < 32" using 2 by simp
    then have "unat (utf8_acc_cont_byte (utf8_first_byte x 2) y) = ?n"
      by (subst unat_utf8_acc) (simp_all add: unat_utf8_first u mod_tags)
    then show ?thesis using \<open>?n div 64 < 32\<close> by (simp add: e word_nat u unat_eq_iff)
  next
    case 3
    then obtain x y z where e: "encode_utf8 c = [x, y, z]" by (simp add: encode_utf8_def word_nat)
    have u: "unat x = 224 + ?n div 4096" "unat y = 128 + ?n div 64 mod 64" "unat z = 128 + ?n mod 64"
      using enc 3 e by (simp_all add: utf8_nat_def)
    have d: "?n div 4096 < 16" using 3 by simp
    let ?yz = "utf8_acc_cont_byte (ucast (y AND 0x3F)) z"
    have yz: "unat ?yz = ?n mod 4096"
      by (subst unat_utf8_acc) (simp_all add: unat_and_masks u mod_tags mod_digits)
    have "unat (push_bit 12 (utf8_first_byte x 2)) = ?n div 4096 * 4096"
      using d by (subst unat_push_bit) (simp_all add: unat_utf8_first u mod_tags)
    then have "unat (push_bit 12 (utf8_first_byte x 2) OR ?yz) = ?n"
      using unat_or_tag [of ?yz 12 "push_bit 12 (utf8_first_byte x 2)"] yz by (simp del: push_bit_numeral)
    then show ?thesis using d by (simp add: e word_nat u unat_eq_iff)
  next
    case 4
    then obtain x y z w where e: "encode_utf8 c = [x, y, z, w]" by (simp add: encode_utf8_def word_nat)
    have u: "unat x = 240 + ?n div 262144" "unat y = 128 + ?n div 4096 mod 64" "unat z = 128 + ?n div 64 mod 64"
      "unat w = 128 + ?n mod 64"
      using enc 4 e by (simp_all add: utf8_nat_def)
    have d: "?n div 262144 < 8" using assms by simp
    let ?yz = "utf8_acc_cont_byte (ucast (y AND 0x3F)) z"
    have yz: "unat ?yz = ?n div 4096 mod 64 * 64 + ?n div 64 mod 64"
      by (subst unat_utf8_acc) (simp_all add: unat_and_masks u mod_tags)
    have "?n div 4096 mod 64 < 64" "?n div 64 mod 64 < 64" by simp_all
    then have "unat ?yz * 64 < 2 ^ 32" unfolding yz by simp
    then have yzw: "unat (utf8_acc_cont_byte ?yz w) = ?n mod 262144"
      using mod_digits(2) [of ?n] by (subst unat_utf8_acc) (simp_all add: u mod_tags yz)
    have "unat (push_bit 18 (utf8_first_byte x 2 AND 7)) = ?n div 262144 * 262144"
      using d by (subst unat_push_bit) (simp_all add: unat_and_masks unat_utf8_first u mod_tags)
    then have "unat (push_bit 18 (utf8_first_byte x 2 AND 7) OR utf8_acc_cont_byte ?yz w) = ?n"
      using unat_or_tag [of "utf8_acc_cont_byte ?yz w" 18 "push_bit 18 (utf8_first_byte x 2 AND 7)"] yzw
      by (simp del: push_bit_numeral)
    then show ?thesis using d by (simp add: e word_nat u unat_eq_iff)
  qed
qed

end
