(* ===== verification/Wtf8_Spec.thy ===== *)
theory Wtf8_Spec
  imports Wtf8
begin

section \<open>\<open>sys_common/wtf8.rs\<close>: what the operations do to code points\<close>

text \<open>
  A string is well formed when it encodes code points among which no lead surrogate is directly
  followed by a trail surrogate. Every operation on bytes is shown to be an operation on the code points,
  and the 16-bit units of the string are what Windows sees.
\<close>

subsection \<open>Code points and the two encodings\<close>

definition is_lead :: "u32 \<Rightarrow> bool" where "is_lead c \<longleftrightarrow> 0xD800 \<le> unat c \<and> unat c < 0xDC00"
definition is_trail :: "u32 \<Rightarrow> bool" where "is_trail c \<longleftrightarrow> 0xDC00 \<le> unat c \<and> unat c < 0xE000"
definition is_code_point :: "u32 \<Rightarrow> bool" where "is_code_point c \<longleftrightarrow> unat c < 0x110000"

abbreviation wtf8_encode :: "u32 list \<Rightarrow> u8 list" where "wtf8_encode cps \<equiv> concat (map encode_utf8 cps)"
abbreviation utf16_encode :: "u32 list \<Rightarrow> u16 list" where "utf16_encode cps \<equiv> concat (map encode_utf16 cps)"

text \<open>A sequence of code points has no surrogate pair: its two halves would be one code point.\<close>

fun no_pair :: "u32 list \<Rightarrow> bool" where
  "no_pair (a # b # cps) \<longleftrightarrow> \<not> (is_lead a \<and> is_trail b) \<and> no_pair (b # cps)"
| "no_pair _ \<longleftrightarrow> True"

definition well_formed :: "u32 list \<Rightarrow> bool" where
  "well_formed cps \<longleftrightarrow> list_all is_code_point cps \<and> no_pair cps"

lemma code_points_encode: "list_all is_code_point cps \<Longrightarrow> code_points (wtf8_encode cps) = cps"
proof (induction cps)
  case Nil
  show ?case by (simp add: code_points.simps)
next
  case (Cons c cps)
  then have "next_code_point (wtf8_encode (c # cps)) = Some (c, wtf8_encode cps)"
    by (simp add: next_code_point_encode is_code_point_def)
  then show ?case using Cons by (subst code_points.simps) simp
qed

lemma encode_utf16_small: "unat c < 0x10000 \<Longrightarrow> encode_utf16 c = [ucast c]"
  by (simp add: encode_utf16_def unat_eq_iff unat_and_masks)

text \<open>The pair of units of a supplementary code point.\<close>

lemma encode_utf16_pair:
  assumes "0x10000 \<le> unat c" "unat c < 0x110000"
  obtains l t where "encode_utf16 c = [l, t]"
    "unat l = 0xD800 + (unat c - 0x10000) div 1024" "unat t = 0xDC00 + (unat c - 0x10000) mod 1024"
proof -
  let ?m = "c - 0x10000"
  have m: "unat ?m = unat c - 0x10000" using assms(1) by (subst unat_sub_small) (simp_all add: word_le_nat_alt)
  have ne: "c AND 0xFFFF \<noteq> c" using assms(1) unat_and_masks(6) [of c] by (auto simp: unat_eq_iff)
  have "unat (ucast (drop_bit 10 ?m) :: u16) = unat ?m div 1024"
    using m assms(2) by (simp add: unat_ucast_small unat_drop_bit)
  then have "unat (0xD800 OR ucast (drop_bit 10 ?m) :: u16) = 0xD800 + unat ?m div 1024"
    using unat_or_tag [of "ucast (drop_bit 10 ?m) :: u16" 10 "0xD800"] m assms(2) by simp
  moreover have "unat (ucast ?m AND 0x3FF :: u16) = unat ?m mod 1024"
    by (simp add: unat_and_masks unsigned_ucast_eq take_bit_eq_mod mod_mod_cancel)
  then have "unat (0xDC00 OR (ucast ?m AND 0x3FF) :: u16) = 0xDC00 + unat ?m mod 1024"
    using unat_or_tag [of "ucast ?m AND 0x3FF :: u16" 10 "0xDC00"] by simp
  ultimately show ?thesis using that ne m by (simp add: encode_utf16_def Let_def)
qed

lemma EncodeWide_collect_encode:
  "list_all is_code_point cps \<Longrightarrow> EncodeWide_collect (encode_wide (wtf8_encode cps)) = utf16_encode cps"
proof (induction cps)
  case Nil
  show ?case by (simp add: encode_wide_def EncodeWide_collect.simps EncodeWide_next_def)
next
  case (Cons c cps)
  let ?s = "encode_wide (wtf8_encode cps)"
  have next_cp: "next_code_point (wtf8_encode (c # cps)) = Some (c, wtf8_encode cps)"
    using Cons by (simp add: next_code_point_encode is_code_point_def)
  show ?case
  proof (cases "unat c < 0x10000")
    case True
    have "EncodeWide_next (encode_wide (wtf8_encode (c # cps))) = Some (ucast c, ?s)"
      using next_cp by (simp add: EncodeWide_next_def encode_wide_def encode_utf16_small [OF True])
    then show ?thesis using Cons by (subst EncodeWide_collect.simps) (simp add: encode_utf16_small [OF True])
  next
    case False
    then obtain l t where p: "encode_utf16 c = [l, t]" "unat t = 0xDC00 + (unat c - 0x10000) mod 1024"
      using Cons.prems encode_utf16_pair [of c thesis] by (auto simp: is_code_point_def)
    then have t0: "t \<noteq> 0" by (auto simp: unat_eq_iff)
    have "EncodeWide_next (encode_wide (wtf8_encode (c # cps))) = Some (l, ?s\<lparr>wide_extra := t\<rparr>)"
      using next_cp by (simp add: EncodeWide_next_def encode_wide_def p(1))
    moreover have "EncodeWide_next (?s\<lparr>wide_extra := t\<rparr>) = Some (t, ?s)"
      using t0 by (simp add: EncodeWide_next_def encode_wide_def)
    ultimately show ?thesis using Cons p(1)
      by (subst EncodeWide_collect.simps) (simp add: EncodeWide_collect.simps [of "?s\<lparr>wide_extra := t\<rparr>"])
  qed
qed

text \<open>The code points of a sequence of units, with every unpaired surrogate as a code point.\<close>

definition units_to_cps :: "u16 list \<Rightarrow> u32 list" where
  "units_to_cps v = map (\<lambda>i. case i of Inl u \<Rightarrow> ucast u | Inr c \<Rightarrow> c) (decode_utf16 v)"

lemma from_wide_encode: "from_wide v = wtf8_encode (units_to_cps v)"
proof -
  have "foldl (\<lambda>string item. case item of Inr ch \<Rightarrow> push_char string ch
      | Inl surrogate \<Rightarrow> push_code_point_unchecked string (ucast surrogate)) acc items =
      acc @ wtf8_encode (map (\<lambda>i. case i of Inl u \<Rightarrow> ucast u | Inr c \<Rightarrow> c) items)" for acc and items :: "(u16 + u32) list"
    by (induction items arbitrary: acc) (simp_all add: push_char_def push_code_point_unchecked_def split: sum.split)
  then show ?thesis by (simp add: from_wide_def units_to_cps_def)
qed

lemma surrogate_mask: "u AND 0xF800 = 0xD800 \<longleftrightarrow> 0xD800 \<le> unat u \<and> unat u < 0xE000" for u :: u16
proof -
  have "(0xF800 :: u16) = NOT (mask 11)" by (simp add: mask_eq_exp_minus_1)
  then have "unat (u AND 0xF800) = unat u - unat u mod 2048" using unat_and_not_mask [of u 11] by simp
  then have "u AND 0xF800 = 0xD800 \<longleftrightarrow> unat u div 2048 = 27"
    by (simp add: unat_eq_iff minus_mod_eq_mult_div) 
  then show ?thesis by auto
qed

lemma unit_cases:
  fixes u :: u16
  obtains (scalar) "u AND 0xF800 \<noteq> 0xD800" "\<not> is_lead (ucast u)" "\<not> is_trail (ucast u)"
  | (trail) "u AND 0xF800 = 0xD800" "u \<ge> 0xDC00" "is_trail (ucast u)" "\<not> is_lead (ucast u)"
  | (lead) "u AND 0xF800 = 0xD800" "\<not> u \<ge> 0xDC00" "is_lead (ucast u)" "\<not> is_trail (ucast u)"
proof -
  have "unat (ucast u :: u32) = unat u" by simp
  then show ?thesis using scalar trail lead surrogate_mask [of u]
    unfolding is_lead_def is_trail_def word_le_nat_alt by (cases "unat u < 0xD800"; cases "unat u < 0xDC00"; cases "unat u < 0xE000") auto
qed

lemma unit_code_point: "is_code_point (ucast u)" "encode_utf16 (ucast u) = [u]" for u :: u16
  using unat_less_length [of u] by (simp_all add: is_code_point_def encode_utf16_small unat_eq_iff unat_ucast_small)

text \<open>The code point of a surrogate pair.\<close>

definition paired :: "u16 \<Rightarrow> u16 \<Rightarrow> u32" where
  "paired l t = (push_bit 10 (ucast (l - 0xD800)) OR ucast (t - 0xDC00)) + 0x10000"

lemma pair_bits:
  fixes l t :: u16
  assumes "is_lead (ucast l)" "is_trail (ucast t)"
  shows "unat (push_bit 10 (ucast (l - 0xD800)) OR ucast (t - 0xDC00) :: u32) = (unat l - 0xD800) * 1024 + (unat t - 0xDC00)"
proof -
  have r: "0xD800 \<le> unat l" "unat l < 0xDC00" "0xDC00 \<le> unat t" "unat t < 0xE000"
    using assms by (simp_all add: is_lead_def is_trail_def)
  have d: "unat (l - 0xD800) = unat l - 0xD800" "unat (t - 0xDC00) = unat t - 0xDC00"
    using r by (simp_all add: unat_sub_small word_le_nat_alt)
  have "unat (push_bit 10 (ucast (l - 0xD800)) :: u32) = (unat l - 0xD800) * 1024"
    using r d by (subst unat_push_bit) simp_all
  then show ?thesis
    using unat_or_tag [of "ucast (t - 0xDC00) :: u32" 10 "push_bit 10 (ucast (l - 0xD800))"] r d by (simp del: push_bit_numeral)
qed

lemma paired_ok:
  assumes "is_lead (ucast l)" "is_trail (ucast t)"
  shows "unat (paired l t) = 0x10000 + (unat l - 0xD800) * 1024 + (unat t - 0xDC00)"
    "encode_utf16 (paired l t) = [l, t]" "is_code_point (paired l t)"
    "\<not> is_lead (paired l t)" "\<not> is_trail (paired l t)"
proof -
  have r: "0xD800 \<le> unat l" "unat l < 0xDC00" "0xDC00 \<le> unat t" "unat t < 0xE000"
    using assms by (simp_all add: is_lead_def is_trail_def)
  show u: "unat (paired l t) = 0x10000 + (unat l - 0xD800) * 1024 + (unat t - 0xDC00)"
    using r pair_bits [OF assms] unfolding paired_def by (subst unat_add_small) simp_all
  show "is_code_point (paired l t)" "\<not> is_lead (paired l t)" "\<not> is_trail (paired l t)"
    using r by (simp_all add: is_code_point_def is_lead_def is_trail_def u)
  have b: "0x10000 \<le> unat (paired l t)" "unat (paired l t) < 0x110000" using r unfolding u by linarith+
  obtain l' t' where p: "encode_utf16 (paired l t) = [l', t']"
    "unat l' = 0xD800 + (unat (paired l t) - 0x10000) div 1024" "unat t' = 0xDC00 + (unat (paired l t) - 0x10000) mod 1024"
    using encode_utf16_pair [OF b] by blast
  obtain a b where ab: "unat l = 0xD800 + a" "unat t = 0xDC00 + b" "b < 1024"
    using that [of "unat l - 0xD800" "unat t - 0xDC00"] r by simp
  have q: "unat (paired l t) - 0x10000 = a * 1024 + b" using u ab by simp
  have "unat l' = unat l" "unat t' = unat t" using p(2,3) ab unfolding q by simp_all
  then show "encode_utf16 (paired l t) = [l, t]" using p(1) by (simp add: unat_eq_iff)
qed

lemma paired_inverse:
  assumes "0x10000 \<le> unat c" "is_code_point c" "encode_utf16 c = [l, t]"
  shows "is_lead (ucast l)" "is_trail (ucast t)" "paired l t = c"
proof -
  obtain l' t' where p: "encode_utf16 c = [l', t']"
    "unat l' = 0xD800 + (unat c - 0x10000) div 1024" "unat t' = 0xDC00 + (unat c - 0x10000) mod 1024"
    using encode_utf16_pair [of c] assms by (auto simp: is_code_point_def)
  then have u: "unat l = 0xD800 + (unat c - 0x10000) div 1024" "unat t = 0xDC00 + (unat c - 0x10000) mod 1024"
    using assms(3) by simp_all
  have "(unat c - 0x10000) div 1024 < 1024" using assms(2) by (simp add: is_code_point_def)
  then show s: "is_lead (ucast l)" "is_trail (ucast t)"
    by (simp_all add: is_lead_def is_trail_def u)
  show "paired l t = c" unfolding unat_eq_iff paired_ok(1) [OF s] u using assms(1) by simp
qed

lemma units_to_cps_Nil [simp]: "units_to_cps [] = []"
  by (simp add: units_to_cps_def)

lemma units_to_cps_single:
  "\<not> is_lead (ucast u) \<Longrightarrow> units_to_cps (u # us) = ucast u # units_to_cps us"
  by (cases u rule: unit_cases) (simp_all add: units_to_cps_def)

lemma units_to_cps_lead:
  assumes "is_lead (ucast u)"
  shows "units_to_cps [u] = [ucast u]"
    "\<not> is_trail (ucast u2) \<Longrightarrow> units_to_cps (u # u2 # us) = ucast u # units_to_cps (u2 # us)"
    "is_trail (ucast u2) \<Longrightarrow> units_to_cps (u # u2 # us) = paired u u2 # units_to_cps us"
proof -
  have u: "u AND 0xF800 = 0xD800" "\<not> u \<ge> 0xDC00" using assms by (cases u rule: unit_cases; simp)+
  have t: "u2 < 0xDC00 \<or> u2 > 0xDFFF \<longleftrightarrow> \<not> is_trail (ucast u2)"
    by (auto simp: is_trail_def word_less_nat_alt)
  show "units_to_cps [u] = [ucast u]"
    "\<not> is_trail (ucast u2) \<Longrightarrow> units_to_cps (u # u2 # us) = ucast u # units_to_cps (u2 # us)"
    "is_trail (ucast u2) \<Longrightarrow> units_to_cps (u # u2 # us) = paired u u2 # units_to_cps us"
    using u t by (simp_all add: units_to_cps_def paired_def del: decode_utf16.simps(2) add: decode_utf16.simps(2) [of u])
qed

lemma no_pair_Cons:
  "no_pair (c # cps) \<longleftrightarrow> (cps = [] \<or> \<not> (is_lead c \<and> is_trail (List.hd cps))) \<and> no_pair cps"
  by (cases cps) simp_all

lemma well_formed_Cons:
  "well_formed (c # cps) \<longleftrightarrow>
     is_code_point c \<and> (cps = [] \<or> \<not> (is_lead c \<and> is_trail (List.hd cps))) \<and> well_formed cps"
  by (auto simp: well_formed_def no_pair_Cons)

lemma well_formed_Nil [simp]: "well_formed []"
  by (simp add: well_formed_def)

lemma hd_units_to_cps: "u # us \<noteq> [] \<Longrightarrow> units_to_cps (u # us) \<noteq> [] \<and>
   (is_trail (List.hd (units_to_cps (u # us))) \<longrightarrow> is_trail (ucast u))"
proof (cases "is_lead (ucast u)")
  case True
  then have nt: "\<not> is_trail (ucast u)" by (auto simp: is_lead_def is_trail_def)
  show ?thesis
  proof (cases us)
    case (Cons u2 us')
    then show ?thesis using True nt units_to_cps_lead(2,3) [OF True, of u2 us'] paired_ok(5) [OF True, of u2]
      by (cases "is_trail (ucast u2)") simp_all
  qed (use True nt units_to_cps_lead(1) in simp)
qed (simp add: units_to_cps_single)

text \<open>The units of the code points are the units; the code points are well formed.\<close>

lemma units_roundtrip: "utf16_encode (units_to_cps v) = v \<and> well_formed (units_to_cps v)"
proof (induction v rule: length_induct)
  case (1 v)
  show ?case
  proof (cases v)
    case (Cons u us)
    show ?thesis
    proof (cases "is_lead (ucast u)")
      case False
      then show ?thesis using 1 Cons by (simp add: units_to_cps_single unit_code_point well_formed_Cons)
    next
      case lead: True
      show ?thesis
      proof (cases us)
        case Nil
        then show ?thesis using Cons lead by (simp add: units_to_cps_lead unit_code_point well_formed_Cons)
      next
        case us: (Cons u2 us')
        show ?thesis
        proof (cases "is_trail (ucast u2)")
          case True
          then show ?thesis using 1 Cons us lead
            by (simp add: units_to_cps_lead(3) paired_ok well_formed_Cons)
        next
          case False
          then show ?thesis using 1 Cons us lead hd_units_to_cps [of u2 us']
            by (auto simp: units_to_cps_lead(2) unit_code_point well_formed_Cons)
        qed
      qed
    qed
  qed simp
qed

lemma units_to_cps_encode: "well_formed cps \<Longrightarrow> units_to_cps (utf16_encode cps) = cps"
proof (induction cps)
  case (Cons c cps)
  then have wf: "is_code_point c" "cps = [] \<or> \<not> (is_lead c \<and> is_trail (List.hd cps))" and IH: "units_to_cps (utf16_encode cps) = cps"
    by (simp_all add: well_formed_Cons)
  show ?case
  proof (cases "unat c < 0x10000")
    case False
    then obtain l t where p: "encode_utf16 c = [l, t]"
      using encode_utf16_pair [of c thesis] wf(1) by (auto simp: is_code_point_def)
    with False wf(1) have "is_lead (ucast l)" "is_trail (ucast t)" "paired l t = c"
      using paired_inverse [of c l t] by simp_all
    then show ?thesis using p IH by (simp add: units_to_cps_lead(3))
  next
    case True
    let ?u = "ucast c :: u16"
    have c: "ucast ?u = c" using True by (simp add: unat_eq_iff unat_ucast_small)
    have e: "utf16_encode (c # cps) = ?u # utf16_encode cps" using True by (simp add: encode_utf16_small)
    show ?thesis
    proof (cases "is_lead c")
      case False
      then show ?thesis unfolding e using c IH units_to_cps_single [of ?u] by simp
    next
      case lead: True
      show ?thesis
      proof (cases "utf16_encode cps")
        case Nil
        then have "cps = []" using IH by (simp only: units_to_cps_Nil)
        then show ?thesis unfolding e using c lead units_to_cps_lead(1) [of ?u] by simp
      next
        case us: (Cons u2 us)
        have "\<not> is_trail (ucast u2)"
        proof (cases cps)
          case cps: (Cons d ds)
          have d: "is_code_point d" "\<not> is_trail d" using Cons.prems lead cps by (simp_all add: well_formed_Cons)
          show ?thesis
          proof (cases "unat d < 0x10000")
            case True
            then have "u2 = ucast d" using us cps by (simp add: encode_utf16_small)
            then have "ucast u2 = d" using True by (simp add: unat_eq_iff unat_ucast_small)
            then show ?thesis using d(2) by simp
          next
            case False
            then obtain l t where p: "encode_utf16 d = [l, t]"
              using encode_utf16_pair [of d thesis] d(1) by (auto simp: is_code_point_def)
            then have "is_lead (ucast u2)" using us cps paired_inverse(1) [of d l t] False d(1) by simp
            then show ?thesis by (auto simp: is_lead_def is_trail_def)
          qed
        qed (use us in simp)
        then show ?thesis unfolding e us using units_to_cps_lead(2) [of ?u u2 us] c lead IH us by simp
      qed
    qed
  qed
qed simp

subsection \<open>The bytes of an encoded code point\<close>

lemma encode_utf8_bytes:
  assumes "is_code_point c"
  shows "unat c < 0x80 \<Longrightarrow> map unat (encode_utf8 c) = [unat c]"
    "0x80 \<le> unat c \<Longrightarrow> unat c < 0x800 \<Longrightarrow> map unat (encode_utf8 c) = [192 + unat c div 64, 128 + unat c mod 64]"
    "0x800 \<le> unat c \<Longrightarrow> unat c < 0x10000 \<Longrightarrow>
      map unat (encode_utf8 c) = [224 + unat c div 4096, 128 + unat c div 64 mod 64, 128 + unat c mod 64]"
    "0x10000 \<le> unat c \<Longrightarrow> map unat (encode_utf8 c) =
      [240 + unat c div 262144, 128 + unat c div 4096 mod 64, 128 + unat c div 64 mod 64, 128 + unat c mod 64]"
  using assms by (simp_all add: map_unat_encode_utf8 is_code_point_def utf8_nat_def)

text \<open>One lead byte, whose value tells the length, and continuation bytes.\<close>

definition is_cont :: "u8 \<Rightarrow> bool" where "is_cont b \<longleftrightarrow> 128 \<le> unat b \<and> unat b < 192"

inductive shape :: "u32 \<Rightarrow> u8 list \<Rightarrow> bool" where
  shape1: "unat x < 128 \<Longrightarrow> unat c = unat x \<Longrightarrow> shape c [x]"
| shape2: "192 \<le> unat x \<Longrightarrow> unat x < 224 \<Longrightarrow> is_cont y \<Longrightarrow> \<not> is_lead c \<Longrightarrow> \<not> is_trail c \<Longrightarrow> shape c [x, y]"
| shape3: "224 \<le> unat x \<Longrightarrow> unat x < 240 \<Longrightarrow> is_cont y \<Longrightarrow> is_cont z \<Longrightarrow>
    (is_lead c \<longleftrightarrow> x = 0xED \<and> 0xA0 \<le> y \<and> y \<le> 0xAF) \<Longrightarrow>
    (is_trail c \<longleftrightarrow> x = 0xED \<and> 0xB0 \<le> y) \<Longrightarrow>
    (x = 0xED \<and> 0xA0 \<le> y \<Longrightarrow> decode_surrogate y z = ucast c \<and> ucast (decode_surrogate y z) = c) \<Longrightarrow> shape c [x, y, z]"
| shape4: "240 \<le> unat x \<Longrightarrow> is_cont y \<Longrightarrow> is_cont z \<Longrightarrow> is_cont w \<Longrightarrow> \<not> is_lead c \<Longrightarrow> \<not> is_trail c \<Longrightarrow>
    shape c [x, y, z, w]"

lemma unat_decode_surrogate:
  assumes "unat y mod 64 \<ge> 32"
  shows "unat (decode_surrogate y z) = 0xD000 + (unat y mod 64) * 64 + unat z mod 64"
proof -
  define b where "b = unat y mod 64 - 32"
  define w where "w = (of_nat b :: u16)"
  have b: "unat y mod 64 = 32 + b" "b < 32" using assms mod_less_divisor [of 64 "unat y"] unfolding b_def by linarith+
  have w: "unat w = b" using b(2) by (simp add: w_def unat_of_nat_small)
  let ?z = "ucast z AND 0x3F :: u16"
  have z: "unat ?z = unat z mod 64" by (simp add: unat_and_masks)
  have "unat (32 OR w) = 32 + b" using unat_or_tag [of w 5 32] w b(2) by simp
  then have "ucast y AND 0x3F = 32 OR w" using b(1) by (simp add: unat_eq_iff unat_and_masks)
  then have "decode_surrogate y z = (0xD800 OR push_bit 6 32) OR (push_bit 6 w OR ?z)"
    by (simp only: decode_surrogate_def push_bit_or or.assoc)
  then have d: "decode_surrogate y z = 0xD800 OR (push_bit 6 w OR ?z)" by simp
  have "unat (push_bit 6 w) = b * 64" using w b(2) by (subst unat_push_bit) simp_all
  then have "unat (push_bit 6 w OR ?z) = b * 64 + unat z mod 64"
    using unat_or_tag [of ?z 6 "push_bit 6 w"] z by (simp del: push_bit_numeral)
  moreover have "b * 64 + unat z mod 64 < 2048" using b(2) mod_less_divisor [of 64 "unat z"] by linarith
  ultimately show ?thesis unfolding d using unat_or_tag [of "push_bit 6 w OR ?z" 11 "0xD800"] b(1) by simp
qed

lemma surrogate_digits:
  fixes q r t :: nat
  assumes "r < 64" "t < 64"
  shows "0xD800 \<le> q * 4096 + (r * 64 + t) \<and> q * 4096 + (r * 64 + t) < 0xDC00 \<longleftrightarrow> q = 13 \<and> 32 \<le> r \<and> r < 48"
    "0xDC00 \<le> q * 4096 + (r * 64 + t) \<and> q * 4096 + (r * 64 + t) < 0xE000 \<longleftrightarrow> q = 13 \<and> 48 \<le> r"
proof -
  consider "q \<le> 12" | "q = 13" | "14 \<le> q" by linarith
  then show "0xD800 \<le> q * 4096 + (r * 64 + t) \<and> q * 4096 + (r * 64 + t) < 0xDC00 \<longleftrightarrow> q = 13 \<and> 32 \<le> r \<and> r < 48"
    "0xDC00 \<le> q * 4096 + (r * 64 + t) \<and> q * 4096 + (r * 64 + t) < 0xE000 \<longleftrightarrow> q = 13 \<and> 48 \<le> r"
    using assms by (cases; linarith)+
qed

lemma encode_utf8_shape:
  assumes "is_code_point c"
  shows "shape c (encode_utf8 c)"
proof -
  let ?n = "unat c"
  note enc = encode_utf8_bytes [OF assms]
  consider "?n < 0x80" | "0x80 \<le> ?n" "?n < 0x800" | "0x800 \<le> ?n" "?n < 0x10000" | "0x10000 \<le> ?n" by linarith
  then show ?thesis
  proof cases
    case 1
    with enc(1) obtain x where "encode_utf8 c = [x]" "unat x = ?n" by auto
    with 1 show ?thesis by (metis shape1)
  next
    case 2
    with enc(2) obtain x y where e: "encode_utf8 c = [x, y]" "unat x = 192 + ?n div 64" "unat y = 128 + ?n mod 64" by auto
    moreover have "?n div 64 < 32" using 2 by simp
    ultimately show ?thesis using 2 by (auto intro!: shape2 simp: is_cont_def is_lead_def is_trail_def)
  next
    case 3
    with enc(3) obtain x y z where e: "encode_utf8 c = [x, y, z]" "unat x = 224 + ?n div 4096"
      "unat y = 128 + ?n div 64 mod 64" "unat z = 128 + ?n mod 64" by auto
    have d: "?n div 4096 < 16" using 3 by simp
    have split: "?n = ?n div 4096 * 4096 + (?n div 64 mod 64 * 64 + ?n mod 64)"
      unfolding mod_digits(1) by simp
    have m: "?n div 64 mod 64 < 64" "?n mod 64 < 64" by simp_all
    have lead: "is_lead c \<longleftrightarrow> ?n div 4096 = 13 \<and> 32 \<le> ?n div 64 mod 64 \<and> ?n div 64 mod 64 < 48"
      unfolding is_lead_def using surrogate_digits(1) [OF m, of "?n div 4096"] unfolding split [symmetric] .
    have trail: "is_trail c \<longleftrightarrow> ?n div 4096 = 13 \<and> 48 \<le> ?n div 64 mod 64"
      unfolding is_trail_def using surrogate_digits(2) [OF m, of "?n div 4096"] unfolding split [symmetric] .
    have x: "x = 0xED \<longleftrightarrow> ?n div 4096 = 13" using e(2) by (auto simp: unat_eq_iff)
    have dec: "decode_surrogate y z = ucast c" "ucast (decode_surrogate y z) = c"
      if "x = 0xED" "0xA0 \<le> y"
    proof -
      have "32 \<le> ?n div 64 mod 64" using that e(3) by (simp add: word_le_nat_alt)
      then have "unat (decode_surrogate y z) = 0xD000 + ?n div 64 mod 64 * 64 + ?n mod 64"
        using unat_decode_surrogate [of y z] by (simp add: e mod_tags)
      then have "unat (decode_surrogate y z) = ?n" using split x that(1) by simp
      then show "decode_surrogate y z = ucast c" "ucast (decode_surrogate y z) = c"
        using 3 by (simp_all add: unat_eq_iff unat_ucast_small)
    qed
    show ?thesis unfolding e(1)
      by (rule shape3) (use d m dec in \<open>auto simp: e is_cont_def lead trail x word_le_nat_alt\<close>)
  next
    case 4
    with enc(4) obtain x y z w where e: "encode_utf8 c = [x, y, z, w]" "unat x = 240 + ?n div 262144"
      "unat y = 128 + ?n div 4096 mod 64" "unat z = 128 + ?n div 64 mod 64" "unat w = 128 + ?n mod 64" by auto
    then show ?thesis using 4 by (auto intro!: shape4 simp: is_cont_def is_lead_def is_trail_def)
  qed
qed

subsection \<open>Finding surrogates\<close>

definition is_surrogate :: "u32 \<Rightarrow> bool" where "is_surrogate c \<longleftrightarrow> is_lead c \<or> is_trail c"

lemma next_surrogate_step:
  assumes "is_code_point c"
  shows "next_surrogate_loop (encode_utf8 c @ rest) pos =
    (if is_surrogate c then Some (pos, ucast c) else next_surrogate_loop rest (pos + length (encode_utf8 c)))"
  using encode_utf8_shape [OF assms]
proof cases
  case (shape1 x)
  then have "\<not> is_surrogate c" by (simp add: is_surrogate_def is_lead_def is_trail_def)
  then show ?thesis using shape1 by (simp add: word_less_nat_alt)
next
  case (shape3 x y z)
  have e: "encode_utf8 c @ rest = x # y # z # rest" "length (encode_utf8 c) = 3" using shape3(1) by simp_all
  have x: "\<not> x < 0x80" "\<not> x < 0xE0" "x < 0xF0" using shape3(2,3) by (simp_all add: word_less_nat_alt)
  show ?thesis
  proof (cases "x = 0xED \<and> 0xA0 \<le> y")
    case True
    then have "is_surrogate c" using shape3(6,7) by (auto simp: is_surrogate_def word_le_nat_alt)
    then show ?thesis using True x shape3(8) unfolding e by simp
  next
    case False
    then have "\<not> is_surrogate c" using shape3(6,7) by (auto simp: is_surrogate_def word_le_nat_alt)
    then show ?thesis using False x unfolding e by auto
  qed
next
  case (shape2 x y)
  have x: "\<not> x < 0x80" "x < 0xE0" using shape2(2,3) by (simp_all add: word_less_nat_alt)
  have e: "encode_utf8 c @ rest = x # y # rest" "length (encode_utf8 c) = 2" using shape2(1) by simp_all
  show ?thesis unfolding e using x shape2 by (simp add: is_surrogate_def)
next
  case (shape4 x y z w)
  have x: "\<not> x < 0x80" "\<not> x < 0xE0" "\<not> x < 0xF0" "x \<noteq> 0xED" using shape4(2) by (auto simp: word_less_nat_alt)
  have e: "encode_utf8 c @ rest = x # y # z # w # rest" "length (encode_utf8 c) = 4" using shape4(1) by simp_all
  show ?thesis unfolding e using x shape4(6,7) by (simp add: is_surrogate_def)
qed

lemma next_surrogate_loop_encode:
  "list_all is_code_point cps \<Longrightarrow> next_surrogate_loop (wtf8_encode cps) pos =
     (case dropWhile (\<lambda>c. \<not> is_surrogate c) cps of [] \<Rightarrow> None
      | c # _ \<Rightarrow> Some (pos + length (wtf8_encode (takeWhile (\<lambda>c. \<not> is_surrogate c) cps)), ucast c))"
proof (induction cps arbitrary: pos)
  case (Cons c cps)
  then show ?case
    by (cases "is_surrogate c"; cases "dropWhile (\<lambda>c. \<not> is_surrogate c) cps")
      (simp_all add: next_surrogate_step del: dropWhile_eq_Nil_conv)
qed simp

subsection \<open>Surrogates at the ends\<close>

lemma initial_trail_encode:
  assumes "list_all is_code_point cps"
  shows "initial_trail_surrogate (wtf8_encode cps) =
    (case cps of [] \<Rightarrow> None | c # _ \<Rightarrow> if is_trail c then Some (ucast c) else None)"
proof (cases cps)
  case (Cons c ds)
  have other: "initial_trail_surrogate (x # bs) = None" if "x \<noteq> 0xED" for x bs
    using that by (auto simp: initial_trail_surrogate_def Let_def split: list.split)
  have "is_code_point c" using assms Cons by simp
  from encode_utf8_shape [OF this] show ?thesis
  proof cases
    case (shape1 x)
    then have "x \<noteq> 0xED" "\<not> is_trail c" by (auto simp: is_trail_def)
    then show ?thesis using Cons shape1(1) other by simp
  next
    case (shape2 x y)
    then have "x \<noteq> 0xED" by auto
    then show ?thesis using Cons shape2 other by simp
  next
    case (shape3 x y z)
    have "y \<le> 0xBF" using shape3(4) by (simp add: is_cont_def word_le_nat_alt)
    moreover have "0xA0 \<le> y" if "0xB0 \<le> y" using that by (simp add: word_le_nat_alt)
    ultimately show ?thesis using Cons shape3(1,7,8)
      by (auto simp: initial_trail_surrogate_def Let_def numeral_3_eq_3)
  next
    case (shape4 x y z w)
    then have "x \<noteq> 0xED" by auto
    then show ?thesis using Cons shape4 other by simp
  qed
qed (simp add: initial_trail_surrogate_def)

lemma last_byte:
  "list_all is_code_point cps \<Longrightarrow> wtf8_encode cps = pre @ [p] \<Longrightarrow> unat p < 192"
proof (induction cps rule: rev_induct)
  case (snoc c cps)
  then have "is_code_point c" by simp
  from encode_utf8_shape [OF this] show ?case
    using snoc.prems(2) by cases (auto simp: is_cont_def)
qed simp

lemma second_last_byte:
  assumes "list_all is_code_point cps" "wtf8_encode cps = pre @ [p, q]"
  shows "unat p < 224"
proof (cases cps rule: rev_cases)
  case (snoc ds d)
  then have d: "is_code_point d" "list_all is_code_point ds" "wtf8_encode ds @ encode_utf8 d = pre @ [p, q]"
    using assms by simp_all
  from encode_utf8_shape [OF d(1)] show ?thesis
  proof cases
    case (shape1 x)
    then have "wtf8_encode ds = pre @ [p]" using d(3) by simp
    then show ?thesis using last_byte [OF d(2)] by fastforce
  qed (use d(3) in \<open>auto simp: is_cont_def\<close>)
qed (use assms in simp)

lemma final_lead_3:
  "final_lead_surrogate (pre @ [a, b2, b3]) =
     (if a = 0xED \<and> 0xA0 \<le> b2 \<and> b2 \<le> 0xAF then Some (decode_surrogate b2 b3) else None)"
  by (simp add: final_lead_surrogate_def Let_def)

lemma final_lead_encode:
  assumes "list_all is_code_point (ds @ [c])"
  shows "final_lead_surrogate (wtf8_encode (ds @ [c])) = (if is_lead c then Some (ucast c) else None)"
proof -
  let ?pre = "wtf8_encode ds"
  have c: "is_code_point c" "list_all is_code_point ds" using assms by simp_all
  have short: "final_lead_surrogate bs = None" if "length bs < 3" for bs
    using that by (simp add: final_lead_surrogate_def)
  from encode_utf8_shape [OF c(1)] show ?thesis
  proof cases
    case (shape1 x)
    then have nl: "\<not> is_lead c" by (simp add: is_lead_def)
    show ?thesis
    proof (cases "length ?pre < 2")
      case False
      then obtain pre p q where pq: "?pre = pre @ [p, q]"
        by (cases ?pre rule: rev_cases; cases "butlast ?pre" rule: rev_cases) auto
      then have "p \<noteq> 0xED" using second_last_byte [OF c(2) pq] by auto
      then show ?thesis using final_lead_3 [of pre p q x] nl shape1(1) pq by simp
    qed (use nl shape1(1) short in simp)
  next
    case (shape2 x y)
    show ?thesis
    proof (cases ?pre rule: rev_cases)
      case (snoc pre p)
      then have "p \<noteq> 0xED" using last_byte [OF c(2) snoc] by auto
      then show ?thesis using final_lead_3 [of pre p x y] snoc shape2 by simp
    qed (use shape2 short in simp)
  next
    case (shape3 x y z)
    have "0xA0 \<le> y \<Longrightarrow> x = 0xED \<Longrightarrow> decode_surrogate y z = ucast c" using shape3(8) by simp
    then show ?thesis using final_lead_3 [of ?pre x y z] shape3(1,6) by auto
  next
    case (shape4 x y z w)
    have "y \<noteq> 0xED" using shape4(3) by (auto simp: is_cont_def)
    then show ?thesis using final_lead_3 [of "?pre @ [x]" y z w] shape4 by simp
  qed
qed

subsection \<open>Concatenation\<close>

definition wtf8_wf :: "Wtf8 \<Rightarrow> bool" where
  "wtf8_wf bs \<longleftrightarrow> well_formed (code_points bs) \<and> wtf8_encode (code_points bs) = bs"

abbreviation wide :: "Wtf8 \<Rightarrow> u16 list" where "wide bs \<equiv> EncodeWide_collect (encode_wide bs)"

lemma well_formed_code_points: "well_formed cps \<Longrightarrow> list_all is_code_point cps"
  by (simp add: well_formed_def)

lemma wtf8_wf_encode: "well_formed cps \<Longrightarrow> wtf8_wf (wtf8_encode cps)"
  by (simp add: wtf8_wf_def code_points_encode well_formed_code_points)

lemma wtf8_wfE:
  assumes "wtf8_wf bs"
  obtains cps where "well_formed cps" "bs = wtf8_encode cps"
  using assms by (metis wtf8_wf_def)

lemma wide_encode: "well_formed cps \<Longrightarrow> wide (wtf8_encode cps) = utf16_encode cps"
  by (simp add: EncodeWide_collect_encode well_formed_code_points)

lemma no_pair_append:
  "no_pair (xs @ ys) \<longleftrightarrow> no_pair xs \<and> no_pair ys \<and>
     (xs = [] \<or> ys = [] \<or> \<not> (is_lead (last xs) \<and> is_trail (List.hd ys)))"
  by (induction xs rule: no_pair.induct) (auto simp: no_pair_Cons)

definition append_cps :: "u32 list \<Rightarrow> u32 list \<Rightarrow> u32 list" where
  "append_cps a b =
     (if a \<noteq> [] \<and> b \<noteq> [] \<and> is_lead (last a) \<and> is_trail (List.hd b)
      then butlast a @ [paired (ucast (last a)) (ucast (List.hd b))] @ List.tl b else a @ b)"

lemma surrogate_unit:
  "is_lead c \<or> is_trail c \<Longrightarrow> ucast (ucast c :: u16) = c"
  "is_lead c \<or> is_trail c \<Longrightarrow> encode_utf16 c = [ucast c]"
  by (auto simp: is_lead_def is_trail_def unat_eq_iff unat_ucast_small encode_utf16_small)

lemma append_cps_ok:
  assumes "well_formed a" "well_formed b"
  shows "well_formed (append_cps a b)" "utf16_encode (append_cps a b) = utf16_encode a @ utf16_encode b"
proof -
  have "well_formed (append_cps a b) \<and> utf16_encode (append_cps a b) = utf16_encode a @ utf16_encode b"
  proof (cases "a \<noteq> [] \<and> b \<noteq> [] \<and> is_lead (last a) \<and> is_trail (List.hd b)")
    case True
    then obtain a' l t b' where ab: "a = a' @ [l]" "b = t # b'" and lt: "is_lead l" "is_trail t"
      by (metis append_butlast_last_id list.exhaust_sel)
    let ?l = "ucast l :: u16" and ?t = "ucast t :: u16"
    have p: "is_lead (ucast ?l)" "is_trail (ucast ?t)" using lt surrogate_unit(1) by simp_all
    show ?thesis using assms lt surrogate_unit(2) paired_ok [OF p]
      by (simp add: ab append_cps_def well_formed_def no_pair_append no_pair_Cons)
  next
    case False
    then show ?thesis using assms by (auto simp: append_cps_def well_formed_def no_pair_append)
  qed
  then show "well_formed (append_cps a b)" "utf16_encode (append_cps a b) = utf16_encode a @ utf16_encode b" by simp_all
qed

lemma decode_pair_ok:
  assumes "is_lead (ucast l)" "is_trail (ucast t)"
  shows "decode_surrogate_pair l t = Inr (paired l t)"
proof -
  have r: "0xD800 \<le> unat l" "0xDC00 \<le> unat t" using assms by (simp_all add: is_lead_def is_trail_def)
  let ?x = "push_bit 10 (ucast (l - 0xD800)) OR ucast (t - 0xDC00) :: u32"
  have "addP 0x10000 ?x = Inr (paired l t)"
    unfolding addP_Inr using pair_bits [OF assms] paired_ok(1) [OF assms] by simp
  then show ?thesis using r by (simp add: decode_surrogate_pair_def subP_ok)
qed

lemma lead_bytes: "is_lead c \<Longrightarrow> is_code_point c \<and> length (encode_utf8 c) = 3"
  by (simp add: is_lead_def is_code_point_def encode_utf8_def word_less_nat_alt)

lemma trail_bytes: "is_trail c \<Longrightarrow> is_code_point c \<and> length (encode_utf8 c) = 3"
  by (simp add: is_trail_def is_code_point_def encode_utf8_def word_less_nat_alt)

lemma push_wtf8_encode:
  assumes "list_all is_code_point a" "list_all is_code_point b"
  shows "push_wtf8 (wtf8_encode a) (wtf8_encode b) = Inr (wtf8_encode (append_cps a b))"
proof (cases "a \<noteq> [] \<and> b \<noteq> [] \<and> is_lead (last a) \<and> is_trail (List.hd b)")
  case True
  then obtain a' l t b' where ab: "a = a' @ [l]" "b = t # b'" and lt: "is_lead l" "is_trail t"
    by (metis append_butlast_last_id list.exhaust_sel)
  have p: "decode_surrogate_pair (ucast l) (ucast t) = Inr (paired (ucast l) (ucast t))"
    using lt surrogate_unit(1) by (intro decode_pair_ok) simp_all
  have f: "final_lead_surrogate (wtf8_encode a) = Some (ucast l)"
    using final_lead_encode [of a' l] assms(1) lt by (simp add: ab)
  have i: "initial_trail_surrogate (wtf8_encode b) = Some (ucast t)"
    using initial_trail_encode [OF assms(2)] lt by (simp add: ab)
  have "take (length (wtf8_encode a) - 3) (wtf8_encode a) = wtf8_encode a'"
    using lead_bytes [OF lt(1)] by (simp add: ab)
  moreover have "slice_from (wtf8_encode b) 3 = Inr (wtf8_encode b')"
    using trail_bytes [OF lt(2)] by (simp add: ab slice_from_def)
  ultimately show ?thesis unfolding push_wtf8_def f i
    using p lt by (simp add: push_char_def push_code_point_unchecked_def append_cps_def ab)
next
  case False
  have "final_lead_surrogate (wtf8_encode a) = None \<or> initial_trail_surrogate (wtf8_encode b) = None"
  proof (cases a rule: rev_cases)
    case Nil
    then show ?thesis by (simp add: final_lead_surrogate_def)
  next
    case (snoc a' l)
    then show ?thesis
      using False assms final_lead_encode [of a' l] initial_trail_encode [OF assms(2)]
      by (cases b) (simp_all split: if_splits)
  qed
  then show ?thesis using False by (auto simp: push_wtf8_def append_cps_def split: option.split)
qed

lemma push_encode:
  assumes "list_all is_code_point a" "is_code_point c"
  shows "Wtf8Buf_push (wtf8_encode a) c = Inr (wtf8_encode (append_cps a [c]))"
proof -
  have t: "0xDC00 \<le> c \<and> c \<le> 0xDFFF \<longleftrightarrow> is_trail c" by (auto simp: is_trail_def word_le_nat_alt)
  show ?thesis
  proof (cases "a \<noteq> [] \<and> is_lead (last a) \<and> is_trail c")
    case True
    then obtain a' l where a: "a = a' @ [l]" and l: "is_lead l" by (metis append_butlast_last_id)
    have p: "decode_surrogate_pair (ucast l) (ucast c) = Inr (paired (ucast l) (ucast c))"
      using l True surrogate_unit(1) by (intro decode_pair_ok) simp_all
    have f: "final_lead_surrogate (wtf8_encode a) = Some (ucast l)"
      using final_lead_encode [of a' l] assms(1) l by (simp add: a)
    have "take (length (wtf8_encode a) - 3) (wtf8_encode a) = wtf8_encode a'"
      using lead_bytes [OF l] by (simp add: a)
    then show ?thesis unfolding Wtf8Buf_push_def t f
      using p l True by (simp add: push_char_def push_code_point_unchecked_def append_cps_def a)
  next
    case False
    have "is_trail c \<Longrightarrow> final_lead_surrogate (wtf8_encode a) = None"
      using False assms(1) final_lead_encode [of "butlast a" "last a"]
      by (cases "a = []") (simp_all add: final_lead_surrogate_def [of "[]"] flip: map_append concat_append)
    then show ?thesis using False by (auto simp: Wtf8Buf_push_def t push_code_point_unchecked_def append_cps_def)
  qed
qed

lemma extend_encode:
  "well_formed a \<Longrightarrow> list_all is_code_point cps \<Longrightarrow>
   \<exists>b. Wtf8Buf_extend (wtf8_encode a) cps = Inr (wtf8_encode b) \<and> well_formed b \<and>
     utf16_encode b = utf16_encode a @ utf16_encode cps"
proof (induction cps arbitrary: a)
  case (Cons c cps)
  have one: "well_formed [c]" using Cons.prems by (simp add: well_formed_def)
  note ok = append_cps_ok [OF Cons.prems(1) one]
  have "Wtf8Buf_push (wtf8_encode a) c = Inr (wtf8_encode (append_cps a [c]))"
    using Cons.prems by (intro push_encode) (simp_all add: well_formed_code_points)
  then show ?case using Cons.IH [OF ok(1)] Cons.prems(2) ok(2) by simp
qed auto

subsection \<open>Lossy conversion\<close>

lemma lossy_simps:
  "is_surrogate c \<Longrightarrow> CodePoint_to_char_lossy c = 0xFFFD"
  "\<not> is_surrogate c \<Longrightarrow> CodePoint_to_char_lossy c = c"
  by (auto simp: CodePoint_to_char_lossy_def CodePoint_to_char_def is_surrogate_def is_lead_def is_trail_def
      word_le_nat_alt split: if_splits)

lemma replacement_bytes: "encode_utf8 0xFFFD = UTF8_REPLACEMENT_CHARACTER"
  by code_simp

lemma surrogate_bytes: "is_surrogate c \<Longrightarrow> length (encode_utf8 c) = 3"
  using lead_bytes trail_bytes by (auto simp: is_surrogate_def)

text \<open>Where the search from a position in the middle of a string ends.\<close>

lemma next_surrogate_middle:
  assumes "list_all is_code_point cps" "self = front @ wtf8_encode cps"
  shows "next_surrogate self (length front) = Inr
    (case dropWhile (\<lambda>c. \<not> is_surrogate c) cps of [] \<Rightarrow> None
     | c # _ \<Rightarrow> Some (length front + length (wtf8_encode (takeWhile (\<lambda>c. \<not> is_surrogate c) cps)), ucast c))"
  using next_surrogate_loop_encode [OF assms(1)] assms(2) by (simp add: next_surrogate_def slice_from_def)

lemma split_at_surrogate:
  assumes "list_all is_code_point cps"
  obtains (none) "dropWhile (\<lambda>c. \<not> is_surrogate c) cps = []" "map CodePoint_to_char_lossy cps = cps"
  | (found) pre c post where "dropWhile (\<lambda>c. \<not> is_surrogate c) cps = c # post"
      "takeWhile (\<lambda>c. \<not> is_surrogate c) cps = pre" "cps = pre @ c # post" "is_surrogate c"
      "map CodePoint_to_char_lossy cps = pre @ 0xFFFD # map CodePoint_to_char_lossy post"
      "list_all is_code_point post" "length post < length cps"
proof (cases "dropWhile (\<lambda>c. \<not> is_surrogate c) cps")
  case Nil
  then have "map CodePoint_to_char_lossy cps = cps" by (intro map_idI) (simp add: lossy_simps)
  then show ?thesis using none Nil by blast
next
  case (Cons c post)
  let ?pre = "takeWhile (\<lambda>c. \<not> is_surrogate c) cps"
  have e: "cps = ?pre @ c # post" using takeWhile_dropWhile_id [of "\<lambda>c. \<not> is_surrogate c" cps] Cons by simp
  have s: "is_surrogate c" using hd_dropWhile [of "\<lambda>c. \<not> is_surrogate c" cps] Cons by simp
  have "map CodePoint_to_char_lossy ?pre = ?pre"
    by (intro map_idI) (auto simp: lossy_simps dest: set_takeWhileD)
  then have m: "map CodePoint_to_char_lossy cps = ?pre @ 0xFFFD # map CodePoint_to_char_lossy post"
    using s by (subst e) (simp add: lossy_simps)
  have "list_all is_code_point (?pre @ c # post)" using assms e by simp
  then have a: "list_all is_code_point post" by simp
  have "length cps = length ?pre + Suc (length post)" using arg_cong [OF e, of length] by simp
  then have "length post < length cps" by simp
  then show ?thesis using found [OF Cons refl e s m a] by blast
qed

lemma into_string_lossy_loop_ok:
  "list_all is_code_point cps \<Longrightarrow> into_string_lossy_loop (front @ wtf8_encode cps) (length front) =
     Inr (front @ wtf8_encode (map CodePoint_to_char_lossy cps))"
proof (induction cps arbitrary: front rule: length_induct)
  case (1 cps)
  note n = next_surrogate_middle [OF "1.prems" refl, of front]
  from "1.prems" show ?case
  proof (cases rule: split_at_surrogate)
    case none
    then show ?thesis using n by (subst into_string_lossy_loop.simps) (simp del: dropWhile_eq_Nil_conv)
  next
    case (found pre c post)
    let ?front = "front @ wtf8_encode pre @ UTF8_REPLACEMENT_CHARACTER"
    have r: "length UTF8_REPLACEMENT_CHARACTER = 3" by (simp add: UTF8_REPLACEMENT_CHARACTER_def)
    have self: "front @ wtf8_encode cps = (front @ wtf8_encode pre) @ encode_utf8 c @ wtf8_encode post"
      using found(3) by simp
    have "copy_at (front @ wtf8_encode cps) (length front + length (wtf8_encode pre)) UTF8_REPLACEMENT_CHARACTER =
        Inr (?front @ wtf8_encode post)"
      unfolding self using surrogate_bytes [OF found(4)] r by (simp add: copy_at_def)
    then have "into_string_lossy_loop (front @ wtf8_encode cps) (length front) =
        into_string_lossy_loop (?front @ wtf8_encode post) (length ?front)"
      using n found(1,2) r by (subst into_string_lossy_loop.simps) (simp add: add.assoc)
    also have "\<dots> = Inr (?front @ wtf8_encode (map CodePoint_to_char_lossy post))"
      using "1.IH" found(6,7) by blast
    finally show ?thesis by (simp only: found(5) map_append concat_append list.map concat.simps replacement_bytes append_assoc)
  qed
qed

lemma to_string_lossy_loop_ok:
  "list_all is_code_point cps \<Longrightarrow> to_string_lossy_loop (front @ wtf8_encode cps) acc (length front) =
     Inr (acc @ wtf8_encode (map CodePoint_to_char_lossy cps))"
proof (induction cps arbitrary: front acc rule: length_induct)
  case (1 cps)
  note n = next_surrogate_middle [OF "1.prems" refl, of front]
  from "1.prems" show ?case
  proof (cases rule: split_at_surrogate)
    case none
    then show ?thesis using n by (subst to_string_lossy_loop.simps) (simp add: slice_from_def del: dropWhile_eq_Nil_conv)
  next
    case (found pre c post)
    let ?front = "front @ wtf8_encode pre @ encode_utf8 c"
    have self: "front @ wtf8_encode cps = ?front @ wtf8_encode post" using found(3) by simp
    have len: "length front + length (wtf8_encode pre) + 3 = length ?front" using surrogate_bytes [OF found(4)] by simp
    have "slice_range (front @ wtf8_encode cps) (length front) (length front + length (wtf8_encode pre)) = Inr (wtf8_encode pre)"
      unfolding self by (simp add: slice_range_def)
    then have "to_string_lossy_loop (front @ wtf8_encode cps) acc (length front) =
        to_string_lossy_loop (?front @ wtf8_encode post) (acc @ wtf8_encode pre @ UTF8_REPLACEMENT_CHARACTER) (length ?front)"
      using n found(1,2) unfolding self len [symmetric] by (subst to_string_lossy_loop.simps) simp
    also have "\<dots> = Inr ((acc @ wtf8_encode pre @ UTF8_REPLACEMENT_CHARACTER) @ wtf8_encode (map CodePoint_to_char_lossy post))"
      using "1.IH" found(6,7) by blast
    finally show ?thesis by (simp only: found(5) map_append concat_append list.map concat.simps replacement_bytes append_assoc)
  qed
qed

lemma dropWhile_surrogate_Nil:
  "dropWhile (\<lambda>c. \<not> is_surrogate c) cps = [] \<longleftrightarrow> list_all (\<lambda>c. \<not> is_surrogate c) cps"
  by (simp add: list_all_iff)

lemma next_surrogate_start:
  assumes "list_all is_code_point cps"
  shows "\<exists>r. next_surrogate (wtf8_encode cps) 0 = Inr r \<and> (r = None \<longleftrightarrow> list_all (\<lambda>c. \<not> is_surrogate c) cps)"
  using next_surrogate_middle [OF assms, of "wtf8_encode cps" "[]"]
  unfolding dropWhile_surrogate_Nil [symmetric]
  by (cases "dropWhile (\<lambda>c. \<not> is_surrogate c) cps") (simp_all del: dropWhile_eq_Nil_conv)

lemma into_string_lossy_ok:
  "list_all is_code_point cps \<Longrightarrow>
   into_string_lossy (wtf8_encode cps) = Inr (wtf8_encode (map CodePoint_to_char_lossy cps))"
  using into_string_lossy_loop_ok [of cps "[]"] by (simp add: into_string_lossy_def)

lemma to_string_lossy_ok:
  assumes "list_all is_code_point cps"
  shows "to_string_lossy (wtf8_encode cps) =
    Inr ((if list_all (\<lambda>c. \<not> is_surrogate c) cps then Borrowed else Owned)
      (wtf8_encode (map CodePoint_to_char_lossy cps)))"
proof -
  note n = next_surrogate_middle [OF assms, of "wtf8_encode cps" "[]"]
  show ?thesis using assms
  proof (cases rule: split_at_surrogate)
    case none
    then show ?thesis using n dropWhile_surrogate_Nil [of cps]
      by (simp add: to_string_lossy_def del: dropWhile_eq_Nil_conv)
  next
    case (found pre c post)
    let ?front = "wtf8_encode pre @ encode_utf8 c"
    have self: "wtf8_encode cps = ?front @ wtf8_encode post" using found(3) by simp
    have len: "length (wtf8_encode pre) + 3 = length ?front" using surrogate_bytes [OF found(4)] by simp
    have "slice_to (wtf8_encode cps) (length (wtf8_encode pre)) = Inr (wtf8_encode pre)"
      unfolding self by (simp add: slice_to_def)
    moreover have "\<not> list_all (\<lambda>c. \<not> is_surrogate c) cps" using found(3,4) by simp
    moreover have "to_string_lossy_loop (wtf8_encode cps) (wtf8_encode pre @ UTF8_REPLACEMENT_CHARACTER) (length (wtf8_encode pre) + 3) =
        Inr ((wtf8_encode pre @ UTF8_REPLACEMENT_CHARACTER) @ wtf8_encode (map CodePoint_to_char_lossy post))"
      unfolding self len by (rule to_string_lossy_loop_ok [OF found(6)])
    ultimately show ?thesis using n found(1,2,5)
      by (simp add: to_string_lossy_def replacement_bytes)
  qed
qed

subsection \<open>Slices\<close>

lemma encode_utf8_lead_byte:
  assumes "is_code_point c"
  shows "\<exists>x rest. encode_utf8 c = x # rest \<and> \<not> is_cont x \<and> list_all is_cont rest"
  using encode_utf8_shape [OF assms] by cases (auto simp: is_cont_def)

lemma boundary_byte: "(b < 128 \<or> b \<ge> 192) \<longleftrightarrow> \<not> is_cont b"
  by (auto simp: is_cont_def word_less_nat_alt word_le_nat_alt)

text \<open>A byte position is a boundary exactly when it lies between two code points.\<close>

lemma boundary_encode:
  "list_all is_code_point cps \<Longrightarrow> is_code_point_boundary (wtf8_encode cps) i \<longleftrightarrow>
     (\<exists>k \<le> length cps. i = length (wtf8_encode (take k cps)))"
proof (induction cps arbitrary: i)
  case (Cons c cps)
  obtain x rest where e: "encode_utf8 c = x # rest" "\<not> is_cont x" "list_all is_cont rest"
    using encode_utf8_lead_byte Cons.prems by fastforce
  let ?n = "length (encode_utf8 c)"
  have ex: "(\<exists>k \<le> length (c # cps). i = length (wtf8_encode (take k (c # cps)))) \<longleftrightarrow>
      i = 0 \<or> (\<exists>k \<le> length cps. i = ?n + length (wtf8_encode (take k cps)))"
    (is "?lhs \<longleftrightarrow> ?rhs")
  proof
    assume ?lhs
    then obtain k where "k \<le> length (c # cps)" "i = length (wtf8_encode (take k (c # cps)))" by blast
    then show ?rhs by (cases k) auto
  next
    assume ?rhs
    then show ?lhs
    proof
      assume "\<exists>k \<le> length cps. i = ?n + length (wtf8_encode (take k cps))"
      then obtain k where "k \<le> length cps" "i = ?n + length (wtf8_encode (take k cps))" by blast
      then show ?lhs by (intro exI [of _ "Suc k"]) simp
    qed (intro exI [of _ 0], simp)
  qed
  consider "i = 0" | "0 < i" "i < ?n" | j where "i = ?n + j" by (metis le_iff_add not_gr_zero not_less)
  then show ?case
  proof cases
    case 1
    then show ?thesis using e ex by (simp add: is_code_point_boundary_def boundary_byte)
  next
    case 2
    then have "(encode_utf8 c @ wtf8_encode cps) ! i = rest ! (i - 1)" "i - 1 < length rest"
      using e(1) by (cases i; simp add: nth_append)+
    then have "is_cont ((encode_utf8 c @ wtf8_encode cps) ! i)" using e(3) by (simp add: list_all_length)
    then have "\<not> is_code_point_boundary (wtf8_encode (c # cps)) i"
      using 2 by (simp add: is_code_point_boundary_def boundary_byte)
    then show ?thesis unfolding ex using 2 by auto
  next
    case (3 j)
    have "is_code_point_boundary (wtf8_encode (c # cps)) i \<longleftrightarrow> is_code_point_boundary (wtf8_encode cps) j"
      using 3 by (simp add: is_code_point_boundary_def nth_append)
    moreover have "0 < ?n" by simp
    ultimately show ?thesis unfolding ex using Cons 3 by auto
  qed
qed (simp add: is_code_point_boundary_def)

lemma drop_encode: "k \<le> l \<Longrightarrow> drop (length (wtf8_encode (take k cps))) (wtf8_encode (take l cps)) = wtf8_encode (drop k (take l cps))"
proof -
  assume "k \<le> l"
  then have "take l cps = take k cps @ drop k (take l cps)" using append_take_drop_id [of k "take l cps"] by (simp add: min_absorb1)
  then have "wtf8_encode (take l cps) = wtf8_encode (take k cps) @ wtf8_encode (drop k (take l cps))"
    by (metis concat_append map_append)
  then show ?thesis by simp
qed

lemma take_encode: "take (length (wtf8_encode (take l cps))) (wtf8_encode cps) = wtf8_encode (take l cps)"
proof -
  have "wtf8_encode cps = wtf8_encode (take l cps) @ wtf8_encode (drop l cps)"
    by (metis append_take_drop_id concat_append map_append)
  then show ?thesis by simp
qed

lemma well_formed_part: "well_formed cps \<Longrightarrow> well_formed (drop k (take l cps))"
proof -
  assume wf: "well_formed cps"
  have "well_formed (take l cps)"
    using wf append_take_drop_id [of l cps] by (metis list_all_append no_pair_append well_formed_def)
  then show ?thesis
    using append_take_drop_id [of k "take l cps"] by (metis list_all_append no_pair_append well_formed_def)
qed

lemma offset_mono: "k \<le> l \<Longrightarrow> length (wtf8_encode (take k cps)) \<le> length (wtf8_encode (take l cps))"
  using drop_encode [of k l cps] take_encode [of k "take l cps"]
  by (metis (no_types, lifting) length_take min.absorb1 min.cobounded1 take_take)

lemma wide_from_wide: "wide (from_wide v) = v"
  using units_roundtrip [of v] by (simp add: from_wide_encode wide_encode)

lemma wtf8_wf_from_wide: "wtf8_wf (from_wide v)"
  using units_roundtrip [of v] by (simp add: from_wide_encode wtf8_wf_encode)

lemma from_wide_wide:
  assumes "wtf8_wf bs"
  shows "from_wide (wide bs) = bs"
proof -
  obtain cps where c: "well_formed cps" "bs = wtf8_encode cps" using assms by (rule wtf8_wfE)
  show ?thesis unfolding c(2) wide_encode [OF c(1)] from_wide_encode units_to_cps_encode [OF c(1)] ..
qed

text \<open>
  C16: conversion from 16-bit units is lossless in both directions: the units of the string built from any
  sequence of units, paired or not, are that sequence, and a well-formed string is recovered from
  its units. Every string that is built is well formed.
\<close>

theorem Wtf8_wide_roundtrip:
  assumes "wtf8_wf bs"
  shows "wide (from_wide v) = v \<and> wtf8_wf (from_wide v) \<and> from_wide (wide bs) = bs"
  using wide_from_wide wtf8_wf_from_wide from_wide_wide [OF assms] by blast

theorem Wtf8_wide_roundtrip_witness:
  "wide (from_wide [0xD83D, 0xDCA9, 0xD83D]) = [0xD83D, 0xDCA9, 0xD83D] \<and>
   from_wide (wide (wtf8_encode [0x1F4A9, 0xDC00])) = wtf8_encode [0x1F4A9, 0xDC00]"
proof -
  have "well_formed [0x1F4A9, 0xDC00]"
    by (simp add: well_formed_def is_code_point_def is_lead_def is_trail_def)
  then have "wtf8_wf (wtf8_encode [0x1F4A9, 0xDC00])" by (rule wtf8_wf_encode)
  from Wtf8_wide_roundtrip [OF this] show ?thesis by blast
qed

text \<open>
  C17: appending strings or code points keeps the string well formed and appends their 16-bit units:
  a lead surrogate at the end and a trail surrogate that is appended become one supplementary code point.
\<close>

theorem Wtf8_append_units:
  assumes "wtf8_wf a" "wtf8_wf b" "c \<le> 0x10FFFF" "\<forall>d \<in> set cps. d \<le> 0x10FFFF"
  shows "(\<exists>r. push_wtf8 a b = Inr r \<and> wtf8_wf r \<and> wide r = wide a @ wide b) \<and>
    (\<exists>r. Wtf8Buf_push a c = Inr r \<and> wtf8_wf r \<and> wide r = wide a @ encode_utf16 c) \<and>
    (\<exists>r. Wtf8Buf_from_iter cps = Inr r \<and> wtf8_wf r \<and> wide r = utf16_encode cps)"
proof -
  obtain as where a: "well_formed as" "a = wtf8_encode as" using assms(1) by (rule wtf8_wfE)
  obtain bs where b: "well_formed bs" "b = wtf8_encode bs" using assms(2) by (rule wtf8_wfE)
  have cp: "is_code_point d \<longleftrightarrow> d \<le> 0x10FFFF" for d by (auto simp: is_code_point_def word_le_nat_alt)
  have c: "well_formed [c]" using assms(3) by (simp add: well_formed_def cp)
  have "push_wtf8 a b = Inr (wtf8_encode (append_cps as bs))"
    unfolding a b using a b by (intro push_wtf8_encode well_formed_code_points)
  moreover have "Wtf8Buf_push a c = Inr (wtf8_encode (append_cps as [c]))"
    unfolding a using a assms(3) by (intro push_encode well_formed_code_points) (simp_all add: cp)
  moreover obtain d where "Wtf8Buf_from_iter cps = Inr (wtf8_encode d)" "well_formed d" "utf16_encode d = utf16_encode cps"
    using extend_encode [of "[]" cps] assms(4) by (auto simp: Wtf8Buf_from_iter_def list_all_iff cp)
  ultimately show ?thesis
    using append_cps_ok [OF a(1) b(1)] append_cps_ok [OF a(1) c] a b
    by (simp add: wtf8_wf_encode wide_encode)
qed

theorem Wtf8_append_units_witness:
  "\<exists>r. Wtf8Buf_push (from_wide [0xD83D]) 0xDCA9 = Inr r \<and> wide r = [0xD83D, 0xDCA9]"
proof -
  have w: "wtf8_wf (wtf8_encode cps)" "wide (wtf8_encode cps) = utf16_encode cps" if "well_formed cps" for cps
    using that by (rule wtf8_wf_encode, rule wide_encode)
  have "units_to_cps [0xD83D] = [0xD83D]" "well_formed [0xD83D]"
    by (simp_all add: units_to_cps_lead is_lead_def well_formed_def is_code_point_def)
  then have "wtf8_wf (from_wide [0xD83D])" "wide (from_wide [0xD83D]) = [0xD83D]"
    unfolding from_wide_encode using w [of "[0xD83D]"] by (simp_all add: encode_utf16_small)
  then show ?thesis using Wtf8_append_units [of "from_wide [0xD83D]" "from_wide [0xD83D]" "0xDCA9" "[]"]
    by (auto simp: encode_utf16_small)
qed

text \<open>
  C18: the conversions to UTF-8 on a well-formed string. \<open>as_str\<close> and \<open>into_string\<close> succeed exactly when there is no
  surrogate, and then the bytes are unchanged; both lossy conversions replace every surrogate by U+FFFD
  and keep every other code point, so that what they return has no surrogate; the
  borrowed result is returned exactly when nothing had to be replaced. None of them panics.
\<close>

theorem Wtf8_to_utf8:
  assumes "wtf8_wf bs"
  shows "as_str bs = Inr (if list_all (\<lambda>c. \<not> is_surrogate c) (code_points bs) then Some bs else None) \<and>
    into_string bs = Inr (if list_all (\<lambda>c. \<not> is_surrogate c) (code_points bs) then Inr bs else Inl bs) \<and>
    (\<exists>s. into_string_lossy bs = Inr s \<and>
      to_string_lossy bs = Inr ((if list_all (\<lambda>c. \<not> is_surrogate c) (code_points bs) then Borrowed else Owned) s) \<and>
      code_points s = map CodePoint_to_char_lossy (code_points bs) \<and> as_str s = Inr (Some s))"
proof -
  obtain cps where c: "well_formed cps" "bs = wtf8_encode cps" using assms by (rule wtf8_wfE)
  have cp: "list_all is_code_point cps" "code_points bs = cps" using c by (simp_all add: well_formed_code_points code_points_encode)
  let ?l = "map CodePoint_to_char_lossy cps"
  have lcp: "list_all is_code_point ?l"
    using cp(1) by (auto simp: list_all_iff CodePoint_to_char_lossy_def CodePoint_to_char_def is_code_point_def split: option.split)
  have "\<not> is_surrogate (CodePoint_to_char_lossy d)" for d
    by (cases "is_surrogate d") (simp_all add: lossy_simps is_surrogate_def is_lead_def is_trail_def)
  then have ns: "list_all (\<lambda>c. \<not> is_surrogate c) ?l" by (simp add: list_all_iff)
  have str: "as_str (wtf8_encode ds) = Inr (if list_all (\<lambda>c. \<not> is_surrogate c) ds then Some (wtf8_encode ds) else None)"
    "into_string (wtf8_encode ds) = Inr (if list_all (\<lambda>c. \<not> is_surrogate c) ds then Inr (wtf8_encode ds) else Inl (wtf8_encode ds))"
    if "list_all is_code_point ds" for ds
    using next_surrogate_start [OF that] by (auto simp: as_str_def into_string_def split: option.split)
  show ?thesis
    unfolding cp(2) unfolding c(2) using str [OF cp(1)] str [OF lcp] ns
      into_string_lossy_ok [OF cp(1)] to_string_lossy_ok [OF cp(1)] code_points_encode [OF lcp] by simp
qed

theorem Wtf8_to_utf8_witness:
  "into_string_lossy (wtf8_encode [0x61, 0xD800]) = Inr [0x61, 0xEF, 0xBF, 0xBD] \<and> as_str (wtf8_encode [0x61, 0xD800]) = Inr None"
proof -
  have wf: "well_formed [0x61, 0xD800]" by (simp add: well_formed_def is_code_point_def is_lead_def is_trail_def)
  then have "code_points (wtf8_encode [0x61, 0xD800]) = [0x61, 0xD800]" by (intro code_points_encode well_formed_code_points)
  moreover have "is_surrogate 0xD800" by (simp add: is_surrogate_def is_lead_def)
  ultimately have "as_str (wtf8_encode [0x61, 0xD800]) = Inr None"
    using Wtf8_to_utf8 [OF wtf8_wf_encode [OF wf]] by simp
  moreover have "into_string_lossy (wtf8_encode [0x61, 0xD800]) = Inr [0x61, 0xEF, 0xBF, 0xBD]"
    using into_string_lossy_ok [OF well_formed_code_points [OF wf]] lossy_simps(1) [OF \<open>is_surrogate 0xD800\<close>]
      lossy_simps(2) [of "0x61"]
    by (simp add: is_surrogate_def is_lead_def is_trail_def replacement_bytes UTF8_REPLACEMENT_CHARACTER_def)
      (simp add: encode_utf8_def)
  ultimately show ?thesis by blast
qed

text \<open>
  C19: slicing by a byte range. A range whose ends lie between code points gives the code points between
  them, and the slice is well formed; any other range panics. The unchecked slice behind it never leaves
  the string. Truncation agrees with slicing.
\<close>

theorem Wtf8_index_range:
  assumes "wtf8_wf bs" "k \<le> l" "l \<le> length (code_points bs)"
    and "\<nexists>m n. m \<le> n \<and> n \<le> length (code_points bs) \<and>
      i = length (wtf8_encode (take m (code_points bs))) \<and> j = length (wtf8_encode (take n (code_points bs)))"
  shows "(\<exists>r. index_range bs (length (wtf8_encode (take k (code_points bs)))) (length (wtf8_encode (take l (code_points bs)))) = Inr r \<and>
      code_points r = drop k (take l (code_points bs)) \<and> wtf8_wf r) \<and>
    Wtf8Buf_truncate bs (length (wtf8_encode (take l (code_points bs)))) = Inr (wtf8_encode (take l (code_points bs))) \<and>
    (\<exists>msg. index_range bs i j = Inl (Panic msg))"
proof -
  let ?cps = "code_points bs" and ?off = "\<lambda>k. length (wtf8_encode (take k (code_points bs)))"
  have wf: "well_formed ?cps" and bs: "bs = wtf8_encode ?cps" using assms(1) by (simp_all add: wtf8_wf_def)
  have bnd: "is_code_point_boundary bs p \<longleftrightarrow> (\<exists>k \<le> length ?cps. p = ?off k)" for p
    using boundary_encode [OF well_formed_code_points [OF wf], of p] bs by simp
  have off_le: "?off l \<le> length bs" for l using take_encode [of l ?cps] bs by (metis length_take min.cobounded1)
  note mono = offset_mono [OF assms(2), of ?cps]
  have t: "take (?off l) bs = wtf8_encode (take l ?cps)" using take_encode [of l ?cps] bs by simp
  have "take (?off l - ?off k) (drop (?off k) bs) = drop (?off k) (take (?off l) bs)"
    using mono by (simp add: drop_take)
  then have sl: "take (?off l - ?off k) (drop (?off k) bs) = wtf8_encode (drop k (take l ?cps))"
    using drop_encode [OF assms(2), of ?cps] t by simp
  have b: "is_code_point_boundary bs (?off k)" "is_code_point_boundary bs (?off l)"
    unfolding bnd using assms(2,3) le_trans by blast+
  then have "index_range bs (?off k) (?off l) = Inr (wtf8_encode (drop k (take l ?cps)))"
    using mono off_le sl by (simp add: index_range_def slice_unchecked_def)
  moreover have wfp: "well_formed (drop k (take l ?cps))" using wf by (rule well_formed_part)
  moreover have "Wtf8Buf_truncate bs (?off l) = Inr (wtf8_encode (take l ?cps))"
    using b(2) t by (simp add: Wtf8Buf_truncate_def)
  moreover have "\<exists>msg. index_range bs i j = Inl (Panic msg)"
  proof -
    have "\<not> (i \<le> j \<and> is_code_point_boundary bs i \<and> is_code_point_boundary bs j)"
    proof
      assume a: "i \<le> j \<and> is_code_point_boundary bs i \<and> is_code_point_boundary bs j"
      then obtain m n where mn: "m \<le> length ?cps" "i = ?off m" "n \<le> length ?cps" "j = ?off n" using bnd by blast
      show False
      proof (cases "m \<le> n")
        case False
        then have "j \<le> i" using mn offset_mono [of n m ?cps] by simp
        then have "i = j" using a by simp
        then show False using mn assms(4) by blast
      qed (use mn assms(4) in blast)
    qed
    then show ?thesis by (cases "i \<le> j") (auto simp: index_range_def slice_error_fail_def)
  qed
  ultimately show ?thesis
    using code_points_encode [OF well_formed_code_points [OF wfp]] wtf8_wf_encode [OF wfp] by blast
qed

theorem Wtf8_index_range_witness:
  "\<exists>r. index_range (wtf8_encode [0x61, 0x1F4A9]) 0 1 = Inr r \<and> wtf8_wf r"
proof -
  let ?bs = "wtf8_encode [0x61, 0x1F4A9]"
  have wf: "well_formed [0x61, 0x1F4A9]" by (simp add: well_formed_def is_code_point_def is_lead_def)
  then have cp: "code_points ?bs = [0x61, 0x1F4A9]" by (intro code_points_encode well_formed_code_points)
  have len: "length (encode_utf8 0x61) = 1" "length (encode_utf8 0x1F4A9) = 4" by (simp_all add: encode_utf8_def)
  have "length (wtf8_encode (take n [0x61, 0x1F4A9])) \<noteq> 2" for n
    using len by (cases n; cases "n - 1") (auto simp: take_Cons')
  then have "\<exists>r. index_range ?bs (length (wtf8_encode (take 0 (code_points ?bs)))) (length (wtf8_encode (take 1 (code_points ?bs)))) = Inr r \<and>
      code_points r = drop 0 (take 1 (code_points ?bs)) \<and> wtf8_wf r"
    using Wtf8_index_range [OF wtf8_wf_encode [OF wf], of 0 1 2 2] unfolding cp by auto
  then show ?thesis unfolding cp using len by auto
qed

subsection \<open>Size hints\<close>

lemma next_code_point_consumes:
  "next_code_point bs = Some (c, bs') \<Longrightarrow> length bs \<le> length bs' + 4"
proof (cases bs)
  case (Cons x xs)
  have u: "length ys \<le> Suc (length (snd (unwrap_or_0 ys)))" for ys by (cases ys) simp_all
  assume "next_code_point bs = Some (c, bs')"
  then show ?thesis
    using Cons u [of xs] u [of "snd (unwrap_or_0 xs)"] u [of "snd (unwrap_or_0 (snd (unwrap_or_0 xs)))"]
    by (auto simp: Let_def split: if_splits prod.splits)
qed simp

lemma EncodeWide_collect_bounds:
  "length (wide_code_points s) \<le> 4 * length (EncodeWide_collect s) \<and> length (EncodeWide_collect s) \<le> wide_left s"
proof (induction s rule: EncodeWide_collect.induct)
  case (1 s)
  show ?case
  proof (cases "EncodeWide_next s")
    case None
    then have "wide_code_points s = []"
      by (cases "wide_code_points s") (auto simp: EncodeWide_next_def Let_def split: if_splits option.splits prod.splits)
    then show ?thesis using None by (subst (1 2) EncodeWide_collect.simps) simp
  next
    case (Some r)
    obtain u s' where r: "r = (u, s')" by (cases r)
    note IH = "1.IH" [OF Some r [symmetric]]
    have "length (wide_code_points s) \<le> length (wide_code_points s') + 4"
      using Some r by (auto simp: EncodeWide_next_def Let_def dest!: next_code_point_consumes split: if_splits option.splits)
    then show ?thesis using Some r IH EncodeWide_next_measure [of s u s']
      by (subst (1 2) EncodeWide_collect.simps) simp
  qed
qed

text \<open>
  The size hint of a fresh iterator over the 16-bit units of a string brackets the number of units it yields.
\<close>

lemma EncodeWide_size_hint_brackets:
  assumes "length bs < 2 ^ 63"
  shows "case EncodeWide_size_hint (encode_wide bs) of (low, high) \<Rightarrow>
    unat low \<le> length (wide bs) \<and> (\<exists>h. high = Some h \<and> length (wide bs) \<le> unat h)"
proof -
  let ?len = "of_nat (length bs) :: usize"
  have len: "unat ?len = length bs" using assms by (simp add: unat_of_nat_small)
  have add: "word_checked_add ?len 3 = Some (?len + 3)" "unat (?len + 3) = length bs + 3"
    using assms len by (simp_all add: word_checked_add_def unat_add_small)
  have mul: "word_checked_mul ?len 2 = Some (?len * 2)" "unat (?len * 2) = length bs * 2"
    using assms len by (simp_all add: word_checked_mul_def unat_mult_small)
  have "unat ((?len + 3) div 4) = (length bs + 3) div 4" using add(2) by (simp add: unat_div_distrib)
  moreover have "(n + 3) div 4 \<le> m" if "n \<le> 4 * m" for n m :: nat using that by presburger
  ultimately show ?thesis
    using EncodeWide_collect_bounds [of "encode_wide bs"] add(1) mul
    by (simp add: EncodeWide_size_hint_def code_points_size_hint_def Let_def encode_wide_def wide_left_def)
qed

text \<open>
  In the middle of a surrogate pair the pending unit is not counted: the upper bound of the hint is
  too small.
\<close>

lemma EncodeWide_size_hint_pending:
  "\<exists>u s. EncodeWide_next (encode_wide [0xF0, 0x9F, 0x92, 0xA9]) = Some (u, s) \<and>
     EncodeWide_size_hint s = (0, Some 0) \<and> length (EncodeWide_collect s) = 1"
proof -
  let ?s = "\<lparr>wide_code_points = [], wide_extra = 0xDCA9\<rparr>"
  have e: "encode_utf8 0x1F4A9 = [0xF0, 0x9F, 0x92, 0xA9]" by (simp add: encode_utf8_def)
  have "next_code_point [0xF0, 0x9F, 0x92, 0xA9] = Some (0x1F4A9, [])"
    using next_code_point_encode [of "0x1F4A9" "[]"] by (simp only: e append_Nil2) simp
  moreover have "encode_utf16 0x1F4A9 = [0xD83D, 0xDCA9]" by (simp add: encode_utf16_def)
  ultimately have "EncodeWide_next (encode_wide [0xF0, 0x9F, 0x92, 0xA9]) = Some (0xD83D, ?s)"
    by (simp only: EncodeWide_next_def encode_wide_def EncodeWide.simps option.case prod.case) simp
  moreover have "EncodeWide_size_hint ?s = (0, Some 0)"
    by (simp add: EncodeWide_size_hint_def code_points_size_hint_def word_checked_add_def word_checked_mul_def)
  moreover have "length (EncodeWide_collect ?s) = 1"
    by (simp add: EncodeWide_collect.simps EncodeWide_next_def)
  ultimately show ?thesis by blast
qed

end
