(* ===== verification/Iterator_Interface.thy ===== *)
theory Iterator_Interface
  imports Rust_Base
begin

section \<open>Iterators\<close>

text \<open>
  The contract of a finite iterator, as the code that consumes one relies on it: the state determines the
  items still to come, \<open>next\<close> returns the first of them or ends, it does not panic, and after
  the end it stays at the end. The consumers are loops over \<open>next\<close>; under the contract they end.
\<close>

text \<open>
  \<open>iter_after\<close> of \<open>src/path.rs\<close>: what is left of an iterator after the items of another one. It works on any two iterators,
  given by their \<open>next\<close> functions, and ends when one of them does.
\<close>

partial_function (option) iter_after ::
  "('i \<Rightarrow> ('a option \<times> 'i) res) \<Rightarrow> ('j \<Rightarrow> ('a option \<times> 'j) res) \<Rightarrow> ('a \<Rightarrow> 'a \<Rightarrow> bool) \<Rightarrow> 'i \<Rightarrow> 'j \<Rightarrow> 'i option run" where
  "iter_after next1 next2 eq iter prefix =
     bindO (Some (next1 iter)) (\<lambda>(x, iter_next).
     bindO (Some (next2 prefix)) (\<lambda>(y, prefix').
     case x of
       Some x' \<Rightarrow> (case y of
         Some y' \<Rightarrow> if eq x' y' then iter_after next1 next2 eq iter_next prefix' else ret None
       | None \<Rightarrow> ret (Some iter))
     | None \<Rightarrow> (case y of None \<Rightarrow> ret (Some iter) | Some _ \<Rightarrow> ret None)))"

definition liftO :: "'a res \<Rightarrow> 'a run" where "liftO m = Some m"

text \<open>\<open>Iterator::collect\<close>.\<close>

partial_function (option) iter_collect :: "('i \<Rightarrow> ('a option \<times> 'i) res) \<Rightarrow> 'i \<Rightarrow> 'a list run" where
  "iter_collect next1 iter =
     bindO (Some (next1 iter)) (\<lambda>(x, iter').
     case x of
       None \<Rightarrow> ret []
     | Some y \<Rightarrow> bindO (iter_collect next1 iter') (\<lambda>ys. ret (y # ys)))"

text \<open>\<open>Iterator::eq\<close> and \<open>Iterator::cmp\<close>, for the equality and the comparison of the items.\<close>

partial_function (option) iter_eq ::
  "('i \<Rightarrow> ('a option \<times> 'i) res) \<Rightarrow> ('j \<Rightarrow> ('a option \<times> 'j) res) \<Rightarrow> ('a \<Rightarrow> 'a \<Rightarrow> bool) \<Rightarrow> 'i \<Rightarrow> 'j \<Rightarrow> bool run" where
  "iter_eq next1 next2 eq i j =
     bindO (Some (next1 i)) (\<lambda>(x, i').
     bindO (Some (next2 j)) (\<lambda>(y, j').
     case x of
       None \<Rightarrow> ret (y = None)
     | Some x' \<Rightarrow> (case y of
         None \<Rightarrow> ret False
       | Some y' \<Rightarrow> if eq x' y' then iter_eq next1 next2 eq i' j' else ret False)))"

partial_function (option) iter_cmp ::
  "('i \<Rightarrow> ('a option \<times> 'i) res) \<Rightarrow> ('j \<Rightarrow> ('a option \<times> 'j) res) \<Rightarrow> ('a \<Rightarrow> 'a \<Rightarrow> Ordering) \<Rightarrow> 'i \<Rightarrow> 'j \<Rightarrow> Ordering run" where
  "iter_cmp next1 next2 cmp i j =
     bindO (Some (next1 i)) (\<lambda>(x, i').
     bindO (Some (next2 j)) (\<lambda>(y, j').
     case x of
       None \<Rightarrow> ret (if y = None then Equal else Less)
     | Some x' \<Rightarrow> (case y of
         None \<Rightarrow> ret Greater
       | Some y' \<Rightarrow> (case cmp x' y' of
           Equal \<Rightarrow> iter_cmp next1 next2 cmp i' j'
         | non_eq \<Rightarrow> ret non_eq))))"

locale finite_iterator =
  fixes nxt :: "'i \<Rightarrow> ('a option \<times> 'i) res" and ok :: "'i \<Rightarrow> bool" and items :: "'i \<Rightarrow> 'a list"
  assumes nxt_ok: "ok i \<Longrightarrow> \<exists>x i'. nxt i = Inr (x, i') \<and> ok i' \<and>
    items i = (case x of None \<Rightarrow> [] | Some k \<Rightarrow> k # items i') \<and> (x = None \<longrightarrow> items i' = [])"
begin

lemma nxt_cases:
  assumes "ok i"
  obtains (none) i' where "nxt i = Inr (None, i')" "ok i'" "items i = []" "items i' = []"
  | (some) x i' where "nxt i = Inr (Some x, i')" "ok i'" "items i = x # items i'"
  using nxt_ok [OF assms] by (auto split: option.splits)

lemma collect_items: "ok i \<Longrightarrow> iter_collect nxt i = ret (items i)"
proof (induction "items i" arbitrary: i)
  case Nil
  from Nil.prems show ?case
  proof (cases rule: nxt_cases)
    case (none i')
    then show ?thesis by (subst iter_collect.simps) simp
  next
    case (some x i')
    then show ?thesis using Nil.hyps by simp
  qed
next
  case (Cons a as)
  from Cons.prems show ?case
  proof (cases rule: nxt_cases)
    case (none i')
    then show ?thesis using Cons.hyps(2) by simp
  next
    case (some x i')
    then have "iter_collect nxt i' = ret (items i')" using Cons.hyps by simp
    then show ?thesis using some by (subst iter_collect.simps) simp
  qed
qed

end

text \<open>Two iterators over the same type of items, compared item by item.\<close>

locale iterator_pair =
  one: finite_iterator nxt1 ok1 items1 + two: finite_iterator nxt2 ok2 items2
  for nxt1 :: "'i \<Rightarrow> ('a option \<times> 'i) res" and ok1 and items1
    and nxt2 :: "'j \<Rightarrow> ('a option \<times> 'j) res" and ok2 and items2
begin

definition after :: "('a \<Rightarrow> 'a \<Rightarrow> bool) \<Rightarrow> 'i \<Rightarrow> 'j \<Rightarrow> 'i option \<Rightarrow> bool" where
  "after eq i j r \<longleftrightarrow>
     (case r of
        Some i' \<Rightarrow> ok1 i' \<and> (\<exists>pre. items1 i = pre @ items1 i' \<and> list_all2 eq pre (items2 j))
      | None \<Rightarrow> \<nexists>pre post. items1 i = pre @ post \<and> list_all2 eq pre (items2 j))"

lemma iter_after_ends:
  "ok1 i \<Longrightarrow> ok2 j \<Longrightarrow> \<exists>r. iter_after nxt1 nxt2 eq i j = ret r \<and> after eq i j r"
proof (induction "items2 j" arbitrary: i j)
  case Nil
  from Nil.prems(2) obtain j' where j: "nxt2 j = Inr (None, j')"
    by (cases rule: two.nxt_cases) (use Nil.hyps in auto)
  from Nil.prems(1) have "iter_after nxt1 nxt2 eq i j = ret (Some i)"
  proof (cases rule: one.nxt_cases)
    case (none i')
    then show ?thesis using j by (subst iter_after.simps) simp
  next
    case (some x i')
    then show ?thesis using j by (subst iter_after.simps) simp
  qed
  moreover have "after eq i j (Some i)" using Nil.prems(1) Nil.hyps by (simp add: after_def)
  ultimately show ?case by blast
next
  case (Cons y ys)
  from Cons.prems(2) obtain j' where j: "nxt2 j = Inr (Some y, j')" "ok2 j'" "items2 j' = ys"
    by (cases rule: two.nxt_cases) (use Cons.hyps(2) in auto)
  from Cons.prems(1) show ?case
  proof (cases rule: one.nxt_cases)
    case (none i')
    then have "iter_after nxt1 nxt2 eq i j = ret None" using j by (subst iter_after.simps) simp
    then show ?thesis using none Cons.hyps(2) [symmetric] by (auto simp: after_def list_all2_Cons2)
  next
    case (some x i')
    show ?thesis
    proof (cases "eq x y")
      case True
      then have "iter_after nxt1 nxt2 eq i j = iter_after nxt1 nxt2 eq i' j'"
        using some j by (subst iter_after.simps) simp
      moreover obtain r where "iter_after nxt1 nxt2 eq i' j' = ret r" "after eq i' j' r"
        using Cons.hyps(1) [of j' i'] some j by auto
      moreover have "after eq i j r \<longleftrightarrow> after eq i' j' r"
      proof (cases r)
        case None
        then show ?thesis using some(3) True Cons.hyps(2) [symmetric] j(3)
          by (auto simp: after_def Cons_eq_append_conv list_all2_Cons2)
      next
        case (Some k)
        have "(\<exists>pre. x # items1 i' = pre @ items1 k \<and> list_all2 eq pre (y # ys)) \<longleftrightarrow>
            (\<exists>pre. items1 i' = pre @ items1 k \<and> list_all2 eq pre ys)"
          using True by (auto simp: list_all2_Cons2 Cons_eq_append_conv)
        then show ?thesis using Some some(3) Cons.hyps(2) [symmetric] j(3) by (simp add: after_def)
      qed
      ultimately show ?thesis by auto
    next
      case False
      then have "iter_after nxt1 nxt2 eq i j = ret None" using some j by (subst iter_after.simps) simp
      then show ?thesis using False some(3) Cons.hyps(2) [symmetric]
        by (auto simp: after_def list_all2_Cons2)
    qed
  qed
qed

lemma iter_eq_items: "ok1 i \<Longrightarrow> ok2 j \<Longrightarrow> iter_eq nxt1 nxt2 eq i j = ret (list_all2 eq (items1 i) (items2 j))"
proof (induction "items1 i" arbitrary: i j)
  case Nil
  from Nil.prems(1) obtain i' where i: "nxt1 i = Inr (None, i')" by (cases rule: one.nxt_cases) (use Nil.hyps in auto)
  from Nil.prems(2) show ?case
    by (cases rule: two.nxt_cases) (use i Nil.hyps in \<open>subst iter_eq.simps, simp\<close>)+
next
  case (Cons a as)
  from Cons.prems(1) obtain i' where i: "nxt1 i = Inr (Some a, i')" "ok1 i'" "items1 i' = as"
    by (cases rule: one.nxt_cases) (use Cons.hyps(2) in auto)
  from Cons.prems(2) show ?case
  proof (cases rule: two.nxt_cases)
    case (none j')
    then show ?thesis using i Cons.hyps(2) [symmetric] by (subst iter_eq.simps) simp
  next
    case (some y j')
    then show ?thesis using i Cons.hyps(1) [of i' j'] Cons.hyps(2) [symmetric] by (subst iter_eq.simps) simp
  qed
qed

text \<open>When the items are compared by a key in a linear order, two iterators compare by the lists of keys, lexicographically.\<close>

lemma iter_cmp_items:
  fixes key :: "'a \<Rightarrow> 'k::linorder"
  assumes "\<And>a b. cmp a b = cmp_ord (key a) (key b)"
  shows "ok1 i \<Longrightarrow> ok2 j \<Longrightarrow> iter_cmp nxt1 nxt2 cmp i j = ret (cmp_list (map key (items1 i)) (map key (items2 j)))"
proof (induction "items1 i" arbitrary: i j)
  case Nil
  from Nil.prems(1) obtain i' where i: "nxt1 i = Inr (None, i')" by (cases rule: one.nxt_cases) (use Nil.hyps in auto)
  from Nil.prems(2) show ?case
    by (cases rule: two.nxt_cases) (use i Nil.hyps in \<open>subst iter_cmp.simps, simp\<close>)+
next
  case (Cons a as)
  from Cons.prems(1) obtain i' where i: "nxt1 i = Inr (Some a, i')" "ok1 i'" "items1 i' = as"
    by (cases rule: one.nxt_cases) (use Cons.hyps(2) in auto)
  from Cons.prems(2) show ?case
  proof (cases rule: two.nxt_cases)
    case (none j')
    then show ?thesis using i Cons.hyps(2) [symmetric] by (subst iter_cmp.simps) simp
  next
    case (some y j')
    then show ?thesis using i Cons.hyps(1) [of i' j'] Cons.hyps(2) [symmetric] assms
      by (subst iter_cmp.simps) (simp add: cmp_ord_def)
  qed
qed

end

end
