(* ===== verification/Path.thy ===== *)
theory Path
  imports Memchr Wtf8 Iterator_Interface
begin

section \<open>\<open>path.rs\<close>: parsing and manipulating paths\<close>

text \<open>
  The code of \<open>src/path.rs\<close> and its platform parts \<open>src/sys/{unix,windows,redox}/path.rs\<close>. The
  platform, which the source selects by \<open>cfg!\<close>, is an argument. An \<open>OsStr\<close> is its bytes, a string of 8-bit
  characters here; \<open>Path\<close> and \<open>PathBuf\<close> have one field and are the same bytes. Every slice
  expression panics out of bounds as in the source, and every debug assertion is a panic.
\<close>

datatype platform = Unix | Windows | Redox

type_synonym OsStr = string

subsection \<open>Platform parts\<close>

definition is_sep_byte :: "platform \<Rightarrow> char \<Rightarrow> bool" where
  "is_sep_byte plat b = (case plat of Windows \<Rightarrow> b = CHR ''/'' \<or> b = CHR 0x5C | _ \<Rightarrow> b = CHR ''/'')"

definition is_verbatim_sep :: "platform \<Rightarrow> char \<Rightarrow> bool" where
  "is_verbatim_sep plat b = (case plat of Windows \<Rightarrow> b = CHR 0x5C | _ \<Rightarrow> b = CHR ''/'')"

definition MAIN_SEP_STR :: "platform \<Rightarrow> OsStr" where
  "MAIN_SEP_STR plat = (case plat of Windows \<Rightarrow> [CHR 0x5C] | _ \<Rightarrow> ''/'')"

datatype Prefix =
  Verbatim OsStr
| VerbatimUNC OsStr OsStr
| VerbatimDisk char
| DeviceNS OsStr
| UNC OsStr OsStr
| Disk char

definition is_ascii_alphabetic :: "char \<Rightarrow> bool" where
  "is_ascii_alphabetic c =
     (let n = of_char c :: nat in (65 \<le> n \<and> n \<le> 90) \<or> (97 \<le> n \<and> n \<le> 122))"

definition to_ascii_uppercase :: "char \<Rightarrow> char" where
  "to_ascii_uppercase c =
     (let n = of_char c :: nat in if 97 \<le> n \<and> n \<le> 122 then char_of (n - 32) else c)"

definition parse_two_comps :: "OsStr \<Rightarrow> (char \<Rightarrow> bool) \<Rightarrow> (OsStr \<times> OsStr) option" where
  "parse_two_comps path f =
     (case position f path of
        None \<Rightarrow> None
      | Some x \<Rightarrow>
          let first = take x path;
              path = drop (length first + 1) path;
              second = take (case position f path of Some i \<Rightarrow> i | None \<Rightarrow> length path) path
          in Some (first, second))"

text \<open>The prefixes that only exist on Windows, with the backslash as \<open>CHR 0x5C\<close>.\<close>

abbreviation bsl :: char where "bsl \<equiv> CHR 0x5C"

definition starts_with :: "'a list \<Rightarrow> 'a list \<Rightarrow> bool" where
  "starts_with xs pre \<longleftrightarrow> take (length pre) xs = pre"

definition parse_prefix_windows :: "OsStr \<Rightarrow> Prefix option" where
  "parse_prefix_windows path =
     (if starts_with path [bsl, bsl] then
        let path = drop 2 path in
        if starts_with path [CHR ''?'', bsl] then
          let path = drop 2 path in
          if starts_with path (''UNC'' @ [bsl]) then
            let path = drop 4 path in
            (case parse_two_comps path (is_verbatim_sep Windows) of
               Some (server, share) \<Rightarrow> Some (VerbatimUNC server share)
             | None \<Rightarrow> Some (VerbatimUNC path []))
          else
            let idx = position (\<lambda>b. b = bsl) path in
            if idx = Some 2 \<and> path ! 1 = CHR '':'' \<and> is_ascii_alphabetic (path ! 0)
            then Some (VerbatimDisk (to_ascii_uppercase (path ! 0)))
            else Some (Verbatim (take (case idx of Some i \<Rightarrow> i | None \<Rightarrow> length path) path))
        else if starts_with path [CHR ''.'', bsl] then
          let path = drop 2 path;
              pos = position (\<lambda>b. b = bsl) path
          in Some (DeviceNS (take (case pos of Some i \<Rightarrow> i | None \<Rightarrow> length path) path))
        else
          (case parse_two_comps path (is_sep_byte Windows) of
             Some (server, share) \<Rightarrow> if server \<noteq> [] \<and> share \<noteq> [] then Some (UNC server share) else None
           | None \<Rightarrow> None)
      else if 1 < length path \<and> path ! 1 = CHR '':'' then
        if is_ascii_alphabetic (path ! 0) then Some (Disk (to_ascii_uppercase (path ! 0))) else None
      else None)"

definition parse_prefix :: "platform \<Rightarrow> OsStr \<Rightarrow> Prefix option" where
  "parse_prefix plat path = (case plat of Windows \<Rightarrow> parse_prefix_windows path | _ \<Rightarrow> None)"

subsection \<open>Prefixes\<close>

fun Prefix_len :: "Prefix \<Rightarrow> nat" where
  "Prefix_len (Verbatim x) = 4 + length x"
| "Prefix_len (VerbatimUNC x y) = 8 + length x + (if length y > 0 then 1 + length y else 0)"
| "Prefix_len (VerbatimDisk _) = 6"
| "Prefix_len (UNC x y) = 2 + length x + (if length y > 0 then 1 + length y else 0)"
| "Prefix_len (DeviceNS x) = 4 + length x"
| "Prefix_len (Disk _) = 2"

fun Prefix_is_verbatim :: "Prefix \<Rightarrow> bool" where
  "Prefix_is_verbatim (Verbatim _) = True"
| "Prefix_is_verbatim (VerbatimDisk _) = True"
| "Prefix_is_verbatim (VerbatimUNC _ _) = True"
| "Prefix_is_verbatim _ = False"

fun Prefix_is_drive :: "Prefix \<Rightarrow> bool" where
  "Prefix_is_drive (Disk _) = True"
| "Prefix_is_drive _ = False"

definition has_implicit_root :: "Prefix \<Rightarrow> bool" where
  "has_implicit_root self = (\<not> Prefix_is_drive self)"

definition has_redox_scheme :: "platform \<Rightarrow> OsStr \<Rightarrow> bool" where
  "has_redox_scheme plat s \<longleftrightarrow> plat = Redox \<and> CHR '':'' \<in> set (takeWhile (\<lambda>b. b \<noteq> CHR ''/'') s)"

definition has_physical_root :: "platform \<Rightarrow> OsStr \<Rightarrow> Prefix option \<Rightarrow> bool res" where
  "has_physical_root plat s prefix =
     bindR (case prefix of Some p \<Rightarrow> slice_from s (Prefix_len p) | None \<Rightarrow> Inr s) (\<lambda>path.
     Inr (path \<noteq> [] \<and> is_sep_byte plat (path ! 0)))"

text \<open>\<open>rsplitn(2, |b| *b == b'.')\<close>: after the last dot, and before it if there is a dot.\<close>

definition split_file_at_dot :: "OsStr \<Rightarrow> OsStr option \<times> OsStr option" where
  "split_file_at_dot file =
     (if file = ''..'' then (Some file, None)
      else
        let (after, before) =
          (case rposition (\<lambda>b. b = CHR ''.'') file of
             None \<Rightarrow> (file, None)
           | Some i \<Rightarrow> (drop (i + 1) file, Some (take i file)))
        in if before = Some [] then (Some file, None) else (before, Some after))"

subsection \<open>Components\<close>

datatype State = S_Prefix | S_StartDir | S_Body | S_Done

primrec State_rank :: "State \<Rightarrow> nat" where
  "State_rank S_Prefix = 0"
| "State_rank S_StartDir = 1"
| "State_rank S_Body = 2"
| "State_rank S_Done = 3"

record PrefixComponent =
  prefix_raw :: OsStr
  prefix_parsed :: Prefix

datatype Component = PrefixComp PrefixComponent | RootDir | CurDir | ParentDir | Normal OsStr

definition Component_as_os_str :: "platform \<Rightarrow> Component \<Rightarrow> OsStr" where
  "Component_as_os_str plat self =
     (case self of PrefixComp p \<Rightarrow> prefix_raw p | RootDir \<Rightarrow> MAIN_SEP_STR plat | CurDir \<Rightarrow> ''.''
      | ParentDir \<Rightarrow> ''..'' | Normal path \<Rightarrow> path)"

text \<open>The equality of components: a prefix compares by what was parsed.\<close>

fun Component_eq :: "Component \<Rightarrow> Component \<Rightarrow> bool" where
  "Component_eq (PrefixComp p) (PrefixComp q) = (prefix_parsed p = prefix_parsed q)"
| "Component_eq a b = (a = b)"

record Components =
  comps_path :: OsStr
  comps_prefix :: "Prefix option"
  comps_root :: bool
  comps_front :: State
  comps_back :: State

definition prefix_len :: "Components \<Rightarrow> nat" where
  "prefix_len self = (case comps_prefix self of Some p \<Rightarrow> Prefix_len p | None \<Rightarrow> 0)"

definition prefix_verbatim :: "Components \<Rightarrow> bool" where
  "prefix_verbatim self = (case comps_prefix self of Some p \<Rightarrow> Prefix_is_verbatim p | None \<Rightarrow> False)"

definition prefix_remaining :: "Components \<Rightarrow> nat" where
  "prefix_remaining self = (if comps_front self = S_Prefix then prefix_len self else 0)"

definition finished :: "Components \<Rightarrow> bool" where
  "finished self \<longleftrightarrow> comps_front self = S_Done \<or> comps_back self = S_Done \<or>
     State_rank (comps_front self) > State_rank (comps_back self)"

definition comps_is_sep :: "platform \<Rightarrow> Components \<Rightarrow> char \<Rightarrow> bool" where
  "comps_is_sep plat self b = (if prefix_verbatim self then is_verbatim_sep plat b else is_sep_byte plat b)"

definition Components_has_root :: "Components \<Rightarrow> bool" where
  "Components_has_root self =
     (if comps_root self then True
      else case comps_prefix self of Some p \<Rightarrow> has_implicit_root p | None \<Rightarrow> False)"

definition include_cur_dir :: "platform \<Rightarrow> Components \<Rightarrow> bool res" where
  "include_cur_dir plat self =
     (if Components_has_root self then Inr False
      else bindR (slice_from (comps_path self) (prefix_len self)) (\<lambda>iter.
        Inr (case iter of
               [a] \<Rightarrow> a = CHR ''.''
             | a # b # _ \<Rightarrow> a = CHR ''.'' \<and> comps_is_sep plat self b
             | [] \<Rightarrow> False)))"

definition len_before_body :: "platform \<Rightarrow> Components \<Rightarrow> nat res" where
  "len_before_body plat self =
     (let early = State_rank (comps_front self) \<le> State_rank S_StartDir;
          root = (if early \<and> comps_root self then 1 else 0)
      in bindR (if early then include_cur_dir plat self else Inr False) (\<lambda>b.
         let cur_dir = (if b then 1 else 0)
         in Inr (prefix_remaining self + root + cur_dir)))"

definition parse_single_component :: "Components \<Rightarrow> OsStr \<Rightarrow> Component option" where
  "parse_single_component self c =
     (if c = ''.'' then (if prefix_verbatim self then Some CurDir else None)
      else if c = ''..'' then Some ParentDir
      else if c = '''' then None
      else Some (Normal c))"

definition parse_next_component :: "platform \<Rightarrow> Components \<Rightarrow> (nat \<times> Component option) res" where
  "parse_next_component plat self =
     bindR (assertR ''assertion failed: self.front == State::Body'' (comps_front self = S_Body)) (\<lambda>_.
     let (extra, c) =
       (case position (comps_is_sep plat self) (comps_path self) of
          None \<Rightarrow> (0, comps_path self)
        | Some i \<Rightarrow> (1, take i (comps_path self)))
     in Inr (length c + extra, parse_single_component self c))"

definition parse_next_component_back :: "platform \<Rightarrow> Components \<Rightarrow> (nat \<times> Component option) res" where
  "parse_next_component_back plat self =
     bindR (assertR ''assertion failed: self.back == State::Body'' (comps_back self = S_Body)) (\<lambda>_.
     bindR (len_before_body plat self) (\<lambda>start.
     bindR (slice_from (comps_path self) start) (\<lambda>tail.
     let (extra, c) =
       (case rposition (comps_is_sep plat self) tail of
          None \<Rightarrow> (0, tail)
        | Some i \<Rightarrow> (1, drop (i + 1) tail))
     in Inr (length c + extra, parse_single_component self c))))"

lemma parse_next_component_size:
  "parse_next_component plat self = Inr (n, c) \<Longrightarrow> comps_path self \<noteq> [] \<Longrightarrow> 0 < n"
  by (auto simp: parse_next_component_def bindR_eq_Inr split: option.splits prod.splits)

lemma parse_next_component_back_size:
  "parse_next_component_back plat self = Inr (n, c) \<Longrightarrow> len_before_body plat self = Inr start \<Longrightarrow>
   start < length (comps_path self) \<Longrightarrow> 0 < n \<and> n \<le> length (comps_path self)"
  by (auto simp: parse_next_component_back_def bindR_eq_Inr slice_from_def split: option.splits prod.splits if_splits)

text \<open>\<open>trim_left\<close> and \<open>trim_right\<close> drop empty and current-directory components at the ends.\<close>

function trim_left :: "platform \<Rightarrow> Components \<Rightarrow> Components res" where
  "trim_left plat self =
     (if comps_path self \<noteq> [] then
        bindR (parse_next_component plat self) (\<lambda>(size, c).
        if c \<noteq> None then Inr self
        else bindR (slice_from (comps_path self) size) (\<lambda>path.
          trim_left plat (self\<lparr>comps_path := path\<rparr>)))
      else Inr self)"
  by pat_completeness auto
termination
  by (relation "measure (\<lambda>(_, self). length (comps_path self))")
    (auto simp: slice_from_def dest: parse_next_component_size split: if_splits)

declare trim_left.simps [simp del]

function trim_right :: "platform \<Rightarrow> Components \<Rightarrow> Components res" where
  "trim_right plat self =
     bindR (len_before_body plat self) (\<lambda>start.
     if length (comps_path self) > start then
       bindR (parse_next_component_back plat self) (\<lambda>(size, c).
       if c \<noteq> None then Inr self
       else bindR (slice_to (comps_path self) (length (comps_path self) - size)) (\<lambda>path.
         trim_right plat (self\<lparr>comps_path := path\<rparr>)))
     else Inr self)"
  by pat_completeness auto
termination
  by (relation "measure (\<lambda>(_, self). length (comps_path self))")
    (auto simp: slice_to_def dest: parse_next_component_back_size split: if_splits)

declare trim_right.simps [simp del]

definition Components_as_path :: "platform \<Rightarrow> Components \<Rightarrow> OsStr res" where
  "Components_as_path plat self =
     bindR (if comps_front self = S_Body then trim_left plat self else Inr self) (\<lambda>comps.
     bindR (if comps_back comps = S_Body then trim_right plat comps else Inr comps) (\<lambda>comps.
     Inr (comps_path comps)))"

subsection \<open>Iterating over components\<close>

function Components_next :: "platform \<Rightarrow> Components \<Rightarrow> (Component option \<times> Components) res" where
  "Components_next plat self =
     (if finished self then Inr (None, self)
      else case comps_front self of
        S_Prefix \<Rightarrow>
          let n = prefix_len self;
              self' = self\<lparr>comps_front := S_StartDir\<rparr>
          in if n > 0 then
               bindR (assertR ''assertion failed: self.prefix_len() <= self.path.len()'' (n \<le> length (comps_path self))) (\<lambda>_.
               bindR (slice_to (comps_path self) n) (\<lambda>raw.
               bindR (slice_from (comps_path self) n) (\<lambda>path.
               bindR (expectR ''called Option::unwrap() on a None value'' (comps_prefix self)) (\<lambda>parsed.
               Inr (Some (PrefixComp \<lparr>prefix_raw = raw, prefix_parsed = parsed\<rparr>), self'\<lparr>comps_path := path\<rparr>)))))
             else Components_next plat self'
      | S_StartDir \<Rightarrow>
          let self' = self\<lparr>comps_front := S_Body\<rparr> in
          if comps_root self then
            bindR (assertR ''assertion failed: !self.path.is_empty()'' (comps_path self \<noteq> [])) (\<lambda>_.
            bindR (slice_from (comps_path self) 1) (\<lambda>path.
            Inr (Some RootDir, self'\<lparr>comps_path := path\<rparr>)))
          else (case comps_prefix self of
              Some p \<Rightarrow>
                if has_implicit_root p \<and> \<not> Prefix_is_verbatim p then Inr (Some RootDir, self')
                else Components_next plat self'
            | None \<Rightarrow>
                bindR (include_cur_dir plat self') (\<lambda>b.
                if b then
                  bindR (assertR ''assertion failed: !self.path.is_empty()'' (comps_path self \<noteq> [])) (\<lambda>_.
                  bindR (slice_from (comps_path self) 1) (\<lambda>path.
                  Inr (Some CurDir, self'\<lparr>comps_path := path\<rparr>)))
                else Components_next plat self'))
      | S_Body \<Rightarrow>
          if comps_path self \<noteq> [] then
            bindR (parse_next_component plat self) (\<lambda>(size, c).
            bindR (slice_from (comps_path self) size) (\<lambda>path.
            let self' = self\<lparr>comps_path := path\<rparr> in
            if c \<noteq> None then Inr (c, self') else Components_next plat self'))
          else Components_next plat (self\<lparr>comps_front := S_Done\<rparr>)
      | S_Done \<Rightarrow> Inl (Panic ''internal error: entered unreachable code''))"
  by pat_completeness auto
termination
  by (relation "measures [\<lambda>(_, self). 3 - State_rank (comps_front self), \<lambda>(_, self). length (comps_path self)]")
    (auto simp: slice_from_def finished_def dest: parse_next_component_size split: if_splits)

declare Components_next.simps [simp del]

function Components_next_back :: "platform \<Rightarrow> Components \<Rightarrow> (Component option \<times> Components) res" where
  "Components_next_back plat self =
     (if finished self then Inr (None, self)
      else case comps_back self of
        S_Body \<Rightarrow>
          bindR (len_before_body plat self) (\<lambda>start.
          if length (comps_path self) > start then
            bindR (parse_next_component_back plat self) (\<lambda>(size, c).
            bindR (slice_to (comps_path self) (length (comps_path self) - size)) (\<lambda>path.
            let self' = self\<lparr>comps_path := path\<rparr> in
            if c \<noteq> None then Inr (c, self') else Components_next_back plat self'))
          else Components_next_back plat (self\<lparr>comps_back := S_StartDir\<rparr>))
      | S_StartDir \<Rightarrow>
          let self' = self\<lparr>comps_back := S_Prefix\<rparr>;
              cut = (if comps_path self = [] then Inl (Panic ''attempt to subtract with overflow'')
                     else Inr (butlast (comps_path self)))
          in if comps_root self then
               bindR cut (\<lambda>path. Inr (Some RootDir, self'\<lparr>comps_path := path\<rparr>))
             else (case comps_prefix self of
                 Some p \<Rightarrow>
                   if has_implicit_root p \<and> \<not> Prefix_is_verbatim p then Inr (Some RootDir, self')
                   else Components_next_back plat self'
               | None \<Rightarrow>
                   bindR (include_cur_dir plat self') (\<lambda>b.
                   if b then bindR cut (\<lambda>path. Inr (Some CurDir, self'\<lparr>comps_path := path\<rparr>))
                   else Components_next_back plat self'))
      | S_Prefix \<Rightarrow>
          let self' = self\<lparr>comps_back := S_Done\<rparr> in
          if prefix_len self > 0 then
            bindR (expectR ''called Option::unwrap() on a None value'' (comps_prefix self)) (\<lambda>parsed.
            Inr (Some (PrefixComp \<lparr>prefix_raw = comps_path self, prefix_parsed = parsed\<rparr>), self'))
          else Inr (None, self')
      | S_Done \<Rightarrow> Inl (Panic ''internal error: entered unreachable code''))"
  by pat_completeness auto
termination
  by (relation "measures [\<lambda>(_, self). State_rank (comps_back self), \<lambda>(_, self). length (comps_path self)]")
    (auto simp: slice_to_def finished_def dest: parse_next_component_back_size split: if_splits)

declare Components_next_back.simps [simp del]

text \<open>\<open>Iter\<close> wraps the components and yields their text.\<close>

definition PathIter_next :: "platform \<Rightarrow> Components \<Rightarrow> (OsStr option \<times> Components) res" where
  "PathIter_next plat self =
     bindR (Components_next plat self) (\<lambda>(c, self). Inr (map_option (Component_as_os_str plat) c, self))"

definition PathIter_next_back :: "platform \<Rightarrow> Components \<Rightarrow> (OsStr option \<times> Components) res" where
  "PathIter_next_back plat self =
     bindR (Components_next_back plat self) (\<lambda>(c, self). Inr (map_option (Component_as_os_str plat) c, self))"

subsection \<open>Paths\<close>

definition Path_components :: "platform \<Rightarrow> OsStr \<Rightarrow> Components res" where
  "Path_components plat self =
     (let prefix = parse_prefix plat self in
      bindR (has_physical_root plat self prefix) (\<lambda>r.
      Inr \<lparr>comps_path = self, comps_prefix = prefix, comps_root = r \<or> has_redox_scheme plat self,
           comps_front = S_Prefix, comps_back = S_Body\<rparr>))"

definition Path_prefix :: "platform \<Rightarrow> OsStr \<Rightarrow> Prefix option res" where
  "Path_prefix plat self = bindR (Path_components plat self) (\<lambda>comps. Inr (comps_prefix comps))"

definition Path_has_root :: "platform \<Rightarrow> OsStr \<Rightarrow> bool res" where
  "Path_has_root plat self = bindR (Path_components plat self) (\<lambda>comps. Inr (Components_has_root comps))"

definition Path_is_absolute :: "platform \<Rightarrow> OsStr \<Rightarrow> bool res" where
  "Path_is_absolute plat self =
     bindR (Path_has_root plat self) (\<lambda>root.
     if plat = Redox then Inr (root \<or> has_redox_scheme plat self)
     else bindR (Path_prefix plat self) (\<lambda>prefix. Inr (root \<and> (plat = Unix \<or> prefix \<noteq> None))))"

definition Path_is_relative :: "platform \<Rightarrow> OsStr \<Rightarrow> bool res" where
  "Path_is_relative plat self = bindR (Path_is_absolute plat self) (\<lambda>b. Inr (\<not> b))"

definition Path_iter :: "platform \<Rightarrow> OsStr \<Rightarrow> Components res" where
  "Path_iter plat self = Path_components plat self"

definition Path_parent :: "platform \<Rightarrow> OsStr \<Rightarrow> OsStr option res" where
  "Path_parent plat self =
     bindR (Path_components plat self) (\<lambda>comps.
     bindR (Components_next_back plat comps) (\<lambda>(c, comps).
     case c of
       Some (Normal _) \<Rightarrow> bindR (Components_as_path plat comps) (\<lambda>p. Inr (Some p))
     | Some CurDir \<Rightarrow> bindR (Components_as_path plat comps) (\<lambda>p. Inr (Some p))
     | Some ParentDir \<Rightarrow> bindR (Components_as_path plat comps) (\<lambda>p. Inr (Some p))
     | _ \<Rightarrow> Inr None))"

definition Path_file_name :: "platform \<Rightarrow> OsStr \<Rightarrow> OsStr option res" where
  "Path_file_name plat self =
     bindR (Path_components plat self) (\<lambda>comps.
     bindR (Components_next_back plat comps) (\<lambda>(c, _).
     Inr (case c of Some (Normal p) \<Rightarrow> Some p | _ \<Rightarrow> None)))"

definition Path_file_stem :: "platform \<Rightarrow> OsStr \<Rightarrow> OsStr option res" where
  "Path_file_stem plat self =
     bindR (Path_file_name plat self) (\<lambda>f.
     Inr (Option.bind (map_option split_file_at_dot f)
       (\<lambda>(before, after). if before \<noteq> None then before else after)))"

definition Path_extension :: "platform \<Rightarrow> OsStr \<Rightarrow> OsStr option res" where
  "Path_extension plat self =
     bindR (Path_file_name plat self) (\<lambda>f.
     Inr (Option.bind (map_option split_file_at_dot f)
       (\<lambda>(before, after). if before \<noteq> None then after else None)))"

datatype StripPrefixError = StripPrefixError

definition Path_strip_prefix :: "platform \<Rightarrow> OsStr \<Rightarrow> OsStr \<Rightarrow> (StripPrefixError + OsStr) run" where
  "Path_strip_prefix plat self base =
     bindO (liftO (Path_components plat self)) (\<lambda>c1.
     bindO (liftO (Path_components plat base)) (\<lambda>c2.
     bindO (iter_after (Components_next plat) (Components_next plat) Component_eq c1 c2) (\<lambda>r.
     case r of
       Some c \<Rightarrow> bindO (liftO (Components_as_path plat c)) (\<lambda>p. ret (Inr p))
     | None \<Rightarrow> ret (Inl StripPrefixError))))"

definition Path_starts_with :: "platform \<Rightarrow> OsStr \<Rightarrow> OsStr \<Rightarrow> bool run" where
  "Path_starts_with plat self base =
     bindO (liftO (Path_components plat self)) (\<lambda>c1.
     bindO (liftO (Path_components plat base)) (\<lambda>c2.
     bindO (iter_after (Components_next plat) (Components_next plat) Component_eq c1 c2) (\<lambda>r. ret (r \<noteq> None))))"

definition Path_ends_with :: "platform \<Rightarrow> OsStr \<Rightarrow> OsStr \<Rightarrow> bool run" where
  "Path_ends_with plat self child =
     bindO (liftO (Path_components plat self)) (\<lambda>c1.
     bindO (liftO (Path_components plat child)) (\<lambda>c2.
     bindO (iter_after (Components_next_back plat) (Components_next_back plat) Component_eq c1 c2) (\<lambda>r. ret (r \<noteq> None))))"

subsection \<open>Path buffers\<close>

text \<open>\<open>OsString::push\<close>: bytes on Unix and Redox, WTF-8 on Windows.\<close>

definition OsString_push :: "platform \<Rightarrow> OsStr \<Rightarrow> OsStr \<Rightarrow> OsStr res" where
  "OsString_push plat self s =
     (case plat of
        Windows \<Rightarrow> bindR (push_wtf8 (map (\<lambda>c. of_nat (of_char c)) self) (map (\<lambda>c. of_nat (of_char c)) s))
          (\<lambda>bs. Inr (map (\<lambda>b. char_of (unat b)) bs))
      | _ \<Rightarrow> Inr (self @ s))"

definition PathBuf_push :: "platform \<Rightarrow> OsStr \<Rightarrow> OsStr \<Rightarrow> OsStr res" where
  "PathBuf_push plat self path =
     (let need_sep = (self \<noteq> [] \<and> \<not> is_sep_byte plat (last self)) in
      bindR (Path_components plat self) (\<lambda>comps.
      let need_sep =
        (if prefix_len comps > 0 \<and> prefix_len comps = length (comps_path comps) \<and>
            (case comps_prefix comps of Some p \<Rightarrow> Prefix_is_drive p | None \<Rightarrow> False)
         then False else need_sep)
      in bindR (Path_is_absolute plat path) (\<lambda>absolute.
         bindR (Path_prefix plat path) (\<lambda>prefix.
         bindR (Path_has_root plat path) (\<lambda>root.
         bindR (if absolute \<or> prefix \<noteq> None then Inr []
                else if root then Inr (take (prefix_remaining comps) self)
                else if need_sep then OsString_push plat self (MAIN_SEP_STR plat)
                else Inr self) (\<lambda>self.
         OsString_push plat self path))))))"

definition PathBuf_pop :: "platform \<Rightarrow> OsStr \<Rightarrow> (bool \<times> OsStr) res" where
  "PathBuf_pop plat self =
     bindR (Path_parent plat self) (\<lambda>p.
     case p of Some q \<Rightarrow> Inr (True, take (length q) self) | None \<Rightarrow> Inr (False, self))"

definition PathBuf_set_file_name :: "platform \<Rightarrow> OsStr \<Rightarrow> OsStr \<Rightarrow> OsStr res" where
  "PathBuf_set_file_name plat self file_name =
     bindR (Path_file_name plat self) (\<lambda>f.
     bindR (if f \<noteq> None then
              bindR (PathBuf_pop plat self) (\<lambda>(popped, self).
              bindR (assertR ''assertion failed: popped'' popped) (\<lambda>_. Inr self))
            else Inr self) (\<lambda>self.
     PathBuf_push plat self file_name))"

definition PathBuf_set_extension :: "platform \<Rightarrow> OsStr \<Rightarrow> OsStr \<Rightarrow> (bool \<times> OsStr) res" where
  "PathBuf_set_extension plat self extension =
     bindR (Path_file_name plat self) (\<lambda>f.
     if f = None then Inr (False, self)
     else
       bindR (Path_file_stem plat self) (\<lambda>stem.
       let stem = (case stem of Some s \<Rightarrow> s | None \<Rightarrow> []) in
       bindR (if extension \<noteq> [] then
                bindR (OsString_push plat stem ''.'') (\<lambda>stem. OsString_push plat stem extension)
              else Inr stem) (\<lambda>stem.
       bindR (PathBuf_set_file_name plat self stem) (\<lambda>self. Inr (True, self)))))"

definition Path_join :: "platform \<Rightarrow> OsStr \<Rightarrow> OsStr \<Rightarrow> OsStr res" where
  "Path_join plat self path = PathBuf_push plat self path"

definition Path_with_file_name :: "platform \<Rightarrow> OsStr \<Rightarrow> OsStr \<Rightarrow> OsStr res" where
  "Path_with_file_name plat self file_name = PathBuf_set_file_name plat self file_name"

definition Path_with_extension :: "platform \<Rightarrow> OsStr \<Rightarrow> OsStr \<Rightarrow> OsStr res" where
  "Path_with_extension plat self extension =
     bindR (PathBuf_set_extension plat self extension) (\<lambda>(_, buf). Inr buf)"

fun PathBuf_extend :: "platform \<Rightarrow> OsStr \<Rightarrow> OsStr list \<Rightarrow> OsStr res" where
  "PathBuf_extend plat self [] = Inr self"
| "PathBuf_extend plat self (p # iter) = bindR (PathBuf_push plat self p) (\<lambda>self. PathBuf_extend plat self iter)"

definition PathBuf_from_iter :: "platform \<Rightarrow> OsStr list \<Rightarrow> OsStr res" where
  "PathBuf_from_iter plat iter = PathBuf_extend plat [] iter"

end
