(* ===== verification/Path_Components.thy ===== *)
theory Path_Components
  imports Path
begin

section \<open>\<open>path.rs\<close>: the iterator over components is a double-ended queue\<close>

text \<open>
  A path without a prefix (every path on Unix and Redox) is split at its separators; the empty
  segments and the segments \<open>.\<close> are dropped, and the root or a leading \<open>.\<close> is a component of its own. The
  components that an iterator still has to yield are a function of its state, and \<open>next\<close> and
  \<open>next_back\<close> take them from the two ends, in any order of calls, without a panic.
\<close>

subsection \<open>Splitting at separators\<close>

primrec segs :: "('a \<Rightarrow> bool) \<Rightarrow> 'a list \<Rightarrow> 'a list list" where
  "segs sep [] = [[]]"
| "segs sep (x # xs) =
     (if sep x then [] # segs sep xs
      else (case segs sep xs of [] \<Rightarrow> [[x]] | c # cs \<Rightarrow> (x # c) # cs))"

lemma segs_not_Nil [simp]: "segs sep xs \<noteq> []"
  by (cases xs) (auto split: list.split)

lemma segs_single: "list_all (\<lambda>x. \<not> sep x) c \<Longrightarrow> segs sep c = [c]"
  by (induction c) simp_all

lemma segs_first: "list_all (\<lambda>x. \<not> sep x) c \<Longrightarrow> sep s \<Longrightarrow> segs sep (c @ s # xs) = c # segs sep xs"
  by (induction c) simp_all

lemma segs_last: "list_all (\<lambda>x. \<not> sep x) c \<Longrightarrow> sep s \<Longrightarrow> segs sep (xs @ s # c) = segs sep xs @ [c]"
  by (induction xs) (auto simp: segs_single split: list.split)

subsection \<open>What an iterator still yields\<close>

text \<open>Components between separators, outside a verbatim prefix.\<close>

definition parse_seg :: "OsStr \<Rightarrow> Component option" where
  "parse_seg c =
     (if c = ''.'' \<or> c = [] then None else if c = ''..'' then Some ParentDir else Some (Normal c))"

definition body_comps :: "platform \<Rightarrow> OsStr \<Rightarrow> Component list" where
  "body_comps plat b = List.map_filter parse_seg (segs (is_sep_byte plat) b)"

definition leads_cur_dir :: "platform \<Rightarrow> OsStr \<Rightarrow> bool" where
  "leads_cur_dir plat p \<longleftrightarrow> takeWhile (\<lambda>b. \<not> is_sep_byte plat b) p = ''.''"

text \<open>The specification: the components of a path, with or without a root.\<close>

definition comps_of :: "platform \<Rightarrow> bool \<Rightarrow> OsStr \<Rightarrow> Component list" where
  "comps_of plat root p =
     (if root then RootDir # body_comps plat (drop 1 p)
      else if leads_cur_dir plat p then CurDir # body_comps plat (drop 1 p)
      else body_comps plat p)"

definition early :: "Components \<Rightarrow> bool" where
  "early c \<longleftrightarrow> State_rank (comps_front c) \<le> 1"

definition start_len :: "platform \<Rightarrow> Components \<Rightarrow> nat" where
  "start_len plat c = (if early c \<and> (comps_root c \<or> leads_cur_dir plat (comps_path c)) then 1 else 0)"

definition start_comps :: "platform \<Rightarrow> Components \<Rightarrow> Component list" where
  "start_comps plat c =
     (if early c then (if comps_root c then [RootDir] else if leads_cur_dir plat (comps_path c) then [CurDir] else [])
      else [])"

definition remaining :: "platform \<Rightarrow> Components \<Rightarrow> Component list" where
  "remaining plat c =
     (if finished c then []
      else (case comps_back c of
              S_Body \<Rightarrow> start_comps plat c @ body_comps plat (drop (start_len plat c) (comps_path c))
            | S_StartDir \<Rightarrow> start_comps plat c
            | _ \<Rightarrow> []))"

definition comps_inv :: "platform \<Rightarrow> Components \<Rightarrow> bool" where
  "comps_inv plat c \<longleftrightarrow>
     comps_prefix c = None \<and>
     (early c \<and> comps_back c \<in> {S_Body, S_StartDir} \<and> comps_root c \<longrightarrow> comps_path c \<noteq> []) \<and>
     (early c \<and> comps_back c = S_StartDir \<longrightarrow> length (comps_path c) = start_len plat c)"

lemma dot_no_sep [simp]: "\<not> is_sep_byte plat CHR ''.''"
  by (simp add: is_sep_byte_def split: platform.split)

lemma body_comps_Nil [simp]: "body_comps plat [] = []"
  by (simp add: body_comps_def parse_seg_def List.map_filter_def)

lemma map_filter_list:
  "List.map_filter f [] = []"
  "List.map_filter f (xs @ ys) = List.map_filter f xs @ List.map_filter f ys"
  by (simp_all add: List.map_filter_def split: option.split)

lemma body_comps_first:
  assumes "list_all (\<lambda>x. \<not> is_sep_byte plat x) c"
  shows "is_sep_byte plat s \<Longrightarrow> body_comps plat (c @ s # rest) = (case parse_seg c of None \<Rightarrow> [] | Some k \<Rightarrow> [k]) @ body_comps plat rest"
    "body_comps plat c = (case parse_seg c of None \<Rightarrow> [] | Some k \<Rightarrow> [k])"
  using assms by (simp_all add: body_comps_def segs_first segs_single map_filter_list(1) split: option.split)

lemma body_comps_last:
  assumes "list_all (\<lambda>x. \<not> is_sep_byte plat x) c" "is_sep_byte plat s"
  shows "body_comps plat (b @ s # c) = body_comps plat b @ (case parse_seg c of None \<Rightarrow> [] | Some k \<Rightarrow> [k])"
  using assms by (simp add: body_comps_def segs_last map_filter_list split: option.split)

subsection \<open>The helpers of an iterator without a prefix\<close>

lemma no_prefix_simps:
  assumes "comps_prefix c = None"
  shows "prefix_len c = 0" "prefix_remaining c = 0" "\<not> prefix_verbatim c" "comps_is_sep plat c = is_sep_byte plat"
    "Components_has_root c = comps_root c" "parse_single_component c = parse_seg"
proof -
  show "prefix_len c = 0" "prefix_remaining c = 0" and v: "\<not> prefix_verbatim c" and "Components_has_root c = comps_root c"
    using assms by (simp_all add: prefix_len_def prefix_remaining_def prefix_verbatim_def Components_has_root_def)
  show "comps_is_sep plat c = is_sep_byte plat" using v by (simp add: comps_is_sep_def fun_eq_iff)
  show "parse_single_component c = parse_seg"
    using v by (auto simp: parse_single_component_def parse_seg_def fun_eq_iff)
qed

lemma include_cur_dir_no_prefix:
  assumes "comps_prefix c = None"
  shows "include_cur_dir plat c = Inr (\<not> comps_root c \<and> leads_cur_dir plat (comps_path c))"
proof -
  have "leads_cur_dir plat p = (case p of [a] \<Rightarrow> a = CHR ''.'' | a # b # _ \<Rightarrow> a = CHR ''.'' \<and> is_sep_byte plat b | [] \<Rightarrow> False)" for p
    by (cases p; cases "tl p") (auto simp: leads_cur_dir_def split: if_splits)
  then show ?thesis using no_prefix_simps(1,5) [OF assms]
    by (simp add: include_cur_dir_def slice_from_def no_prefix_simps(4) [OF assms] split: list.split)
qed

lemma len_before_body_no_prefix:
  "comps_prefix c = None \<Longrightarrow> len_before_body plat c = Inr (start_len plat c)"
  by (auto simp: len_before_body_def include_cur_dir_no_prefix no_prefix_simps start_len_def early_def Let_def)

lemma start_len_le: "comps_inv plat c \<Longrightarrow> comps_back c \<in> {S_Body, S_StartDir} \<Longrightarrow> start_len plat c \<le> length (comps_path c)"
  by (cases "comps_path c") (auto simp: comps_inv_def start_len_def leads_cur_dir_def)

subsection \<open>Taking from the front\<close>

definition pops_front :: "platform \<Rightarrow> Components \<Rightarrow> bool" where
  "pops_front plat c \<longleftrightarrow>
     (\<exists>x c'. Components_next plat c = Inr (x, c') \<and> comps_inv plat c' \<and>
       remaining plat c = (case x of None \<Rightarrow> [] | Some k \<Rightarrow> k # remaining plat c') \<and>
       (x = None \<longrightarrow> remaining plat c' = []))"

lemma pops_front_via:
  "Components_next plat c = Components_next plat d \<Longrightarrow> remaining plat c = remaining plat d \<Longrightarrow>
   pops_front plat d \<Longrightarrow> pops_front plat c"
  by (simp add: pops_front_def)

lemma inv_not_early: "comps_prefix c = None \<Longrightarrow> \<not> early c \<Longrightarrow> comps_inv plat c"
  by (simp add: comps_inv_def)

lemma remaining_body:
  "comps_front c = S_Body \<Longrightarrow> comps_back c = S_Body \<Longrightarrow> remaining plat c = body_comps plat (comps_path c)"
  by (simp add: remaining_def finished_def start_comps_def start_len_def early_def)

lemma parse_next_component_ok:
  assumes "comps_prefix c = None" "comps_front c = S_Body" "comps_path c \<noteq> []"
  obtains n k where "parse_next_component plat c = Inr (n, k)" "0 < n" "n \<le> length (comps_path c)"
    "body_comps plat (comps_path c) = (case k of None \<Rightarrow> [] | Some x \<Rightarrow> [x]) @ body_comps plat (drop n (comps_path c))"
proof (cases "position (is_sep_byte plat) (comps_path c)")
  case None
  then have "list_all (\<lambda>x. \<not> is_sep_byte plat x) (comps_path c)" by (simp add: position_None list_all_iff)
  from body_comps_first(2) [OF this] show ?thesis
    using that [of "length (comps_path c)" "parse_seg (comps_path c)"] None assms
    by (simp add: parse_next_component_def no_prefix_simps)
next
  case (Some i)
  then obtain s where s: "comps_path c = take i (comps_path c) @ s # drop (Suc i) (comps_path c)" "is_sep_byte plat s"
    "list_all (\<lambda>x. \<not> is_sep_byte plat x) (take i (comps_path c))" "i < length (comps_path c)" by (rule position_split)
  have "body_comps plat (comps_path c) = (case parse_seg (take i (comps_path c)) of None \<Rightarrow> [] | Some x \<Rightarrow> [x]) @
      body_comps plat (drop (Suc i) (comps_path c))"
    using body_comps_first(1) [OF s(3,2)] s(1) by metis
  then show ?thesis using that [of "Suc i" "parse_seg (take i (comps_path c))"] Some assms s(4)
    by (simp add: parse_next_component_def no_prefix_simps min_absorb2)
qed

lemma next_pops_front: "comps_inv plat c \<Longrightarrow> pops_front plat c"
proof (induction plat c rule: Components_next.induct)
  case (1 plat c)
  note inv = "1.prems"
  have np: "comps_prefix c = None" using inv by (simp add: comps_inv_def)
  show ?case
  proof (cases "finished c")
    case True
    then show ?thesis using inv by (simp add: pops_front_def Components_next.simps remaining_def)
  next
    case nf: False
    show ?thesis
    proof (cases "comps_front c")
      case S_Prefix
      let ?d = "c\<lparr>comps_front := S_StartDir\<rparr>"
      have "comps_inv plat ?d" using inv S_Prefix by (simp add: comps_inv_def early_def start_len_def)
      moreover have "Components_next plat c = Components_next plat ?d"
        using nf S_Prefix by (subst Components_next.simps) (simp add: no_prefix_simps [OF np])
      moreover have "remaining plat c = remaining plat ?d"
        using nf S_Prefix by (auto simp: remaining_def finished_def start_comps_def start_len_def early_def split: State.splits)
      ultimately show ?thesis using "1.IH"(1) [OF nf S_Prefix refl refl] no_prefix_simps(1) [OF np] by (metis less_irrefl pops_front_via)
    next
      case S_StartDir
      let ?d = "c\<lparr>comps_front := S_Body\<rparr>" and ?e = "c\<lparr>comps_front := S_Body, comps_path := drop 1 (comps_path c)\<rparr>"
      have bk: "comps_back c = S_Body \<or> comps_back c = S_StartDir"
        using nf S_StartDir by (cases "comps_back c") (simp_all add: finished_def)
      have inv': "comps_inv plat ?d" "comps_inv plat ?e" using np by (simp_all add: inv_not_early early_def)
      have rem: "remaining plat c = start_comps plat c @ remaining plat (if start_comps plat c = [] then ?d else ?e)"
        using nf S_StartDir bk
        by (auto simp: remaining_def finished_def start_comps_def start_len_def early_def)
      have icd: "include_cur_dir plat ?d = Inr (\<not> comps_root c \<and> leads_cur_dir plat (comps_path c))"
        using include_cur_dir_no_prefix [of ?d] np by simp
      show ?thesis
      proof (cases "comps_root c \<or> leads_cur_dir plat (comps_path c)")
        case True
        have ne: "comps_path c \<noteq> []"
          using True inv bk S_StartDir by (auto simp: comps_inv_def early_def leads_cur_dir_def)
        then have "Suc 0 \<le> length (comps_path c)" by (simp add: Suc_le_eq)
        then have "Components_next plat c = Inr (Some (List.hd (start_comps plat c)), ?e)"
          using nf S_StartDir ne True np icd
          by (subst Components_next.simps) (auto simp: slice_from_def start_comps_def early_def)
        moreover obtain k where "start_comps plat c = [k]"
          using True S_StartDir that by (cases "comps_root c") (simp_all add: start_comps_def early_def)
        ultimately show ?thesis using rem inv'(2) by (simp add: pops_front_def)
      next
        case False
        then have "Components_next plat c = Components_next plat ?d"
          using nf S_StartDir np icd by (subst Components_next.simps) simp
        moreover have "start_comps plat c = []" using False by (simp add: start_comps_def)
        ultimately show ?thesis
          using "1.IH"(2) [OF nf S_StartDir refl _ np icd] False inv'(1) rem
          by (intro pops_front_via [of plat c ?d]) simp_all
      qed
    next
      case S_Body
      have bk: "comps_back c = S_Body" using nf S_Body by (cases "comps_back c") (simp_all add: finished_def)
      show ?thesis
      proof (cases "comps_path c = []")
        case True
        let ?d = "c\<lparr>comps_front := S_Done\<rparr>"
        have "Components_next plat c = Inr (None, ?d)"
          using nf S_Body True by (simp add: Components_next.simps [of plat c] Components_next.simps [of plat ?d] finished_def)
        moreover have "remaining plat ?d = []" by (simp add: remaining_def finished_def)
        ultimately show ?thesis using remaining_body [OF S_Body bk] True np
          by (simp add: pops_front_def inv_not_early early_def)
      next
        case False
        then obtain n k where p: "parse_next_component plat c = Inr (n, k)" "0 < n" "n \<le> length (comps_path c)"
          "body_comps plat (comps_path c) = (case k of None \<Rightarrow> [] | Some x \<Rightarrow> [x]) @ body_comps plat (drop n (comps_path c))"
          by (rule parse_next_component_ok [OF np S_Body])
        let ?d = "c\<lparr>comps_path := drop n (comps_path c)\<rparr>"
        have inv': "comps_inv plat ?d" using np S_Body by (simp add: inv_not_early early_def)
        have rem: "remaining plat c = (case k of None \<Rightarrow> [] | Some x \<Rightarrow> [x]) @ remaining plat ?d"
          using remaining_body [OF S_Body bk] remaining_body [of ?d] S_Body bk p(4) by simp
        have sl: "slice_from (comps_path c) n = Inr (drop n (comps_path c))" using p(3) by (simp add: slice_from_def)
        show ?thesis
        proof (cases k)
          case None
          then have "Components_next plat c = Components_next plat ?d"
            using nf S_Body False p(1) sl by (subst Components_next.simps) simp
          moreover have "pops_front plat ?d"
            using "1.IH"(4) [OF nf S_Body False p(1) refl sl refl] None inv' by simp
          ultimately show ?thesis using rem None by (intro pops_front_via [of plat c ?d]) simp_all
        next
          case (Some x)
          then have "Components_next plat c = Inr (Some x, ?d)"
            using nf S_Body False p(1) sl by (subst Components_next.simps) simp
          then show ?thesis using rem Some inv' by (simp add: pops_front_def)
        qed
      qed
    next
      case S_Done
      then show ?thesis using nf by (simp add: finished_def)
    qed
  qed
qed

subsection \<open>Taking from the back\<close>

definition pops_back :: "platform \<Rightarrow> Components \<Rightarrow> bool" where
  "pops_back plat c \<longleftrightarrow>
     (\<exists>x c'. Components_next_back plat c = Inr (x, c') \<and> comps_inv plat c' \<and>
       remaining plat c = (case x of None \<Rightarrow> [] | Some k \<Rightarrow> remaining plat c' @ [k]) \<and>
       (x = None \<longrightarrow> remaining plat c' = []))"

lemma pops_back_via:
  "Components_next_back plat c = Components_next_back plat d \<Longrightarrow> remaining plat c = remaining plat d \<Longrightarrow>
   pops_back plat d \<Longrightarrow> pops_back plat c"
  by (simp add: pops_back_def)

text \<open>Cutting a path before its last separator leaves its first segment as it is.\<close>

lemma leads_cur_dir_cut: "is_sep_byte plat s \<Longrightarrow> leads_cur_dir plat (p @ s # q) \<longleftrightarrow> leads_cur_dir plat p"
  by (auto simp: leads_cur_dir_def takeWhile_append takeWhile_eq_all_conv [THEN iffD2])

lemma parse_next_component_back_ok:
  assumes inv: "comps_inv plat c" and bk: "comps_back c = S_Body" and long: "start_len plat c < length (comps_path c)"
  obtains n k where "parse_next_component_back plat c = Inr (n, k)" "0 < n" "n \<le> length (comps_path c)"
    "let d = c\<lparr>comps_path := take (length (comps_path c) - n) (comps_path c)\<rparr> in
       comps_inv plat d \<and> start_comps plat d = start_comps plat c \<and>
       body_comps plat (drop (start_len plat c) (comps_path c)) =
         body_comps plat (drop (start_len plat d) (comps_path d)) @ (case k of None \<Rightarrow> [] | Some x \<Rightarrow> [x])"
proof -
  let ?p = "comps_path c" and ?l = "start_len plat c"
  let ?tail = "drop ?l ?p"
  have np: "comps_prefix c = None" using inv by (simp add: comps_inv_def)
  have sl: "slice_from ?p ?l = Inr ?tail" using long by (simp add: slice_from_def)
  note parse = parse_next_component_back_def bk len_before_body_no_prefix [OF np] sl no_prefix_simps [OF np]
  have keep: "comps_inv plat (c\<lparr>comps_path := q\<rparr>) \<and> start_comps plat (c\<lparr>comps_path := q\<rparr>) = start_comps plat c \<and>
      start_len plat (c\<lparr>comps_path := q\<rparr>) = ?l"
    if "early c \<Longrightarrow> leads_cur_dir plat q = leads_cur_dir plat ?p \<or> comps_root c" "?l \<le> length q" for q
    using that inv bk by (auto simp: comps_inv_def start_comps_def start_len_def early_def)
  show ?thesis
  proof (cases "rposition (is_sep_byte plat) ?tail")
    case None
    then have none: "list_all (\<lambda>x. \<not> is_sep_byte plat x) ?tail" by (simp add: rposition_None list_all_iff)
    let ?q = "take ?l ?p"
    have n: "length ?p - length ?tail = ?l" "0 < length ?tail" using long by simp_all
    have "early c \<Longrightarrow> leads_cur_dir plat ?q = leads_cur_dir plat ?p \<or> comps_root c"
    proof (cases "comps_root c \<or> \<not> leads_cur_dir plat ?p")
      case True
      assume "early c"
      then show ?thesis using True by (auto simp: start_len_def leads_cur_dir_def)
    next
      case False
      assume "early c"
      then have "?l = 1" using False by (simp add: start_len_def)
      moreover obtain a t where "?p = a # t" using long by (cases ?p) auto
      ultimately have "\<forall>b \<in> set ?p. \<not> is_sep_byte plat b"
        using none False by (auto simp: leads_cur_dir_def list_all_iff split: if_splits)
      then have "takeWhile (\<lambda>b. \<not> is_sep_byte plat b) ?p = ?p" by (simp only: takeWhile_eq_all_conv)
      then have "?p = ''.''" using False by (simp only: leads_cur_dir_def) simp
      then show ?thesis using long \<open>?l = 1\<close> by simp
    qed
    from keep [OF this] have "let d = c\<lparr>comps_path := ?q\<rparr> in comps_inv plat d \<and> start_comps plat d = start_comps plat c \<and>
        start_len plat d = ?l" using long by (simp add: Let_def)
    then show ?thesis using that [of "length ?tail" "parse_seg ?tail"] None body_comps_first(2) [OF none] n
      by (simp add: parse Let_def)
  next
    case (Some i)
    then obtain s where s: "?tail = take i ?tail @ s # drop (Suc i) ?tail" "is_sep_byte plat s"
      "list_all (\<lambda>x. \<not> is_sep_byte plat x) (drop (Suc i) ?tail)" "i < length ?tail" by (rule rposition_split)
    let ?q = "take (?l + i) ?p"
    have p: "?p = ?q @ s # drop (Suc i) ?tail"
      using s(1) append_take_drop_id [of ?l ?p] by (metis append_assoc take_add)
    let ?n = "length ?p - (?l + i)"
    have n: "length (drop (Suc i) ?tail) + 1 = ?n" "length ?p - ?n = ?l + i" "0 < ?n" using s(4) by simp_all
    have "leads_cur_dir plat ?q = leads_cur_dir plat ?p" using leads_cur_dir_cut [OF s(2)] p by metis
    then have k: "let d = c\<lparr>comps_path := ?q\<rparr> in comps_inv plat d \<and> start_comps plat d = start_comps plat c \<and>
        start_len plat d = ?l" using keep [of ?q] s(4) by (simp add: Let_def)
    have "drop ?l ?q = take i ?tail" by (simp add: drop_take)
    then have "body_comps plat ?tail = body_comps plat (drop ?l ?q) @ (case parse_seg (drop (Suc i) ?tail) of None \<Rightarrow> [] | Some x \<Rightarrow> [x])"
      using body_comps_last [OF s(3,2)] s(1) by metis
    moreover have "parse_next_component_back plat c = Inr (length (drop (Suc i) ?tail) + 1, parse_seg (drop (Suc i) ?tail))"
      using Some by (simp add: parse)
    ultimately show ?thesis using k n(2,3) unfolding n(1)
      by (intro that [of ?n "parse_seg (drop (Suc i) ?tail)"]) (simp_all add: Let_def)
  qed
qed

lemma next_back_pops_back: "comps_inv plat c \<Longrightarrow> pops_back plat c"
proof (induction plat c rule: Components_next_back.induct)
  case (1 plat c)
  note inv = "1.prems"
  have np: "comps_prefix c = None" using inv by (simp add: comps_inv_def)
  show ?case
  proof (cases "finished c")
    case True
    then show ?thesis using inv by (simp add: pops_back_def Components_next_back.simps remaining_def)
  next
    case nf: False
    show ?thesis
    proof (cases "comps_back c")
      case S_Body
      have lb: "len_before_body plat c = Inr (start_len plat c)" by (rule len_before_body_no_prefix [OF np])
      have rem: "remaining plat c = start_comps plat c @ body_comps plat (drop (start_len plat c) (comps_path c))"
        using nf S_Body by (simp add: remaining_def)
      show ?thesis
      proof (cases "start_len plat c < length (comps_path c)")
        case True
        then obtain n k where p: "parse_next_component_back plat c = Inr (n, k)" "0 < n" "n \<le> length (comps_path c)"
          "let d = c\<lparr>comps_path := take (length (comps_path c) - n) (comps_path c)\<rparr> in
             comps_inv plat d \<and> start_comps plat d = start_comps plat c \<and>
             body_comps plat (drop (start_len plat c) (comps_path c)) =
               body_comps plat (drop (start_len plat d) (comps_path d)) @ (case k of None \<Rightarrow> [] | Some x \<Rightarrow> [x])"
          by (rule parse_next_component_back_ok [OF inv S_Body])
        let ?d = "c\<lparr>comps_path := take (length (comps_path c) - n) (comps_path c)\<rparr>"
        have inv': "comps_inv plat ?d" using p(4) by (simp add: Let_def)
        have "remaining plat ?d = start_comps plat ?d @ body_comps plat (drop (start_len plat ?d) (comps_path ?d))"
          using nf S_Body by (simp add: remaining_def finished_def)
        then have rem': "remaining plat c = remaining plat ?d @ (case k of None \<Rightarrow> [] | Some x \<Rightarrow> [x])"
          using rem p(4) by (simp add: Let_def)
        have sl: "slice_to (comps_path c) (length (comps_path c) - n) = Inr (take (length (comps_path c) - n) (comps_path c))"
          by (simp add: slice_to_def)
        show ?thesis
        proof (cases k)
          case None
          then have "Components_next_back plat c = Components_next_back plat ?d"
            using nf S_Body True p(1) sl lb by (subst Components_next_back.simps) simp
          moreover have "pops_back plat ?d"
            using "1.IH"(3) [OF nf S_Body lb True p(1) refl sl refl] None inv' by simp
          ultimately show ?thesis using rem' None by (intro pops_back_via [of plat c ?d]) simp_all
        next
          case (Some x)
          then have "Components_next_back plat c = Inr (Some x, ?d)"
            using nf S_Body True p(1) sl lb by (subst Components_next_back.simps) simp
          then show ?thesis using rem' Some inv' by (simp add: pops_back_def)
        qed
      next
        case False
        let ?d = "c\<lparr>comps_back := S_StartDir\<rparr>"
        have len: "length (comps_path c) = start_len plat c" using False start_len_le [OF inv] S_Body by simp
        then have inv': "comps_inv plat ?d" using inv S_Body by (simp add: comps_inv_def early_def start_len_def)
        have "remaining plat c = remaining plat ?d"
          unfolding rem using nf len S_Body
          by (cases "comps_front c") (auto simp: remaining_def finished_def start_comps_def early_def)
        moreover have "Components_next_back plat c = Components_next_back plat ?d"
          using nf S_Body False lb by (subst Components_next_back.simps) simp
        moreover have "pops_back plat ?d" using "1.IH"(4) [OF nf S_Body lb False] inv' by simp
        ultimately show ?thesis by (intro pops_back_via [of plat c ?d]) simp_all
      qed
    next
      case S_StartDir
      let ?d = "c\<lparr>comps_back := S_Prefix\<rparr>" and ?e = "c\<lparr>comps_back := S_Prefix, comps_path := butlast (comps_path c)\<rparr>"
      have e: "early c" using nf S_StartDir by (cases "comps_front c") (simp_all add: finished_def early_def)
      have inv': "comps_inv plat ?d" "comps_inv plat ?e" using np by (simp_all add: comps_inv_def)
      have rem': "remaining plat ?d = []" "remaining plat ?e = []" by (simp_all add: remaining_def)
      have rem: "remaining plat c = start_comps plat c" using nf S_StartDir by (simp add: remaining_def)
      have icd: "include_cur_dir plat ?d = Inr (\<not> comps_root c \<and> leads_cur_dir plat (comps_path c))"
        using include_cur_dir_no_prefix [of ?d] np by simp
      show ?thesis
      proof (cases "comps_root c \<or> leads_cur_dir plat (comps_path c)")
        case True
        have ne: "comps_path c \<noteq> []" using True inv S_StartDir e by (auto simp: comps_inv_def leads_cur_dir_def)
        then have "Components_next_back plat c = Inr (Some (List.hd (start_comps plat c)), ?e)"
          using nf S_StartDir True np icd e by (subst Components_next_back.simps) (auto simp: start_comps_def)
        moreover obtain k where "start_comps plat c = [k]"
          using True e that by (cases "comps_root c") (simp_all add: start_comps_def)
        ultimately show ?thesis using rem rem' inv'(2) by (simp add: pops_back_def)
      next
        case False
        then have "Components_next_back plat c = Components_next_back plat ?d"
          using nf S_StartDir np icd by (subst Components_next_back.simps) simp
        moreover have "remaining plat c = []" using rem False by (simp add: start_comps_def)
        moreover have "pops_back plat ?d"
          using "1.IH"(1) [OF nf S_StartDir refl refl _ np icd] False inv'(1) by simp
        ultimately show ?thesis using rem'(1) by (intro pops_back_via [of plat c ?d]) simp_all
      qed
    next
      case S_Prefix
      have "Components_next_back plat c = Inr (None, c\<lparr>comps_back := S_Done\<rparr>)"
        using nf S_Prefix np by (subst Components_next_back.simps) (simp add: no_prefix_simps)
      moreover have "comps_inv plat (c\<lparr>comps_back := S_Done\<rparr>)" using np by (simp add: comps_inv_def)
      ultimately show ?thesis using S_Prefix by (simp add: pops_back_def remaining_def finished_def)
    next
      case S_Done
      then show ?thesis using nf by (simp add: finished_def)
    qed
  qed
qed

end
