(* ===== verification/Path_Spec.thy ===== *)
theory Path_Spec
  imports Path_Components "HOL-Library.Sublist"
begin

section \<open>\<open>path.rs\<close>: what the operations on paths compute\<close>

text \<open>
  The operations of \<open>Path\<close> and \<open>PathBuf\<close> stated on the list of components of a path. The iterators over components meet
  the contract of \<open>finite_iterator\<close> in both directions, so the loops of \<open>iter_after\<close> end; \<open>strip_prefix\<close>, \<open>parent\<close>,
  \<open>pop\<close>, \<open>push\<close> and \<open>set_extension\<close> are then list operations on components.
\<close>

subsection \<open>The components of a path\<close>

text \<open>
  The documented meaning, for paths with neither a Windows prefix nor a scheme of Redox: a leading separator is the root, the
  rest is split at its separators. A path of Redox with a scheme is left out, because there the code does not do
  what is documented (\<open>Redox_scheme_components\<close> below).
\<close>

definition plain_path :: "platform \<Rightarrow> OsStr \<Rightarrow> bool" where
  "plain_path plat p \<longleftrightarrow> parse_prefix plat p = None \<and> \<not> has_redox_scheme plat p"

definition root_of :: "platform \<Rightarrow> OsStr \<Rightarrow> bool" where
  "root_of plat p \<longleftrightarrow> p \<noteq> [] \<and> is_sep_byte plat (p ! 0)"

definition path_comps :: "platform \<Rightarrow> OsStr \<Rightarrow> Component list" where
  "path_comps plat p = comps_of plat (root_of plat p) p"

definition start_of :: "platform \<Rightarrow> OsStr \<Rightarrow> Components" where
  "start_of plat p = \<lparr>comps_path = p, comps_prefix = None, comps_root = root_of plat p,
     comps_front = S_Prefix, comps_back = S_Body\<rparr>"

lemma Path_components_start:
  "plain_path plat p \<Longrightarrow> Path_components plat p = Inr (start_of plat p)"
  by (auto simp: plain_path_def Path_components_def has_physical_root_def start_of_def root_of_def)

lemma parse_prefix_not_Windows [simp]: "plat \<noteq> Windows \<Longrightarrow> parse_prefix plat p = None"
  by (cases plat) (simp_all add: parse_prefix_def)

lemma plain_path_Unix [simp]: "plain_path Unix p"
  by (simp add: plain_path_def has_redox_scheme_def)

lemma root_of_not_Nil: "root_of plat p \<Longrightarrow> p \<noteq> []"
  by (simp add: root_of_def)

lemma inv_start: "comps_inv plat (start_of plat p)"
  by (auto simp: comps_inv_def start_of_def dest: root_of_not_Nil)

lemma remaining_start: "remaining plat (start_of plat p) = path_comps plat p"
  by (simp add: remaining_def start_of_def finished_def start_comps_def start_len_def early_def path_comps_def comps_of_def)

interpretation fw: finite_iterator "Components_next plat" "comps_inv plat" "remaining plat" for plat
  by unfold_locales (use next_pops_front in \<open>simp add: pops_front_def\<close>)

interpretation bw: finite_iterator "Components_next_back plat" "comps_inv plat" "\<lambda>c. rev (remaining plat c)" for plat
proof unfold_locales
  fix c :: Components
  assume "comps_inv plat c"
  from next_back_pops_back [OF this] show "\<exists>x c'. Components_next_back plat c = Inr (x, c') \<and> comps_inv plat c' \<and>
      rev (remaining plat c) = (case x of None \<Rightarrow> [] | Some k \<Rightarrow> k # rev (remaining plat c')) \<and>
      (x = None \<longrightarrow> rev (remaining plat c') = [])"
    by (fastforce simp: pops_back_def split: option.splits)
qed

interpretation bwp: iterator_pair "Components_next_back plat" "comps_inv plat" "\<lambda>c. rev (remaining plat c)"
  "Components_next_back plat" "comps_inv plat" "\<lambda>c. rev (remaining plat c)" for plat
  by unfold_locales

subsection \<open>Any order of \<open>next\<close> and \<open>next_back\<close>\<close>

datatype fetch = Front | Back

fun run_ends :: "platform \<Rightarrow> fetch list \<Rightarrow> Components \<Rightarrow> Component option list res" where
  "run_ends plat [] c = Inr []"
| "run_ends plat (f # fs) c =
     bindR (case f of Front \<Rightarrow> Components_next plat c | Back \<Rightarrow> Components_next_back plat c) (\<lambda>(x, c').
     bindR (run_ends plat fs c') (\<lambda>xs. Inr (x # xs)))"

fun deque_ends :: "fetch list \<Rightarrow> 'a list \<Rightarrow> 'a option list" where
  "deque_ends [] xs = []"
| "deque_ends (_ # fs) [] = None # deque_ends fs []"
| "deque_ends (Front # fs) (x # xs) = Some x # deque_ends fs xs"
| "deque_ends (Back # fs) (x # xs) = Some (last (x # xs)) # deque_ends fs (butlast (x # xs))"

lemma deque_ends_snoc [simp]: "deque_ends (Back # fs) (xs @ [x]) = Some x # deque_ends fs xs"
  by (cases xs) (simp_all add: butlast_append)

lemma run_ends_deque: "comps_inv plat c \<Longrightarrow> run_ends plat fs c = Inr (deque_ends fs (remaining plat c))"
proof (induction fs arbitrary: c)
  case (Cons f fs)
  show ?case
  proof (cases f)
    case Front
    from Cons.prems show ?thesis
    proof (cases rule: fw.nxt_cases)
      case (none c')
      then show ?thesis using Cons.IH [of c'] Front by simp
    next
      case (some x c')
      then show ?thesis using Cons.IH [of c'] Front by simp
    qed
  next
    case Back
    from Cons.prems show ?thesis
    proof (cases rule: bw.nxt_cases)
      case (none c')
      then show ?thesis using Cons.IH [of c'] Back by simp
    next
      case (some x c')
      then have "remaining plat c = remaining plat c' @ [x]" by (metis rev.simps(2) rev_rev_ident)
      then show ?thesis using Cons.IH [of c'] Back some by (simp del: deque_ends.simps add: deque_ends_snoc)
    qed
  qed
qed simp

text \<open>C20: On a path with neither a Windows prefix nor a scheme of Redox, \<open>Path::components\<close> gives a double-ended iterator: any sequence of calls of
  \<open>next\<close> and \<open>next_back\<close> succeeds and takes the documented components of the path (the root, if it begins with a separator, or a leading \<open>.\<close>, then
  the parts between separators that are neither empty nor \<open>.\<close>) from its two ends, each component once, and
  returns \<open>None\<close> from then on. Paths with a scheme are excluded because the iterator loses the first byte of the scheme.\<close>

theorem Path_components_deque:
  assumes "parse_prefix plat p = None" "\<not> has_redox_scheme plat p"
  shows "\<exists>c. Path_components plat p = Inr c \<and> run_ends plat fs c = Inr (deque_ends fs (path_comps plat p))"
proof -
  have "plain_path plat p" using assms by (simp add: plain_path_def)
  then show ?thesis using Path_components_start [of plat p] run_ends_deque [OF inv_start] by (simp add: remaining_start)
qed

lemma Path_components_deque_witness:
  "\<exists>c. Path_components Windows ''./a/../b'' = Inr c \<and>
     run_ends Windows [Back, Front, Back, Front, Front] c =
       Inr [Some (Normal ''b''), Some CurDir, Some ParentDir, Some (Normal ''a''), None]"
proof -
  have "parse_prefix Windows ''./a/../b'' = None" "\<not> has_redox_scheme Windows ''./a/../b''" by code_simp+
  moreover have "deque_ends [Back, Front, Back, Front, Front] (path_comps Windows ''./a/../b'') =
      [Some (Normal ''b''), Some CurDir, Some ParentDir, Some (Normal ''a''), None]" by code_simp
  ultimately show ?thesis using Path_components_deque [of Windows "''./a/../b''" "[Back, Front, Back, Front, Front]"] by simp
qed

subsection \<open>\<open>starts_with\<close>, \<open>ends_with\<close> and \<open>strip_prefix\<close>\<close>

lemma Component_eq_plain: "\<forall>q. PrefixComp q \<noteq> b \<Longrightarrow> Component_eq a b \<longleftrightarrow> a = b"
  by (cases a; cases b) auto

lemma path_comps_plain: "PrefixComp q \<notin> set (path_comps plat p)"
proof -
  have "PrefixComp q \<notin> set (body_comps plat b)" for b
    by (auto simp: body_comps_def List.map_filter_def parse_seg_def split: if_splits)
  then show ?thesis by (simp add: path_comps_def comps_of_def)
qed

lemma list_all2_Component_eq:
  "list_all2 Component_eq cs (path_comps plat p) \<longleftrightarrow> cs = path_comps plat p"
  "list_all2 Component_eq cs (rev (path_comps plat p)) \<longleftrightarrow> cs = rev (path_comps plat p)"
proof -
  have "list_all2 Component_eq cs ds \<longleftrightarrow> cs = ds" if "\<forall>q. PrefixComp q \<notin> set ds" for ds
    using that by (induction ds arbitrary: cs) (auto simp: list_all2_Cons2 Component_eq_plain)
  then show "list_all2 Component_eq cs (path_comps plat p) \<longleftrightarrow> cs = path_comps plat p"
    "list_all2 Component_eq cs (rev (path_comps plat p)) \<longleftrightarrow> cs = rev (path_comps plat p)"
    by (simp_all add: path_comps_plain)
qed

text \<open>The states of an iterator that has only been advanced from the front.\<close>

definition fwd_inv :: "platform \<Rightarrow> Components \<Rightarrow> bool" where
  "fwd_inv plat c \<longleftrightarrow> comps_inv plat c \<and> comps_back c = S_Body \<and>
     (comps_front c = S_Done \<longrightarrow> comps_path c = []) \<and>
     (early c \<longrightarrow> comps_root c = root_of plat (comps_path c))"

lemma next_shape:
  "Components_next plat c = Inr (x, c') \<Longrightarrow> comps_prefix c = None \<Longrightarrow> comps_back c = S_Body \<Longrightarrow> comps_front c \<noteq> S_Done \<Longrightarrow>
   \<not> early c' \<and> comps_back c' = S_Body \<and> (comps_front c' = S_Done \<longrightarrow> comps_path c' = [])"
proof (induction plat c arbitrary: x c' rule: Components_next.induct)
  case (1 plat c)
  have nf: "\<not> finished c" using "1.prems"(3,4) by (cases "comps_front c") (simp_all add: finished_def)
  note step = "1.prems"(1) [unfolded Components_next.simps [of plat c]]
  note np = no_prefix_simps [OF "1.prems"(2)]
  show ?case
  proof (cases "comps_front c")
    case S_Prefix
    then show ?thesis using "1.IH"(1) [OF nf S_Prefix refl refl, of x c'] step nf "1.prems"(2,3) np(1) by simp
  next
    case S_StartDir
    let ?d = "c\<lparr>comps_front := S_Body\<rparr>"
    have icd: "include_cur_dir plat ?d = Inr (\<not> comps_root c \<and> leads_cur_dir plat (comps_path c))"
      using include_cur_dir_no_prefix [of ?d] "1.prems"(2) by simp
    show ?thesis
    proof (cases "comps_root c \<or> leads_cur_dir plat (comps_path c)")
      case True
      then show ?thesis using step nf S_StartDir "1.prems"(2,3) icd
        by (auto simp: Let_def bindR_eq_Inr early_def slice_from_def split: if_splits)
    next
      case False
      then show ?thesis using "1.IH"(2) [OF nf S_StartDir refl _ "1.prems"(2) icd, of x c'] step nf S_StartDir "1.prems"(2,3) icd
        by simp
    qed
  next
    case S_Body
    show ?thesis
    proof (cases "comps_path c = []")
      case True
      then show ?thesis using step nf S_Body "1.prems"(3)
        by (auto simp: Components_next.simps [of plat "c\<lparr>comps_front := S_Done\<rparr>"] finished_def early_def)
    next
      case False
      then obtain n k where p: "parse_next_component plat c = Inr (n, k)" "n \<le> length (comps_path c)"
        by (rule parse_next_component_ok [OF "1.prems"(2) S_Body])
      then have sl: "slice_from (comps_path c) n = Inr (drop n (comps_path c))" by (simp add: slice_from_def)
      show ?thesis using "1.IH"(4) [OF nf S_Body False p(1) refl sl refl, of x c'] step nf S_Body False p(1) sl "1.prems"(2,3)
        by (cases k) (auto simp: Let_def early_def)
    qed
  next
    case S_Done
    then show ?thesis using "1.prems"(4) by simp
  qed
qed

lemma fwd_inv_start: "fwd_inv plat (start_of plat p)"
  using inv_start [of plat p] by (simp add: fwd_inv_def start_of_def)

interpretation fwd: finite_iterator "Components_next plat" "fwd_inv plat" "remaining plat" for plat
proof unfold_locales
  fix c :: Components
  assume c: "fwd_inv plat c"
  then have "comps_inv plat c" by (simp add: fwd_inv_def)
  from fw.nxt_ok [OF this] obtain x c' where n: "Components_next plat c = Inr (x, c')" "comps_inv plat c'"
    "remaining plat c = (case x of None \<Rightarrow> [] | Some k \<Rightarrow> k # remaining plat c') \<and> (x = None \<longrightarrow> remaining plat c' = [])" by blast
  have "fwd_inv plat c'"
  proof (cases "comps_front c = S_Done")
    case True
    then show ?thesis using n(1) c by (simp add: Components_next.simps finished_def)
  next
    case False
    then show ?thesis using next_shape [OF n(1)] c n(2) by (simp add: fwd_inv_def comps_inv_def)
  qed
  with n show "\<exists>x c'. Components_next plat c = Inr (x, c') \<and> fwd_inv plat c' \<and>
      remaining plat c = (case x of None \<Rightarrow> [] | Some k \<Rightarrow> k # remaining plat c') \<and>
      (x = None \<longrightarrow> remaining plat c' = [])" by blast
qed

interpretation fwp: iterator_pair "Components_next plat" "fwd_inv plat" "remaining plat"
  "Components_next plat" "fwd_inv plat" "remaining plat" for plat
  by unfold_locales

lemma iter_after_front:
  obtains (some) c where "iter_after (Components_next plat) (Components_next plat) Component_eq (start_of plat p) (start_of plat b) = ret (Some c)"
    "fwd_inv plat c" "path_comps plat p = path_comps plat b @ remaining plat c"
  | (none) "iter_after (Components_next plat) (Components_next plat) Component_eq (start_of plat p) (start_of plat b) = ret None"
    "\<not> prefix (path_comps plat b) (path_comps plat p)"
proof -
  obtain r where r: "iter_after (Components_next plat) (Components_next plat) Component_eq (start_of plat p) (start_of plat b) = ret r"
    "fwp.after plat Component_eq (start_of plat p) (start_of plat b) r"
    using fwp.iter_after_ends [OF fwd_inv_start fwd_inv_start] by blast
  then show ?thesis
    using that by (cases r) (auto simp: fwp.after_def remaining_start list_all2_Component_eq prefix_def)
qed

text \<open>C21: \<open>Path::starts_with\<close> and \<open>Path::ends_with\<close> return on every pair of paths with neither a Windows prefix nor a scheme of Redox, and compare whole
  components: the components of the base are a prefix, or a suffix, of those of the path. Paths with a scheme are excluded: there the
  comparison misses the first byte of the scheme.\<close>

theorem Path_starts_ends_with:
  assumes "parse_prefix plat p = None" "\<not> has_redox_scheme plat p" "parse_prefix plat b = None" "\<not> has_redox_scheme plat b"
  shows "Path_starts_with plat p b = ret (prefix (path_comps plat b) (path_comps plat p)) \<and>
    Path_ends_with plat p b = ret (suffix (path_comps plat b) (path_comps plat p))"
proof
  have "plain_path plat p" "plain_path plat b" using assms by (simp_all add: plain_path_def)
  note start = Path_components_start [OF this(1)] Path_components_start [OF this(2)] liftO_def
  show "Path_starts_with plat p b = ret (prefix (path_comps plat b) (path_comps plat p))"
    by (cases rule: iter_after_front [of plat p b]) (simp_all add: Path_starts_with_def start)
  obtain r where r: "iter_after (Components_next_back plat) (Components_next_back plat) Component_eq (start_of plat p) (start_of plat b) = ret r"
    "bwp.after plat Component_eq (start_of plat p) (start_of plat b) r"
    using bwp.iter_after_ends [OF inv_start inv_start] by blast
  have "r \<noteq> None \<longleftrightarrow> (\<exists>post. rev (path_comps plat p) = rev (path_comps plat b) @ post)"
    using r(2) by (cases r) (auto simp: bwp.after_def remaining_start list_all2_Component_eq)
  also have "\<dots> \<longleftrightarrow> suffix (path_comps plat b) (path_comps plat p)"
    by (metis prefix_def suffix_to_prefix)
  finally show "Path_ends_with plat p b = ret (suffix (path_comps plat b) (path_comps plat p))"
    using r(1) by (simp add: Path_ends_with_def start)
qed

lemma Path_starts_ends_with_witness:
  "Path_starts_with Unix ''/etc//passwd'' ''/etc/'' = ret True \<and> Path_ends_with Unix ''/etc//passwd'' ''swd'' = ret False"
proof -
  have "prefix (path_comps Unix ''/etc/'') (path_comps Unix ''/etc//passwd'')"
    "\<not> suffix (path_comps Unix ''swd'') (path_comps Unix ''/etc//passwd'')" by code_simp+
  moreover have "\<not> has_redox_scheme Unix q" for q by (simp add: has_redox_scheme_def)
  ultimately show ?thesis using Path_starts_ends_with [of Unix "''/etc//passwd''" "''/etc/''"]
      Path_starts_ends_with [of Unix "''/etc//passwd''" "''swd''"] by simp
qed

subsection \<open>Trimming\<close>

lemma position_takeWhile: "position p xs = Some i \<Longrightarrow> take i xs = takeWhile (\<lambda>x. \<not> p x) xs"
  by (induction xs arbitrary: i) (auto split: if_splits)

lemma parse_next_component_seg:
  "parse_next_component plat c = Inr (n, k) \<Longrightarrow> comps_prefix c = None \<Longrightarrow>
   k = parse_seg (takeWhile (\<lambda>b. \<not> is_sep_byte plat b) (comps_path c))"
  by (auto simp: parse_next_component_def no_prefix_simps bindR_eq_Inr position_None takeWhile_eq_all_conv [THEN iffD2]
    dest: position_takeWhile split: option.splits)

lemma trim_left_ok:
  "comps_prefix c = None \<Longrightarrow> comps_front c = S_Body \<Longrightarrow>
   \<exists>q. trim_left plat c = Inr (c\<lparr>comps_path := q\<rparr>) \<and> body_comps plat q = body_comps plat (comps_path c) \<and>
     (q = [] \<or> parse_seg (takeWhile (\<lambda>b. \<not> is_sep_byte plat b) q) \<noteq> None)"
proof (induction plat c rule: trim_left.induct)
  case (1 plat c)
  show ?case
  proof (cases "comps_path c = []")
    case True
    then show ?thesis by (intro exI [of _ "[]"]) (simp add: trim_left.simps)
  next
    case False
    then obtain n k where p: "parse_next_component plat c = Inr (n, k)" "n \<le> length (comps_path c)"
      "body_comps plat (comps_path c) = (case k of None \<Rightarrow> [] | Some x \<Rightarrow> [x]) @ body_comps plat (drop n (comps_path c))"
      by (rule parse_next_component_ok [OF "1.prems"])
    show ?thesis
    proof (cases k)
      case None
      have sl: "slice_from (comps_path c) n = Inr (drop n (comps_path c))" using p(2) by (simp add: slice_from_def)
      then have "trim_left plat c = trim_left plat (c\<lparr>comps_path := drop n (comps_path c)\<rparr>)"
        using False None p(1) by (subst trim_left.simps) simp
      then show ?thesis using "1.IH" [OF False p(1) refl _ sl] None p(3) "1.prems" by simp
    next
      case (Some x)
      then show ?thesis using False p(1) parse_next_component_seg [OF p(1) "1.prems"(1)]
        by (intro exI [of _ "comps_path c"]) (simp add: trim_left.simps)
    qed
  qed
qed

lemma trim_right_ok:
  "comps_inv plat c \<Longrightarrow> comps_back c = S_Body \<Longrightarrow>
   \<exists>m. let d = c\<lparr>comps_path := take m (comps_path c)\<rparr> in
     trim_right plat c = Inr d \<and> comps_inv plat d \<and> start_comps plat d = start_comps plat c \<and>
     body_comps plat (drop (start_len plat d) (comps_path d)) = body_comps plat (drop (start_len plat c) (comps_path c))"
proof (induction plat c rule: trim_right.induct)
  case (1 plat c)
  note lb = len_before_body_no_prefix [of c plat]
  have np: "comps_prefix c = None" using "1.prems" by (simp add: comps_inv_def)
  show ?case
  proof (cases "start_len plat c < length (comps_path c)")
    case False
    then show ?thesis using lb [OF np] "1.prems" by (intro exI [of _ "length (comps_path c)"]) (simp add: trim_right.simps Let_def)
  next
    case True
    then obtain n k where p: "parse_next_component_back plat c = Inr (n, k)" "0 < n" "n \<le> length (comps_path c)"
      "let d = c\<lparr>comps_path := take (length (comps_path c) - n) (comps_path c)\<rparr> in
         comps_inv plat d \<and> start_comps plat d = start_comps plat c \<and>
         body_comps plat (drop (start_len plat c) (comps_path c)) =
           body_comps plat (drop (start_len plat d) (comps_path d)) @ (case k of None \<Rightarrow> [] | Some x \<Rightarrow> [x])"
      by (rule parse_next_component_back_ok [OF "1.prems"])
    show ?thesis
    proof (cases k)
      case (Some x)
      then show ?thesis using lb [OF np] True p(1) "1.prems"
        by (intro exI [of _ "length (comps_path c)"]) (simp add: trim_right.simps Let_def)
    next
      case None
      let ?n = "length (comps_path c) - n"
      have sl: "slice_to (comps_path c) ?n = Inr (take ?n (comps_path c))" by (simp add: slice_to_def)
      then have "trim_right plat c = trim_right plat (c\<lparr>comps_path := take ?n (comps_path c)\<rparr>)"
        using lb [OF np] True None p(1) by (subst trim_right.simps) simp
      moreover obtain m where "let c' = c\<lparr>comps_path := take ?n (comps_path c)\<rparr>; d = c'\<lparr>comps_path := take m (comps_path c')\<rparr> in
          trim_right plat c' = Inr d \<and> comps_inv plat d \<and> start_comps plat d = start_comps plat c' \<and>
          body_comps plat (drop (start_len plat d) (comps_path d)) = body_comps plat (drop (start_len plat c') (comps_path c'))"
        using "1.IH" [OF lb [OF np] True p(1) refl _ sl] None p(4) "1.prems" by (auto simp: Let_def)
      ultimately show ?thesis using p(4) None by (intro exI [of _ "min m ?n"]) (simp add: Let_def)
    qed
  qed
qed

lemma body_comps_seg:
  assumes "parse_seg (takeWhile (\<lambda>b. \<not> is_sep_byte plat b) q) \<noteq> None"
  shows "body_comps plat q \<noteq> []"
proof (cases "dropWhile (\<lambda>b. \<not> is_sep_byte plat b) q")
  case Nil
  then have all: "list_all (\<lambda>b. \<not> is_sep_byte plat b) q" by (simp add: dropWhile_eq_Nil_conv list_all_iff)
  then have "takeWhile (\<lambda>b. \<not> is_sep_byte plat b) q = q" by (simp only: takeWhile_eq_all_conv list_all_iff)
  then have "parse_seg q \<noteq> None" using assms by metis
  then show ?thesis using body_comps_first(2) [OF all] by (cases "parse_seg q") simp_all
next
  case (Cons s r)
  then have "q = takeWhile (\<lambda>b. \<not> is_sep_byte plat b) q @ s # r" "is_sep_byte plat s"
    by (metis takeWhile_dropWhile_id) (use Cons in \<open>simp add: dropWhile_eq_Cons_conv\<close>)
  moreover have "list_all (\<lambda>b. \<not> is_sep_byte plat b) (takeWhile (\<lambda>b. \<not> is_sep_byte plat b) q)"
    by (auto simp: list_all_iff dest: set_takeWhileD)
  ultimately show ?thesis using body_comps_first(1) [of plat _ s r] assms by (metis append_is_Nil_conv list.distinct(1) option.case_eq_if)
qed

subsection \<open>\<open>as_path\<close> on Unix\<close>

lemma root_of_Unix: "root_of Unix p \<longleftrightarrow> p \<noteq> [] \<and> p ! 0 = CHR ''/''"
  by (simp add: root_of_def is_sep_byte_def)

lemma leads_cur_dir_cases: "leads_cur_dir plat q \<longleftrightarrow> q = ''.'' \<or> (\<exists>s t. q = CHR ''.'' # s # t \<and> is_sep_byte plat s)"
  by (cases q; cases "tl q") (auto simp: leads_cur_dir_def split: if_splits)

lemma as_path_front:
  assumes "comps_prefix c = None" "comps_front c = S_Body" "comps_back c = S_Body"
  shows "\<exists>q. Components_as_path Unix c = Inr q \<and> path_comps Unix q = body_comps Unix (comps_path c)"
proof -
  obtain q where q: "trim_left Unix c = Inr (c\<lparr>comps_path := q\<rparr>)" "body_comps Unix q = body_comps Unix (comps_path c)"
    "q = [] \<or> parse_seg (takeWhile (\<lambda>b. \<not> is_sep_byte Unix b) q) \<noteq> None"
    using trim_left_ok [OF assms(1,2)] by blast
  let ?d = "c\<lparr>comps_path := q\<rparr>"
  have "comps_inv Unix ?d" "comps_back ?d = S_Body" using assms by (simp_all add: inv_not_early early_def)
  from trim_right_ok [OF this] obtain m where m: "trim_right Unix ?d = Inr (?d\<lparr>comps_path := take m q\<rparr>)"
    "body_comps Unix (take m q) = body_comps Unix q"
    using assms(2) by (auto simp: Let_def start_len_def early_def)
  have hd: "\<not> is_sep_byte Unix a" "\<not> (\<exists>t. is_sep_byte Unix b \<and> q = CHR ''.'' # b # t)" if "q = a # t" for a b t
    using q(3) that by (auto simp: parse_seg_def)
  have "\<not> leads_cur_dir Unix (take m q)"
  proof
    assume "leads_cur_dir Unix (take m q)"
    then consider "take m q = ''.''" | s t where "take m q = CHR ''.'' # s # t" "is_sep_byte Unix s"
      by (auto simp: leads_cur_dir_cases)
    then show False
    proof cases
      case 1
      then have "body_comps Unix q = []" using m(2) body_comps_first(2) [of Unix "''.''"] by (simp add: parse_seg_def)
      moreover have "q \<noteq> []" using 1 by auto
      ultimately show False using q(3) by (simp add: body_comps_seg)
    next
      case 2
      then have "q = CHR ''.'' # s # t @ drop m q" using append_take_drop_id [of m q] by simp
      then show False using hd(2) 2(2) by blast
    qed
  qed
  moreover have "\<not> root_of Unix (take m q)"
    using hd(1) by (cases q; cases m) (auto simp: root_of_Unix is_sep_byte_def)
  ultimately have "path_comps Unix (take m q) = body_comps Unix (take m q)" by (simp add: path_comps_def comps_of_def)
  then show ?thesis using q(1,2) m assms(2,3) by (simp add: Components_as_path_def)
qed

lemma as_path_back:
  assumes "comps_inv Unix c" "early c" "comps_back c = S_Body" "comps_root c = root_of Unix (comps_path c)"
  shows "\<exists>m. Components_as_path Unix c = Inr (take m (comps_path c)) \<and> path_comps Unix (take m (comps_path c)) = remaining Unix c"
proof -
  from trim_right_ok [OF assms(1,3)] obtain m where m: "trim_right Unix c = Inr (c\<lparr>comps_path := take m (comps_path c)\<rparr>)"
    "comps_inv Unix (c\<lparr>comps_path := take m (comps_path c)\<rparr>)"
    "start_comps Unix (c\<lparr>comps_path := take m (comps_path c)\<rparr>) = start_comps Unix c"
    "body_comps Unix (drop (start_len Unix (c\<lparr>comps_path := take m (comps_path c)\<rparr>)) (take m (comps_path c))) =
     body_comps Unix (drop (start_len Unix c) (comps_path c))"
    by (auto simp: Let_def)
  have "root_of Unix (take m (comps_path c)) = comps_root c"
    using m(2) assms(2-4) by (auto simp: root_of_Unix comps_inv_def early_def)
  then have "path_comps Unix (take m (comps_path c)) = remaining Unix c"
    using m(3,4) assms(2,3)
    by (auto simp: path_comps_def comps_of_def remaining_def finished_def start_comps_def start_len_def early_def split: if_splits)
  then show ?thesis using m(1) assms(2,3) by (auto simp: Components_as_path_def early_def)
qed

subsection \<open>\<open>push\<close> and \<open>join\<close>\<close>

lemma segs_append: "sep s \<Longrightarrow> segs sep (xs @ s # ys) = segs sep xs @ segs sep ys"
  by (induction xs) (auto split: list.split)

lemma body_comps_append: "is_sep_byte plat s \<Longrightarrow> body_comps plat (xs @ s # ys) = body_comps plat xs @ body_comps plat ys"
  by (simp add: body_comps_def segs_append map_filter_list)

lemma body_comps_kinds: "RootDir \<notin> set (body_comps plat b)" "CurDir \<notin> set (body_comps plat b)"
  by (auto simp: body_comps_def List.map_filter_def parse_seg_def split: if_splits)

lemma path_comps_tl: "RootDir \<notin> set (tl (path_comps plat p))" "CurDir \<notin> set (tl (path_comps plat p))"
proof -
  have "x \<notin> set (tl xs)" if "x \<notin> set xs" for x :: Component and xs
    using that by (cases xs) simp_all
  then show "RootDir \<notin> set (tl (path_comps plat p))" "CurDir \<notin> set (tl (path_comps plat p))"
    by (simp_all add: path_comps_def comps_of_def body_comps_kinds)
qed

lemma path_comps_Nil [simp]: "path_comps plat [] = []"
  by (simp add: path_comps_def comps_of_def leads_cur_dir_def root_of_def)

lemma path_comps_root: "path_comps Unix (CHR ''/'' # q) = RootDir # body_comps Unix q"
  by (simp add: path_comps_def comps_of_def root_of_Unix)

lemma path_comps_append:
  assumes "p \<noteq> []"
  shows "path_comps Unix (p @ CHR ''/'' # q) = path_comps Unix p @ body_comps Unix q"
proof -
  have sep: "is_sep_byte Unix CHR ''/''" by (simp add: is_sep_byte_def)
  have "root_of Unix (p @ CHR ''/'' # q) = root_of Unix p" using assms by (simp add: root_of_Unix nth_append)
  moreover have "leads_cur_dir Unix (p @ CHR ''/'' # q) = leads_cur_dir Unix p" by (rule leads_cur_dir_cut [OF sep])
  moreover have "drop 1 (p @ CHR ''/'' # q) = drop 1 p @ CHR ''/'' # q" using assms by (cases p) simp_all
  ultimately show ?thesis by (simp only: path_comps_def comps_of_def body_comps_append [OF sep]) simp
qed

lemma path_comps_relative:
  "\<not> root_of Unix q \<Longrightarrow> body_comps Unix q = filter (\<lambda>c. c \<noteq> CurDir) (path_comps Unix q)"
proof -
  assume r: "\<not> root_of Unix q"
  have keep: "filter (\<lambda>c. c \<noteq> CurDir) (body_comps Unix b) = body_comps Unix b" for b
    by (rule filter_True) (use body_comps_kinds(2) in auto)
  show ?thesis
  proof (cases "leads_cur_dir Unix q")
    case True
    then consider "q = ''.''" | s t where "q = CHR ''.'' # s # t" "is_sep_byte Unix s" by (auto simp: leads_cur_dir_cases)
    then have "body_comps Unix q = body_comps Unix (drop 1 q)"
    proof cases
      case 1
      then show ?thesis using body_comps_first(2) [of Unix "''.''"] by (simp add: parse_seg_def)
    next
      case 2
      then show ?thesis
        using body_comps_first(1) [of Unix "''.''" s t] body_comps_append [of Unix s "[]" t] by (simp add: parse_seg_def)
    qed
    then show ?thesis using True r keep by (simp add: path_comps_def comps_of_def)
  next
    case False
    then show ?thesis using r keep by (simp add: path_comps_def comps_of_def)
  qed
qed

lemma push_bytes:
  "PathBuf_push Unix p q =
     Inr (if root_of Unix q then q else if p \<noteq> [] \<and> last p \<noteq> CHR ''/'' then p @ ''/'' @ q else p @ q)"
  by (simp add: PathBuf_push_def Path_components_start Path_is_absolute_def Path_has_root_def Path_prefix_def
    Components_has_root_def start_of_def prefix_len_def prefix_remaining_def OsString_push_def MAIN_SEP_STR_def
    is_sep_byte_def Let_def)

lemma push_comps:
  "path_comps Unix (if p \<noteq> [] \<and> last p \<noteq> CHR ''/'' then p @ ''/'' @ q else p @ q) =
     (if p = [] then path_comps Unix q else path_comps Unix p @ body_comps Unix q)"
proof (cases "p \<noteq> [] \<and> last p = CHR ''/''")
  case True
  then obtain b where p: "p = b @ ''/''" by (metis append_butlast_last_id)
  show ?thesis
  proof (cases "b = []")
    case True
    then show ?thesis using path_comps_root [of q] path_comps_root [of "[]"] p by simp
  next
    case False
    then show ?thesis using path_comps_append [of b q] path_comps_append [of b "[]"] p by simp
  qed
next
  case False
  then show ?thesis using path_comps_append [of p q] by auto
qed

lemma push_result:
  "\<exists>r. PathBuf_push Unix p q = Inr r \<and> (root_of Unix q \<longrightarrow> r = q) \<and>
     path_comps Unix r = (if root_of Unix q \<or> p = [] then path_comps Unix q else path_comps Unix p @ body_comps Unix q)"
proof (cases "root_of Unix q")
  case True
  then show ?thesis by (simp add: push_bytes)
next
  case False
  then show ?thesis unfolding push_bytes using push_comps [of p q] by (intro exI conjI) (rule refl, simp, simp)
qed

lemma path_comps_eq_Nil [simp]: "path_comps Unix p = [] \<longleftrightarrow> p = []"
proof
  assume nil: "path_comps Unix p = []"
  then have p: "\<not> root_of Unix p" "\<not> leads_cur_dir Unix p" "body_comps Unix p = []"
    by (auto simp: path_comps_def comps_of_def split: if_splits)
  show "p = []"
  proof (rule ccontr)
    assume "p \<noteq> []"
    then have "takeWhile (\<lambda>b. \<not> is_sep_byte Unix b) p \<noteq> []" using p(1)
      by (cases p) (simp_all add: root_of_Unix is_sep_byte_def)
    then show False using p(2,3) body_comps_seg [of Unix p] by (simp add: parse_seg_def leads_cur_dir_def)
  qed
qed simp

text \<open>C23: On Unix, \<open>PathBuf::push\<close> (and so \<open>Path::join\<close>) returns for all paths. An argument with a root replaces the path. Otherwise, when the
  path is empty, the result has the components of the argument, a leading \<open>.\<close> included; and when it is not empty, the
  components of the path followed by those of the argument without a leading \<open>.\<close>.\<close>

theorem PathBuf_push_components:
  "\<exists>r. PathBuf_push Unix p q = Inr r \<and>
     (root_of Unix q \<longrightarrow> r = q) \<and>
     path_comps Unix r =
       (if root_of Unix q \<or> p = [] then path_comps Unix q
        else path_comps Unix p @ filter (\<lambda>c. c \<noteq> CurDir) (path_comps Unix q))"
  using push_result [of p q] path_comps_relative [of q] by auto

lemma PathBuf_push_components_witness:
  "\<exists>r. PathBuf_push Unix ''/usr/'' ''./lib'' = Inr r \<and> path_comps Unix r = [RootDir, Normal ''usr'', Normal ''lib''] \<and>
     PathBuf_push Unix ''/usr'' ''/bin'' = Inr ''/bin''"
proof -
  have "path_comps Unix ''/usr/'' = [RootDir, Normal ''usr'']" "path_comps Unix ''./lib'' = [CurDir, Normal ''lib'']"
    "\<not> root_of Unix ''./lib''" "root_of Unix ''/bin''" by code_simp+
  then show ?thesis using PathBuf_push_components [of "''/usr/''" "''./lib''"] PathBuf_push_components [of "''/usr''" "''/bin''"]
    by auto
qed

subsection \<open>\<open>strip_prefix\<close>\<close>

lemma as_path_forward:
  assumes "fwd_inv Unix c"
  shows "\<exists>q. Components_as_path Unix c = Inr q \<and> path_comps Unix q = remaining Unix c"
proof (cases "comps_front c")
  case S_Body
  then show ?thesis using as_path_front [of c] assms remaining_body [of c Unix]
    by (simp add: fwd_inv_def comps_inv_def)
next
  case S_Done
  then have "comps_path c = []" "comps_inv Unix c" "comps_back c = S_Body" using assms by (simp_all add: fwd_inv_def)
  from trim_right_ok [OF this(2,3)] this(1) show ?thesis
    using S_Done by (auto simp: Components_as_path_def remaining_def finished_def Let_def)
next
  case S_Prefix
  then show ?thesis using as_path_back [of c] assms by (auto simp: fwd_inv_def early_def)
next
  case S_StartDir
  then show ?thesis using as_path_back [of c] assms by (auto simp: fwd_inv_def early_def)
qed

text \<open>C22: On Unix, \<open>Path::strip_prefix\<close> returns on every pair of paths: the error \<open>StripPrefixError\<close> exactly when the components of the base are not a
  prefix of those of the path, and otherwise the rest, which \<open>Path::join\<close> puts back after the base to give the components of the path.\<close>

theorem Path_strip_prefix_join:
  "if prefix (path_comps Unix b) (path_comps Unix p)
   then \<exists>q r. Path_strip_prefix Unix p b = ret (Inr q) \<and> path_comps Unix p = path_comps Unix b @ path_comps Unix q \<and>
      Path_join Unix b q = Inr r \<and> path_comps Unix r = path_comps Unix p
   else Path_strip_prefix Unix p b = ret (Inl StripPrefixError)"
proof (cases rule: iter_after_front [of Unix p b])
  case (some c)
  obtain q where q: "Components_as_path Unix c = Inr q" "path_comps Unix q = remaining Unix c"
    using as_path_forward [OF some(2)] by blast
  obtain r where r: "PathBuf_push Unix b q = Inr r"
    "path_comps Unix r = (if root_of Unix q \<or> b = [] then path_comps Unix q else path_comps Unix b @ body_comps Unix q)"
    using push_result [of b q] by blast
  have "path_comps Unix r = path_comps Unix p"
  proof (cases "path_comps Unix b = []")
    case True
    then show ?thesis using r(2) some(3) q(2) by simp
  next
    case False
    then have "set (path_comps Unix q) \<subseteq> set (tl (path_comps Unix p))" using some(3) q(2) by simp
    then have k: "RootDir \<notin> set (path_comps Unix q)" "CurDir \<notin> set (path_comps Unix q)"
      using path_comps_tl [of Unix p] by auto
    have "\<not> root_of Unix q" using k(1) by (auto simp: path_comps_def comps_of_def)
    moreover have "body_comps Unix q = path_comps Unix q"
      using path_comps_relative [OF calculation] k(2) filter_True [of "path_comps Unix q" "\<lambda>c. c \<noteq> CurDir"] by metis
    ultimately show ?thesis using r(2) some(3) q(2) False by auto
  qed
  then show ?thesis using some q r(1)
    by (simp add: Path_strip_prefix_def Path_components_start liftO_def Path_join_def prefix_def)
next
  case none
  then show ?thesis by (simp add: Path_strip_prefix_def Path_components_start liftO_def)
qed


subsection \<open>\<open>file_name\<close>, \<open>parent\<close> and \<open>pop\<close>\<close>

lemma next_back_start:
  obtains (none) c where "Components_next_back plat (start_of plat p) = Inr (None, c)" "path_comps plat p = []"
  | (some) x c where "Components_next_back plat (start_of plat p) = Inr (Some x, c)" "comps_inv plat c"
    "path_comps plat p = remaining plat c @ [x]"
proof (cases rule: bw.nxt_cases [OF inv_start [of plat p]])
  case (1 c)
  then show ?thesis using that(1) by (simp add: remaining_start)
next
  case some: (2 x c)
  then have "path_comps plat p = remaining plat c @ [x]" by (simp add: remaining_start)
  then show ?thesis using that(2) some by blast
qed

lemma Path_file_name_comps:
  assumes "plain_path plat p"
  shows "Path_file_name plat p =
    Inr (if path_comps plat p = [] then None else case last (path_comps plat p) of Normal f \<Rightarrow> Some f | _ \<Rightarrow> None)"
  by (cases rule: next_back_start [of plat p])
    (simp_all add: Path_file_name_def Path_components_start [OF assms] split: Component.split)

lemma next_back_shape:
  "Components_next_back plat c = Inr (x, c') \<Longrightarrow> comps_inv plat c \<Longrightarrow> comps_front c = S_Prefix \<Longrightarrow>
   comps_back c \<in> {S_Body, S_StartDir} \<Longrightarrow>
   comps_front c' = S_Prefix \<and> comps_root c' = comps_root c \<and> (\<exists>m. comps_path c' = take m (comps_path c)) \<and>
   (x \<noteq> None \<longrightarrow> comps_back c' = S_Body \<or> comps_path c' = [] \<and> comps_back c' = S_Prefix)"
proof (induction plat c arbitrary: x c' rule: Components_next_back.induct)
  case (1 plat c)
  have nf: "\<not> finished c" using "1.prems"(3,4) by (auto simp: finished_def)
  have np: "comps_prefix c = None" using "1.prems"(2) by (simp add: comps_inv_def)
  have lb: "len_before_body plat c = Inr (start_len plat c)" by (rule len_before_body_no_prefix [OF np])
  note step = "1.prems"(1) [unfolded Components_next_back.simps [of plat c]]
  from "1.prems"(4) consider (body) "comps_back c = S_Body" | (start) "comps_back c = S_StartDir" by auto
  then show ?case
  proof cases
    case body
    show ?thesis
    proof (cases "start_len plat c < length (comps_path c)")
      case True
      then obtain n k where p: "parse_next_component_back plat c = Inr (n, k)"
        "comps_inv plat (c\<lparr>comps_path := take (length (comps_path c) - n) (comps_path c)\<rparr>)"
        by (rule parse_next_component_back_ok [OF "1.prems"(2) body]) (simp add: Let_def)
      have sl: "slice_to (comps_path c) (length (comps_path c) - n) = Inr (take (length (comps_path c) - n) (comps_path c))"
        by (simp add: slice_to_def)
      show ?thesis
        using "1.IH"(3) [OF nf body lb True p(1) refl sl refl, of x c'] step nf body True p lb sl "1.prems"(3)
        by (cases k) (auto simp: Let_def)
    next
      case False
      let ?d = "c\<lparr>comps_back := S_StartDir\<rparr>"
      have "length (comps_path c) = start_len plat c" using False start_len_le [OF "1.prems"(2)] body by simp
      then have "comps_inv plat ?d" using "1.prems"(2) body by (simp add: comps_inv_def early_def start_len_def)
      then show ?thesis using "1.IH"(4) [OF nf body lb False, of x c'] step nf body False lb "1.prems"(3) by simp
    qed
  next
    case start
    let ?d = "c\<lparr>comps_back := S_Prefix\<rparr>"
    have icd: "include_cur_dir plat ?d = Inr (\<not> comps_root c \<and> leads_cur_dir plat (comps_path c))"
      using include_cur_dir_no_prefix [of ?d] np by simp
    have e: "early c" using "1.prems"(3) by (simp add: early_def)
    then have "length (comps_path c) \<le> 1" using "1.prems"(2) start by (auto simp: comps_inv_def start_len_def)
    then have b: "butlast (comps_path c) = []" by (cases "comps_path c") simp_all
    have "Components_next_back plat ?d = Inr (None, c\<lparr>comps_back := S_Done\<rparr>)"
      using "1.prems"(3) np by (subst Components_next_back.simps) (simp add: no_prefix_simps finished_def)
    then show ?thesis using step nf start np icd b "1.prems"(3)
      by (auto simp: Let_def bindR_eq_Inr split: if_splits intro: exI [of _ 0] exI [of _ "length (comps_path c)"])
  qed
qed


lemma parent_cases:
  obtains (none) "Path_parent Unix p = Inr None" "path_comps Unix p = [] \<or> last (path_comps Unix p) = RootDir"
  | (some) m x where "Path_parent Unix p = Inr (Some (take m p))" "path_comps Unix p = path_comps Unix (take m p) @ [x]"
    "x \<noteq> RootDir"
proof (cases rule: next_back_start [of Unix p])
  case none
  then show ?thesis using that(1) by (simp add: Path_parent_def Path_components_start)
next
  case 2: (some x c)
  obtain m where sh: "comps_front c = S_Prefix" "comps_root c = root_of Unix p" "comps_path c = take m p"
    "comps_back c = S_Body \<or> comps_path c = [] \<and> comps_back c = S_Prefix"
    using next_back_shape [OF 2(1) inv_start] by (auto simp: start_of_def)
  show ?thesis
  proof (cases "x = RootDir")
    case True
    then show ?thesis using that(1) 2 by (simp add: Path_parent_def Path_components_start)
  next
    case False
    have "\<exists>m. Components_as_path Unix c = Inr (take m p) \<and> path_comps Unix (take m p) = remaining Unix c"
    proof (cases "comps_back c = S_Body")
      case True
      have "comps_root c = root_of Unix (take m p)"
        using 2(2) sh True by (auto simp: comps_inv_def early_def root_of_Unix)
      then show ?thesis using as_path_back [OF 2(2) _ True] sh by (auto simp: early_def)
    next
      case False
      then show ?thesis using sh by (auto simp: Components_as_path_def remaining_def intro: exI [of _ 0])
    qed
    then obtain m where m: "Components_as_path Unix c = Inr (take m p)" "path_comps Unix (take m p) = remaining Unix c" by blast
    have "x \<noteq> PrefixComp q" for q using path_comps_plain [of q Unix p] 2(3) by auto
    then have "Path_parent Unix p = Inr (Some (take m p))" using 2(1) m(1) False
      by (cases x) (auto simp: Path_parent_def Path_components_start)
    then show ?thesis using that(2) m(2) 2(3) False by simp
  qed
qed


subsection \<open>File stems and extensions\<close>

lemma rposition_app: "\<not> p x \<Longrightarrow> rposition p (xs @ [x]) = rposition p xs"
  by (induction xs) (auto split: option.split)

lemma rposition_last: "list_all (\<lambda>x. \<not> p x) ys \<Longrightarrow> p s \<Longrightarrow> rposition p (xs @ s # ys) = Some (length xs)"
proof (induction xs)
  case Nil
  then have "rposition p ys = None" by (simp add: rposition_None list_all_iff)
  then show ?case using Nil by simp
next
  case (Cons x xs)
  then show ?case by simp
qed

lemma split_file_at_dot_ext:
  assumes "stem \<noteq> []" "CHR ''.'' \<notin> set ext" "ext \<noteq> []"
  shows "split_file_at_dot (stem @ CHR ''.'' # ext) = (Some stem, Some ext)"
proof -
  have "list_all (\<lambda>b. b \<noteq> CHR ''.'') ext" using assms(2) by (auto simp: list_all_iff)
  then have "rposition (\<lambda>b. b = CHR ''.'') (stem @ CHR ''.'' # ext) = Some (length stem)"
    by (intro rposition_last) simp_all
  moreover have "stem @ CHR ''.'' # ext \<noteq> ''..''" using assms by (cases stem; cases "tl stem"; cases ext) auto
  ultimately show ?thesis using assms(1) by (simp add: split_file_at_dot_def)
qed

text \<open>The stem of a file name, as \<open>Path::file_stem\<close> returns it.\<close>

definition stem_of :: "OsStr \<Rightarrow> OsStr" where
  "stem_of f = (case split_file_at_dot f of (Some before, _) \<Rightarrow> before | (None, Some after) \<Rightarrow> after | _ \<Rightarrow> [])"

lemma stem_of_cases:
  assumes "f \<noteq> []"
  shows "stem_of f \<noteq> [] \<and> set (stem_of f) \<subseteq> set f \<and>
    (let (before, after) = split_file_at_dot f in (if before \<noteq> None then before else after) = Some (stem_of f))"
proof (cases "f = ''..''")
  case True
  then show ?thesis by (simp add: stem_of_def split_file_at_dot_def)
next
  case False
  show ?thesis
  proof (cases "rposition (\<lambda>b. b = CHR ''.'') f")
    case None
    then show ?thesis using False assms by (simp add: stem_of_def split_file_at_dot_def)
  next
    case (Some i)
    then show ?thesis using False assms
      by (cases "take i f = []") (auto simp: stem_of_def split_file_at_dot_def dest: in_set_takeD)
  qed
qed

lemma file_stem_extension:
  assumes "path_comps Unix p = cs @ [Normal f]"
  shows "Path_file_name Unix p = Inr (Some f)" "f \<noteq> [] \<Longrightarrow> Path_file_stem Unix p = Inr (Some (stem_of f))"
    "Path_extension Unix p = Inr (case split_file_at_dot f of (None, _) \<Rightarrow> None | (_, after) \<Rightarrow> after)"
proof -
  show fn: "Path_file_name Unix p = Inr (Some f)" using Path_file_name_comps [of Unix p] assms by simp
  show "f \<noteq> [] \<Longrightarrow> Path_file_stem Unix p = Inr (Some (stem_of f))"
    using stem_of_cases [of f] fn by (auto simp: Path_file_stem_def Let_def split: prod.splits)
  show "Path_extension Unix p = Inr (case split_file_at_dot f of (None, _) \<Rightarrow> None | (_, after) \<Rightarrow> after)"
    using fn by (auto simp: Path_extension_def split: prod.splits option.splits)
qed

lemma Normal_seg:
  assumes "Normal f \<in> set (path_comps Unix p)"
  shows "f \<noteq> [] \<and> CHR ''/'' \<notin> set f \<and> f \<noteq> ''.'' \<and> f \<noteq> ''..''"
proof -
  have s: "\<forall>c \<in> set (segs sep b). \<forall>x \<in> set c. \<not> sep x" for sep :: "char \<Rightarrow> bool" and b
    by (induction b) (auto split: list.splits)
  have b: "f \<noteq> [] \<and> CHR ''/'' \<notin> set f \<and> f \<noteq> ''.'' \<and> f \<noteq> ''..''" if "Normal f \<in> set (body_comps Unix b)" for b
  proof -
    obtain c where c: "c \<in> set (segs (is_sep_byte Unix) b)" "parse_seg c = Some (Normal f)"
      using \<open>Normal f \<in> set (body_comps Unix b)\<close> by (auto simp: body_comps_def List.map_filter_def)
    then have "c = f" "f \<noteq> []" "f \<noteq> ''.''" "f \<noteq> ''..''" by (auto simp: parse_seg_def split: if_splits)
    moreover have "CHR ''/'' \<notin> set c" using bspec [OF s c(1)] by (auto simp: is_sep_byte_def)
    ultimately show ?thesis by simp
  qed
  show ?thesis using assms b [of p] b [of "drop 1 p"]
    by (simp add: path_comps_def comps_of_def split: if_splits)
qed

lemma path_comps_name:
  assumes "f \<noteq> []" "CHR ''/'' \<notin> set f" "f \<noteq> ''.''" "f \<noteq> ''..''"
  shows "body_comps Unix f = [Normal f]" "\<not> root_of Unix f" "path_comps Unix f = [Normal f]"
proof -
  have "list_all (\<lambda>b. \<not> is_sep_byte Unix b) f" using assms(2) by (auto simp: list_all_iff is_sep_byte_def)
  from body_comps_first(2) [OF this] show b: "body_comps Unix f = [Normal f]" using assms by (simp add: parse_seg_def)
  show r: "\<not> root_of Unix f" using assms(2) by (cases f) (auto simp: root_of_Unix)
  have "\<not> leads_cur_dir Unix f" using assms(2,3) by (auto simp: leads_cur_dir_cases is_sep_byte_def)
  then show "path_comps Unix f = [Normal f]" using b r by (simp add: path_comps_def comps_of_def)
qed

lemma set_file_name_comps:
  assumes "path_comps Unix p = cs @ [Normal f]" "g \<noteq> []" "CHR ''/'' \<notin> set g" "g \<noteq> ''.''" "g \<noteq> ''..''"
  shows "\<exists>q. PathBuf_set_file_name Unix p g = Inr q \<and> path_comps Unix q = cs @ [Normal g]"
proof (cases rule: parent_cases [of p])
  case none
  then show ?thesis using assms(1) by simp
next
  case (some m x)
  have "PathBuf_pop Unix p = Inr (True, take m p)"
    using some(1) by (simp add: PathBuf_pop_def min_def)
  moreover have "path_comps Unix (take m p) = cs" using some(2) assms(1) by simp
  moreover note file_stem_extension(1) [OF assms(1)] path_comps_name [OF assms(2-5)] push_result [of "take m p" g]
  ultimately show ?thesis by (auto simp: PathBuf_set_file_name_def)
qed

text \<open>C25: On Unix, for a path that has a file name, \<open>PathBuf::set_extension\<close> with a non-empty extension that has neither a dot nor a separator keeps the directory
  and the stem of the file name, whatever extension it had before, and \<open>Path::extension\<close> and \<open>Path::file_stem\<close> read the new extension and the old stem back.\<close>

theorem PathBuf_set_extension_roundtrip:
  assumes "path_comps Unix p = cs @ [Normal f]" "ext \<noteq> []" "CHR ''.'' \<notin> set ext" "CHR ''/'' \<notin> set ext"
  shows "\<exists>stem q. Path_file_stem Unix p = Inr (Some stem) \<and> PathBuf_set_extension Unix p ext = Inr (True, q) \<and>
    path_comps Unix q = cs @ [Normal (stem @ ''.'' @ ext)] \<and>
    Path_extension Unix q = Inr (Some ext) \<and> Path_file_stem Unix q = Inr (Some stem)"
proof -
  let ?g = "stem_of f @ ''.'' @ ext"
  have f: "f \<noteq> []" "CHR ''/'' \<notin> set f" using Normal_seg [of f p] assms(1) by simp_all
  note st = stem_of_cases [OF f(1)]
  have sp: "split_file_at_dot ?g = (Some (stem_of f), Some ext)" using split_file_at_dot_ext [OF _ assms(3,2)] st by simp
  have "?g \<noteq> []" "CHR ''/'' \<notin> set ?g" "?g \<noteq> ''.''" "?g \<noteq> ''..''"
    using st f(2) assms(2,4) by (cases "stem_of f"; cases "tl (stem_of f)"; cases ext; auto)+
  from set_file_name_comps [OF assms(1) this] obtain q where q: "PathBuf_set_file_name Unix p ?g = Inr q"
    "path_comps Unix q = cs @ [Normal ?g]" by blast
  have "PathBuf_set_extension Unix p ext = Inr (True, q)"
    using q(1) file_stem_extension [OF assms(1)] f(1) assms(2) by (simp add: PathBuf_set_extension_def OsString_push_def)
  moreover have "Path_file_stem Unix q = Inr (Some (stem_of f))" "Path_extension Unix q = Inr (Some ext)"
    using file_stem_extension(2,3) [OF q(2)] sp by (simp_all add: stem_of_def [of "stem_of f @ _"])
  ultimately show ?thesis using q(2) file_stem_extension(2) [OF assms(1)] f(1) by blast
qed

lemma PathBuf_set_extension_roundtrip_witness:
  "\<exists>stem q. Path_file_stem Unix ''/a/b.tar.gz'' = Inr (Some stem) \<and> PathBuf_set_extension Unix ''/a/b.tar.gz'' ''xz'' = Inr (True, q) \<and>
    path_comps Unix q = [RootDir, Normal ''a'', Normal (stem @ ''.xz'')] \<and>
    Path_extension Unix q = Inr (Some ''xz'')"
proof -
  have "path_comps Unix ''/a/b.tar.gz'' = [RootDir, Normal ''a''] @ [Normal ''b.tar.gz'']" by code_simp
  from PathBuf_set_extension_roundtrip [OF this, of "''xz''"] show ?thesis by auto
qed

subsection \<open>Windows prefixes\<close>

lemma position_le: "position p xs = Some i \<Longrightarrow> i < length xs"
  by (simp add: position_Some)

lemma parse_two_comps_len:
  "parse_two_comps path f = Some (a, b) \<Longrightarrow> length a + (if b \<noteq> [] then 1 + length b else 0) \<le> length path"
  by (auto simp: parse_two_comps_def Let_def dest!: position_le split: option.splits)

lemma parse_prefix_len: "parse_prefix plat p = Some q \<Longrightarrow> Prefix_len q \<le> length p"
proof -
  assume a: "parse_prefix plat p = Some q"
  have st: "starts_with xs pre \<Longrightarrow> length pre \<le> length xs" for xs pre :: OsStr
    by (metis length_take min.absorb_iff2 min.commute starts_with_def)
  show ?thesis using a
    by (auto simp: parse_prefix_def parse_prefix_windows_def Let_def dest!: st parse_two_comps_len position_le
      split: platform.splits if_splits option.splits)
qed

text \<open>C26: On every platform and for every path, \<open>parse_prefix\<close> finds a prefix that lies within the path, so that
  \<open>Path::components\<close> does not slice out of bounds, and with it \<open>has_root\<close> and \<open>is_absolute\<close> return.\<close>

theorem Path_components_total:
  "\<exists>c a. Path_components plat p = Inr c \<and> prefix_len c \<le> length (comps_path c) \<and> comps_path c = p \<and>
     Path_is_absolute plat p = Inr a \<and> Path_has_root plat p = Inr (Components_has_root c)"
proof -
  obtain c where "Path_components plat p = Inr c" "prefix_len c \<le> length (comps_path c)" "comps_path c = p"
    using parse_prefix_len [of plat p]
    by (cases "parse_prefix plat p") (auto simp: Path_components_def has_physical_root_def slice_from_def prefix_len_def Let_def)
  then show ?thesis by (simp add: Path_is_absolute_def Path_has_root_def Path_prefix_def)
qed

subsection \<open>Corner cases\<close>

text \<open>
  Four inputs on which the code does not do what its documentation says. On a drive-relative Windows path, \<open>include_cur_dir\<close> skips
  the prefix even when \<open>next\<close> has already taken it off the path, and \<open>next_back\<close> then slices out of bounds. On \<open>C:.\<close>
  the prefix that \<open>next_back\<close> yields holds the whole rest of the path. On Redox a scheme counts as a root, so the
  iterator yields \<open>RootDir\<close> for the first byte of the scheme's name. Clearing the extension of a file named \<open>..a\<close> leaves the name \<open>.\<close>, which
  is no component.
\<close>

lemma Windows_drive_relative_panics:
  "bindR (Path_components Windows ''C:a'') (run_ends Windows [Front, Back]) = Inl (Panic ''slice index starts past the end'')"
  by code_simp

lemma Windows_drive_dot_prefix:
  "bindR (Path_components Windows ''C:.'') (run_ends Windows [Front]) =
     Inr [Some (PrefixComp \<lparr>prefix_raw = ''C:'', prefix_parsed = Disk CHR ''C''\<rparr>)]"
  "bindR (Path_components Windows ''C:.'') (run_ends Windows [Back]) =
     Inr [Some (PrefixComp \<lparr>prefix_raw = ''C:.'', prefix_parsed = Disk CHR ''C''\<rparr>)]"
  by code_simp+

lemma Redox_scheme_components:
  "bindR (Path_components Redox ''file:/foo'') (run_ends Redox [Front, Front, Front]) =
     Inr [Some RootDir, Some (Normal ''ile:''), Some (Normal ''foo'')]"
  by code_simp

lemma set_extension_empty_dot:
  "PathBuf_set_extension Unix ''x/..a'' [] = Inr (True, ''x/.'') \<and> Path_file_name Unix ''x/.'' = Inr (Some ''x'')"
  by code_simp

end
