(* ===== verification/Path_Ord.thy ===== *)
theory Path_Ord
  imports Path_Spec "HOL-Library.Char_ord" "HOL-Library.Product_Lexorder" "HOL-Library.List_Lexorder"
begin

section \<open>\<open>path.rs\<close>: comparing and rebuilding paths\<close>

text \<open>
  Two paths compare by their components. The orders of \<open>Prefix\<close> and \<open>Component\<close> are the derived ones: first the position of the variant, then
  the fields from the left; the order of a \<open>PrefixComponent\<close> is that of what was parsed. Both are the order of a key in a linear order, so paths are
  totally ordered by the lists of keys.
\<close>

primrec Prefix_variant :: "Prefix \<Rightarrow> nat" where
  "Prefix_variant (Verbatim _) = 0"
| "Prefix_variant (VerbatimUNC _ _) = 1"
| "Prefix_variant (VerbatimDisk _) = 2"
| "Prefix_variant (DeviceNS _) = 3"
| "Prefix_variant (UNC _ _) = 4"
| "Prefix_variant (Disk _) = 5"

fun Prefix_cmp :: "Prefix \<Rightarrow> Prefix \<Rightarrow> Ordering" where
  "Prefix_cmp (Verbatim a) (Verbatim b) = cmp_list a b"
| "Prefix_cmp (VerbatimUNC a1 a2) (VerbatimUNC b1 b2) = (case cmp_list a1 b1 of Equal \<Rightarrow> cmp_list a2 b2 | r \<Rightarrow> r)"
| "Prefix_cmp (VerbatimDisk a) (VerbatimDisk b) = cmp_ord a b"
| "Prefix_cmp (DeviceNS a) (DeviceNS b) = cmp_list a b"
| "Prefix_cmp (UNC a1 a2) (UNC b1 b2) = (case cmp_list a1 b1 of Equal \<Rightarrow> cmp_list a2 b2 | r \<Rightarrow> r)"
| "Prefix_cmp (Disk a) (Disk b) = cmp_ord a b"
| "Prefix_cmp a b = cmp_ord (Prefix_variant a) (Prefix_variant b)"

definition PrefixComponent_cmp :: "PrefixComponent \<Rightarrow> PrefixComponent \<Rightarrow> Ordering" where
  "PrefixComponent_cmp self other = Prefix_cmp (prefix_parsed self) (prefix_parsed other)"

primrec Component_variant :: "Component \<Rightarrow> nat" where
  "Component_variant (PrefixComp _) = 0"
| "Component_variant RootDir = 1"
| "Component_variant CurDir = 2"
| "Component_variant ParentDir = 3"
| "Component_variant (Normal _) = 4"

fun Component_cmp :: "Component \<Rightarrow> Component \<Rightarrow> Ordering" where
  "Component_cmp (PrefixComp a) (PrefixComp b) = PrefixComponent_cmp a b"
| "Component_cmp (Normal a) (Normal b) = cmp_list a b"
| "Component_cmp a b = cmp_ord (Component_variant a) (Component_variant b)"

definition Components_eq :: "platform \<Rightarrow> Components \<Rightarrow> Components \<Rightarrow> bool run" where
  "Components_eq plat self other = iter_eq (Components_next plat) (Components_next plat) Component_eq self other"

definition Components_cmp :: "platform \<Rightarrow> Components \<Rightarrow> Components \<Rightarrow> Ordering run" where
  "Components_cmp plat self other = iter_cmp (Components_next plat) (Components_next plat) Component_cmp self other"

definition Path_eq :: "platform \<Rightarrow> OsStr \<Rightarrow> OsStr \<Rightarrow> bool run" where
  "Path_eq plat self other =
     bindO (liftO (Path_components plat self)) (\<lambda>a.
     bindO (liftO (Path_components plat other)) (\<lambda>b. Components_eq plat a b))"

definition Path_cmp :: "platform \<Rightarrow> OsStr \<Rightarrow> OsStr \<Rightarrow> Ordering run" where
  "Path_cmp plat self other =
     bindO (liftO (Path_components plat self)) (\<lambda>a.
     bindO (liftO (Path_components plat other)) (\<lambda>b. Components_cmp plat a b))"

subsection \<open>Keys\<close>

primrec Prefix_key :: "Prefix \<Rightarrow> nat \<times> OsStr \<times> OsStr" where
  "Prefix_key (Verbatim a) = (0, a, [])"
| "Prefix_key (VerbatimUNC a b) = (1, a, b)"
| "Prefix_key (VerbatimDisk a) = (2, [a], [])"
| "Prefix_key (DeviceNS a) = (3, a, [])"
| "Prefix_key (UNC a b) = (4, a, b)"
| "Prefix_key (Disk a) = (5, [a], [])"

definition Component_key :: "Component \<Rightarrow> nat \<times> (nat \<times> OsStr \<times> OsStr) \<times> OsStr" where
  "Component_key c =
     (Component_variant c, case c of PrefixComp p \<Rightarrow> Prefix_key (prefix_parsed p) | _ \<Rightarrow> (0, [], []),
      case c of Normal f \<Rightarrow> f | _ \<Rightarrow> [])"

lemma cmp_list_ord: "cmp_list xs ys = cmp_ord xs ys"
  by (induction xs ys rule: cmp_list.induct) (auto simp: cmp_ord_def split: Ordering.split if_splits)

lemma Prefix_cmp_key: "Prefix_cmp a b = cmp_ord (Prefix_key a) (Prefix_key b)"
  by (cases a; cases b) (auto simp: cmp_list_ord cmp_ord_def less_prod_def less_eq_prod_def split: if_splits)

lemma Component_cmp_key: "Component_cmp a b = cmp_ord (Component_key a) (Component_key b)"
  by (cases a; cases b) (simp_all add: PrefixComponent_cmp_def Prefix_cmp_key cmp_list_ord Component_key_def cmp_ord_def less_prod_def)

lemma Component_eq_key: "Component_eq a b \<longleftrightarrow> Component_key a = Component_key b"
proof -
  have "Prefix_key x = Prefix_key y \<longleftrightarrow> x = y" for x y by (cases x; cases y) auto
  then show ?thesis by (cases a; cases b) (simp_all add: Component_key_def)
qed

lemma Component_key_inj: "inj_on Component_key {c. \<forall>q. c \<noteq> PrefixComp q}"
  by (rule inj_onI) (auto simp: Component_key_def split: Component.splits)

lemma Path_eq_comps:
  assumes "plain_path plat p" "plain_path plat q"
  shows "Path_eq plat p q = ret (path_comps plat p = path_comps plat q)"
  using fwp.iter_eq_items [OF fwd_inv_start fwd_inv_start, of plat Component_eq p q]
  by (simp add: Path_eq_def Components_eq_def Path_components_start assms liftO_def remaining_start list_all2_Component_eq)

text \<open>C27: The equality of components is equality of their keys, and their derived order, that of Windows prefixes included, is the linear order of the
  keys. Equality and comparison of two paths, both with neither a Windows prefix nor a scheme of Redox, return and see the components only: the paths are equal exactly when
  their components are, and they compare as the lists of the keys of their components, in the lexicographic order, which
  gives \<open>Equal\<close> only to equal paths.\<close>

theorem Path_eq_cmp:
  assumes "parse_prefix plat p = None" "\<not> has_redox_scheme plat p" "parse_prefix plat q = None" "\<not> has_redox_scheme plat q"
  shows "(\<forall>a b. Component_eq a b = (Component_key a = Component_key b) \<and>
      Component_cmp a b = cmp_ord (Component_key a) (Component_key b)) \<and>
    Path_eq plat p q = ret (path_comps plat p = path_comps plat q) \<and>
    Path_cmp plat p q = ret (cmp_ord (map Component_key (path_comps plat p)) (map Component_key (path_comps plat q))) \<and>
    (Path_cmp plat p q = ret Equal \<longleftrightarrow> path_comps plat p = path_comps plat q)"
proof (intro conjI allI)
  have plain: "plain_path plat p" "plain_path plat q" using assms by (simp_all add: plain_path_def)
  note start = Path_components_start [OF plain(1)] Path_components_start [OF plain(2)] liftO_def
  show "Component_eq a b = (Component_key a = Component_key b)" "Component_cmp a b = cmp_ord (Component_key a) (Component_key b)" for a b
    by (rule Component_eq_key, rule Component_cmp_key)
  show "Path_eq plat p q = ret (path_comps plat p = path_comps plat q)" by (rule Path_eq_comps [OF plain])
  show cmp: "Path_cmp plat p q = ret (cmp_ord (map Component_key (path_comps plat p)) (map Component_key (path_comps plat q)))"
    using fwp.iter_cmp_items [where cmp = Component_cmp and key = Component_key, OF Component_cmp_key fwd_inv_start fwd_inv_start]
    by (simp add: Path_cmp_def Components_cmp_def start remaining_start cmp_list_ord)
  have "set (path_comps plat r) \<subseteq> {c. \<forall>q. c \<noteq> PrefixComp q}" for r using path_comps_plain by blast
  then have "map Component_key (path_comps plat p) = map Component_key (path_comps plat q) \<longleftrightarrow> path_comps plat p = path_comps plat q"
    using inj_on_map_eq_map [OF inj_on_subset [OF Component_key_inj]] by (metis Un_subset_iff)
  then show "Path_cmp plat p q = ret Equal \<longleftrightarrow> path_comps plat p = path_comps plat q"
    unfolding cmp by (auto simp: cmp_ord_def)
qed

lemma Path_eq_cmp_witness:
  "Path_eq Windows ''a/b'' [CHR ''a'', bsl, CHR ''.'', bsl, CHR ''b'', bsl] = ret True \<and> Path_cmp Unix ''a/b'' ''a'' = ret Greater"
proof -
  have "parse_prefix Windows ''a/b'' = None" "parse_prefix Windows [CHR ''a'', bsl, CHR ''.'', bsl, CHR ''b'', bsl] = None"
    "path_comps Windows ''a/b'' = path_comps Windows [CHR ''a'', bsl, CHR ''.'', bsl, CHR ''b'', bsl]"
    "cmp_ord (map Component_key (path_comps Unix ''a/b'')) (map Component_key (path_comps Unix ''a'')) = Greater"
    by code_simp+
  moreover have "\<not> has_redox_scheme Windows r" "\<not> has_redox_scheme Unix r" for r by (simp_all add: has_redox_scheme_def)
  ultimately show ?thesis using Path_eq_cmp [of Windows "''a/b''" "[CHR ''a'', bsl, CHR ''.'', bsl, CHR ''b'', bsl]"]
      Path_eq_cmp [of Unix "''a/b''" "''a''"] by simp
qed

subsection \<open>Rebuilding a path from its components\<close>

interpretation names: finite_iterator "PathIter_next plat" "comps_inv plat" "\<lambda>c. map (Component_as_os_str plat) (remaining plat c)" for plat
proof unfold_locales
  fix c :: Components
  assume "comps_inv plat c"
  then show "\<exists>x c'. PathIter_next plat c = Inr (x, c') \<and> comps_inv plat c' \<and>
      map (Component_as_os_str plat) (remaining plat c) =
        (case x of None \<Rightarrow> [] | Some k \<Rightarrow> k # map (Component_as_os_str plat) (remaining plat c')) \<and>
      (x = None \<longrightarrow> map (Component_as_os_str plat) (remaining plat c') = [])"
    by (cases rule: fw.nxt_cases) (simp_all add: PathIter_next_def)
qed

lemma path_comps_tail: "path_comps plat p = cs @ c # ds \<Longrightarrow> cs \<noteq> [] \<Longrightarrow> c \<noteq> RootDir \<and> c \<noteq> CurDir"
  using path_comps_tl [of plat p] by (cases cs) auto

lemma extend_names:
  "path_comps Unix p = cs @ ds \<Longrightarrow> path_comps Unix b = cs \<Longrightarrow>
   \<exists>q. PathBuf_extend Unix b (map (Component_as_os_str Unix) ds) = Inr q \<and> path_comps Unix q = cs @ ds"
proof (induction ds arbitrary: cs b)
  case (Cons d ds)
  let ?n = "Component_as_os_str Unix d"
  have "\<exists>r. PathBuf_push Unix b ?n = Inr r \<and> path_comps Unix r = cs @ [d]"
  proof (cases d)
    case (PrefixComp x)
    then show ?thesis using path_comps_plain [of x Unix p] Cons.prems(1) by simp
  next
    case RootDir
    then have "cs = []" using path_comps_tail Cons.prems(1) by blast
    then show ?thesis using RootDir push_result [of b "''/''"] path_comps_root [of "[]"]
      by (auto simp: Component_as_os_str_def MAIN_SEP_STR_def root_of_Unix)
  next
    case CurDir
    then have "b = []" using path_comps_tail Cons.prems by fastforce
    moreover have "path_comps Unix ''.'' = [CurDir]" by code_simp
    ultimately show ?thesis using CurDir push_result [of b "''.''"] Cons.prems(2)
      by (auto simp: Component_as_os_str_def)
  next
    case ParentDir
    have "path_comps Unix ''..'' = [ParentDir]" "body_comps Unix ''..'' = [ParentDir]" "\<not> root_of Unix ''..''" by code_simp+
    then show ?thesis using ParentDir push_result [of b "''..''"] Cons.prems(2)
      by (auto simp: Component_as_os_str_def)
  next
    case (Normal f)
    then have "f \<noteq> [] \<and> CHR ''/'' \<notin> set f \<and> f \<noteq> ''.'' \<and> f \<noteq> ''..''" using Normal_seg [of f p] Cons.prems(1) by simp
    then show ?thesis using Normal push_result [of b f] path_comps_name [of f] Cons.prems(2)
      by (auto simp: Component_as_os_str_def)
  qed
  then obtain r where "PathBuf_push Unix b ?n = Inr r" "path_comps Unix r = cs @ [d]" by blast
  then show ?case using Cons.IH [of "cs @ [d]" r] Cons.prems(1) by auto
qed simp

text \<open>On Unix, iterating over a path with \<open>Path::iter\<close> ends, and collecting the names back into a \<open>PathBuf\<close> gives
  a path with the same components, equal to the first one.\<close>

lemma Path_iter_collect:
  "\<exists>c names q. Path_iter Unix p = Inr c \<and> iter_collect (PathIter_next Unix) c = ret names \<and>
     PathBuf_from_iter Unix names = Inr q \<and> Path_eq Unix q p = ret True"
proof -
  have "Path_iter Unix p = Inr (start_of Unix p)" by (simp add: Path_iter_def Path_components_start)
  moreover have "iter_collect (PathIter_next Unix) (start_of Unix p) = ret (map (Component_as_os_str Unix) (path_comps Unix p))"
    using names.collect_items [OF inv_start] by (simp add: remaining_start)
  moreover obtain q where "PathBuf_from_iter Unix (map (Component_as_os_str Unix) (path_comps Unix p)) = Inr q"
    "path_comps Unix q = path_comps Unix p"
    using extend_names [of p "[]" "path_comps Unix p" "[]"] by (auto simp: PathBuf_from_iter_def)
  moreover have "Path_eq Unix q p = ret (path_comps Unix q = path_comps Unix p)"
    by (simp add: Path_eq_comps)
  ultimately show ?thesis by auto
qed

end
