(* ===== verification/Env_Paths.thy ===== *)
theory Env_Paths
  imports Wtf8_Spec Iterator_Interface Memchr
begin

section \<open>\<open>env\<close>: lists of search paths\<close>

text \<open>
  \<open>split_paths\<close> and \<open>join_paths\<close> of \<open>src/env.rs\<close>, with their platform parts in \<open>src/sys/{unix,redox,windows}/os.rs\<close>: the value of
  \<open>PATH\<close> as a list of paths. On Unix and Redox a path is its bytes and the separator cannot be quoted. On Windows a path is a
  WTF-8 string, read and written as 16-bit units, and double quotes protect a separator. The iterator \<open>slice::Split\<close> of the core
  library is modelled with the code that maps over it. Joining and then splitting gives the paths back.
\<close>

datatype JoinPathsError = JoinPathsError

subsection \<open>Unix and Redox\<close>

record byte_split =
  split_v :: "u8 list"
  split_finished :: bool

definition slice_split :: "u8 list \<Rightarrow> byte_split" where
  "slice_split v = \<lparr>split_v = v, split_finished = False\<rparr>"

definition slice_split_next :: "(u8 \<Rightarrow> bool) \<Rightarrow> byte_split \<Rightarrow> (u8 list option \<times> byte_split) res" where
  "slice_split_next pred self =
     (if split_finished self then Inr (None, self)
      else case position pred (split_v self) of
             None \<Rightarrow> Inr (Some (split_v self), self\<lparr>split_finished := True\<rparr>)
           | Some idx \<Rightarrow>
               bindR (slice_to (split_v self) idx) (\<lambda>r.
               bindR (slice_from (split_v self) (idx + 1)) (\<lambda>v. Inr (Some r, self\<lparr>split_v := v\<rparr>))))"

definition slice_split_size_hint :: "byte_split \<Rightarrow> nat \<times> nat option" where
  "slice_split_size_hint self =
     (if split_finished self then (0, Some 0) else (1, Some (length (split_v self) + 1)))"

abbreviation colon :: u8 where "colon \<equiv> 58"
abbreviation semicolon :: u8 where "semicolon \<equiv> 59"

definition unix_split_paths :: "u8 list \<Rightarrow> byte_split" where
  "unix_split_paths unparsed = slice_split unparsed"

definition unix_SplitPaths_next :: "byte_split \<Rightarrow> (u8 list option \<times> byte_split) res" where
  "unix_SplitPaths_next self = slice_split_next (\<lambda>b. b = colon) self"

definition unix_SplitPaths_size_hint :: "byte_split \<Rightarrow> nat \<times> nat option" where
  "unix_SplitPaths_size_hint self = slice_split_size_hint self"

fun unix_join_loop :: "u8 \<Rightarrow> nat \<Rightarrow> u8 list \<Rightarrow> u8 list list \<Rightarrow> JoinPathsError + u8 list" where
  "unix_join_loop sep i joined [] = Inr joined"
| "unix_join_loop sep i joined (path # paths) =
     (let joined = (if i > 0 then joined @ [sep] else joined) in
      if sep \<in> set path then Inl JoinPathsError
      else unix_join_loop sep (i + 1) (joined @ path) paths)"

definition unix_join_paths :: "u8 list list \<Rightarrow> JoinPathsError + u8 list" where
  "unix_join_paths paths = unix_join_loop colon 0 [] paths"

definition redox_split_paths :: "u8 list \<Rightarrow> byte_split" where
  "redox_split_paths unparsed = slice_split unparsed"

definition redox_SplitPaths_next :: "byte_split \<Rightarrow> (u8 list option \<times> byte_split) res" where
  "redox_SplitPaths_next self = slice_split_next (\<lambda>b. b = semicolon) self"

definition redox_join_paths :: "u8 list list \<Rightarrow> JoinPathsError + u8 list" where
  "redox_join_paths paths = unix_join_loop semicolon 0 [] paths"

definition unix_JoinPathsError_fmt :: "JoinPathsError \<Rightarrow> string" where
  "unix_JoinPathsError_fmt self = ''path segment contains separator `:`''"

definition redox_JoinPathsError_fmt :: "JoinPathsError \<Rightarrow> string" where
  "redox_JoinPathsError_fmt self = ''path segment contains separator `:`''"

subsection \<open>Windows\<close>

record win_split =
  sp_data :: EncodeWide
  sp_must_yield :: bool

definition win_split_paths :: "Wtf8 \<Rightarrow> win_split" where
  "win_split_paths unparsed = \<lparr>sp_data = encode_wide unparsed, sp_must_yield = True\<rparr>"

text \<open>The loop over the units; the second result tells whether it has stopped at a separator.\<close>

function win_split_loop :: "EncodeWide \<Rightarrow> bool \<Rightarrow> u16 list \<Rightarrow> u16 list \<times> bool \<times> EncodeWide" where
  "win_split_loop data in_quote in_progress =
     (case EncodeWide_next data of
        None \<Rightarrow> (in_progress, False, data)
      | Some (b, data) \<Rightarrow>
          if b = 34 then win_split_loop data (\<not> in_quote) in_progress
          else if b = 59 \<and> \<not> in_quote then (in_progress, True, data)
          else win_split_loop data in_quote (in_progress @ [b]))"
  by pat_completeness auto
termination by (relation "measure (\<lambda>(d, _, _). wide_left d)") (auto dest: EncodeWide_next_measure)

declare win_split_loop.simps [simp del]

definition win_SplitPaths_next :: "win_split \<Rightarrow> (Wtf8 option \<times> win_split) res" where
  "win_SplitPaths_next self =
     (let must = sp_must_yield self in
      case win_split_loop (sp_data self) False [] of (in_progress, sep, d) \<Rightarrow>
        let self = \<lparr>sp_data = d, sp_must_yield = sep\<rparr> in
        if \<not> must \<and> in_progress = [] then Inr (None, self) else Inr (Some (from_wide in_progress), self))"

fun win_join_loop :: "nat \<Rightarrow> u16 list \<Rightarrow> Wtf8 list \<Rightarrow> JoinPathsError + u16 list" where
  "win_join_loop i joined [] = Inr joined"
| "win_join_loop i joined (path # paths) =
     (let joined = (if i > 0 then joined @ [59] else joined);
          v = EncodeWide_collect (encode_wide path)
      in if 34 \<in> set v then Inl JoinPathsError
         else if 59 \<in> set v then win_join_loop (i + 1) (joined @ [34] @ v @ [34]) paths
         else win_join_loop (i + 1) (joined @ v) paths)"

definition win_join_paths :: "Wtf8 list \<Rightarrow> JoinPathsError + Wtf8" where
  "win_join_paths paths = map_sum id from_wide (win_join_loop 0 [] paths)"

definition win_JoinPathsError_fmt :: "JoinPathsError \<Rightarrow> string" where
  "win_JoinPathsError_fmt self = ''path segment contains `\"`''"

subsection \<open>What the iterators yield\<close>

fun split_at :: "('a \<Rightarrow> bool) \<Rightarrow> 'a list \<Rightarrow> 'a list list" where
  "split_at p [] = [[]]"
| "split_at p (x # xs) = (if p x then [] # split_at p xs else (x # hd (split_at p xs)) # tl (split_at p xs))"

definition slice_split_items :: "(u8 \<Rightarrow> bool) \<Rightarrow> byte_split \<Rightarrow> u8 list list" where
  "slice_split_items p self = (if split_finished self then [] else split_at p (split_v self))"

lemma split_at_not_Nil [simp]: "split_at p xs \<noteq> []"
  by (cases xs) simp_all

lemma split_at_none: "position p xs = None \<Longrightarrow> split_at p xs = [xs]"
  by (induction xs) (auto split: if_splits)

lemma split_at_some: "position p xs = Some i \<Longrightarrow> split_at p xs = take i xs # split_at p (drop (Suc i) xs)"
  by (induction xs arbitrary: i) (auto split: if_splits)

lemma split_at_append: "\<forall>x \<in> set a. \<not> p x \<Longrightarrow> p s \<Longrightarrow> split_at p (a @ s # xs) = a # split_at p xs"
  by (induction a) auto

lemma split_at_plain: "\<forall>x \<in> set a. \<not> p x \<Longrightarrow> split_at p a = [a]"
  by (induction a) auto

lemma slice_split_next_ok:
  "\<exists>x i'. slice_split_next p i = Inr (x, i') \<and> True \<and>
     slice_split_items p i = (case x of None \<Rightarrow> [] | Some k \<Rightarrow> k # slice_split_items p i') \<and>
     (x = None \<longrightarrow> slice_split_items p i' = [])"
proof (cases "split_finished i")
  case True
  then show ?thesis by (simp add: slice_split_next_def slice_split_items_def)
next
  case False
  show ?thesis
  proof (cases "position p (split_v i)")
    case None
    then show ?thesis using False by (simp add: slice_split_next_def slice_split_items_def split_at_none)
  next
    case (Some j)
    then have "j < length (split_v i)" by (simp add: position_Some)
    then show ?thesis using Some False
      by (simp add: slice_split_next_def slice_split_items_def split_at_some slice_to_def slice_from_def)
  qed
qed

interpretation unix_split: finite_iterator unix_SplitPaths_next "\<lambda>_. True" "slice_split_items (\<lambda>b. b = colon)"
  by unfold_locales (use slice_split_next_ok in \<open>simp add: unix_SplitPaths_next_def\<close>)

interpretation redox_split: finite_iterator redox_SplitPaths_next "\<lambda>_. True" "slice_split_items (\<lambda>b. b = semicolon)"
  by unfold_locales (use slice_split_next_ok in \<open>simp add: redox_SplitPaths_next_def\<close>)

text \<open>The paths in a sequence of units: the one that is read so far is \<open>a\<close>.\<close>

fun quoted_split :: "bool \<Rightarrow> u16 list \<Rightarrow> u16 list \<Rightarrow> u16 list list" where
  "quoted_split q a [] = [a]"
| "quoted_split q a (b # us) =
     (if b = 34 then quoted_split (\<not> q) a us
      else if b = 59 \<and> \<not> q then a # quoted_split False [] us
      else quoted_split q (a @ [b]) us)"

lemma quoted_split_not_Nil [simp]: "quoted_split q a us \<noteq> []"
  by (induction us arbitrary: q a) simp_all

definition win_items :: "win_split \<Rightarrow> Wtf8 list" where
  "win_items self = (if sp_must_yield self then map from_wide (quoted_split False [] (EncodeWide_collect (sp_data self))) else [])"

definition win_ok :: "win_split \<Rightarrow> bool" where
  "win_ok self \<longleftrightarrow> sp_must_yield self \<or> EncodeWide_collect (sp_data self) = []"

lemma EncodeWide_next_collect:
  "EncodeWide_next d = None \<Longrightarrow> EncodeWide_collect d = []"
  "EncodeWide_next d = Some (u, d') \<Longrightarrow> EncodeWide_collect d = u # EncodeWide_collect d'"
  by (subst EncodeWide_collect.simps; simp)+

lemma win_split_loop_items:
  "win_split_loop d q a = (r, sep, d') \<Longrightarrow>
     quoted_split q a (EncodeWide_collect d) = r # (if sep then quoted_split False [] (EncodeWide_collect d') else []) \<and>
     (\<not> sep \<longrightarrow> EncodeWide_collect d' = [])"
proof (induction d q a rule: win_split_loop.induct)
  case (1 d q a)
  show ?case
  proof (cases "EncodeWide_next d")
    case None
    then show ?thesis using 1(3) by (subst (asm) win_split_loop.simps) (auto simp: EncodeWide_next_collect)
  next
    case (Some p)
    then obtain b d1 where p: "EncodeWide_next d = Some (b, d1)" by (cases p) auto
    then show ?thesis using 1(3) 1(1) [OF p refl] 1(2) [OF p refl]
      by (subst (asm) win_split_loop.simps) (auto simp: EncodeWide_next_collect(2) split: if_splits)
  qed
qed

lemma win_next_ok:
  assumes "win_ok i"
  shows "\<exists>x i'. win_SplitPaths_next i = Inr (x, i') \<and> win_ok i' \<and>
     win_items i = (case x of None \<Rightarrow> [] | Some k \<Rightarrow> k # win_items i') \<and> (x = None \<longrightarrow> win_items i' = [])"
proof -
  obtain r sep d' where l: "win_split_loop (sp_data i) False [] = (r, sep, d')" by (cases "win_split_loop (sp_data i) False []") auto
  note f = win_split_loop_items [OF l]
  show ?thesis
  proof (cases "sp_must_yield i")
    case True
    then show ?thesis using l f by (simp add: win_SplitPaths_next_def win_items_def win_ok_def Let_def)
  next
    case False
    then have "EncodeWide_collect (sp_data i) = []" using assms by (simp add: win_ok_def)
    then have "r = []" "\<not> sep" using f by (auto simp: quoted_split_not_Nil [THEN not_sym] split: if_splits)
    then show ?thesis using False l f by (simp add: win_SplitPaths_next_def win_items_def win_ok_def Let_def)
  qed
qed

interpretation win_split: finite_iterator win_SplitPaths_next win_ok win_items
  by unfold_locales (rule win_next_ok)

subsection \<open>Joining\<close>

lemma unix_join_loop_Suc:
  "unix_join_loop sep (Suc i) joined ps =
     (if \<exists>p \<in> set ps. sep \<in> set p then Inl JoinPathsError else Inr (joined @ concat (map ((#) sep) ps)))"
  by (induction ps arbitrary: i joined) auto

definition join_with :: "u8 \<Rightarrow> u8 list list \<Rightarrow> u8 list" where
  "join_with sep ps = (case ps of [] \<Rightarrow> [] | p # ps \<Rightarrow> p @ concat (map ((#) sep) ps))"

lemma unix_join_loop_eq:
  "unix_join_loop sep 0 [] ps =
     (if \<exists>p \<in> set ps. sep \<in> set p then Inl JoinPathsError else Inr (join_with sep ps))"
  by (cases ps) (auto simp: unix_join_loop_Suc join_with_def)

lemma split_at_concat:
  "\<forall>p \<in> set (p # ps). sep \<notin> set p \<Longrightarrow> split_at (\<lambda>b. b = sep) (p @ concat (map ((#) sep) ps)) = p # ps"
proof (induction ps arbitrary: p)
  case Nil
  then show ?case by (auto intro: split_at_plain)
next
  case (Cons q ps)
  then have "split_at (\<lambda>b. b = sep) (q @ concat (map ((#) sep) ps)) = q # ps" by simp
  moreover have "\<forall>x \<in> set p. x \<noteq> sep" using Cons.prems by auto
  ultimately show ?case by (simp add: split_at_append)
qed

lemma split_at_join_with: "ps \<noteq> [] \<Longrightarrow> \<forall>p \<in> set ps. sep \<notin> set p \<Longrightarrow> split_at (\<lambda>b. b = sep) (join_with sep ps) = ps"
  by (cases ps) (simp_all add: join_with_def split_at_concat)

lemma join_with_split_at: "join_with sep (split_at (\<lambda>b. b = sep) v) = v"
proof (induction v)
  case (Cons x v)
  then show ?case by (cases "split_at (\<lambda>b. b = sep) v") (auto simp: join_with_def)
qed (simp add: join_with_def)

lemma split_at_no_sep: "p \<in> set (split_at (\<lambda>b. b = sep) v) \<Longrightarrow> sep \<notin> set p"
proof (induction v arbitrary: p)
  case (Cons x v)
  then show ?case by (cases "split_at (\<lambda>b. b = sep) v") (auto split: if_splits)
qed simp

lemma unix_SplitPaths_collect: "iter_collect unix_SplitPaths_next (unix_split_paths v) = ret (split_at (\<lambda>b. b = colon) v)"
  by (simp add: unix_split.collect_items slice_split_items_def unix_split_paths_def slice_split_def)

lemma redox_SplitPaths_collect: "iter_collect redox_SplitPaths_next (redox_split_paths v) = ret (split_at (\<lambda>b. b = semicolon) v)"
  by (simp add: redox_split.collect_items slice_split_items_def redox_split_paths_def slice_split_def)

lemma win_SplitPaths_collect:
  "iter_collect win_SplitPaths_next (win_split_paths v) = ret (map from_wide (quoted_split False [] (wide v)))"
  by (simp add: win_split.collect_items win_items_def win_ok_def win_split_paths_def)

definition quoted :: "u16 list \<Rightarrow> u16 list" where
  "quoted v = (if 59 \<in> set v then [34] @ v @ [34] else v)"

lemma win_join_loop_Suc:
  "win_join_loop (Suc i) joined ps =
     (if \<exists>p \<in> set ps. 34 \<in> set (wide p) then Inl JoinPathsError
      else Inr (joined @ concat (map (\<lambda>p. 59 # quoted (wide p)) ps)))"
  by (induction ps arbitrary: i joined) (auto simp: quoted_def Let_def)

definition win_join_with :: "Wtf8 list \<Rightarrow> u16 list" where
  "win_join_with ps = (case ps of [] \<Rightarrow> [] | p # ps \<Rightarrow> quoted (wide p) @ concat (map (\<lambda>p. 59 # quoted (wide p)) ps))"

lemma win_join_paths_eq:
  "win_join_paths ps =
     (if \<exists>p \<in> set ps. 34 \<in> set (wide p) then Inl JoinPathsError else Inr (from_wide (win_join_with ps)))"
  by (cases ps) (auto simp: win_join_paths_def win_join_with_def win_join_loop_Suc quoted_def Let_def)

lemma quoted_split_inside: "34 \<notin> set v \<Longrightarrow> quoted_split True a (v @ 34 # us) = quoted_split False (a @ v) us"
  by (induction v arbitrary: a) auto

lemma quoted_split_plain: "34 \<notin> set v \<Longrightarrow> 59 \<notin> set v \<Longrightarrow> quoted_split False a (v @ us) = quoted_split False (a @ v) us"
  by (induction v arbitrary: a) auto

lemma quoted_split_quoted: "34 \<notin> set v \<Longrightarrow> quoted_split False a (quoted v @ us) = quoted_split False (a @ v) us"
  by (simp add: quoted_def quoted_split_inside quoted_split_plain)

lemma quoted_split_concat:
  "\<forall>p \<in> set (p # ps). 34 \<notin> set (wide p) \<Longrightarrow>
     quoted_split False [] (quoted (wide p) @ concat (map (\<lambda>p. 59 # quoted (wide p)) ps)) = map wide (p # ps)"
proof (induction ps arbitrary: p)
  case Nil
  then show ?case using quoted_split_quoted [of "wide p" "[]" "[]"] by simp
next
  case (Cons q ps)
  then show ?case by (simp add: quoted_split_quoted)
qed



end
