(* ===== verification/Io_Base.thy ===== *)
theory Io_Base
  imports Memchr
begin

section \<open>\<open>io\<close>: errors, readers and writers\<close>

text \<open>
  The errors of \<open>src/io/error.rs\<close> and the provided methods of the traits \<open>Read\<close>, \<open>BufRead\<close> and \<open>Write\<close> of
  \<open>src/io/mod.rs\<close>, with the adaptors \<open>Chain\<close> and \<open>Take\<close>. An implementation of a trait is given by its required methods
  as functions on its state; the decoding of an operating system's error number is an argument, as it is a part of \<open>sys\<close>.
  Lengths and counts are natural numbers: the length of a slice in memory is below \<open>2 ^ 63\<close>. A writer's method can unwind, and then
  leaves a state behind.
\<close>

type_synonym i32 = "32 word"

subsection \<open>Errors\<close>

datatype ErrorKind =
  NotFound | PermissionDenied | ConnectionRefused | ConnectionReset | ConnectionAborted | NotConnected
| AddrInUse | AddrNotAvailable | BrokenPipe | AlreadyExists | WouldBlock | InvalidInput | InvalidData
| TimedOut | WriteZero | Interrupted | OtherError | UnexpectedEof | Nonexhaustive

definition ErrorKind_as_str :: "ErrorKind \<Rightarrow> string res" where
  "ErrorKind_as_str self =
     (case self of
        NotFound \<Rightarrow> Inr ''entity not found''
      | PermissionDenied \<Rightarrow> Inr ''permission denied''
      | ConnectionRefused \<Rightarrow> Inr ''connection refused''
      | ConnectionReset \<Rightarrow> Inr ''connection reset''
      | ConnectionAborted \<Rightarrow> Inr ''connection aborted''
      | NotConnected \<Rightarrow> Inr ''not connected''
      | AddrInUse \<Rightarrow> Inr ''address in use''
      | AddrNotAvailable \<Rightarrow> Inr ''address not available''
      | BrokenPipe \<Rightarrow> Inr ''broken pipe''
      | AlreadyExists \<Rightarrow> Inr ''entity already exists''
      | WouldBlock \<Rightarrow> Inr ''operation would block''
      | InvalidInput \<Rightarrow> Inr ''invalid input parameter''
      | InvalidData \<Rightarrow> Inr ''invalid data''
      | TimedOut \<Rightarrow> Inr ''timed out''
      | WriteZero \<Rightarrow> Inr ''write zero''
      | Interrupted \<Rightarrow> Inr ''operation interrupted''
      | OtherError \<Rightarrow> Inr ''other os error''
      | UnexpectedEof \<Rightarrow> Inr ''unexpected end of file''
      | Nonexhaustive \<Rightarrow> Inl (Panic ''internal error: entered unreachable code''))"

text \<open>The boxed error of \<open>Custom\<close> is represented by its description.\<close>

datatype Repr = Os i32 | Simple ErrorKind | Custom ErrorKind string

type_synonym io_error = Repr
type_synonym 'a io = "io_error + 'a"

definition Error_new :: "ErrorKind \<Rightarrow> string \<Rightarrow> io_error" where
  "Error_new kind error = Custom kind error"

definition Error_from_kind :: "ErrorKind \<Rightarrow> io_error" where
  "Error_from_kind kind = Simple kind"

definition Error_from_raw_os_error :: "i32 \<Rightarrow> io_error" where
  "Error_from_raw_os_error code = Os code"

definition Error_raw_os_error :: "io_error \<Rightarrow> i32 option" where
  "Error_raw_os_error self = (case self of Os i \<Rightarrow> Some i | Custom _ _ \<Rightarrow> None | Simple _ \<Rightarrow> None)"

definition Error_get_ref :: "io_error \<Rightarrow> string option" where
  "Error_get_ref self = (case self of Os _ \<Rightarrow> None | Simple _ \<Rightarrow> None | Custom _ e \<Rightarrow> Some e)"

definition Error_kind :: "(i32 \<Rightarrow> ErrorKind) \<Rightarrow> io_error \<Rightarrow> ErrorKind" where
  "Error_kind dk self = (case self of Os code \<Rightarrow> dk code | Custom k _ \<Rightarrow> k | Simple kind \<Rightarrow> kind)"

definition Error_description :: "(i32 \<Rightarrow> ErrorKind) \<Rightarrow> io_error \<Rightarrow> string res" where
  "Error_description dk self =
     (case self of Custom _ e \<Rightarrow> Inr e | _ \<Rightarrow> ErrorKind_as_str (Error_kind dk self))"

text \<open>\<open>sys::decode_error_kind\<close> on the platforms whose error numbers are in the repository.\<close>

definition redox_decode_error_kind :: "i32 \<Rightarrow> ErrorKind" where
  "redox_decode_error_kind errno =
     (if errno = 111 then ConnectionRefused
      else if errno = 104 then ConnectionReset
      else if errno = 1 \<or> errno = 13 then PermissionDenied
      else if errno = 32 then BrokenPipe
      else if errno = 107 then NotConnected
      else if errno = 103 then ConnectionAborted
      else if errno = 99 then AddrNotAvailable
      else if errno = 98 then AddrInUse
      else if errno = 2 then NotFound
      else if errno = 4 then Interrupted
      else if errno = 22 then InvalidInput
      else if errno = 110 then TimedOut
      else if errno = 17 then AlreadyExists
      else if errno = 11 \<or> errno = 41 then WouldBlock
      else OtherError)"

definition windows_decode_error_kind :: "i32 \<Rightarrow> ErrorKind" where
  "windows_decode_error_kind errno =
     (if errno = 5 then PermissionDenied
      else if errno = 183 then AlreadyExists
      else if errno = 80 then AlreadyExists
      else if errno = 109 then BrokenPipe
      else if errno = 2 then NotFound
      else if errno = 3 then NotFound
      else if errno = 232 then BrokenPipe
      else if errno = 995 then TimedOut
      else if errno = 10013 then PermissionDenied
      else if errno = 10048 then AddrInUse
      else if errno = 10049 then AddrNotAvailable
      else if errno = 10053 then ConnectionAborted
      else if errno = 10061 then ConnectionRefused
      else if errno = 10054 then ConnectionReset
      else if errno = 10022 then InvalidInput
      else if errno = 10057 then NotConnected
      else if errno = 10035 then WouldBlock
      else if errno = 10060 then TimedOut
      else OtherError)"

subsection \<open>\<open>Read\<close>\<close>

text \<open>\<open>read\<close> takes a buffer and returns its result, the buffer afterwards, and the reader's new state.\<close>

type_synonym 'r read_fn = "'r \<Rightarrow> u8 list \<Rightarrow> (nat io \<times> u8 list \<times> 'r) res"

partial_function (option) read_exact ::
  "(i32 \<Rightarrow> ErrorKind) \<Rightarrow> 'r read_fn \<Rightarrow> 'r \<Rightarrow> u8 list \<Rightarrow> (unit io \<times> u8 list \<times> 'r) run" where
  "read_exact dk rd self buf =
     (if buf = [] then ret (Inr (), [], self)
      else
        bindO (Some (rd self buf)) (\<lambda>(res, buf, self).
        case res of
          Inr n \<Rightarrow>
            if n = 0 then ret (Inl (Error_new UnexpectedEof ''failed to fill whole buffer''), buf, self)
            else
              bindO (Some (slice_from buf n)) (\<lambda>tmp.
              bindO (read_exact dk rd self tmp) (\<lambda>(res, tmp, self). ret (res, take n buf @ tmp, self)))
        | Inl e \<Rightarrow>
            if Error_kind dk e = Interrupted then read_exact dk rd self buf else ret (Inl e, buf, self)))"

text \<open>
  \<open>read_to_end\<close> with the guard's length \<open>len\<close>. The spare part of the vector after \<open>reserve\<close> and \<open>set_len\<close> is the argument
  \<open>spare\<close>. When the length has passed the end of the vector, slicing it panics, and then \<open>Guard::drop\<close> sets that length.
\<close>

partial_function (option) read_to_end_loop ::
  "(i32 \<Rightarrow> ErrorKind) \<Rightarrow> 'r read_fn \<Rightarrow> (u8 list \<Rightarrow> u8 list) \<Rightarrow> nat \<Rightarrow> 'r \<Rightarrow> nat \<Rightarrow> u8 list \<Rightarrow> (nat io \<times> u8 list \<times> 'r) run" where
  "read_to_end_loop dk rd spare start_len r len buf =
     (let buf = (if len = length buf then buf @ spare buf else buf) in
      if length buf < len then Some (Inl (Undefined ''Guard::drop sets the length past the initialised part''))
      else
        bindO (Some (rd r (drop len buf))) (\<lambda>(res, tl, r).
        let buf = take len buf @ tl in
        case res of
          Inr n \<Rightarrow>
            if n = 0 then ret (Inr (len - start_len), take len buf, r)
            else read_to_end_loop dk rd spare start_len r (len + n) buf
        | Inl e \<Rightarrow>
            if Error_kind dk e = Interrupted then read_to_end_loop dk rd spare start_len r len buf
            else ret (Inl e, take len buf, r)))"

definition read_to_end ::
  "(i32 \<Rightarrow> ErrorKind) \<Rightarrow> 'r read_fn \<Rightarrow> (u8 list \<Rightarrow> u8 list) \<Rightarrow> 'r \<Rightarrow> u8 list \<Rightarrow> (nat io \<times> u8 list \<times> 'r) run" where
  "read_to_end dk rd spare r buf = read_to_end_loop dk rd spare (length buf) r (length buf) buf"

text \<open>\<open>append_to_string\<close>; \<open>utf8\<close> is the validity test of \<open>str::from_utf8\<close>.\<close>

definition append_to_string ::
  "(u8 list \<Rightarrow> bool) \<Rightarrow> u8 list \<Rightarrow> (u8 list \<Rightarrow> (nat io \<times> u8 list \<times> 'r) run) \<Rightarrow> (nat io \<times> u8 list \<times> 'r) run" where
  "append_to_string utf8 buf f =
     bindO (f buf) (\<lambda>(res, vec, r).
     bindO (Some (slice_from vec (length buf))) (\<lambda>new.
     if \<not> utf8 new then
       ret (case res of
              Inr _ \<Rightarrow> Inl (Error_new InvalidData ''stream did not contain valid UTF-8'')
            | Inl e \<Rightarrow> Inl e, take (length buf) vec, r)
     else ret (res, vec, r)))"

definition read_to_string ::
  "(i32 \<Rightarrow> ErrorKind) \<Rightarrow> (u8 list \<Rightarrow> bool) \<Rightarrow> 'r read_fn \<Rightarrow> (u8 list \<Rightarrow> u8 list) \<Rightarrow> 'r \<Rightarrow> u8 list \<Rightarrow> (nat io \<times> u8 list \<times> 'r) run" where
  "read_to_string dk utf8 rd spare self buf = append_to_string utf8 buf (\<lambda>b. read_to_end dk rd spare self b)"

partial_function (option) read_one_byte ::
  "(i32 \<Rightarrow> ErrorKind) \<Rightarrow> 'r read_fn \<Rightarrow> 'r \<Rightarrow> u8 list \<Rightarrow> (u8 io option \<times> 'r) run" where
  "read_one_byte dk rd reader buf =
     bindO (Some (rd reader buf)) (\<lambda>(res, buf, reader).
     case res of
       Inr n \<Rightarrow>
         if n = 0 then ret (None, reader)
         else bindO (Some (slice_to buf 1)) (\<lambda>b. ret (Some (Inr (b ! 0)), reader))
     | Inl e \<Rightarrow>
         if Error_kind dk e = Interrupted then read_one_byte dk rd reader buf else ret (Some (Inl e), reader))"

definition Bytes_next :: "(i32 \<Rightarrow> ErrorKind) \<Rightarrow> 'r read_fn \<Rightarrow> 'r \<Rightarrow> (u8 io option \<times> 'r) run" where
  "Bytes_next dk rd self = read_one_byte dk rd self [0]"

subsection \<open>\<open>BufRead\<close>\<close>

type_synonym 'r fill_fn = "'r \<Rightarrow> (u8 list io \<times> 'r) res"
type_synonym 'r consume_fn = "'r \<Rightarrow> nat \<Rightarrow> 'r res"

text \<open>\<open>memchr::memchr\<close> is the C library's search where there is one, and the one modelled in the theory \<open>Memchr\<close> elsewhere.\<close>

definition memchr_in :: "u8 \<Rightarrow> u8 list \<Rightarrow> nat option" where
  "memchr_in x text = position (\<lambda>b. b = x) text"

definition memrchr_in :: "u8 \<Rightarrow> u8 list \<Rightarrow> nat option" where
  "memrchr_in x text = rposition (\<lambda>b. b = x) text"

partial_function (option) read_until_loop ::
  "(i32 \<Rightarrow> ErrorKind) \<Rightarrow> 'r fill_fn \<Rightarrow> 'r consume_fn \<Rightarrow> u8 \<Rightarrow> 'r \<Rightarrow> u8 list \<Rightarrow> nat \<Rightarrow> (nat io \<times> u8 list \<times> 'r) run" where
  "read_until_loop dk fb cs delim r buf read =
     bindO (Some (fb r)) (\<lambda>(res, r).
     case res of
       Inl e \<Rightarrow> if Error_kind dk e = Interrupted then read_until_loop dk fb cs delim r buf read else ret (Inl e, buf, r)
     | Inr available \<Rightarrow>
         let (done', used) = (case memchr_in delim available of Some i \<Rightarrow> (True, i + 1) | None \<Rightarrow> (False, length available));
             buf = buf @ take used available
         in bindO (Some (cs r used)) (\<lambda>r.
            let read = read + used in
            if done' \<or> used = 0 then ret (Inr read, buf, r) else read_until_loop dk fb cs delim r buf read))"

definition read_until ::
  "(i32 \<Rightarrow> ErrorKind) \<Rightarrow> 'r fill_fn \<Rightarrow> 'r consume_fn \<Rightarrow> 'r \<Rightarrow> u8 \<Rightarrow> u8 list \<Rightarrow> (nat io \<times> u8 list \<times> 'r) run" where
  "read_until dk fb cs r delim buf = read_until_loop dk fb cs delim r buf 0"

definition read_line ::
  "(i32 \<Rightarrow> ErrorKind) \<Rightarrow> (u8 list \<Rightarrow> bool) \<Rightarrow> 'r fill_fn \<Rightarrow> 'r consume_fn \<Rightarrow> 'r \<Rightarrow> u8 list \<Rightarrow> (nat io \<times> u8 list \<times> 'r) run" where
  "read_line dk utf8 fb cs self buf = append_to_string utf8 buf (\<lambda>b. read_until dk fb cs self 10 b)"

definition Split_next ::
  "(i32 \<Rightarrow> ErrorKind) \<Rightarrow> 'r fill_fn \<Rightarrow> 'r consume_fn \<Rightarrow> u8 \<Rightarrow> 'r \<Rightarrow> (u8 list io option \<times> 'r) run" where
  "Split_next dk fb cs delim self =
     bindO (read_until dk fb cs self delim []) (\<lambda>(res, buf, self).
     case res of
       Inr n \<Rightarrow>
         if n = 0 then ret (None, self)
         else bindO (Some (assertR ''index out of bounds'' (buf \<noteq> []))) (\<lambda>_.
              ret (Some (Inr (if last buf = delim then butlast buf else buf)), self))
     | Inl e \<Rightarrow> ret (Some (Inl e), self))"

definition Lines_next ::
  "(i32 \<Rightarrow> ErrorKind) \<Rightarrow> (u8 list \<Rightarrow> bool) \<Rightarrow> 'r fill_fn \<Rightarrow> 'r consume_fn \<Rightarrow> 'r \<Rightarrow> (u8 list io option \<times> 'r) run" where
  "Lines_next dk utf8 fb cs self =
     bindO (read_line dk utf8 fb cs self []) (\<lambda>(res, buf, self).
     case res of
       Inr n \<Rightarrow>
         if n = 0 then ret (None, self)
         else
           let buf = (if buf \<noteq> [] \<and> last buf = 10 then
                        let buf = butlast buf in
                        if buf \<noteq> [] \<and> last buf = 13 then butlast buf else buf
                      else buf)
           in ret (Some (Inr buf), self)
     | Inl e \<Rightarrow> ret (Some (Inl e), self))"

subsection \<open>\<open>Chain\<close> and \<open>Take\<close>\<close>

record ('t, 'u) chain =
  ch_first :: 't
  ch_second :: 'u
  done_first :: bool

definition Chain_new :: "'t \<Rightarrow> 'u \<Rightarrow> ('t, 'u) chain" where
  "Chain_new self next = \<lparr>ch_first = self, ch_second = next, done_first = False\<rparr>"

definition Chain_read :: "'t read_fn \<Rightarrow> 'u read_fn \<Rightarrow> ('t, 'u) chain read_fn" where
  "Chain_read rd1 rd2 self buf =
     (let second = (\<lambda>self buf.
        bindR (rd2 (ch_second self) buf) (\<lambda>(res, buf, u). Inr (res, buf, self\<lparr>ch_second := u\<rparr>)))
      in if \<not> done_first self then
           bindR (rd1 (ch_first self) buf) (\<lambda>(res, buf, t).
           let self = self\<lparr>ch_first := t\<rparr> in
           case res of
             Inl e \<Rightarrow> Inr (Inl e, buf, self)
           | Inr n \<Rightarrow>
               if n = 0 \<and> length buf \<noteq> 0 then second (self\<lparr>done_first := True\<rparr>) buf
               else Inr (Inr n, buf, self))
         else second self buf)"

definition Chain_fill_buf :: "'t fill_fn \<Rightarrow> 'u fill_fn \<Rightarrow> ('t, 'u) chain fill_fn" where
  "Chain_fill_buf fb1 fb2 self =
     (let second = (\<lambda>self. bindR (fb2 (ch_second self)) (\<lambda>(res, u). Inr (res, self\<lparr>ch_second := u\<rparr>)))
      in if \<not> done_first self then
           bindR (fb1 (ch_first self)) (\<lambda>(res, t).
           let self = self\<lparr>ch_first := t\<rparr> in
           case res of
             Inl e \<Rightarrow> Inr (Inl e, self)
           | Inr buf \<Rightarrow> if length buf = 0 then second (self\<lparr>done_first := True\<rparr>) else Inr (Inr buf, self))
         else second self)"

definition Chain_consume :: "'t consume_fn \<Rightarrow> 'u consume_fn \<Rightarrow> ('t, 'u) chain consume_fn" where
  "Chain_consume cs1 cs2 self amt =
     (if \<not> done_first self then bindR (cs1 (ch_first self) amt) (\<lambda>t. Inr (self\<lparr>ch_first := t\<rparr>))
      else bindR (cs2 (ch_second self) amt) (\<lambda>u. Inr (self\<lparr>ch_second := u\<rparr>)))"

record 't take_reader =
  tk_inner :: 't
  limit :: nat

definition subN :: "nat \<Rightarrow> nat \<Rightarrow> nat res" where
  "subN a b = (if b \<le> a then Inr (a - b) else Inl (Panic ''attempt to subtract with overflow''))"

definition Take_read :: "'t read_fn \<Rightarrow> 't take_reader read_fn" where
  "Take_read rd self buf =
     (if limit self = 0 then Inr (Inr 0, buf, self)
      else
        let m = min (length buf) (limit self) in
        bindR (rd (tk_inner self) (take m buf)) (\<lambda>(res, b, t).
        let self = self\<lparr>tk_inner := t\<rparr>; buf = b @ drop m buf in
        case res of
          Inl e \<Rightarrow> Inr (Inl e, buf, self)
        | Inr n \<Rightarrow> bindR (subN (limit self) n) (\<lambda>l. Inr (Inr n, buf, self\<lparr>limit := l\<rparr>))))"

definition Take_fill_buf :: "'t fill_fn \<Rightarrow> 't take_reader fill_fn" where
  "Take_fill_buf fb self =
     (if limit self = 0 then Inr (Inr [], self)
      else bindR (fb (tk_inner self)) (\<lambda>(res, t).
        let self = self\<lparr>tk_inner := t\<rparr> in
        case res of
          Inl e \<Rightarrow> Inr (Inl e, self)
        | Inr buf \<Rightarrow> Inr (Inr (take (min (length buf) (limit self)) buf), self)))"

definition Take_consume :: "'t consume_fn \<Rightarrow> 't take_reader consume_fn" where
  "Take_consume cs self amt =
     (let amt = min amt (limit self) in
      bindR (cs (tk_inner self) amt) (\<lambda>t. Inr (self\<lparr>tk_inner := t, limit := limit self - amt\<rparr>)))"

subsection \<open>\<open>Write\<close>\<close>

text \<open>A method returns or unwinds; in both cases the writer has a state afterwards.\<close>

datatype 'a outcome = Returns 'a | Unwinds

type_synonym 'w write_fn = "'w \<Rightarrow> u8 list \<Rightarrow> nat io outcome \<times> 'w"
type_synonym 'w flush_fn = "'w \<Rightarrow> unit io outcome \<times> 'w"

partial_function (option) write_all ::
  "(i32 \<Rightarrow> ErrorKind) \<Rightarrow> 'w write_fn \<Rightarrow> 'w \<Rightarrow> u8 list \<Rightarrow> (unit io outcome \<times> 'w) option" where
  "write_all dk wr self buf =
     (if buf = [] then Some (Returns (Inr ()), self)
      else
        let (res, self) = wr self buf in
        case res of
          Unwinds \<Rightarrow> Some (Unwinds, self)
        | Returns (Inl e) \<Rightarrow>
            if Error_kind dk e = Interrupted then write_all dk wr self buf else Some (Returns (Inl e), self)
        | Returns (Inr n) \<Rightarrow>
            if n = 0 then Some (Returns (Inl (Error_new WriteZero ''failed to write whole buffer'')), self)
            else if length buf < n then Some (Unwinds, self)
            else write_all dk wr self (drop n buf))"

end
