(* ===== verification/Io_Read.thy ===== *)
theory Io_Read
  imports Io_Base
begin

section \<open>\<open>io\<close>: the contracts of readers\<close>

text \<open>
  What the documentation of \<open>Read\<close> and \<open>BufRead\<close> promises, as two locales. A reader has a sequence of bytes
  still to come. \<open>read\<close> moves a first part of it to the front of the buffer and reports its length, which is zero only at the end or for an
  empty buffer; an error loses no byte; and a reader is interrupted finitely often. The provided methods of the traits are loops over
  these methods: under the contracts they end, and none of the bytes is lost or duplicated.
\<close>

lemma take_front: "n \<le> length xs \<Longrightarrow> take (n + k) (take n xs @ ys) = take n xs @ take k ys"
  by (simp add: min_absorb2)

lemma length_front: "n \<le> length xs \<Longrightarrow> length (take n xs @ ys) = n + length ys"
  by simp

definition read_law ::
  "(i32 \<Rightarrow> ErrorKind) \<Rightarrow> ('r \<Rightarrow> u8 list) \<Rightarrow> ('r \<Rightarrow> nat) \<Rightarrow> 'r \<Rightarrow> u8 list \<Rightarrow> nat io \<Rightarrow> u8 list \<Rightarrow> 'r \<Rightarrow> bool" where
  "read_law dk rest intr r buf res buf' r' \<longleftrightarrow>
     length buf' = length buf \<and>
     (case res of
        Inr n \<Rightarrow> n \<le> length buf \<and> n \<le> length (rest r) \<and> take n buf' = take n (rest r) \<and> rest r' = drop n (rest r) \<and>
          (n = 0 \<and> buf \<noteq> [] \<longrightarrow> rest r = []) \<and> intr r' \<le> intr r
      | Inl e \<Rightarrow> rest r' = rest r \<and> (if Error_kind dk e = Interrupted then intr r' < intr r else intr r' \<le> intr r))"

locale reader =
  fixes dk :: "i32 \<Rightarrow> ErrorKind" and rd :: "'r read_fn" and ok :: "'r \<Rightarrow> bool"
    and rest :: "'r \<Rightarrow> u8 list" and intr :: "'r \<Rightarrow> nat"
  assumes read_ok: "ok r \<Longrightarrow> \<exists>res buf' r'. rd r buf = Inr (res, buf', r') \<and> ok r' \<and> read_law dk rest intr r buf res buf' r'"
begin

lemma read_cases:
  assumes "ok r"
  obtains (data) n buf' r' where "rd r buf = Inr (Inr n, buf', r')" "ok r'" "length buf' = length buf" "n \<le> length buf"
      "n \<le> length (rest r)" "take n buf' = take n (rest r)" "rest r' = drop n (rest r)" "n = 0 \<and> buf \<noteq> [] \<longrightarrow> rest r = []"
      "intr r' \<le> intr r"
  | (interrupted) e buf' r' where "rd r buf = Inr (Inl e, buf', r')" "ok r'" "length buf' = length buf" "rest r' = rest r"
      "Error_kind dk e = Interrupted" "intr r' < intr r"
  | (error) e buf' r' where "rd r buf = Inr (Inl e, buf', r')" "ok r'" "length buf' = length buf" "rest r' = rest r"
      "Error_kind dk e \<noteq> Interrupted" "intr r' \<le> intr r"
  using read_ok [OF assms, of buf] by (fastforce simp: read_law_def split: sum.splits if_splits)

lemma read_exact_ends:
  "ok r \<Longrightarrow> \<exists>res k b r'. read_exact dk rd r buf = ret (res, b, r') \<and> ok r' \<and> length b = length buf \<and>
     k \<le> length buf \<and> k \<le> length (rest r) \<and> take k b = take k (rest r) \<and> rest r' = drop k (rest r) \<and>
     (case res of Inr _ \<Rightarrow> k = length buf | Inl e \<Rightarrow> Error_kind dk e \<noteq> Interrupted)"
proof (induction "length buf + intr r" arbitrary: buf r rule: less_induct)
  case less
  show ?case
  proof (cases "buf = []")
    case True
    then show ?thesis using less.prems by (subst read_exact.simps) simp
  next
    case False
    note step = read_exact.simps [of dk rd r buf]
    from less.prems show ?thesis
    proof (cases rule: read_cases [where buf = buf])
      case (data n buf' r')
      show ?thesis
      proof (cases "n = 0")
        case True
        then show ?thesis using data False by (subst step) (auto simp: Error_new_def Error_kind_def intro!: exI [of _ 0])
      next
        case pos: False
        have "length (drop n buf') + intr r' < length buf + intr r" using pos data(3,4,9) by simp
        from less.hyps [OF this data(2)] obtain res k b r'' where IH: "read_exact dk rd r' (drop n buf') = ret (res, b, r'')" "ok r''"
          "length b = length (drop n buf')" "k \<le> length (drop n buf')" "k \<le> length (rest r')" "take k b = take k (rest r')"
          "rest r'' = drop k (rest r')" "case res of Inr _ \<Rightarrow> k = length (drop n buf') | Inl e \<Rightarrow> Error_kind dk e \<noteq> Interrupted"
          by blast
        have "read_exact dk rd r buf = ret (res, take n buf' @ b, r'')"
          using False pos data IH(1) by (subst step) (simp add: slice_from_def)
        moreover have "take (n + k) (take n buf' @ b) = take (n + k) (rest r)"
          using take_front [of n buf' k b] data(3,4) by (simp only: data(6,7) IH(6) take_add)
        moreover have "rest r'' = drop (n + k) (rest r)" using data(7) IH(7) by (simp add: add.commute)
        moreover have "length (take n buf' @ b) = length buf" "n + k \<le> length buf" "n + k \<le> length (rest r)"
          using data(3,4,5,7) IH(3-5) by simp_all
        moreover have "case res of Inr _ \<Rightarrow> n + k = length buf | Inl e \<Rightarrow> Error_kind dk e \<noteq> Interrupted"
          using IH(8) data(3,4) by (auto split: sum.splits)
        ultimately show ?thesis using IH(2) by blast
      qed
    next
      case (interrupted e buf' r')
      have "length buf' + intr r' < length buf + intr r" using interrupted(3,6) by simp
      from less.hyps [OF this interrupted(2)] show ?thesis
        unfolding interrupted(3,4) step using False interrupted(1,5) by simp
    next
      case (error e buf' r')
      then show ?thesis using False by (subst step) (auto intro!: exI [of _ 0])
    qed
  qed
qed

lemma read_to_end_loop_ends:
  assumes spare: "\<And>b. spare b \<noteq> []"
  shows "ok r \<Longrightarrow> len \<le> length buf \<Longrightarrow>
    \<exists>res k r'. read_to_end_loop dk rd spare start_len r len buf = ret (res, take len buf @ take k (rest r), r') \<and> ok r' \<and>
     k \<le> length (rest r) \<and> rest r' = drop k (rest r) \<and>
     (case res of Inr n \<Rightarrow> n = len + k - start_len \<and> rest r' = [] | Inl e \<Rightarrow> Error_kind dk e \<noteq> Interrupted)"
proof (induction "length (rest r) + intr r" arbitrary: r len buf rule: less_induct)
  case less
  define b where "b = (if len = length buf then buf @ spare buf else buf)"
  have b: "len < length b" "take len b = take len buf" using less.prems(2) spare [of buf] by (auto simp: b_def)
  note step = read_to_end_loop.simps [of dk rd spare start_len r len buf, folded b_def]
  from less.prems(1) show ?case
  proof (cases rule: read_cases [where buf = "drop len b"])
    case (data n tl r')
    show ?thesis
    proof (cases "n = 0")
      case True
      then have "rest r = []" using data(8) b(1) by simp
      then show ?thesis using data True b less.prems(2) by (subst step) (simp add: Let_def min_def)
    next
      case False
      let ?c = "take len b @ tl"
      have c: "take (len + n) ?c = take len buf @ take n (rest r)" "len + n \<le> length ?c"
        using data(3,4,6) b take_front [of len b n tl] length_front [of len b tl] by simp_all
      have measure: "length (rest r') + intr r' < length (rest r) + intr r" using data(5,7,9) False by simp
      obtain res k r'' where IH: "read_to_end_loop dk rd spare start_len r' (len + n) ?c = ret (res, take (len + n) ?c @ take k (rest r'), r'')"
        "ok r''" "k \<le> length (rest r')" "rest r'' = drop k (rest r')"
        "case res of Inr m \<Rightarrow> m = len + n + k - start_len \<and> rest r'' = [] | Inl e \<Rightarrow> Error_kind dk e \<noteq> Interrupted"
        using less.hyps [OF _ data(2) c(2)] measure by blast
      have "take (len + n) ?c @ take k (rest r') = take len buf @ take (n + k) (rest r)"
        using c(1) data(7) by (simp add: take_add)
      moreover have "read_to_end_loop dk rd spare start_len r len buf = read_to_end_loop dk rd spare start_len r' (len + n) ?c"
        using data False b(1) by (subst step) (simp add: Let_def)
      ultimately show ?thesis using IH data(5,7)
        by (intro exI [of _ res] exI [of _ "n + k"] exI [of _ r'']) (auto simp: add.commute add.left_commute split: sum.splits)
    qed
  next
    case (interrupted e tl r')
    have "take len (take len b @ tl) = take len buf" using b take_front [of len b 0 tl] by simp
    moreover have "length (rest r') + intr r' < length (rest r) + intr r" "len \<le> length (take len b @ tl)"
      using interrupted(4,6) b(1) by simp_all
    ultimately show ?thesis using less.hyps [of r' len "take len b @ tl"] interrupted b(1)
      by (subst step) (simp add: Let_def del: take_append)
  next
    case (error e tl r')
    then show ?thesis using b less.prems(2) by (subst step) (auto simp: Let_def min_def intro!: exI [of _ 0])
  qed
qed

end


subsection \<open>\<open>BufRead\<close>\<close>

text \<open>
  \<open>fill_buf\<close> shows a first part of the bytes to come, without taking it, and shows nothing only at the end; \<open>consume\<close> takes as many of the bytes last
  shown as it is told.
\<close>

definition fill_law ::
  "(i32 \<Rightarrow> ErrorKind) \<Rightarrow> ('r \<Rightarrow> u8 list) \<Rightarrow> ('r \<Rightarrow> u8 list) \<Rightarrow> ('r \<Rightarrow> nat) \<Rightarrow> 'r \<Rightarrow> u8 list io \<Rightarrow> 'r \<Rightarrow> bool" where
  "fill_law dk rest avail intr r res r' \<longleftrightarrow>
     rest r' = rest r \<and>
     (case res of
        Inr bs \<Rightarrow> avail r' = bs \<and> (\<exists>t. rest r = bs @ t) \<and> (bs = [] \<longrightarrow> rest r = []) \<and> intr r' \<le> intr r
      | Inl e \<Rightarrow> if Error_kind dk e = Interrupted then intr r' < intr r else intr r' \<le> intr r)"

locale buffered =
  fixes dk :: "i32 \<Rightarrow> ErrorKind" and fb :: "'r fill_fn" and cs :: "'r consume_fn" and ok :: "'r \<Rightarrow> bool"
    and rest avail :: "'r \<Rightarrow> u8 list" and intr :: "'r \<Rightarrow> nat"
  assumes fill_ok: "ok r \<Longrightarrow> \<exists>res r'. fb r = Inr (res, r') \<and> ok r' \<and> fill_law dk rest avail intr r res r'"
    and consume_ok: "ok r \<Longrightarrow> amt \<le> length (avail r) \<Longrightarrow>
      \<exists>r'. cs r amt = Inr r' \<and> ok r' \<and> rest r' = drop amt (rest r) \<and> avail r' = drop amt (avail r) \<and> intr r' \<le> intr r"
begin

lemma fill_cases:
  assumes "ok r"
  obtains (data) bs t r' where "fb r = Inr (Inr bs, r')" "ok r'" "rest r' = bs @ t" "rest r = bs @ t" "avail r' = bs"
      "bs = [] \<longrightarrow> t = []" "intr r' \<le> intr r"
  | (interrupted) e r' where "fb r = Inr (Inl e, r')" "ok r'" "rest r' = rest r" "Error_kind dk e = Interrupted" "intr r' < intr r"
  | (error) e r' where "fb r = Inr (Inl e, r')" "ok r'" "rest r' = rest r" "Error_kind dk e \<noteq> Interrupted" "intr r' \<le> intr r"
  using fill_ok [OF assms] by (fastforce simp: fill_law_def split: sum.splits if_splits)

end

text \<open>A line: up to and with the first delimiter, or everything.\<close>

definition up_to :: "u8 \<Rightarrow> u8 list \<Rightarrow> u8 list" where
  "up_to delim xs = (case position (\<lambda>b. b = delim) xs of Some i \<Rightarrow> take (i + 1) xs | None \<Rightarrow> xs)"

lemma position_app:
  "position p (xs @ ys) =
     (case position p xs of Some i \<Rightarrow> Some i | None \<Rightarrow> map_option (\<lambda>j. length xs + j) (position p ys))"
  by (induction xs) (cases "position p ys"; auto split: option.splits)+

lemma up_to_append:
  "up_to d (xs @ ys) = (case position (\<lambda>b. b = d) xs of Some i \<Rightarrow> take (i + 1) xs | None \<Rightarrow> xs @ up_to d ys)"
proof (cases "position (\<lambda>b. b = d) xs")
  case None
  then show ?thesis by (simp add: up_to_def position_app split: option.split)
next
  case (Some i)
  then have "i < length xs" by (simp add: position_Some)
  then show ?thesis using Some by (simp add: up_to_def position_app)
qed

context buffered
begin

lemma read_until_loop_ends:
  "ok r \<Longrightarrow> \<exists>res taken r'. read_until_loop dk fb cs delim r buf n = ret (res, buf @ taken, r') \<and> ok r' \<and> rest r = taken @ rest r' \<and>
     (case res of Inr m \<Rightarrow> m = n + length taken \<and> up_to delim (rest r) = taken
      | Inl e \<Rightarrow> Error_kind dk e \<noteq> Interrupted \<and> delim \<notin> set taken)"
proof (induction "length (rest r) + intr r" arbitrary: r buf n rule: less_induct)
  case less
  note step = read_until_loop.simps [of dk fb cs delim r buf n]
  from less.prems show ?case
  proof (cases rule: fill_cases)
    case (data bs t r')
    show ?thesis
    proof (cases "position (\<lambda>b. b = delim) bs")
      case (Some i)
      then have i: "i < length bs" by (simp add: position_Some)
      then obtain r'' where c: "cs r' (i + 1) = Inr r''" "ok r''" "rest r'' = drop (i + 1) (rest r')"
        using consume_ok [OF data(2), of "i + 1"] data(5) by auto
      define a where "a = take (i + 1) bs"
      have ret: "read_until_loop dk fb cs delim r buf n = ret (Inr (n + (i + 1)), buf @ a, r'')"
        using data(1) c(1) Some by (subst step) (simp add: memchr_in_def a_def)
      have split: "rest r = a @ rest r''"
      proof -
        have "rest r'' = drop (i + 1) bs @ t" using c(3) data(3) i by simp
        then show ?thesis unfolding data(4) a_def by (metis append_assoc append_take_drop_id)
      qed
      have line: "up_to delim (rest r) = a" unfolding data(4) using Some by (simp add: up_to_append a_def)
      have len: "length a = i + 1" using i by (simp add: a_def)
      show ?thesis by (intro exI conjI, rule ret, rule c(2), rule split, simp add: line len)
    next
      case None
      then obtain r'' where c: "cs r' (length bs) = Inr r''" "ok r''" "rest r'' = drop (length bs) (rest r')" "intr r'' \<le> intr r'"
        using consume_ok [OF data(2), of "length bs"] data(5) by auto
      then have t: "rest r'' = t" using data(3) by simp
      show ?thesis
      proof (cases "bs = []")
        case True
        then have "read_until_loop dk fb cs delim r buf n = ret (Inr n, buf, r'')"
          using data(1) c(1) None by (subst step) (simp add: memchr_in_def)
        then show ?thesis using c(2) t data(4,6) True by (auto simp: up_to_def)
      next
        case False
        then have "length (rest r'') + intr r'' < length (rest r) + intr r" using t data(4,7) c(4) by (cases bs) simp_all
        from less.hyps [OF this c(2)] obtain res taken r3 where IH:
          "read_until_loop dk fb cs delim r'' (buf @ bs) (n + length bs) = ret (res, (buf @ bs) @ taken, r3)" "ok r3" "rest r'' = taken @ rest r3"
          "case res of Inr m \<Rightarrow> m = n + length bs + length taken \<and> up_to delim (rest r'') = taken
           | Inl e \<Rightarrow> Error_kind dk e \<noteq> Interrupted \<and> delim \<notin> set taken" by blast
        have "read_until_loop dk fb cs delim r buf n = ret (res, buf @ bs @ taken, r3)"
          using data(1) c(1) None False IH(1) by (subst step) (simp add: memchr_in_def)
        moreover have "up_to delim (rest r) = bs @ up_to delim (rest r'')" unfolding data(4) t using None by (simp add: up_to_append)
        then have "case res of Inr m \<Rightarrow> m = n + length (bs @ taken) \<and> up_to delim (rest r) = bs @ taken
           | Inl e \<Rightarrow> Error_kind dk e \<noteq> Interrupted \<and> delim \<notin> set (bs @ taken)"
          using IH(4) None by (cases res) (auto simp: position_None)
        moreover have "rest r = (bs @ taken) @ rest r3" using data(4) t IH(3) by simp
        ultimately show ?thesis using IH(2) by blast
      qed
    qed
  next
    case (interrupted e r')
    then have "length (rest r') + intr r' < length (rest r) + intr r" by simp
    from less.hyps [OF this interrupted(2)] show ?thesis
      unfolding interrupted(3) step using interrupted(1,4) by simp
  next
    case (error e r')
    then show ?thesis by (subst step) (auto intro!: exI [of _ "[]"])
  qed
qed

end

text \<open>C30: For every implementation of \<open>BufRead\<close> that keeps its contract, \<open>read_until\<close> returns: either it has appended exactly the bytes up to
  and with the first delimiter (all bytes if there is none) and returns their number, or it passes on an error other than \<open>Interrupted\<close>;
  in both cases what it appended and what the reader still has is what the reader had.\<close>

theorem read_until_returns_line:
  assumes "buffered dk fb cs ok rest avail intr" "ok r"
  shows "\<exists>res taken r'. read_until dk fb cs r delim buf = ret (res, buf @ taken, r') \<and> ok r' \<and> rest r = taken @ rest r' \<and>
     (case res of Inr n \<Rightarrow> n = length taken \<and> up_to delim (rest r) = taken
      | Inl e \<Rightarrow> Error_kind dk e \<noteq> Interrupted \<and> delim \<notin> set taken)"
  using buffered.read_until_loop_ends [OF assms, of delim buf 0] by (simp only: read_until_def add_0)

subsection \<open>\<open>Chain\<close> and \<open>Take\<close> keep the contract\<close>

locale two_readers =
  one: reader dk rd1 ok1 rest1 intr1 + two: reader dk rd2 ok2 rest2 intr2
  for dk and rd1 :: "'t read_fn" and ok1 rest1 intr1 and rd2 :: "'u read_fn" and ok2 rest2 intr2
begin

lemma Chain_reader:
  "reader dk (Chain_read rd1 rd2) (\<lambda>c. ok1 (ch_first c) \<and> ok2 (ch_second c))
     (\<lambda>c. (if done_first c then [] else rest1 (ch_first c)) @ rest2 (ch_second c)) (\<lambda>c. intr1 (ch_first c) + intr2 (ch_second c))"
proof unfold_locales
  fix c :: "('t, 'u) chain" and buf :: "u8 list"
  let ?rest = "\<lambda>c. (if done_first c then [] else rest1 (ch_first c)) @ rest2 (ch_second c)"
  let ?intr = "\<lambda>c. intr1 (ch_first c) + intr2 (ch_second c)"
  assume ok: "ok1 (ch_first c) \<and> ok2 (ch_second c)"
  show "\<exists>res buf' c'. Chain_read rd1 rd2 c buf = Inr (res, buf', c') \<and> (ok1 (ch_first c') \<and> ok2 (ch_second c')) \<and>
      read_law dk ?rest ?intr c buf res buf' c'"
  proof (cases "done_first c")
    case True
    from ok show ?thesis
      using two.read_ok [of "ch_second c" buf] True
      by (fastforce simp: Chain_read_def read_law_def split: sum.splits if_splits)
  next
    case False
    from ok have "ok1 (ch_first c)" by simp
    then show ?thesis
    proof (cases rule: one.read_cases [where buf = buf])
      case (data n b t)
      show ?thesis
      proof (cases "n = 0 \<and> buf \<noteq> []")
        case True
        then have "rest1 (ch_first c) = []" "rest1 t = []" using data(7,8) by simp_all
        then show ?thesis
          using two.read_ok [of "ch_second c" b] ok data True False
          by (fastforce simp: Chain_read_def read_law_def Let_def split: sum.splits if_splits)
      next
        case n: False
        then show ?thesis using data False ok by (auto simp: Chain_read_def read_law_def Let_def)
      qed
    next
      case (interrupted e b t)
      then show ?thesis using False ok by (auto simp: Chain_read_def read_law_def Let_def)
    next
      case (error e b t)
      then show ?thesis using False ok by (auto simp: Chain_read_def read_law_def Let_def)
    qed
  qed
qed

end

context reader
begin

lemma Take_reader:
  "reader dk (Take_read rd) (\<lambda>t. ok (tk_inner t)) (\<lambda>t. take (limit t) (rest (tk_inner t))) (\<lambda>t. intr (tk_inner t))"
proof unfold_locales
  fix t :: "'r take_reader" and buf :: "u8 list"
  let ?rest = "\<lambda>t. take (limit t) (rest (tk_inner t))"
  assume ok: "ok (tk_inner t)"
  let ?m = "min (length buf) (limit t)"
  show "\<exists>res buf' t'. Take_read rd t buf = Inr (res, buf', t') \<and> ok (tk_inner t') \<and>
      read_law dk ?rest (\<lambda>t. intr (tk_inner t)) t buf res buf' t'"
  proof (cases "limit t = 0")
    case True
    then show ?thesis using ok by (auto simp: Take_read_def read_law_def)
  next
    case False
    from ok show ?thesis
    proof (cases rule: read_cases [where buf = "take ?m buf"])
      case (data n b r')
      then show ?thesis using False
        by (auto simp: Take_read_def read_law_def Let_def subN_def min_def drop_take split: if_splits)
    next
      case (interrupted e b r')
      then show ?thesis using False by (auto simp: Take_read_def read_law_def Let_def)
    next
      case (error e b r')
      then show ?thesis using False by (auto simp: Take_read_def read_law_def Let_def)
    qed
  qed
qed

end

end
