(* ===== verification/Io_Buffered.thy ===== *)
theory Io_Buffered
  imports Io_Base
begin

section \<open>\<open>io/impls.rs\<close>, \<open>io/cursor.rs\<close>, \<open>io/util.rs\<close> and \<open>io/buffered.rs\<close>\<close>

text \<open>
  The readers and writers in memory (\<open>&[u8]\<close>, \<open>&mut [u8]\<close>, \<open>Vec<u8>\<close>, \<open>Cursor\<close>), those of \<open>io::util\<close>, and the buffering wrappers \<open>BufReader\<close>,
  \<open>BufWriter\<close> and \<open>LineWriter\<close> over any reader or writer. The content of a fresh buffer is an argument where the source leaves it to
  the reader's initializer.
\<close>

subsection \<open>Slices and vectors\<close>

definition slice_read :: "u8 list read_fn" where
  "slice_read self buf =
     (let amt = min (length buf) (length self)
      in Inr (Inr amt, take amt self @ drop amt buf, drop amt self))"

definition slice_read_exact :: "u8 list \<Rightarrow> u8 list \<Rightarrow> unit io \<times> u8 list \<times> u8 list" where
  "slice_read_exact self buf =
     (if length buf > length self then (Inl (Error_new UnexpectedEof ''failed to fill whole buffer''), buf, self)
      else (Inr (), take (length buf) self, drop (length buf) self))"

definition slice_read_to_end :: "u8 list \<Rightarrow> u8 list \<Rightarrow> nat io \<times> u8 list \<times> u8 list" where
  "slice_read_to_end self buf = (Inr (length self), buf @ self, drop (length self) self)"

definition slice_fill_buf :: "u8 list fill_fn" where
  "slice_fill_buf self = Inr (Inr self, self)"

definition slice_consume :: "u8 list consume_fn" where
  "slice_consume self amt = slice_from self amt"

text \<open>A \<open>&mut [u8]\<close> writer is what has been written of the slice, and what has not.\<close>

record slice_writer =
  sw_written :: "u8 list"
  sw_left :: "u8 list"

definition slice_write :: "slice_writer write_fn" where
  "slice_write self data =
     (let amt = min (length data) (length (sw_left self))
      in (Returns (Inr amt),
          \<lparr>sw_written = sw_written self @ take amt data, sw_left = drop amt (sw_left self)\<rparr>))"

definition slice_write_all :: "slice_writer \<Rightarrow> u8 list \<Rightarrow> unit io outcome \<times> slice_writer" where
  "slice_write_all self data =
     (case slice_write self data of
        (Returns (Inr n), self) \<Rightarrow>
          if n = length data then (Returns (Inr ()), self)
          else (Returns (Inl (Error_new WriteZero ''failed to write whole buffer'')), self)
      | (Returns (Inl e), self) \<Rightarrow> (Returns (Inl e), self)
      | (Unwinds, self) \<Rightarrow> (Unwinds, self))"

definition Vec_write :: "u8 list write_fn" where
  "Vec_write self buf = (Returns (Inr (length buf)), self @ buf)"

definition Vec_write_all :: "u8 list \<Rightarrow> u8 list \<Rightarrow> unit io outcome \<times> u8 list" where
  "Vec_write_all self buf = (Returns (Inr ()), self @ buf)"

definition Vec_flush :: "u8 list flush_fn" where
  "Vec_flush self = (Returns (Inr ()), self)"

subsection \<open>\<open>Empty\<close>, \<open>Repeat\<close>, \<open>Sink\<close> and \<open>copy\<close>\<close>

definition Empty_read :: "unit read_fn" where
  "Empty_read self buf = Inr (Inr 0, buf, self)"

definition Empty_fill_buf :: "unit fill_fn" where
  "Empty_fill_buf self = Inr (Inr [], self)"

definition Empty_consume :: "unit consume_fn" where
  "Empty_consume self n = Inr self"

definition Repeat_read :: "u8 read_fn" where
  "Repeat_read self buf = Inr (Inr (length buf), replicate (length buf) self, self)"

definition Sink_write :: "unit write_fn" where
  "Sink_write self buf = (Returns (Inr (length buf)), self)"

definition DEFAULT_BUF_SIZE :: nat where "DEFAULT_BUF_SIZE = 8 * 1024"

partial_function (option) copy_loop ::
  "(i32 \<Rightarrow> ErrorKind) \<Rightarrow> 'r read_fn \<Rightarrow> 'w write_fn \<Rightarrow> 'r \<Rightarrow> 'w \<Rightarrow> u8 list \<Rightarrow> nat \<Rightarrow> (nat io outcome \<times> 'r \<times> 'w) run" where
  "copy_loop dk rd wr rdr wtr buf written =
     bindO (Some (rd rdr buf)) (\<lambda>(res, buf, rdr).
     case res of
       Inl e \<Rightarrow>
         if Error_kind dk e = Interrupted then copy_loop dk rd wr rdr wtr buf written
         else ret (Returns (Inl e), rdr, wtr)
     | Inr len \<Rightarrow>
         if len = 0 then ret (Returns (Inr written), rdr, wtr)
         else
           bindO (Some (slice_to buf len)) (\<lambda>data.
           case write_all dk wr wtr data of
             None \<Rightarrow> None
           | Some (Returns (Inr _), wtr) \<Rightarrow> copy_loop dk rd wr rdr wtr buf (written + len)
           | Some (Returns (Inl e), wtr) \<Rightarrow> ret (Returns (Inl e), rdr, wtr)
           | Some (Unwinds, wtr) \<Rightarrow> ret (Unwinds, rdr, wtr)))"

definition io_copy ::
  "(i32 \<Rightarrow> ErrorKind) \<Rightarrow> 'r read_fn \<Rightarrow> 'w write_fn \<Rightarrow> 'r \<Rightarrow> 'w \<Rightarrow> u8 list \<Rightarrow> (nat io outcome \<times> 'r \<times> 'w) run" where
  "io_copy dk rd wr rdr wtr uninit = copy_loop dk rd wr rdr wtr (take DEFAULT_BUF_SIZE uninit) 0"

subsection \<open>Seeking\<close>

text \<open>Offsets are signed; \<open>i64\<close> values are integers from \<open>-(2 ^ 63)\<close> up to \<open>2 ^ 63 - 1\<close>.\<close>

datatype SeekFrom = Start nat | End int | Current int

type_synonym 's seek_fn = "'s \<Rightarrow> SeekFrom \<Rightarrow> nat io \<times> 's"

definition u64_checked_add :: "nat \<Rightarrow> nat \<Rightarrow> nat option" where
  "u64_checked_add a b = (if a + b < 2 ^ 64 then Some (a + b) else None)"

definition u64_checked_sub :: "nat \<Rightarrow> nat \<Rightarrow> nat option" where
  "u64_checked_sub a b = (if b \<le> a then Some (a - b) else None)"

definition i64_checked_sub :: "int \<Rightarrow> int \<Rightarrow> int option" where
  "i64_checked_sub a b = (if - (2 ^ 63) \<le> a - b \<and> a - b < 2 ^ 63 then Some (a - b) else None)"

definition addN :: "nat \<Rightarrow> nat \<Rightarrow> nat res" where
  "addN a b = (if a + b < 2 ^ 64 then Inr (a + b) else Inl (Panic ''attempt to add with overflow''))"

subsection \<open>\<open>Cursor\<close>\<close>

record cursor =
  cur_inner :: "u8 list"
  cur_pos :: nat

definition Cursor_new :: "u8 list \<Rightarrow> cursor" where
  "Cursor_new inner = \<lparr>cur_inner = inner, cur_pos = 0\<rparr>"

definition Cursor_seek :: "cursor seek_fn" where
  "Cursor_seek self style =
     (case style of
        Start n \<Rightarrow> (Inr n, self\<lparr>cur_pos := n\<rparr>)
      | _ \<Rightarrow>
        let (base_pos, offset) = (case style of End n \<Rightarrow> (length (cur_inner self), n) | Current n \<Rightarrow> (cur_pos self, n) | Start n \<Rightarrow> (n, 0));
            new_pos = (if offset \<ge> 0 then u64_checked_add base_pos (nat offset) else u64_checked_sub base_pos (nat (- offset)))
        in case new_pos of
             Some n \<Rightarrow> (Inr n, self\<lparr>cur_pos := n\<rparr>)
           | None \<Rightarrow> (Inl (Error_new InvalidInput ''invalid seek to a negative or overflowing position''), self))"

definition Cursor_fill_buf :: "cursor fill_fn" where
  "Cursor_fill_buf self =
     (let amt = min (cur_pos self) (length (cur_inner self)) in
      bindR (slice_from (cur_inner self) amt) (\<lambda>b. Inr (Inr b, self)))"

definition Cursor_consume :: "cursor consume_fn" where
  "Cursor_consume self amt = bindR (addN (cur_pos self) amt) (\<lambda>p. Inr (self\<lparr>cur_pos := p\<rparr>))"

definition Cursor_read :: "cursor read_fn" where
  "Cursor_read self buf =
     bindR (Cursor_fill_buf self) (\<lambda>(res, self).
     case res of
       Inl e \<Rightarrow> Inr (Inl e, buf, self)
     | Inr rem \<Rightarrow>
         bindR (slice_read rem buf) (\<lambda>(res, buf, _).
         case res of
           Inl e \<Rightarrow> Inr (Inl e, buf, self)
         | Inr n \<Rightarrow> bindR (addN (cur_pos self) n) (\<lambda>p. Inr (Inr n, buf, self\<lparr>cur_pos := p\<rparr>))))"

text \<open>Writing to a cursor over a fixed slice (\<open>&mut [u8]\<close> or \<open>Box<[u8]>\<close>), and over a vector, which grows.\<close>

definition Cursor_slice_write :: "cursor \<Rightarrow> u8 list \<Rightarrow> (nat io \<times> cursor) res" where
  "Cursor_slice_write self data =
     (let pos = min (cur_pos self) (length (cur_inner self));
          amt = min (length data) (length (cur_inner self) - pos)
      in bindR (copy_at (cur_inner self) pos (take amt data)) (\<lambda>inner.
         bindR (addN (cur_pos self) amt) (\<lambda>p. Inr (Inr amt, \<lparr>cur_inner = inner, cur_pos = p\<rparr>))))"

definition Vec_capacity_ok :: "nat \<Rightarrow> unit res" where
  "Vec_capacity_ok n = assertR ''capacity overflow'' (n < 2 ^ 63)"

definition Cursor_Vec_write :: "cursor \<Rightarrow> u8 list \<Rightarrow> (nat io \<times> cursor) res" where
  "Cursor_Vec_write self buf =
     (let pos = cur_pos self in
      if pos \<ge> 2 ^ 64 then Inr (Inl (Error_new InvalidInput ''cursor position exceeds maximum possible vector length''), self)
      else
        bindR (if length (cur_inner self) < pos then
                 bindR (Vec_capacity_ok pos) (\<lambda>_. Inr (cur_inner self @ replicate (pos - length (cur_inner self)) 0))
               else Inr (cur_inner self)) (\<lambda>inner.
        let space = length inner - pos;
            left = take (min space (length buf)) buf;
            right = drop (min space (length buf)) buf
        in bindR (copy_at inner pos left) (\<lambda>inner.
           bindR (Vec_capacity_ok (length inner + length right)) (\<lambda>_.
           bindR (addN pos (length buf)) (\<lambda>p.
           Inr (Inr (length buf), \<lparr>cur_inner = inner @ right, cur_pos = p\<rparr>))))))"

subsection \<open>\<open>BufReader\<close>\<close>

record 'r buf_reader =
  br_inner :: 'r
  br_buf :: "u8 list"
  br_pos :: nat
  br_cap :: nat

definition BufReader_with_capacity :: "u8 list \<Rightarrow> 'r \<Rightarrow> 'r buf_reader" where
  "BufReader_with_capacity buffer inner = \<lparr>br_inner = inner, br_buf = buffer, br_pos = 0, br_cap = 0\<rparr>"

definition BufReader_is_empty :: "'r buf_reader \<Rightarrow> bool" where
  "BufReader_is_empty self \<longleftrightarrow> br_pos self = br_cap self"

definition BufReader_fill_buf :: "'r read_fn \<Rightarrow> 'r buf_reader fill_fn" where
  "BufReader_fill_buf rd self =
     bindR (if br_pos self \<ge> br_cap self then
              bindR (assertR ''assertion failed: self.pos == self.cap'' (br_pos self = br_cap self)) (\<lambda>_.
              bindR (rd (br_inner self) (br_buf self)) (\<lambda>(res, buf, inner).
              let self = self\<lparr>br_inner := inner, br_buf := buf\<rparr> in
              Inr (case res of
                     Inl e \<Rightarrow> (Some e, self)
                   | Inr n \<Rightarrow> (None, self\<lparr>br_cap := n, br_pos := 0\<rparr>))))
            else Inr (None, self)) (\<lambda>(err, self).
     case err of
       Some e \<Rightarrow> Inr (Inl e, self)
     | None \<Rightarrow> bindR (slice_range (br_buf self) (br_pos self) (br_cap self)) (\<lambda>b. Inr (Inr b, self)))"

definition BufReader_consume :: "'r buf_reader consume_fn" where
  "BufReader_consume self amt =
     bindR (addN (br_pos self) amt) (\<lambda>p. Inr (self\<lparr>br_pos := min p (br_cap self)\<rparr>))"

definition BufReader_read :: "'r read_fn \<Rightarrow> 'r buf_reader read_fn" where
  "BufReader_read rd self buf =
     (if br_pos self = br_cap self \<and> length buf \<ge> length (br_buf self) then
        bindR (rd (br_inner self) buf) (\<lambda>(res, buf, inner). Inr (res, buf, self\<lparr>br_inner := inner\<rparr>))
      else
        bindR (BufReader_fill_buf rd self) (\<lambda>(res, self).
        case res of
          Inl e \<Rightarrow> Inr (Inl e, buf, self)
        | Inr rem \<Rightarrow>
            bindR (slice_read rem buf) (\<lambda>(res, buf, _).
            case res of
              Inl e \<Rightarrow> Inr (Inl e, buf, self)
            | Inr nread \<Rightarrow> bindR (BufReader_consume self nread) (\<lambda>self. Inr (Inr nread, buf, self)))))"

text \<open>\<open>seek\<close> discards the buffer; a relative seek allows for what was read ahead.\<close>

definition BufReader_seek :: "'r seek_fn \<Rightarrow> 'r buf_reader \<Rightarrow> SeekFrom \<Rightarrow> (nat io \<times> 'r buf_reader) res" where
  "BufReader_seek sk self pos =
     bindR (case pos of
              Current n \<Rightarrow>
                bindR (subN (br_cap self) (br_pos self)) (\<lambda>remainder.
                case i64_checked_sub n (int remainder) of
                  Some offset \<Rightarrow> (case sk (br_inner self) (Current offset) of (res, inner) \<Rightarrow> Inr (res, self\<lparr>br_inner := inner\<rparr>))
                | None \<Rightarrow>
                    (case sk (br_inner self) (Current (- int remainder)) of
                       (Inl e, inner) \<Rightarrow> Inr (Inl e, self\<lparr>br_inner := inner\<rparr>)
                     | (Inr _, inner) \<Rightarrow>
                         let self = self\<lparr>br_inner := inner, br_pos := br_cap self\<rparr> in
                         (case sk inner (Current n) of (res, inner) \<Rightarrow> Inr (res, self\<lparr>br_inner := inner\<rparr>))))
            | _ \<Rightarrow> (case sk (br_inner self) pos of (res, inner) \<Rightarrow> Inr (res, self\<lparr>br_inner := inner\<rparr>))) (\<lambda>(res, self).
     case res of
       Inl e \<Rightarrow> Inr (Inl e, self)
     | Inr result \<Rightarrow> Inr (Inr result, self\<lparr>br_pos := br_cap self\<rparr>))"

subsection \<open>\<open>BufWriter\<close>\<close>

text \<open>\<open>bw_inner\<close> is \<open>None\<close> after \<open>into_inner\<close> has taken the writer out. \<open>bw_capacity\<close> is the capacity of the vector.\<close>

record 'w buf_writer =
  bw_inner :: "'w option"
  bw_buf :: "u8 list"
  bw_capacity :: nat
  bw_panicked :: bool

definition BufWriter_with_capacity :: "nat \<Rightarrow> 'w \<Rightarrow> 'w buf_writer" where
  "BufWriter_with_capacity cap inner = \<lparr>bw_inner = Some inner, bw_buf = [], bw_capacity = cap, bw_panicked = False\<rparr>"

text \<open>A call of the inner writer's \<open>write\<close> between setting and clearing \<open>panicked\<close>; unwinding leaves it set.\<close>

definition BufWriter_inner_write :: "'w write_fn \<Rightarrow> 'w buf_writer \<Rightarrow> u8 list \<Rightarrow> nat io outcome \<times> 'w buf_writer" where
  "BufWriter_inner_write wr self data =
     (let self = self\<lparr>bw_panicked := True\<rparr> in
      case bw_inner self of
        None \<Rightarrow> (Unwinds, self)
      | Some inner \<Rightarrow>
          (case wr inner data of
             (Unwinds, inner) \<Rightarrow> (Unwinds, self\<lparr>bw_inner := Some inner\<rparr>)
           | (Returns r, inner) \<Rightarrow> (Returns r, self\<lparr>bw_inner := Some inner, bw_panicked := False\<rparr>)))"

partial_function (option) flush_buf_loop ::
  "(i32 \<Rightarrow> ErrorKind) \<Rightarrow> 'w write_fn \<Rightarrow> 'w buf_writer \<Rightarrow> nat \<Rightarrow> (unit io outcome \<times> nat \<times> 'w buf_writer) option" where
  "flush_buf_loop dk wr self written =
     (if written < length (bw_buf self) then
        case BufWriter_inner_write wr self (drop written (bw_buf self)) of
          (Unwinds, self) \<Rightarrow> Some (Unwinds, written, self)
        | (Returns (Inr n), self) \<Rightarrow>
            if n = 0 then Some (Returns (Inl (Error_new WriteZero ''failed to write the buffered data'')), written, self)
            else flush_buf_loop dk wr self (written + n)
        | (Returns (Inl e), self) \<Rightarrow>
            if Error_kind dk e = Interrupted then flush_buf_loop dk wr self written
            else Some (Returns (Inl e), written, self)
      else Some (Returns (Inr ()), written, self))"

definition flush_buf ::
  "(i32 \<Rightarrow> ErrorKind) \<Rightarrow> 'w write_fn \<Rightarrow> 'w buf_writer \<Rightarrow> (unit io outcome \<times> 'w buf_writer) option" where
  "flush_buf dk wr self =
     Option.bind (flush_buf_loop dk wr self 0) (\<lambda>(res, written, self).
     case res of
       Unwinds \<Rightarrow> Some (Unwinds, self)
     | Returns r \<Rightarrow>
         if written > 0 then
           if written \<le> length (bw_buf self) then Some (Returns r, self\<lparr>bw_buf := drop written (bw_buf self)\<rparr>)
           else Some (Unwinds, self)
         else Some (Returns r, self))"

definition BufWriter_write ::
  "(i32 \<Rightarrow> ErrorKind) \<Rightarrow> 'w write_fn \<Rightarrow> 'w buf_writer \<Rightarrow> u8 list \<Rightarrow> (nat io outcome \<times> 'w buf_writer) option" where
  "BufWriter_write dk wr self buf =
     Option.bind (if length (bw_buf self) + length buf > bw_capacity self then flush_buf dk wr self
                  else Some (Returns (Inr ()), self)) (\<lambda>(res, self).
     case res of
       Unwinds \<Rightarrow> Some (Unwinds, self)
     | Returns (Inl e) \<Rightarrow> Some (Returns (Inl e), self)
     | Returns (Inr _) \<Rightarrow>
         if length buf \<ge> bw_capacity self then Some (BufWriter_inner_write wr self buf)
         else Some (Returns (Inr (length buf)), self\<lparr>bw_buf := bw_buf self @ buf\<rparr>))"

definition BufWriter_flush ::
  "(i32 \<Rightarrow> ErrorKind) \<Rightarrow> 'w write_fn \<Rightarrow> 'w flush_fn \<Rightarrow> 'w buf_writer \<Rightarrow> (unit io outcome \<times> 'w buf_writer) option" where
  "BufWriter_flush dk wr fl self =
     Option.bind (flush_buf dk wr self) (\<lambda>(res, self).
     case res of
       Returns (Inr _) \<Rightarrow>
         (case bw_inner self of
            None \<Rightarrow> Some (Unwinds, self)
          | Some inner \<Rightarrow> (case fl inner of (r, inner) \<Rightarrow> Some (r, self\<lparr>bw_inner := Some inner\<rparr>)))
     | r \<Rightarrow> Some (r, self))"

definition BufWriter_into_inner ::
  "(i32 \<Rightarrow> ErrorKind) \<Rightarrow> 'w write_fn \<Rightarrow> 'w buf_writer \<Rightarrow> ((('w buf_writer \<times> io_error) + 'w) outcome \<times> 'w buf_writer) option" where
  "BufWriter_into_inner dk wr self =
     Option.bind (flush_buf dk wr self) (\<lambda>(res, self).
     case res of
       Unwinds \<Rightarrow> Some (Unwinds, self)
     | Returns (Inl e) \<Rightarrow> Some (Returns (Inl (self, e)), self)
     | Returns (Inr _) \<Rightarrow>
         (case bw_inner self of
            None \<Rightarrow> Some (Unwinds, self)
          | Some w \<Rightarrow> Some (Returns (Inr w), self\<lparr>bw_inner := None\<rparr>)))"

text \<open>The inner \<open>seek\<close> of a writer does not unwind here.\<close>

definition BufWriter_seek ::
  "(i32 \<Rightarrow> ErrorKind) \<Rightarrow> 'w write_fn \<Rightarrow> 'w seek_fn \<Rightarrow> 'w buf_writer \<Rightarrow> SeekFrom \<Rightarrow> (nat io outcome \<times> 'w buf_writer) option" where
  "BufWriter_seek dk wr sk self pos =
     Option.bind (flush_buf dk wr self) (\<lambda>(res, self).
     case res of
       Unwinds \<Rightarrow> Some (Unwinds, self)
     | Returns (Inl e) \<Rightarrow> Some (Returns (Inl e), self)
     | Returns (Inr _) \<Rightarrow>
         (case bw_inner self of
            None \<Rightarrow> Some (Unwinds, self)
          | Some inner \<Rightarrow> (case sk inner pos of (r, inner) \<Rightarrow> Some (Returns r, self\<lparr>bw_inner := Some inner\<rparr>))))"

definition BufWriter_drop :: "(i32 \<Rightarrow> ErrorKind) \<Rightarrow> 'w write_fn \<Rightarrow> 'w buf_writer \<Rightarrow> 'w buf_writer option" where
  "BufWriter_drop dk wr self =
     (if bw_inner self \<noteq> None \<and> \<not> bw_panicked self
      then map_option snd (flush_buf dk wr self)
      else Some self)"

subsection \<open>\<open>LineWriter\<close>\<close>

record 'w line_writer =
  lw_inner :: "'w buf_writer"
  lw_need_flush :: bool

definition LineWriter_with_capacity :: "nat \<Rightarrow> 'w \<Rightarrow> 'w line_writer" where
  "LineWriter_with_capacity cap inner = \<lparr>lw_inner = BufWriter_with_capacity cap inner, lw_need_flush = False\<rparr>"

definition LineWriter_flush ::
  "(i32 \<Rightarrow> ErrorKind) \<Rightarrow> 'w write_fn \<Rightarrow> 'w flush_fn \<Rightarrow> 'w line_writer \<Rightarrow> (unit io outcome \<times> 'w line_writer) option" where
  "LineWriter_flush dk wr fl self =
     Option.bind (BufWriter_flush dk wr fl (lw_inner self)) (\<lambda>(res, inner).
     let self = self\<lparr>lw_inner := inner\<rparr> in
     case res of
       Returns (Inr _) \<Rightarrow> Some (Returns (Inr ()), self\<lparr>lw_need_flush := False\<rparr>)
     | r \<Rightarrow> Some (r, self))"

definition LineWriter_inner_write ::
  "(i32 \<Rightarrow> ErrorKind) \<Rightarrow> 'w write_fn \<Rightarrow> 'w line_writer \<Rightarrow> u8 list \<Rightarrow> (nat io outcome \<times> 'w line_writer) option" where
  "LineWriter_inner_write dk wr self buf =
     map_option (\<lambda>(res, inner). (res, self\<lparr>lw_inner := inner\<rparr>)) (BufWriter_write dk wr (lw_inner self) buf)"

definition LineWriter_into_inner ::
  "(i32 \<Rightarrow> ErrorKind) \<Rightarrow> 'w write_fn \<Rightarrow> 'w line_writer \<Rightarrow> ((('w line_writer \<times> io_error) + 'w) outcome) option" where
  "LineWriter_into_inner dk wr self =
     Option.bind (BufWriter_into_inner dk wr (lw_inner self)) (\<lambda>(res, _).
     case res of
       Unwinds \<Rightarrow> Some Unwinds
     | Returns (Inr w) \<Rightarrow> Some (Returns (Inr w))
     | Returns (Inl (buf, e)) \<Rightarrow> Some (Returns (Inl (\<lparr>lw_inner = buf, lw_need_flush = False\<rparr>, e))))"

definition LineWriter_write ::
  "(i32 \<Rightarrow> ErrorKind) \<Rightarrow> 'w write_fn \<Rightarrow> 'w flush_fn \<Rightarrow> 'w line_writer \<Rightarrow> u8 list \<Rightarrow> (nat io outcome \<times> 'w line_writer) option" where
  "LineWriter_write dk wr fl self buf =
     Option.bind (if lw_need_flush self then LineWriter_flush dk wr fl self else Some (Returns (Inr ()), self)) (\<lambda>(res, self).
     case res of
       Unwinds \<Rightarrow> Some (Unwinds, self)
     | Returns (Inl e) \<Rightarrow> Some (Returns (Inl e), self)
     | Returns (Inr _) \<Rightarrow>
         (case memrchr_in 10 buf of
            None \<Rightarrow> LineWriter_inner_write dk wr self buf
          | Some i \<Rightarrow>
              Option.bind (LineWriter_inner_write dk wr self (take (i + 1) buf)) (\<lambda>(res, self).
              case res of
                Unwinds \<Rightarrow> Some (Unwinds, self)
              | Returns (Inl e) \<Rightarrow> Some (Returns (Inl e), self)
              | Returns (Inr n) \<Rightarrow>
                  Option.bind (LineWriter_flush dk wr fl (self\<lparr>lw_need_flush := True\<rparr>)) (\<lambda>(res, self).
                  case res of
                    Unwinds \<Rightarrow> Some (Unwinds, self)
                  | Returns r \<Rightarrow>
                      if isl r \<or> n \<noteq> i + 1 then Some (Returns (Inr n), self)
                      else
                        Option.bind (LineWriter_inner_write dk wr self (drop (i + 1) buf)) (\<lambda>(res, self).
                        case res of
                          Unwinds \<Rightarrow> Some (Unwinds, self)
                        | Returns (Inr k) \<Rightarrow> Some (Returns (Inr (n + k)), self)
                        | Returns (Inl _) \<Rightarrow> Some (Returns (Inr n), self))))))"

end
