(* ===== verification/Io_Spec.thy ===== *)
theory Io_Spec
  imports Io_Read Io_Buffered
begin

section \<open>\<open>io\<close>: the buffering readers\<close>

text \<open>
  The readers in memory meet the contracts, and \<open>BufReader\<close> turns any reader into a buffered one of the same bytes.
\<close>

subsection \<open>Readers in memory\<close>

interpretation slice_r: reader dk slice_read "\<lambda>_. True" "\<lambda>s. s" "\<lambda>_. 0" for dk
  by unfold_locales (auto simp: slice_read_def read_law_def Let_def min_def)

interpretation slice_b: buffered dk slice_fill_buf slice_consume "\<lambda>_. True" "\<lambda>s. s" "\<lambda>s. s" "\<lambda>_. 0" for dk
  by unfold_locales (auto simp: slice_fill_buf_def slice_consume_def fill_law_def slice_from_def)

definition cursor_ok :: "cursor \<Rightarrow> bool" where
  "cursor_ok c \<longleftrightarrow> length (cur_inner c) < 2 ^ 63 \<and> cur_pos c < 2 ^ 64"

lemma Cursor_fill_buf_eq: "Cursor_fill_buf c = Inr (Inr (drop (cur_pos c) (cur_inner c)), c)"
  by (simp add: Cursor_fill_buf_def slice_from_def min_def)

interpretation cursor_r: reader dk Cursor_read cursor_ok "\<lambda>c. drop (cur_pos c) (cur_inner c)" "\<lambda>_. 0" for dk
proof unfold_locales
  fix c :: cursor and buf :: "u8 list"
  assume ok: "cursor_ok c"
  let ?rem = "drop (cur_pos c) (cur_inner c)"
  let ?n = "min (length buf) (length ?rem)"
  have "addN (cur_pos c) ?n = Inr (cur_pos c + ?n)"
    using ok by (cases "cur_pos c \<le> length (cur_inner c)") (auto simp: addN_def cursor_ok_def)
  moreover have "cursor_ok (c\<lparr>cur_pos := cur_pos c + ?n\<rparr>)"
    using ok by (cases "cur_pos c \<le> length (cur_inner c)") (auto simp: cursor_ok_def)
  ultimately show "\<exists>res buf' c'. Cursor_read c buf = Inr (res, buf', c') \<and> cursor_ok c' \<and>
      read_law dk (\<lambda>c. drop (cur_pos c) (cur_inner c)) (\<lambda>_. 0) c buf res buf' c'"
    by (simp add: Cursor_read_def Cursor_fill_buf_eq slice_read_def Let_def read_law_def)
      (auto simp: min_def add.commute)
qed

interpretation cursor_b: buffered dk Cursor_fill_buf Cursor_consume cursor_ok "\<lambda>c. drop (cur_pos c) (cur_inner c)"
  "\<lambda>c. drop (cur_pos c) (cur_inner c)" "\<lambda>_. 0" for dk
proof unfold_locales
  fix c :: cursor and amt
  assume "cursor_ok c" "amt \<le> length (drop (cur_pos c) (cur_inner c))"
  then show "\<exists>c'. Cursor_consume c amt = Inr c' \<and> cursor_ok c' \<and>
      drop (cur_pos c') (cur_inner c') = drop amt (drop (cur_pos c) (cur_inner c)) \<and>
      drop (cur_pos c') (cur_inner c') = drop amt (drop (cur_pos c) (cur_inner c)) \<and> (0::nat) \<le> 0"
    by (cases "cur_pos c \<le> length (cur_inner c)") (auto simp: Cursor_consume_def addN_def cursor_ok_def add.commute)
qed (simp add: Cursor_fill_buf_eq fill_law_def)

interpretation cursor_slice: two_readers dk Cursor_read cursor_ok "\<lambda>c. drop (cur_pos c) (cur_inner c)" "\<lambda>_. 0"
  slice_read "\<lambda>_. True" "\<lambda>s. s" "\<lambda>_. 0" for dk
  by unfold_locales

subsection \<open>\<open>BufReader\<close>\<close>

definition br_avail :: "'r buf_reader \<Rightarrow> u8 list" where
  "br_avail b = take (br_cap b - br_pos b) (drop (br_pos b) (br_buf b))"

definition br_ok :: "('r \<Rightarrow> bool) \<Rightarrow> 'r buf_reader \<Rightarrow> bool" where
  "br_ok ok b \<longleftrightarrow> ok (br_inner b) \<and> br_pos b \<le> br_cap b \<and> br_cap b \<le> length (br_buf b) \<and>
     br_buf b \<noteq> [] \<and> length (br_buf b) < 2 ^ 63"

definition br_rest :: "('r \<Rightarrow> u8 list) \<Rightarrow> 'r buf_reader \<Rightarrow> u8 list" where
  "br_rest rest b = br_avail b @ rest (br_inner b)"

lemma br_avail_length: "br_ok ok b \<Longrightarrow> length (br_avail b) = br_cap b - br_pos b"
  by (auto simp: br_ok_def br_avail_def)

lemma BufReader_consume_ok:
  assumes "br_ok ok b" "amt \<le> length (br_avail b)"
  shows "\<exists>b'. BufReader_consume b amt = Inr b' \<and> br_ok ok b' \<and> br_inner b' = br_inner b \<and> br_avail b' = drop amt (br_avail b)"
proof -
  have "br_pos b + amt \<le> br_cap b" "br_cap b < 2 ^ 63" using assms br_avail_length [OF assms(1)] by (auto simp: br_ok_def)
  then show ?thesis using assms(1)
    by (auto simp: BufReader_consume_def addN_def br_ok_def br_avail_def drop_take add.commute min_absorb1)
qed

context reader
begin

lemma BufReader_fill_ok:
  assumes "br_ok ok b"
  shows "\<exists>res b'. BufReader_fill_buf rd b = Inr (res, b') \<and> br_ok ok b' \<and>
    fill_law dk (br_rest rest) br_avail (\<lambda>b. intr (br_inner b)) b res b' \<and> br_rest rest b = br_rest rest b'"
proof (cases "br_pos b = br_cap b")
  case False
  then have "br_pos b < br_cap b" "br_cap b \<le> length (br_buf b)" using assms by (simp_all add: br_ok_def)
  moreover have "br_avail b \<noteq> []" using calculation by (simp add: br_avail_def)
  ultimately show ?thesis using assms
    by (simp add: BufReader_fill_buf_def slice_range_def fill_law_def br_rest_def) (simp add: br_avail_def)
next
  case True
  then have empty: "br_avail b = []" by (simp add: br_avail_def)
  from assms have "ok (br_inner b)" by (simp add: br_ok_def)
  then show ?thesis
  proof (cases rule: read_cases [where buf = "br_buf b"])
    case (data n buf' r')
    have "\<exists>t. rest (br_inner b) = take n (rest (br_inner b)) @ t" by (metis append_take_drop_id)
    with data show ?thesis using True assms empty
      by (auto simp: BufReader_fill_buf_def slice_range_def fill_law_def br_rest_def br_ok_def br_avail_def)
  next
    case (interrupted e buf' r')
    then show ?thesis using True assms
      by (auto simp: BufReader_fill_buf_def fill_law_def br_rest_def br_ok_def br_avail_def)
  next
    case (error e buf' r')
    then show ?thesis using True assms
      by (auto simp: BufReader_fill_buf_def fill_law_def br_rest_def br_ok_def br_avail_def)
  qed
qed

lemma BufReader_buffered:
  "buffered dk (BufReader_fill_buf rd) BufReader_consume (br_ok ok) (br_rest rest) br_avail (\<lambda>b. intr (br_inner b))"
proof unfold_locales
  fix b :: "'r buf_reader" and amt
  assume "br_ok ok b" "amt \<le> length (br_avail b)"
  with BufReader_consume_ok [OF this]
  show "\<exists>b'. BufReader_consume b amt = Inr b' \<and> br_ok ok b' \<and> br_rest rest b' = drop amt (br_rest rest b) \<and>
      br_avail b' = drop amt (br_avail b) \<and> intr (br_inner b') \<le> intr (br_inner b)"
    by (auto simp: br_rest_def)
qed (use BufReader_fill_ok in blast)

lemma BufReader_reader:
  "reader dk (BufReader_read rd) (br_ok ok) (br_rest rest) (\<lambda>b. intr (br_inner b))"
proof unfold_locales
  fix b :: "'r buf_reader" and buf :: "u8 list"
  assume ok: "br_ok ok b"
  show "\<exists>res buf' b'. BufReader_read rd b buf = Inr (res, buf', b') \<and> br_ok ok b' \<and>
      read_law dk (br_rest rest) (\<lambda>b. intr (br_inner b)) b buf res buf' b'"
  proof (cases "br_pos b = br_cap b \<and> length buf \<ge> length (br_buf b)")
    case True
    have "ok (br_inner b)" using ok by (simp add: br_ok_def)
    from read_ok [OF this, of buf] show ?thesis using True ok
      by (fastforce simp: BufReader_read_def read_law_def br_rest_def br_avail_def br_ok_def split: sum.splits)
  next
    case False
    obtain res b' where f: "BufReader_fill_buf rd b = Inr (res, b')" "br_ok ok b'"
      "fill_law dk (br_rest rest) br_avail (\<lambda>b. intr (br_inner b)) b res b'"
      using BufReader_fill_ok [OF ok] by blast
    show ?thesis
    proof (cases res)
      case (Inl e)
      then show ?thesis using f by (auto simp: BufReader_read_def if_not_P [OF False] fill_law_def read_law_def)
    next
      case (Inr bs)
      let ?n = "min (length buf) (length bs)"
      have av: "br_avail b' = bs" "br_rest rest b' = br_rest rest b" "bs = [] \<longrightarrow> br_rest rest b = []" "intr (br_inner b') \<le> intr (br_inner b)"
        using f(3) Inr by (simp_all add: fill_law_def)
      obtain b'' where c: "BufReader_consume b' ?n = Inr b''" "br_ok ok b''" "br_inner b'' = br_inner b'" "br_avail b'' = drop ?n bs"
        using BufReader_consume_ok [OF f(2), of ?n] av(1) by auto
      have "br_rest rest b = bs @ rest (br_inner b')" "br_rest rest b'' = drop ?n bs @ rest (br_inner b')"
        using av(1,2) c(3,4) by (simp_all add: br_rest_def)
      then show ?thesis using f(1) Inr c(1-3) av(3,4)
        by (auto simp: BufReader_read_def if_not_P [OF False] slice_read_def Let_def read_law_def min_def)
    qed
  qed
qed

end

interpretation br_cursor_b: buffered dk "BufReader_fill_buf Cursor_read" BufReader_consume "br_ok cursor_ok"
  "br_rest (\<lambda>c. drop (cur_pos c) (cur_inner c))" br_avail "\<lambda>_. 0" for dk
  by (rule cursor_r.BufReader_buffered)

text \<open>C29: Over any reader that keeps its contract, a \<open>BufReader\<close> with a buffer that is not empty keeps the contracts of \<open>Read\<close> and of \<open>BufRead\<close>: whatever the
  order of \<open>read\<close>, \<open>fill_buf\<close> and \<open>consume\<close>, the bytes it still has to give are the unread part of its buffer followed by those of the inner
  reader, and no call loses or repeats one. \<open>Chain\<close> gives the bytes of its two readers one after the other, and \<open>Take\<close> the first \<open>limit\<close> bytes of its reader.\<close>

theorem Read_adaptors_same_bytes:
  assumes "reader dk rd ok rest intr" "reader dk rd2 ok2 rest2 intr2"
  shows "reader dk (BufReader_read rd) (br_ok ok) (br_rest rest) (\<lambda>b. intr (br_inner b)) \<and>
    buffered dk (BufReader_fill_buf rd) BufReader_consume (br_ok ok) (br_rest rest) br_avail (\<lambda>b. intr (br_inner b)) \<and>
    reader dk (Chain_read rd rd2) (\<lambda>c. ok (ch_first c) \<and> ok2 (ch_second c))
      (\<lambda>c. (if done_first c then [] else rest (ch_first c)) @ rest2 (ch_second c)) (\<lambda>c. intr (ch_first c) + intr2 (ch_second c)) \<and>
    reader dk (Take_read rd) (\<lambda>t. ok (tk_inner t)) (\<lambda>t. take (limit t) (rest (tk_inner t))) (\<lambda>t. intr (tk_inner t))"
  by (intro conjI reader.BufReader_reader reader.BufReader_buffered reader.Take_reader two_readers.Chain_reader two_readers.intro assms)

lemma Read_adaptors_same_bytes_witness:
  "\<exists>res b r. BufReader_read Cursor_read \<lparr>br_inner = Cursor_new [5, 6, 7], br_buf = [0, 0], br_pos = 0, br_cap = 0\<rparr> [9] = Inr (res, b, r) \<and>
     br_rest (\<lambda>c. drop (cur_pos c) (cur_inner c)) r = (case res of Inr n \<Rightarrow> drop n [5, 6, 7] | Inl _ \<Rightarrow> [5, 6, 7])"
proof -
  let ?b = "\<lparr>br_inner = Cursor_new [5, 6, 7], br_buf = [0, 0], br_pos = 0, br_cap = 0\<rparr>"
  have law: "reader redox_decode_error_kind (BufReader_read Cursor_read) (br_ok cursor_ok) (br_rest (\<lambda>c. drop (cur_pos c) (cur_inner c))) (\<lambda>b. 0)"
    using Read_adaptors_same_bytes [OF cursor_r.reader_axioms cursor_r.reader_axioms] by blast
  have b: "br_ok cursor_ok ?b" "br_rest (\<lambda>c. drop (cur_pos c) (cur_inner c)) ?b = [5, 6, 7]"
    by (simp_all add: br_ok_def cursor_ok_def Cursor_new_def br_rest_def br_avail_def)
  obtain res b r where "BufReader_read Cursor_read ?b [9] = Inr (res, b, r)"
    "read_law redox_decode_error_kind (br_rest (\<lambda>c. drop (cur_pos c) (cur_inner c))) (\<lambda>b. 0) ?b [9] res b r"
    using reader.read_ok [OF law b(1), of "[9]"] by blast
  moreover have "br_rest (\<lambda>c. drop (cur_pos c) (cur_inner c)) r = (case res of Inr n \<Rightarrow> drop n [5, 6, 7] | Inl _ \<Rightarrow> [5, 6, 7])"
    using calculation(2) b(2) by (cases res) (simp_all only: read_law_def sum.case)
  ultimately show ?thesis by blast
qed

lemma read_until_returns_line_witness:
  "\<exists>res taken r'. read_until redox_decode_error_kind (BufReader_fill_buf Cursor_read) BufReader_consume
     \<lparr>br_inner = Cursor_new [1, 2, 10, 3], br_buf = [0, 0], br_pos = 0, br_cap = 0\<rparr> 10 [] = ret (res, taken, r') \<and>
     (\<forall>n. res = Inr n \<longrightarrow> n = 3 \<and> taken = [1, 2, 10])"
proof -
  let ?b = "\<lparr>br_inner = Cursor_new [1, 2, 10, 3], br_buf = [0, 0], br_pos = 0, br_cap = 0\<rparr>"
  have "br_ok cursor_ok ?b" "br_rest (\<lambda>c. drop (cur_pos c) (cur_inner c)) ?b = [1, 2, 10, 3]"
    by (simp_all add: br_ok_def cursor_ok_def Cursor_new_def br_rest_def br_avail_def)
  with read_until_returns_line [OF br_cursor_b.buffered_axioms, of ?b redox_decode_error_kind 10 "[]"]
  obtain res taken r' where r: "read_until redox_decode_error_kind (BufReader_fill_buf Cursor_read) BufReader_consume ?b 10 [] = ret (res, [] @ taken, r')"
    "case res of Inr n \<Rightarrow> n = length taken \<and> up_to 10 [1, 2, 10, 3] = taken
     | Inl e \<Rightarrow> Error_kind redox_decode_error_kind e \<noteq> Interrupted \<and> 10 \<notin> set taken"
    by (simp only:) blast
  have up: "up_to 10 [1, 2, 10, 3 :: u8] = [1, 2, 10]" by (simp add: up_to_def)
  have "\<forall>n. res = Inr n \<longrightarrow> n = 3 \<and> taken = [1, 2, 10]" using r(2) [unfolded up] by (cases res) auto
  with r(1) show ?thesis by (intro exI conjI) (simp_all only: append_Nil)
qed

subsection \<open>A reader that breaks its contract\<close>

text \<open>
  \<open>read_to_end\<close> adds the count that \<open>read\<close> returns to the length of the vector without checking it. A safe implementation of \<open>Read\<close> that
  returns more than the length of the buffer makes the guard set the vector's length past its initialised part.
\<close>

lemma read_to_end_trusts_reader:
  "read_to_end dk (\<lambda>r buf. Inr (Inr (length buf + 1), buf, r)) (\<lambda>_. replicate 32 0) () [] =
     Some (Inl (Undefined ''Guard::drop sets the length past the initialised part''))"
  by (simp add: read_to_end_def read_to_end_loop.simps [of _ _ _ _ _ 0] read_to_end_loop.simps [of _ _ _ _ _ 33])

end
