(* ===== verification/Io_Write.thy ===== *)
theory Io_Write
  imports Io_Buffered
begin

section \<open>\<open>io\<close>: the buffering writers\<close>

text \<open>
  A writer has the bytes it has accepted so far. \<open>write\<close> accepts a first part of the data and reports its length; on an error it accepts nothing; when
  it unwinds it may have accepted any first part. \<open>BufWriter\<close> and \<open>LineWriter\<close> keep the order of the bytes and neither lose nor
  repeat one, also when the inner writer fails or unwinds.
\<close>

definition write_law ::
  "(i32 \<Rightarrow> ErrorKind) \<Rightarrow> ('w \<Rightarrow> u8 list) \<Rightarrow> ('w \<Rightarrow> nat) \<Rightarrow> 'w \<Rightarrow> u8 list \<Rightarrow> nat io outcome \<Rightarrow> 'w \<Rightarrow> bool" where
  "write_law dk sink intr w buf res w' \<longleftrightarrow>
     (case res of
        Returns (Inr n) \<Rightarrow> n \<le> length buf \<and> sink w' = sink w @ take n buf \<and> intr w' \<le> intr w
      | Returns (Inl e) \<Rightarrow> sink w' = sink w \<and> (if Error_kind dk e = Interrupted then intr w' < intr w else intr w' \<le> intr w)
      | Unwinds \<Rightarrow> \<exists>k. sink w' = sink w @ take k buf)"

locale writer =
  fixes dk :: "i32 \<Rightarrow> ErrorKind" and wr :: "'w write_fn" and fl :: "'w flush_fn" and ok :: "'w \<Rightarrow> bool"
    and sink :: "'w \<Rightarrow> u8 list" and intr :: "'w \<Rightarrow> nat"
  assumes write_ok: "ok w \<Longrightarrow> wr w buf = (res, w') \<Longrightarrow> ok w' \<and> write_law dk sink intr w buf res w'"
    and flush_ok: "ok w \<Longrightarrow> fl w = (r, w') \<Longrightarrow> ok w' \<and> sink w' = sink w \<and> intr w' \<le> intr w"
begin

lemma write_cases:
  assumes "ok w"
  obtains (written) n w' where "wr w buf = (Returns (Inr n), w')" "ok w'" "n \<le> length buf" "sink w' = sink w @ take n buf" "intr w' \<le> intr w"
  | (interrupted) e w' where "wr w buf = (Returns (Inl e), w')" "ok w'" "sink w' = sink w" "Error_kind dk e = Interrupted" "intr w' < intr w"
  | (error) e w' where "wr w buf = (Returns (Inl e), w')" "ok w'" "sink w' = sink w" "Error_kind dk e \<noteq> Interrupted" "intr w' \<le> intr w"
  | (unwinds) k w' where "wr w buf = (Unwinds, w')" "ok w'" "sink w' = sink w @ take k buf"
proof (cases "wr w buf")
  case (Pair res w')
  then show ?thesis using write_ok [OF assms Pair] that
    by (cases res) (auto simp: write_law_def split: sum.splits if_splits)
qed

lemma write_all_ends:
  "ok w \<Longrightarrow> \<exists>res k w'. write_all dk wr w buf = Some (res, w') \<and> ok w' \<and> sink w' = sink w @ take k buf \<and>
     (res = Returns (Inr ()) \<longrightarrow> length buf \<le> k)"
proof (induction "length buf + intr w" arbitrary: w buf rule: less_induct)
  case less
  show ?case
  proof (cases "buf = []")
    case True
    then show ?thesis using less.prems by (subst write_all.simps) simp
  next
    case False
    from less.prems show ?thesis
    proof (cases rule: write_cases [where buf = buf])
      case (written n w')
      show ?thesis
      proof (cases "n = 0")
        case True
        then show ?thesis using written False by (subst write_all.simps) (auto intro!: exI [of _ 0])
      next
        case pos: False
        then have "length (drop n buf) + intr w' < length buf + intr w" using written(3,5) by simp
        from less.hyps [OF this written(2)] obtain res k w'' where IH: "write_all dk wr w' (drop n buf) = Some (res, w'')" "ok w''"
          "sink w'' = sink w' @ take k (drop n buf)" "res = Returns (Inr ()) \<longrightarrow> length (drop n buf) \<le> k" by blast
        have "write_all dk wr w buf = Some (res, w'')" using written(1,3) False pos IH(1) by (subst write_all.simps) simp
        moreover have "sink w'' = sink w @ take (n + k) buf" using IH(3) written(4) by (simp add: take_add)
        moreover have "res = Returns (Inr ()) \<longrightarrow> length buf \<le> n + k" using IH(4) by auto
        ultimately show ?thesis using IH(2) by blast
      qed
    next
      case (interrupted e w')
      then have "length buf + intr w' < length buf + intr w" by simp
      from less.hyps [OF this interrupted(2)] show ?thesis using interrupted False
        by (subst write_all.simps) simp
    next
      case (error e w')
      then show ?thesis using False by (subst write_all.simps) (auto intro!: exI [of _ 0])
    next
      case (unwinds k w')
      then show ?thesis using False by (subst write_all.simps) auto
    qed
  qed
qed

end

subsection \<open>\<open>BufWriter\<close>\<close>

definition bw_sink :: "('w \<Rightarrow> u8 list) \<Rightarrow> 'w buf_writer \<Rightarrow> u8 list" where
  "bw_sink sink b = (case bw_inner b of Some w \<Rightarrow> sink w | None \<Rightarrow> [])"

definition bw_stream :: "('w \<Rightarrow> u8 list) \<Rightarrow> 'w buf_writer \<Rightarrow> u8 list" where
  "bw_stream sink b = bw_sink sink b @ bw_buf b"

definition bw_ok :: "('w \<Rightarrow> bool) \<Rightarrow> 'w buf_writer \<Rightarrow> bool" where
  "bw_ok ok b \<longleftrightarrow> (\<exists>w. bw_inner b = Some w \<and> ok w) \<and> \<not> bw_panicked b \<and> length (bw_buf b) \<le> bw_capacity b"

text \<open>After unwinding: what the inner writer has is a first part of the bytes given, and dropping the writer keeps it so.\<close>

definition bw_unwound :: "('w \<Rightarrow> bool) \<Rightarrow> ('w \<Rightarrow> u8 list) \<Rightarrow> 'w buf_writer \<Rightarrow> u8 list \<Rightarrow> bool" where
  "bw_unwound ok sink b s \<longleftrightarrow>
     (bw_panicked b \<and> bw_inner b \<noteq> None \<and> (\<exists>t. s = bw_sink sink b @ t)) \<or> (bw_ok ok b \<and> (\<exists>t. s = bw_stream sink b @ t))"

lemma bw_unwound_extend: "bw_unwound ok sink b s \<Longrightarrow> bw_unwound ok sink b (s @ t)"
  by (auto simp: bw_unwound_def)

context writer
begin

lemma flush_buf_loop_ends:
  "bw_inner b = Some w \<Longrightarrow> ok w \<Longrightarrow> \<not> bw_panicked b \<Longrightarrow> written \<le> length (bw_buf b) \<Longrightarrow>
   \<exists>res n w' k. flush_buf_loop dk wr b written = Some (res, n, b\<lparr>bw_inner := Some w', bw_panicked := (res = Unwinds)\<rparr>) \<and> ok w' \<and>
     sink w' = sink w @ take k (drop written (bw_buf b)) \<and> n \<le> length (bw_buf b) \<and>
     (res \<noteq> Unwinds \<longrightarrow> n = written + k) \<and> (res = Returns (Inr ()) \<longrightarrow> n = length (bw_buf b))"
proof (induction "length (bw_buf b) - written + intr w" arbitrary: b w written rule: less_induct)
  case less
  let ?data = "drop written (bw_buf b)"
  note step = flush_buf_loop.simps [of dk wr b written]
  show ?case
  proof (cases "written < length (bw_buf b)")
    case False
    then have "flush_buf_loop dk wr b written = Some (Returns (Inr ()), written, b\<lparr>bw_inner := Some w, bw_panicked := False\<rparr>)"
      using less.prems by (subst step) (cases b, simp)
    then show ?thesis using False less.prems(2,4) by (intro exI [of _ "Returns (Inr ())"] exI [of _ written] exI [of _ w] exI [of _ 0]) simp
  next
    case lt: True
    from less.prems(2) show ?thesis
    proof (cases rule: write_cases [where buf = ?data])
      case (written n w')
      let ?b = "b\<lparr>bw_inner := Some w', bw_panicked := False\<rparr>"
      have iw: "BufWriter_inner_write wr b ?data = (Returns (Inr n), ?b)"
        using less.prems(1) written(1) by (simp add: BufWriter_inner_write_def)
      show ?thesis
      proof (cases "n = 0")
        case True
        then have "flush_buf_loop dk wr b written = Some (Returns (Inl (Error_new WriteZero ''failed to write the buffered data'')), written, ?b)"
          using iw lt by (subst step) simp
        then show ?thesis using True written lt
          by (intro exI [of _ "Returns (Inl (Error_new WriteZero ''failed to write the buffered data''))"] exI [of _ written] exI [of _ w'] exI [of _ 0]) simp
      next
        case False
        then have "length (bw_buf ?b) - (written + n) + intr w' < length (bw_buf b) - written + intr w" using written(3,5) lt by simp
        moreover have "bw_inner ?b = Some w'" "\<not> bw_panicked ?b" "written + n \<le> length (bw_buf ?b)" using written(3) lt by simp_all
        ultimately obtain res m w'' k where IH:
          "flush_buf_loop dk wr ?b (written + n) = Some (res, m, ?b\<lparr>bw_inner := Some w'', bw_panicked := (res = Unwinds)\<rparr>)" "ok w''"
          "sink w'' = sink w' @ take k (drop (written + n) (bw_buf ?b))" "m \<le> length (bw_buf ?b)"
          "res \<noteq> Unwinds \<longrightarrow> m = written + n + k" "res = Returns (Inr ()) \<longrightarrow> m = length (bw_buf ?b)"
          using less.hyps [of ?b "written + n" w'] written(2) by blast
        have "flush_buf_loop dk wr b written = Some (res, m, b\<lparr>bw_inner := Some w'', bw_panicked := (res = Unwinds)\<rparr>)"
          using iw lt False IH(1) by (subst step) simp
        moreover have "sink w'' = sink w @ take (n + k) ?data" 
          unfolding IH(3) written(4) take_add [of n k ?data] by (simp add: add.commute)
        moreover have "m \<le> length (bw_buf b)" "res \<noteq> Unwinds \<longrightarrow> m = written + (n + k)" "res = Returns (Inr ()) \<longrightarrow> m = length (bw_buf b)"
          using IH(4-6) by simp_all
        ultimately show ?thesis using IH(2) by blast
      qed
    next
      case (interrupted e w')
      let ?b = "b\<lparr>bw_inner := Some w', bw_panicked := False\<rparr>"
      have "BufWriter_inner_write wr b ?data = (Returns (Inl e), ?b)"
        using less.prems(1) interrupted(1) by (simp add: BufWriter_inner_write_def)
      then have "flush_buf_loop dk wr b written = flush_buf_loop dk wr ?b written" using lt interrupted(4) by (subst step) simp
      then show ?thesis using less.hyps [of ?b written w'] interrupted(2,3,5) lt by simp
    next
      case (error e w')
      have "BufWriter_inner_write wr b ?data = (Returns (Inl e), b\<lparr>bw_inner := Some w', bw_panicked := False\<rparr>)"
        using less.prems(1) error(1) by (simp add: BufWriter_inner_write_def)
      then have "flush_buf_loop dk wr b written = Some (Returns (Inl e), written, b\<lparr>bw_inner := Some w', bw_panicked := False\<rparr>)"
        using lt error(4) by (subst step) simp
      then show ?thesis using error lt by (intro exI [of _ "Returns (Inl e)"] exI [of _ written] exI [of _ w'] exI [of _ 0]) simp
    next
      case (unwinds k w')
      have "BufWriter_inner_write wr b ?data = (Unwinds, b\<lparr>bw_inner := Some w', bw_panicked := True\<rparr>)"
        using less.prems(1) unwinds(1) by (simp add: BufWriter_inner_write_def)
      then have "flush_buf_loop dk wr b written = Some (Unwinds, written, b\<lparr>bw_inner := Some w', bw_panicked := True\<rparr>)"
        using lt by (subst step) simp
      then show ?thesis using unwinds lt by (intro exI [of _ Unwinds] exI [of _ written] exI [of _ w'] exI [of _ k]) simp
    qed
  qed
qed

lemma flush_buf_ok:
  assumes "bw_ok ok b"
  shows "\<exists>res b'. flush_buf dk wr b = Some (res, b') \<and> bw_capacity b' = bw_capacity b \<and> set (bw_buf b') \<subseteq> set (bw_buf b) \<and>
    (case res of
       Returns r \<Rightarrow> bw_ok ok b' \<and> bw_stream sink b' = bw_stream sink b \<and> (r = Inr () \<longrightarrow> bw_buf b' = [])
     | Unwinds \<Rightarrow> bw_unwound ok sink b' (bw_stream sink b))"
proof -
  obtain w where w: "bw_inner b = Some w" "ok w" "\<not> bw_panicked b" "length (bw_buf b) \<le> bw_capacity b"
    using assms by (auto simp: bw_ok_def)
  obtain res n w' k where l: "flush_buf_loop dk wr b 0 = Some (res, n, b\<lparr>bw_inner := Some w', bw_panicked := (res = Unwinds)\<rparr>)" "ok w'"
    "sink w' = sink w @ take k (bw_buf b)" "n \<le> length (bw_buf b)" "res \<noteq> Unwinds \<longrightarrow> n = k"
    "res = Returns (Inr ()) \<longrightarrow> n = length (bw_buf b)"
    using flush_buf_loop_ends [OF w(1-3), of 0] by auto
  show ?thesis
  proof (cases res)
    case Unwinds
    have "\<exists>t. bw_stream sink b = sink w' @ t"
      using l(3) w(1) by (auto simp: bw_stream_def bw_sink_def intro!: exI [of _ "drop k (bw_buf b)"])
    then show ?thesis using l(1) Unwinds by (simp add: flush_buf_def bw_unwound_def bw_sink_def)
  next
    case (Returns r)
    then have "flush_buf dk wr b = Some (Returns r, b\<lparr>bw_inner := Some w', bw_panicked := False, bw_buf := drop k (bw_buf b)\<rparr>)"
      using l(1,4,5) by (auto simp: flush_buf_def)
    moreover have "r = Inr () \<longrightarrow> drop k (bw_buf b) = []" using l(5,6) Returns by auto
    ultimately show ?thesis using l(2,3,4,5) w Returns
      by (auto simp: bw_ok_def bw_stream_def bw_sink_def dest: in_set_dropD)
  qed
qed

lemma BufWriter_flush_ok:
  assumes "bw_ok ok b"
  shows "\<exists>res b'. BufWriter_flush dk wr fl b = Some (res, b') \<and> set (bw_buf b') \<subseteq> set (bw_buf b) \<and>
    (case res of
       Returns r \<Rightarrow> bw_ok ok b' \<and> bw_stream sink b' = bw_stream sink b \<and> (r = Inr () \<longrightarrow> bw_buf b' = [])
     | Unwinds \<Rightarrow> bw_unwound ok sink b' (bw_stream sink b))"
proof -
  obtain res b' where f: "flush_buf dk wr b = Some (res, b')" "set (bw_buf b') \<subseteq> set (bw_buf b)"
    "case res of
       Returns r \<Rightarrow> bw_ok ok b' \<and> bw_stream sink b' = bw_stream sink b \<and> (r = Inr () \<longrightarrow> bw_buf b' = [])
     | Unwinds \<Rightarrow> bw_unwound ok sink b' (bw_stream sink b)"
    using flush_buf_ok [OF assms] by blast
  show ?thesis
  proof (cases "res = Returns (Inr ())")
    case True
    then obtain w where w: "bw_inner b' = Some w" "ok w" "\<not> bw_panicked b'" "bw_buf b' = []" "bw_stream sink b' = bw_stream sink b"
      using f(3) by (auto simp: bw_ok_def)
    obtain r w' where fw: "fl w = (r, w')" by (cases "fl w")
    then have "ok w'" "sink w' = sink w" using flush_ok [OF w(2)] by blast+
    then show ?thesis using f(1) True w fw
      by (cases r) (auto simp: BufWriter_flush_def bw_ok_def bw_stream_def bw_sink_def bw_unwound_def)
  next
    case False
    then have "BufWriter_flush dk wr fl b = Some (res, b')" using f(1)
      by (auto simp: BufWriter_flush_def split: outcome.splits sum.splits)
    then show ?thesis using f(2,3) by blast
  qed
qed

lemma BufWriter_write_ok:
  assumes "bw_ok ok b"
  shows "\<exists>res b'. BufWriter_write dk wr b data = Some (res, b') \<and> set (bw_buf b') \<subseteq> set (bw_buf b) \<union> set data \<and>
    (case res of
       Returns (Inr n) \<Rightarrow> bw_ok ok b' \<and> n \<le> length data \<and> bw_stream sink b' = bw_stream sink b @ take n data
     | Returns (Inl e) \<Rightarrow> bw_ok ok b' \<and> bw_stream sink b' = bw_stream sink b \<and> set (bw_buf b') \<subseteq> set (bw_buf b)
     | Unwinds \<Rightarrow> bw_unwound ok sink b' (bw_stream sink b @ data))"
proof -
  let ?full = "length (bw_buf b) + length data > bw_capacity b"
  obtain res b' where f: "(if ?full then flush_buf dk wr b else Some (Returns (Inr ()), b)) = Some (res, b')" "bw_capacity b' = bw_capacity b"
    "set (bw_buf b') \<subseteq> set (bw_buf b)"
    "case res of Returns r \<Rightarrow> bw_ok ok b' \<and> bw_stream sink b' = bw_stream sink b \<and> (r = Inr () \<and> ?full \<longrightarrow> bw_buf b' = [])
     | Unwinds \<Rightarrow> bw_unwound ok sink b' (bw_stream sink b)" "\<not> ?full \<longrightarrow> b' = b"
  proof (cases ?full)
    case True
    then show ?thesis using flush_buf_ok [OF assms] that by (fastforce split: outcome.splits)
  next
    case False
    then show ?thesis using assms that [of "Returns (Inr ())" b] by simp
  qed
  note step = BufWriter_write_def [of dk wr b data, unfolded f(1)]
  show ?thesis
  proof (cases "res = Returns (Inr ())")
    case False
    show ?thesis
    proof (cases res)
      case Unwinds
      then show ?thesis using f(3,4) bw_unwound_extend [of ok sink b' "bw_stream sink b" data] by (auto simp: step)
    next
      case (Returns r)
      then obtain e where "r = Inl e" using False by (cases r) auto
      then show ?thesis using f(3,4) Returns by (auto simp: step)
    qed
  next
    case True
    then have b': "bw_ok ok b'" "bw_stream sink b' = bw_stream sink b" "?full \<longrightarrow> bw_buf b' = []" using f(4) by auto
    show ?thesis
    proof (cases "length data \<ge> bw_capacity b'")
      case False
      have "length (bw_buf b') + length data \<le> bw_capacity b'"
        using b'(3) f(2,5) False by (cases ?full) auto
      then show ?thesis using b' False True f(3) by (auto simp: step bw_ok_def bw_stream_def bw_sink_def)
    next
      case big: True
      obtain w where w: "bw_inner b' = Some w" "ok w" "\<not> bw_panicked b'" using b'(1) by (auto simp: bw_ok_def)
      have empty: "bw_buf b' = []" using b'(3) f(2,5) big by (cases ?full) (auto simp flip: length_0_conv)
      have "BufWriter_write dk wr b data = Some (BufWriter_inner_write wr b' data)" using True big by (simp add: step)
      moreover obtain r w' where wr: "wr w data = (r, w')" by (cases "wr w data")
      moreover note write_ok [OF w(2) wr]
      moreover have "\<exists>t. data = take k data @ t" for k by (metis append_take_drop_id)
      ultimately show ?thesis using w empty b'(2)
        by (cases r) (auto simp: BufWriter_inner_write_def write_law_def bw_ok_def bw_stream_def bw_sink_def bw_unwound_def split: sum.splits)
    qed
  qed
qed

lemma BufWriter_drop_ok:
  assumes "bw_ok ok b \<and> s = bw_stream sink b \<or> bw_unwound ok sink b s"
  shows "\<exists>b'. BufWriter_drop dk wr b = Some b' \<and> (\<exists>t. s = bw_sink sink b' @ t)"
proof -
  have "\<exists>b'. BufWriter_drop dk wr b = Some b' \<and> (\<exists>t. s = bw_sink sink b' @ t)" if ok: "bw_ok ok b" and s: "s = bw_stream sink b @ t" for t
  proof -
    obtain res b' where f: "flush_buf dk wr b = Some (res, b')"
      "case res of Returns r \<Rightarrow> bw_ok ok b' \<and> bw_stream sink b' = bw_stream sink b \<and> (r = Inr () \<longrightarrow> bw_buf b' = [])
       | Unwinds \<Rightarrow> bw_unwound ok sink b' (bw_stream sink b)"
      using flush_buf_ok [OF ok] by blast
    have "\<exists>u. bw_stream sink b = bw_sink sink b' @ u"
      using f(2) by (cases res) (auto simp: bw_unwound_def bw_stream_def intro: sym)
    then have "\<exists>u. s = bw_sink sink b' @ u" using s by auto
    moreover have "BufWriter_drop dk wr b = Some b'" using ok f(1) by (auto simp: BufWriter_drop_def bw_ok_def)
    ultimately show ?thesis by blast
  qed
  moreover have "\<exists>b'. BufWriter_drop dk wr b = Some b' \<and> (\<exists>t. s = bw_sink sink b' @ t)"
    if "bw_panicked b" "s = bw_sink sink b @ t" for t
    using that by (auto simp: BufWriter_drop_def)
  ultimately show ?thesis using assms by (auto simp: bw_unwound_def)
qed

end

text \<open>
  A run of a writer: calls of \<open>write\<close> and \<open>flush\<close> until one unwinds, with the bytes that the calls reported as accepted. The data of
  the call that unwound is the last part of the result.
\<close>

datatype write_op = WriteOp "u8 list" | FlushOp

fun bw_run ::
  "(i32 \<Rightarrow> ErrorKind) \<Rightarrow> 'w write_fn \<Rightarrow> 'w flush_fn \<Rightarrow> write_op list \<Rightarrow> 'w buf_writer \<Rightarrow> (u8 list \<times> bool \<times> 'w buf_writer) option" where
  "bw_run dk wr fl [] b = Some ([], False, b)"
| "bw_run dk wr fl (WriteOp d # ops) b =
     Option.bind (BufWriter_write dk wr b d) (\<lambda>(res, b).
     case res of
       Unwinds \<Rightarrow> Some (d, True, b)
     | Returns (Inr n) \<Rightarrow> map_option (\<lambda>(acc, u, b). (take n d @ acc, u, b)) (bw_run dk wr fl ops b)
     | Returns (Inl _) \<Rightarrow> bw_run dk wr fl ops b)"
| "bw_run dk wr fl (FlushOp # ops) b =
     Option.bind (BufWriter_flush dk wr fl b) (\<lambda>(res, b).
     case res of
       Unwinds \<Rightarrow> Some ([], True, b)
     | Returns _ \<Rightarrow> bw_run dk wr fl ops b)"

context writer
begin

lemma bw_run_ok:
  "bw_ok ok b \<Longrightarrow> \<exists>acc u b'. bw_run dk wr fl ops b = Some (acc, u, b') \<and>
     (if u then bw_unwound ok sink b' (bw_stream sink b @ acc) else bw_ok ok b' \<and> bw_stream sink b' = bw_stream sink b @ acc)"
proof (induction ops arbitrary: b)
  case (Cons x ops)
  show ?case
  proof (cases x)
    case (WriteOp d)
    obtain res b' where w: "BufWriter_write dk wr b d = Some (res, b')"
      "case res of
         Returns (Inr n) \<Rightarrow> bw_ok ok b' \<and> n \<le> length d \<and> bw_stream sink b' = bw_stream sink b @ take n d
       | Returns (Inl e) \<Rightarrow> bw_ok ok b' \<and> bw_stream sink b' = bw_stream sink b \<and> set (bw_buf b') \<subseteq> set (bw_buf b)
       | Unwinds \<Rightarrow> bw_unwound ok sink b' (bw_stream sink b @ d)"
      using BufWriter_write_ok [OF Cons.prems] by blast
    show ?thesis
    proof (cases res)
      case (Returns r)
      then have "bw_ok ok b'" using w(2) by (cases r) auto
      from Cons.IH [OF this] obtain acc u b'' where r: "bw_run dk wr fl ops b' = Some (acc, u, b'')"
        "if u then bw_unwound ok sink b'' (bw_stream sink b' @ acc) else bw_ok ok b'' \<and> bw_stream sink b'' = bw_stream sink b' @ acc" by blast
      then show ?thesis using w Returns WriteOp by (cases r) auto
    next
      case Unwinds
      then show ?thesis using w WriteOp by (auto intro: exI [of _ True])
    qed
  next
    case FlushOp
    obtain res b' where w: "BufWriter_flush dk wr fl b = Some (res, b')"
      "case res of Returns r \<Rightarrow> bw_ok ok b' \<and> bw_stream sink b' = bw_stream sink b \<and> (r = Inr () \<longrightarrow> bw_buf b' = [])
       | Unwinds \<Rightarrow> bw_unwound ok sink b' (bw_stream sink b)"
      using BufWriter_flush_ok [OF Cons.prems] by blast
    show ?thesis
    proof (cases res)
      case (Returns r)
      then have b': "bw_ok ok b'" "bw_stream sink b' = bw_stream sink b" using w(2) by auto
      have "bw_run dk wr fl (x # ops) b = bw_run dk wr fl ops b'" using w(1) Returns FlushOp by simp
      then show ?thesis using Cons.IH [OF b'(1)] unfolding b'(2) by (simp only:)
    next
      case Unwinds
      then show ?thesis using w FlushOp by (auto intro: exI [of _ True])
    qed
  qed
qed (auto intro!: exI [of _ False])

end

lemma bw_new: "ok w \<Longrightarrow> bw_ok ok (BufWriter_with_capacity cap w) \<and> bw_stream sink (BufWriter_with_capacity cap w) = sink w"
  by (simp add: BufWriter_with_capacity_def bw_ok_def bw_stream_def bw_sink_def)

interpretation vec: writer dk Vec_write Vec_flush "\<lambda>_. True" "\<lambda>w. w" "\<lambda>_. 0" for dk
  by unfold_locales (auto simp: Vec_write_def Vec_flush_def write_law_def)

text \<open>C31: A \<open>BufWriter\<close> over any writer that keeps its contract: after any sequence of \<open>write\<close> and \<open>flush\<close> calls, with any results of the
  inner writer, errors and unwinding included, the inner writer has the accepted bytes except those still in the buffer, in order and each once;
  a successful \<open>flush\<close> leaves none in the buffer; and dropping the \<open>BufWriter\<close> keeps the inner writer at a first part of what was given to it.\<close>

theorem BufWriter_in_order:
  assumes "writer dk wr fl ok sink intr" "ok w"
  shows "\<exists>acc u b d. bw_run dk wr fl ops (BufWriter_with_capacity cap w) = Some (acc, u, b) \<and>
    (\<not> u \<longrightarrow> bw_sink sink b @ bw_buf b = sink w @ acc) \<and>
    (\<not> u \<longrightarrow> (\<forall>b'. BufWriter_flush dk wr fl b = Some (Returns (Inr ()), b') \<longrightarrow> bw_sink sink b' = sink w @ acc)) \<and>
    BufWriter_drop dk wr b = Some d \<and> (\<exists>t. sink w @ acc = bw_sink sink d @ t)"
proof -
  let ?b = "BufWriter_with_capacity cap w"
  have new: "bw_ok ok ?b" "bw_stream sink ?b = sink w" using bw_new [of ok w cap sink] assms(2) by simp_all
  obtain acc u b where r: "bw_run dk wr fl ops ?b = Some (acc, u, b)"
    "if u then bw_unwound ok sink b (sink w @ acc) else bw_ok ok b \<and> bw_stream sink b = sink w @ acc"
    using writer.bw_run_ok [OF assms(1) new(1), of ops] unfolding new(2) by blast
  obtain d where d: "BufWriter_drop dk wr b = Some d" "\<exists>t. sink w @ acc = bw_sink sink d @ t"
    using writer.BufWriter_drop_ok [OF assms(1), of b "sink w @ acc"] r(2) by (auto split: if_splits)
  have "bw_sink sink b' = sink w @ acc" if "\<not> u" "BufWriter_flush dk wr fl b = Some (Returns (Inr ()), b')" for b'
    using writer.BufWriter_flush_ok [OF assms(1), of b] that r(2) by (auto simp: bw_stream_def)
  then show ?thesis using r d by (auto simp: bw_stream_def)
qed


lemma BufWriter_in_order_witness:
  "\<exists>acc u b. bw_run redox_decode_error_kind Vec_write Vec_flush [WriteOp [1, 2], WriteOp [3]] (BufWriter_with_capacity 2 []) = Some (acc, u, b) \<and>
     (\<not> u \<longrightarrow> bw_sink (\<lambda>w. w) b @ bw_buf b = acc)"
proof -
  have "writer redox_decode_error_kind Vec_write Vec_flush (\<lambda>_. True) (\<lambda>w. w) (\<lambda>_. 0)"
    by (rule vec.writer_axioms)
  from BufWriter_in_order [OF this, where w = "[]" and ops = "[WriteOp [1, 2], WriteOp [3]]" and cap = 2] show ?thesis by fastforce
qed

subsection \<open>\<open>LineWriter\<close>\<close>

definition lw_stream :: "('w \<Rightarrow> u8 list) \<Rightarrow> 'w line_writer \<Rightarrow> u8 list" where
  "lw_stream sink l = bw_stream sink (lw_inner l)"

text \<open>The last thing that happened to the writer is a call of \<open>flush\<close> that has failed.\<close>

definition lw_flush_failed ::
  "(i32 \<Rightarrow> ErrorKind) \<Rightarrow> 'w write_fn \<Rightarrow> 'w flush_fn \<Rightarrow> ('w \<Rightarrow> u8 list) \<Rightarrow> 'w line_writer \<Rightarrow> bool" where
  "lw_flush_failed dk wr fl sink l \<longleftrightarrow>
     (\<exists>m e. lw_need_flush m \<and> lw_stream sink m = lw_stream sink l \<and> LineWriter_flush dk wr fl m = Some (Returns (Inl e), l))"

text \<open>A flush is due exactly when it has been tried and has failed; otherwise no newline is left in the buffer.\<close>

definition lw_inv ::
  "(i32 \<Rightarrow> ErrorKind) \<Rightarrow> 'w write_fn \<Rightarrow> 'w flush_fn \<Rightarrow> ('w \<Rightarrow> bool) \<Rightarrow> ('w \<Rightarrow> u8 list) \<Rightarrow> 'w line_writer \<Rightarrow> bool" where
  "lw_inv dk wr fl ok sink l \<longleftrightarrow> bw_ok ok (lw_inner l) \<and>
     (if lw_need_flush l then lw_flush_failed dk wr fl sink l else 10 \<notin> set (bw_buf (lw_inner l)))"

context writer
begin

lemma LineWriter_flush_ok:
  assumes "bw_ok ok (lw_inner l)"
  shows "\<exists>res l'. LineWriter_flush dk wr fl l = Some (res, l') \<and>
    (case res of
       Returns r \<Rightarrow> bw_ok ok (lw_inner l') \<and> lw_stream sink l' = lw_stream sink l \<and>
         (if r = Inr () then bw_buf (lw_inner l') = [] \<and> \<not> lw_need_flush l'
          else lw_need_flush l' = lw_need_flush l \<and> set (bw_buf (lw_inner l')) \<subseteq> set (bw_buf (lw_inner l)))
     | Unwinds \<Rightarrow> bw_unwound ok sink (lw_inner l') (lw_stream sink l))"
proof -
  obtain res b where f: "BufWriter_flush dk wr fl (lw_inner l) = Some (res, b)" "set (bw_buf b) \<subseteq> set (bw_buf (lw_inner l))"
    "case res of Returns r \<Rightarrow> bw_ok ok b \<and> bw_stream sink b = bw_stream sink (lw_inner l) \<and> (r = Inr () \<longrightarrow> bw_buf b = [])
     | Unwinds \<Rightarrow> bw_unwound ok sink b (bw_stream sink (lw_inner l))"
    using BufWriter_flush_ok [OF assms] by blast
  then show ?thesis
    by (cases res) (auto simp: LineWriter_flush_def lw_stream_def Let_def split: sum.splits)
qed

lemma LineWriter_inner_write_ok:
  assumes "bw_ok ok (lw_inner l)"
  shows "\<exists>res l'. LineWriter_inner_write dk wr l data = Some (res, l') \<and> lw_need_flush l' = lw_need_flush l \<and>
    set (bw_buf (lw_inner l')) \<subseteq> set (bw_buf (lw_inner l)) \<union> set data \<and>
    (case res of
       Returns (Inr n) \<Rightarrow> bw_ok ok (lw_inner l') \<and> n \<le> length data \<and> lw_stream sink l' = lw_stream sink l @ take n data
     | Returns (Inl e) \<Rightarrow> bw_ok ok (lw_inner l') \<and> lw_stream sink l' = lw_stream sink l \<and> set (bw_buf (lw_inner l')) \<subseteq> set (bw_buf (lw_inner l))
     | Unwinds \<Rightarrow> bw_unwound ok sink (lw_inner l') (lw_stream sink l @ data))"
proof -
  obtain res b where "BufWriter_write dk wr (lw_inner l) data = Some (res, b)" "set (bw_buf b) \<subseteq> set (bw_buf (lw_inner l)) \<union> set data"
    "case res of
       Returns (Inr n) \<Rightarrow> bw_ok ok b \<and> n \<le> length data \<and> bw_stream sink b = bw_stream sink (lw_inner l) @ take n data
     | Returns (Inl e) \<Rightarrow> bw_ok ok b \<and> bw_stream sink b = bw_stream sink (lw_inner l) \<and> set (bw_buf b) \<subseteq> set (bw_buf (lw_inner l))
     | Unwinds \<Rightarrow> bw_unwound ok sink b (bw_stream sink (lw_inner l) @ data)"
    using BufWriter_write_ok [OF assms] by blast
  then show ?thesis
    by (cases res) (auto simp: LineWriter_inner_write_def lw_stream_def split: sum.splits)
qed

text \<open>A call when no flush is due, and then any call.\<close>

lemma LineWriter_write_no_flush:
  assumes "bw_ok ok (lw_inner l0)" "10 \<notin> set (bw_buf (lw_inner l0))" "\<not> lw_need_flush l0"
  shows "\<exists>res l'. LineWriter_write dk wr fl l0 data = Some (res, l') \<and>
    (case res of
       Returns (Inr n) \<Rightarrow> lw_inv dk wr fl ok sink l' \<and> n \<le> length data \<and> lw_stream sink l' = lw_stream sink l0 @ take n data
     | Returns (Inl e) \<Rightarrow> lw_inv dk wr fl ok sink l' \<and> lw_stream sink l' = lw_stream sink l0
     | Unwinds \<Rightarrow> bw_unwound ok sink (lw_inner l') (lw_stream sink l0 @ data))"
proof -
  note step = LineWriter_write_def [of dk wr fl l0 data]
  show ?thesis
  proof (cases "memrchr_in 10 data")
    case None
    then have "10 \<notin> set data" by (auto simp: memrchr_in_def rposition_None)
    then show ?thesis using LineWriter_inner_write_ok [OF assms(1), of data] assms None
      by (fastforce simp: step lw_inv_def split: outcome.splits sum.splits)
  next
    case (Some i)
    let ?d1 = "take (i + 1) data" and ?d2 = "drop (i + 1) data"
    from Some have i: "i < length data" "10 \<notin> set ?d2"
      unfolding memrchr_in_def by (auto elim!: rposition_split simp: list_all_iff)
    obtain r1 l1 where f1: "LineWriter_inner_write dk wr l0 ?d1 = Some (r1, l1)" "\<not> lw_need_flush l1"
      "case r1 of
         Returns (Inr n) \<Rightarrow> bw_ok ok (lw_inner l1) \<and> n \<le> length ?d1 \<and> lw_stream sink l1 = lw_stream sink l0 @ take n ?d1
       | Returns (Inl e) \<Rightarrow> bw_ok ok (lw_inner l1) \<and> lw_stream sink l1 = lw_stream sink l0 \<and> set (bw_buf (lw_inner l1)) \<subseteq> set (bw_buf (lw_inner l0))
       | Unwinds \<Rightarrow> bw_unwound ok sink (lw_inner l1) (lw_stream sink l0 @ ?d1)"
      using LineWriter_inner_write_ok [OF assms(1), of ?d1] assms(3) by blast
    have data: "(s @ ?d1) @ ?d2 = s @ data" "(s @ take n data) @ drop n data = s @ data" for s n by simp_all
    show ?thesis
    proof (cases r1)
      case Unwinds
      then show ?thesis using f1(1,3) bw_unwound_extend [of ok sink "lw_inner l1" "lw_stream sink l0 @ ?d1" ?d2] assms(3) Some
        unfolding data by (simp add: step)
    next
      case (Returns q)
      show ?thesis
      proof (cases q)
        case (Inl e)
        then have "lw_inv dk wr fl ok sink l1" using f1(2,3) Returns Inl assms(2) by (auto simp: lw_inv_def)
        then show ?thesis using f1(1,3) Returns Inl assms(3) Some by (simp add: step)
      next
        case (Inr n)
        then have n: "bw_ok ok (lw_inner l1)" "n \<le> i + 1" "lw_stream sink l1 = lw_stream sink l0 @ take n data"
          using f1(3) Returns i(1) by (auto simp: min_def split: if_splits)
        let ?l1 = "l1\<lparr>lw_need_flush := True\<rparr>"
        have "bw_ok ok (lw_inner ?l1)" using n(1) by simp
        from LineWriter_flush_ok [OF this] obtain r2 l2 where flushed: "LineWriter_flush dk wr fl ?l1 = Some (r2, l2)"
          "case r2 of
             Returns r \<Rightarrow> bw_ok ok (lw_inner l2) \<and> lw_stream sink l2 = lw_stream sink ?l1 \<and>
               (if r = Inr () then bw_buf (lw_inner l2) = [] \<and> \<not> lw_need_flush l2
                else lw_need_flush l2 = lw_need_flush ?l1 \<and> set (bw_buf (lw_inner l2)) \<subseteq> set (bw_buf (lw_inner ?l1)))
           | Unwinds \<Rightarrow> bw_unwound ok sink (lw_inner l2) (lw_stream sink ?l1)" by blast
        have s1: "lw_stream sink ?l1 = lw_stream sink l1" by (simp add: lw_stream_def)
        have failed: "lw_flush_failed dk wr fl sink l2" if "r2 = Returns r" "r \<noteq> Inr ()" for r
          using flushed that by (cases r) (auto simp: lw_flush_failed_def intro!: exI [of _ ?l1])
        from s1 flushed have f2: "LineWriter_flush dk wr fl ?l1 = Some (r2, l2)"
          "case r2 of
             Returns r \<Rightarrow> bw_ok ok (lw_inner l2) \<and> lw_stream sink l2 = lw_stream sink l1 \<and>
               (if r = Inr () then bw_buf (lw_inner l2) = [] \<and> \<not> lw_need_flush l2 else lw_need_flush l2 \<and> lw_flush_failed dk wr fl sink l2)
           | Unwinds \<Rightarrow> bw_unwound ok sink (lw_inner l2) (lw_stream sink l1)"
          by (simp, cases r2) (auto split: if_splits dest: failed)
        have step1: "LineWriter_write dk wr fl l0 data =
          Option.bind (LineWriter_flush dk wr fl ?l1) (\<lambda>(res, self).
            case res of
              Unwinds \<Rightarrow> Some (Unwinds, self)
            | Returns r \<Rightarrow>
                if isl r \<or> n \<noteq> i + 1 then Some (Returns (Inr n), self)
                else
                  Option.bind (LineWriter_inner_write dk wr self ?d2) (\<lambda>(res, self).
                  case res of
                    Unwinds \<Rightarrow> Some (Unwinds, self)
                  | Returns (Inr k) \<Rightarrow> Some (Returns (Inr (n + k)), self)
                  | Returns (Inl _) \<Rightarrow> Some (Returns (Inr n), self)))"
          using assms(3) Some f1(1) Returns Inr by (simp add: step)
        show ?thesis
        proof (cases r2)
          case Unwinds
          then show ?thesis using f2 bw_unwound_extend [of ok sink "lw_inner l2" "lw_stream sink l0 @ take n data" "drop n data"]
            unfolding data n(3) by (simp add: step1)
        next
          case (Returns r)
          show ?thesis
          proof (cases "isl r \<or> n \<noteq> i + 1")
            case early: True
            then have "LineWriter_write dk wr fl l0 data = Some (Returns (Inr n), l2)" using f2(1) Returns by (simp add: step1)
            moreover have "lw_inv dk wr fl ok sink l2" using f2(2) Returns by (auto simp: lw_inv_def split: if_splits)
            ultimately show ?thesis using n(2,3) i(1) f2(2) Returns by auto
          next
            case False
            then have ni: "n = i + 1" and r: "r = Inr ()" by (auto simp: isl_def) (cases r, auto)
            then have l2: "bw_ok ok (lw_inner l2)" "bw_buf (lw_inner l2) = []" "\<not> lw_need_flush l2"
              "lw_stream sink l2 = lw_stream sink l0 @ take n data" using f2(2) Returns n(3) by auto
            obtain r3 l3 where f3: "LineWriter_inner_write dk wr l2 ?d2 = Some (r3, l3)" "set (bw_buf (lw_inner l3)) \<subseteq> set ?d2" "lw_need_flush l3 = lw_need_flush l2"
              "case r3 of
                 Returns (Inr k) \<Rightarrow> bw_ok ok (lw_inner l3) \<and> k \<le> length ?d2 \<and> lw_stream sink l3 = lw_stream sink l2 @ take k ?d2
               | Returns (Inl e) \<Rightarrow> bw_ok ok (lw_inner l3) \<and> lw_stream sink l3 = lw_stream sink l2
               | Unwinds \<Rightarrow> bw_unwound ok sink (lw_inner l3) (lw_stream sink l2 @ ?d2)"
              using LineWriter_inner_write_ok [OF l2(1), of ?d2] l2(2) by (fastforce split: outcome.splits sum.splits)
            have nl: "10 \<notin> set (bw_buf (lw_inner l3))" using f3(2) i(2) by auto
            have step2: "LineWriter_write dk wr fl l0 data =
              Some (case r3 of Unwinds \<Rightarrow> Unwinds | Returns (Inr k) \<Rightarrow> Returns (Inr (n + k)) | Returns (Inl _) \<Rightarrow> Returns (Inr n), l3)"
              using f2(1) f3(1) False Returns by (simp add: step1 split: outcome.splits sum.splits)
            show ?thesis
            proof (cases r3)
              case Unwinds
              then show ?thesis using f3(4) l2(4) ni data(1) [of "lw_stream sink l0"] by (simp add: step2)
            next
              case (Returns q3)
              then show ?thesis using f3(4) l2(4) ni nl i(1) take_add [of n _ data]
                by (cases q3) (auto simp: step2 lw_inv_def f3(3) l2(3))
            qed
          qed
        qed
      qed
    qed
  qed
qed

lemma LineWriter_write_ok:
  assumes "lw_inv dk wr fl ok sink l"
  shows "\<exists>res l'. LineWriter_write dk wr fl l data = Some (res, l') \<and>
    (case res of
       Returns (Inr n) \<Rightarrow> lw_inv dk wr fl ok sink l' \<and> n \<le> length data \<and> lw_stream sink l' = lw_stream sink l @ take n data
     | Returns (Inl e) \<Rightarrow> lw_inv dk wr fl ok sink l' \<and> lw_stream sink l' = lw_stream sink l
     | Unwinds \<Rightarrow> bw_unwound ok sink (lw_inner l') (lw_stream sink l @ data))"
proof (cases "lw_need_flush l")
  case False
  then show ?thesis using LineWriter_write_no_flush [of l data] assms by (simp add: lw_inv_def)
next
  case True
  have "bw_ok ok (lw_inner l)" using assms by (simp add: lw_inv_def)
  from LineWriter_flush_ok [OF this] obtain r0 l0 where f0: "LineWriter_flush dk wr fl l = Some (r0, l0)"
    "case r0 of
       Returns r \<Rightarrow> bw_ok ok (lw_inner l0) \<and> lw_stream sink l0 = lw_stream sink l \<and>
         (if r = Inr () then bw_buf (lw_inner l0) = [] \<and> \<not> lw_need_flush l0
          else lw_need_flush l0 = lw_need_flush l \<and> set (bw_buf (lw_inner l0)) \<subseteq> set (bw_buf (lw_inner l)))
     | Unwinds \<Rightarrow> bw_unwound ok sink (lw_inner l0) (lw_stream sink l)" by blast
  show ?thesis
  proof (cases r0)
    case Unwinds
    then show ?thesis using f0 True bw_unwound_extend [of ok sink "lw_inner l0" "lw_stream sink l" data]
      by (simp add: LineWriter_write_def)
  next
    case (Returns r)
    show ?thesis
    proof (cases r)
      case (Inl e)
      then have "lw_flush_failed dk wr fl sink l0" using f0 Returns True by (auto simp: lw_flush_failed_def intro!: exI [of _ l])
      then show ?thesis using f0 Returns Inl True by (simp add: LineWriter_write_def lw_inv_def)
    next
      case (Inr u)
      then have l0: "bw_ok ok (lw_inner l0)" "bw_buf (lw_inner l0) = []" "\<not> lw_need_flush l0" "lw_stream sink l0 = lw_stream sink l"
        using f0(2) Returns by simp_all
      have "LineWriter_write dk wr fl l data = LineWriter_write dk wr fl l0 data"
        using f0(1) Returns Inr True l0(3) by (simp add: LineWriter_write_def)
      then show ?thesis using LineWriter_write_no_flush [OF l0(1) _ l0(3), of data] l0(2) unfolding l0(4) by simp
    qed
  qed
qed

end

text \<open>A run of \<open>write\<close> calls on a \<open>LineWriter\<close>, as for \<open>BufWriter\<close>.\<close>

fun lw_run ::
  "(i32 \<Rightarrow> ErrorKind) \<Rightarrow> 'w write_fn \<Rightarrow> 'w flush_fn \<Rightarrow> u8 list list \<Rightarrow> 'w line_writer \<Rightarrow> (u8 list \<times> bool \<times> 'w line_writer) option" where
  "lw_run dk wr fl [] l = Some ([], False, l)"
| "lw_run dk wr fl (d # ds) l =
     Option.bind (LineWriter_write dk wr fl l d) (\<lambda>(res, l).
     case res of
       Unwinds \<Rightarrow> Some (d, True, l)
     | Returns (Inr n) \<Rightarrow> map_option (\<lambda>(acc, u, l). (take n d @ acc, u, l)) (lw_run dk wr fl ds l)
     | Returns (Inl _) \<Rightarrow> lw_run dk wr fl ds l)"

context writer
begin

lemma lw_run_ok:
  "lw_inv dk wr fl ok sink l \<Longrightarrow> \<exists>acc u l'. lw_run dk wr fl ds l = Some (acc, u, l') \<and>
     (\<not> u \<longrightarrow> lw_inv dk wr fl ok sink l' \<and> lw_stream sink l' = lw_stream sink l @ acc)"
proof (induction ds arbitrary: l)
  case (Cons d ds)
  from LineWriter_write_ok [OF Cons.prems, of d] obtain res l' where w: "LineWriter_write dk wr fl l d = Some (res, l')"
    "case res of
       Returns (Inr n) \<Rightarrow> lw_inv dk wr fl ok sink l' \<and> n \<le> length d \<and> lw_stream sink l' = lw_stream sink l @ take n d
     | Returns (Inl e) \<Rightarrow> lw_inv dk wr fl ok sink l' \<and> lw_stream sink l' = lw_stream sink l
     | Unwinds \<Rightarrow> bw_unwound ok sink (lw_inner l') (lw_stream sink l @ d)" by blast
  show ?case
  proof (cases res)
    case Unwinds
    then show ?thesis using w by (auto intro: exI [of _ True])
  next
    case (Returns r)
    then have "lw_inv dk wr fl ok sink l'" using w(2) by (cases r) auto
    from Cons.IH [OF this] obtain acc u l'' where "lw_run dk wr fl ds l' = Some (acc, u, l'')"
      "\<not> u \<longrightarrow> lw_inv dk wr fl ok sink l'' \<and> lw_stream sink l'' = lw_stream sink l' @ acc" by blast
    then show ?thesis using w Returns by (cases r) auto
  qed
qed (auto intro!: exI [of _ False])

end

text \<open>C32: A \<open>LineWriter\<close> over any writer that keeps its contract: after any sequence of \<open>write\<close> calls that did not unwind, the inner writer has the accepted
  bytes except those still in the buffer, in order and each once. If \<open>need_flush\<close> is not set, the buffer holds no newline: every line that was completed
  has reached the inner writer. And \<open>need_flush\<close> is set only when the last thing done was a call of \<open>flush\<close> that returned an error and left
  the writer as it is now; with an inner writer that does not fail, it is therefore never set.\<close>

theorem LineWriter_flushes_lines:
  assumes "writer dk wr fl ok sink intr" "ok w"
  shows "\<exists>acc u l. lw_run dk wr fl ds (LineWriter_with_capacity cap w) = Some (acc, u, l) \<and>
    (\<not> u \<longrightarrow> bw_sink sink (lw_inner l) @ bw_buf (lw_inner l) = sink w @ acc \<and>
       (\<not> lw_need_flush l \<longrightarrow> 10 \<notin> set (bw_buf (lw_inner l))) \<and>
       (lw_need_flush l \<longrightarrow> (\<exists>m e. lw_need_flush m \<and>
          bw_sink sink (lw_inner m) @ bw_buf (lw_inner m) = sink w @ acc \<and>
          LineWriter_flush dk wr fl m = Some (Returns (Inl e), l))))"
proof -
  let ?l = "LineWriter_with_capacity cap w"
  have "lw_inv dk wr fl ok sink ?l" "lw_stream sink ?l = sink w"
    using bw_new [of ok w cap sink] assms(2) 
    by (simp_all add: lw_inv_def lw_stream_def LineWriter_with_capacity_def) (simp add: BufWriter_with_capacity_def)
  then obtain acc u l where "lw_run dk wr fl ds ?l = Some (acc, u, l)"
    "\<not> u \<longrightarrow> lw_inv dk wr fl ok sink l \<and> lw_stream sink l = sink w @ acc"
    using writer.lw_run_ok [OF assms(1), of ?l ds] by fastforce
  then show ?thesis by (auto simp: lw_inv_def lw_flush_failed_def lw_stream_def bw_stream_def split: if_splits)
qed

lemma vec_flush_loop:
  "flush_buf_loop dk Vec_write \<lparr>bw_inner = Some v, bw_buf = x # xs, bw_capacity = n, bw_panicked = p\<rparr> 0 =
     Some (Returns (Inr ()), Suc (length xs), \<lparr>bw_inner = Some (v @ x # xs), bw_buf = x # xs, bw_capacity = n, bw_panicked = False\<rparr>)"
  by (subst flush_buf_loop.simps, simp add: BufWriter_inner_write_def Vec_write_def)
    (subst flush_buf_loop.simps, simp)

text \<open>Two calls, the first of which completes a line, over a vector: the line is in the vector, what follows it in the buffer.\<close>

lemma LineWriter_flushes_lines_witness:
  "\<exists>l. lw_run redox_decode_error_kind Vec_write Vec_flush [[1, 10], [2]] (LineWriter_with_capacity 8 []) = Some ([1, 10, 2], False, l) \<and>
     bw_sink (\<lambda>w. w) (lw_inner l) = [1, 10] \<and> bw_buf (lw_inner l) = [2] \<and> \<not> lw_need_flush l"
proof -
  have "writer redox_decode_error_kind Vec_write Vec_flush (\<lambda>_. True) (\<lambda>w. w) (\<lambda>_. 0)"
    by (rule vec.writer_axioms)
  from LineWriter_flushes_lines [OF this, where w = "[]" and ds = "[[1, 10], [2]]" and cap = 8]
  obtain acc u l where l: "lw_run redox_decode_error_kind Vec_write Vec_flush [[1, 10], [2]] (LineWriter_with_capacity 8 []) = Some (acc, u, l)"
    "\<not> u \<longrightarrow> bw_sink (\<lambda>w. w) (lw_inner l) @ bw_buf (lw_inner l) = acc"
    "\<not> u \<longrightarrow> \<not> lw_need_flush l \<longrightarrow> 10 \<notin> set (bw_buf (lw_inner l))" by auto
  have "acc = [1, 10, 2] \<and> \<not> u \<and> bw_buf (lw_inner l) = [2] \<and> \<not> lw_need_flush l"
    using l(1) by (auto simp: LineWriter_with_capacity_def BufWriter_with_capacity_def LineWriter_write_def LineWriter_inner_write_def
      LineWriter_flush_def BufWriter_write_def BufWriter_flush_def flush_buf_def vec_flush_loop memrchr_in_def Vec_flush_def)
  then show ?thesis using l by auto
qed

end
