(* ===== verification/Thread_Park.thy ===== *)
theory Thread_Park
  imports Rust_Base
begin

section \<open>thread::park and Thread::unpark (src/thread/mod.rs)\<close>

text \<open>
  One thread that parks, and any number of threads that unpark it, interleaved at the atomic
  operations of the code: the three-valued state word, the mutex and the condition variable of
  the thread's handle. The mutex is held by one agent at a time; a wait on the condition
  variable releases it, and ends by a notification, spuriously or by a timeout, when the mutex
  has to be taken again. A mutex is poisoned only by an agent that panics while holding it, and
  no agent panics (\<open>park_safe\<close>), so \<open>lock().unwrap()\<close> is the plain acquisition.

  The second half states what the documentation promises, a token that \<open>unpark\<close> makes available
  and \<open>park\<close> consumes, as an abstract machine, and shows that the code implements it.
\<close>

subsection \<open>Atomic operations\<close>

text \<open>\<open>compare_exchange\<close> gives the old value, as success or failure, and the value stored.\<close>

definition compare_exchange :: "'a \<Rightarrow> 'a \<Rightarrow> 'a \<Rightarrow> ('a + 'a) \<times> 'a" where
  "compare_exchange current new v = (if v = current then (Inr v, new) else (Inl v, v))"

text \<open>\<open>compare_and_swap\<close> gives the old value in both cases.\<close>

definition compare_and_swap :: "'a \<Rightarrow> 'a \<Rightarrow> 'a \<Rightarrow> 'a \<times> 'a" where
  "compare_and_swap current new v = (v, if v = current then new else v)"

subsection \<open>The machine\<close>

definition PARK_EMPTY :: usize where "PARK_EMPTY = 0"
definition PARK_PARKED :: usize where "PARK_PARKED = 1"
definition PARK_NOTIFIED :: usize where "PARK_NOTIFIED = 2"

lemmas park_consts = PARK_EMPTY_def PARK_PARKED_def PARK_NOTIFIED_def

type_synonym tid = nat

datatype agent = Parker | Unparker tid

text \<open>Where the parking thread is; the flag says whether it called \<open>park_timeout\<close>.\<close>

datatype parker_pc =
    Not_parked
  | Park_fast bool      \<comment> \<open>before the first exchange\<close>
  | Park_lock bool      \<comment> \<open>before taking the mutex\<close>
  | Park_announce bool  \<comment> \<open>before the exchange to PARKED, mutex held\<close>
  | Park_sleep bool     \<comment> \<open>before the wait, mutex held\<close>
  | Park_asleep bool    \<comment> \<open>in the wait\<close>
  | Park_relock bool    \<comment> \<open>the wait has ended, before taking the mutex\<close>
  | Park_check bool     \<comment> \<open>after the wait, mutex held\<close>
  | Park_unlock         \<comment> \<open>returning, before the guard is dropped\<close>

datatype unparker_pc =
    Not_unparking
  | Unpark_fast         \<comment> \<open>before the first exchange of an iteration\<close>
  | Unpark_lock
  | Unpark_announce     \<comment> \<open>before the second exchange, mutex held\<close>
  | Unpark_notify
  | Unpark_unlock bool  \<comment> \<open>before the guard is dropped, to return or to try again\<close>

record park_sys =
  pk_state :: usize
  pk_lock :: "agent option"
  pk_parker :: parker_pc
  pk_unparker :: "tid \<Rightarrow> unparker_pc"

definition park_new :: park_sys where
  "park_new = \<lparr>pk_state = PARK_EMPTY, pk_lock = None, pk_parker = Not_parked, pk_unparker = (\<lambda>_. Not_unparking)\<rparr>"

text \<open>After the wait: \<open>park\<close> sleeps again without a notification, \<open>park_timeout\<close> returns in any case.\<close>

definition park_check :: "park_sys \<Rightarrow> park_sys" where
  "park_check s =
     (case compare_exchange PARK_NOTIFIED PARK_EMPTY (pk_state s) of
        (Inr _, v) \<Rightarrow> s\<lparr>pk_state := v, pk_parker := Park_unlock\<rparr>
      | (Inl _, v) \<Rightarrow> s\<lparr>pk_parker := Park_sleep False\<rparr>)"

definition park_timeout_check :: "park_sys \<Rightarrow> park_sys res" where
  "park_timeout_check s =
     (let old = pk_state s; s' = s\<lparr>pk_state := PARK_EMPTY\<rparr>
      in if old = PARK_NOTIFIED \<or> old = PARK_PARKED then Inr (s'\<lparr>pk_parker := Park_unlock\<rparr>)
         else Inl (Panic ''inconsistent park_timeout state''))"

fun parker_step :: "parker_pc \<Rightarrow> park_sys \<Rightarrow> park_sys res option" where
  "parker_step Not_parked s = None"
| "parker_step (Park_fast timed) s = Some (Inr
     (case compare_exchange PARK_NOTIFIED PARK_EMPTY (pk_state s) of
        (Inr _, v) \<Rightarrow> s\<lparr>pk_state := v, pk_parker := Not_parked\<rparr>
      | (Inl _, v) \<Rightarrow> s\<lparr>pk_parker := Park_lock timed\<rparr>))"
| "parker_step (Park_lock timed) s =
     (if pk_lock s = None then Some (Inr (s\<lparr>pk_lock := Some Parker, pk_parker := Park_announce timed\<rparr>)) else None)"
| "parker_step (Park_announce timed) s = Some
     (case compare_exchange PARK_EMPTY PARK_PARKED (pk_state s) of
        (Inr _, v) \<Rightarrow> Inr (s\<lparr>pk_state := v, pk_parker := Park_sleep timed\<rparr>)
      | (Inl old, v) \<Rightarrow>
          if old = PARK_NOTIFIED then Inr (s\<lparr>pk_parker := Park_unlock\<rparr>)
          else Inl (Panic ''inconsistent park state''))"
| "parker_step (Park_sleep timed) s = Some (Inr (s\<lparr>pk_lock := None, pk_parker := Park_asleep timed\<rparr>))"
| "parker_step (Park_asleep timed) s = None"
| "parker_step (Park_relock timed) s =
     (if pk_lock s = None then Some (Inr (s\<lparr>pk_lock := Some Parker, pk_parker := Park_check timed\<rparr>)) else None)"
| "parker_step (Park_check timed) s = Some
     (if timed then park_timeout_check s else Inr (park_check s))"
| "parker_step Park_unlock s = Some (Inr (s\<lparr>pk_lock := None, pk_parker := Not_parked\<rparr>))"

text \<open>\<open>Condvar::notify_one\<close>: a thread that is in the wait leaves it.\<close>

definition notify_one :: "park_sys \<Rightarrow> park_sys" where
  "notify_one s = (case pk_parker s of Park_asleep timed \<Rightarrow> s\<lparr>pk_parker := Park_relock timed\<rparr> | _ \<Rightarrow> s)"

definition set_unparker :: "tid \<Rightarrow> unparker_pc \<Rightarrow> park_sys \<Rightarrow> park_sys" where
  "set_unparker i pc s = s\<lparr>pk_unparker := (pk_unparker s)(i := pc)\<rparr>"

fun unparker_step :: "tid \<Rightarrow> unparker_pc \<Rightarrow> park_sys \<Rightarrow> park_sys res option" where
  "unparker_step i Not_unparking s = None"
| "unparker_step i Unpark_fast s = Some
     (case compare_exchange PARK_EMPTY PARK_NOTIFIED (pk_state s) of
        (Inr _, v) \<Rightarrow> Inr (set_unparker i Not_unparking (s\<lparr>pk_state := v\<rparr>))
      | (Inl old, v) \<Rightarrow>
          if old = PARK_NOTIFIED then Inr (set_unparker i Not_unparking s)
          else if old = PARK_PARKED then Inr (set_unparker i Unpark_lock s)
          else Inl (Panic ''inconsistent state in unpark''))"
| "unparker_step i Unpark_lock s =
     (if pk_lock s = None then Some (Inr (set_unparker i Unpark_announce (s\<lparr>pk_lock := Some (Unparker i)\<rparr>))) else None)"
| "unparker_step i Unpark_announce s = Some
     (case compare_exchange PARK_PARKED PARK_NOTIFIED (pk_state s) of
        (Inr _, v) \<Rightarrow> Inr (set_unparker i Unpark_notify (s\<lparr>pk_state := v\<rparr>))
      | (Inl old, v) \<Rightarrow>
          if old = PARK_NOTIFIED then Inr (set_unparker i (Unpark_unlock True) s)
          else if old = PARK_EMPTY then Inr (set_unparker i (Unpark_unlock False) s)
          else Inl (Panic ''inconsistent state in unpark''))"
| "unparker_step i Unpark_notify s = Some (Inr (set_unparker i (Unpark_unlock True) (notify_one s)))"
| "unparker_step i (Unpark_unlock returns) s =
     Some (Inr (set_unparker i (if returns then Not_unparking else Unpark_fast) (s\<lparr>pk_lock := None\<rparr>)))"

text \<open>
  A scheduler chooses who moves: a call begins, the parking thread or an unparking thread makes
  its next step, or the wait ends without a notification.
\<close>

datatype park_action =
  Call_park bool | Parker_moves | Wait_ends | Call_unpark tid | Unparker_moves tid

fun park_step :: "park_action \<Rightarrow> park_sys \<Rightarrow> park_sys res option" where
  "park_step (Call_park timed) s =
     (if pk_parker s = Not_parked then Some (Inr (s\<lparr>pk_parker := Park_fast timed\<rparr>)) else None)"
| "park_step Parker_moves s = parker_step (pk_parker s) s"
| "park_step Wait_ends s =
     (case pk_parker s of Park_asleep timed \<Rightarrow> Some (Inr (s\<lparr>pk_parker := Park_relock timed\<rparr>)) | _ \<Rightarrow> None)"
| "park_step (Call_unpark i) s =
     (if pk_unparker s i = Not_unparking then Some (Inr (set_unparker i Unpark_fast s)) else None)"
| "park_step (Unparker_moves i) s = unparker_step i (pk_unparker s i) s"

text \<open>A schedule; \<^const>\<open>None\<close> is a schedule that names a move that is not possible.\<close>

fun park_run :: "park_action list \<Rightarrow> park_sys \<Rightarrow> park_sys run" where
  "park_run [] s = ret s"
| "park_run (a # as) s = bindO (park_step a s) (park_run as)"

subsection \<open>The invariant\<close>

fun parker_holds :: "parker_pc \<Rightarrow> bool" where
  "parker_holds (Park_announce _) = True"
| "parker_holds (Park_sleep _) = True"
| "parker_holds (Park_check _) = True"
| "parker_holds Park_unlock = True"
| "parker_holds _ = False"

fun unparker_holds :: "unparker_pc \<Rightarrow> bool" where
  "unparker_holds Unpark_announce = True"
| "unparker_holds Unpark_notify = True"
| "unparker_holds (Unpark_unlock _) = True"
| "unparker_holds _ = False"

text \<open>The state word of a thread in the wait, or on its way there or back.\<close>

fun parker_state_ok :: "parker_pc \<Rightarrow> usize \<Rightarrow> bool" where
  "parker_state_ok (Park_sleep _) v \<longleftrightarrow> v = PARK_PARKED"
| "parker_state_ok (Park_asleep _) v \<longleftrightarrow> v = PARK_PARKED \<or> v = PARK_NOTIFIED"
| "parker_state_ok (Park_relock _) v \<longleftrightarrow> v = PARK_PARKED \<or> v = PARK_NOTIFIED"
| "parker_state_ok (Park_check _) v \<longleftrightarrow> v = PARK_PARKED \<or> v = PARK_NOTIFIED"
| "parker_state_ok _ v \<longleftrightarrow> v = PARK_EMPTY \<or> v = PARK_NOTIFIED"

definition park_inv :: "park_sys \<Rightarrow> bool" where
  "park_inv s \<longleftrightarrow>
     (pk_lock s = Some Parker \<longleftrightarrow> parker_holds (pk_parker s)) \<and>
     (\<forall>i. pk_lock s = Some (Unparker i) \<longleftrightarrow> unparker_holds (pk_unparker s i)) \<and>
     parker_state_ok (pk_parker s) (pk_state s) \<and>
     (\<forall>timed. pk_parker s = Park_asleep timed \<longrightarrow> pk_state s = PARK_NOTIFIED \<longrightarrow>
        (\<exists>i. pk_unparker s i = Unpark_notify))"

lemma park_inv_new: "park_inv park_new"
  by (simp add: park_inv_def park_new_def)

text \<open>One step neither panics nor breaks the invariant.\<close>

lemma parker_step_safe:
  assumes "park_inv s" "parker_step (pk_parker s) s = Some r"
  shows "\<exists>s'. r = Inr s' \<and> park_inv s'"
  using assms
  by (cases "pk_parker s")
    (auto simp: park_inv_def compare_exchange_def park_consts park_check_def park_timeout_check_def split: if_splits)

lemma park_invD:
  assumes "park_inv s"
  shows "pk_lock s = Some Parker \<longleftrightarrow> parker_holds (pk_parker s)"
    and "pk_lock s = Some (Unparker i) \<longleftrightarrow> unparker_holds (pk_unparker s i)"
    and "parker_state_ok (pk_parker s) (pk_state s)"
    and "pk_parker s = Park_asleep timed \<Longrightarrow> pk_state s = PARK_NOTIFIED \<Longrightarrow> \<exists>i. pk_unparker s i = Unpark_notify"
  using assms by (auto simp: park_inv_def)

lemma parker_state_range: "parker_state_ok pc v \<Longrightarrow> v = PARK_EMPTY \<or> v = PARK_PARKED \<or> v = PARK_NOTIFIED"
  by (cases pc) auto

text \<open>What a move of an unparking thread leaves of the parking thread's part of the invariant.\<close>

lemma parker_state_ok_notified:
  "parker_state_ok pc PARK_PARKED \<Longrightarrow> \<not> parker_holds pc \<Longrightarrow> parker_state_ok pc PARK_NOTIFIED"
  "parker_state_ok pc PARK_EMPTY \<Longrightarrow> parker_state_ok pc PARK_NOTIFIED"
  by (cases pc; simp add: park_consts)+

lemma unparker_lock: "park_inv s \<Longrightarrow> unparker_holds (pk_unparker s i) \<Longrightarrow> pk_lock s = Some (Unparker i)"
  by (simp add: park_invD)

lemma parker_asleep_not_empty: "\<not> parker_state_ok (Park_asleep t) PARK_EMPTY"
  by (simp add: park_consts)

lemma unparker_step_safe:
  assumes inv: "park_inv s" and step: "unparker_step i (pk_unparker s i) s = Some r"
  shows "\<exists>s'. r = Inr s' \<and> park_inv s'"
proof (cases "pk_unparker s i")
  case Not_unparking
  then show ?thesis using step by simp
next
  case Unpark_fast
  have st: "parker_state_ok (pk_parker s) (pk_state s)" using inv by (rule park_invD)
  consider (e) "pk_state s = PARK_EMPTY" | (p) "pk_state s = PARK_PARKED" | (n) "pk_state s = PARK_NOTIFIED"
    using parker_state_range [OF st] by blast
  then show ?thesis
  proof cases
    case e
    have "pk_parker s \<noteq> Park_asleep t" for t using st e parker_asleep_not_empty by auto
    then show ?thesis using step inv e Unpark_fast st parker_state_ok_notified(2) [of "pk_parker s"]
      by (auto simp: park_inv_def compare_exchange_def set_unparker_def)
  next
    case p
    then show ?thesis using step inv Unpark_fast
      by (auto simp: park_inv_def compare_exchange_def set_unparker_def park_consts)
  next
    case n
    have "pk_unparker s j = Unpark_notify \<Longrightarrow> j \<noteq> i" for j using Unpark_fast by auto
    then show ?thesis using step inv Unpark_fast n
      by (auto simp: park_inv_def compare_exchange_def set_unparker_def park_consts) blast
  qed
next
  case Unpark_lock
  then show ?thesis using step inv
    by (auto simp: park_inv_def set_unparker_def split: if_splits) (metis unparker_holds.simps(2))
next
  case Unpark_announce
  have lock: "pk_lock s = Some (Unparker i)" using inv Unpark_announce by (simp add: unparker_lock)
  have st: "parker_state_ok (pk_parker s) (pk_state s)" using inv by (rule park_invD)
  have nh: "\<not> parker_holds (pk_parker s)" using park_invD(1) [OF inv] lock by simp
  consider (e) "pk_state s = PARK_EMPTY" | (p) "pk_state s = PARK_PARKED" | (n) "pk_state s = PARK_NOTIFIED"
    using parker_state_range [OF st] by blast
  then show ?thesis
  proof cases
    case e
    have "pk_parker s \<noteq> Park_asleep t" for t using st e parker_asleep_not_empty by auto
    then show ?thesis using step inv e Unpark_announce lock
      by (auto simp: park_inv_def compare_exchange_def set_unparker_def park_consts)
  next
    case p
    then show ?thesis using step inv Unpark_announce st nh parker_state_ok_notified(1) [of "pk_parker s"]
      by (auto simp: park_inv_def compare_exchange_def set_unparker_def)
  next
    case n
    then show ?thesis using step inv Unpark_announce lock n
      by (auto simp: park_inv_def compare_exchange_def set_unparker_def park_consts)
        (metis unparker_holds.simps(2) unparker_pc.distinct)
  qed
next
  case Unpark_notify
  then show ?thesis using step inv unparker_lock [OF inv, of i] park_invD(2) [OF inv]
    by (cases "pk_parker s") (auto simp: park_inv_def set_unparker_def notify_one_def)
next
  case (Unpark_unlock returns)
  then show ?thesis using step inv unparker_lock [OF inv, of i]
    by (auto simp: park_inv_def set_unparker_def) (metis unparker_holds.simps(2) unparker_pc.distinct)+
qed

lemma park_step_safe:
  assumes inv: "park_inv s" and step: "park_step a s = Some r"
  shows "\<exists>s'. r = Inr s' \<and> park_inv s'"
proof (cases a)
  case (Call_park timed)
  then show ?thesis using step inv by (auto simp: park_inv_def split: if_splits)
next
  case Parker_moves
  then show ?thesis using parker_step_safe [OF inv] step by simp
next
  case Wait_ends
  then show ?thesis using step inv by (auto simp: park_inv_def split: parker_pc.splits)
next
  case (Call_unpark i)
  have "pk_unparker s i = Not_unparking \<Longrightarrow> pk_unparker s j = Unpark_notify \<Longrightarrow> j \<noteq> i" for j by auto
  then show ?thesis using Call_unpark step inv by (auto simp: park_inv_def set_unparker_def split: if_splits) blast+
next
  case (Unparker_moves i)
  then show ?thesis using unparker_step_safe [OF inv] step by simp
qed

lemma park_run_safe:
  "park_inv s \<Longrightarrow> park_run as s = Some r \<Longrightarrow> \<exists>s'. r = Inr s' \<and> park_inv s'"
proof (induction as arbitrary: s)
  case (Cons a as)
  show ?case
  proof (cases "park_step a s")
    case (Some r1)
    then obtain s1 where "r1 = Inr s1" "park_inv s1" using park_step_safe [OF Cons.prems(1)] by blast
    then show ?thesis using Cons.IH Cons.prems(2) Some by simp
  qed (use Cons.prems in simp)
qed auto

subsection \<open>The documented token\<close>

text \<open>
  The documentation of \<open>park\<close>: a token, initially not present; \<open>unpark\<close> makes it available,
  \<open>park\<close> returns by consuming it, or spuriously with the token as it was. The state is the token
  and whether the thread is inside \<open>park\<close>.
\<close>

datatype token_event = Internal | Park_called | Park_consumed | Park_spurious | Unparked

fun token_step :: "token_event \<Rightarrow> bool \<times> bool \<Rightarrow> (bool \<times> bool) option" where
  "token_step Internal (token, inside) = Some (token, inside)"
| "token_step Park_called (token, inside) = (if inside then None else Some (token, True))"
| "token_step Park_consumed (token, inside) = (if inside \<and> token then Some (False, False) else None)"
| "token_step Park_spurious (token, inside) = (if inside then Some (token, False) else None)"
| "token_step Unparked (token, inside) = Some (True, inside)"

fun token_run :: "token_event list \<Rightarrow> bool \<times> bool \<Rightarrow> (bool \<times> bool) option" where
  "token_run [] t = Some t"
| "token_run (e # es) t = Option.bind (token_step e t) (token_run es)"

definition parker_inside :: "park_sys \<Rightarrow> bool" where
  "parker_inside s \<longleftrightarrow> pk_parker s \<noteq> Not_parked \<and> pk_parker s \<noteq> Park_unlock"

definition park_token :: "park_sys \<Rightarrow> bool \<times> bool" where
  "park_token s = (pk_state s = PARK_NOTIFIED, parker_inside s)"

text \<open>An \<open>unpark\<close> that has begun and not yet taken effect.\<close>

fun unpark_pending :: "unparker_pc \<Rightarrow> bool" where
  "unpark_pending Unpark_fast = True"
| "unpark_pending Unpark_lock = True"
| "unpark_pending Unpark_announce = True"
| "unpark_pending (Unpark_unlock returns) = (\<not> returns)"
| "unpark_pending _ = False"

text \<open>
  The event a move shows: an unparking thread takes effect when it leaves its pending part, so
  every \<open>unpark\<close> that returns has shown one; the parking thread when it leaves \<open>park\<close>.
\<close>

fun park_event :: "park_action \<Rightarrow> park_sys \<Rightarrow> park_sys \<Rightarrow> token_event" where
  "park_event (Call_park timed) s s' = Park_called"
| "park_event Parker_moves s s' =
     (if parker_inside s \<and> \<not> parker_inside s'
      then (if pk_state s = PARK_NOTIFIED \<and> pk_state s' \<noteq> PARK_NOTIFIED then Park_consumed else Park_spurious)
      else Internal)"
| "park_event (Unparker_moves i) s s' =
     (if unpark_pending (pk_unparker s i) \<and> \<not> unpark_pending (pk_unparker s' i) then Unparked else Internal)"
| "park_event _ s s' = Internal"

fun park_trace :: "park_action list \<Rightarrow> park_sys \<Rightarrow> token_event list" where
  "park_trace [] s = []"
| "park_trace (a # as) s =
     (case park_step a s of Some (Inr s') \<Rightarrow> park_event a s s' # park_trace as s' | _ \<Rightarrow> [])"

lemma parker_step_token:
  assumes "park_inv s" "parker_step (pk_parker s) s = Some (Inr s')"
  shows "token_step (park_event Parker_moves s s') (park_token s) = Some (park_token s')"
  using assms
  by (cases "pk_parker s")
    (auto simp: park_inv_def park_token_def parker_inside_def compare_exchange_def park_consts park_check_def park_timeout_check_def split: if_splits)

lemma unparker_step_token:
  assumes "unparker_step i (pk_unparker s i) s = Some (Inr s')"
  shows "token_step (park_event (Unparker_moves i) s s') (park_token s) = Some (park_token s')"
  using assms
  by (cases "pk_unparker s i")
    (auto simp: park_token_def parker_inside_def compare_exchange_def park_consts set_unparker_def notify_one_def
      split: if_splits parker_pc.splits)

lemma park_step_token:
  assumes "park_inv s" "park_step a s = Some (Inr s')"
  shows "token_step (park_event a s s') (park_token s) = Some (park_token s')"
  using assms parker_step_token unparker_step_token
  by (cases a)
    (auto simp: park_token_def parker_inside_def set_unparker_def split: if_splits parker_pc.splits)

lemma park_run_token:
  "park_inv s \<Longrightarrow> park_run as s = ret s' \<Longrightarrow> token_run (park_trace as s) (park_token s) = Some (park_token s')"
proof (induction as arbitrary: s)
  case (Cons a as)
  from Cons.prems(2) obtain s1 where s1: "park_step a s = ret s1" "park_run as s1 = ret s'"
    by (auto simp: bindO_eq_ret)
  then have "park_inv s1" using park_step_safe [OF Cons.prems(1)] by blast
  then show ?case using s1 Cons.IH park_step_token [OF Cons.prems(1) s1(1)] by simp
qed simp

text \<open>A thread in the wait whose token is available has a notification on its way.\<close>

lemma park_no_lost_token:
  "park_run as park_new = ret s \<Longrightarrow> pk_parker s = Park_asleep timed \<Longrightarrow> fst (park_token s)
     \<Longrightarrow> \<exists>i. pk_unparker s i = Unpark_notify"
  using park_run_safe [OF park_inv_new, of as "Inr s"] by (auto simp: park_inv_def park_token_def)

text \<open>
  C33: \<open>thread::park\<close> and \<open>Thread::unpark\<close> implement the documented token, for every schedule of
  one parking and any number of unparking threads. No schedule reaches one of the panics on an
  inconsistent state. The events of a run are a run of the token machine: \<open>unpark\<close> makes the
  token available exactly once per call, at a point before it returns, \<open>park\<close> returns by consuming
  an available token or leaves it as it is, and nothing else touches it. No wakeup is lost: while
  the thread sleeps in the condition variable and its token is available, an unparking thread
  stands before the notification.
\<close>

theorem Thread_park_implements_token:
  "park_run as park_new \<noteq> Some (Inl f) \<and>
   (park_run as park_new = ret s \<longrightarrow>
     token_run (park_trace as park_new) (False, False) = Some (park_token s) \<and>
     (pk_parker s = Park_asleep timed \<longrightarrow> fst (park_token s) \<longrightarrow> (\<exists>i. pk_unparker s i = Unpark_notify)))"
proof (intro conjI impI)
  show "park_run as park_new \<noteq> Some (Inl f)"
    using park_run_safe [OF park_inv_new, of as] by fastforce
  have "park_token park_new = (False, False)"
    by (simp add: park_token_def parker_inside_def park_new_def park_consts)
  then show "token_run (park_trace as park_new) (False, False) = Some (park_token s)"
    if "park_run as park_new = ret s"
    using park_run_token [OF park_inv_new that] by simp
qed (rule park_no_lost_token)

text \<open>The thread goes to sleep, is notified and returns with the token consumed.\<close>

lemmas park_exec = park_new_def park_consts compare_exchange_def set_unparker_def notify_one_def
  park_check_def park_timeout_check_def

theorem Thread_park_implements_token_witness:
  "\<exists>s. park_run [Call_park False, Parker_moves, Parker_moves, Parker_moves, Call_unpark 0, Unparker_moves 0, Parker_moves,
        Unparker_moves 0, Unparker_moves 0] park_new = ret s \<and>
     pk_parker s = Park_asleep False \<and> park_token s = (True, True) \<and> (\<exists>i. pk_unparker s i = Unpark_notify)"
proof -
  let ?as = "[Call_park False, Parker_moves, Parker_moves, Parker_moves, Call_unpark 0, Unparker_moves 0, Parker_moves,
        Unparker_moves 0, Unparker_moves 0]"
  obtain s where s: "park_run ?as park_new = ret s" "pk_parker s = Park_asleep False" "park_token s = (True, True)"
    by (simp add: park_exec park_token_def parker_inside_def)
  then show ?thesis using Thread_park_implements_token [of ?as undefined s False] by auto
qed

text \<open>
  A \<open>park\<close> that finds the token after it has taken the mutex returns without consuming it, and
  the next one returns at once: one \<open>unpark\<close> ends two calls. The comment above \<open>park\<close> says that
  the implementation does not allow spurious wakeups.
\<close>

lemma park_returns_twice_for_one_unpark:
  "map_option (map_sum id pk_parker) (park_run
     [Call_park False, Parker_moves, Parker_moves, Call_unpark 0, Unparker_moves 0, Parker_moves, Parker_moves,
      Call_park False, Parker_moves] park_new) = ret Not_parked \<and>
   park_trace
     [Call_park False, Parker_moves, Parker_moves, Call_unpark 0, Unparker_moves 0, Parker_moves, Parker_moves,
      Call_park False, Parker_moves] park_new =
     [Park_called, Internal, Internal, Internal, Unparked, Park_spurious, Internal, Park_called, Park_consumed]"
  by (simp add: park_exec parker_inside_def)

end
