(* ===== verification/Once.thy ===== *)
theory Once
  imports Thread_Park
begin

section \<open>sync::Once (src/sync/once.rs)\<close>

text \<open>
  Any number of threads call \<open>call_once\<close> or \<open>call_once_force\<close> on one \<open>Once\<close>, interleaved at the
  atomic operations of the code. The state word is kept as the code has it: a tag in the two low
  bits and, while an initialiser runs, the address of the first waiter of a list of nodes that
  lie on the stacks of the waiting threads. The store maps an address to its live node; a node is
  dropped when its thread leaves the block that declares it, and an access to a dropped node is
  undefined behaviour. Parking is the token of \<open>Thread_Park\<close>, with spurious returns.
\<close>

subsection \<open>State\<close>

definition INCOMPLETE :: usize where "INCOMPLETE = 0"
definition POISONED :: usize where "POISONED = 1"
definition RUNNING :: usize where "RUNNING = 2"
definition COMPLETE :: usize where "COMPLETE = 3"
definition STATE_MASK :: usize where "STATE_MASK = 3"

lemmas once_consts = INCOMPLETE_def POISONED_def RUNNING_def COMPLETE_def STATE_MASK_def

record Waiter =
  w_thread :: "tid option"
  w_signaled :: bool
  w_next :: usize

text \<open>
  Where a thread is, with its live local variables: \<open>ignore_poisoning\<close>, the local \<open>state\<close>, the
  address \<open>me\<close> of its node, and in the destructor of \<open>Finish\<close> the field \<open>panicked\<close> and the
  variables \<open>queue\<close>, \<open>next\<close> and \<open>thread\<close>.
\<close>

datatype once_pc =
    Outside
  | Call bool                     \<comment> \<open>before the load of \<open>call_once\<close> or \<open>call_once_force\<close>\<close>
  | Call_inner bool               \<comment> \<open>before the first load of \<open>call_inner\<close>\<close>
  | Outer bool usize              \<comment> \<open>at the head of \<open>'outer\<close>\<close>
  | Running_init bool             \<comment> \<open>in \<open>init(poisoned)\<close>\<close>
  | Finishing bool                \<comment> \<open>before the swap of \<open>Finish::drop\<close>\<close>
  | Wake bool usize               \<comment> \<open>at the head of the loop of \<open>Finish::drop\<close>\<close>
  | Wake_store bool usize usize tid  \<comment> \<open>before \<open>signaled.store(true)\<close>\<close>
  | Wake_unpark bool usize tid    \<comment> \<open>before \<open>thread.unpark()\<close>\<close>
  | Enqueue bool usize usize      \<comment> \<open>at the head of the inner loop\<close>
  | Waiting bool usize            \<comment> \<open>before \<open>signaled.load\<close>\<close>
  | Parked bool usize             \<comment> \<open>in \<open>thread::park()\<close>\<close>
  | Reload bool usize             \<comment> \<open>before the load after the wait\<close>
  | Returned
  | Unwound                       \<comment> \<open>the call has panicked\<close>

text \<open>The ghost field \<open>o_inits\<close> counts the initialisers that have run to completion.\<close>

record once_sys =
  o_state :: usize
  o_nodes :: "usize \<Rightarrow> Waiter option"
  o_token :: "tid \<Rightarrow> bool"
  o_inits :: nat
  o_pc :: "tid \<Rightarrow> once_pc"

definition Once_new :: once_sys where
  "Once_new = \<lparr>o_state = INCOMPLETE, o_nodes = (\<lambda>_. None), o_token = (\<lambda>_. False), o_inits = 0, o_pc = (\<lambda>_. Outside)\<rparr>"

definition goto :: "tid \<Rightarrow> once_pc \<Rightarrow> once_sys \<Rightarrow> once_sys" where
  "goto i pc s = s\<lparr>o_pc := (o_pc s)(i := pc)\<rparr>"

definition set_node :: "usize \<Rightarrow> Waiter option \<Rightarrow> once_sys \<Rightarrow> once_sys" where
  "set_node a n s = s\<lparr>o_nodes := (o_nodes s)(a := n)\<rparr>"

text \<open>
  What the scheduler and the environment choose: a thread begins a call, an initialiser returns
  or unwinds, a fresh node gets its address, a thread returns from \<open>park\<close> without a token, or a
  thread goes on.
\<close>

datatype once_choice = Begin bool | Init_ends bool | Alloc usize | Spurious | Go

subsection \<open>call_once and call_inner\<close>

definition call_once_load :: "tid \<Rightarrow> bool \<Rightarrow> once_sys \<Rightarrow> once_sys" where
  "call_once_load i force s = (if o_state s = COMPLETE then goto i Returned s else goto i (Call_inner force) s)"

definition call_inner_load :: "tid \<Rightarrow> bool \<Rightarrow> once_sys \<Rightarrow> once_sys" where
  "call_inner_load i force s = goto i (Outer force (o_state s)) s"

text \<open>
  The arm of a poisoned or incomplete state tries to become the one that runs; the last arm makes
  a node, at an address that is free, not null and aligned as the fields of \<open>Waiter\<close> require.
\<close>

definition try_run :: "tid \<Rightarrow> bool \<Rightarrow> usize \<Rightarrow> once_sys \<Rightarrow> once_sys" where
  "try_run i force st s =
     (case compare_and_swap st RUNNING (o_state s) of (old, v) \<Rightarrow>
        if old \<noteq> st then goto i (Outer force old) s
        else goto i (Running_init (st = POISONED)) (s\<lparr>o_state := v\<rparr>))"

definition node_address_ok :: "usize \<Rightarrow> once_sys \<Rightarrow> bool" where
  "node_address_ok me s \<longleftrightarrow> o_nodes s me = None \<and> me \<noteq> 0 \<and> 8 dvd unat me"

definition make_node :: "tid \<Rightarrow> bool \<Rightarrow> usize \<Rightarrow> usize \<Rightarrow> once_sys \<Rightarrow> once_sys res" where
  "make_node i force st me s =
     bindR (assertR ''state & STATE_MASK == RUNNING'' (st AND STATE_MASK = RUNNING)) (\<lambda>_.
     bindR (assertR ''me & STATE_MASK == 0'' (me AND STATE_MASK = 0)) (\<lambda>_.
     Inr (goto i (Enqueue force me st)
            (set_node me (Some \<lparr>w_thread = Some i, w_signaled = False, w_next = 0\<rparr>) s))))"

definition call_inner_outer :: "tid \<Rightarrow> bool \<Rightarrow> usize \<Rightarrow> once_choice \<Rightarrow> once_sys \<Rightarrow> once_sys res option" where
  "call_inner_outer i force st c s =
     (if st = COMPLETE then ret (goto i Returned s)
      else if st = POISONED \<and> \<not> force then ret (goto i Unwound s)
      else if st = POISONED \<or> st = INCOMPLETE then ret (try_run i force st s)
      else case c of
          Alloc me \<Rightarrow> if node_address_ok me s then Some (make_node i force st me s) else None
        | _ \<Rightarrow> None)"

text \<open>
  One iteration of the inner loop: leave it, or link the own node before the list and try to
  publish it. Leaving the block drops the node.
\<close>

definition node_at :: "usize \<Rightarrow> once_sys \<Rightarrow> Waiter res" where
  "node_at a s = (case o_nodes s a of Some n \<Rightarrow> Inr n | None \<Rightarrow> Inl (Undefined ''use of a dropped Waiter''))"

definition enqueue :: "tid \<Rightarrow> bool \<Rightarrow> usize \<Rightarrow> usize \<Rightarrow> once_sys \<Rightarrow> once_sys res" where
  "enqueue i force me st s =
     (if st AND STATE_MASK \<noteq> RUNNING then Inr (goto i (Outer force st) (set_node me None s))
      else bindR (node_at me s) (\<lambda>n.
        let s = set_node me (Some (n\<lparr>w_next := st AND NOT STATE_MASK\<rparr>)) s
        in case compare_and_swap st (me OR RUNNING) (o_state s) of (old, v) \<Rightarrow>
             if old \<noteq> st then Inr (goto i (Enqueue force me old) s)
             else Inr (goto i (Waiting force me) (s\<lparr>o_state := v\<rparr>))))"

definition check_signaled :: "tid \<Rightarrow> bool \<Rightarrow> usize \<Rightarrow> once_sys \<Rightarrow> once_sys res" where
  "check_signaled i force me s =
     bindR (node_at me s) (\<lambda>n.
       Inr (goto i (if w_signaled n then Reload force me else Parked force me) s))"

definition once_park :: "tid \<Rightarrow> bool \<Rightarrow> usize \<Rightarrow> once_choice \<Rightarrow> once_sys \<Rightarrow> once_sys option" where
  "once_park i force me c s =
     (if c = Spurious then Some (goto i (Waiting force me) s)
      else if o_token s i then Some (goto i (Waiting force me) (s\<lparr>o_token := (o_token s)(i := False)\<rparr>))
      else None)"

definition reload :: "tid \<Rightarrow> bool \<Rightarrow> usize \<Rightarrow> once_sys \<Rightarrow> once_sys" where
  "reload i force me s = goto i (Outer force (o_state s)) (set_node me None s)"

subsection \<open>The initialiser and Finish::drop\<close>

text \<open>\<open>init\<close> is the caller's closure: it returns, and \<open>panicked\<close> becomes false, or it unwinds.\<close>

definition init_ends :: "tid \<Rightarrow> bool \<Rightarrow> once_sys \<Rightarrow> once_sys" where
  "init_ends i panicked s =
     goto i (Finishing panicked) (if panicked then s else s\<lparr>o_inits := Suc (o_inits s)\<rparr>)"

definition finish_swap :: "tid \<Rightarrow> bool \<Rightarrow> once_sys \<Rightarrow> once_sys res" where
  "finish_swap i panicked s =
     (let queue = o_state s; s = s\<lparr>o_state := (if panicked then POISONED else COMPLETE)\<rparr>
      in bindR (assertR ''queue & STATE_MASK == RUNNING'' (queue AND STATE_MASK = RUNNING)) (\<lambda>_.
         Inr (goto i (Wake panicked (queue AND NOT STATE_MASK)) s)))"

definition wake_read :: "tid \<Rightarrow> bool \<Rightarrow> usize \<Rightarrow> once_sys \<Rightarrow> once_sys res" where
  "wake_read i panicked queue s =
     (if queue = 0 then Inr (goto i (if panicked then Unwound else Returned) s)
      else bindR (node_at queue s) (\<lambda>n.
           bindR (expectR ''called `Option::unwrap()` on a `None` value'' (w_thread n)) (\<lambda>t.
           Inr (goto i (Wake_store panicked queue (w_next n) t) (set_node queue (Some (n\<lparr>w_thread := None\<rparr>)) s)))))"

definition wake_store :: "tid \<Rightarrow> bool \<Rightarrow> usize \<Rightarrow> usize \<Rightarrow> tid \<Rightarrow> once_sys \<Rightarrow> once_sys res" where
  "wake_store i panicked queue nxt t s =
     bindR (node_at queue s) (\<lambda>n.
     Inr (goto i (Wake_unpark panicked nxt t) (set_node queue (Some (n\<lparr>w_signaled := True\<rparr>)) s)))"

definition wake_unpark :: "tid \<Rightarrow> bool \<Rightarrow> usize \<Rightarrow> tid \<Rightarrow> once_sys \<Rightarrow> once_sys" where
  "wake_unpark i panicked nxt t s = goto i (Wake panicked nxt) (s\<lparr>o_token := (o_token s)(t := True)\<rparr>)"

subsection \<open>Steps and runs\<close>

definition begin_call :: "tid \<Rightarrow> once_choice \<Rightarrow> once_sys \<Rightarrow> once_sys res option" where
  "begin_call i c s = (case c of Begin force \<Rightarrow> ret (goto i (Call force) s) | _ \<Rightarrow> None)"

fun once_step_at :: "once_pc \<Rightarrow> tid \<Rightarrow> once_choice \<Rightarrow> once_sys \<Rightarrow> once_sys res option" where
  "once_step_at Outside i c s = begin_call i c s"
| "once_step_at Returned i c s = begin_call i c s"
| "once_step_at Unwound i c s = begin_call i c s"
| "once_step_at (Call force) i c s = ret (call_once_load i force s)"
| "once_step_at (Call_inner force) i c s = ret (call_inner_load i force s)"
| "once_step_at (Outer force st) i c s = call_inner_outer i force st c s"
| "once_step_at (Running_init p) i c s = (case c of Init_ends panicked \<Rightarrow> ret (init_ends i panicked s) | _ \<Rightarrow> None)"
| "once_step_at (Finishing panicked) i c s = Some (finish_swap i panicked s)"
| "once_step_at (Wake panicked queue) i c s = Some (wake_read i panicked queue s)"
| "once_step_at (Wake_store panicked queue nxt t) i c s = Some (wake_store i panicked queue nxt t s)"
| "once_step_at (Wake_unpark panicked nxt t) i c s = ret (wake_unpark i panicked nxt t s)"
| "once_step_at (Enqueue force me st) i c s = Some (enqueue i force me st s)"
| "once_step_at (Waiting force me) i c s = Some (check_signaled i force me s)"
| "once_step_at (Parked force me) i c s = map_option Inr (once_park i force me c s)"
| "once_step_at (Reload force me) i c s = ret (reload i force me s)"

definition once_step :: "tid \<times> once_choice \<Rightarrow> once_sys \<Rightarrow> once_sys res option" where
  "once_step a s = once_step_at (o_pc s (fst a)) (fst a) (snd a) s"

fun once_run :: "(tid \<times> once_choice) list \<Rightarrow> once_sys \<Rightarrow> once_sys run" where
  "once_run [] s = ret s"
| "once_run (a # as) s = bindO (once_step a s) (once_run as)"

end
