(* ===== verification/Once_Inv.thy ===== *)
theory Once_Inv
  imports Once
begin

section \<open>sync::Once: the invariant of its waiter queues\<close>

text \<open>
  What holds in every state that calls on one \<open>Once\<close> can reach, in three parts: control (who runs
  the initialiser, what the threads know of the state word), nodes (every node a thread holds is
  live and its own) and queues (the state word and every destructor that wakes hold disjoint lists
  of nodes of waiting threads, and every unsignalled waiter is in one of them). \<open>once_step_safe\<close>
  shows that each step keeps it and none faults.
\<close>

subsection \<open>The words of the state\<close>

definition state_ok :: "usize \<Rightarrow> bool" where
  "state_ok v \<longleftrightarrow> v = INCOMPLETE \<or> v = POISONED \<or> v = COMPLETE \<or> v AND STATE_MASK = RUNNING"

definition tag_running :: "usize \<Rightarrow> bool" where
  "tag_running v \<longleftrightarrow> v AND STATE_MASK = RUNNING"

definition queue_head :: "usize \<Rightarrow> usize" where
  "queue_head v = (if tag_running v then v AND NOT STATE_MASK else 0)"

lemma tag_running_consts [simp]:
  "\<not> tag_running INCOMPLETE" "\<not> tag_running POISONED" "\<not> tag_running COMPLETE" "tag_running RUNNING"
  by (simp_all add: tag_running_def once_consts)

lemma state_ok_consts [simp]:
  "state_ok INCOMPLETE" "state_ok POISONED" "state_ok COMPLETE" "tag_running v \<Longrightarrow> state_ok v"
  by (simp_all add: state_ok_def tag_running_def)

lemma state_consts_distinct [simp]:
  "INCOMPLETE \<noteq> POISONED" "INCOMPLETE \<noteq> COMPLETE" "POISONED \<noteq> COMPLETE" "POISONED \<noteq> INCOMPLETE"
  "COMPLETE \<noteq> INCOMPLETE" "COMPLETE \<noteq> POISONED" "RUNNING \<noteq> COMPLETE"
  by (simp_all add: once_consts)

lemma queue_head_consts [simp]:
  "queue_head INCOMPLETE = 0" "queue_head POISONED = 0" "queue_head COMPLETE = 0" "queue_head RUNNING = 0"
  by (simp_all add: queue_head_def) (simp add: once_consts)

lemma state_ok_cases:
  assumes "state_ok v"
  obtains "v = INCOMPLETE" | "v = POISONED" | "v = COMPLETE" | "tag_running v"
  using assms by (auto simp: state_ok_def tag_running_def)

text \<open>The address of an aligned node survives the tag.\<close>

lemma address_tag:
  assumes "me AND STATE_MASK = 0"
  shows "tag_running (me OR RUNNING)" "(me OR RUNNING) AND NOT STATE_MASK = me"
proof -
  have "(me OR RUNNING) AND STATE_MASK = (me AND STATE_MASK) OR (RUNNING AND STATE_MASK)"
    by (rule bit.conj_disj_distrib2)
  also have "\<dots> = RUNNING" using assms by (simp add: once_consts)
  finally show "tag_running (me OR RUNNING)" by (simp add: tag_running_def)
  have "me = (me AND STATE_MASK) OR (me AND NOT STATE_MASK)"
    by (simp flip: bit.conj_disj_distrib)
  then have "me AND NOT STATE_MASK = me" using assms by simp
  moreover have "(me OR RUNNING) AND NOT STATE_MASK = (me AND NOT STATE_MASK) OR (RUNNING AND NOT STATE_MASK)"
    by (rule bit.conj_disj_distrib2)
  ultimately show "(me OR RUNNING) AND NOT STATE_MASK = me" by (simp add: once_consts)
qed

lemma aligned_mask: "8 dvd unat me \<Longrightarrow> me AND STATE_MASK = 0" for me :: usize
proof -
  assume "8 dvd unat me"
  then have "unat me mod 4 = 0" by presburger
  then have "unat (me AND mask 2) = 0" by (simp add: unat_and_mask)
  then have "me AND mask 2 = 0" by (simp only: unat_eq_zero)
  then show ?thesis by (simp add: STATE_MASK_def mask_eq_exp_minus_1)
qed

subsection \<open>Control: who runs, and what a thread knows\<close>

fun initialising :: "once_pc \<Rightarrow> bool" where
  "initialising (Running_init _) = True"
| "initialising (Finishing _) = True"
| "initialising _ = False"

fun local_ok :: "usize \<Rightarrow> once_pc \<Rightarrow> bool" where
  "local_ok g (Outer _ st) \<longleftrightarrow> state_ok st \<and> (st = COMPLETE \<longrightarrow> g = COMPLETE)"
| "local_ok g (Enqueue _ _ st) \<longleftrightarrow> state_ok st \<and> (st = COMPLETE \<longrightarrow> g = COMPLETE)"
| "local_ok g (Wake panicked _) \<longleftrightarrow> \<not> panicked \<longrightarrow> g = COMPLETE"
| "local_ok g (Wake_store panicked _ _ _) \<longleftrightarrow> \<not> panicked \<longrightarrow> g = COMPLETE"
| "local_ok g (Wake_unpark panicked _ _) \<longleftrightarrow> \<not> panicked \<longrightarrow> g = COMPLETE"
| "local_ok g Returned \<longleftrightarrow> g = COMPLETE"
| "local_ok g _ \<longleftrightarrow> True"

lemma local_ok_mono: "local_ok g pc \<Longrightarrow> (g = COMPLETE \<Longrightarrow> g' = COMPLETE) \<Longrightarrow> local_ok g' pc"
  by (cases pc) auto

definition control_ok :: "once_sys \<Rightarrow> bool" where
  "control_ok s \<longleftrightarrow>
     state_ok (o_state s) \<and>
     (tag_running (o_state s) \<longleftrightarrow> (\<exists>i. initialising (o_pc s i))) \<and>
     (\<forall>i j. initialising (o_pc s i) \<longrightarrow> initialising (o_pc s j) \<longrightarrow> i = j) \<and>
     (\<forall>i. local_ok (o_state s) (o_pc s i)) \<and>
     o_inits s = (if o_state s = COMPLETE \<or> (\<exists>i. o_pc s i = Finishing False) then 1 else 0)"

lemma control_new: "control_ok Once_new"
  by (simp add: control_ok_def Once_new_def)

lemma control_okD:
  assumes "control_ok s"
  shows "state_ok (o_state s)"
    and "tag_running (o_state s) \<longleftrightarrow> (\<exists>i. initialising (o_pc s i))"
    and "initialising (o_pc s i) \<Longrightarrow> initialising (o_pc s j) \<Longrightarrow> i = j"
    and "local_ok (o_state s) (o_pc s i)"
    and "o_inits s = (if o_state s = COMPLETE \<or> (\<exists>i. o_pc s i = Finishing False) then 1 else 0)"
  using assms by (auto simp: control_ok_def)

lemma control_state:
  "control_ok s \<Longrightarrow> initialising (o_pc s i) \<Longrightarrow> tag_running (o_state s)"
  "control_ok s \<Longrightarrow> initialising (o_pc s i) \<Longrightarrow> o_state s \<noteq> COMPLETE"
  using control_okD(2) [of s] by auto

lemma control_okI:
  assumes "state_ok (o_state s)"
    and "tag_running (o_state s) \<longleftrightarrow> (\<exists>i. initialising (o_pc s i))"
    and "\<And>i j. initialising (o_pc s i) \<Longrightarrow> initialising (o_pc s j) \<Longrightarrow> i = j"
    and "\<And>i. local_ok (o_state s) (o_pc s i)"
    and "o_inits s = (if o_state s = COMPLETE \<or> (\<exists>i. o_pc s i = Finishing False) then 1 else 0)"
  shows "control_ok s"
  using assms by (auto simp: control_ok_def)

lemma ex_update: "\<not> P (f i) \<Longrightarrow> (\<exists>j. P ((f(i := x)) j)) \<longleftrightarrow> P x \<or> (\<exists>j. P (f j))"
  by (metis fun_upd_apply)

lemma goto_simps [simp]:
  "o_state (goto i pc s) = o_state s" "o_nodes (goto i pc s) = o_nodes s" "o_token (goto i pc s) = o_token s"
  "o_inits (goto i pc s) = o_inits s" "o_pc (goto i pc s) = (o_pc s)(i := pc)"
  "o_state (set_node a n s) = o_state s" "o_nodes (set_node a n s) = (o_nodes s)(a := n)"
  "o_token (set_node a n s) = o_token s" "o_inits (set_node a n s) = o_inits s" "o_pc (set_node a n s) = o_pc s"
  by (simp_all add: goto_def set_node_def)

text \<open>A move between program points outside the initialiser keeps the control invariant.\<close>

lemma control_goto:
  assumes inv: "control_ok s" and pc: "\<not> initialising (o_pc s i)" "\<not> initialising pc'"
    and loc: "local_ok (o_state s) pc'"
  shows "control_ok (goto i pc' s)"
proof (rule control_okI)
  have fin: "o_pc s i \<noteq> Finishing False" "pc' \<noteq> Finishing False" using pc by auto
  have eq: "(\<exists>j. initialising (((o_pc s)(i := pc')) j)) \<longleftrightarrow> (\<exists>j. initialising (o_pc s j))"
    "(\<exists>j. ((o_pc s)(i := pc')) j = Finishing False) \<longleftrightarrow> (\<exists>j. o_pc s j = Finishing False)"
    using ex_update [of initialising "o_pc s" i pc', OF pc(1)] pc(2)
      ex_update [of "\<lambda>p. p = Finishing False" "o_pc s" i pc', OF fin(1)] fin(2) by blast+
  show "state_ok (o_state (goto i pc' s))" using control_okD(1) [OF inv] by simp
  show "tag_running (o_state (goto i pc' s)) \<longleftrightarrow> (\<exists>j. initialising (o_pc (goto i pc' s) j))"
    using control_okD(2) [OF inv] eq(1) by (simp del: fun_upd_apply)
  show "o_inits (goto i pc' s) =
      (if o_state (goto i pc' s) = COMPLETE \<or> (\<exists>j. o_pc (goto i pc' s) j = Finishing False) then 1 else 0)"
    using control_okD(5) [OF inv] eq(2) by (simp del: fun_upd_apply)
  show "local_ok (o_state (goto i pc' s)) (o_pc (goto i pc' s) j)" for j
    using control_okD(4) [OF inv, of j] loc by simp
  show "j = k" if "initialising (o_pc (goto i pc' s) j)" "initialising (o_pc (goto i pc' s) k)" for j k
    using control_okD(3) [OF inv, of j k] that pc by (auto split: if_splits)
qed

lemma control_frame [simp]:
  "control_ok (set_node a n s) = control_ok s"
  "control_ok (s\<lparr>o_token := t\<rparr>) = control_ok s"
  by (simp_all add: control_ok_def set_node_def)

text \<open>A move of the one thread that runs, or begins to.\<close>

lemma control_set:
  assumes others: "\<And>j. j \<noteq> i \<Longrightarrow> \<not> initialising (o_pc s j)" "\<And>j. j \<noteq> i \<Longrightarrow> local_ok v (o_pc s j)"
    and i: "local_ok v pc'" "state_ok v" "tag_running v \<longleftrightarrow> initialising pc'"
    and n: "n = (if v = COMPLETE \<or> pc' = Finishing False then 1 else 0)"
  shows "control_ok (goto i pc' (s\<lparr>o_state := v, o_inits := n\<rparr>))"
proof (rule control_okI)
  have other: "j \<noteq> i \<Longrightarrow> o_pc s j \<noteq> Finishing False" for j using others(1) [of j] by auto
  have "(\<exists>j. initialising (((o_pc s)(i := pc')) j)) \<longleftrightarrow> initialising pc'"
    "(\<exists>j. ((o_pc s)(i := pc')) j = Finishing False) \<longleftrightarrow> pc' = Finishing False"
    using others(1) other by (metis fun_upd_apply)+
  then show "tag_running (o_state (goto i pc' (s\<lparr>o_state := v, o_inits := n\<rparr>))) \<longleftrightarrow>
      (\<exists>j. initialising (o_pc (goto i pc' (s\<lparr>o_state := v, o_inits := n\<rparr>)) j))"
    "o_inits (goto i pc' (s\<lparr>o_state := v, o_inits := n\<rparr>)) =
      (if o_state (goto i pc' (s\<lparr>o_state := v, o_inits := n\<rparr>)) = COMPLETE \<or>
          (\<exists>j. o_pc (goto i pc' (s\<lparr>o_state := v, o_inits := n\<rparr>)) j = Finishing False) then 1 else 0)"
    using i(3) n by (simp_all del: fun_upd_apply)
qed (use others i in \<open>auto split: if_splits\<close>)

lemma control_try_run:
  assumes inv: "control_ok s" and pc: "o_pc s i = Outer force st" and st: "st = POISONED \<or> st = INCOMPLETE"
  shows "control_ok (try_run i force st s)"
proof (cases "o_state s = st")
  case True
  have none: "\<not> initialising (o_pc s j)" for j using control_okD(2) [OF inv] True st by auto
  then have "o_pc s j \<noteq> Finishing False" for j by (metis initialising.simps(2))
  moreover have ne: "st \<noteq> COMPLETE" using st by auto
  ultimately have "o_inits s = 0" using control_okD(5) [OF inv] True by simp
  moreover have "local_ok RUNNING (o_pc s j)" for j
    using local_ok_mono [OF control_okD(4) [OF inv, of j], of RUNNING] True ne by simp
  ultimately have "control_ok (goto i (Running_init (st = POISONED)) (s\<lparr>o_state := RUNNING, o_inits := o_inits s\<rparr>))"
    using none by (intro control_set) auto
  then show ?thesis using True by (simp add: try_run_def compare_and_swap_def)
next
  case False
  then show ?thesis using control_goto [OF inv, of i] pc control_okD(1) [OF inv]
    by (simp add: try_run_def compare_and_swap_def)
qed

lemma control_only:
  assumes "control_ok s" "initialising (o_pc s i)"
  shows "j \<noteq> i \<Longrightarrow> \<not> initialising (o_pc s j)"
    and "tag_running (o_state s)" and "o_state s \<noteq> COMPLETE"
    and "local_ok g (o_pc s j)"
    and "o_inits s = (if o_pc s i = Finishing False then 1 else 0)"
proof -
  show other: "\<not> initialising (o_pc s j)" if "j \<noteq> i" for j using control_okD(3) [OF assms(1) _ assms(2), of j] that by blast
  show run: "tag_running (o_state s)" using assms control_okD(2) by blast
  then show nc: "o_state s \<noteq> COMPLETE" by auto
  then show "local_ok g (o_pc s j)" using local_ok_mono [OF control_okD(4) [OF assms(1), of j], of g] by blast
  have "(\<exists>j. o_pc s j = Finishing False) \<longleftrightarrow> o_pc s i = Finishing False"
    using other by (metis initialising.simps(2))
  then show "o_inits s = (if o_pc s i = Finishing False then 1 else 0)" using control_okD(5) [OF assms(1)] nc by simp
qed

lemma control_init_ends:
  assumes inv: "control_ok s" and pc: "o_pc s i = Running_init p"
  shows "control_ok (init_ends i panicked s)"
proof -
  have i: "initialising (o_pc s i)" using pc by simp
  note only = control_only [OF inv i]
  have "control_ok (goto i (Finishing panicked)
      (s\<lparr>o_state := o_state s, o_inits := (if panicked then o_inits s else Suc (o_inits s))\<rparr>))"
    using only pc by (intro control_set) auto
  then show ?thesis by (simp add: init_ends_def split: if_splits)
qed

lemma control_finish:
  assumes inv: "control_ok s" and pc: "o_pc s i = Finishing panicked"
  shows "\<exists>s'. finish_swap i panicked s = Inr s' \<and> control_ok s'"
proof -
  have i: "initialising (o_pc s i)" using pc by simp
  note only = control_only [OF inv i]
  have "control_ok (goto i (Wake panicked (o_state s AND NOT STATE_MASK))
      (s\<lparr>o_state := (if panicked then POISONED else COMPLETE), o_inits := o_inits s\<rparr>))"
    using only pc by (intro control_set) auto
  then show ?thesis using only(2) by (simp add: finish_swap_def tag_running_def Let_def)
qed

lemma control_enqueue:
  assumes inv: "control_ok s" and pc: "o_pc s i = Enqueue force me st" and me: "me AND STATE_MASK = 0"
    and step: "enqueue i force me st s = Inr s'"
  shows "control_ok s'"
proof -
  have loc: "state_ok st" "st = COMPLETE \<Longrightarrow> o_state s = COMPLETE"
    using control_okD(4) [OF inv, of i] pc by auto
  consider (out) "\<not> tag_running st" | (lost) "tag_running st" "o_state s \<noteq> st" | (won) "tag_running st" "o_state s = st"
    by blast
  then show ?thesis
  proof cases
    case out
    then show ?thesis using step control_goto [of "set_node me None s" i "Outer force st"] inv pc loc
      by (simp add: enqueue_def tag_running_def)
  next
    case lost
    then obtain n where "s' = goto i (Enqueue force me (o_state s)) (set_node me (Some n) s)"
      using step by (auto simp: enqueue_def tag_running_def bindR_eq_Inr compare_and_swap_def)
    then show ?thesis
      using control_goto [of "set_node me (Some n) s" i "Enqueue force me (o_state s)"] inv pc control_okD(1) [OF inv]
      by simp
  next
    case won
    then obtain n where s': "s' = goto i (Waiting force me) (set_node me (Some n) s\<lparr>o_state := me OR RUNNING\<rparr>)"
      using step by (auto simp: enqueue_def tag_running_def bindR_eq_Inr compare_and_swap_def)
    have "st \<noteq> COMPLETE" using won by auto
    then have "local_ok (me OR RUNNING) (o_pc s j)" for j
      using local_ok_mono [OF control_okD(4) [OF inv, of j]] won by auto
    moreover have "me OR RUNNING \<noteq> COMPLETE" using address_tag(1) [OF me] by force
    ultimately have "control_ok (set_node me (Some n) s\<lparr>o_state := me OR RUNNING\<rparr>)"
      using control_okD [OF inv] address_tag(1) [OF me] won \<open>st \<noteq> COMPLETE\<close> by (intro control_okI) simp_all
    then show ?thesis unfolding s' using control_goto [of "set_node me (Some n) s\<lparr>o_state := me OR RUNNING\<rparr>" i "Waiting force me"] pc
      by simp
  qed
qed

lemma make_node_ok:
  assumes inv: "control_ok s" and pc: "o_pc s i = Outer force st" and me: "node_address_ok me s"
    and st: "st \<noteq> COMPLETE" "st \<noteq> POISONED" "st \<noteq> INCOMPLETE"
  shows "make_node i force st me s = Inr (goto i (Enqueue force me st)
    (set_node me (Some \<lparr>w_thread = Some i, w_signaled = False, w_next = 0\<rparr>) s))"
    and "tag_running st" and "me AND STATE_MASK = 0"
proof -
  show run: "tag_running st" using control_okD(4) [OF inv, of i] pc st by (auto elim: state_ok_cases)
  show al: "me AND STATE_MASK = 0" using me by (auto simp: node_address_ok_def intro: aligned_mask)
  show "make_node i force st me s = Inr (goto i (Enqueue force me st)
    (set_node me (Some \<lparr>w_thread = Some i, w_signaled = False, w_next = 0\<rparr>) s))"
    using run al by (simp add: make_node_def tag_running_def)
qed

subsection \<open>Nodes: every node is live and belongs to one thread\<close>

fun node_of :: "once_pc \<Rightarrow> usize option" where
  "node_of (Enqueue _ me _) = Some me"
| "node_of (Waiting _ me) = Some me"
| "node_of (Parked _ me) = Some me"
| "node_of (Reload _ me) = Some me"
| "node_of _ = None"

fun waits_on :: "once_pc \<Rightarrow> usize option" where
  "waits_on (Waiting _ me) = Some me"
| "waits_on (Parked _ me) = Some me"
| "waits_on _ = None"

lemma waits_on_node: "waits_on pc = Some me \<Longrightarrow> node_of pc = Some me"
  by (cases pc) auto

definition nodes_ok :: "once_sys \<Rightarrow> bool" where
  "nodes_ok s \<longleftrightarrow>
     (\<forall>i a. node_of (o_pc s i) = Some a \<longrightarrow> o_nodes s a \<noteq> None \<and> a \<noteq> 0 \<and> a AND STATE_MASK = 0) \<and>
     (\<forall>i j a. node_of (o_pc s i) = Some a \<longrightarrow> node_of (o_pc s j) = Some a \<longrightarrow> i = j)"

lemma nodes_okD:
  assumes "nodes_ok s" "node_of (o_pc s i) = Some a"
  shows "\<exists>n. o_nodes s a = Some n" and "a \<noteq> 0" and "a AND STATE_MASK = 0"
    and "node_of (o_pc s j) = Some a \<Longrightarrow> j = i"
  using assms by (auto simp: nodes_ok_def)

lemma nodes_new: "nodes_ok Once_new"
  by (simp add: nodes_ok_def Once_new_def)

text \<open>A move that keeps, makes or drops the node of the thread, and drops no other.\<close>

lemma nodes_okI:
  assumes "\<And>i a. node_of (o_pc s i) = Some a \<Longrightarrow> o_nodes s a \<noteq> None \<and> a \<noteq> 0 \<and> a AND STATE_MASK = 0"
    and "\<And>i j a. node_of (o_pc s i) = Some a \<Longrightarrow> node_of (o_pc s j) = Some a \<Longrightarrow> i = j"
  shows "nodes_ok s"
  using assms by (auto simp: nodes_ok_def)

lemma nodes_goto_same:
  assumes inv: "nodes_ok s" and pc: "node_of pc' = node_of (o_pc s i)" "o_pc s' = (o_pc s)(i := pc')"
    and live: "\<And>a. o_nodes s a \<noteq> None \<Longrightarrow> o_nodes s' a \<noteq> None"
  shows "nodes_ok s'"
proof -
  have same: "node_of (o_pc s' j) = node_of (o_pc s j)" for j using pc by simp
  show ?thesis
    by (rule nodes_okI) (use nodes_okD [OF inv] live same in \<open>auto simp: same\<close>)
qed

lemma nodes_goto_none:
  assumes inv: "nodes_ok s" and pc: "node_of pc' = None" "o_pc s' = (o_pc s)(i := pc')"
    and live: "\<And>a. o_nodes s a \<noteq> None \<Longrightarrow> node_of (o_pc s i) \<noteq> Some a \<Longrightarrow> o_nodes s' a \<noteq> None"
  shows "nodes_ok s'"
proof -
  have other: "j \<noteq> i \<and> node_of (o_pc s j) = Some a \<and> node_of (o_pc s i) \<noteq> Some a"
    if "node_of (o_pc s' j) = Some a" for j a
    using that pc nodes_okD(4) [OF inv, of j a i] by (auto split: if_splits)
  show ?thesis
  proof (rule nodes_okI)
    fix j a
    assume "node_of (o_pc s' j) = Some a"
    then show "o_nodes s' a \<noteq> None \<and> a \<noteq> 0 \<and> a AND STATE_MASK = 0"
      using other [of j a] live nodes_okD [OF inv, of j a] by auto
  next
    fix j k a
    assume "node_of (o_pc s' j) = Some a" "node_of (o_pc s' k) = Some a"
    then show "j = k" using other [of j a] other [of k a] nodes_okD(4) [OF inv, of k a j] by simp
  qed
qed

lemma nodes_make:
  assumes inv: "nodes_ok s" and me: "o_nodes s me = None" "me \<noteq> 0" "me AND STATE_MASK = 0"
  shows "nodes_ok (goto i (Enqueue force me st) (set_node me (Some n) s))"
proof -
  have fresh: "node_of (o_pc s j) \<noteq> Some me" for j using nodes_okD(1) [OF inv, of j me] me(1) by auto
  show ?thesis
    by (rule nodes_okI) (use nodes_okD [OF inv] me fresh in \<open>auto split: if_splits\<close>)
qed

subsection \<open>Queues\<close>

text \<open>The list of nodes that starts at an address.\<close>

fun chain :: "(usize \<Rightarrow> Waiter option) \<Rightarrow> usize \<Rightarrow> usize list \<Rightarrow> bool" where
  "chain h p [] \<longleftrightarrow> p = 0"
| "chain h p (q # qs) \<longleftrightarrow> p \<noteq> 0 \<and> q = p \<and> (\<exists>n. h p = Some n \<and> chain h (w_next n) qs)"

lemma chain_update:
  "a \<notin> set qs \<Longrightarrow> chain (h(a := n)) p qs = chain h p qs"
  by (induction qs arbitrary: p) auto

lemma chain_same_next:
  "h a = Some n \<Longrightarrow> w_next n' = w_next n \<Longrightarrow> chain (h(a := Some n')) p qs = chain h p qs"
  by (induction qs arbitrary: p) auto

lemma chain_Cons: "chain h p qs \<Longrightarrow> p \<noteq> 0 \<Longrightarrow> \<exists>qs'. qs = p # qs'"
  by (cases qs) auto

text \<open>
  There is one queue in the state word, \<^const>\<open>None\<close>, and one for each thread that walks a queue
  it has taken out.
\<close>

type_synonym queues = "tid option \<Rightarrow> usize list"

fun waker_ok :: "(usize \<Rightarrow> Waiter option) \<Rightarrow> once_pc \<Rightarrow> usize list \<Rightarrow> bool" where
  "waker_ok h (Wake _ q) qs \<longleftrightarrow> chain h q qs"
| "waker_ok h (Wake_store _ q nxt t) qs \<longleftrightarrow> (\<exists>qs'. qs = q # qs' \<and> chain h nxt qs')"
| "waker_ok h (Wake_unpark _ nxt t) qs \<longleftrightarrow> chain h nxt qs"
| "waker_ok h _ qs \<longleftrightarrow> qs = []"

lemma waker_update: "a \<notin> set qs \<Longrightarrow> waker_ok (h(a := n)) pc qs = waker_ok h pc qs"
  by (cases pc) (auto simp: chain_update)

lemma waker_same_next:
  "h a = Some n \<Longrightarrow> w_next n' = w_next n \<Longrightarrow> waker_ok (h(a := Some n')) pc qs = waker_ok h pc qs"
  by (cases pc) (auto simp: chain_same_next)

text \<open>Thread \<open>t\<close> is about to be signalled through node \<open>q\<close> by the walker of queue \<open>k\<close>.\<close>

fun storing :: "once_pc \<Rightarrow> usize \<Rightarrow> tid \<Rightarrow> bool" where
  "storing (Wake_store _ q _ t) q' t' \<longleftrightarrow> q = q' \<and> t = t'"
| "storing _ _ _ \<longleftrightarrow> False"

fun unparking :: "once_pc \<Rightarrow> tid \<Rightarrow> bool" where
  "unparking (Wake_unpark _ _ t) t' \<longleftrightarrow> t = t'"
| "unparking _ _ \<longleftrightarrow> False"

definition walker_storing :: "once_sys \<Rightarrow> tid option \<Rightarrow> usize \<Rightarrow> tid \<Rightarrow> bool" where
  "walker_storing s k q t \<longleftrightarrow> (\<exists>i. k = Some i \<and> storing (o_pc s i) q t)"

text \<open>Every node of a queue is the unsignalled node of a waiting thread and names that thread.\<close>

definition listed :: "once_sys \<Rightarrow> tid option \<Rightarrow> usize \<Rightarrow> bool" where
  "listed s k q \<longleftrightarrow> (\<exists>j n. waits_on (o_pc s j) = Some q \<and> o_nodes s q = Some n \<and> \<not> w_signaled n \<and>
     (if \<exists>t. walker_storing s k q t then walker_storing s k q j else w_thread n = Some j))"

definition disjoint_queues :: "queues \<Rightarrow> bool" where
  "disjoint_queues L \<longleftrightarrow> (\<forall>k. distinct (L k)) \<and> (\<forall>k k'. k \<noteq> k' \<longrightarrow> set (L k) \<inter> set (L k') = {})"

definition queues_ok :: "once_sys \<Rightarrow> queues \<Rightarrow> bool" where
  "queues_ok s L \<longleftrightarrow>
     chain (o_nodes s) (queue_head (o_state s)) (L None) \<and>
     (\<forall>i. waker_ok (o_nodes s) (o_pc s i) (L (Some i))) \<and>
     disjoint_queues L \<and>
     (\<forall>k q. q \<in> set (L k) \<longrightarrow> listed s k q) \<and>
     (\<forall>i me n. waits_on (o_pc s i) = Some me \<longrightarrow> o_nodes s me = Some n \<longrightarrow> \<not> w_signaled n \<longrightarrow> (\<exists>k. me \<in> set (L k))) \<and>
     (\<forall>i force me n. o_pc s i = Parked force me \<longrightarrow> o_nodes s me = Some n \<longrightarrow> w_signaled n \<longrightarrow>
        o_token s i \<or> (\<exists>j. unparking (o_pc s j) i)) \<and>
     (\<forall>i force me st. o_pc s i = Enqueue force me st \<longrightarrow>
        (\<exists>n. o_nodes s me = Some n \<and> w_thread n = Some i \<and> \<not> w_signaled n))"

lemma queues_okD:
  assumes "queues_ok s L"
  shows "chain (o_nodes s) (queue_head (o_state s)) (L None)"
    and "waker_ok (o_nodes s) (o_pc s i) (L (Some i))"
    and "disjoint_queues L"
    and "q \<in> set (L k) \<Longrightarrow> listed s k q"
    and "waits_on (o_pc s i) = Some me \<Longrightarrow> o_nodes s me = Some n \<Longrightarrow> \<not> w_signaled n \<Longrightarrow> \<exists>k. me \<in> set (L k)"
    and "o_pc s i = Parked force me \<Longrightarrow> o_nodes s me = Some n \<Longrightarrow> w_signaled n \<Longrightarrow>
      o_token s i \<or> (\<exists>j. unparking (o_pc s j) i)"
    and "o_pc s i = Enqueue force me st \<Longrightarrow> \<exists>n. o_nodes s me = Some n \<and> w_thread n = Some i \<and> \<not> w_signaled n"
  using assms by (auto simp: queues_ok_def)

lemma queues_okI:
  assumes "chain (o_nodes s) (queue_head (o_state s)) (L None)"
    and "\<And>i. waker_ok (o_nodes s) (o_pc s i) (L (Some i))"
    and "disjoint_queues L"
    and "\<And>k q. q \<in> set (L k) \<Longrightarrow> listed s k q"
    and "\<And>i me n. waits_on (o_pc s i) = Some me \<Longrightarrow> o_nodes s me = Some n \<Longrightarrow> \<not> w_signaled n \<Longrightarrow> \<exists>k. me \<in> set (L k)"
    and "\<And>i force me n. o_pc s i = Parked force me \<Longrightarrow> o_nodes s me = Some n \<Longrightarrow> w_signaled n \<Longrightarrow>
      o_token s i \<or> (\<exists>j. unparking (o_pc s j) i)"
    and "\<And>i force me st. o_pc s i = Enqueue force me st \<Longrightarrow> \<exists>n. o_nodes s me = Some n \<and> w_thread n = Some i \<and> \<not> w_signaled n"
  shows "queues_ok s L"
  using assms by (auto simp: queues_ok_def)

lemma queues_new: "queues_ok Once_new (\<lambda>_. [])"
  by (auto simp: queues_ok_def Once_new_def disjoint_queues_def)

lemma chain_cong: "(\<And>q. q \<in> set qs \<Longrightarrow> h' q = h q) \<Longrightarrow> chain h' p qs = chain h p qs"
  by (induction qs arbitrary: p) auto

lemma waker_cong:
  assumes "\<And>q. q \<in> set qs \<Longrightarrow> h' q = h q"
  shows "waker_ok h' pc qs = waker_ok h pc qs"
proof -
  have all: "chain h' p qs = chain h p qs" for p by (rule chain_cong) (rule assms)
  show ?thesis
  proof (cases pc)
    case (Wake_store p q nxt t)
    have "chain h' nxt qs' = chain h nxt qs'" if "qs = q # qs'" for qs'
      by (rule chain_cong) (simp add: assms that)
    then show ?thesis using Wake_store by auto
  qed (simp_all only: waker_ok.simps all)
qed

lemma listedE:
  assumes "queues_ok s L" "q \<in> set (L k)"
  obtains j n where "waits_on (o_pc s j) = Some q" "o_nodes s q = Some n" "\<not> w_signaled n"
    "if \<exists>t. walker_storing s k q t then walker_storing s k q j else w_thread n = Some j"
  using queues_okD(4) [OF assms] unfolding listed_def by blast

lemma listed_waits: "listed s k q \<Longrightarrow> \<exists>j n. waits_on (o_pc s j) = Some q \<and> o_nodes s q = Some n \<and> \<not> w_signaled n"
  by (auto simp: listed_def)

lemma unparking_other:
  assumes "unparking (o_pc s l) j" "\<not> unparking (o_pc s i) j"
  shows "\<exists>l. unparking (((o_pc s)(i := pc')) l) j"
  using assms by (intro exI [of _ l]) auto

lemma walker_storing_quiet:
  assumes "o_pc s' = (o_pc s)(i := pc')" "\<And>q t. \<not> storing (o_pc s i) q t" "\<And>q t. \<not> storing pc' q t"
  shows "walker_storing s' = walker_storing s"
proof -
  have "storing (o_pc s' l) q t = storing (o_pc s l) q t" for l q t using assms by (cases "l = i") auto
  then show ?thesis by (intro ext) (simp add: walker_storing_def)
qed

text \<open>
  A move of thread \<open>i\<close> that leaves the nodes in the queues and the queues as they are: every move
  but the publication of a node, the swap of \<open>Finish::drop\<close> and its first two accesses to a node.
\<close>

lemma queues_frame:
  assumes inv: "queues_ok s L"
    and pc: "o_pc s' = (o_pc s)(i := pc')"
    and head: "queue_head (o_state s') = queue_head (o_state s)"
    and nodes: "\<And>k q. q \<in> set (L k) \<Longrightarrow> o_nodes s' q = o_nodes s q"
      "\<And>j q. j \<noteq> i \<Longrightarrow> node_of (o_pc s j) = Some q \<Longrightarrow> o_nodes s' q = o_nodes s q"
    and waker: "waker_ok (o_nodes s) pc' (L (Some i))"
    and quiet: "\<And>q t. \<not> storing (o_pc s i) q t" "\<And>q t. \<not> storing pc' q t"
    and unpark: "\<And>t. unparking (o_pc s i) t \<Longrightarrow> o_token s' t"
    and token: "\<And>j. j \<noteq> i \<Longrightarrow> o_token s j \<Longrightarrow> o_token s' j"
    and leaves: "\<And>q k. waits_on (o_pc s i) = Some q \<Longrightarrow> waits_on pc' \<noteq> Some q \<Longrightarrow> q \<notin> set (L k)"
    and enters: "\<And>q n. waits_on pc' = Some q \<Longrightarrow> o_nodes s' q = Some n \<Longrightarrow> \<not> w_signaled n \<Longrightarrow> \<exists>k. q \<in> set (L k)"
    and parked: "\<And>force me n. pc' = Parked force me \<Longrightarrow> o_nodes s' me = Some n \<Longrightarrow> w_signaled n \<Longrightarrow> o_token s' i"
    and enq: "\<And>force me st. pc' = Enqueue force me st \<Longrightarrow>
      \<exists>n. o_nodes s' me = Some n \<and> w_thread n = Some i \<and> \<not> w_signaled n"
  shows "queues_ok s' L"
proof (rule queues_okI)
  show "chain (o_nodes s') (queue_head (o_state s')) (L None)"
    by (subst chain_cong [where h = "o_nodes s"]) (simp_all add: nodes(1) head queues_okD(1) [OF inv])
  show "waker_ok (o_nodes s') (o_pc s' j) (L (Some j))" for j
    by (subst waker_cong [where h = "o_nodes s"])
      (use queues_okD(2) [OF inv, of j] waker pc nodes(1) in \<open>cases "j = i"; simp\<close>)+
  show "disjoint_queues L" using inv by (rule queues_okD)
next
  fix k q
  assume q: "q \<in> set (L k)"
  have st: "walker_storing s' = walker_storing s" by (rule walker_storing_quiet [OF pc quiet])
  obtain j n where j: "waits_on (o_pc s j) = Some q" "o_nodes s q = Some n" "\<not> w_signaled n"
    "if \<exists>t. walker_storing s k q t then walker_storing s k q j else w_thread n = Some j"
    by (rule listedE [OF inv q])
  have "waits_on (o_pc s' j) = Some q" using j(1) leaves q pc by (cases "j = i") auto
  then show "listed s' k q" using j nodes(1) [OF q] unfolding listed_def st by (intro exI [of _ j] exI [of _ n]) simp
next
  fix j me n
  assume "waits_on (o_pc s' j) = Some me" "o_nodes s' me = Some n" "\<not> w_signaled n"
  then show "\<exists>k. me \<in> set (L k)"
    using enters queues_okD(5) [OF inv, of j me n] nodes(2) [of j me] pc waits_on_node
    by (cases "j = i") auto
next
  fix j force me n
  assume p: "o_pc s' j = Parked force me" "o_nodes s' me = Some n" "w_signaled n"
  show "o_token s' j \<or> (\<exists>l. unparking (o_pc s' l) j)"
  proof (cases "j = i")
    case True
    then show ?thesis using p parked pc by auto
  next
    case False
    then consider "o_token s j" | l where "unparking (o_pc s l) j"
      using queues_okD(6) [OF inv, of j force me n] nodes(2) [of j me] p pc by auto
    then show ?thesis
    proof cases
      case 1
      then show ?thesis using token False by blast
    next
      case 2
      then show ?thesis using unpark [of j] pc by (cases "l = i") auto
    qed
  qed
next
  fix j force me st
  assume "o_pc s' j = Enqueue force me st"
  then show "\<exists>n. o_nodes s' me = Some n \<and> w_thread n = Some j \<and> \<not> w_signaled n"
    using enq queues_okD(7) [OF inv, of j force me st] nodes(2) [of j me] pc by (cases "j = i") auto
qed

text \<open>The four moves that change a queue.\<close>

lemma not_listed:
  assumes "nodes_ok s" "queues_ok s L" "node_of (o_pc s i) = Some me" "waits_on (o_pc s i) = None"
  shows "me \<notin> set (L k)"
proof
  assume "me \<in> set (L k)"
  then obtain j where "waits_on (o_pc s j) = Some me" using queues_okD(4) [OF assms(2)] listed_waits by blast
  then show False using nodes_okD(4) [OF assms(1) assms(3), of j] waits_on_node assms(4) by fastforce
qed

lemma queues_publish:
  assumes nodes: "nodes_ok s" and inv: "queues_ok s L" and pc: "o_pc s i = Enqueue force me st"
    and st: "tag_running st" "o_state s = st" and node: "o_nodes s me = Some n"
  shows "queues_ok (goto i (Waiting force me) (set_node me (Some (n\<lparr>w_next := st AND NOT STATE_MASK\<rparr>)) s\<lparr>o_state := me OR RUNNING\<rparr>))
    (L(None := me # L None))" (is "queues_ok ?s ?L")
proof -
  have own: "node_of (o_pc s i) = Some me" using pc by simp
  note me = nodes_okD [OF nodes own]
  have new: "me \<notin> set (L k)" for k using not_listed [OF nodes inv own] pc by simp
  obtain n': "w_thread n = Some i" "\<not> w_signaled n" using queues_okD(7) [OF inv pc] node by auto
  have head: "queue_head (o_state ?s) = me" using address_tag [OF me(3)] by (simp add: queue_head_def)
  have other: "waits_on (o_pc s j) = Some q \<Longrightarrow> j \<noteq> i \<and> q \<noteq> me" for j q
    using nodes_okD(4) [OF nodes own, of j] waits_on_node pc by force
  have storing: "walker_storing ?s = walker_storing s" by (rule walker_storing_quiet) (use pc in auto)
  show ?thesis
  proof (rule queues_okI)
    show "chain (o_nodes ?s) (queue_head (o_state ?s)) (?L None)"
      unfolding head using me(2) queues_okD(1) [OF inv] st new by (simp add: chain_update queue_head_def)
    show "waker_ok (o_nodes ?s) (o_pc ?s j) (?L (Some j))" for j
      using queues_okD(2) [OF inv, of j] new pc by (cases "j = i") (simp_all add: waker_update)
    show "disjoint_queues ?L" using queues_okD(3) [OF inv] new by (auto simp: disjoint_queues_def)
  next
    fix k q
    assume q: "q \<in> set (?L k)"
    show "listed ?s k q"
    proof (cases "q = me")
      case True
      then have "k = None" using q new by (auto split: if_splits)
      then have "\<not> walker_storing ?s k q t" for t by (simp add: walker_storing_def)
      then show ?thesis using True n' unfolding listed_def by (intro exI [of _ i]) auto
    next
      case False
      then have "q \<in> set (L k)" using q by (auto split: if_splits)
      then obtain j m where "waits_on (o_pc s j) = Some q" "o_nodes s q = Some m" "\<not> w_signaled m"
        "if \<exists>t. walker_storing s k q t then walker_storing s k q j else w_thread m = Some j"
        by (rule listedE [OF inv])
      then show ?thesis using other [of j q] False unfolding listed_def storing by (intro exI [of _ j]) auto
    qed
  next
    fix j a m
    assume "waits_on (o_pc ?s j) = Some a" "o_nodes ?s a = Some m" "\<not> w_signaled m"
    then have "a = me \<or> (\<exists>k. a \<in> set (L k))"
      using queues_okD(5) [OF inv, of j a m] other [of j a] by (cases "j = i") auto
    then consider "a = me" | k where "a \<in> set (L k)" by blast
    then show "\<exists>k. a \<in> set (?L k)"
    proof cases
      case 1
      then show ?thesis by (intro exI [of _ None]) simp
    next
      case 2
      then show ?thesis by (intro exI [of _ k]) auto
    qed
  next
    fix j f a m
    assume "o_pc ?s j = Parked f a" "o_nodes ?s a = Some m" "w_signaled m"
    then have "o_pc s j = Parked f a" "o_nodes s a = Some m" using other [of j a] by (auto split: if_splits)
    then have "o_token s j \<or> (\<exists>l. unparking (o_pc s l) j)" using queues_okD(6) [OF inv] \<open>w_signaled m\<close> by blast
    then show "o_token ?s j \<or> (\<exists>l. unparking (o_pc ?s l) j)"
      using unparking_other [of s _ j i] pc by (auto simp del: fun_upd_apply)
  next
    fix j f a v
    assume "o_pc ?s j = Enqueue f a v"
    then show "\<exists>n. o_nodes ?s a = Some n \<and> w_thread n = Some j \<and> \<not> w_signaled n"
      using queues_okD(7) [OF inv, of j f a v] nodes_okD(4) [OF nodes own, of j] by (auto split: if_splits)
  qed
qed

lemma queues_finish:
  assumes inv: "queues_ok s L" and pc: "o_pc s i = Finishing panicked" and run: "tag_running (o_state s)"
    and v: "queue_head v = 0"
  shows "queues_ok (goto i (Wake panicked (o_state s AND NOT STATE_MASK)) (s\<lparr>o_state := v\<rparr>))
    (L(None := [], Some i := L None))" (is "queues_ok ?s ?L")
proof -
  have empty: "L (Some i) = []" using queues_okD(2) [OF inv, of i] pc by simp
  have quiet: "walker_storing ?s = walker_storing s" by (rule walker_storing_quiet) (use pc in auto)
  have moved: "\<not> walker_storing s None q t" "\<not> walker_storing s (Some i) q t" for q t
    using pc by (auto simp: walker_storing_def)
  show ?thesis
  proof (rule queues_okI)
    show "chain (o_nodes ?s) (queue_head (o_state ?s)) (?L None)" using v by simp
    show "waker_ok (o_nodes ?s) (o_pc ?s j) (?L (Some j))" for j
      using queues_okD(1) [OF inv] queues_okD(2) [OF inv, of j] run by (simp add: queue_head_def)
    show "disjoint_queues ?L" using queues_okD(3) [OF inv] by (auto simp: disjoint_queues_def)
  next
    fix k q
    assume q: "q \<in> set (?L k)"
    let ?k = "if k = Some i then None else k"
    have "q \<in> set (L ?k)" using q by (auto split: if_splits)
    then obtain j m where "waits_on (o_pc s j) = Some q" "o_nodes s q = Some m" "\<not> w_signaled m"
      "if \<exists>t. walker_storing s ?k q t then walker_storing s ?k q j else w_thread m = Some j"
      by (rule listedE [OF inv])
    then show "listed ?s k q" using moved pc unfolding listed_def quiet
      by (intro exI [of _ j] exI [of _ m]) (auto split: if_splits)
  next
    fix j a m
    assume "waits_on (o_pc ?s j) = Some a" "o_nodes ?s a = Some m" "\<not> w_signaled m"
    then obtain k where k: "a \<in> set (L k)" using queues_okD(5) [OF inv, of j a m] by (auto split: if_splits)
    show "\<exists>k. a \<in> set (?L k)"
      using k empty by (intro exI [of _ "if k = None then Some i else k"]) (auto split: if_splits)
  next
    fix j f a m
    assume "o_pc ?s j = Parked f a" "o_nodes ?s a = Some m" "w_signaled m"
    then consider "o_token s j" | l where "unparking (o_pc s l) j"
      using queues_okD(6) [OF inv, of j f a m] by (auto split: if_splits)
    then show "o_token ?s j \<or> (\<exists>l. unparking (o_pc ?s l) j)"
      using pc unparking_other [of s _ j i] by cases (auto simp del: fun_upd_apply)
  next
    fix j f a v
    assume "o_pc ?s j = Enqueue f a v"
    then show "\<exists>n. o_nodes ?s a = Some n \<and> w_thread n = Some j \<and> \<not> w_signaled n"
      using queues_okD(7) [OF inv, of j f a v] by (auto split: if_splits)
  qed
qed

text \<open>The walker's queue at its head.\<close>

lemma walker_head:
  assumes inv: "queues_ok s L" and pc: "o_pc s i = Wake panicked q" "q \<noteq> 0"
  obtains qs j n where "L (Some i) = q # qs" "waits_on (o_pc s j) = Some q" "o_nodes s q = Some n" "\<not> w_signaled n"
    "w_thread n = Some j" "chain (o_nodes s) (w_next n) qs"
proof -
  have ch: "chain (o_nodes s) q (L (Some i))" using queues_okD(2) [OF inv, of i] pc by simp
  then obtain qs where qs: "L (Some i) = q # qs" using pc(2) chain_Cons by blast
  then have "listed s (Some i) q" by (intro queues_okD(4) [OF inv]) simp
  moreover have "\<not> walker_storing s (Some i) q t" for t using pc by (simp add: walker_storing_def)
  ultimately obtain j n where "waits_on (o_pc s j) = Some q" "o_nodes s q = Some n" "\<not> w_signaled n" "w_thread n = Some j"
    by (auto simp: listed_def)
  then show ?thesis using that qs ch by auto
qed

lemma queues_take:
  assumes nodes: "nodes_ok s" and inv: "queues_ok s L" and pc: "o_pc s i = Wake panicked q" "q \<noteq> 0"
    and n: "o_nodes s q = Some n" "w_thread n = Some j"
  shows "queues_ok (goto i (Wake_store panicked q (w_next n) j) (set_node q (Some (n\<lparr>w_thread := None\<rparr>)) s)) L"
    (is "queues_ok ?s L")
proof -
  obtain qs where h: "L (Some i) = q # qs" "waits_on (o_pc s j) = Some q" "\<not> w_signaled n" "chain (o_nodes s) (w_next n) qs"
    using walker_head [OF inv pc] n by (metis option.inject)
  have same: "chain ((o_nodes s)(q \<mapsto> n\<lparr>w_thread := None\<rparr>)) p ps = chain (o_nodes s) p ps"
    "waker_ok ((o_nodes s)(q \<mapsto> n\<lparr>w_thread := None\<rparr>)) pc ps = waker_ok (o_nodes s) pc ps" for p pc ps
    using chain_same_next [of "o_nodes s" q n "n\<lparr>w_thread := None\<rparr>"]
      waker_same_next [of "o_nodes s" q n "n\<lparr>w_thread := None\<rparr>"] n(1) by simp_all
  have only: "k = Some i" if "q \<in> set (L k)" for k
    using that h(1) queues_okD(3) [OF inv] unfolding disjoint_queues_def
    by (metis IntI emptyE list.set_intros(1))
  have storing: "walker_storing ?s k p t \<longleftrightarrow> walker_storing s k p t \<or> k = Some i \<and> p = q \<and> t = j" for k p t
    using pc by (auto simp: walker_storing_def)
  show ?thesis
  proof (rule queues_okI)
    show "chain (o_nodes ?s) (queue_head (o_state ?s)) (L None)"
      using queues_okD(1) [OF inv] by (simp add: same)
    show "waker_ok (o_nodes ?s) (o_pc ?s l) (L (Some l))" for l
      using queues_okD(2) [OF inv, of l] h by (cases "l = i") (simp_all add: same)
    show "disjoint_queues L" using inv by (rule queues_okD)
  next
    fix k p
    assume p: "p \<in> set (L k)"
    then obtain l m where l: "waits_on (o_pc s l) = Some p" "o_nodes s p = Some m" "\<not> w_signaled m"
      "if \<exists>t. walker_storing s k p t then walker_storing s k p l else w_thread m = Some l"
      by (rule listedE [OF inv])
    show "listed ?s k p"
    proof (cases "p = q")
      case True
      then have "k = Some i" using only p by blast
      then have "walker_storing ?s k p j" using True storing by blast
      moreover have "waits_on (o_pc ?s j) = Some p" using h(2) True pc by auto
      ultimately show ?thesis using True h(3) unfolding listed_def by (intro exI [of _ j]) auto
    next
      case False
      then have "walker_storing ?s k p = walker_storing s k p" using storing by auto
      moreover have "waits_on (o_pc ?s l) = Some p" using l(1) pc by auto
      ultimately show ?thesis using l False unfolding listed_def by (intro exI [of _ l] exI [of _ m]) simp
    qed
  next
    fix l a m
    assume "waits_on (o_pc ?s l) = Some a" "o_nodes ?s a = Some m" "\<not> w_signaled m"
    then have "a = q \<or> (\<exists>k. a \<in> set (L k))"
      using queues_okD(5) [OF inv, of l a m] by (cases "l = i") (auto split: if_splits)
    then show "\<exists>k. a \<in> set (L k)" using h(1) by (metis list.set_intros(1))
  next
    fix l f a m
    assume "o_pc ?s l = Parked f a" "o_nodes ?s a = Some m" "w_signaled m"
    then consider "o_token s l" | l' where "unparking (o_pc s l') l"
      using queues_okD(6) [OF inv, of l f a] h(3) n(1) by (cases "a = q") (auto split: if_splits)
    then show "o_token ?s l \<or> (\<exists>l'. unparking (o_pc ?s l') l)"
      using pc unparking_other [of s _ l i] by cases (auto simp del: fun_upd_apply)
  next
    fix l f a v
    assume e: "o_pc ?s l = Enqueue f a v"
    then have "o_pc s l = Enqueue f a v" by (auto split: if_splits)
    then obtain m where "o_nodes s a = Some m" "w_thread m = Some l" "\<not> w_signaled m" using queues_okD(7) [OF inv] by blast
    moreover have "a \<noteq> q"
      using nodes_okD(4) [OF nodes waits_on_node [OF h(2)], of l] h(2) \<open>o_pc s l = Enqueue f a v\<close> by auto
    ultimately show "\<exists>n. o_nodes ?s a = Some n \<and> w_thread n = Some l \<and> \<not> w_signaled n" by simp
  qed
qed

lemma storing_waits:
  assumes inv: "queues_ok s L" and pc: "o_pc s i = Wake_store panicked q nxt t"
  shows "waits_on (o_pc s t) = Some q"
proof -
  have "q \<in> set (L (Some i))" using queues_okD(2) [OF inv, of i] pc by auto
  then have "listed s (Some i) q" by (rule queues_okD(4) [OF inv])
  moreover have "walker_storing s (Some i) q t" using pc by (simp add: walker_storing_def)
  moreover have "walker_storing s (Some i) q t' \<Longrightarrow> t' = t" for t' using pc by (simp add: walker_storing_def)
  ultimately show ?thesis unfolding listed_def by metis
qed

lemma disjoint_shrink:
  assumes "disjoint_queues L" "distinct qs" "set qs \<subseteq> set (L k)"
  shows "disjoint_queues (L(k := qs))"
proof -
  have "set ((L(k := qs)) j) \<subseteq> set (L j)" "distinct ((L(k := qs)) j)" for j
    using assms by (cases "j = k"; simp add: disjoint_queues_def)+
  then show ?thesis using assms(1) unfolding disjoint_queues_def by (metis (no_types, lifting) disjoint_iff subsetD)
qed

lemma queues_store:
  assumes nodes: "nodes_ok s" and inv: "queues_ok s L" and pc: "o_pc s i = Wake_store panicked q nxt t"
    and n: "o_nodes s q = Some n" and L: "L (Some i) = q # qs"
  shows "queues_ok (goto i (Wake_unpark panicked nxt t) (set_node q (Some (n\<lparr>w_signaled := True\<rparr>)) s)) (L(Some i := qs))"
    (is "queues_ok ?s ?L")
proof -
  have ch: "chain (o_nodes s) nxt qs" using queues_okD(2) [OF inv, of i] pc L by simp
  have same: "chain ((o_nodes s)(q \<mapsto> n\<lparr>w_signaled := True\<rparr>)) p ps = chain (o_nodes s) p ps"
    "waker_ok ((o_nodes s)(q \<mapsto> n\<lparr>w_signaled := True\<rparr>)) pc ps = waker_ok (o_nodes s) pc ps" for p pc ps
    using chain_same_next [of "o_nodes s" q n "n\<lparr>w_signaled := True\<rparr>"]
      waker_same_next [of "o_nodes s" q n "n\<lparr>w_signaled := True\<rparr>"] n by simp_all
  have disj: "distinct (q # qs)" "distinct qs" "k \<noteq> Some i \<Longrightarrow> set (L k) \<inter> set (q # qs) = {}" for k
    using queues_okD(3) [OF inv] L unfolding disjoint_queues_def by (metis distinct.simps(2))+
  have gone: "q \<notin> set (?L k)" and sub: "p \<in> set (?L k) \<Longrightarrow> p \<in> set (L k)" for k p
    using disj L by (auto split: if_splits)
  have t: "waits_on (o_pc s t) = Some q" by (rule storing_waits [OF inv pc])
  have storing: "walker_storing ?s k p = walker_storing s k p" if "p \<noteq> q" for k p
  proof -
    have "storing (o_pc ?s l) p t' = storing (o_pc s l) p t'" for l t' using that pc by (cases "l = i") auto
    then show ?thesis by (intro ext) (simp add: walker_storing_def)
  qed
  show ?thesis
  proof (rule queues_okI)
    show "chain (o_nodes ?s) (queue_head (o_state ?s)) (?L None)"
      using queues_okD(1) [OF inv] by (simp add: same)
    show "waker_ok (o_nodes ?s) (o_pc ?s l) (?L (Some l))" for l
      using queues_okD(2) [OF inv, of l] ch by (cases "l = i") (simp_all add: same)
    show "disjoint_queues ?L" by (rule disjoint_shrink) (use queues_okD(3) [OF inv] disj L in auto)
  next
    fix k p
    assume p: "p \<in> set (?L k)"
    obtain l m where l: "waits_on (o_pc s l) = Some p" "o_nodes s p = Some m" "\<not> w_signaled m"
      "if \<exists>t. walker_storing s k p t then walker_storing s k p l else w_thread m = Some l"
      by (rule listedE [OF inv sub [OF p]])
    moreover have "p \<noteq> q" using p gone by blast
    moreover have "waits_on (o_pc ?s l) = Some p" using l(1) pc by auto
    ultimately show "listed ?s k p" using storing [of p k] unfolding listed_def by (intro exI [of _ l] exI [of _ m]) simp
  next
    fix l a m
    assume w: "waits_on (o_pc ?s l) = Some a" "o_nodes ?s a = Some m" "\<not> w_signaled m"
    then have "a \<noteq> q" by (auto split: if_splits)
    then obtain k where "a \<in> set (L k)" using queues_okD(5) [OF inv, of l a m] w by (auto split: if_splits)
    then show "\<exists>k. a \<in> set (?L k)" using \<open>a \<noteq> q\<close> L by (intro exI [of _ k]) auto
  next
    fix l f a m
    assume w: "o_pc ?s l = Parked f a" "o_nodes ?s a = Some m" "w_signaled m"
    then have l: "o_pc s l = Parked f a" by (auto split: if_splits)
    show "o_token ?s l \<or> (\<exists>l'. unparking (o_pc ?s l') l)"
    proof (cases "a = q")
      case True
      then have "l = t" using nodes_okD(4) [OF nodes waits_on_node [OF t], of l] l by simp
      then show ?thesis by (intro disjI2 exI [of _ i]) simp
    next
      case False
      then consider "o_token s l" | l' where "unparking (o_pc s l') l"
        using queues_okD(6) [OF inv l] w by auto
      then show ?thesis using pc unparking_other [of s _ l i] by cases (auto simp del: fun_upd_apply)
    qed
  next
    fix l f a v
    assume "o_pc ?s l = Enqueue f a v"
    then have l: "o_pc s l = Enqueue f a v" by (auto split: if_splits)
    then obtain m where "o_nodes s a = Some m" "w_thread m = Some l" "\<not> w_signaled m" using queues_okD(7) [OF inv] by blast
    moreover have "a \<noteq> q" using nodes_okD(4) [OF nodes waits_on_node [OF t], of l] t l by auto
    ultimately show "\<exists>n. o_nodes ?s a = Some n \<and> w_thread n = Some l \<and> \<not> w_signaled n" by simp
  qed
qed

subsection \<open>Every step keeps the invariant and none faults\<close>

definition once_inv :: "once_sys \<Rightarrow> bool" where
  "once_inv s \<longleftrightarrow> control_ok s \<and> nodes_ok s \<and> (\<exists>L. queues_ok s L)"

definition once_safe :: "once_sys res \<Rightarrow> bool" where
  "once_safe r \<longleftrightarrow> (\<exists>s. r = Inr s \<and> once_inv s)"

lemma once_inv_new: "once_inv Once_new"
  using control_new nodes_new queues_new by (auto simp: once_inv_def)

text \<open>Moves between program points that hold no node.\<close>

fun plain :: "once_pc \<Rightarrow> bool" where
  "plain (Wake _ _) = False"
| "plain (Wake_store _ _ _ _) = False"
| "plain (Wake_unpark _ _ _) = False"
| "plain pc = (node_of pc = None)"

lemma plainD:
  assumes "plain pc"
  shows "node_of pc = None" "waits_on pc = None" "\<not> storing pc q t" "\<not> unparking pc t" "waker_ok h pc qs \<longleftrightarrow> qs = []"
    "pc \<noteq> Parked f a" "pc \<noteq> Enqueue f a v"
  using assms by (cases pc; simp)+

lemma queues_plain:
  assumes inv: "queues_ok s L" and pc: "plain (o_pc s i)" "plain pc'" "o_pc s' = (o_pc s)(i := pc')"
    and same: "o_nodes s' = o_nodes s" "o_token s' = o_token s" "queue_head (o_state s') = queue_head (o_state s)"
  shows "queues_ok s' L"
  by (rule queues_frame [OF inv pc(3)])
    (use queues_okD(2) [OF inv, of i] same plainD [OF pc(1)] plainD [OF pc(2)] in auto)

lemma once_inv_plain:
  assumes inv: "once_inv s" and pc: "plain (o_pc s i)" "plain pc'" "o_pc s' = (o_pc s)(i := pc')"
    and same: "o_nodes s' = o_nodes s" "o_token s' = o_token s" "queue_head (o_state s') = queue_head (o_state s)"
    and control: "control_ok s'"
  shows "once_inv s'"
proof -
  obtain L where "queues_ok s L" using inv by (auto simp: once_inv_def)
  then have "queues_ok s' L" using queues_plain pc same by blast
  moreover have "nodes_ok s'"
    using inv pc same by (intro nodes_goto_none [of s pc' s' i]) (auto simp: once_inv_def dest: plainD)
  ultimately show ?thesis using control by (auto simp: once_inv_def)
qed

lemma once_inv_goto:
  assumes inv: "once_inv s" and pc: "plain (o_pc s i)" "plain pc'"
    and ini: "\<not> initialising (o_pc s i)" "\<not> initialising pc'" and loc: "local_ok (o_state s) pc'"
  shows "once_inv (goto i pc' s)"
  by (rule once_inv_plain [OF inv pc]) (use inv control_goto [OF _ ini loc] in \<open>auto simp: once_inv_def\<close>)

lemma once_inv_parts:
  assumes "once_inv s"
  obtains L where "control_ok s" "nodes_ok s" "queues_ok s L"
  using assms by (auto simp: once_inv_def)

lemma safe_begin:
  assumes "once_inv s" "plain (o_pc s i)" "\<not> initialising (o_pc s i)" "begin_call i c s = Some r"
  shows "once_safe r"
  using assms by (cases c) (auto simp: begin_call_def once_safe_def intro!: once_inv_goto)

lemma safe_make_node:
  assumes inv: "once_inv s" and pc: "o_pc s i = Outer force st" and me: "node_address_ok me s"
    and st: "st \<noteq> COMPLETE" "st \<noteq> POISONED" "st \<noteq> INCOMPLETE"
  shows "once_safe (make_node i force st me s)"
proof -
  obtain L where c: "control_ok s" and n: "nodes_ok s" and q: "queues_ok s L" by (rule once_inv_parts [OF inv])
  note m = make_node_ok [OF c pc me st]
  let ?n = "\<lparr>w_thread = Some i, w_signaled = False, w_next = 0\<rparr>"
  let ?s = "goto i (Enqueue force me st) (set_node me (Some ?n) s)"
  have fresh: "o_nodes s me = None" "me \<noteq> 0" using me by (simp_all add: node_address_ok_def)
  have "control_ok ?s" using control_goto [of "set_node me (Some ?n) s" i] c pc control_okD(4) [OF c, of i] by simp
  moreover have "nodes_ok ?s" using nodes_make [OF n fresh m(3)] .
  moreover have "me \<notin> set (L k)" for k
    using queues_okD(4) [OF q, of me k] listed_waits [of s k me] fresh by auto
  moreover have "node_of (o_pc s j) \<noteq> Some me" for j using nodes_okD(1) [OF n, of j me] fresh by auto
  ultimately have "queues_ok ?s L"
    using queues_okD(2) [OF q, of i] pc by (intro queues_frame [OF q]) auto
  then show ?thesis using m(1) \<open>control_ok ?s\<close> \<open>nodes_ok ?s\<close> by (auto simp: once_safe_def once_inv_def)
qed

lemma safe_outer:
  assumes inv: "once_inv s" and pc: "o_pc s i = Outer force st" and step: "call_inner_outer i force st c s = Some r"
  shows "once_safe r"
proof -
  obtain L where ctl: "control_ok s" by (rule once_inv_parts [OF inv])
  have loc: "local_ok (o_state s) (Outer force st)" using control_okD(4) [OF ctl, of i] pc by simp
  consider "st = COMPLETE" | "st = POISONED \<and> \<not> force" | "st = POISONED \<or> st = INCOMPLETE" "\<not> (st = POISONED \<and> \<not> force)"
    | "st \<noteq> COMPLETE" "st \<noteq> POISONED" "st \<noteq> INCOMPLETE" by blast
  then show ?thesis
  proof cases
    case 3
    then have "r = Inr (try_run i force st s)" using step by (auto simp: call_inner_outer_def)
    moreover have "once_inv (try_run i force st s)"
    proof (rule once_inv_plain [OF inv, of i "if o_state s = st then Running_init (st = POISONED) else Outer force (o_state s)"])
      show "queue_head (o_state (try_run i force st s)) = queue_head (o_state s)"
        using 3 by (auto simp: try_run_def compare_and_swap_def)
      show "control_ok (try_run i force st s)" by (rule control_try_run [OF ctl pc 3(1)])
    qed (auto simp: try_run_def compare_and_swap_def pc)
    ultimately show ?thesis by (simp add: once_safe_def)
  next
    case 4
    then obtain me where "r = make_node i force st me s" "node_address_ok me s"
      using step by (auto simp: call_inner_outer_def split: once_choice.splits if_splits)
    then show ?thesis using safe_make_node [OF inv pc] 4 by simp
  qed (use step loc pc in \<open>auto simp: call_inner_outer_def once_safe_def intro!: once_inv_goto [OF inv]\<close>)
qed

lemma safe_finish:
  assumes inv: "once_inv s" and pc: "o_pc s i = Finishing panicked"
  shows "once_safe (finish_swap i panicked s)"
proof -
  obtain L where c: "control_ok s" and n: "nodes_ok s" and q: "queues_ok s L" by (rule once_inv_parts [OF inv])
  have run: "tag_running (o_state s)" using control_state(1) [OF c, of i] pc by simp
  let ?v = "if panicked then POISONED else COMPLETE"
  have eq: "finish_swap i panicked s = Inr (goto i (Wake panicked (o_state s AND NOT STATE_MASK)) (s\<lparr>o_state := ?v\<rparr>))"
    using run by (simp add: finish_swap_def tag_running_def Let_def)
  moreover have "\<exists>L. queues_ok (goto i (Wake panicked (o_state s AND NOT STATE_MASK)) (s\<lparr>o_state := ?v\<rparr>)) L"
    using queues_finish [OF q pc run, of ?v] by auto
  moreover have "nodes_ok (goto i (Wake panicked (o_state s AND NOT STATE_MASK)) (s\<lparr>o_state := ?v\<rparr>))"
    by (rule nodes_goto_none [OF n]) auto
  ultimately show ?thesis using control_finish [OF c pc] by (auto simp: once_safe_def once_inv_def)
qed

lemma safe_wake:
  assumes inv: "once_inv s" and pc: "o_pc s i = Wake panicked queue"
  shows "once_safe (wake_read i panicked queue s)"
proof -
  obtain L where c: "control_ok s" and n: "nodes_ok s" and q: "queues_ok s L" by (rule once_inv_parts [OF inv])
  have loc: "\<not> panicked \<longrightarrow> o_state s = COMPLETE" using control_okD(4) [OF c, of i] pc by simp
  show ?thesis
  proof (cases "queue = 0")
    case True
    let ?s = "goto i (if panicked then Unwound else Returned) s"
    have "L (Some i) = []" using queues_okD(2) [OF q, of i] pc True by (cases "L (Some i)") auto
    then have "queues_ok ?s L" by (intro queues_frame [OF q]) (use pc in \<open>auto split: if_splits\<close>)
    moreover have "nodes_ok ?s" by (rule nodes_goto_none [OF n]) auto
    moreover have "control_ok ?s" by (rule control_goto [OF c]) (use pc loc in auto)
    ultimately show ?thesis using True by (auto simp: wake_read_def once_safe_def once_inv_def)
  next
    case False
    then obtain qs j m where h: "L (Some i) = queue # qs" "o_nodes s queue = Some m" "w_thread m = Some j"
      by (rule walker_head [OF q pc])
    let ?s = "goto i (Wake_store panicked queue (w_next m) j) (set_node queue (Some (m\<lparr>w_thread := None\<rparr>)) s)"
    have "queues_ok ?s L" by (rule queues_take [OF n q pc False h(2,3)])
    moreover have "nodes_ok ?s" by (rule nodes_goto_none [OF n]) (use pc in auto)
    moreover have "control_ok ?s"
      using control_goto [of "set_node queue (Some (m\<lparr>w_thread := None\<rparr>)) s" i] c pc loc by simp
    ultimately show ?thesis using False h by (auto simp: wake_read_def node_at_def once_safe_def once_inv_def)
  qed
qed

lemma safe_store:
  assumes inv: "once_inv s" and pc: "o_pc s i = Wake_store panicked queue nxt t"
  shows "once_safe (wake_store i panicked queue nxt t s)"
proof -
  obtain L where c: "control_ok s" and n: "nodes_ok s" and q: "queues_ok s L" by (rule once_inv_parts [OF inv])
  obtain qs where L: "L (Some i) = queue # qs" using queues_okD(2) [OF q, of i] pc by auto
  then obtain m where m: "o_nodes s queue = Some m" using queues_okD(4) [OF q, of queue "Some i"] listed_waits by fastforce
  let ?s = "goto i (Wake_unpark panicked nxt t) (set_node queue (Some (m\<lparr>w_signaled := True\<rparr>)) s)"
  have "queues_ok ?s (L(Some i := qs))" by (rule queues_store [OF n q pc m L])
  moreover have "nodes_ok ?s" by (rule nodes_goto_none [OF n]) (use pc in auto)
  moreover have "control_ok ?s"
    using control_goto [of "set_node queue (Some (m\<lparr>w_signaled := True\<rparr>)) s" i] c pc control_okD(4) [OF c, of i] by simp
  ultimately show ?thesis using m by (auto simp: wake_store_def node_at_def once_safe_def once_inv_def)
qed

lemma safe_unpark:
  assumes inv: "once_inv s" and pc: "o_pc s i = Wake_unpark panicked nxt t"
  shows "once_inv (wake_unpark i panicked nxt t s)"
proof -
  obtain L where c: "control_ok s" and n: "nodes_ok s" and q: "queues_ok s L" by (rule once_inv_parts [OF inv])
  let ?s = "s\<lparr>o_token := (o_token s)(t := True)\<rparr>"
  have "queues_ok (goto i (Wake panicked nxt) ?s) L"
    by (rule queues_frame [OF q]) (use pc queues_okD(2) [OF q, of i] in auto)
  moreover have "nodes_ok (goto i (Wake panicked nxt) ?s)" by (rule nodes_goto_none [OF n]) (use pc in auto)
  moreover have "control_ok (goto i (Wake panicked nxt) ?s)"
    using control_goto [of ?s i] c pc control_okD(4) [OF c, of i] by simp
  ultimately show ?thesis by (auto simp: wake_unpark_def once_inv_def)
qed

text \<open>The node that a thread holds is never taken away from it.\<close>

lemma own_node:
  assumes "nodes_ok s" "node_of (o_pc s i) = Some me" "j \<noteq> i" "node_of (o_pc s j) = Some q"
  shows "q \<noteq> me"
  using nodes_okD(4) [OF assms(1,2), of j] assms by auto

lemma safe_drop_node:
  assumes inv: "once_inv s" and pc: "node_of (o_pc s i) = Some me" "waits_on (o_pc s i) = None"
    and pc': "plain pc'" and ini: "\<not> initialising (o_pc s i)" "\<not> initialising pc'" and loc: "local_ok (o_state s) pc'"
  shows "once_inv (goto i pc' (set_node me None s))"
proof -
  obtain L where c: "control_ok s" and n: "nodes_ok s" and q: "queues_ok s L" by (rule once_inv_parts [OF inv])
  note new = not_listed [OF n q pc]
  have quiet: "\<not> storing (o_pc s i) p t" "\<not> unparking (o_pc s i) t" "L (Some i) = []" for p t
    using pc queues_okD(2) [OF q, of i] by (cases "o_pc s i"; simp)+
  have "queues_ok (goto i pc' (set_node me None s)) L"
    by (rule queues_frame [OF q])
      (use new own_node [OF n pc(1)] quiet pc plainD [OF pc'] in \<open>auto split: if_splits\<close>)
  moreover have "nodes_ok (goto i pc' (set_node me None s))"
    by (rule nodes_goto_none [OF n]) (use pc plainD [OF pc'] in auto)
  moreover have "control_ok (goto i pc' (set_node me None s))"
    by (rule control_goto) (use c ini loc in auto)
  ultimately show ?thesis by (auto simp: once_inv_def)
qed

lemma safe_enqueue:
  assumes inv: "once_inv s" and pc: "o_pc s i = Enqueue force me st"
  shows "once_safe (enqueue i force me st s)"
proof -
  obtain L where c: "control_ok s" and n: "nodes_ok s" and q: "queues_ok s L" by (rule once_inv_parts [OF inv])
  have own: "node_of (o_pc s i) = Some me" "waits_on (o_pc s i) = None" using pc by simp_all
  have al: "me AND STATE_MASK = 0" by (rule nodes_okD(3) [OF n own(1)])
  obtain m where m: "o_nodes s me = Some m" "w_thread m = Some i" "\<not> w_signaled m" using queues_okD(7) [OF q pc] by blast
  let ?m = "m\<lparr>w_next := st AND NOT STATE_MASK\<rparr>"
  consider (out) "\<not> tag_running st" | (lost) "tag_running st" "o_state s \<noteq> st" | (won) "tag_running st" "o_state s = st"
    by blast
  then show ?thesis
  proof cases
    case out
    then have "once_inv (goto i (Outer force st) (set_node me None s))"
      using pc own control_okD(4) [OF c, of i] by (intro safe_drop_node [OF inv]) auto
    then show ?thesis using out by (simp add: enqueue_def tag_running_def once_safe_def)
  next
    case lost
    let ?s = "goto i (Enqueue force me (o_state s)) (set_node me (Some ?m) s)"
    have eq: "enqueue i force me st s = Inr ?s"
      using lost m by (simp add: enqueue_def tag_running_def node_at_def compare_and_swap_def)
    have "queues_ok ?s L"
      by (rule queues_frame [OF q])
        (use not_listed [OF n q own] own_node [OF n own(1)] pc m queues_okD(2) [OF q, of i] in \<open>auto split: if_splits\<close>)
    moreover have "nodes_ok ?s" by (rule nodes_goto_same [OF n]) (use pc in auto)
    ultimately show ?thesis using eq control_enqueue [OF c pc al eq] by (auto simp: once_safe_def once_inv_def)
  next
    case won
    let ?s = "goto i (Waiting force me) (set_node me (Some ?m) s\<lparr>o_state := me OR RUNNING\<rparr>)"
    have eq: "enqueue i force me st s = Inr ?s"
      using won m by (simp add: enqueue_def tag_running_def node_at_def compare_and_swap_def)
    have "queues_ok ?s (L(None := me # L None))" by (rule queues_publish [OF n q pc won m(1)])
    moreover have "nodes_ok ?s" by (rule nodes_goto_same [OF n]) (use pc in auto)
    ultimately show ?thesis using eq control_enqueue [OF c pc al eq] by (auto simp: once_safe_def once_inv_def)
  qed
qed

lemma safe_check:
  assumes inv: "once_inv s" and pc: "o_pc s i = Waiting force me"
  shows "once_safe (check_signaled i force me s)"
proof -
  obtain L where c: "control_ok s" and n: "nodes_ok s" and q: "queues_ok s L" by (rule once_inv_parts [OF inv])
  have own: "node_of (o_pc s i) = Some me" "waits_on (o_pc s i) = Some me" using pc by simp_all
  obtain m where m: "o_nodes s me = Some m" using nodes_okD(1) [OF n own(1)] by blast
  let ?pc = "if w_signaled m then Reload force me else Parked force me"
  have "queues_ok (goto i ?pc s) L"
  proof (rule queues_frame [OF q])
    show "p \<notin> set (L k)" if "waits_on (o_pc s i) = Some p" "waits_on ?pc \<noteq> Some p" for p k
    proof
      assume "p \<in> set (L k)"
      moreover have "p = me" "w_signaled m" using that pc by (auto split: if_splits)
      ultimately show False using queues_okD(4) [OF q] listed_waits m by fastforce
    qed
    show "\<exists>k. p \<in> set (L k)" if "waits_on ?pc = Some p" "o_nodes (goto i ?pc s) p = Some m'" "\<not> w_signaled m'" for p m'
      using that queues_okD(5) [OF q own(2)] by (auto split: if_splits)
  qed (use pc m queues_okD(2) [OF q, of i] in \<open>auto split: if_splits\<close>)
  moreover have "nodes_ok (goto i ?pc s)" by (rule nodes_goto_same [OF n]) (use pc in auto)
  moreover have "control_ok (goto i ?pc s)" by (rule control_goto [OF c]) (use pc in auto)
  ultimately show ?thesis using m by (auto simp: check_signaled_def node_at_def once_safe_def once_inv_def)
qed

lemma safe_park:
  assumes inv: "once_inv s" and pc: "o_pc s i = Parked force me" and step: "once_park i force me ch s = Some s'"
  shows "once_inv s'"
proof -
  obtain L where c: "control_ok s" and n: "nodes_ok s" and q: "queues_ok s L" by (rule once_inv_parts [OF inv])
  have own: "waits_on (o_pc s i) = Some me" using pc by simp
  let ?s = "\<lambda>t. goto i (Waiting force me) (s\<lparr>o_token := t\<rparr>)"
  let ?t = "if ch = Spurious then o_token s else (o_token s)(i := False)"
  have "s' = ?s ?t" using step by (auto simp: once_park_def goto_def split: if_splits)
  then obtain t where t: "s' = ?s t" "\<And>j. j \<noteq> i \<Longrightarrow> t j = o_token s j" by auto
  have "queues_ok (?s t) L"
    by (rule queues_frame [OF q]) (use pc t(2) queues_okD(2) [OF q, of i] queues_okD(5) [OF q own] in auto)
  moreover have "nodes_ok (?s t)" by (rule nodes_goto_same [OF n]) (use pc in auto)
  moreover have "control_ok (?s t)" by (rule control_goto) (use c pc in auto)
  ultimately show ?thesis using t(1) by (auto simp: once_inv_def)
qed

lemma once_step_safe:
  assumes inv: "once_inv s" and step: "once_step a s = Some r"
  shows "once_safe r"
proof -
  obtain i ch where a: "a = (i, ch)" by force
  obtain L where c: "control_ok s" by (rule once_inv_parts [OF inv])
  show ?thesis
  proof (cases "o_pc s i")
    case (Running_init p)
    then obtain panicked where r: "r = Inr (init_ends i panicked s)"
      using step a by (auto simp: once_step_def split: once_choice.splits)
    have "once_inv (init_ends i panicked s)"
      by (rule once_inv_plain [OF inv, of i "Finishing panicked"])
        (use Running_init control_init_ends [OF c] in \<open>auto simp: init_ends_def\<close>)
    then show ?thesis using r by (simp add: once_safe_def)
  next
    case (Reload force me)
    then have "once_inv (reload i force me s)"
      unfolding reload_def by (intro safe_drop_node [OF inv]) (use control_okD(1) [OF c] in auto)
    then show ?thesis using step a Reload by (auto simp: once_step_def once_safe_def)
  next
    case (Parked force me)
    then show ?thesis using step a safe_park [OF inv Parked] by (auto simp: once_step_def once_safe_def)
  next
    case (Call force)
    then show ?thesis using step a
      by (auto simp: once_step_def call_once_load_def once_safe_def intro!: once_inv_goto [OF inv])
  next
    case (Call_inner force)
    then show ?thesis using step a control_okD(1) [OF c]
      by (auto simp: once_step_def call_inner_load_def once_safe_def intro!: once_inv_goto [OF inv])
  qed (use step a safe_begin [OF inv, of i] safe_outer [OF inv] safe_finish [OF inv] safe_wake [OF inv] safe_store [OF inv]
      safe_unpark [OF inv] safe_enqueue [OF inv] safe_check [OF inv] in \<open>auto simp: once_step_def once_safe_def\<close>)
qed

lemma once_run_safe:
  "once_inv s \<Longrightarrow> once_run as s = Some r \<Longrightarrow> once_safe r"
proof (induction as arbitrary: s)
  case (Cons a as)
  show ?case
  proof (cases "once_step a s")
    case (Some r1)
    then obtain s1 where "r1 = Inr s1" "once_inv s1"
      using once_step_safe [OF Cons.prems(1) Some] by (auto simp: once_safe_def)
    then show ?thesis using Cons.IH Cons.prems(2) Some by simp
  qed (use Cons.prems in simp)
qed (auto simp: once_safe_def)

lemma once_reachable: "once_run as Once_new = ret s \<Longrightarrow> once_inv s"
  using once_run_safe [OF once_inv_new, of as "Inr s"] by (auto simp: once_safe_def)

end
