(* ===== verification/Once_Spec.thy ===== *)
theory Once_Spec
  imports Once_Inv
begin

section \<open>sync::Once: what callers rely on\<close>

text \<open>
  The initialiser runs to completion once, and no waiting thread is forgotten.
\<close>

text \<open>
  C34: a \<open>Once\<close> runs its initialiser once, for every schedule of any number of calls of
  \<open>call_once\<close> and \<open>call_once_force\<close>, with initialisers that return or unwind. No schedule reaches a
  failed assertion, an \<open>unwrap\<close> of a missing thread or an access to a dropped node. At most one
  thread is in the initialiser or about to publish its end; at most one initialiser ever runs to
  completion; and when a call has returned, one has.
\<close>

theorem Once_runs_once:
  "once_run as Once_new \<noteq> Some (Inl f) \<and>
   (once_run as Once_new = ret s \<longrightarrow>
      (\<forall>i j. initialising (o_pc s i) \<longrightarrow> initialising (o_pc s j) \<longrightarrow> i = j) \<and>
      o_inits s \<le> 1 \<and>
      (\<forall>i. o_pc s i = Returned \<longrightarrow> o_inits s = 1 \<and> (\<forall>j. \<not> initialising (o_pc s j))))"
proof (intro conjI impI)
  show "once_run as Once_new \<noteq> Some (Inl f)"
    using once_run_safe [OF once_inv_new, of as] by (fastforce simp: once_safe_def)
  assume "once_run as Once_new = ret s"
  then have c: "control_ok s" using once_reachable by (simp add: once_inv_def)
  show "\<forall>i j. initialising (o_pc s i) \<longrightarrow> initialising (o_pc s j) \<longrightarrow> i = j" using control_okD(3) [OF c] by blast
  show "o_inits s \<le> 1" using control_okD(5) [OF c] by simp
  show "\<forall>i. o_pc s i = Returned \<longrightarrow> o_inits s = 1 \<and> (\<forall>j. \<not> initialising (o_pc s j))"
  proof (intro allI impI)
    fix i
    assume "o_pc s i = Returned"
    then have st: "o_state s = COMPLETE" using control_okD(4) [OF c, of i] by simp
    then show "o_inits s = 1 \<and> (\<forall>j. \<not> initialising (o_pc s j))"
      using control_okD(5) [OF c] control_state(2) [OF c] by auto
  qed
qed

lemmas once_exec = once_step_def Once_new_def begin_call_def goto_def call_once_load_def call_inner_load_def
  call_inner_outer_def try_run_def compare_and_swap_def once_consts node_address_ok_def make_node_def set_node_def
  enqueue_def node_at_def check_signaled_def init_ends_def finish_swap_def wake_read_def wake_store_def
  wake_unpark_def once_park_def reload_def Let_def

text \<open>
  Thread 1 waits while thread 0 runs the initialiser, is woken by its destructor, and both
  return: one initialiser has run.
\<close>

theorem Once_runs_once_witness:
  "\<exists>s. once_run [(0, Begin False), (0, Go), (0, Go), (0, Go), (1, Begin False), (1, Go), (1, Go), (1, Alloc 64), (1, Go), (1, Go),
      (0, Init_ends False), (0, Go), (0, Go), (0, Go), (0, Go), (0, Go), (1, Go), (1, Go), (1, Go), (1, Go)] Once_new = ret s \<and>
    o_pc s 0 = Returned \<and> o_pc s 1 = Returned \<and> o_inits s = 1"
proof -
  let ?as = "[(0, Begin False), (0, Go), (0, Go), (0, Go), (1, Begin False), (1, Go), (1, Go), (1, Alloc 64), (1, Go), (1, Go),
      (0, Init_ends False), (0, Go), (0, Go), (0, Go), (0, Go), (0, Go), (1, Go), (1, Go), (1, Go), (1, Go)]"
  obtain s where s: "once_run ?as Once_new = ret s" "o_pc s 0 = Returned" "o_pc s 1 = Returned"
    by (simp add: once_exec)
  then show ?thesis using Once_runs_once [of ?as undefined s] by blast
qed

subsection \<open>No wakeup is lost\<close>

text \<open>A waiting thread whose node is signalled and whose token is available.\<close>

definition woken :: "tid \<Rightarrow> bool \<Rightarrow> usize \<Rightarrow> once_sys \<Rightarrow> bool" where
  "woken i force me s \<longleftrightarrow>
     o_pc s i = Parked force me \<and> o_token s i \<and> (\<exists>n. o_nodes s me = Some n \<and> w_signaled n)"

definition wakes_alone :: "tid \<Rightarrow> tid \<Rightarrow> bool \<Rightarrow> usize \<Rightarrow> once_sys \<Rightarrow> bool" where
  "wakes_alone j i force me s \<longleftrightarrow>
     (\<exists>bs s'. (\<forall>b \<in> set bs. fst b = j) \<and> once_run bs s = ret s' \<and> woken i force me s')"

lemma wakes_alone_done: "woken i force me s \<Longrightarrow> wakes_alone j i force me s"
  unfolding wakes_alone_def by (intro exI [of _ "[]"] exI [of _ s]) simp

lemma wakes_alone_step:
  assumes "once_step (j, c) s = ret s'" "wakes_alone j i force me s'"
  shows "wakes_alone j i force me s"
proof -
  obtain bs s'' where "\<forall>b \<in> set bs. fst b = j" "once_run bs s' = ret s''" "woken i force me s''"
    using assms(2) by (auto simp: wakes_alone_def)
  then show ?thesis using assms(1) unfolding wakes_alone_def
    by (intro exI [of _ "(j, c) # bs"] exI [of _ s'']) simp
qed

lemma queues_unpark:
  assumes "queues_ok s L" "o_pc s i = Wake_unpark panicked nxt t"
  shows "queues_ok (wake_unpark i panicked nxt t s) L"
  unfolding wake_unpark_def
  by (rule queues_frame [OF assms(1)]) (use assms(2) queues_okD(2) [OF assms(1), of i] in auto)

fun walk_measure :: "once_pc \<Rightarrow> usize list \<Rightarrow> nat" where
  "walk_measure (Wake _ _) qs = 3 * length qs + 1"
| "walk_measure (Wake_unpark _ _ _) qs = 3 * length qs + 2"
| "walk_measure _ qs = 3 * length qs"

lemma walker_wakes:
  assumes "nodes_ok s" "queues_ok s L" "o_pc s i = Parked force me" "me \<in> set (L (Some j))"
  shows "wakes_alone j i force me s"
  using assms
proof (induction "walk_measure (o_pc s j) (L (Some j))" arbitrary: s L rule: less_induct)
  case less
  note n = less.prems(1) and q = less.prems(2) and i = less.prems(3)
  have ok: "waker_ok (o_nodes s) (o_pc s j) (L (Some j))" by (rule queues_okD(2) [OF q])
  consider (wake) p a where "o_pc s j = Wake p a" | (store) p a nxt t where "o_pc s j = Wake_store p a nxt t"
    | (unpark) p nxt t where "o_pc s j = Wake_unpark p nxt t"
    using ok less.prems(4) by (cases "o_pc s j") auto
  then show ?case
  proof cases
    case wake
    then have "a \<noteq> 0" using ok less.prems(4) by (cases "L (Some j)") auto
    obtain qs t m where h: "L (Some j) = a # qs" "o_nodes s a = Some m" "w_thread m = Some t"
      by (rule walker_head [OF q wake \<open>a \<noteq> 0\<close>])
    let ?s = "goto j (Wake_store p a (w_next m) t) (set_node a (Some (m\<lparr>w_thread := None\<rparr>)) s)"
    have "once_step (j, Go) s = ret ?s"
      using wake \<open>a \<noteq> 0\<close> h by (simp add: once_step_def wake_read_def node_at_def)
    moreover have "wakes_alone j i force me ?s"
      by (rule less.hyps [of ?s L])
        (use wake i less.prems(4) queues_take [OF n q wake \<open>a \<noteq> 0\<close> h(2,3)] nodes_goto_none [OF n, of "o_pc ?s j" ?s j] in auto)
    ultimately show ?thesis by (rule wakes_alone_step)
  next
    case unpark
    have "once_step (j, Go) s = ret (wake_unpark j p nxt t s)" using unpark by (simp add: once_step_def)
    moreover have "wakes_alone j i force me (wake_unpark j p nxt t s)"
      by (rule less.hyps [of _ L])
        (use unpark i less.prems(4) queues_unpark [OF q unpark]
          nodes_goto_none [OF n, of "Wake p nxt" "wake_unpark j p nxt t s" j] in \<open>auto simp: wake_unpark_def\<close>)
    ultimately show ?thesis by (rule wakes_alone_step)
  next
    case store
    obtain qs where L: "L (Some j) = a # qs" using ok store by auto
    then obtain m where m: "o_nodes s a = Some m" using queues_okD(4) [OF q, of a "Some j"] listed_waits by fastforce
    let ?s = "goto j (Wake_unpark p nxt t) (set_node a (Some (m\<lparr>w_signaled := True\<rparr>)) s)"
    have step: "once_step (j, Go) s = ret ?s" using store m by (simp add: once_step_def wake_store_def node_at_def)
    have n': "nodes_ok ?s" by (rule nodes_goto_none [OF n]) (use store in auto)
    have q': "queues_ok ?s (L(Some j := qs))" by (rule queues_store [OF n q store m L])
    have ij: "i \<noteq> j" using i store by auto
    have "wakes_alone j i force me ?s"
    proof (cases "a = me")
      case True
      have "waits_on (o_pc s t) = Some a" by (rule storing_waits [OF q store])
      then have "t = i" using nodes_okD(4) [OF n, of i me t] waits_on_node i True by simp
      then have "woken i force me (wake_unpark j p nxt t ?s)"
        using i ij True by (simp add: woken_def wake_unpark_def)
      moreover have "once_step (j, Go) ?s = ret (wake_unpark j p nxt t ?s)" by (simp add: once_step_def)
      ultimately show ?thesis using wakes_alone_step wakes_alone_done by blast
    next
      case False
      show ?thesis
        by (rule less.hyps [OF _ n' q']) (use store L i ij False less.prems(4) in auto)
    qed
    then show ?thesis by (rule wakes_alone_step [OF step])
  qed
qed

text \<open>The thread that wakes a sleeper: the one that runs, or the one that walks its queue.\<close>

lemma initialising_wakes:
  assumes inv: "once_inv s" and q: "queues_ok s L" and i: "o_pc s i = Parked force me" and me: "me \<in> set (L None)"
  shows "\<exists>j. j \<noteq> i \<and> wakes_alone j i force me s"
proof -
  have c: "control_ok s" and n: "nodes_ok s" using inv by (auto simp: once_inv_def)
  have "queue_head (o_state s) \<noteq> 0" using queues_okD(1) [OF q] me by (cases "L None") auto
  then have run: "tag_running (o_state s)" by (auto simp: queue_head_def split: if_splits)
  then obtain j where j: "initialising (o_pc s j)" using control_okD(2) [OF c] by blast
  have finishing: "wakes_alone j i force me s'"
    if "control_ok s'" "nodes_ok s'" "queues_ok s' L" "o_pc s' i = Parked force me" "o_pc s' j = Finishing p" for s' p
  proof -
    let ?v = "if p then POISONED else COMPLETE"
    let ?s = "goto j (Wake p (o_state s' AND NOT STATE_MASK)) (s'\<lparr>o_state := ?v\<rparr>)"
    have run': "tag_running (o_state s')" using control_state(1) [OF that(1), of j] that(5) by simp
    have "once_step (j, Go) s' = ret ?s"
      using that(5) run' by (simp add: once_step_def finish_swap_def tag_running_def Let_def)
    moreover have "wakes_alone j i force me ?s"
    proof (rule walker_wakes)
      show "nodes_ok ?s" by (rule nodes_goto_none [OF that(2)]) auto
      show "queues_ok ?s (L(None := [], Some j := L None))" by (rule queues_finish [OF that(3,5) run']) auto
    qed (use that me in auto)
    ultimately show ?thesis by (rule wakes_alone_step)
  qed
  show ?thesis
  proof (cases "o_pc s j")
    case (Running_init p)
    let ?s = "init_ends j False s"
    have "once_step (j, Init_ends False) s = ret ?s" using Running_init by (simp add: once_step_def)
    moreover have "wakes_alone j i force me ?s"
    proof (rule finishing)
      show "control_ok ?s" by (rule control_init_ends [OF c Running_init])
      show "nodes_ok ?s" by (rule nodes_goto_none [OF n, of "Finishing False" _ j]) (auto simp: init_ends_def)
      show "queues_ok ?s L"
        by (rule queues_plain [OF q, of j "Finishing False"]) (use Running_init in \<open>auto simp: init_ends_def\<close>)
    qed (use i Running_init in \<open>auto simp: init_ends_def\<close>)
    ultimately have "wakes_alone j i force me s" by (rule wakes_alone_step)
    then show ?thesis using i j by (intro exI [of _ j]) auto
  next
    case (Finishing p)
    then show ?thesis using finishing [OF c n q i Finishing] i j by (intro exI [of _ j]) auto
  qed (use j in auto)
qed

text \<open>
  C35: no wakeup is lost. In every state a schedule can reach, a thread that sleeps in \<open>park\<close>
  without a token is woken by some other thread acting alone: there is one whose own moves, with
  its initialiser allowed to return, signal the sleeper's node and make its token available. So
  a \<open>Once\<close> never reaches a state in which a waiting thread has nobody left to wake it, whether
  the initialiser it waits for returns or unwinds.
\<close>

theorem Once_no_lost_wakeup:
  assumes "once_run as Once_new = ret s" "o_pc s i = Parked force me" "\<not> o_token s i"
  shows "\<exists>j bs s'. j \<noteq> i \<and> (\<forall>b \<in> set bs. fst b = j) \<and> once_run bs s = ret s' \<and> woken i force me s'"
proof -
  have inv: "once_inv s" by (rule once_reachable [OF assms(1)])
  then obtain L where n: "nodes_ok s" and q: "queues_ok s L" by (auto simp: once_inv_def)
  obtain m where m: "o_nodes s me = Some m" using nodes_okD(1) [OF n, of i me] assms(2) by auto
  have "\<exists>j. j \<noteq> i \<and> wakes_alone j i force me s"
  proof (cases "w_signaled m")
    case True
    then obtain j where j: "unparking (o_pc s j) i" using queues_okD(6) [OF q assms(2) m] assms(3) by blast
    then obtain p nxt where pc: "o_pc s j = Wake_unpark p nxt i" by (cases "o_pc s j") auto
    then have "j \<noteq> i" using assms(2) by auto
    then have "woken i force me (wake_unpark j p nxt i s)" using assms(2) m True by (simp add: woken_def wake_unpark_def)
    moreover have "once_step (j, Go) s = ret (wake_unpark j p nxt i s)" using pc by (simp add: once_step_def)
    ultimately show ?thesis using \<open>j \<noteq> i\<close> wakes_alone_step wakes_alone_done by blast
  next
    case False
    then obtain k where k: "me \<in> set (L k)" using queues_okD(5) [OF q, of i me m] assms(2) m by auto
    show ?thesis
    proof (cases k)
      case None
      then show ?thesis using initialising_wakes [OF inv q assms(2)] k by simp
    next
      case (Some j)
      moreover have "j \<noteq> i" using queues_okD(2) [OF q, of i] assms(2) k Some by auto
      ultimately show ?thesis using walker_wakes [OF n q assms(2)] k by blast
    qed
  qed
  then show ?thesis by (auto simp: wakes_alone_def)
qed

theorem Once_no_lost_wakeup_witness:
  "\<exists>s j bs s'. once_run [(0, Begin False), (0, Go), (0, Go), (0, Go), (1, Begin False), (1, Go), (1, Go), (1, Alloc 64), (1, Go),
      (1, Go)] Once_new = ret s \<and> j \<noteq> 1 \<and> (\<forall>b \<in> set bs. fst b = j) \<and> once_run bs s = ret s' \<and> woken 1 False 64 s'"
proof -
  let ?as = "[(0, Begin False), (0, Go), (0, Go), (0, Go), (1, Begin False), (1, Go), (1, Go), (1, Alloc 64), (1, Go), (1, Go)]"
  obtain s where s: "once_run ?as Once_new = ret s" "o_pc s 1 = Parked False 64" "\<not> o_token s 1"
    by (simp add: once_exec)
  then show ?thesis using Once_no_lost_wakeup [of ?as s 1 False 64] by blast
qed

end
