(* ===== verification/Blocking.thy ===== *)
theory Blocking
  imports Thread_Park
begin

section \<open>sync::mpsc::blocking\<close>

text \<open>
  The tokens a receiver blocks on (src/sync/mpsc/blocking.rs). They live on a heap and are counted; an access to one
  that has been freed is undefined behaviour.
\<close>

text \<open>The shared part of a \<open>SignalToken\<close> and a \<open>WaitToken\<close>, with its reference count.\<close>

record Inner =
  woken_flag :: bool
  refs :: nat

type_synonym token_heap = "usize \<Rightarrow> Inner option"

definition token_at :: "usize \<Rightarrow> token_heap \<Rightarrow> Inner res" where
  "token_at p h = (case h p of Some t \<Rightarrow> Inr t | None \<Rightarrow> Inl (Undefined ''use of a freed token''))"

definition fresh_token :: "usize \<Rightarrow> token_heap \<Rightarrow> bool" where
  "fresh_token p h \<longleftrightarrow> h p = None \<and> p \<noteq> 0 \<and> 8 dvd unat p"

text \<open>\<open>tokens()\<close> makes a pair, \<open>drop\<close> gives up one half.\<close>

definition tokens_new :: "usize \<Rightarrow> token_heap \<Rightarrow> token_heap" where
  "tokens_new p h = h(p \<mapsto> \<lparr>woken_flag = False, refs = 2\<rparr>)"

definition token_drop :: "usize \<Rightarrow> token_heap \<Rightarrow> token_heap res" where
  "token_drop p h = bindR (token_at p h) (\<lambda>t.
     Inr (h(p := if refs t \<le> 1 then None else Some (t\<lparr>refs := refs t - 1\<rparr>))))"

text \<open>The exchange of \<open>SignalToken::signal\<close>: whether this call has to unpark the thread.\<close>

definition token_signal :: "usize \<Rightarrow> token_heap \<Rightarrow> (bool \<times> token_heap) res" where
  "token_signal p h = bindR (token_at p h) (\<lambda>t.
     case compare_and_swap False True (woken_flag t) of (old, v) \<Rightarrow> Inr (\<not> old, h(p \<mapsto> t\<lparr>woken_flag := v\<rparr>)))"

end
