(* ===== verification/Oneshot.thy ===== *)
theory Oneshot
  imports Blocking
begin

section \<open>sync::mpsc::oneshot\<close>

text \<open>
  The packet that a \<open>Sender\<close> and a \<open>Receiver\<close> share until the channel is used a second time
  (src/sync/mpsc/oneshot.rs).
  Two threads are interleaved at the atomic operations; an access to one of the two unsafe cells
  is a step of its own, so that a data race is a state of the model. The state word is kept as the
  code has it: three small constants, or the address of a token. Tokens live on a heap and are
  counted; an access to one that has been freed is undefined behaviour.
\<close>

subsection \<open>State\<close>

definition EMPTY :: usize where "EMPTY = 0"
definition DATA :: usize where "DATA = 1"
definition DISCONNECTED :: usize where "DISCONNECTED = 2"

lemmas oneshot_consts = EMPTY_def DATA_def DISCONNECTED_def

datatype 'r MyUpgrade = NothingSent | SendUsed | GoUp 'r

text \<open>Where the sender goes when it has signalled a token: its operation was a send, an upgrade or the drop.\<close>

datatype after_signal = After_send | After_upgrade | After_drop

datatype ('a, 'r) sender_pc =
    S_idle
  | S_send 'a                          \<comment> \<open>before the checks and the writes to the cells\<close>
  | S_send_swap                        \<comment> \<open>before \<open>swap(DATA)\<close>\<close>
  | S_send_back                        \<comment> \<open>before the swap that restores DISCONNECTED\<close>
  | S_send_take                        \<comment> \<open>before the value is taken back\<close>
  | S_upgrade 'r
  | S_upgrade_swap "'r MyUpgrade"      \<comment> \<open>with \<open>prev\<close>\<close>
  | S_upgrade_restore "'r MyUpgrade"
  | S_drop                             \<comment> \<open>before the swap of \<open>drop_chan\<close>\<close>
  | S_signal usize after_signal        \<comment> \<open>owns a \<open>SignalToken\<close>\<close>
  | S_unpark usize after_signal
  | S_token_drop usize after_signal
  | S_gone

datatype wait_kind = Recv | Recv_timeout | Select

datatype receiver_pc =
    R_idle
  | R_recv wait_kind                   \<comment> \<open>before the load of \<open>recv\<close>\<close>
  | R_tokens wait_kind                 \<comment> \<open>before \<open>tokens()\<close>\<close>
  | R_block wait_kind usize            \<comment> \<open>before the exchange of EMPTY for the token\<close>
  | R_unblocked wait_kind usize        \<comment> \<open>it failed\<close>
  | R_start_cells usize                \<comment> \<open>it failed in \<open>start_selection\<close> with DISCONNECTED\<close>
  | R_wait wait_kind usize             \<comment> \<open>before the load of \<open>woken\<close>\<close>
  | R_park wait_kind usize
  | R_waited wait_kind usize           \<comment> \<open>the wait has returned true\<close>
  | R_gave_up wait_kind usize          \<comment> \<open>the wait has returned false\<close>
  | R_abort wait_kind                  \<comment> \<open>before the load of \<open>abort_selection\<close>\<close>
  | R_abort_cas wait_kind usize
  | R_abort_end wait_kind usize        \<comment> \<open>with the state that was found\<close>
  | R_abort_cells wait_kind
  | R_try wait_kind                    \<comment> \<open>before the load of \<open>try_recv\<close>\<close>
  | R_try_cas
  | R_take
  | R_disconnected
  | R_can
  | R_can_cells
  | R_drop                             \<comment> \<open>before the swap of \<open>drop_port\<close>\<close>
  | R_drop_data
  | R_gone

text \<open>What \<open>recv\<close>, \<open>try_recv\<close> and the operations of a selection answer.\<close>

datatype 'r recv_result = Received | Failed_empty | Failed_disconnected | Failed_upgraded 'r | Selection bool

text \<open>
  The ghost fields record the last answer to the receiver, the values that sends have begun with, and where each went: to the
  receiver, back to the sender, or destroyed with the channel.
\<close>

record ('a, 'r) oneshot =
  os_state :: usize
  os_data :: "'a option"
  os_upgrade :: "'r MyUpgrade"
  os_tokens :: token_heap
  os_unparked :: bool
  os_sender :: "('a, 'r) sender_pc"
  os_receiver :: receiver_pc
  os_result :: "'r recv_result option"
  os_sent :: "'a list"
  os_got :: "'a list"
  os_back :: "'a list"
  os_lost :: "'a list"

definition oneshot_new :: "('a, 'r) oneshot" where
  "oneshot_new = \<lparr>os_state = EMPTY, os_data = None, os_upgrade = NothingSent, os_tokens = (\<lambda>_. None), os_unparked = False,
     os_sender = S_idle, os_receiver = R_idle, os_result = None, os_sent = [], os_got = [], os_back = [], os_lost = []\<rparr>"

abbreviation sgo :: "('a, 'r) sender_pc \<Rightarrow> ('a, 'r) oneshot \<Rightarrow> ('a, 'r) oneshot" where
  "sgo pc s \<equiv> s\<lparr>os_sender := pc\<rparr>"

abbreviation rgo :: "receiver_pc \<Rightarrow> ('a, 'r) oneshot \<Rightarrow> ('a, 'r) oneshot" where
  "rgo pc s \<equiv> s\<lparr>os_receiver := pc\<rparr>"

datatype ('a, 'r) oneshot_choice =
    Send 'a | Upgrade 'r | Drop_chan
  | Begin_recv wait_kind | Try_recv | Can_recv | Drop_port
  | Alloc usize | Give_up | Spurious | Go

definition unreachableR :: "'b res" where
  "unreachableR = Inl (Panic ''internal error: entered unreachable code'')"

subsection \<open>The sender\<close>

text \<open>A \<open>Sender\<close> sends on a oneshot packet while \<open>sent()\<close> is false, and upgrades it otherwise.\<close>

definition sent_on :: "('a, 'r) oneshot \<Rightarrow> bool" where
  "sent_on s = (case os_upgrade s of NothingSent \<Rightarrow> False | _ \<Rightarrow> True)"

definition sender_begin :: "('a, 'r) oneshot_choice \<Rightarrow> ('a, 'r) oneshot \<Rightarrow> ('a, 'r) oneshot res option" where
  "sender_begin c s = (case c of
       Send t \<Rightarrow> if sent_on s then None else ret (sgo (S_send t) (s\<lparr>os_sent := os_sent s @ [t]\<rparr>))
     | Upgrade up \<Rightarrow> ret (sgo (S_upgrade up) s)
     | Drop_chan \<Rightarrow> ret (sgo S_drop s)
     | _ \<Rightarrow> None)"

definition send_write :: "'a \<Rightarrow> ('a, 'r) oneshot \<Rightarrow> ('a, 'r) oneshot res" where
  "send_write t s =
     (case os_upgrade s of
        NothingSent \<Rightarrow>
          bindR (assertR ''(*self.data.get()).is_none()'' (os_data s = None)) (\<lambda>_.
          Inr (sgo S_send_swap (s\<lparr>os_data := Some t, os_upgrade := SendUsed\<rparr>)))
      | _ \<Rightarrow> Inl (Panic ''sending on a oneshot that's already sent on ''))"

definition send_swap :: "('a, 'r) oneshot \<Rightarrow> ('a, 'r) oneshot res" where
  "send_swap s =
     (let old = os_state s; s = s\<lparr>os_state := DATA\<rparr>
      in if old = EMPTY then Inr (sgo S_idle s)
         else if old = DISCONNECTED then Inr (sgo S_send_back s)
         else if old = DATA then unreachableR
         else Inr (sgo (S_signal old After_send) s))"

definition send_back :: "('a, 'r) oneshot \<Rightarrow> ('a, 'r) oneshot" where
  "send_back s = sgo S_send_take (s\<lparr>os_state := DISCONNECTED\<rparr>)"

definition send_take :: "('a, 'r) oneshot \<Rightarrow> ('a, 'r) oneshot res" where
  "send_take s =
     bindR (expectR ''called `Option::unwrap()` on a `None` value'' (os_data s)) (\<lambda>t.
     Inr (sgo S_idle (s\<lparr>os_upgrade := NothingSent, os_data := None, os_back := os_back s @ [t]\<rparr>)))"

definition upgrade_write :: "'r \<Rightarrow> ('a, 'r) oneshot \<Rightarrow> ('a, 'r) oneshot res" where
  "upgrade_write up s =
     bindR (case os_upgrade s of
              NothingSent \<Rightarrow> Inr NothingSent
            | SendUsed \<Rightarrow> Inr SendUsed
            | _ \<Rightarrow> Inl (Panic ''upgrading again'')) (\<lambda>prev.
     Inr (sgo (S_upgrade_swap prev) (s\<lparr>os_upgrade := GoUp up\<rparr>)))"

text \<open>
  After an upgrade, successful or not, the sender changes to the new flavour and drops its
  \<open>Sender\<close> of the old one; a token is signalled first, as \<open>Sender::send\<close> does. (\<open>Sender::clone\<close> hands
  the token to the new shared packet instead, which is not modelled.)
\<close>

definition upgrade_swap :: "'r MyUpgrade \<Rightarrow> ('a, 'r) oneshot \<Rightarrow> ('a, 'r) oneshot" where
  "upgrade_swap prev s =
     (let old = os_state s; s = s\<lparr>os_state := DISCONNECTED\<rparr>
      in if old = DATA \<or> old = EMPTY then sgo S_drop s
         else if old = DISCONNECTED then sgo (S_upgrade_restore prev) s
         else sgo (S_signal old After_upgrade) s)"

definition upgrade_restore :: "'r MyUpgrade \<Rightarrow> ('a, 'r) oneshot \<Rightarrow> ('a, 'r) oneshot" where
  "upgrade_restore prev s = sgo S_drop (s\<lparr>os_upgrade := prev\<rparr>)"

definition drop_chan :: "('a, 'r) oneshot \<Rightarrow> ('a, 'r) oneshot" where
  "drop_chan s =
     (let old = os_state s; s = s\<lparr>os_state := DISCONNECTED\<rparr>
      in if old = DATA \<or> old = DISCONNECTED \<or> old = EMPTY then sgo S_gone s
         else sgo (S_signal old After_drop) s)"

fun after_pc :: "after_signal \<Rightarrow> ('a, 'r) sender_pc" where
  "after_pc After_send = S_idle"
| "after_pc After_upgrade = S_drop"
| "after_pc After_drop = S_gone"

text \<open>\<open>SignalToken::signal\<close>, then the drop of the token.\<close>

definition sender_signal :: "usize \<Rightarrow> after_signal \<Rightarrow> ('a, 'r) oneshot \<Rightarrow> ('a, 'r) oneshot res" where
  "sender_signal p k s = bindR (token_signal p (os_tokens s)) (\<lambda>(wake, h).
     Inr (sgo (if wake then S_unpark p k else S_token_drop p k) (s\<lparr>os_tokens := h\<rparr>)))"

definition sender_unpark :: "usize \<Rightarrow> after_signal \<Rightarrow> ('a, 'r) oneshot \<Rightarrow> ('a, 'r) oneshot" where
  "sender_unpark p k s = sgo (S_token_drop p k) (s\<lparr>os_unparked := True\<rparr>)"

definition sender_token_drop :: "usize \<Rightarrow> after_signal \<Rightarrow> ('a, 'r) oneshot \<Rightarrow> ('a, 'r) oneshot res" where
  "sender_token_drop p k s = bindR (token_drop p (os_tokens s)) (\<lambda>h. Inr (sgo (after_pc k) (s\<lparr>os_tokens := h\<rparr>)))"

fun sender_step :: "('a, 'r) sender_pc \<Rightarrow> ('a, 'r) oneshot_choice \<Rightarrow> ('a, 'r) oneshot \<Rightarrow> ('a, 'r) oneshot res option" where
  "sender_step S_idle c s = sender_begin c s"
| "sender_step (S_send t) c s = Some (send_write t s)"
| "sender_step S_send_swap c s = Some (send_swap s)"
| "sender_step S_send_back c s = ret (send_back s)"
| "sender_step S_send_take c s = Some (send_take s)"
| "sender_step (S_upgrade up) c s = Some (upgrade_write up s)"
| "sender_step (S_upgrade_swap prev) c s = ret (upgrade_swap prev s)"
| "sender_step (S_upgrade_restore prev) c s = ret (upgrade_restore prev s)"
| "sender_step S_drop c s = ret (drop_chan s)"
| "sender_step (S_signal p k) c s = Some (sender_signal p k s)"
| "sender_step (S_unpark p k) c s = ret (sender_unpark p k s)"
| "sender_step (S_token_drop p k) c s = Some (sender_token_drop p k s)"
| "sender_step S_gone c s = None"

subsection \<open>The receiver\<close>

definition ranswer :: "'r recv_result \<Rightarrow> ('a, 'r) oneshot \<Rightarrow> ('a, 'r) oneshot" where
  "ranswer a s = s\<lparr>os_result := Some a, os_receiver := R_idle\<rparr>"

text \<open>The receiver changes to the port it was given and drops its \<open>Receiver\<close> of this packet.\<close>

definition ranswer_upgraded :: "'r \<Rightarrow> ('a, 'r) oneshot \<Rightarrow> ('a, 'r) oneshot" where
  "ranswer_upgraded up s = s\<lparr>os_result := Some (Failed_upgraded up), os_receiver := R_drop\<rparr>"

definition receiver_begin :: "('a, 'r) oneshot_choice \<Rightarrow> ('a, 'r) oneshot \<Rightarrow> ('a, 'r) oneshot res option" where
  "receiver_begin c s = (case c of
       Begin_recv k \<Rightarrow> ret (rgo (case k of Select \<Rightarrow> R_tokens Select | _ \<Rightarrow> R_recv k) s)
     | Try_recv \<Rightarrow> ret (rgo (R_try Recv_timeout) s)
     | Can_recv \<Rightarrow> ret (rgo R_can s)
     | Drop_port \<Rightarrow> ret (rgo R_drop s)
     | _ \<Rightarrow> None)"

definition recv_load :: "wait_kind \<Rightarrow> ('a, 'r) oneshot \<Rightarrow> ('a, 'r) oneshot" where
  "recv_load k s = (if os_state s = EMPTY then rgo (R_tokens k) s else rgo (R_try k) s)"

definition recv_tokens :: "wait_kind \<Rightarrow> ('a, 'r) oneshot_choice \<Rightarrow> ('a, 'r) oneshot \<Rightarrow> ('a, 'r) oneshot option" where
  "recv_tokens k c s = (case c of
       Alloc p \<Rightarrow> if fresh_token p (os_tokens s)
                  then Some (rgo (R_block k p) (s\<lparr>os_tokens := tokens_new p (os_tokens s)\<rparr>)) else None
     | _ \<Rightarrow> None)"

text \<open>The exchange with which \<open>recv\<close> enters the blocking state.\<close>

definition recv_block :: "wait_kind \<Rightarrow> usize \<Rightarrow> ('a, 'r) oneshot \<Rightarrow> ('a, 'r) oneshot" where
  "recv_block k p s =
     (case compare_and_swap EMPTY p (os_state s) of (old, v) \<Rightarrow>
        rgo (if old = EMPTY then R_wait k p else R_unblocked k p) (s\<lparr>os_state := v\<rparr>))"

text \<open>The same exchange in \<open>start_selection\<close>, with its answers.\<close>

definition start_selection :: "usize \<Rightarrow> ('a, 'r) oneshot \<Rightarrow> ('a, 'r) oneshot res" where
  "start_selection p s =
     (case compare_and_swap EMPTY p (os_state s) of (old, v) \<Rightarrow>
        let s = s\<lparr>os_state := v\<rparr>
        in if old = EMPTY then Inr (rgo (R_wait Select p) s)
           else if old = DATA then Inr (rgo (R_unblocked Select p) s)
           else if old = DISCONNECTED then Inr (rgo (R_start_cells p) s)
           else unreachableR)"

definition start_selection_cells :: "usize \<Rightarrow> ('a, 'r) oneshot \<Rightarrow> ('a, 'r) oneshot res" where
  "start_selection_cells p s =
     (if os_data s \<noteq> None then Inr (rgo (R_unblocked Select p) s)
      else case os_upgrade s of
          GoUp up \<Rightarrow>
            bindR (token_drop p (os_tokens s)) (\<lambda>h. bindR (token_drop p h) (\<lambda>h.
            Inr (ranswer_upgraded up (s\<lparr>os_tokens := h, os_upgrade := SendUsed\<rparr>))))
        | _ \<Rightarrow> Inr (rgo (R_unblocked Select p) s))"

text \<open>The receiver did not block: both halves of its token are dropped.\<close>

definition recv_unblocked :: "wait_kind \<Rightarrow> usize \<Rightarrow> ('a, 'r) oneshot \<Rightarrow> ('a, 'r) oneshot res" where
  "recv_unblocked k p s =
     bindR (token_drop p (os_tokens s)) (\<lambda>h. bindR (token_drop p h) (\<lambda>h.
     Inr (case k of Select \<Rightarrow> ranswer (Selection True) (s\<lparr>os_tokens := h\<rparr>) | _ \<Rightarrow> rgo (R_try k) (s\<lparr>os_tokens := h\<rparr>))))"

text \<open>
  \<open>WaitToken::wait\<close> and \<open>wait_max_until\<close>. A deadline that has passed, and in a selection another
  port that is ready, is a choice of the environment.
\<close>

definition wait_load :: "wait_kind \<Rightarrow> usize \<Rightarrow> ('a, 'r) oneshot_choice \<Rightarrow> ('a, 'r) oneshot \<Rightarrow> ('a, 'r) oneshot res" where
  "wait_load k p c s = bindR (token_at p (os_tokens s)) (\<lambda>t.
     Inr (rgo (if woken_flag t then R_waited k p
               else if c = Give_up \<and> k \<noteq> Recv then R_gave_up k p else R_park k p) s))"

definition wait_park :: "wait_kind \<Rightarrow> usize \<Rightarrow> ('a, 'r) oneshot_choice \<Rightarrow> ('a, 'r) oneshot \<Rightarrow> ('a, 'r) oneshot option" where
  "wait_park k p c s =
     (if c = Spurious then Some (rgo (R_wait k p) s)
      else if os_unparked s then Some (rgo (R_wait k p) (s\<lparr>os_unparked := False\<rparr>))
      else None)"

definition recv_waited :: "wait_kind \<Rightarrow> usize \<Rightarrow> ('a, 'r) oneshot \<Rightarrow> ('a, 'r) oneshot res" where
  "recv_waited k p s = bindR (token_drop p (os_tokens s)) (\<lambda>h.
     let s = s\<lparr>os_tokens := h\<rparr>
     in case k of
          Recv \<Rightarrow> bindR (assertR ''self.state.load(Ordering::SeqCst) != EMPTY'' (os_state s \<noteq> EMPTY)) (\<lambda>_. Inr (rgo (R_try k) s))
        | Recv_timeout \<Rightarrow> Inr (rgo (R_try k) s)
        | Select \<Rightarrow> Inr (rgo (R_abort k) s))"

definition recv_gave_up :: "wait_kind \<Rightarrow> usize \<Rightarrow> ('a, 'r) oneshot \<Rightarrow> ('a, 'r) oneshot res" where
  "recv_gave_up k p s = bindR (token_drop p (os_tokens s)) (\<lambda>h. Inr (rgo (R_abort k) (s\<lparr>os_tokens := h\<rparr>)))"

definition abort_load :: "wait_kind \<Rightarrow> ('a, 'r) oneshot \<Rightarrow> ('a, 'r) oneshot" where
  "abort_load k s =
     (let v = os_state s
      in if v = EMPTY \<or> v = DATA \<or> v = DISCONNECTED then rgo (R_abort_end k v) s else rgo (R_abort_cas k v) s)"

definition abort_cas :: "wait_kind \<Rightarrow> usize \<Rightarrow> ('a, 'r) oneshot \<Rightarrow> ('a, 'r) oneshot" where
  "abort_cas k p s =
     (case compare_and_swap p EMPTY (os_state s) of (old, v) \<Rightarrow> rgo (R_abort_end k old) (s\<lparr>os_state := v\<rparr>))"

text \<open>An abort that answers whether there is data: \<open>recv\<close> goes on to \<open>try_recv\<close>.\<close>

definition abort_answer :: "wait_kind \<Rightarrow> bool \<Rightarrow> ('a, 'r) oneshot \<Rightarrow> ('a, 'r) oneshot" where
  "abort_answer k b s = (case k of Select \<Rightarrow> ranswer (Selection b) s | _ \<Rightarrow> rgo (R_try k) s)"

definition abort_end :: "wait_kind \<Rightarrow> usize \<Rightarrow> ('a, 'r) oneshot \<Rightarrow> ('a, 'r) oneshot res" where
  "abort_end k st s =
     (if st = EMPTY then unreachableR
      else if st = DATA then Inr (abort_answer k True s)
      else if st = DISCONNECTED then Inr (rgo (R_abort_cells k) s)
      else bindR (token_drop st (os_tokens s)) (\<lambda>h. Inr (abort_answer k False (s\<lparr>os_tokens := h\<rparr>))))"

definition abort_cells :: "wait_kind \<Rightarrow> ('a, 'r) oneshot \<Rightarrow> ('a, 'r) oneshot" where
  "abort_cells k s =
     (if os_data s \<noteq> None then abort_answer k True s
      else case os_upgrade s of
          GoUp port \<Rightarrow> ranswer_upgraded port (s\<lparr>os_upgrade := SendUsed\<rparr>)
        | _ \<Rightarrow> abort_answer k True (s\<lparr>os_upgrade := SendUsed\<rparr>))"

text \<open>\<open>Receiver::recv\<close> takes the answer Empty to be unreachable, which the model keeps.\<close>

definition try_load :: "wait_kind \<Rightarrow> ('a, 'r) oneshot \<Rightarrow> ('a, 'r) oneshot res" where
  "try_load k s =
     (let v = os_state s
      in if v = EMPTY then (if k = Recv then unreachableR else Inr (ranswer Failed_empty s))
         else if v = DATA then Inr (rgo R_try_cas s)
         else if v = DISCONNECTED then Inr (rgo R_disconnected s)
         else unreachableR)"

definition try_cas :: "('a, 'r) oneshot \<Rightarrow> ('a, 'r) oneshot" where
  "try_cas s = (case compare_and_swap DATA EMPTY (os_state s) of (_, v) \<Rightarrow> rgo R_take (s\<lparr>os_state := v\<rparr>))"

definition try_take :: "('a, 'r) oneshot \<Rightarrow> ('a, 'r) oneshot res" where
  "try_take s = (case os_data s of
       Some t \<Rightarrow> Inr (ranswer Received (s\<lparr>os_data := None, os_got := os_got s @ [t]\<rparr>))
     | None \<Rightarrow> unreachableR)"

definition try_disconnected :: "('a, 'r) oneshot \<Rightarrow> ('a, 'r) oneshot" where
  "try_disconnected s = (case os_data s of
       Some t \<Rightarrow> ranswer Received (s\<lparr>os_data := None, os_got := os_got s @ [t]\<rparr>)
     | None \<Rightarrow>
        (case os_upgrade s of
           GoUp up \<Rightarrow> ranswer_upgraded up (s\<lparr>os_upgrade := SendUsed\<rparr>)
         | _ \<Rightarrow> ranswer Failed_disconnected (s\<lparr>os_upgrade := SendUsed\<rparr>)))"

definition can_recv :: "('a, 'r) oneshot \<Rightarrow> ('a, 'r) oneshot res" where
  "can_recv s =
     (let v = os_state s
      in if v = EMPTY then Inr (ranswer (Selection False) s)
         else if v = DATA then Inr (ranswer (Selection True) s)
         else if v = DISCONNECTED then Inr (rgo R_can_cells s)
         else unreachableR)"

definition can_recv_cells :: "('a, 'r) oneshot \<Rightarrow> ('a, 'r) oneshot" where
  "can_recv_cells s =
     (if os_data s \<noteq> None then ranswer (Selection True) s
      else case os_upgrade s of
          GoUp up \<Rightarrow> ranswer_upgraded up (s\<lparr>os_upgrade := SendUsed\<rparr>)
        | _ \<Rightarrow> ranswer (Selection True) s)"

definition drop_port :: "('a, 'r) oneshot \<Rightarrow> ('a, 'r) oneshot res" where
  "drop_port s =
     (let old = os_state s; s = s\<lparr>os_state := DISCONNECTED\<rparr>
      in if old = DISCONNECTED \<or> old = EMPTY then Inr (rgo R_gone s)
         else if old = DATA then Inr (rgo R_drop_data s)
         else unreachableR)"

definition drop_port_data :: "('a, 'r) oneshot \<Rightarrow> ('a, 'r) oneshot res" where
  "drop_port_data s =
     bindR (expectR ''called `Option::unwrap()` on a `None` value'' (os_data s)) (\<lambda>t.
     Inr (rgo R_gone (s\<lparr>os_data := None, os_lost := os_lost s @ [t]\<rparr>)))"

fun receiver_step :: "receiver_pc \<Rightarrow> ('a, 'r) oneshot_choice \<Rightarrow> ('a, 'r) oneshot \<Rightarrow> ('a, 'r) oneshot res option" where
  "receiver_step R_idle c s = receiver_begin c s"
| "receiver_step (R_recv k) c s = ret (recv_load k s)"
| "receiver_step (R_tokens k) c s = map_option Inr (recv_tokens k c s)"
| "receiver_step (R_block k p) c s = (case k of Select \<Rightarrow> Some (start_selection p s) | _ \<Rightarrow> ret (recv_block k p s))"
| "receiver_step (R_unblocked k p) c s = Some (recv_unblocked k p s)"
| "receiver_step (R_start_cells p) c s = Some (start_selection_cells p s)"
| "receiver_step (R_wait k p) c s = Some (wait_load k p c s)"
| "receiver_step (R_park k p) c s = map_option Inr (wait_park k p c s)"
| "receiver_step (R_waited k p) c s = Some (recv_waited k p s)"
| "receiver_step (R_gave_up k p) c s = Some (recv_gave_up k p s)"
| "receiver_step (R_abort k) c s = ret (abort_load k s)"
| "receiver_step (R_abort_cas k p) c s = ret (abort_cas k p s)"
| "receiver_step (R_abort_end k st) c s = Some (abort_end k st s)"
| "receiver_step (R_abort_cells k) c s = ret (abort_cells k s)"
| "receiver_step (R_try k) c s = Some (try_load k s)"
| "receiver_step R_try_cas c s = ret (try_cas s)"
| "receiver_step R_take c s = Some (try_take s)"
| "receiver_step R_disconnected c s = ret (try_disconnected s)"
| "receiver_step R_can c s = Some (can_recv s)"
| "receiver_step R_can_cells c s = ret (can_recv_cells s)"
| "receiver_step R_drop c s = Some (drop_port s)"
| "receiver_step R_drop_data c s = Some (drop_port_data s)"
| "receiver_step R_gone c s = None"

subsection \<open>Runs\<close>

text \<open>The packet is dropped when both ends are gone.\<close>

definition packet_drop :: "('a, 'r) oneshot \<Rightarrow> unit res" where
  "packet_drop s = assertR ''self.state.load(Ordering::SeqCst) == DISCONNECTED'' (os_state s = DISCONNECTED)"

datatype end_of_channel = Sender | Receiver

definition oneshot_step :: "end_of_channel \<times> ('a, 'r) oneshot_choice \<Rightarrow> ('a, 'r) oneshot \<Rightarrow> ('a, 'r) oneshot res option" where
  "oneshot_step a s = (case a of
       (Sender, c) \<Rightarrow> sender_step (os_sender s) c s
     | (Receiver, c) \<Rightarrow> receiver_step (os_receiver s) c s)"

fun oneshot_run :: "(end_of_channel \<times> ('a, 'r) oneshot_choice) list \<Rightarrow> ('a, 'r) oneshot \<Rightarrow> ('a, 'r) oneshot run" where
  "oneshot_run [] s = ret s"
| "oneshot_run (a # as) s = bindO (oneshot_step a s) (oneshot_run as)"

end
