(* ===== verification/Oneshot_Inv.thy ===== *)
theory Oneshot_Inv
  imports Oneshot "HOL-Library.Multiset"
begin

section \<open>sync::mpsc::oneshot: the invariant\<close>

subsection \<open>What each program point says of the state word and the cells\<close>

definition is_token :: "usize \<Rightarrow> bool" where
  "is_token v \<longleftrightarrow> v \<noteq> EMPTY \<and> v \<noteq> DATA \<and> v \<noteq> DISCONNECTED"

lemma is_token_consts [simp]:
  "\<not> is_token EMPTY" "\<not> is_token DATA" "\<not> is_token DISCONNECTED"
  by (simp_all add: is_token_def)

lemma oneshot_consts_distinct [simp]:
  "EMPTY \<noteq> DATA" "EMPTY \<noteq> DISCONNECTED" "DATA \<noteq> DISCONNECTED" "DATA \<noteq> EMPTY" "DISCONNECTED \<noteq> EMPTY" "DISCONNECTED \<noteq> DATA"
  by (simp_all add: oneshot_consts)

lemma state_cases:
  obtains "v = EMPTY" | "v = DATA" | "v = DISCONNECTED" | "is_token v" "v \<noteq> EMPTY" "v \<noteq> DATA" "v \<noteq> DISCONNECTED"
  by (auto simp: is_token_def)

text \<open>The receiver's end has been closed, holds a value to take, reads the cells of a closed channel.\<close>

fun r_closed :: "receiver_pc \<Rightarrow> bool" where
  "r_closed R_drop_data = True" | "r_closed R_gone = True" | "r_closed _ = False"

fun r_has_data :: "receiver_pc \<Rightarrow> bool" where
  "r_has_data R_try_cas = True" | "r_has_data R_take = True" | "r_has_data R_drop_data = True" | "r_has_data _ = False"

fun r_reads_closed :: "receiver_pc \<Rightarrow> bool" where
  "r_reads_closed (R_start_cells _) = True"
| "r_reads_closed (R_abort_cells _) = True"
| "r_reads_closed R_disconnected = True"
| "r_reads_closed R_can_cells = True"
| "r_reads_closed (R_abort_end _ v) = (v = DISCONNECTED)"
| "r_reads_closed _ = False"

text \<open>The state word may be EMPTY, DATA, or a token.\<close>

fun r_empty :: "receiver_pc \<Rightarrow> bool" where
  "r_empty R_idle = True"
| "r_empty (R_recv _) = True"
| "r_empty (R_tokens _) = True"
| "r_empty (R_block _ _) = True"
| "r_empty (R_abort_end _ v) = is_token v"
| "r_empty (R_try k) = (k \<noteq> Recv)"
| "r_empty R_take = True"
| "r_empty R_can = True"
| "r_empty R_drop = True"
| "r_empty _ = False"

fun r_data :: "receiver_pc \<Rightarrow> bool" where
  "r_data R_take = False"
| "r_data R_drop_data = False"
| "r_data R_gone = False"
| "r_data pc = (\<not> r_reads_closed pc)"

fun r_token :: "receiver_pc \<Rightarrow> usize \<Rightarrow> bool" where
  "r_token (R_wait _ p) v = (v = p)"
| "r_token (R_park _ p) v = (v = p)"
| "r_token (R_gave_up _ p) v = (v = p)"
| "r_token (R_abort _) v = True"
| "r_token (R_abort_cas _ p) v = (v = p)"
| "r_token _ v = False"

fun r_pc_ok :: "receiver_pc \<Rightarrow> bool" where
  "r_pc_ok (R_recv k) = (k \<noteq> Select)"
| "r_pc_ok (R_try k) = (k \<noteq> Select)"
| "r_pc_ok (R_gave_up k p) = (k \<noteq> Recv)"
| "r_pc_ok (R_abort k) = (k \<noteq> Recv)"
| "r_pc_ok (R_abort_cas k p) = (k \<noteq> Recv \<and> is_token p)"
| "r_pc_ok (R_abort_end k v) = (k \<noteq> Recv \<and> v \<noteq> EMPTY)"
| "r_pc_ok (R_abort_cells k) = (k \<noteq> Recv)"
| "r_pc_ok _ = True"

text \<open>The sender is before, or past, the swap that disconnects.\<close>

fun s_open :: "('a, 'r) sender_pc \<Rightarrow> bool" where
  "s_open S_idle = True"
| "s_open (S_send _) = True"
| "s_open S_send_swap = True"
| "s_open S_send_back = True"
| "s_open S_send_take = True"
| "s_open (S_upgrade _) = True"
| "s_open (S_upgrade_swap _) = True"
| "s_open (S_signal _ k) = (k = After_send)"
| "s_open (S_unpark _ k) = (k = After_send)"
| "s_open (S_token_drop _ k) = (k = After_send)"
| "s_open _ = False"

fun s_closed :: "('a, 'r) sender_pc \<Rightarrow> bool" where
  "s_closed S_drop = False"
| "s_closed pc = (\<not> s_open pc)"

text \<open>No value has been published: the packet is as before a send, or a send is on its way.\<close>

fun s_unsent :: "('a, 'r) sender_pc \<Rightarrow> 'r MyUpgrade \<Rightarrow> bool" where
  "s_unsent S_idle up = (up = NothingSent)"
| "s_unsent (S_send _) up = True"
| "s_unsent S_send_swap up = True"
| "s_unsent (S_upgrade _) up = (up = NothingSent)"
| "s_unsent (S_upgrade_swap prev) up = (prev = NothingSent)"
| "s_unsent _ up = False"

abbreviation unsent :: "('a, 'r) oneshot \<Rightarrow> bool" where
  "unsent s \<equiv> s_unsent (os_sender s) (os_upgrade s)"

fun not_up :: "'r MyUpgrade \<Rightarrow> bool" where
  "not_up (GoUp _) = False" | "not_up _ = True"

text \<open>What the sender's program point says of the upgrade cell, the data cell, the state word and the receiver.\<close>

fun s_cells :: "('a, 'r) sender_pc \<Rightarrow> 'r MyUpgrade \<Rightarrow> 'a option \<Rightarrow> usize \<Rightarrow> receiver_pc \<Rightarrow> bool" where
  "s_cells S_idle up d v pc = not_up up"
| "s_cells (S_send _) up d v pc = (up = NothingSent \<and> d = None)"
| "s_cells S_send_swap up d v pc = (up = SendUsed \<and> d \<noteq> None)"
| "s_cells S_send_back up d v pc = (pc = R_gone \<and> d \<noteq> None \<and> v = DATA)"
| "s_cells S_send_take up d v pc = (pc = R_gone \<and> d \<noteq> None \<and> v = DISCONNECTED)"
| "s_cells (S_upgrade _) up d v pc = not_up up"
| "s_cells (S_upgrade_swap prev) up d v pc = not_up prev"
| "s_cells (S_upgrade_restore _) up d v pc = r_closed pc"
| "s_cells (S_signal _ k) up d v pc = (k = After_send \<longrightarrow> up = SendUsed)"
| "s_cells (S_unpark _ k) up d v pc = (k = After_send \<longrightarrow> up = SendUsed)"
| "s_cells (S_token_drop _ k) up d v pc = (k = After_send \<longrightarrow> up = SendUsed)"
| "s_cells _ up d v pc = True"

fun s_holds :: "('a, 'r) sender_pc \<Rightarrow> 'a list" where
  "s_holds (S_send t) = [t]" | "s_holds _ = []"

fun cell_list :: "'a option \<Rightarrow> 'a list" where
  "cell_list None = []" | "cell_list (Some t) = [t]"

definition state_inv :: "('a, 'r) oneshot \<Rightarrow> bool" where
  "state_inv s \<longleftrightarrow>
     (os_state s = EMPTY \<longrightarrow> r_empty (os_receiver s)) \<and>
     (os_state s = DATA \<longrightarrow> r_data (os_receiver s) \<or> os_sender s = S_send_back) \<and>
     (is_token (os_state s) \<longrightarrow> r_token (os_receiver s) (os_state s)) \<and>
     (r_reads_closed (os_receiver s) \<longrightarrow> os_state s = DISCONNECTED) \<and>
     (s_open (os_sender s) \<longrightarrow> os_state s = DISCONNECTED \<longrightarrow> r_closed (os_receiver s)) \<and>
     (s_closed (os_sender s) \<longrightarrow> os_state s = DISCONNECTED) \<and>
     r_pc_ok (os_receiver s)"

definition cells_inv :: "('a, 'r) oneshot \<Rightarrow> bool" where
  "cells_inv s \<longleftrightarrow>
     (os_state s = DATA \<longrightarrow> os_data s \<noteq> None) \<and>
     (r_has_data (os_receiver s) \<longrightarrow> os_data s \<noteq> None) \<and>
     (unsent s \<longrightarrow> os_state s \<noteq> DATA \<and> \<not> r_has_data (os_receiver s) \<and> (os_data s = None \<or> os_sender s = S_send_swap)) \<and>
     s_cells (os_sender s) (os_upgrade s) (os_data s) (os_state s) (os_receiver s)"

text \<open>Every value that a send began with is in one place.\<close>

definition values_inv :: "('a, 'r) oneshot \<Rightarrow> bool" where
  "values_inv s \<longleftrightarrow>
     mset (os_sent s) = mset (os_got s @ os_back s @ os_lost s @ cell_list (os_data s) @ s_holds (os_sender s))"

text \<open>
  The halves of the tokens: where a token's \<open>SignalToken\<close> and its \<open>WaitToken\<close> are. The signal half is
  in the state word, with the receiver or with the sender.
\<close>

fun r_wait :: "receiver_pc \<Rightarrow> usize option" where
  "r_wait (R_block _ p) = Some p"
| "r_wait (R_unblocked _ p) = Some p"
| "r_wait (R_start_cells p) = Some p"
| "r_wait (R_wait _ p) = Some p"
| "r_wait (R_park _ p) = Some p"
| "r_wait (R_waited _ p) = Some p"
| "r_wait (R_gave_up _ p) = Some p"
| "r_wait _ = None"

fun r_signal :: "receiver_pc \<Rightarrow> usize option" where
  "r_signal (R_block _ p) = Some p"
| "r_signal (R_unblocked _ p) = Some p"
| "r_signal (R_start_cells p) = Some p"
| "r_signal (R_abort_end _ v) = (if is_token v then Some v else None)"
| "r_signal _ = None"

fun s_signal :: "('a, 'r) sender_pc \<Rightarrow> usize option" where
  "s_signal (S_signal p _) = Some p"
| "s_signal (S_unpark p _) = Some p"
| "s_signal (S_token_drop p _) = Some p"
| "s_signal _ = None"

fun s_signalling :: "('a, 'r) sender_pc \<Rightarrow> usize option" where
  "s_signalling (S_signal p _) = Some p" | "s_signalling _ = None"

fun s_unparking :: "('a, 'r) sender_pc \<Rightarrow> usize option" where
  "s_unparking (S_unpark p _) = Some p" | "s_unparking _ = None"

fun r_sleeping :: "receiver_pc \<Rightarrow> usize option" where
  "r_sleeping (R_wait _ p) = Some p" | "r_sleeping (R_park _ p) = Some p" | "r_sleeping _ = None"

fun r_parked :: "receiver_pc \<Rightarrow> usize option" where
  "r_parked (R_park _ p) = Some p" | "r_parked _ = None"

fun r_waited :: "receiver_pc \<Rightarrow> usize option" where
  "r_waited (R_waited _ p) = Some p" | "r_waited _ = None"

definition signal_count :: "usize \<Rightarrow> ('a, 'r) oneshot \<Rightarrow> nat" where
  "signal_count p s = of_bool (os_state s = p) + of_bool (r_signal (os_receiver s) = Some p)
     + of_bool (s_signal (os_sender s) = Some p)"

definition wait_count :: "usize \<Rightarrow> ('a, 'r) oneshot \<Rightarrow> nat" where
  "wait_count p s = of_bool (r_wait (os_receiver s) = Some p)"

definition token_ok :: "usize \<Rightarrow> Inner option \<Rightarrow> ('a, 'r) oneshot \<Rightarrow> bool" where
  "token_ok p it s \<longleftrightarrow> (case it of
       None \<Rightarrow> signal_count p s + wait_count p s = 0
     | Some t \<Rightarrow>
         refs t = signal_count p s + wait_count p s \<and> 0 < refs t \<and> signal_count p s \<le> 1 \<and>
         (woken_flag t \<longrightarrow> os_state s \<noteq> p \<and> r_signal (os_receiver s) \<noteq> Some p \<and> s_signalling (os_sender s) \<noteq> Some p) \<and>
         (\<not> woken_flag t \<longrightarrow> r_sleeping (os_receiver s) = Some p \<longrightarrow> os_state s = p \<or> s_signalling (os_sender s) = Some p) \<and>
         (r_waited (os_receiver s) = Some p \<longrightarrow> woken_flag t) \<and>
         (s_signal (os_sender s) = Some p \<longrightarrow> s_signalling (os_sender s) = Some p \<or> woken_flag t) \<and>
         (woken_flag t \<longrightarrow> r_parked (os_receiver s) = Some p \<longrightarrow>
            os_unparked s \<or> s_unparking (os_sender s) = Some p))"

definition tokens_inv :: "('a, 'r) oneshot \<Rightarrow> bool" where
  "tokens_inv s \<longleftrightarrow>
     (\<forall>p. is_token p \<longrightarrow> token_ok p (os_tokens s p) s) \<and>
     (\<forall>p. \<not> is_token p \<longrightarrow> os_tokens s p = None \<and>
        r_signal (os_receiver s) \<noteq> Some p \<and> s_signal (os_sender s) \<noteq> Some p \<and> r_wait (os_receiver s) \<noteq> Some p)"

definition oneshot_inv :: "('a, 'r) oneshot \<Rightarrow> bool" where
  "oneshot_inv s \<longleftrightarrow> state_inv s \<and> cells_inv s \<and> values_inv s \<and> tokens_inv s"

lemma oneshot_inv_new: "oneshot_inv oneshot_new"
  by (auto simp: oneshot_inv_def state_inv_def cells_inv_def values_inv_def tokens_inv_def token_ok_def signal_count_def
      wait_count_def oneshot_new_def is_token_def)

subsection \<open>The sender's steps: state word, cells and values\<close>

definition keeps :: "('a, 'r) oneshot \<Rightarrow> bool" where
  "keeps s \<longleftrightarrow> state_inv s \<and> cells_inv s \<and> values_inv s"

lemmas keeps_defs = keeps_def state_inv_def cells_inv_def values_inv_def

lemma r_data_from:
  "r_empty pc \<Longrightarrow> \<not> r_has_data pc \<Longrightarrow> r_data pc"
  "r_token pc v \<Longrightarrow> r_data pc"
  "r_data pc \<Longrightarrow> \<not> r_closed pc" "r_reads_closed pc \<Longrightarrow> \<not> r_data pc" "r_reads_closed pc \<Longrightarrow> \<not> r_closed pc"
  "r_has_data pc \<Longrightarrow> \<not> r_reads_closed pc"
  by (cases pc; auto)+

lemma keepsD:
  assumes "keeps s"
  shows "os_state s = EMPTY \<Longrightarrow> r_empty (os_receiver s)"
    and "os_state s = DATA \<Longrightarrow> r_data (os_receiver s) \<or> os_sender s = S_send_back"
    and "is_token (os_state s) \<Longrightarrow> r_token (os_receiver s) (os_state s)"
    and "r_reads_closed (os_receiver s) \<Longrightarrow> os_state s = DISCONNECTED"
    and "s_open (os_sender s) \<Longrightarrow> os_state s = DISCONNECTED \<Longrightarrow> r_closed (os_receiver s)"
    and "s_closed (os_sender s) \<Longrightarrow> os_state s = DISCONNECTED"
    and "r_pc_ok (os_receiver s)"
    and "os_state s = DATA \<Longrightarrow> os_data s \<noteq> None"
    and "r_has_data (os_receiver s) \<Longrightarrow> os_data s \<noteq> None"
    and "unsent s \<Longrightarrow> os_state s \<noteq> DATA \<and> \<not> r_has_data (os_receiver s) \<and> (os_data s = None \<or> os_sender s = S_send_swap)"
    and "s_cells (os_sender s) (os_upgrade s) (os_data s) (os_state s) (os_receiver s)"
    and "mset (os_sent s) = mset (os_got s @ os_back s @ os_lost s @ cell_list (os_data s) @ s_holds (os_sender s))"
  using assms unfolding keeps_defs by blast+

lemma sender_begin_keeps:
  assumes "keeps s" "os_sender s = S_idle" "sender_begin c s = Some r"
  shows "\<exists>s'. r = Inr s' \<and> keeps s'"
proof -
  note k = keepsD [OF assms(1)]
  consider (send) t where "r = Inr (sgo (S_send t) (s\<lparr>os_sent := os_sent s @ [t]\<rparr>))" "os_upgrade s = NothingSent"
    | (up) up where "r = Inr (sgo (S_upgrade up) s)" | (drop) "r = Inr (sgo S_drop s)"
    using assms(3) by (auto simp: sender_begin_def sent_on_def split: oneshot_choice.splits MyUpgrade.splits if_splits)
  then show ?thesis
  proof cases
    case send
    have "keeps (sgo (S_send t) (s\<lparr>os_sent := os_sent s @ [t]\<rparr>))"
      using k send(2) assms(2) unfolding keeps_defs by simp
    then show ?thesis using send(1) by blast
  next
    case up
    have "keeps (sgo (S_upgrade up) s)" using k assms(2) unfolding keeps_defs by simp
    then show ?thesis using up by blast
  next
    case drop
    have "keeps (sgo S_drop s)" using k assms(2) unfolding keeps_defs by simp
    then show ?thesis using drop by blast
  qed
qed

lemma send_write_keeps:
  assumes "keeps s" "os_sender s = S_send t"
  shows "\<exists>s'. send_write t s = Inr s' \<and> keeps s'"
  using assms by (auto simp: keeps_defs send_write_def)

lemma send_swap_keeps:
  assumes "keeps s" "os_sender s = S_send_swap"
  shows "\<exists>s'. send_swap s = Inr s' \<and> keeps s'"
proof (cases "os_state s" rule: state_cases)
  case 1
  then show ?thesis using assms r_data_from [of "os_receiver s"]
    by (auto simp: keeps_defs send_swap_def Let_def)
next
  case 3
  then have "os_receiver s = R_gone" using assms by (cases "os_receiver s") (auto simp: keeps_defs)
  then show ?thesis using 3 assms by (auto simp: keeps_defs send_swap_def Let_def)
qed (use assms r_data_from [of "os_receiver s"] in \<open>auto simp: keeps_defs send_swap_def Let_def\<close>)

lemma send_back_keeps:
  assumes "keeps s" "os_sender s = S_send_back"
  shows "keeps (send_back s)"
  using assms by (auto simp: keeps_defs send_back_def)

lemma send_take_keeps:
  assumes "keeps s" "os_sender s = S_send_take"
  shows "\<exists>s'. send_take s = Inr s' \<and> keeps s'"
  using assms by (auto simp: keeps_defs send_take_def)

lemma upgrade_write_keeps:
  assumes "keeps s" "os_sender s = S_upgrade up"
  shows "\<exists>s'. upgrade_write up s = Inr s' \<and> keeps s'"
  using assms by (auto simp: keeps_defs upgrade_write_def split: MyUpgrade.splits)

lemma upgrade_swap_keeps:
  assumes "keeps s" "os_sender s = S_upgrade_swap prev"
  shows "keeps (upgrade_swap prev s)"
  using assms by (cases "os_state s" rule: state_cases) (auto simp: keeps_defs upgrade_swap_def Let_def)

lemma upgrade_restore_keeps:
  assumes "keeps s" "os_sender s = S_upgrade_restore prev"
  shows "keeps (upgrade_restore prev s)"
  using assms by (auto simp: keeps_defs upgrade_restore_def)

lemma drop_chan_keeps:
  assumes "keeps s" "os_sender s = S_drop"
  shows "keeps (drop_chan s)"
  using assms by (auto simp: keeps_defs drop_chan_def Let_def)

lemma signal_keeps:
  assumes "keeps s" "os_sender s = S_signal p k \<or> os_sender s = S_unpark p k \<or> os_sender s = S_token_drop p k"
    and "pc \<in> {S_unpark p k, S_token_drop p k, after_pc k}"
  shows "keeps (s\<lparr>os_tokens := h, os_unparked := u, os_sender := pc\<rparr>)"
proof -
  note k = keepsD [OF assms(1)]
  have old: "s_open (os_sender s) = (k = After_send)" "s_closed (os_sender s) = (k \<noteq> After_send)" "s_holds (os_sender s) = []"
    "k = After_send \<Longrightarrow> os_upgrade s = SendUsed" "os_sender s \<noteq> S_send_back"
    using assms(2) k(11) by auto
  have new: "s_open pc = (k = After_send)" "s_closed pc \<Longrightarrow> k \<noteq> After_send" "s_holds pc = []"
    "s_unsent pc up \<Longrightarrow> k = After_send \<and> up = NothingSent"
    "(k = After_send \<Longrightarrow> up = SendUsed) \<Longrightarrow> s_cells pc up d v rpc" for up d v rpc
    using assms(3) by (cases k; auto)+
  have "\<not> s_unsent pc (os_upgrade s)" using new(4) old(4) by fastforce
  then show ?thesis using k old new unfolding keeps_defs by simp
qed

subsection \<open>The receiver's steps: state word, cells and values\<close>

text \<open>
  A receiver reads the cells of a closed channel only when the sender is past its last access.
\<close>

lemma sender_done:
  assumes "keeps s" "os_state s = DISCONNECTED" "\<not> r_closed (os_receiver s)"
  shows "\<not> s_open (os_sender s)"
  using assms by (auto simp: keeps_defs)

lemma not_open:
  assumes "\<not> s_open pc"
  shows "\<not> s_unsent pc up" "s_holds pc = []"
  using assms by (cases pc; simp)+

lemma s_cells_open:
  "s_cells pc up d v r \<Longrightarrow> \<not> r_closed r \<Longrightarrow> s_cells pc up d v' r'"
  "s_cells pc up d v r \<Longrightarrow> \<not> r_closed r \<Longrightarrow> \<not> s_open pc \<Longrightarrow> s_cells pc up' d' v' r'"
  by (cases pc; auto)+

text \<open>A move of the receiver that leaves the cells, and the closing of the channel, as they are.\<close>

lemma receiver_keeps:
  assumes inv: "keeps s" and open_end: "\<not> r_closed (os_receiver s)"
    and v: "v = EMPTY \<Longrightarrow> r_empty pc'" "v = DATA \<Longrightarrow> r_data pc'" "is_token v \<Longrightarrow> r_token pc' v"
      "r_reads_closed pc' \<Longrightarrow> v = DISCONNECTED" "v = DISCONNECTED \<longleftrightarrow> os_state s = DISCONNECTED"
      "v = DATA \<Longrightarrow> os_state s = DATA"
    and pc': "r_pc_ok pc'" "\<not> r_closed pc'" "r_has_data pc' \<Longrightarrow> os_data s \<noteq> None \<and> \<not> unsent s"
  shows "keeps (s\<lparr>os_state := v, os_tokens := h, os_unparked := u, os_result := a, os_receiver := pc'\<rparr>)"
proof -
  note k = keepsD [OF inv]
  have "s_cells (os_sender s) (os_upgrade s) (os_data s) v pc'" by (rule s_cells_open(1) [OF k(11) open_end])
  moreover have "os_sender s \<noteq> S_send_back" using k(11) open_end by auto
  ultimately show ?thesis using k open_end v pc' unfolding keeps_defs by simp blast
qed

text \<open>The same without a change of the state word.\<close>

lemma receiver_goes:
  assumes inv: "keeps s" and open_end: "\<not> r_closed (os_receiver s)"
    and pc': "os_state s = EMPTY \<Longrightarrow> r_empty pc'" "os_state s = DATA \<Longrightarrow> r_data pc'"
      "is_token (os_state s) \<Longrightarrow> r_token pc' (os_state s)" "r_reads_closed pc' \<Longrightarrow> os_state s = DISCONNECTED"
      "r_pc_ok pc'" "\<not> r_closed pc'" "r_has_data pc' \<Longrightarrow> os_data s \<noteq> None \<and> \<not> unsent s"
  shows "keeps (s\<lparr>os_tokens := h, os_unparked := u, os_result := a, os_receiver := pc'\<rparr>)"
  using receiver_keeps [OF inv open_end, where v = "os_state s" and pc' = pc' and h = h and u = u and a = a] pc' by simp

lemma receiver_rgo:
  assumes inv: "keeps s" and open_end: "\<not> r_closed (os_receiver s)"
    and pc': "os_state s = EMPTY \<Longrightarrow> r_empty pc'" "os_state s = DATA \<Longrightarrow> r_data pc'"
      "is_token (os_state s) \<Longrightarrow> r_token pc' (os_state s)" "r_reads_closed pc' \<Longrightarrow> os_state s = DISCONNECTED"
      "r_pc_ok pc'" "\<not> r_closed pc'" "r_has_data pc' \<Longrightarrow> os_data s \<noteq> None \<and> \<not> unsent s"
  shows "keeps (rgo pc' s)"
  using receiver_goes [OF inv open_end pc', where h = "os_tokens s" and u = "os_unparked s" and a = "os_result s"] by simp

text \<open>The receiver takes the value.\<close>

lemma receiver_takes:
  assumes inv: "keeps s" and open_end: "\<not> r_closed (os_receiver s)" and d: "os_data s = Some t"
    and st: "os_state s = EMPTY \<or> os_state s = DISCONNECTED" "\<not> unsent s"
  shows "keeps (ranswer a (s\<lparr>os_data := None, os_got := os_got s @ [t]\<rparr>))"
proof -
  note k = keepsD [OF inv]
  have "s_cells (os_sender s) (os_upgrade s) None (os_state s) R_idle"
    using k(11) open_end st(2) by (cases "os_sender s") auto
  moreover have "os_sender s \<noteq> S_send_back" using k(11) open_end by auto
  ultimately show ?thesis using k open_end d st unfolding keeps_defs ranswer_def by simp auto
qed

text \<open>The receiver takes the upgrade, or marks the slot as used.\<close>

lemma receiver_upgrades:
  assumes inv: "keeps s" and open_end: "\<not> r_closed (os_receiver s)" and st: "os_state s = DISCONNECTED"
    and pc': "r_pc_ok pc'" "\<not> r_closed pc'" "\<not> r_has_data pc'"
  shows "keeps (s\<lparr>os_tokens := h, os_upgrade := up, os_result := a, os_receiver := pc'\<rparr>)"
proof -
  note k = keepsD [OF inv]
  have no: "\<not> s_open (os_sender s)" using k(5) st open_end by blast
  have "s_cells (os_sender s) up (os_data s) (os_state s) pc'" by (rule s_cells_open(2) [OF k(11) open_end no])
  then show ?thesis using k no pc' st not_open [OF no] unfolding keeps_defs by simp
qed

lemma drop_port_keeps:
  assumes inv: "keeps s" and pc: "os_receiver s = R_drop"
  shows "\<exists>s'. drop_port s = Inr s' \<and> keeps s'"
proof -
  note k = keepsD [OF inv]
  have "s_cells (os_sender s) (os_upgrade s) (os_data s) DISCONNECTED pc'" for pc'
    using s_cells_open(1) [OF k(11)] pc by simp
  moreover have "os_sender s \<noteq> S_send_back" using k(11) pc by auto
  moreover have "\<not> is_token (os_state s)" using k(3) pc by auto
  ultimately show ?thesis using k pc
    by (cases "os_state s" rule: state_cases) (auto simp: drop_port_def Let_def keeps_defs)
qed

lemma drop_port_data_keeps:
  assumes inv: "keeps s" and pc: "os_receiver s = R_drop_data"
  shows "\<exists>s'. drop_port_data s = Inr s' \<and> keeps s'"
proof -
  note k = keepsD [OF inv]
  obtain t where t: "os_data s = Some t" using k(9) pc by auto
  have "\<not> unsent s" using k(10) pc by auto
  moreover have "s_cells (os_sender s) (os_upgrade s) None (os_state s) R_gone"
    using k(11) pc \<open>\<not> unsent s\<close> by (cases "os_sender s") auto
  moreover have "os_state s \<noteq> DATA" using k(2) k(11) pc by auto
  ultimately have "keeps (rgo R_gone (s\<lparr>os_data := None, os_lost := os_lost s @ [t]\<rparr>))"
    using k pc t unfolding keeps_defs by simp blast
  then show ?thesis using t by (simp add: drop_port_data_def)
qed

text \<open>
  The remaining steps of the receiver. The two moves that depend on the tokens have what they need
  as a hypothesis: a receiver whose token is woken finds it no longer in the state word.
\<close>

lemma receiver_begin_keeps:
  assumes "keeps s" "os_receiver s = R_idle" "receiver_begin c s = Some r"
  shows "\<exists>s'. r = Inr s' \<and> keeps s'"
proof -
  note k = keepsD [OF assms(1)]
  obtain pc where pc: "r = Inr (rgo pc s)"
    "pc \<in> {R_tokens Select, R_recv Recv, R_recv Recv_timeout, R_try Recv_timeout, R_can, R_drop}"
    using assms(3) by (auto simp: receiver_begin_def split: oneshot_choice.splits wait_kind.splits)
  have "keeps (rgo pc s)" by (rule receiver_rgo [OF assms(1)]) (use k assms(2) pc(2) in auto)
  then show ?thesis using pc(1) by blast
qed

lemma same_state: "os_state s = v \<Longrightarrow> s\<lparr>os_state := v\<rparr> = s"
  by simp

lemma recv_load_keeps:
  assumes "keeps s" "os_receiver s = R_recv k"
  shows "keeps (recv_load k s)"
proof (cases "os_state s = EMPTY")
  case True
  have "keeps (rgo (R_tokens k) s)" by (rule receiver_rgo [OF assms(1)]) (use assms True in auto)
  then show ?thesis using True by (simp add: recv_load_def)
next
  case False
  have "keeps (rgo (R_try k) s)" by (rule receiver_rgo [OF assms(1)]) (use assms False keepsD [OF assms(1)] in auto)
  then show ?thesis using False by (simp add: recv_load_def)
qed

lemma recv_block_keeps:
  assumes "keeps s" "os_receiver s = R_block k p" "is_token p"
  shows "keeps (recv_block k p s)"
proof (cases "os_state s = EMPTY")
  case True
  have "keeps (s\<lparr>os_state := p, os_tokens := os_tokens s, os_unparked := os_unparked s, os_result := os_result s, os_receiver := R_wait k p\<rparr>)"
    by (rule receiver_keeps [OF assms(1)]) (use assms True in \<open>auto simp: is_token_def\<close>)
  then show ?thesis using True by (simp add: recv_block_def compare_and_swap_def)
next
  case False
  have "keeps (rgo (R_unblocked k p) s)"
    by (rule receiver_rgo [OF assms(1)]) (use assms False keepsD [OF assms(1)] in auto)
  then show ?thesis using False by (simp add: recv_block_def compare_and_swap_def)
qed

lemma start_selection_keeps:
  assumes "keeps s" "os_receiver s = R_block Select p" "is_token p"
  shows "\<exists>s'. start_selection p s = Inr s' \<and> keeps s'"
proof (cases "os_state s" rule: state_cases)
  case 1
  then show ?thesis using recv_block_keeps [OF assms]
    by (simp add: recv_block_def start_selection_def compare_and_swap_def)
next
  case 2
  then show ?thesis using recv_block_keeps [OF assms]
    by (simp add: recv_block_def start_selection_def compare_and_swap_def)
next
  case 3
  have "keeps (rgo (R_start_cells p) s)"
    by (rule receiver_rgo [OF assms(1)]) (use assms 3 in auto)
  then show ?thesis using 3 by (simp add: start_selection_def compare_and_swap_def same_state)
next
  case 4
  then show ?thesis using keepsD(3) [OF assms(1)] assms(2) by simp
qed

lemma abort_load_keeps:
  assumes "keeps s" "os_receiver s = R_abort k"
  shows "keeps (abort_load k s)"
proof -
  note k = keepsD [OF assms(1)]
  have ne: "os_state s \<noteq> EMPTY" using k(1) assms(2) by auto
  show ?thesis
  proof (cases "is_token (os_state s)")
    case True
    have "keeps (rgo (R_abort_cas k (os_state s)) s)"
      by (rule receiver_rgo [OF assms(1)]) (use assms ne k(7) True in \<open>auto simp: is_token_def\<close>)
    then show ?thesis using True by (auto simp: abort_load_def Let_def is_token_def)
  next
    case False
    have "keeps (rgo (R_abort_end k (os_state s)) s)"
      by (rule receiver_rgo [OF assms(1)]) (use assms ne k(7) False in \<open>auto simp: is_token_def\<close>)
    then show ?thesis using False by (auto simp: abort_load_def Let_def is_token_def)
  qed
qed

lemma abort_cas_keeps:
  assumes "keeps s" "os_receiver s = R_abort_cas k p"
  shows "keeps (abort_cas k p s)"
proof -
  note k = keepsD [OF assms(1)]
  have p: "is_token p" "k \<noteq> Recv" using k(7) assms(2) by auto
  show ?thesis
  proof (cases "os_state s = p")
    case True
    have "keeps (s\<lparr>os_state := EMPTY, os_tokens := os_tokens s, os_unparked := os_unparked s, os_result := os_result s,
        os_receiver := R_abort_end k p\<rparr>)"
      by (rule receiver_keeps [OF assms(1)]) (use assms p True in \<open>auto simp: is_token_def\<close>)
    then show ?thesis using True by (simp add: abort_cas_def compare_and_swap_def)
  next
    case False
    then have st: "os_state s = DATA \<or> os_state s = DISCONNECTED"
      using k(1,3) assms(2) by (cases "os_state s" rule: state_cases) auto
    have "keeps (rgo (R_abort_end k (os_state s)) s)"
      by (rule receiver_rgo [OF assms(1)]) (use assms p st in auto)
    then show ?thesis using False by (simp add: abort_cas_def compare_and_swap_def)
  qed
qed

lemma abort_answer_keeps:
  assumes "keeps s" "\<not> r_closed (os_receiver s)" "k \<noteq> Recv" "\<not> is_token (os_state s)"
  shows "keeps (abort_answer k b (s\<lparr>os_tokens := h\<rparr>))"
proof -
  let ?pc = "case k of Select \<Rightarrow> R_idle | _ \<Rightarrow> R_try k"
  have "keeps (s\<lparr>os_tokens := h, os_unparked := os_unparked s, os_result := a, os_receiver := ?pc\<rparr>)" for a
    by (rule receiver_goes [OF assms(1,2)]) (use assms in \<open>cases k; auto\<close>)+
  from this [of "os_result s"] this [of "Some (Selection b)"] show ?thesis
    using assms(3) by (cases k) (simp_all add: abort_answer_def ranswer_def)
qed

lemma abort_cells_keeps:
  assumes "keeps s" "os_receiver s = R_abort_cells k"
  shows "keeps (abort_cells k s)"
proof -
  note k = keepsD [OF assms(1)]
  have st: "os_state s = DISCONNECTED" "k \<noteq> Recv" using k(4,7) assms(2) by auto
  have used: "keeps (s\<lparr>os_tokens := os_tokens s, os_upgrade := SendUsed, os_result := os_result s, os_receiver := R_abort_cells k\<rparr>)"
    by (rule receiver_upgrades [OF assms(1)]) (use assms st in auto)
  have up: "keeps (s\<lparr>os_tokens := os_tokens s, os_upgrade := SendUsed, os_result := a, os_receiver := R_drop\<rparr>)" for a
    by (rule receiver_upgrades [OF assms(1)]) (use assms st in auto)
  have data: "keeps (abort_answer k True s)"
    using abort_answer_keeps [OF assms(1) _ st(2), where h = "os_tokens s"] assms(2) st by simp
  have "keeps (abort_answer k True (s\<lparr>os_upgrade := SendUsed\<rparr>))"
    using abort_answer_keeps [OF used _ st(2), where h = "os_tokens s" and b = True] st
    by (cases k) (simp_all add: abort_answer_def ranswer_def)
  then show ?thesis using up data assms(2)
    by (auto simp: abort_cells_def ranswer_upgraded_def split: MyUpgrade.splits)
qed

lemma recv_tokens_keeps:
  assumes "keeps s" "os_receiver s = R_tokens k" "recv_tokens k c s = Some s'"
  shows "keeps s'"
proof -
  obtain p where "s' = rgo (R_block k p) (s\<lparr>os_tokens := tokens_new p (os_tokens s)\<rparr>)"
    using assms(3) by (auto simp: recv_tokens_def split: oneshot_choice.splits if_splits)
  moreover have "keeps (s\<lparr>os_tokens := h, os_unparked := os_unparked s, os_result := os_result s, os_receiver := R_block k p\<rparr>)" for h
    by (rule receiver_goes [OF assms(1)]) (use assms(2) keepsD [OF assms(1)] in auto)
  ultimately show ?thesis by simp
qed

lemma recv_unblocked_keeps:
  assumes "keeps s" "os_receiver s = R_unblocked k p" "recv_unblocked k p s = Inr s'"
  shows "keeps s'"
proof -
  note k = keepsD [OF assms(1)]
  let ?pc = "case k of Select \<Rightarrow> R_idle | _ \<Rightarrow> R_try k"
  obtain h where h: "s' = (case k of Select \<Rightarrow> ranswer (Selection True) (s\<lparr>os_tokens := h\<rparr>) | _ \<Rightarrow> rgo (R_try k) (s\<lparr>os_tokens := h\<rparr>))"
    using assms(3) by (auto simp: recv_unblocked_def bindR_eq_Inr)
  have "keeps (s\<lparr>os_tokens := h, os_unparked := os_unparked s, os_result := a, os_receiver := ?pc\<rparr>)" for a
    by (rule receiver_goes [OF assms(1)]) (use assms(2) k in \<open>cases k; auto\<close>)+
  from this [of "os_result s"] this [of "Some (Selection True)"] show ?thesis
    using h by (cases k) (simp_all add: ranswer_def)
qed

lemma start_selection_cells_keeps:
  assumes "keeps s" "os_receiver s = R_start_cells p" "start_selection_cells p s = Inr s'"
  shows "keeps s'"
proof -
  have st: "os_state s = DISCONNECTED" using keepsD(4) [OF assms(1)] assms(2) by simp
  have stay: "keeps (rgo (R_unblocked Select p) s)" by (rule receiver_rgo [OF assms(1)]) (use assms(2) st in auto)
  have up: "keeps (s\<lparr>os_tokens := h, os_upgrade := SendUsed, os_result := a, os_receiver := R_drop\<rparr>)" for h a
    by (rule receiver_upgrades [OF assms(1) _ st]) (use assms(2) in auto)
  show ?thesis using assms(3) stay up
    by (auto simp: start_selection_cells_def ranswer_upgraded_def bindR_eq_Inr split: if_splits MyUpgrade.splits)
qed

lemma wait_load_keeps:
  assumes "keeps s" "os_receiver s = R_wait k p" "wait_load k p c s = Inr s'"
    and woken: "\<And>t. os_tokens s p = Some t \<Longrightarrow> woken_flag t \<Longrightarrow> os_state s \<noteq> p"
  shows "keeps s'"
proof -
  note k = keepsD [OF assms(1)]
  obtain t where t: "os_tokens s p = Some t"
    "s' = rgo (if woken_flag t then R_waited k p else if c = Give_up \<and> k \<noteq> Recv then R_gave_up k p else R_park k p) s"
    using assms(3) by (auto simp: wait_load_def token_at_def bindR_eq_Inr split: option.splits)
  consider (w) "woken_flag t" "s' = rgo (R_waited k p) s" | (g) "k \<noteq> Recv" "s' = rgo (R_gave_up k p) s" | (p) "s' = rgo (R_park k p) s"
    using t(2) by (auto split: if_splits)
  then show ?thesis
  proof cases
    case w
    then show ?thesis unfolding w(2)
      by (intro receiver_rgo [OF assms(1)]) (use assms(2) k woken [OF t(1)] in auto)
  next
    case g
    then show ?thesis unfolding g(2) by (intro receiver_rgo [OF assms(1)]) (use assms(2) k in auto)
  next
    case p
    then show ?thesis unfolding p by (intro receiver_rgo [OF assms(1)]) (use assms(2) k in auto)
  qed
qed

lemma wait_park_keeps:
  assumes "keeps s" "os_receiver s = R_park k p" "wait_park k p c s = Some s'"
  shows "keeps s'"
proof -
  have "keeps (s\<lparr>os_tokens := os_tokens s, os_unparked := u, os_result := os_result s, os_receiver := R_wait k p\<rparr>)" for u
    by (rule receiver_goes [OF assms(1)]) (use assms(2) keepsD [OF assms(1)] in auto)
  from this [of "os_unparked s"] this [of False] show ?thesis using assms(3) by (auto simp: wait_park_def split: if_splits)
qed

lemma recv_waited_keeps:
  assumes "keeps s" "os_receiver s = R_waited k p" "recv_waited k p s = Inr s'"
  shows "keeps s'"
proof -
  note k = keepsD [OF assms(1)]
  let ?pc = "case k of Select \<Rightarrow> R_abort k | _ \<Rightarrow> R_try k"
  obtain h where h: "s' = rgo ?pc (s\<lparr>os_tokens := h\<rparr>)"
    using assms(3) by (cases k) (auto simp: recv_waited_def bindR_eq_Inr Let_def)
  have "keeps (s\<lparr>os_tokens := h, os_unparked := os_unparked s, os_result := os_result s, os_receiver := ?pc\<rparr>)"
    by (rule receiver_goes [OF assms(1)]) (use assms(2) k in \<open>cases k; auto\<close>)+
  then show ?thesis using h by simp
qed

lemma recv_gave_up_keeps:
  assumes "keeps s" "os_receiver s = R_gave_up k p" "recv_gave_up k p s = Inr s'"
  shows "keeps s'"
proof -
  note k = keepsD [OF assms(1)]
  obtain h where h: "s' = rgo (R_abort k) (s\<lparr>os_tokens := h\<rparr>)"
    using assms(3) by (auto simp: recv_gave_up_def bindR_eq_Inr)
  have "keeps (s\<lparr>os_tokens := h, os_unparked := os_unparked s, os_result := os_result s, os_receiver := R_abort k\<rparr>)"
    by (rule receiver_goes [OF assms(1)]) (use assms(2) k in auto)
  then show ?thesis using h by simp
qed

lemma abort_end_keeps:
  assumes "keeps s" "os_receiver s = R_abort_end k v" "abort_end k v s = Inr s'"
  shows "keeps s'"
proof -
  note k = keepsD [OF assms(1)]
  have kv: "k \<noteq> Recv" "v \<noteq> EMPTY" "\<not> is_token (os_state s)" using k(3,7) assms(2) by auto
  show ?thesis
  proof (cases "v = DISCONNECTED")
    case True
    have "keeps (rgo (R_abort_cells k) s)" by (rule receiver_rgo [OF assms(1)]) (use assms(2) k kv True in auto)
    then show ?thesis using True assms(3) by (simp add: abort_end_def)
  next
    case False
    then obtain h b where "s' = abort_answer k b (s\<lparr>os_tokens := h\<rparr>)"
      using assms(3) kv(2) that [of True "os_tokens s"] by (auto simp: abort_end_def bindR_eq_Inr split: if_splits)
    then show ?thesis using abort_answer_keeps [OF assms(1) _ kv(1,3)] assms(2) by simp
  qed
qed

lemma try_load_keeps:
  assumes "keeps s" "os_receiver s = R_try k"
  shows "\<exists>s'. try_load k s = Inr s' \<and> keeps s'"
proof -
  note k = keepsD [OF assms(1)]
  have idle: "keeps (s\<lparr>os_tokens := os_tokens s, os_unparked := os_unparked s, os_result := a, os_receiver := R_idle\<rparr>)" for a
    by (rule receiver_goes [OF assms(1)]) (use assms(2) k in auto)
  show ?thesis
  proof (cases "os_state s" rule: state_cases)
    case 1
    then show ?thesis using idle k(1) assms(2) by (simp add: try_load_def ranswer_def)
  next
    case 2
    have "keeps (rgo R_try_cas s)" by (rule receiver_rgo [OF assms(1)]) (use assms(2) k 2 in auto)
    then show ?thesis using 2 by (simp add: try_load_def)
  next
    case 3
    have "keeps (rgo R_disconnected s)" by (rule receiver_rgo [OF assms(1)]) (use assms(2) k 3 in auto)
    then show ?thesis using 3 by (simp add: try_load_def)
  next
    case 4
    then show ?thesis using k(3) assms(2) by simp
  qed
qed

lemma try_cas_keeps:
  assumes "keeps s" "os_receiver s = R_try_cas"
  shows "keeps (try_cas s)"
proof -
  note k = keepsD [OF assms(1)]
  have d: "os_data s \<noteq> None" "\<not> unsent s" using k(9,10) assms(2) by auto
  have st: "os_state s = DATA \<or> os_state s = DISCONNECTED"
    using k(1,3) assms(2) by (cases "os_state s" rule: state_cases) auto
  have "keeps (s\<lparr>os_state := if os_state s = DATA then EMPTY else os_state s, os_tokens := os_tokens s,
      os_unparked := os_unparked s, os_result := os_result s, os_receiver := R_take\<rparr>)"
    by (rule receiver_keeps [OF assms(1)]) (use assms(2) d st in auto)
  then show ?thesis by (simp add: try_cas_def compare_and_swap_def)
qed

lemma try_take_keeps:
  assumes "keeps s" "os_receiver s = R_take"
  shows "\<exists>s'. try_take s = Inr s' \<and> keeps s'"
proof -
  note k = keepsD [OF assms(1)]
  obtain t where t: "os_data s = Some t" using k(9) assms(2) by auto
  have "os_sender s \<noteq> S_send_back" using k(11) assms(2) by auto
  then have "os_state s = EMPTY \<or> os_state s = DISCONNECTED"
    using k(2,3) assms(2) by (cases "os_state s" rule: state_cases) auto
  moreover have "\<not> unsent s" using k(10) assms(2) by auto
  ultimately have "keeps (ranswer Received (s\<lparr>os_data := None, os_got := os_got s @ [t]\<rparr>))"
    using assms(2) t by (intro receiver_takes [OF assms(1)]) auto
  then show ?thesis using t by (simp add: try_take_def)
qed

lemma try_disconnected_keeps:
  assumes "keeps s" "os_receiver s = R_disconnected"
  shows "keeps (try_disconnected s)"
proof -
  note k = keepsD [OF assms(1)]
  have st: "os_state s = DISCONNECTED" using k(4) assms(2) by simp
  have "\<not> s_open (os_sender s)" using k(5) st assms(2) by auto
  then have un: "\<not> unsent s" by (rule not_open)
  have take: "keeps (ranswer Received (s\<lparr>os_data := None, os_got := os_got s @ [t]\<rparr>))" if "os_data s = Some t" for t
    using assms(2) st un that by (intro receiver_takes [OF assms(1)]) auto
  have up: "keeps (s\<lparr>os_tokens := os_tokens s, os_upgrade := SendUsed, os_result := a, os_receiver := pc\<rparr>)"
    if "pc = R_drop \<or> pc = R_idle" for a pc
    by (rule receiver_upgrades [OF assms(1) _ st]) (use assms(2) that in auto)
  show ?thesis using take up
    by (auto simp: try_disconnected_def ranswer_upgraded_def split: option.splits MyUpgrade.splits)
      (auto simp: ranswer_def)
qed

lemma can_recv_keeps:
  assumes "keeps s" "os_receiver s = R_can"
  shows "\<exists>s'. can_recv s = Inr s' \<and> keeps s'"
proof -
  note k = keepsD [OF assms(1)]
  have idle: "keeps (s\<lparr>os_tokens := os_tokens s, os_unparked := os_unparked s, os_result := a, os_receiver := R_idle\<rparr>)" for a
    by (rule receiver_goes [OF assms(1)]) (use assms(2) k in auto)
  show ?thesis
  proof (cases "os_state s" rule: state_cases)
    case 3
    have "keeps (rgo R_can_cells s)" by (rule receiver_rgo [OF assms(1)]) (use assms(2) k 3 in auto)
    then show ?thesis using 3 by (simp add: can_recv_def)
  next
    case 4
    then show ?thesis using k(3) assms(2) by simp
  qed (use idle in \<open>simp_all add: can_recv_def ranswer_def\<close>)
qed

lemma can_recv_cells_keeps:
  assumes "keeps s" "os_receiver s = R_can_cells"
  shows "keeps (can_recv_cells s)"
proof -
  have st: "os_state s = DISCONNECTED" using keepsD(4) [OF assms(1)] assms(2) by simp
  have idle: "keeps (s\<lparr>os_tokens := os_tokens s, os_unparked := os_unparked s, os_result := a, os_receiver := R_idle\<rparr>)" for a
    by (rule receiver_goes [OF assms(1)]) (use assms(2) st in auto)
  have up: "keeps (s\<lparr>os_tokens := os_tokens s, os_upgrade := SendUsed, os_result := a, os_receiver := R_drop\<rparr>)" for a
    by (rule receiver_upgrades [OF assms(1) _ st]) (use assms(2) in auto)
  show ?thesis using idle up
    by (auto simp: can_recv_cells_def ranswer_upgraded_def ranswer_def split: MyUpgrade.splits)
qed

subsection \<open>The tokens\<close>

lemma tokens_invD:
  assumes "tokens_inv s"
  shows "is_token p \<Longrightarrow> token_ok p (os_tokens s p) s"
    and "\<not> is_token p \<Longrightarrow> os_tokens s p = None" "\<not> is_token p \<Longrightarrow> r_signal (os_receiver s) \<noteq> Some p"
    and "\<not> is_token p \<Longrightarrow> s_signal (os_sender s) \<noteq> Some p" "\<not> is_token p \<Longrightarrow> r_wait (os_receiver s) \<noteq> Some p"
  using assms by (simp_all add: tokens_inv_def)

text \<open>A half that somebody has is live.\<close>

lemma token_live:
  assumes inv: "tokens_inv s"
    and half: "r_signal (os_receiver s) = Some p \<or> s_signal (os_sender s) = Some p \<or> r_wait (os_receiver s) = Some p \<or>
      is_token p \<and> os_state s = p"
  obtains t where "is_token p" "os_tokens s p = Some t" "token_ok p (Some t) s"
proof -
  have p: "is_token p" using half tokens_invD(3,4,5) [OF inv, of p] by blast
  have ok: "token_ok p (os_tokens s p) s" by (rule tokens_invD(1) [OF inv p])
  have "0 < signal_count p s + wait_count p s" using half by (auto simp: signal_count_def wait_count_def)
  then obtain t where "os_tokens s p = Some t" using ok by (cases "os_tokens s p") (auto simp: token_ok_def)
  then show ?thesis using that p ok by simp
qed

text \<open>What the program points, the state word and the unpark flag say of one token.\<close>

definition r_view :: "receiver_pc \<Rightarrow> usize \<Rightarrow> bool list" where
  "r_view pc p = [r_signal pc = Some p, r_wait pc = Some p, r_sleeping pc = Some p, r_parked pc = Some p, r_waited pc = Some p]"

definition s_view :: "('a, 'r) sender_pc \<Rightarrow> usize \<Rightarrow> bool list" where
  "s_view pc p = [s_signal pc = Some p, s_signalling pc = Some p, s_unparking pc = Some p]"

lemma token_ok_view:
  assumes "r_view (os_receiver s') p = r_view (os_receiver s) p" "s_view (os_sender s') p = s_view (os_sender s) p"
    and "os_state s' = p \<longleftrightarrow> os_state s = p" "os_unparked s \<Longrightarrow> os_unparked s' \<or> r_parked (os_receiver s') \<noteq> Some p"
    and "token_ok p it s"
  shows "token_ok p it s'"
  using assms unfolding token_ok_def signal_count_def wait_count_def r_view_def s_view_def
  by (cases it) auto

lemma view_None:
  "r_wait pc \<noteq> Some p \<Longrightarrow> r_signal pc \<noteq> Some p \<Longrightarrow> r_view pc p = [False, False, False, False, False]"
  "s_signal spc \<noteq> Some p \<Longrightarrow> s_view spc p = [False, False, False]"
  by (cases pc; auto simp: r_view_def split: if_splits) (cases spc; auto simp: s_view_def)

text \<open>A step changes the view of at most one token.\<close>

lemma tokens_step:
  assumes inv: "tokens_inv s"
    and others: "\<And>p. p \<noteq> q \<Longrightarrow> os_tokens s' p = os_tokens s p"
      "\<And>p. p \<noteq> q \<Longrightarrow> r_view (os_receiver s') p = r_view (os_receiver s) p"
      "\<And>p. p \<noteq> q \<Longrightarrow> s_view (os_sender s') p = s_view (os_sender s) p"
      "\<And>p. p \<noteq> q \<Longrightarrow> is_token p \<Longrightarrow> os_state s' = p \<longleftrightarrow> os_state s = p"
      "\<And>p. p \<noteq> q \<Longrightarrow> os_unparked s \<Longrightarrow> os_unparked s' \<or> r_parked (os_receiver s') \<noteq> Some p"
    and q: "is_token q" "token_ok q (os_tokens s' q) s'"
  shows "tokens_inv s'"
proof -
  have "token_ok p (os_tokens s' p) s'" if "is_token p" for p
  proof (cases "p = q")
    case False
    show ?thesis unfolding others(1) [OF False]
      by (rule token_ok_view [of s' p s]) (use others [OF False] that tokens_invD(1) [OF inv that] in simp_all)
  qed (use q in simp)
  moreover have "os_tokens s' p = None \<and> r_signal (os_receiver s') \<noteq> Some p \<and> s_signal (os_sender s') \<noteq> Some p \<and>
      r_wait (os_receiver s') \<noteq> Some p" if "\<not> is_token p" for p
  proof -
    have "p \<noteq> q" using q(1) that by auto
    then show ?thesis using others(1,2,3) [of p] tokens_invD(2-5) [OF inv that] by (simp add: r_view_def s_view_def)
  qed
  ultimately show ?thesis by (simp add: tokens_inv_def)
qed

text \<open>A step that changes none.\<close>

lemma tokens_quiet:
  assumes inv: "tokens_inv s" and heap: "os_tokens s' = os_tokens s"
    and views: "\<And>p. r_view (os_receiver s') p = r_view (os_receiver s) p" "\<And>p. s_view (os_sender s') p = s_view (os_sender s) p"
    and st: "\<And>p. is_token p \<Longrightarrow> os_state s' = p \<longleftrightarrow> os_state s = p" and u: "os_unparked s' = os_unparked s"
  shows "tokens_inv s'"
proof -
  have q: "is_token 8" by (simp add: is_token_def oneshot_consts)
  have "token_ok 8 (os_tokens s' 8) s'" unfolding heap
    by (rule token_ok_view [OF views st]) (use q u tokens_invD(1) [OF inv q] in auto)
  then show ?thesis using q by (intro tokens_step [OF inv]) (use assms in auto)
qed

text \<open>Program points without a token.\<close>

fun r_plain :: "receiver_pc \<Rightarrow> bool" where
  "r_plain (R_abort_end _ v) = (\<not> is_token v)"
| "r_plain pc = (r_wait pc = None)"

lemma r_plain_view: "r_plain pc \<Longrightarrow> r_view pc p = [False, False, False, False, False]"
  by (cases pc) (auto simp: r_view_def)

lemma tokens_receiver_plain:
  assumes inv: "tokens_inv s" and pc: "r_plain (os_receiver s)" "r_plain (os_receiver s')"
    and same: "os_tokens s' = os_tokens s" "os_unparked s' = os_unparked s" "os_sender s' = os_sender s"
    and st: "os_state s' = os_state s \<or> \<not> is_token (os_state s) \<and> \<not> is_token (os_state s')"
  shows "tokens_inv s'"
  by (rule tokens_quiet [OF inv same(1)]) (use pc same st in \<open>auto simp: r_plain_view\<close>)

lemma tokens_sender_plain:
  assumes inv: "tokens_inv s" and pc: "s_signal (os_sender s) = None" "s_signal (os_sender s') = None"
    and same: "os_tokens s' = os_tokens s" "os_unparked s' = os_unparked s" "os_receiver s' = os_receiver s"
    and st: "os_state s' = os_state s \<or> \<not> is_token (os_state s) \<and> \<not> is_token (os_state s')"
  shows "tokens_inv s'"
  by (rule tokens_quiet [OF inv same(1)]) (use pc same st in \<open>auto simp: view_None\<close>)

text \<open>The sender takes the token out of the state word.\<close>

lemma tokens_steal:
  assumes inv: "tokens_inv s" and p: "is_token p" "os_state s = p" "s_signal (os_sender s) = None"
    and v: "\<not> is_token v"
  shows "tokens_inv (s\<lparr>os_state := v, os_sender := S_signal p k\<rparr>)"
proof -
  obtain t where t: "os_tokens s p = Some t" "token_ok p (Some t) s" using token_live [OF inv, of p] p by metis
  have v': "v \<noteq> p" using v p(1) by auto
  have sig: "s_signal (os_sender s) \<noteq> Some p" "s_signalling (os_sender s) \<noteq> Some p" "s_unparking (os_sender s) \<noteq> Some p"
    using p(3) by (cases "os_sender s"; simp)+
  have "token_ok p (Some t) (s\<lparr>os_state := v, os_sender := S_signal p k\<rparr>)"
    using t(2) p v' sig unfolding token_ok_def signal_count_def wait_count_def by auto
  moreover have "s_view (S_signal p k) a = s_view (os_sender s) a" if "a \<noteq> p" for a
    using that p(3) view_None(2) [of "os_sender s" a] by (simp add: s_view_def)
  ultimately show ?thesis using p t(1) v by (intro tokens_step [OF inv, of p]) auto
qed

text \<open>One half of a token is dropped.\<close>

definition dropped :: "Inner \<Rightarrow> Inner option" where
  "dropped t = (if refs t \<le> 1 then None else Some (t\<lparr>refs := refs t - 1\<rparr>))"

lemma token_drop_live: "h p = Some t \<Longrightarrow> token_drop p h = Inr (h(p := dropped t))"
  by (simp add: token_drop_def token_at_def dropped_def)

lemma token_ok_dropped:
  assumes ok: "token_ok p (Some t) s"
    and count: "signal_count p s' + wait_count p s' + 1 = signal_count p s + wait_count p s" "signal_count p s' \<le> signal_count p s"
    and less: "os_state s' = p \<Longrightarrow> os_state s = p" "r_signal (os_receiver s') = Some p \<Longrightarrow> r_signal (os_receiver s) = Some p"
      "s_signalling (os_sender s') = Some p \<Longrightarrow> s_signalling (os_sender s) = Some p"
    and asleep: "r_sleeping (os_receiver s') = Some p \<Longrightarrow> r_sleeping (os_receiver s) = Some p \<and> woken_flag t"
    and waited: "r_waited (os_receiver s') = Some p \<Longrightarrow> woken_flag t"
    and parked: "r_parked (os_receiver s') = Some p \<Longrightarrow> os_unparked s'"
    and stolen: "s_signal (os_sender s') = Some p \<Longrightarrow> s_signalling (os_sender s') = Some p \<or> woken_flag t"
  shows "token_ok p (dropped t) s'"
proof -
  have r: "refs t = signal_count p s + wait_count p s" "signal_count p s \<le> 1" "0 < refs t"
    "woken_flag t \<Longrightarrow> os_state s \<noteq> p" "woken_flag t \<Longrightarrow> r_signal (os_receiver s) \<noteq> Some p"
    "woken_flag t \<Longrightarrow> s_signalling (os_sender s) \<noteq> Some p"
    using ok by (auto simp: token_ok_def)
  show ?thesis
  proof (cases "refs t \<le> 1")
    case True
    then show ?thesis using r count by (simp add: dropped_def token_ok_def)
  next
    case False
    then show ?thesis using r count less asleep waited parked stolen by (auto simp: dropped_def token_ok_def)
  qed
qed

lemma sender_signal_ok:
  assumes inv: "tokens_inv s" and pc: "os_sender s = S_signal p k"
  shows "\<exists>h. sender_signal p k s = Inr (sgo (S_unpark p k) (s\<lparr>os_tokens := h\<rparr>)) \<and>
    tokens_inv (sgo (S_unpark p k) (s\<lparr>os_tokens := h\<rparr>))"
proof -
  obtain t where t: "is_token p" "os_tokens s p = Some t" "token_ok p (Some t) s"
    using token_live [OF inv, of p] pc by auto
  let ?s = "sgo (S_unpark p k) (s\<lparr>os_tokens := (os_tokens s)(p \<mapsto> t\<lparr>woken_flag := True\<rparr>)\<rparr>)"
  have nw: "\<not> woken_flag t" using t(3) pc by (simp add: token_ok_def)
  have cnt: "os_state s \<noteq> p" "r_signal (os_receiver s) \<noteq> Some p"
    using t(3) pc by (auto simp: token_ok_def signal_count_def)
  have "token_ok p (Some (t\<lparr>woken_flag := True\<rparr>)) ?s"
    using t(3) cnt pc unfolding token_ok_def signal_count_def wait_count_def by auto
  then have "tokens_inv ?s" using t(1) pc by (intro tokens_step [OF inv, of p]) (auto simp: s_view_def)
  moreover have "sender_signal p k s = Inr ?s"
    using t(2) nw by (simp add: sender_signal_def token_signal_def token_at_def compare_and_swap_def)
  ultimately show ?thesis by blast
qed

lemma sender_unpark_ok:
  assumes inv: "tokens_inv s" and pc: "os_sender s = S_unpark p k"
  shows "tokens_inv (sender_unpark p k s)"
proof -
  obtain t where t: "is_token p" "os_tokens s p = Some t" "token_ok p (Some t) s"
    using token_live [OF inv, of p] pc by auto
  have "token_ok p (Some t) (sender_unpark p k s)"
    using t(3) pc unfolding token_ok_def signal_count_def wait_count_def sender_unpark_def by auto
  then show ?thesis using t pc by (intro tokens_step [OF inv, of p]) (auto simp: s_view_def sender_unpark_def)
qed

lemma after_pc_plain [simp]:
  "s_signal (after_pc k) = None" "s_signalling (after_pc k) = None" "s_unparking (after_pc k) = None"
  by (cases k; simp)+

lemma sender_token_drop_ok:
  assumes inv: "tokens_inv s" and pc: "os_sender s = S_token_drop p k"
  shows "\<exists>h. sender_token_drop p k s = Inr (sgo (after_pc k) (s\<lparr>os_tokens := h\<rparr>)) \<and>
    tokens_inv (sgo (after_pc k) (s\<lparr>os_tokens := h\<rparr>))"
proof -
  obtain t where t: "is_token p" "os_tokens s p = Some t" "token_ok p (Some t) s"
    using token_live [OF inv, of p] pc by auto
  let ?s = "sgo (after_pc k) (s\<lparr>os_tokens := (os_tokens s)(p := dropped t)\<rparr>)"
  have cnt: "os_state s \<noteq> p" "r_signal (os_receiver s) \<noteq> Some p"
    using t(3) pc by (auto simp: token_ok_def signal_count_def)
  have "woken_flag t" using t(3) pc by (simp add: token_ok_def)
  then have "token_ok p (dropped t) ?s"
    using t(3) cnt pc by (intro token_ok_dropped [OF t(3)]) (auto simp: signal_count_def wait_count_def token_ok_def)
  then have "tokens_inv ?s" using t(1) pc by (intro tokens_step [OF inv, of p]) (auto simp: s_view_def)
  moreover have "sender_token_drop p k s = Inr ?s"
    using t(2) by (simp add: sender_token_drop_def token_drop_live)
  ultimately show ?thesis by blast
qed

text \<open>The receiver's moves.\<close>

lemma recv_tokens_ok:
  assumes inv: "tokens_inv s" and pc: "os_receiver s = R_tokens k" and step: "recv_tokens k c s = Some s'"
    and st: "\<not> is_token (os_state s)"
  shows "tokens_inv s'"
proof -
  obtain p where p: "fresh_token p (os_tokens s)" "s' = rgo (R_block k p) (s\<lparr>os_tokens := tokens_new p (os_tokens s)\<rparr>)"
    using step by (auto simp: recv_tokens_def split: oneshot_choice.splits if_splits)
  have tok: "is_token p" using p(1) by (auto simp: fresh_token_def is_token_def oneshot_consts)
  have "token_ok p None s" using tokens_invD(1) [OF inv tok] p(1) by (simp add: fresh_token_def)
  then have "token_ok p (os_tokens s' p) s'"
    using st tok unfolding p(2) by (auto simp: token_ok_def signal_count_def wait_count_def tokens_new_def)
  then show ?thesis using tok p(2) pc by (intro tokens_step [OF inv, of p]) (auto simp: r_view_def tokens_new_def)
qed

lemma recv_block_ok:
  assumes inv: "tokens_inv s" and pc: "os_receiver s = R_block k p" and st: "os_state s = EMPTY"
  shows "tokens_inv (rgo (R_wait k p) (s\<lparr>os_state := p\<rparr>))"
proof -
  obtain t where t: "is_token p" "os_tokens s p = Some t" "token_ok p (Some t) s"
    using token_live [OF inv, of p] pc by auto
  have "token_ok p (Some t) (rgo (R_wait k p) (s\<lparr>os_state := p\<rparr>))"
    using t(1,3) pc st unfolding token_ok_def signal_count_def wait_count_def by (cases "os_sender s") auto
  then show ?thesis using t pc st by (intro tokens_step [OF inv, of p]) (auto simp: r_view_def)
qed

lemma receiver_same_view:
  assumes inv: "tokens_inv s" and pc: "\<And>q. r_view pc' q = r_view (os_receiver s) q"
  shows "tokens_inv (rgo pc' s)"
  by (rule tokens_quiet [OF inv]) (use pc in auto)

text \<open>Both halves are with the receiver, and are dropped.\<close>

lemma both_dropped:
  assumes inv: "tokens_inv s" and pc: "os_receiver s = R_unblocked k p \<or> os_receiver s = R_start_cells p"
  obtains h h' where "token_drop p (os_tokens s) = Inr h" "token_drop p h = Inr h'"
    "\<And>s'. os_tokens s' = h' \<Longrightarrow> os_state s' = os_state s \<Longrightarrow> os_sender s' = os_sender s \<Longrightarrow> os_unparked s' = os_unparked s
      \<Longrightarrow> r_plain (os_receiver s') \<Longrightarrow> tokens_inv s'"
proof -
  have "r_wait (os_receiver s) = Some p" using pc by auto
  then obtain t where t: "is_token p" "os_tokens s p = Some t" "token_ok p (Some t) s"
    using token_live [OF inv, of p] by metis
  have cnt: "refs t = 2" "os_state s \<noteq> p" "s_signal (os_sender s) \<noteq> Some p"
    using t(3) pc by (auto simp: token_ok_def signal_count_def wait_count_def)
  let ?h = "(os_tokens s)(p := dropped t)" and ?h' = "(os_tokens s)(p := None)"
  show ?thesis
  proof (rule that [of ?h ?h'])
    show "token_drop p (os_tokens s) = Inr ?h" using t(2) by (rule token_drop_live)
    have "?h p = Some (t\<lparr>refs := 1\<rparr>)" using cnt by (simp add: dropped_def)
    then show "token_drop p ?h = Inr ?h'" using token_drop_live [of ?h p] by (simp add: dropped_def)
    fix s' :: "('a, 'b) oneshot"
    assume s': "os_tokens s' = ?h'" "os_state s' = os_state s" "os_sender s' = os_sender s" "os_unparked s' = os_unparked s"
      "r_plain (os_receiver s')"
    have v: "r_view (os_receiver s') q = [False, False, False, False, False]" for q by (rule r_plain_view [OF s'(5)])
    have "token_ok p None s'"
      using cnt s' v [of p] by (simp add: token_ok_def signal_count_def wait_count_def r_view_def)
    then show "tokens_inv s'"
      using t(1) s' v pc by (intro tokens_step [OF inv, of p]) (auto simp: r_view_def)
  qed
qed

text \<open>The wait half is dropped.\<close>

lemma wait_dropped:
  assumes inv: "tokens_inv s" and pc: "os_receiver s = R_waited k p \<or> os_receiver s = R_gave_up k p"
    and pc': "r_plain pc'"
  shows "\<exists>h. token_drop p (os_tokens s) = Inr h \<and> tokens_inv (rgo pc' (s\<lparr>os_tokens := h\<rparr>))"
proof -
  have "r_wait (os_receiver s) = Some p" using pc by auto
  then obtain t where t: "is_token p" "os_tokens s p = Some t" "token_ok p (Some t) s"
    using token_live [OF inv, of p] by metis
  let ?s = "rgo pc' (s\<lparr>os_tokens := (os_tokens s)(p := dropped t)\<rparr>)"
  have v: "r_view pc' q = [False, False, False, False, False]" for q by (rule r_plain_view [OF pc'])
  have "token_ok p (dropped t) ?s"
    by (rule token_ok_dropped [OF t(3)])
      (use v [of p] pc t(3) in \<open>auto simp: signal_count_def wait_count_def r_view_def token_ok_def\<close>)
  then have "tokens_inv ?s" using t(1) v pc by (intro tokens_step [OF inv, of p]) (auto simp: r_view_def)
  then show ?thesis using token_drop_live [of "os_tokens s" p t] t(2) by auto
qed

text \<open>The signal half that an abort took back is dropped.\<close>

lemma abort_dropped:
  assumes inv: "tokens_inv s" and pc: "os_receiver s = R_abort_end k p" "is_token p" and pc': "r_plain pc'"
  shows "\<exists>h. token_drop p (os_tokens s) = Inr h \<and> tokens_inv (s\<lparr>os_tokens := h, os_result := a, os_receiver := pc'\<rparr>)"
proof -
  obtain t where t: "os_tokens s p = Some t" "token_ok p (Some t) s"
    using token_live [OF inv, of p] pc by auto
  let ?s = "s\<lparr>os_tokens := (os_tokens s)(p := dropped t), os_result := a, os_receiver := pc'\<rparr>"
  have v: "r_view pc' q = [False, False, False, False, False]" for q by (rule r_plain_view [OF pc'])
  have "token_ok p (dropped t) ?s"
    by (rule token_ok_dropped [OF t(2)])
      (use v [of p] pc t(2) in \<open>auto simp: signal_count_def wait_count_def r_view_def token_ok_def\<close>)
  then have "tokens_inv ?s" using pc(2) v pc by (intro tokens_step [OF inv, of p]) (auto simp: r_view_def)
  then show ?thesis using token_drop_live [of "os_tokens s" p t] t(1) by auto
qed

lemma abort_cas_ok:
  assumes inv: "tokens_inv s" and pc: "os_receiver s = R_abort_cas k p" "is_token p" and st: "os_state s = p"
  shows "tokens_inv (rgo (R_abort_end k p) (s\<lparr>os_state := EMPTY\<rparr>))"
proof -
  obtain t where t: "os_tokens s p = Some t" "token_ok p (Some t) s"
    using token_live [OF inv, of p] pc st by auto
  have "p \<noteq> EMPTY" using pc(2) by auto
  then have "token_ok p (Some t) (rgo (R_abort_end k p) (s\<lparr>os_state := EMPTY\<rparr>))"
    using t(2) pc st unfolding token_ok_def signal_count_def wait_count_def by auto
  then show ?thesis using t pc st by (intro tokens_step [OF inv, of p]) (auto simp: r_view_def)
qed

lemma wait_load_ok:
  assumes inv: "tokens_inv s" and pc: "os_receiver s = R_wait k p"
  shows "\<exists>t. os_tokens s p = Some t \<and> (woken_flag t \<longrightarrow> os_state s \<noteq> p) \<and>
    (\<forall>pc'. (pc' = R_waited k p \<and> woken_flag t) \<or> pc' = R_gave_up k p \<or> (pc' = R_park k p \<and> \<not> woken_flag t) \<longrightarrow> tokens_inv (rgo pc' s))"
proof -
  obtain t where t: "is_token p" "os_tokens s p = Some t" "token_ok p (Some t) s"
    using token_live [OF inv, of p] pc by auto
  have "tokens_inv (rgo pc' s)"
    if "(pc' = R_waited k p \<and> woken_flag t) \<or> pc' = R_gave_up k p \<or> (pc' = R_park k p \<and> \<not> woken_flag t)" for pc'
  proof -
    have "token_ok p (Some t) (rgo pc' s)"
      using t(3) pc that unfolding token_ok_def signal_count_def wait_count_def by auto
    then show ?thesis using t pc that by (intro tokens_step [OF inv, of p]) (auto simp: r_view_def)
  qed
  then show ?thesis using t by (auto simp: token_ok_def)
qed

lemma wait_park_ok:
  assumes inv: "tokens_inv s" and pc: "os_receiver s = R_park k p"
  shows "tokens_inv (rgo (R_wait k p) (s\<lparr>os_unparked := u\<rparr>))"
proof -
  obtain t where t: "is_token p" "os_tokens s p = Some t" "token_ok p (Some t) s"
    using token_live [OF inv, of p] pc by auto
  have "token_ok p (Some t) (rgo (R_wait k p) (s\<lparr>os_unparked := u\<rparr>))"
    using t(3) pc unfolding token_ok_def signal_count_def wait_count_def by auto
  then show ?thesis using t pc by (intro tokens_step [OF inv, of p]) (auto simp: r_view_def)
qed

subsection \<open>Every step keeps the invariant and none faults\<close>

definition os_safe :: "('a, 'r) oneshot res \<Rightarrow> bool" where
  "os_safe r \<longleftrightarrow> (\<exists>s. r = Inr s \<and> keeps s \<and> tokens_inv s)"

lemma os_safeI: "keeps s \<Longrightarrow> tokens_inv s \<Longrightarrow> os_safe (Inr s)"
  by (simp add: os_safe_def)

lemma os_safe_eq: "e = Inr s \<Longrightarrow> keeps s \<Longrightarrow> tokens_inv s \<Longrightarrow> r = e \<Longrightarrow> os_safe r"
  by (simp add: os_safe_def)

lemma oneshot_inv_iff: "oneshot_inv s \<longleftrightarrow> keeps s \<and> tokens_inv s"
  by (auto simp: oneshot_inv_def keeps_def)

text \<open>The sender's swaps: they take the token out of the state word, or find none.\<close>

lemma sender_swap_tokens:
  assumes inv: "tokens_inv s" and pc: "s_signal (os_sender s) = None" and v: "\<not> is_token v"
  shows "is_token (os_state s) \<Longrightarrow> tokens_inv (sgo (S_signal (os_state s) k) (s\<lparr>os_state := v\<rparr>))"
    and "\<not> is_token (os_state s) \<Longrightarrow> s_signal pc' = None \<Longrightarrow> tokens_inv (sgo pc' (s\<lparr>os_state := v\<rparr>))"
proof -
  show "tokens_inv (sgo (S_signal (os_state s) k) (s\<lparr>os_state := v\<rparr>))" if "is_token (os_state s)"
    by (rule tokens_steal [OF inv that refl pc v])
  show "tokens_inv (sgo pc' (s\<lparr>os_state := v\<rparr>))" if "\<not> is_token (os_state s)" "s_signal pc' = None"
    by (rule tokens_sender_plain [OF inv pc]) (use that v in auto)
qed

lemma sender_step_safe:
  assumes k: "keeps s" and t: "tokens_inv s" and step: "sender_step (os_sender s) c s = Some r"
  shows "os_safe r"
proof (cases "os_sender s")
  case S_idle
  then obtain s' where s': "r = Inr s'" "keeps s'" using sender_begin_keeps [OF k] step by auto
  moreover have "tokens_inv s'"
    using step S_idle s'(1) by (intro tokens_sender_plain [OF t])
      (auto simp: sender_begin_def split: oneshot_choice.splits if_splits)
  ultimately show ?thesis by (simp add: os_safe_def)
next
  case (S_send a)
  then obtain s' where s': "r = Inr s'" "keeps s'" using send_write_keeps [OF k] step by auto
  moreover have "tokens_inv s'"
    using step S_send s'(1) by (intro tokens_sender_plain [OF t])
      (auto simp: send_write_def bindR_eq_Inr split: MyUpgrade.splits)
  ultimately show ?thesis by (simp add: os_safe_def)
next
  case S_send_swap
  then obtain s' where s': "send_swap s = Inr s'" "keeps s'" "r = Inr s'" using send_swap_keeps [OF k] step by auto
  have "tokens_inv s'"
    using s'(1) sender_swap_tokens [OF t, of DATA] S_send_swap
    by (cases "os_state s" rule: state_cases) (auto simp: send_swap_def Let_def unreachableR_def)
  then show ?thesis using s' by (simp add: os_safe_def)
next
  case S_send_back
  have "tokens_inv (send_back s)"
    using keepsD(11) [OF k] S_send_back by (intro tokens_sender_plain [OF t]) (auto simp: send_back_def)
  then show ?thesis using step S_send_back send_back_keeps [OF k] by (auto simp: os_safe_def)
next
  case S_send_take
  then obtain s' where s': "send_take s = Inr s'" "keeps s'" "r = Inr s'" using send_take_keeps [OF k] step by auto
  have "tokens_inv s'"
    using s'(1) S_send_take by (intro tokens_sender_plain [OF t]) (auto simp: send_take_def bindR_eq_Inr)
  then show ?thesis using s' by (simp add: os_safe_def)
next
  case (S_upgrade up)
  then obtain s' where s': "upgrade_write up s = Inr s'" "keeps s'" "r = Inr s'" using upgrade_write_keeps [OF k] step by auto
  have "tokens_inv s'"
    using s'(1) S_upgrade by (intro tokens_sender_plain [OF t]) (auto simp: upgrade_write_def bindR_eq_Inr)
  then show ?thesis using s' by (simp add: os_safe_def)
next
  case (S_upgrade_swap prev)
  have "tokens_inv (upgrade_swap prev s)"
    using sender_swap_tokens [OF t, of DISCONNECTED] S_upgrade_swap
    by (cases "os_state s" rule: state_cases) (auto simp: upgrade_swap_def Let_def)
  then show ?thesis using step S_upgrade_swap upgrade_swap_keeps [OF k] by (auto simp: os_safe_def)
next
  case (S_upgrade_restore prev)
  have "tokens_inv (upgrade_restore prev s)"
    using S_upgrade_restore by (intro tokens_sender_plain [OF t]) (auto simp: upgrade_restore_def)
  then show ?thesis using step S_upgrade_restore upgrade_restore_keeps [OF k] by (auto simp: os_safe_def)
next
  case S_drop
  have "tokens_inv (drop_chan s)"
    using sender_swap_tokens [OF t, of DISCONNECTED] S_drop
    by (cases "os_state s" rule: state_cases) (auto simp: drop_chan_def Let_def)
  then show ?thesis using step S_drop drop_chan_keeps [OF k] by (auto simp: os_safe_def)
next
  case (S_signal p a)
  obtain h where h: "sender_signal p a s = Inr (sgo (S_unpark p a) (s\<lparr>os_tokens := h\<rparr>))"
    "tokens_inv (sgo (S_unpark p a) (s\<lparr>os_tokens := h\<rparr>))" using sender_signal_ok [OF t S_signal] by blast
  have "keeps (sgo (S_unpark p a) (s\<lparr>os_tokens := h\<rparr>))"
    using signal_keeps [OF k, where p = p and k = a and h = h and u = "os_unparked s" and pc = "S_unpark p a"] S_signal by simp
  then show ?thesis using step S_signal h by (auto simp: os_safe_def)
next
  case (S_unpark p a)
  have "keeps (sender_unpark p a s)"
    using signal_keeps [OF k, where p = p and k = a and h = "os_tokens s" and u = True and pc = "S_token_drop p a"] S_unpark by (simp add: sender_unpark_def)
  then show ?thesis using step S_unpark sender_unpark_ok [OF t] by (auto simp: os_safe_def)
next
  case (S_token_drop p a)
  obtain h where h: "sender_token_drop p a s = Inr (sgo (after_pc a) (s\<lparr>os_tokens := h\<rparr>))"
    "tokens_inv (sgo (after_pc a) (s\<lparr>os_tokens := h\<rparr>))" using sender_token_drop_ok [OF t S_token_drop] by blast
  have "keeps (sgo (after_pc a) (s\<lparr>os_tokens := h\<rparr>))"
    using signal_keeps [OF k, where p = p and k = a and h = h and u = "os_unparked s" and pc = "after_pc a"] S_token_drop by simp
  then show ?thesis using step S_token_drop h by (auto simp: os_safe_def)
qed (use step in auto)

text \<open>A state word that is a token belongs to the receiver's wait.\<close>

lemma receiver_no_token:
  "keeps s \<Longrightarrow> (\<And>v. \<not> r_token (os_receiver s) v) \<Longrightarrow> \<not> is_token (os_state s)"
  using keepsD(3) by blast

lemma receiver_step_safe:
  assumes k: "keeps s" and t: "tokens_inv s" and step: "receiver_step (os_receiver s) c s = Some r"
  shows "os_safe r"
proof (cases "os_receiver s")
  case R_idle
  then obtain s' where s': "r = Inr s'" "keeps s'" using receiver_begin_keeps [OF k] step by auto
  moreover have "tokens_inv s'"
    using step R_idle s'(1) by (intro tokens_receiver_plain [OF t])
      (auto simp: receiver_begin_def split: oneshot_choice.splits wait_kind.splits)
  ultimately show ?thesis by (simp add: os_safe_def)
next
  case (R_recv w)
  have "tokens_inv (recv_load w s)"
    using R_recv by (intro tokens_receiver_plain [OF t]) (auto simp: recv_load_def)
  then show ?thesis using step R_recv recv_load_keeps [OF k] by (auto simp: os_safe_def)
next
  case (R_tokens w)
  then obtain s' where s': "recv_tokens w c s = Some s'" "r = Inr s'" using step by auto
  have "\<not> is_token (os_state s)" using receiver_no_token [OF k] R_tokens by simp
  then show ?thesis using recv_tokens_keeps [OF k R_tokens s'(1)] recv_tokens_ok [OF t R_tokens s'(1)] s'(2)
    by (simp add: os_safe_def)
next
  case (R_block w p)
  have p: "is_token p" using token_live [OF t, of p] R_block by auto
  have nt: "\<not> is_token (os_state s)" using receiver_no_token [OF k] R_block by simp
  have same: "tokens_inv (rgo (R_unblocked w p) s)" "tokens_inv (rgo (R_start_cells p) s)"
    by (rule receiver_same_view [OF t]; simp add: R_block r_view_def)+
  have block: "tokens_inv (recv_block w p s)"
    using recv_block_ok [OF t R_block] same by (auto simp: recv_block_def compare_and_swap_def)
  show ?thesis
  proof (cases w)
    case Select
    then obtain s' where s': "start_selection p s = Inr s'" "keeps s'" using start_selection_keeps [OF k] R_block p by blast
    have "tokens_inv s'"
      using s'(1) recv_block_ok [OF t R_block] same nt Select
      by (cases "os_state s" rule: state_cases) (auto simp: start_selection_def compare_and_swap_def Let_def same_state)
    moreover have "r = Inr s'" using s'(1) step R_block Select by simp
    ultimately show ?thesis using s'(2) by (simp add: os_safe_def)
  qed (use step R_block block recv_block_keeps [OF k R_block p] in \<open>auto simp: os_safe_def\<close>)
next
  case (R_unblocked w p)
  obtain h h' where h: "token_drop p (os_tokens s) = Inr h" "token_drop p h = Inr h'"
    "\<And>s'. os_tokens s' = h' \<Longrightarrow> os_state s' = os_state s \<Longrightarrow> os_sender s' = os_sender s \<Longrightarrow> os_unparked s' = os_unparked s
      \<Longrightarrow> r_plain (os_receiver s') \<Longrightarrow> tokens_inv s'"
    using both_dropped [OF t, of w p] R_unblocked by metis
  then obtain s' where s': "recv_unblocked w p s = Inr s'" by (simp add: recv_unblocked_def)
  then have "tokens_inv s'" using h(1,2) by (intro h(3)) (auto simp: recv_unblocked_def ranswer_def split: wait_kind.splits)
  then show ?thesis using step R_unblocked recv_unblocked_keeps [OF k R_unblocked s'] s' by (auto simp: os_safe_def)
next
  case (R_start_cells p)
  obtain h h' where h: "token_drop p (os_tokens s) = Inr h" "token_drop p h = Inr h'"
    "\<And>s'. os_tokens s' = h' \<Longrightarrow> os_state s' = os_state s \<Longrightarrow> os_sender s' = os_sender s \<Longrightarrow> os_unparked s' = os_unparked s
      \<Longrightarrow> r_plain (os_receiver s') \<Longrightarrow> tokens_inv s'"
    using both_dropped [OF t, of _ p] R_start_cells by metis
  have same: "tokens_inv (rgo (R_unblocked Select p) s)"
    by (rule receiver_same_view [OF t]) (simp add: R_start_cells r_view_def)
  obtain s' where s': "start_selection_cells p s = Inr s'"
    using h(1,2) by (cases "os_data s = None"; cases "os_upgrade s") (auto simp: start_selection_cells_def)
  have "tokens_inv s'"
    using s' same h by (auto simp: start_selection_cells_def ranswer_upgraded_def split: if_splits MyUpgrade.splits)
  then show ?thesis using step R_start_cells start_selection_cells_keeps [OF k R_start_cells s'] s' by (auto simp: os_safe_def)
next
  case (R_wait w p)
  obtain i where i: "os_tokens s p = Some i" "woken_flag i \<longrightarrow> os_state s \<noteq> p"
    "\<And>pc'. (pc' = R_waited w p \<and> woken_flag i) \<or> pc' = R_gave_up w p \<or> (pc' = R_park w p \<and> \<not> woken_flag i) \<Longrightarrow> tokens_inv (rgo pc' s)"
    using wait_load_ok [OF t R_wait] by blast
  then obtain s' where s': "wait_load w p c s = Inr s'" by (simp add: wait_load_def token_at_def)
  have "keeps s'" using wait_load_keeps [OF k R_wait s'] i(1,2) by simp
  moreover have "tokens_inv s'" using s' i by (auto simp: wait_load_def token_at_def split: if_splits)
  ultimately show ?thesis using step R_wait s' by (auto simp: os_safe_def)
next
  case (R_park w p)
  then obtain s' where s': "wait_park w p c s = Some s'" "r = Inr s'" using step by auto
  have "tokens_inv s'"
    using s'(1) wait_park_ok [OF t R_park, of "os_unparked s"] wait_park_ok [OF t R_park, of False]
    by (auto simp: wait_park_def split: if_splits)
  then show ?thesis using s' wait_park_keeps [OF k R_park s'(1)] by (simp add: os_safe_def)
next
  case (R_waited w p)
  let ?pc = "case w of Select \<Rightarrow> R_abort w | _ \<Rightarrow> R_try w"
  obtain h where h: "token_drop p (os_tokens s) = Inr h" "tokens_inv (rgo ?pc (s\<lparr>os_tokens := h\<rparr>))"
    using wait_dropped [OF t, of w p ?pc] R_waited by (cases w) auto
  have "os_state s \<noteq> EMPTY" using keepsD(1) [OF k] R_waited by auto
  then have s': "recv_waited w p s = Inr (rgo ?pc (s\<lparr>os_tokens := h\<rparr>))"
    using h(1) by (simp add: recv_waited_def split: wait_kind.splits)
  have "r = recv_waited w p s" using step R_waited by simp
  then show ?thesis unfolding s' using os_safeI [OF recv_waited_keeps [OF k R_waited s'] h(2)] by simp
next
  case (R_gave_up w p)
  obtain h where h: "token_drop p (os_tokens s) = Inr h" "tokens_inv (rgo (R_abort w) (s\<lparr>os_tokens := h\<rparr>))"
    using wait_dropped [OF t, of w p "R_abort w"] R_gave_up by auto
  then have s': "recv_gave_up w p s = Inr (rgo (R_abort w) (s\<lparr>os_tokens := h\<rparr>))" by (simp add: recv_gave_up_def)
  have "r = recv_gave_up w p s" using step R_gave_up by simp
  then show ?thesis unfolding s' using os_safeI [OF recv_gave_up_keeps [OF k R_gave_up s'] h(2)] by simp
next
  case (R_abort w)
  have "tokens_inv (abort_load w s)"
    using R_abort by (intro tokens_receiver_plain [OF t]) (auto simp: abort_load_def Let_def is_token_def)
  then show ?thesis using step R_abort abort_load_keeps [OF k] by (auto simp: os_safe_def)
next
  case (R_abort_cas w p)
  have p: "is_token p" using keepsD(7) [OF k] R_abort_cas by simp
  have "tokens_inv (abort_cas w p s)"
  proof (cases "os_state s = p")
    case True
    then show ?thesis using abort_cas_ok [OF t R_abort_cas p] by (simp add: abort_cas_def compare_and_swap_def)
  next
    case False
    then have "\<not> is_token (os_state s)" using keepsD(3) [OF k] R_abort_cas by auto
    then show ?thesis using R_abort_cas False
      by (intro tokens_receiver_plain [OF t]) (auto simp: abort_cas_def compare_and_swap_def)
  qed
  then show ?thesis using step R_abort_cas abort_cas_keeps [OF k] by (auto simp: os_safe_def)
next
  case (R_abort_end w v)
  have v: "v \<noteq> EMPTY" using keepsD(7) [OF k] R_abort_end by simp
  have "\<exists>s'. abort_end w v s = Inr s' \<and> tokens_inv s'"
  proof (cases "is_token v")
    case True
    have "\<exists>h. token_drop v (os_tokens s) = Inr h \<and> tokens_inv (abort_answer w b (s\<lparr>os_tokens := h\<rparr>))" for b
      using abort_dropped [OF t R_abort_end True, of "R_try w" "os_result s"]
        abort_dropped [OF t R_abort_end True, of R_idle "Some (Selection b)"]
      by (cases w) (auto simp: abort_answer_def ranswer_def)
    then obtain h where "token_drop v (os_tokens s) = Inr h" "tokens_inv (abort_answer w False (s\<lparr>os_tokens := h\<rparr>))" by blast
    then show ?thesis using True by (simp add: abort_end_def is_token_def)
  next
    case False
    then have "v = DATA \<or> v = DISCONNECTED" using v by (auto simp: is_token_def)
    moreover have "tokens_inv (abort_answer w True s)" "tokens_inv (rgo (R_abort_cells w) s)"
      using R_abort_end False by (intro tokens_receiver_plain [OF t]; auto simp: abort_answer_def ranswer_def split: wait_kind.splits)+
    ultimately show ?thesis by (auto simp: abort_end_def)
  qed
  then obtain s' where s': "abort_end w v s = Inr s'" "tokens_inv s'" by blast
  show ?thesis
    by (rule os_safe_eq [OF s'(1) abort_end_keeps [OF k R_abort_end s'(1)] s'(2)]) (use step R_abort_end in simp)
next
  case (R_abort_cells w)
  have "tokens_inv (abort_cells w s)"
    using R_abort_cells by (intro tokens_receiver_plain [OF t])
      (auto simp: abort_cells_def abort_answer_def ranswer_def ranswer_upgraded_def split: wait_kind.splits MyUpgrade.splits)
  then show ?thesis using step R_abort_cells abort_cells_keeps [OF k] by (auto simp: os_safe_def)
next
  case (R_try w)
  then obtain s' where s': "try_load w s = Inr s'" "keeps s'" using try_load_keeps [OF k] by blast
  have "tokens_inv s'"
    using R_try s'(1) by (intro tokens_receiver_plain [OF t])
      (auto simp: try_load_def Let_def ranswer_def unreachableR_def split: if_splits)
  then show ?thesis by (rule os_safe_eq [OF s']) (use step R_try in simp)
next
  case R_try_cas
  have "\<not> is_token (os_state s)" using receiver_no_token [OF k] R_try_cas by simp
  then have "tokens_inv (try_cas s)"
    using R_try_cas by (intro tokens_receiver_plain [OF t]) (auto simp: try_cas_def compare_and_swap_def)
  then show ?thesis using step R_try_cas try_cas_keeps [OF k] by (auto simp: os_safe_def)
next
  case R_take
  then obtain s' where s': "try_take s = Inr s'" "keeps s'" using try_take_keeps [OF k] by blast
  have "tokens_inv s'"
    using R_take s'(1) by (intro tokens_receiver_plain [OF t]) (auto simp: try_take_def ranswer_def unreachableR_def split: option.splits)
  then show ?thesis by (rule os_safe_eq [OF s']) (use step R_take in simp)
next
  case R_disconnected
  have "tokens_inv (try_disconnected s)"
    using R_disconnected by (intro tokens_receiver_plain [OF t])
      (auto simp: try_disconnected_def ranswer_def ranswer_upgraded_def split: option.splits MyUpgrade.splits)
  then show ?thesis using step R_disconnected try_disconnected_keeps [OF k] by (auto simp: os_safe_def)
next
  case R_can
  then obtain s' where s': "can_recv s = Inr s'" "keeps s'" using can_recv_keeps [OF k] by blast
  have "tokens_inv s'"
    using R_can s'(1) by (intro tokens_receiver_plain [OF t])
      (auto simp: can_recv_def ranswer_def unreachableR_def Let_def split: if_splits)
  then show ?thesis by (rule os_safe_eq [OF s']) (use step R_can in simp)
next
  case R_can_cells
  have "tokens_inv (can_recv_cells s)"
    using R_can_cells by (intro tokens_receiver_plain [OF t])
      (auto simp: can_recv_cells_def ranswer_def ranswer_upgraded_def split: MyUpgrade.splits)
  then show ?thesis using step R_can_cells can_recv_cells_keeps [OF k] by (auto simp: os_safe_def)
next
  case R_drop
  then obtain s' where s': "drop_port s = Inr s'" "keeps s'" using drop_port_keeps [OF k] by blast
  have "\<not> is_token (os_state s)" using receiver_no_token [OF k] R_drop by simp
  then have "tokens_inv s'"
    using R_drop s'(1) by (intro tokens_receiver_plain [OF t]) (auto simp: drop_port_def unreachableR_def Let_def split: if_splits)
  then show ?thesis by (rule os_safe_eq [OF s']) (use step R_drop in simp)
next
  case R_drop_data
  then obtain s' where s': "drop_port_data s = Inr s'" "keeps s'" using drop_port_data_keeps [OF k] by blast
  have "tokens_inv s'"
    using R_drop_data s'(1) by (intro tokens_receiver_plain [OF t]) (auto simp: drop_port_data_def bindR_eq_Inr)
  then show ?thesis by (rule os_safe_eq [OF s']) (use step R_drop_data in simp)
qed (use step in auto)

lemma oneshot_step_safe:
  assumes "oneshot_inv s" "oneshot_step a s = Some r"
  shows "\<exists>s'. r = Inr s' \<and> oneshot_inv s'"
proof -
  have "keeps s" "tokens_inv s" using assms(1) by (simp_all add: oneshot_inv_iff)
  then have "os_safe r" using assms(2) sender_step_safe receiver_step_safe
    by (auto simp: oneshot_step_def split: prod.splits end_of_channel.splits)
  then show ?thesis by (auto simp: os_safe_def oneshot_inv_iff)
qed

lemma oneshot_run_safe:
  "oneshot_inv s \<Longrightarrow> oneshot_run as s = Some r \<Longrightarrow> \<exists>s'. r = Inr s' \<and> oneshot_inv s'"
proof (induction as arbitrary: s)
  case (Cons a as)
  show ?case
  proof (cases "oneshot_step a s")
    case (Some r1)
    then obtain s1 where "r1 = Inr s1" "oneshot_inv s1" using oneshot_step_safe [OF Cons.prems(1) Some] by blast
    then show ?thesis using Cons.IH Cons.prems(2) Some by simp
  qed (use Cons.prems in simp)
qed auto

lemma oneshot_reachable: "oneshot_run as oneshot_new = ret s \<Longrightarrow> oneshot_inv s"
  using oneshot_run_safe [OF oneshot_inv_new, of as "Inr s"] by auto

end
