(* ===== verification/Oneshot_Spec.thy ===== *)
theory Oneshot_Spec
  imports Oneshot_Inv
begin

section \<open>sync::mpsc::oneshot: what the two ends rely on\<close>

text \<open>
  No operation fails, no value is duplicated or forgotten, the unsafe cells are never accessed by
  both threads at once, and a receiver that sleeps can be woken.
\<close>

subsection \<open>Accesses to the cells\<close>

text \<open>The thread is about to access the data cell, or the upgrade cell.\<close>

fun s_at_data :: "('a, 'r) sender_pc \<Rightarrow> bool" where
  "s_at_data (S_send _) = True" | "s_at_data S_send_take = True" | "s_at_data _ = False"

fun s_at_upgrade :: "('a, 'r) sender_pc \<Rightarrow> bool" where
  "s_at_upgrade S_idle = True"
| "s_at_upgrade (S_send _) = True"
| "s_at_upgrade S_send_take = True"
| "s_at_upgrade (S_upgrade _) = True"
| "s_at_upgrade (S_upgrade_restore _) = True"
| "s_at_upgrade _ = False"

fun r_at_upgrade :: "receiver_pc \<Rightarrow> bool" where
  "r_at_upgrade (R_start_cells _) = True"
| "r_at_upgrade (R_abort_cells _) = True"
| "r_at_upgrade R_disconnected = True"
| "r_at_upgrade R_can_cells = True"
| "r_at_upgrade _ = False"

fun r_at_data :: "receiver_pc \<Rightarrow> bool" where
  "r_at_data R_take = True"
| "r_at_data R_drop_data = True"
| "r_at_data pc = r_at_upgrade pc"

definition data_race :: "('a, 'r) oneshot \<Rightarrow> bool" where
  "data_race s \<longleftrightarrow> s_at_data (os_sender s) \<and> r_at_data (os_receiver s) \<or>
     s_at_upgrade (os_sender s) \<and> r_at_upgrade (os_receiver s)"

lemma no_data_race:
  assumes "keeps s"
  shows "\<not> data_race s"
proof
  note k = keepsD [OF assms]
  assume race: "data_race s"
  show False
  proof (cases "r_at_upgrade (os_receiver s)")
    case True
    then have r: "os_state s = DISCONNECTED" "\<not> r_closed (os_receiver s)" using k(4) by (cases "os_receiver s"; simp)+
    then have "\<not> s_open (os_sender s)" using k(5) by blast
    then show False using race r(2) k(11) by (cases "os_sender s") (auto simp: data_race_def)
  next
    case False
    then have "s_at_data (os_sender s)" "os_receiver s = R_take \<or> os_receiver s = R_drop_data"
      using race by (cases "os_receiver s"; simp add: data_race_def)+
    then show False using k(10,11) by (cases "os_sender s") auto
  qed
qed

subsection \<open>A disconnected channel has nothing left\<close>

definition answers_inv :: "('a, 'r) oneshot \<Rightarrow> bool" where
  "answers_inv s \<longleftrightarrow>
     (\<not> r_closed (os_receiver s) \<longrightarrow> os_back s = [] \<and> os_lost s = []) \<and>
     (os_result s = Some Failed_disconnected \<longrightarrow>
        \<not> s_open (os_sender s) \<and> os_data s = None \<and> mset (os_sent s) = mset (os_got s))"

lemma answers_new: "answers_inv oneshot_new"
  by (simp add: answers_inv_def oneshot_new_def)

lemma sender_step_answers:
  assumes k: "keeps s" and inv: "answers_inv s" and step: "sender_step (os_sender s) c s = Some (Inr s')"
  shows "answers_inv s'"
proof -
  have same: "os_receiver s' = os_receiver s" "os_result s' = os_result s" "os_got s' = os_got s" "os_lost s' = os_lost s"
    using step by (cases "os_sender s";
      auto simp: sender_begin_def send_write_def send_swap_def send_back_def send_take_def upgrade_write_def upgrade_swap_def
        upgrade_restore_def drop_chan_def sender_signal_def sender_unpark_def sender_token_drop_def bindR_eq_Inr Let_def
        unreachableR_def split: oneshot_choice.splits if_splits MyUpgrade.splits)+
  have returned: "os_back s' = os_back s \<or> r_closed (os_receiver s)"
    using step keepsD(11) [OF k] by (cases "os_sender s")
      (auto simp: sender_begin_def send_write_def send_swap_def send_back_def send_take_def upgrade_write_def upgrade_swap_def
        upgrade_restore_def drop_chan_def sender_signal_def sender_unpark_def sender_token_drop_def bindR_eq_Inr Let_def
        unreachableR_def split: oneshot_choice.splits if_splits MyUpgrade.splits)
  have closed: "\<not> s_open (os_sender s') \<and> os_data s' = os_data s \<and> os_sent s' = os_sent s" if no: "\<not> s_open (os_sender s)"
  proof (cases "os_sender s")
    case (S_upgrade_restore prev)
    then show ?thesis using step by (auto simp: upgrade_restore_def)
  next
    case S_drop
    then show ?thesis using step by (auto simp: drop_chan_def Let_def split: if_splits)
  next
    case (S_signal p a)
    then show ?thesis using step no by (auto simp: sender_signal_def bindR_eq_Inr split: if_splits)
  next
    case (S_unpark p a)
    then show ?thesis using step no by (auto simp: sender_unpark_def)
  next
    case (S_token_drop p a)
    then obtain h where "s' = sgo (after_pc a) (s\<lparr>os_tokens := h\<rparr>)" "a \<noteq> After_send"
      using step no by (auto simp: sender_token_drop_def bindR_eq_Inr)
    then show ?thesis by (cases a) auto
  qed (use step no in auto)
  show ?thesis using inv same returned closed unfolding answers_inv_def by auto
qed

text \<open>What a step of the receiver does to the fields that the answers are about.\<close>

definition receiver_effect :: "('a, 'r) oneshot \<Rightarrow> ('a, 'r) oneshot \<Rightarrow> bool" where
  "receiver_effect s s' \<longleftrightarrow>
     os_sender s' = os_sender s \<and> os_sent s' = os_sent s \<and> os_back s' = os_back s \<and>
     (os_lost s' = os_lost s \<or> r_closed (os_receiver s')) \<and> (r_closed (os_receiver s) \<longrightarrow> r_closed (os_receiver s')) \<and>
     (os_data s' = os_data s \<and> os_got s' = os_got s \<or> os_data s \<noteq> None) \<and>
     (os_result s' = os_result s \<or> os_result s' \<noteq> Some Failed_disconnected \<or>
        os_receiver s = R_disconnected \<and> os_data s = None \<and> os_data s' = None \<and> os_got s' = os_got s)"

lemma receiver_step_effect:
  assumes step: "receiver_step (os_receiver s) c s = Some (Inr s')"
  shows "receiver_effect s s'"
proof (cases "os_receiver s")
  case R_idle
  then show ?thesis using step by (auto simp: receiver_effect_def receiver_begin_def split: if_splits oneshot_choice.splits wait_kind.splits)
next
  case (R_recv w)
  then show ?thesis using step by (auto simp: receiver_effect_def recv_load_def split: if_splits)
next
  case (R_tokens w)
  then show ?thesis using step by (auto simp: receiver_effect_def recv_tokens_def split: oneshot_choice.splits if_splits)
next
  case (R_block w p)
  have "(\<exists>pc. s' = rgo pc s) \<or> (\<exists>pc v. s' = rgo pc (s\<lparr>os_state := v\<rparr>))"
    using step R_block
    by (cases w; cases "os_state s" rule: state_cases)
      (auto simp: recv_block_def start_selection_def compare_and_swap_def unreachableR_def)
  then show ?thesis using R_block by (auto simp: receiver_effect_def)
next
  case (R_unblocked w p)
  then show ?thesis using step by (cases w) (auto simp: receiver_effect_def recv_unblocked_def ranswer_def bindR_eq_Inr split: if_splits)
next
  case (R_start_cells p)
  then show ?thesis using step by (auto simp: receiver_effect_def start_selection_cells_def ranswer_upgraded_def bindR_eq_Inr split: if_splits MyUpgrade.splits)
next
  case (R_wait w p)
  then show ?thesis using step by (auto simp: receiver_effect_def wait_load_def bindR_eq_Inr split: if_splits)
next
  case (R_park w p)
  then show ?thesis using step by (auto simp: receiver_effect_def wait_park_def split: if_splits)
next
  case (R_waited w p)
  then show ?thesis using step by (cases w) (auto simp: receiver_effect_def recv_waited_def bindR_eq_Inr Let_def split: if_splits)
next
  case (R_gave_up w p)
  then show ?thesis using step by (auto simp: receiver_effect_def recv_gave_up_def bindR_eq_Inr split: if_splits)
next
  case (R_abort w)
  then show ?thesis using step by (auto simp: receiver_effect_def abort_load_def Let_def split: if_splits)
next
  case (R_abort_cas w p)
  then show ?thesis using step by (auto simp: receiver_effect_def abort_cas_def compare_and_swap_def split: if_splits)
next
  case (R_abort_end w v)
  then show ?thesis using step by (cases w) (auto simp: receiver_effect_def abort_end_def abort_answer_def ranswer_def bindR_eq_Inr unreachableR_def split: if_splits)
next
  case (R_abort_cells w)
  then show ?thesis using step by (cases w) (auto simp: receiver_effect_def abort_cells_def abort_answer_def ranswer_def ranswer_upgraded_def split: if_splits MyUpgrade.splits)
next
  case (R_try w)
  then show ?thesis using step by (auto simp: receiver_effect_def try_load_def ranswer_def unreachableR_def Let_def split: if_splits)
next
  case R_try_cas
  then show ?thesis using step by (auto simp: receiver_effect_def try_cas_def compare_and_swap_def split: if_splits)
next
  case R_take
  then show ?thesis using step by (auto simp: receiver_effect_def try_take_def ranswer_def unreachableR_def split: if_splits option.splits)
next
  case R_disconnected
  then show ?thesis using step by (auto simp: receiver_effect_def try_disconnected_def ranswer_def ranswer_upgraded_def split: if_splits option.splits MyUpgrade.splits)
next
  case R_can
  then show ?thesis using step by (auto simp: receiver_effect_def can_recv_def ranswer_def unreachableR_def Let_def split: if_splits)
next
  case R_can_cells
  then show ?thesis using step by (auto simp: receiver_effect_def can_recv_cells_def ranswer_def ranswer_upgraded_def split: if_splits MyUpgrade.splits)
next
  case R_drop
  then show ?thesis using step by (auto simp: receiver_effect_def drop_port_def unreachableR_def Let_def split: if_splits)
next
  case R_drop_data
  then show ?thesis using step by (auto simp: receiver_effect_def drop_port_data_def bindR_eq_Inr split: if_splits)
qed (use step in auto)

lemma receiver_step_answers:
  assumes k: "keeps s" and inv: "answers_inv s" and step: "receiver_step (os_receiver s) c s = Some (Inr s')"
  shows "answers_inv s'"
proof -
  note kd = keepsD [OF k]
  have final: "\<not> s_open (os_sender s) \<and> mset (os_sent s) = mset (os_got s)"
    if "os_receiver s = R_disconnected" "os_data s = None"
  proof -
    have "os_state s = DISCONNECTED" using kd(4) that(1) by simp
    then have open_s: "\<not> s_open (os_sender s)" using kd(5) that(1) by auto
    moreover have "os_back s = []" "os_lost s = []" using inv that(1) by (simp_all add: answers_inv_def)
    ultimately show ?thesis using kd(12) that(2) not_open(2) [OF open_s] by simp
  qed
  show ?thesis using inv receiver_step_effect [OF step] final unfolding answers_inv_def receiver_effect_def by auto
qed

lemma oneshot_run_answers:
  "oneshot_inv s \<Longrightarrow> answers_inv s \<Longrightarrow> oneshot_run as s = ret s' \<Longrightarrow> answers_inv s'"
proof (induction as arbitrary: s)
  case (Cons a as)
  from Cons.prems(3) obtain s1 where s1: "oneshot_step a s = ret s1" "oneshot_run as s1 = ret s'"
    by (auto simp: bindO_eq_ret)
  have "oneshot_inv s1" using oneshot_step_safe [OF Cons.prems(1) s1(1)] by auto
  moreover have "answers_inv s1"
    using s1(1) Cons.prems(1,2) sender_step_answers receiver_step_answers
    by (auto simp: oneshot_step_def oneshot_inv_iff split: prod.splits end_of_channel.splits)
  ultimately show ?case using Cons.IH s1(2) by blast
qed simp

subsection \<open>A sleeping receiver can be woken\<close>

text \<open>
  A receiver that sleeps without a token for its thread is still registered with a sender that has
  not gone, or the sender stands before the signal or before the unpark.
\<close>

lemma sleeping_registered:
  assumes inv: "oneshot_inv s" and pc: "os_receiver s = R_park k p" and no: "\<not> os_unparked s"
  shows "os_state s = p \<and> os_sender s \<noteq> S_gone \<or> s_signalling (os_sender s) = Some p \<or> s_unparking (os_sender s) = Some p"
proof -
  have kt: "keeps s" "tokens_inv s" using inv by (simp_all add: oneshot_inv_iff)
  obtain t where t: "is_token p" "token_ok p (Some t) s" using token_live [OF kt(2), of p] pc by auto
  have "s_signalling (os_sender s) = Some p \<or> s_unparking (os_sender s) = Some p" if "os_state s \<noteq> p"
    using t(2) pc no that by (cases "woken_flag t") (auto simp: token_ok_def)
  moreover have "os_sender s \<noteq> S_gone" if "os_state s = p"
    using keepsD(6) [OF kt(1)] that t(1) by auto
  ultimately show ?thesis by blast
qed

text \<open>
  C36: a oneshot packet is safe and loses nothing, for every interleaving of one sender (sends,
  upgrades, the drop) and one receiver (blocking, timed and polling receives, selections, the
  drop), with spurious wakeups and timeouts at any point. No schedule reaches a failed assertion,
  unreachable code, an \<open>unwrap\<close> of nothing or a freed token, and when both ends are gone the drop
  of the packet succeeds too. The threads are never at accesses to the same unsafe cell. Every
  value a send began with is in exactly one place: received, given back to the sender, destroyed
  with the port, in the cell or on its way there. A receiver that is told that the channel is
  disconnected has received everything that was sent. A receiver that sleeps is registered with a
  sender that is still there, or that sender is about to signal and unpark it.
\<close>

theorem Oneshot_safe_and_complete:
  "oneshot_run as oneshot_new \<noteq> Some (Inl f) \<and>
   (oneshot_run as oneshot_new = ret s \<longrightarrow>
      \<not> data_race s \<and>
      (os_sender s = S_gone \<longrightarrow> packet_drop s = Inr ()) \<and>
      mset (os_sent s) = mset (os_got s @ os_back s @ os_lost s @ cell_list (os_data s) @ s_holds (os_sender s)) \<and>
      (os_result s = Some Failed_disconnected \<longrightarrow> mset (os_sent s) = mset (os_got s)) \<and>
      (os_receiver s = R_park k p \<longrightarrow> \<not> os_unparked s \<longrightarrow>
         os_state s = p \<and> os_sender s \<noteq> S_gone \<or> s_signalling (os_sender s) = Some p \<or> s_unparking (os_sender s) = Some p))"
proof (intro conjI impI)
  show "oneshot_run as oneshot_new \<noteq> Some (Inl f)"
    using oneshot_run_safe [OF oneshot_inv_new, of as] by fastforce
  assume run: "oneshot_run as oneshot_new = ret s"
  have inv: "oneshot_inv s" by (rule oneshot_reachable [OF run])
  then have k: "keeps s" by (simp add: oneshot_inv_iff)
  have a: "answers_inv s" by (rule oneshot_run_answers [OF oneshot_inv_new answers_new run])
  show "\<not> data_race s" by (rule no_data_race [OF k])
  show "packet_drop s = Inr ()" if "os_sender s = S_gone"
    using keepsD(6) [OF k] that by (simp add: packet_drop_def)
  show "mset (os_sent s) = mset (os_got s @ os_back s @ os_lost s @ cell_list (os_data s) @ s_holds (os_sender s))"
    by (rule keepsD(12) [OF k])
  show "mset (os_sent s) = mset (os_got s)" if "os_result s = Some Failed_disconnected"
    using a that by (simp add: answers_inv_def)
  show "os_state s = p \<and> os_sender s \<noteq> S_gone \<or> s_signalling (os_sender s) = Some p \<or> s_unparking (os_sender s) = Some p"
    if "os_receiver s = R_park k p" "\<not> os_unparked s"
    by (rule sleeping_registered [OF inv that])
qed

lemmas oneshot_exec = oneshot_step_def oneshot_new_def sender_begin_def sent_on_def send_write_def send_swap_def send_take_def
  send_back_def drop_chan_def sender_signal_def sender_unpark_def sender_token_drop_def receiver_begin_def recv_load_def
  recv_tokens_def recv_block_def wait_load_def wait_park_def recv_waited_def try_load_def try_cas_def try_take_def
  try_disconnected_def ranswer_def token_signal_def token_drop_def token_at_def tokens_new_def fresh_token_def
  compare_and_swap_def oneshot_consts Let_def

text \<open>
  The receiver goes to sleep, the sender sends 7 and hangs up, and the receiver is woken, takes the
  value and is told that the channel is disconnected.
\<close>

theorem Oneshot_safe_and_complete_witness:
  "\<exists>s :: (nat, nat) oneshot. oneshot_run [(Receiver, Begin_recv Recv), (Receiver, Go), (Receiver, Alloc 64), (Receiver, Go), (Receiver, Go),
      (Sender, Send 7), (Sender, Go), (Sender, Go), (Sender, Go), (Sender, Go), (Sender, Go), (Sender, Drop_chan), (Sender, Go),
      (Receiver, Go), (Receiver, Go), (Receiver, Go), (Receiver, Go), (Receiver, Go),
      (Receiver, Try_recv), (Receiver, Go), (Receiver, Go)] oneshot_new = ret s \<and>
    os_result s = Some Failed_disconnected \<and> os_got s = [7] \<and> mset (os_sent s) = mset (os_got s) \<and> packet_drop s = Inr ()"
proof -
  let ?as = "[(Receiver, Begin_recv Recv), (Receiver, Go), (Receiver, Alloc 64), (Receiver, Go), (Receiver, Go),
      (Sender, Send 7), (Sender, Go), (Sender, Go), (Sender, Go), (Sender, Go), (Sender, Go), (Sender, Drop_chan), (Sender, Go),
      (Receiver, Go), (Receiver, Go), (Receiver, Go), (Receiver, Go), (Receiver, Go),
      (Receiver, Try_recv), (Receiver, Go), (Receiver, Go)] :: (end_of_channel \<times> (nat, nat) oneshot_choice) list"
  obtain s :: "(nat, nat) oneshot" where s: "oneshot_run ?as oneshot_new = ret s" "os_result s = Some Failed_disconnected"
    "os_got s = [7]" "os_sender s = S_gone"
    by (simp add: oneshot_exec)
  then show ?thesis using Oneshot_safe_and_complete [of ?as undefined s undefined undefined] by blast
qed

end
