(* ===== verification/Redox_Lock.thy ===== *)
theory Redox_Lock
  imports Thread_Park
begin

section \<open>Locks on futexes (src/sys/redox/mutex.rs, condvar.rs)\<close>

text \<open>
  Any number of threads use one mutex and one condition variable of \<open>sys::redox\<close>, interleaved at their atomic operations and
  system calls. The mutex is a word: 0 free, 1 held, 2 held with threads that may sleep. The system call \<open>futex\<close> is
  a primitive with its documented behaviour: \<open>FUTEX_WAIT\<close> compares the word and puts the thread into the queue of its address in one
  step, and can end without a wakeup; \<open>FUTEX_WAKE\<close> wakes one thread of the queue, if there is one; \<open>FUTEX_REQUEUE\<close> wakes one and
  moves the others to another queue. Which thread is woken is a choice of the scheduler.
\<close>

subsection \<open>State\<close>

text \<open>How a call goes on after it has taken the mutex, or released it.\<close>

datatype lock_cont = To_held | Wait_ends bool "32 word" "32 word"  \<comment> \<open>\<open>wait_inner\<close>: timed, \<open>seq_before\<close>, \<open>seq_after\<close>\<close>
datatype unlock_cont = To_idle | To_cond bool | To_unwound

text \<open>Where a sleeping thread goes on: in the loop of the mutex, or in \<open>wait_inner\<close>.\<close>

datatype sleeper = In_lock lock_cont | In_cond bool "32 word"

datatype redox_pc =
    Idle | Held | Unwound
  | Trying
  | Spin nat                    \<comment> \<open>before the \<open>cxchg\<close>, with so many iterations left\<close>
  | Swap                        \<comment> \<open>before \<open>atomic_xchg(m, 2)\<close>\<close>
  | Wait_m lock_cont            \<comment> \<open>before \<open>FUTEX_WAIT\<close>\<close>
  | Asleep sleeper
  | Reswap lock_cont            \<comment> \<open>before the \<open>xchg\<close> after the wait\<close>
  | Unlock_read unlock_cont     \<comment> \<open>before \<open>*m == 2\<close>\<close>
  | Unlock_store unlock_cont    \<comment> \<open>before \<open>*m = 0\<close>\<close>
  | Unlock_swap unlock_cont     \<comment> \<open>before \<open>atomic_xchg(m, 0)\<close>\<close>
  | Unlock_look nat unlock_cont \<comment> \<open>before \<open>*m != 0\<close>\<close>
  | Unlock_mark nat unlock_cont \<comment> \<open>before \<open>atomic_cxchg(m, 1, 2)\<close>\<close>
  | Unlock_wake unlock_cont     \<comment> \<open>before \<open>FUTEX_WAKE\<close>\<close>
  | Notify_read bool            \<comment> \<open>\<open>notify_all\<close>, before \<open>*lock\<close>; the flag: the thread holds the mutex\<close>
  | Notify_add bool bool        \<comment> \<open>before \<open>atomic_xadd(seq, 1)\<close>; the first flag: \<open>notify_all\<close>\<close>
  | Notify_futex bool bool
  | Cv_read bool                \<comment> \<open>\<open>wait_inner\<close>, before \<open>*lock != mutex\<close>; the flag: a timeout\<close>
  | Cv_set bool
  | Cv_load bool                \<comment> \<open>before \<open>seq_before\<close>\<close>
  | Cv_wait bool "32 word"      \<comment> \<open>before \<open>FUTEX_WAIT\<close>\<close>
  | Cv_after bool "32 word"     \<comment> \<open>before \<open>seq_after\<close>\<close>

record redox_sys =
  m_word :: "32 word"
  m_queue :: "tid list"
  cv_seq :: "32 word"
  cv_lock :: bool       \<comment> \<open>the field \<open>lock\<close> of the condition variable points to the mutex; else it is null\<close>
  cv_queue :: "tid list"
  rx_pc :: "tid \<Rightarrow> redox_pc"

definition redox_new :: redox_sys where
  "redox_new = \<lparr>m_word = 0, m_queue = [], cv_seq = 0, cv_lock = False, cv_queue = [], rx_pc = (\<lambda>_. Idle)\<rparr>"

datatype redox_choice =
  Lock | Try_lock | Unlock | Notify_one | Notify_all | Cond_wait bool | Wakes tid | Ends_early | Next

definition at_pc :: "tid \<Rightarrow> redox_pc \<Rightarrow> redox_sys \<Rightarrow> redox_sys" where
  "at_pc i pc s = s\<lparr>rx_pc := (rx_pc s)(i := pc)\<rparr>"

subsection \<open>The system call\<close>

definition sleep_m :: "tid \<Rightarrow> sleeper \<Rightarrow> redox_sys \<Rightarrow> redox_sys" where
  "sleep_m i w s = at_pc i (Asleep w) (s\<lparr>m_queue := m_queue s @ [i]\<rparr>)"

definition sleep_c :: "tid \<Rightarrow> sleeper \<Rightarrow> redox_sys \<Rightarrow> redox_sys" where
  "sleep_c i w s = at_pc i (Asleep w) (s\<lparr>cv_queue := cv_queue s @ [i]\<rparr>)"

definition resume :: "redox_pc \<Rightarrow> redox_pc" where
  "resume pc = (case pc of Asleep (In_lock k) \<Rightarrow> Reswap k | Asleep (In_cond timed b) \<Rightarrow> Cv_after timed b | pc \<Rightarrow> pc)"

definition wake_up :: "tid \<Rightarrow> redox_sys \<Rightarrow> redox_sys" where
  "wake_up j s =
     at_pc j (resume (rx_pc s j)) (s\<lparr>m_queue := remove1 j (m_queue s), cv_queue := remove1 j (cv_queue s)\<rparr>)"

definition futex_wake_m :: "redox_choice \<Rightarrow> redox_sys \<Rightarrow> redox_sys option" where
  "futex_wake_m c s =
     (if m_queue s = [] then Some s
      else case c of Wakes j \<Rightarrow> if j \<in> set (m_queue s) then Some (wake_up j s) else None | _ \<Rightarrow> None)"

definition futex_wake_c :: "redox_choice \<Rightarrow> redox_sys \<Rightarrow> redox_sys option" where
  "futex_wake_c c s =
     (if cv_queue s = [] then Some s
      else case c of Wakes j \<Rightarrow> if j \<in> set (cv_queue s) then Some (wake_up j s) else None | _ \<Rightarrow> None)"

definition futex_requeue :: "redox_choice \<Rightarrow> redox_sys \<Rightarrow> redox_sys option" where
  "futex_requeue c s =
     map_option (\<lambda>s. s\<lparr>m_queue := m_queue s @ cv_queue s, cv_queue := []\<rparr>) (futex_wake_c c s)"

subsection \<open>The mutex\<close>

definition SPINS :: nat where "SPINS = 100"

text \<open>
  \<open>mutex_lock\<close> ends, or the loop in \<open>wait_inner\<close>; then \<open>wait\<close> asserts that it has been notified. The guard of the mutex unlocks it
  when the assertion unwinds.
\<close>

definition acquired :: "tid \<Rightarrow> lock_cont \<Rightarrow> redox_sys \<Rightarrow> redox_sys" where
  "acquired i k s =
     (case k of
        To_held \<Rightarrow> at_pc i Held s
      | Wait_ends timed before after \<Rightarrow>
          if timed \<or> before \<noteq> after then at_pc i Held s else at_pc i (Unlock_read To_unwound) s)"

definition released :: "tid \<Rightarrow> unlock_cont \<Rightarrow> redox_sys \<Rightarrow> redox_sys" where
  "released i k s =
     at_pc i (case k of To_idle \<Rightarrow> Idle | To_cond timed \<Rightarrow> Cv_load timed | To_unwound \<Rightarrow> Unwound) s"

definition mutex_try_lock :: "tid \<Rightarrow> redox_sys \<Rightarrow> redox_sys" where
  "mutex_try_lock i s =
     (case compare_and_swap 0 1 (m_word s) of (old, v) \<Rightarrow>
        at_pc i (if old = 0 then Held else Idle) (s\<lparr>m_word := v\<rparr>))"

definition lock_spin :: "tid \<Rightarrow> nat \<Rightarrow> redox_sys \<Rightarrow> redox_sys" where
  "lock_spin i n s =
     (case compare_and_swap 0 1 (m_word s) of (c, v) \<Rightarrow>
        if c = 0 then acquired i To_held (s\<lparr>m_word := v\<rparr>)
        else if n > 1 then at_pc i (Spin (n - 1)) (s\<lparr>m_word := v\<rparr>)
        else if c = 1 then at_pc i Swap (s\<lparr>m_word := v\<rparr>)
        else at_pc i (Wait_m To_held) (s\<lparr>m_word := v\<rparr>))"

text \<open>\<open>atomic_xchg(m, 2)\<close> and the test of the loop \<open>while c != 0\<close>.\<close>

definition lock_swap :: "tid \<Rightarrow> lock_cont \<Rightarrow> redox_sys \<Rightarrow> redox_sys" where
  "lock_swap i k s =
     (let c = m_word s; s = s\<lparr>m_word := 2\<rparr> in if c = 0 then acquired i k s else at_pc i (Wait_m k) s)"

definition lock_wait :: "tid \<Rightarrow> lock_cont \<Rightarrow> redox_sys \<Rightarrow> redox_sys" where
  "lock_wait i k s = (if m_word s = 2 then sleep_m i (In_lock k) s else at_pc i (Reswap k) s)"

definition unlock_read :: "tid \<Rightarrow> unlock_cont \<Rightarrow> redox_sys \<Rightarrow> redox_sys" where
  "unlock_read i k s = at_pc i (if m_word s = 2 then Unlock_store k else Unlock_swap k) s"

definition unlock_store :: "tid \<Rightarrow> unlock_cont \<Rightarrow> redox_sys \<Rightarrow> redox_sys" where
  "unlock_store i k s = at_pc i (Unlock_look SPINS k) (s\<lparr>m_word := 0\<rparr>)"

definition unlock_swap :: "tid \<Rightarrow> unlock_cont \<Rightarrow> redox_sys \<Rightarrow> redox_sys" where
  "unlock_swap i k s =
     (let old = m_word s; s = s\<lparr>m_word := 0\<rparr> in
      if old = 1 then released i k s else at_pc i (Unlock_look SPINS k) s)"

definition unlock_next :: "tid \<Rightarrow> nat \<Rightarrow> unlock_cont \<Rightarrow> redox_sys \<Rightarrow> redox_sys" where
  "unlock_next i n k s = at_pc i (if n > 1 then Unlock_look (n - 1) k else Unlock_wake k) s"

definition unlock_look :: "tid \<Rightarrow> nat \<Rightarrow> unlock_cont \<Rightarrow> redox_sys \<Rightarrow> redox_sys" where
  "unlock_look i n k s = (if m_word s \<noteq> 0 then at_pc i (Unlock_mark n k) s else unlock_next i n k s)"

definition unlock_mark :: "tid \<Rightarrow> nat \<Rightarrow> unlock_cont \<Rightarrow> redox_sys \<Rightarrow> redox_sys" where
  "unlock_mark i n k s =
     (case compare_and_swap 1 2 (m_word s) of (old, v) \<Rightarrow>
        let s = s\<lparr>m_word := v\<rparr> in if old \<noteq> 0 then released i k s else unlock_next i n k s)"

definition unlock_wake :: "tid \<Rightarrow> unlock_cont \<Rightarrow> redox_choice \<Rightarrow> redox_sys \<Rightarrow> redox_sys option" where
  "unlock_wake i k c s = map_option (released i k) (futex_wake_m c s)"

subsection \<open>The condition variable\<close>

definition notify_ends :: "tid \<Rightarrow> bool \<Rightarrow> redox_sys \<Rightarrow> redox_sys" where
  "notify_ends i held s = at_pc i (if held then Held else Idle) s"

definition notify_all_read :: "tid \<Rightarrow> bool \<Rightarrow> redox_sys \<Rightarrow> redox_sys" where
  "notify_all_read i held s = (if \<not> cv_lock s then notify_ends i held s else at_pc i (Notify_add True held) s)"

definition notify_add :: "tid \<Rightarrow> bool \<Rightarrow> bool \<Rightarrow> redox_sys \<Rightarrow> redox_sys" where
  "notify_add i all held s = at_pc i (Notify_futex all held) (s\<lparr>cv_seq := cv_seq s + 1\<rparr>)"

definition notify_futex :: "tid \<Rightarrow> bool \<Rightarrow> bool \<Rightarrow> redox_choice \<Rightarrow> redox_sys \<Rightarrow> redox_sys option" where
  "notify_futex i all held c s = map_option (notify_ends i held) (if all then futex_requeue c s else futex_wake_c c s)"

definition cond_read :: "tid \<Rightarrow> bool \<Rightarrow> redox_sys \<Rightarrow> redox_sys" where
  "cond_read i timed s = at_pc i (if \<not> cv_lock s then Cv_set timed else Unlock_read (To_cond timed)) s"

definition cond_set :: "tid \<Rightarrow> bool \<Rightarrow> redox_sys \<Rightarrow> redox_sys" where
  "cond_set i timed s = at_pc i (Unlock_read (To_cond timed)) (s\<lparr>cv_lock := True\<rparr>)"

definition cond_load :: "tid \<Rightarrow> bool \<Rightarrow> redox_sys \<Rightarrow> redox_sys" where
  "cond_load i timed s = at_pc i (Cv_wait timed (cv_seq s)) s"

definition cond_futex :: "tid \<Rightarrow> bool \<Rightarrow> 32 word \<Rightarrow> redox_sys \<Rightarrow> redox_sys" where
  "cond_futex i timed before s =
     (if cv_seq s = before then sleep_c i (In_cond timed before) s else at_pc i (Cv_after timed before) s)"

definition cond_after :: "tid \<Rightarrow> bool \<Rightarrow> 32 word \<Rightarrow> redox_sys \<Rightarrow> redox_sys" where
  "cond_after i timed before s = at_pc i (Reswap (Wait_ends timed before (cv_seq s))) s"

subsection \<open>Steps and runs\<close>

definition redox_begin :: "bool \<Rightarrow> tid \<Rightarrow> redox_choice \<Rightarrow> redox_sys \<Rightarrow> redox_sys option" where
  "redox_begin held i c s =
     (case c of
        Lock \<Rightarrow> if held then None else Some (at_pc i (Spin SPINS) s)
      | Try_lock \<Rightarrow> if held then None else Some (at_pc i Trying s)
      | Unlock \<Rightarrow> if held then Some (at_pc i (Unlock_read To_idle) s) else None
      | Cond_wait timed \<Rightarrow> if held then Some (at_pc i (Cv_read timed) s) else None
      | Notify_one \<Rightarrow> Some (at_pc i (Notify_add False held) s)
      | Notify_all \<Rightarrow> Some (at_pc i (Notify_read held) s)
      | _ \<Rightarrow> None)"

fun redox_step_at :: "redox_pc \<Rightarrow> tid \<Rightarrow> redox_choice \<Rightarrow> redox_sys \<Rightarrow> redox_sys option" where
  "redox_step_at Idle i c s = redox_begin False i c s"
| "redox_step_at Held i c s = redox_begin True i c s"
| "redox_step_at Unwound i c s = None"
| "redox_step_at Trying i c s = Some (mutex_try_lock i s)"
| "redox_step_at (Spin n) i c s = Some (lock_spin i n s)"
| "redox_step_at Swap i c s = Some (lock_swap i To_held s)"
| "redox_step_at (Wait_m k) i c s = Some (lock_wait i k s)"
| "redox_step_at (Asleep w) i c s = (if c = Ends_early then Some (wake_up i s) else None)"
| "redox_step_at (Reswap k) i c s = Some (lock_swap i k s)"
| "redox_step_at (Unlock_read k) i c s = Some (unlock_read i k s)"
| "redox_step_at (Unlock_store k) i c s = Some (unlock_store i k s)"
| "redox_step_at (Unlock_swap k) i c s = Some (unlock_swap i k s)"
| "redox_step_at (Unlock_look n k) i c s = Some (unlock_look i n k s)"
| "redox_step_at (Unlock_mark n k) i c s = Some (unlock_mark i n k s)"
| "redox_step_at (Unlock_wake k) i c s = unlock_wake i k c s"
| "redox_step_at (Notify_read held) i c s = Some (notify_all_read i held s)"
| "redox_step_at (Notify_add all held) i c s = Some (notify_add i all held s)"
| "redox_step_at (Notify_futex all held) i c s = notify_futex i all held c s"
| "redox_step_at (Cv_read timed) i c s = Some (cond_read i timed s)"
| "redox_step_at (Cv_set timed) i c s = Some (cond_set i timed s)"
| "redox_step_at (Cv_load timed) i c s = Some (cond_load i timed s)"
| "redox_step_at (Cv_wait timed before) i c s = Some (cond_futex i timed before s)"
| "redox_step_at (Cv_after timed before) i c s = Some (cond_after i timed before s)"

definition redox_step :: "tid \<times> redox_choice \<Rightarrow> redox_sys \<Rightarrow> redox_sys option" where
  "redox_step a s = redox_step_at (rx_pc s (fst a)) (fst a) (snd a) s"

fun redox_run :: "(tid \<times> redox_choice) list \<Rightarrow> redox_sys \<Rightarrow> redox_sys option" where
  "redox_run [] s = Some s"
| "redox_run (a # as) s = (case redox_step a s of None \<Rightarrow> None | Some s' \<Rightarrow> redox_run as s')"

end
