(* ===== verification/Redox_Lock_Spec.thy ===== *)
theory Redox_Lock_Spec
  imports Redox_Lock
begin

section \<open>Locks on futexes: exclusion, and which wakeups are lost\<close>

text \<open>
  The invariant has three parts: the word tells whether the mutex is held, and at most one thread holds it; the queues of the
  system call hold exactly the sleeping threads; and while a thread sleeps on the mutex, the word is 2 or some thread is on
  its way to wake a sleeper or to set the word to 2.
\<close>

subsection \<open>The invariant\<close>

fun holds_m :: "redox_pc \<Rightarrow> bool" where
  "holds_m Held = True"
| "holds_m (Unlock_read _) = True"
| "holds_m (Unlock_store _) = True"
| "holds_m (Unlock_swap _) = True"
| "holds_m (Notify_read h) = h"
| "holds_m (Notify_add _ h) = h"
| "holds_m (Notify_futex _ h) = h"
| "holds_m (Cv_read _) = True"
| "holds_m (Cv_set _) = True"
| "holds_m _ = False"

fun will_wake :: "redox_pc \<Rightarrow> bool" where
  "will_wake (Reswap _) = True"
| "will_wake (Unlock_look _ _) = True"
| "will_wake (Unlock_mark _ _) = True"
| "will_wake (Unlock_wake _) = True"
| "will_wake (Cv_after _ _) = True"
| "will_wake _ = False"

fun asleep :: "redox_pc \<Rightarrow> bool" where
  "asleep (Asleep _) = True"
| "asleep _ = False"

definition owned :: "redox_sys \<Rightarrow> bool" where
  "owned s \<longleftrightarrow> (\<exists>h. (\<forall>i. holds_m (rx_pc s i) \<longleftrightarrow> h = Some i) \<and> (m_word s = 0 \<longleftrightarrow> h = None)) \<and>
     (m_word s = 0 \<or> m_word s = 1 \<or> m_word s = 2)"

definition queues_ok :: "redox_sys \<Rightarrow> bool" where
  "queues_ok s \<longleftrightarrow> distinct (m_queue s @ cv_queue s) \<and> (\<forall>i. i \<in> set (m_queue s @ cv_queue s) \<longleftrightarrow> asleep (rx_pc s i))"

definition contended :: "redox_sys \<Rightarrow> bool" where
  "contended s \<longleftrightarrow> m_queue s \<noteq> [] \<longrightarrow> m_word s = 2 \<or> (\<exists>u. will_wake (rx_pc s u))"

definition redox_inv :: "redox_sys \<Rightarrow> bool" where
  "redox_inv s \<longleftrightarrow> owned s \<and> queues_ok s \<and> contended s"

lemma redox_inv_new: "redox_inv redox_new"
  by (simp add: redox_inv_def owned_def queues_ok_def contended_def redox_new_def)

lemma at_pc_simps [simp]:
  "m_word (at_pc i pc s) = m_word s" "m_queue (at_pc i pc s) = m_queue s" "cv_queue (at_pc i pc s) = cv_queue s"
  "cv_seq (at_pc i pc s) = cv_seq s" "cv_lock (at_pc i pc s) = cv_lock s"
  "rx_pc (at_pc i pc s) = (rx_pc s)(i := pc)"
  by (simp_all add: at_pc_def)

lemma resume_pc [simp]: "asleep pc \<Longrightarrow> will_wake (resume pc)" "asleep pc \<Longrightarrow> \<not> holds_m (resume pc)" "\<not> asleep (resume pc)"
  by (auto simp: resume_def split: redox_pc.splits sleeper.splits elim!: asleep.elims)

lemma asleep_not [simp]: "asleep pc \<Longrightarrow> \<not> holds_m pc" "asleep pc \<Longrightarrow> \<not> will_wake pc"
  by (cases pc; simp)+

subsection \<open>Each part is kept\<close>

text \<open>The threads that hold the mutex: nothing, the word, an acquisition, a release.\<close>

lemma owned_same: "owned s \<Longrightarrow> m_word s' = m_word s \<Longrightarrow> (\<And>j. holds_m (rx_pc s' j) = holds_m (rx_pc s j)) \<Longrightarrow> owned s'"
  by (simp add: owned_def)

lemma owned_word:
  "owned s \<Longrightarrow> m_word s \<noteq> 0 \<Longrightarrow> m_word s' = 1 \<or> m_word s' = 2 \<Longrightarrow> (\<And>j. holds_m (rx_pc s' j) = holds_m (rx_pc s j)) \<Longrightarrow> owned s'"
  by (auto simp: owned_def)

lemma owned_acquire:
  "owned s \<Longrightarrow> m_word s = 0 \<Longrightarrow> m_word s' = 1 \<or> m_word s' = 2 \<Longrightarrow> rx_pc s' = (rx_pc s)(i := pc) \<Longrightarrow> holds_m pc \<Longrightarrow> owned s'"
  by (auto simp: owned_def intro: exI [of _ "Some i"])

lemma owned_release:
  "owned s \<Longrightarrow> holds_m (rx_pc s i) \<Longrightarrow> m_word s' = 0 \<Longrightarrow> rx_pc s' = (rx_pc s)(i := pc) \<Longrightarrow> \<not> holds_m pc \<Longrightarrow> owned s'"
  by (auto simp: owned_def intro: exI [of _ "None :: nat option"])

lemma holder_word: "owned s \<Longrightarrow> holds_m (rx_pc s i) \<Longrightarrow> m_word s = 1 \<or> m_word s = 2"
  by (auto simp: owned_def)

lemma holder_unique: "owned s \<Longrightarrow> holds_m (rx_pc s i) \<Longrightarrow> holds_m (rx_pc s j) \<Longrightarrow> i = j"
  by (auto simp: owned_def)

lemma queues_same:
  "queues_ok s \<Longrightarrow> m_queue s' = m_queue s \<Longrightarrow> cv_queue s' = cv_queue s \<Longrightarrow> (\<And>j. asleep (rx_pc s' j) = asleep (rx_pc s j)) \<Longrightarrow> queues_ok s'"
  by (simp add: queues_ok_def)

lemma queues_sleep:
  "queues_ok s \<Longrightarrow> \<not> asleep (rx_pc s i) \<Longrightarrow> queues_ok (sleep_m i w s) \<and> queues_ok (sleep_c i w s)"
  by (auto simp: queues_ok_def sleep_m_def sleep_c_def)

lemma queues_wake:
  assumes "queues_ok s" "asleep (rx_pc s j)"
  shows "queues_ok (wake_up j s)"
  using assms unfolding queues_ok_def by (auto simp: wake_up_def distinct_remove1 dest: in_set_remove1 [THEN iffD1])

lemma queues_requeue: "queues_ok s \<Longrightarrow> queues_ok (s\<lparr>m_queue := m_queue s @ cv_queue s, cv_queue := []\<rparr>)"
  by (simp add: queues_ok_def)

lemma queued_asleep: "queues_ok s \<Longrightarrow> i \<in> set (m_queue s) \<or> i \<in> set (cv_queue s) \<Longrightarrow> asleep (rx_pc s i)"
  by (auto simp: queues_ok_def)

lemma owned_wake: "owned s \<Longrightarrow> asleep (rx_pc s j) \<Longrightarrow> owned (wake_up j s)"
  by (rule owned_same) (auto simp: wake_up_def)

subsection \<open>The kinds of steps\<close>

lemma holds_not_wake [simp]: "holds_m pc \<Longrightarrow> \<not> will_wake pc" "holds_m pc \<Longrightarrow> \<not> asleep pc"
  by (cases pc; simp)+

lemma inv_keep:
  assumes "redox_inv s" "\<not> asleep (rx_pc s i)" "\<not> asleep (rx_pc s' i)" "holds_m (rx_pc s' i) = holds_m (rx_pc s i)"
    and "will_wake (rx_pc s i) \<Longrightarrow> will_wake (rx_pc s' i) \<or> m_word s' = 2"
    and "m_word s' = m_word s \<or> m_word s \<noteq> 0 \<and> m_word s' = 2"
    and "m_queue s' = m_queue s" "cv_queue s' = cv_queue s" "\<And>j. j \<noteq> i \<Longrightarrow> rx_pc s' j = rx_pc s j"
  shows "redox_inv s'"
  unfolding redox_inv_def
proof (intro conjI)
  have o: "owned s" and q: "queues_ok s" and c: "contended s" using assms(1) by (simp_all add: redox_inv_def)
  have h: "holds_m (rx_pc s' j) = holds_m (rx_pc s j)" for j using assms(4,9) by (cases "j = i") auto
  show "owned s'" using assms(6) owned_same [OF o _ h] owned_word [OF o _ _ h] by auto
  have "asleep (rx_pc s' j) = asleep (rx_pc s j)" for j using assms(2,3,9) by (cases "j = i") auto
  then show "queues_ok s'" by (intro queues_same [OF q assms(7,8)])
  have "will_wake (rx_pc s j) \<Longrightarrow> will_wake (rx_pc s' j) \<or> m_word s' = 2" for j using assms(5,9) by (cases "j = i") auto
  then show "contended s'" using c assms(6,7) unfolding contended_def by metis
qed

lemma inv_acquire:
  assumes "redox_inv s" "\<not> asleep (rx_pc s i)" "holds_m (rx_pc s' i)" "m_word s = 0"
    and "m_word s' = 2 \<or> m_word s' = 1 \<and> \<not> will_wake (rx_pc s i)"
    and "m_queue s' = m_queue s" "cv_queue s' = cv_queue s" "\<And>j. j \<noteq> i \<Longrightarrow> rx_pc s' j = rx_pc s j"
  shows "redox_inv s'"
  unfolding redox_inv_def
proof (intro conjI)
  have o: "owned s" and q: "queues_ok s" and c: "contended s" using assms(1) by (simp_all add: redox_inv_def)
  have "rx_pc s' = (rx_pc s)(i := rx_pc s' i)" using assms(8) by auto
  from owned_acquire [OF o assms(4) _ this assms(3)] show "owned s'" using assms(5) by blast
  have "asleep (rx_pc s' j) = asleep (rx_pc s j)" for j using assms(2,3,8) by (cases "j = i") auto
  then show "queues_ok s'" by (intro queues_same [OF q assms(6,7)])
  have "will_wake (rx_pc s j) \<Longrightarrow> will_wake (rx_pc s' j) \<or> m_word s' = 2" for j using assms(5,8) by (cases "j = i") auto
  moreover have "m_word s \<noteq> 2" using assms(4) by simp
  ultimately show "contended s'" using c assms(6) unfolding contended_def by metis
qed

lemma inv_release:
  assumes "redox_inv s" "holds_m (rx_pc s i)" "\<not> holds_m (rx_pc s' i)" "\<not> asleep (rx_pc s' i)" "m_word s' = 0"
    and "m_word s = 2 \<Longrightarrow> will_wake (rx_pc s' i)"
    and "m_queue s' = m_queue s" "cv_queue s' = cv_queue s" "\<And>j. j \<noteq> i \<Longrightarrow> rx_pc s' j = rx_pc s j"
  shows "redox_inv s'"
  unfolding redox_inv_def
proof (intro conjI)
  have o: "owned s" and q: "queues_ok s" and c: "contended s" using assms(1) by (simp_all add: redox_inv_def)
  have "rx_pc s' = (rx_pc s)(i := rx_pc s' i)" using assms(9) by auto
  then show "owned s'" by (rule owned_release [OF o assms(2,5) _ assms(3)])
  have "asleep (rx_pc s' j) = asleep (rx_pc s j)" for j using assms(2,4,9) by (cases "j = i") auto
  then show "queues_ok s'" by (intro queues_same [OF q assms(7,8)])
  show "contended s'"
  proof (cases "m_word s = 2")
    case True
    then show ?thesis using assms(6,9) by (auto simp: contended_def)
  next
    case False
    have "will_wake (rx_pc s u) \<Longrightarrow> will_wake (rx_pc s' u)" for u using assms(2,9) by (cases "u = i") auto
    then show ?thesis using c False assms(7) by (auto simp: contended_def)
  qed
qed

lemma inv_wake:
  assumes "redox_inv s" "asleep (rx_pc s j)"
  shows "redox_inv (wake_up j s)" "will_wake (rx_pc (wake_up j s) j)"
proof -
  show w: "will_wake (rx_pc (wake_up j s) j)" using assms(2) by (simp add: wake_up_def)
  show "redox_inv (wake_up j s)"
    using assms w owned_wake queues_wake by (auto simp: redox_inv_def contended_def)
qed

lemma inv_requeue:
  assumes "redox_inv s" "futex_requeue c s = Some s'"
  shows "redox_inv s'"
proof (cases "cv_queue s = []")
  case True
  then have "s' = s" using assms(2) by (cases s) (auto simp: futex_requeue_def futex_wake_c_def)
  then show ?thesis using assms(1) by simp
next
  case False
  then obtain j where j: "j \<in> set (cv_queue s)" "c = Wakes j"
    and s': "s' = (wake_up j s)\<lparr>m_queue := m_queue (wake_up j s) @ cv_queue (wake_up j s), cv_queue := []\<rparr>"
    using assms(2) by (auto simp: futex_requeue_def futex_wake_c_def split: redox_choice.splits if_splits)
  have a: "asleep (rx_pc s j)" using assms(1) j(1) queued_asleep by (auto simp: redox_inv_def)
  note w = inv_wake [OF assms(1) a]
  have "owned s'" using w(1) unfolding s' redox_inv_def by (auto intro: owned_same)
  moreover have "queues_ok s'" using w(1) queues_requeue unfolding s' redox_inv_def by blast
  moreover have "contended s'" using w(2) unfolding s' contended_def by auto
  ultimately show ?thesis by (simp add: redox_inv_def)
qed

lemma futex_wake_pc:
  assumes "queues_ok s" "\<not> asleep (rx_pc s i)"
  shows "futex_wake_m c s = Some s' \<Longrightarrow> rx_pc s' i = rx_pc s i" "futex_wake_c c s = Some s' \<Longrightarrow> rx_pc s' i = rx_pc s i"
    and "futex_requeue c s = Some s' \<Longrightarrow> rx_pc s' i = rx_pc s i"
  using assms queued_asleep [OF assms(1)]
  by (auto simp: futex_requeue_def futex_wake_m_def futex_wake_c_def wake_up_def split: redox_choice.splits if_splits)

lemma inv_futex_wake:
  assumes "redox_inv s"
  shows "futex_wake_m c s = Some s' \<Longrightarrow> redox_inv s' \<and> (m_queue s' = [] \<or> (\<exists>u. c = Wakes u \<and> will_wake (rx_pc s' u)))"
    and "futex_wake_c c s = Some s' \<Longrightarrow> redox_inv s'"
  using assms inv_wake [OF assms] queued_asleep [of s]
  by (auto simp: redox_inv_def futex_wake_m_def futex_wake_c_def split: redox_choice.splits if_splits)

subsection \<open>Every step keeps the invariant\<close>

lemma inv_sleep:
  assumes "redox_inv s" "\<not> asleep (rx_pc s i)" "\<not> holds_m (rx_pc s i)" "\<not> will_wake (rx_pc s i)"
  shows "m_word s = 2 \<Longrightarrow> redox_inv (sleep_m i w s)" "redox_inv (sleep_c i w s)"
proof -
  have o: "owned s" and q: "queues_ok s" and c: "contended s" using assms(1) by (simp_all add: redox_inv_def)
  have "owned (sleep_m i w s)" "owned (sleep_c i w s)"
    using assms(3) by (auto intro!: owned_same [OF o] simp: sleep_m_def sleep_c_def split: if_splits)
  moreover have "m_word s = 2 \<Longrightarrow> contended (sleep_m i w s)" by (simp add: contended_def sleep_m_def)
  moreover have "contended (sleep_c i w s)" using c assms(4) by (fastforce simp: contended_def sleep_c_def)
  ultimately show "m_word s = 2 \<Longrightarrow> redox_inv (sleep_m i w s)" "redox_inv (sleep_c i w s)"
    using queues_sleep [OF q assms(2)] by (simp_all add: redox_inv_def)
qed

lemma inv_released:
  assumes "redox_inv s" "\<not> asleep (rx_pc s i)" "\<not> holds_m (rx_pc s i)"
    and "will_wake (rx_pc s i) \<Longrightarrow> m_word s = 2 \<or> m_queue s = [] \<or> (\<exists>u. u \<noteq> i \<and> will_wake (rx_pc s u))"
  shows "redox_inv (released i k s)"
proof -
  have o: "owned s" and q: "queues_ok s" and c: "contended s" using assms(1) by (simp_all add: redox_inv_def)
  have "owned (released i k s)" using assms(3) by (auto intro!: owned_same [OF o] simp: released_def split: unlock_cont.split if_splits)
  moreover have "queues_ok (released i k s)"
    using assms(2) by (auto intro!: queues_same [OF q] simp: released_def split: unlock_cont.split if_splits)
  moreover have "contended (released i k s)"
    using c assms(4) by (fastforce simp: contended_def released_def)
  ultimately show ?thesis by (simp add: redox_inv_def)
qed

lemma acquired_eq: "\<exists>pc. holds_m pc \<and> acquired i k s = at_pc i pc s"
  by (cases k) (auto simp: acquired_def intro: exI [of _ Held] exI [of _ "Unlock_read To_unwound"])

lemma inv_acquired:
  assumes "redox_inv s" "\<not> asleep (rx_pc s i)" "m_word s = 0" "v = 2 \<or> v = 1 \<and> \<not> will_wake (rx_pc s i)"
  shows "redox_inv (acquired i k (s\<lparr>m_word := v\<rparr>))"
proof -
  obtain pc where "holds_m pc" "acquired i k (s\<lparr>m_word := v\<rparr>) = at_pc i pc (s\<lparr>m_word := v\<rparr>)" using acquired_eq by metis
  then show ?thesis using assms(4) by (auto intro!: inv_acquire [OF assms(1,2) _ assms(3)])
qed

lemma inv_begin:
  assumes "redox_inv s" "redox_begin held i c s = Some s'" "rx_pc s i = (if held then Held else Idle)"
  shows "redox_inv s'"
  using assms(2,3)
  by (cases c) (auto simp: redox_begin_def split: if_splits intro!: inv_keep [OF assms(1), of i])

lemma inv_swap:
  assumes "redox_inv s" "\<not> asleep (rx_pc s i)" "\<not> holds_m (rx_pc s i)"
  shows "redox_inv (lock_swap i k s)"
proof (cases "m_word s = 0")
  case True
  then show ?thesis using inv_acquired [OF assms(1,2), of 2] by (simp add: lock_swap_def)
next
  case False
  then show ?thesis using assms(2,3) by (auto simp: lock_swap_def intro!: inv_keep [OF assms(1), of i])
qed

lemma inv_next:
  assumes "redox_inv s" "will_wake (rx_pc s i)"
  shows "redox_inv (unlock_next i n k s)"
  using assms(2) by (intro inv_keep [OF assms(1), of i]) (auto simp: unlock_next_def elim: will_wake.elims)

lemma inv_look:
  assumes "redox_inv s" "rx_pc s i = Unlock_look n k"
  shows "redox_inv (unlock_look i n k s)"
proof (cases "m_word s = 0")
  case True
  then show ?thesis using inv_next [OF assms(1), of i] assms(2) by (simp add: unlock_look_def)
next
  case False
  then show ?thesis using assms(2) by (intro inv_keep [OF assms(1), of i]) (auto simp: unlock_look_def)
qed

lemma inv_mark:
  assumes "redox_inv s" "rx_pc s i = Unlock_mark n k"
  shows "redox_inv (unlock_mark i n k s)"
proof (cases "m_word s = 0")
  case True
  then have "unlock_mark i n k s = unlock_next i n k s" by (cases s) (simp add: unlock_mark_def compare_and_swap_def)
  then show ?thesis using inv_next [OF assms(1), of i] assms(2) by simp
next
  case False
  then have "m_word s = 1 \<or> m_word s = 2" using assms(1) by (auto simp: redox_inv_def owned_def)
  then have e: "unlock_mark i n k s = released i k (s\<lparr>m_word := 2\<rparr>)"
    by (cases s) (auto simp: unlock_mark_def compare_and_swap_def Let_def)
  show ?thesis unfolding e
    by (rule inv_released, rule inv_keep [OF assms(1), of i]) (use assms(2) False in auto)
qed

lemma inv_unlock_wake:
  assumes "redox_inv s" "rx_pc s i = Unlock_wake k" "unlock_wake i k c s = Some s'"
  shows "redox_inv s'"
proof -
  obtain t where t: "futex_wake_m c s = Some t" "s' = released i k t" using assms(3) by (auto simp: unlock_wake_def)
  have q: "queues_ok s" using assms(1) by (simp add: redox_inv_def)
  have pc: "rx_pc t i = Unlock_wake k" using futex_wake_pc(1) [OF q _ t(1)] assms(2) by simp
  note w = inv_futex_wake(1) [OF assms(1) t(1)]
  have "m_queue t = [] \<or> (\<exists>u. u \<noteq> i \<and> will_wake (rx_pc t u))"
  proof (cases "m_queue s = []")
    case True
    then show ?thesis using t(1) by (simp add: futex_wake_m_def)
  next
    case False
    then obtain j where j: "j \<in> set (m_queue s)" "t = wake_up j s"
      using t(1) by (auto simp: futex_wake_m_def split: redox_choice.splits if_splits)
    then have a: "asleep (rx_pc s j)" using queued_asleep [OF q] by blast
    then have "j \<noteq> i" using assms(2) by auto
    then show ?thesis using inv_wake(2) [OF assms(1) a] j(2) by blast
  qed
  then show ?thesis unfolding t(2) using w pc by (intro inv_released) auto
qed

lemma inv_notify_futex:
  assumes "redox_inv s" "rx_pc s i = Notify_futex all held" "notify_futex i all held c s = Some s'"
  shows "redox_inv s'"
proof -
  obtain t where t: "(if all then futex_requeue c s else futex_wake_c c s) = Some t" "s' = notify_ends i held t"
    using assms(3) by (auto simp: notify_futex_def)
  have q: "queues_ok s" using assms(1) by (simp add: redox_inv_def)
  have pc: "rx_pc t i = Notify_futex all held"
    using futex_wake_pc(2,3) [OF q, of i c t] assms(2) t(1) by (auto split: if_splits)
  have t': "redox_inv t" using t(1) inv_requeue [OF assms(1)] inv_futex_wake(2) [OF assms(1)] by (auto split: if_splits)
  show ?thesis unfolding t(2)
    by (rule inv_keep [OF t', of i]) (use pc in \<open>auto simp: notify_ends_def\<close>)
qed

lemma inv_spin:
  assumes "redox_inv s" "rx_pc s i = Spin n"
  shows "redox_inv (lock_spin i n s)"
proof (cases "m_word s = 0")
  case True
  then show ?thesis using inv_acquired [OF assms(1), of i 1] assms(2) by (simp add: lock_spin_def compare_and_swap_def)
next
  case False
  then show ?thesis using assms(2)
    by (intro inv_keep [OF assms(1), of i]) (auto simp: lock_spin_def compare_and_swap_def)
qed

lemma inv_try:
  assumes "redox_inv s" "rx_pc s i = Trying"
  shows "redox_inv (mutex_try_lock i s)"
proof (cases "m_word s = 0")
  case True
  then show ?thesis using assms(2) by (intro inv_acquire [OF assms(1), of i]) (auto simp: mutex_try_lock_def compare_and_swap_def)
next
  case False
  then show ?thesis using assms(2)
    by (intro inv_keep [OF assms(1), of i]) (auto simp: mutex_try_lock_def compare_and_swap_def)
qed

lemma inv_lock_wait:
  assumes "redox_inv s" "rx_pc s i = Wait_m k"
  shows "redox_inv (lock_wait i k s)"
proof (cases "m_word s = 2")
  case True
  then show ?thesis using inv_sleep(1) [OF assms(1), of i] assms(2) by (simp add: lock_wait_def)
next
  case False
  then show ?thesis using assms(2) by (intro inv_keep [OF assms(1), of i]) (auto simp: lock_wait_def)
qed

lemma inv_cond_futex:
  assumes "redox_inv s" "rx_pc s i = Cv_wait timed b"
  shows "redox_inv (cond_futex i timed b s)"
proof (cases "cv_seq s = b")
  case True
  then show ?thesis using inv_sleep(2) [OF assms(1), of i] assms(2) by (simp add: cond_futex_def)
next
  case False
  then show ?thesis using assms(2) by (intro inv_keep [OF assms(1), of i]) (auto simp: cond_futex_def)
qed

lemma inv_unlock_swap:
  assumes "redox_inv s" "rx_pc s i = Unlock_swap k"
  shows "redox_inv (unlock_swap i k s)"
  using assms(2)
  by (intro inv_release [OF assms(1), of i]) (auto simp: unlock_swap_def released_def Let_def split: unlock_cont.split)

theorem redox_step_inv:
  assumes "redox_inv s" "redox_step (i, c) s = Some s'"
  shows "redox_inv s'"
proof (cases "rx_pc s i")
  case Idle
  then show ?thesis using assms inv_begin [OF assms(1), of False i c s'] by (simp add: redox_step_def)
next
  case Held
  then show ?thesis using assms inv_begin [OF assms(1), of True i c s'] by (simp add: redox_step_def)
next
  case (Asleep w)
  then show ?thesis using assms inv_wake(1) [OF assms(1), of i] by (simp add: redox_step_def split: if_splits)
next
  case (Unlock_look n k)
  then show ?thesis using assms inv_look by (auto simp: redox_step_def)
next
  case (Unlock_store k)
  then show ?thesis using assms(2)
    by (intro inv_release [OF assms(1), of i]) (auto simp: redox_step_def unlock_store_def)
next
  case (Cv_after timed b)
  then show ?thesis using assms(2)
    by (intro inv_keep [OF assms(1), of i]) (auto simp: redox_step_def cond_after_def)
next
  case (Unlock_wake k)
  then show ?thesis using assms inv_unlock_wake by (simp add: redox_step_def)
next
  case (Notify_futex all held)
  then show ?thesis using assms inv_notify_futex by (simp add: redox_step_def)
next
  case (Unlock_read k)
  then show ?thesis using assms(2) by (intro inv_keep [OF assms(1), of i]) (auto simp: redox_step_def unlock_read_def)
next
  case (Notify_read held)
  then show ?thesis using assms(2) by (cases "cv_lock s"; intro inv_keep [OF assms(1), of i])
      (auto simp: redox_step_def notify_all_read_def notify_ends_def split: if_splits)
next
  case (Notify_add all held)
  then show ?thesis using assms(2) by (intro inv_keep [OF assms(1), of i]) (auto simp: redox_step_def notify_add_def)
next
  case (Cv_read timed)
  then show ?thesis using assms(2) by (intro inv_keep [OF assms(1), of i]) (auto simp: redox_step_def cond_read_def)
next
  case (Cv_set timed)
  then show ?thesis using assms(2) by (intro inv_keep [OF assms(1), of i]) (auto simp: redox_step_def cond_set_def)
next
  case (Cv_load timed)
  then show ?thesis using assms(2) by (intro inv_keep [OF assms(1), of i]) (auto simp: redox_step_def cond_load_def)
next
  case Trying
  then show ?thesis using assms inv_try by (auto simp: redox_step_def)
next
  case (Spin n)
  then show ?thesis using assms inv_spin by (auto simp: redox_step_def)
next
  case Swap
  then show ?thesis using assms inv_swap [OF assms(1), of i] by (auto simp: redox_step_def)
next
  case (Reswap k)
  then show ?thesis using assms inv_swap [OF assms(1), of i] by (auto simp: redox_step_def)
next
  case (Wait_m k)
  then show ?thesis using assms inv_lock_wait by (auto simp: redox_step_def)
next
  case (Unlock_swap k)
  then show ?thesis using assms inv_unlock_swap by (auto simp: redox_step_def)
next
  case (Unlock_mark n k)
  then show ?thesis using assms inv_mark by (auto simp: redox_step_def)
next
  case (Cv_wait timed b)
  then show ?thesis using assms inv_cond_futex by (auto simp: redox_step_def)
next
  case Unwound
  then show ?thesis using assms(2) by (simp add: redox_step_def)
qed

lemma redox_run_inv: "redox_run as s = Some s' \<Longrightarrow> redox_inv s \<Longrightarrow> redox_inv s'"
  by (induction as arbitrary: s) (auto split: option.splits dest: redox_step_inv)

subsection \<open>A sleeper can always get the mutex\<close>

text \<open>
  \<open>can P s\<close>: some schedule leads from \<open>s\<close> to a state with \<open>P\<close> in which no thread starts a call but \<open>unlock\<close> and no system
  call ends without a wakeup: the threads only go on with the calls that they are in, and the holder unlocks.
\<close>

fun goes_on :: "redox_choice \<Rightarrow> bool" where
  "goes_on Next = True"
| "goes_on (Wakes _) = True"
| "goes_on Unlock = True"
| "goes_on _ = False"

definition can :: "(redox_sys \<Rightarrow> bool) \<Rightarrow> redox_sys \<Rightarrow> bool" where
  "can P s \<longleftrightarrow> (\<exists>as s'. redox_run as s = Some s' \<and> (\<forall>a \<in> set as. goes_on (snd a)) \<and> P s')"

lemma can_now: "P s \<Longrightarrow> can P s"
  unfolding can_def by (intro exI [of _ "[]"] exI [of _ s]) simp

lemma can_step: "redox_step (i, c) s = Some s' \<Longrightarrow> can P s' \<Longrightarrow> goes_on c \<Longrightarrow> can P s"
  unfolding can_def by (elim exE) (metis (no_types, lifting) option.simps(5) redox_run.simps(2) set_ConsD snd_conv)

text \<open>A thread that has been woken on its way to the mutex, or sleeps in its queue.\<close>

definition wants :: "tid \<Rightarrow> redox_sys \<Rightarrow> bool" where
  "wants i s \<longleftrightarrow> i \<in> set (m_queue s)"

abbreviation gets :: "tid \<Rightarrow> redox_sys \<Rightarrow> bool" where
  "gets i s \<equiv> holds_m (rx_pc s i)"

lemma acquired_holds: "holds_m (rx_pc (acquired i k s) i)"
  using acquired_eq [of i k s] by auto

lemma reswap_gets:
  assumes "m_word s = 0" "rx_pc s i = Reswap k"
  shows "can (gets i) s"
  by (rule can_step [of i Next s "lock_swap i k s"])
    (use assms in \<open>auto simp: redox_step_def lock_swap_def Let_def acquired_holds intro: can_now\<close>)

lemma resumed_gets:
  assumes "m_word s = 0" "rx_pc s i = resume pc" "asleep pc"
  shows "can (gets i) s"
proof (cases "\<exists>k. rx_pc s i = Reswap k")
  case True
  then show ?thesis using reswap_gets assms(1) by blast
next
  case False
  then obtain timed b where pc: "rx_pc s i = Cv_after timed b"
    using assms(2,3) by (cases pc) (auto simp: resume_def split: sleeper.splits)
  show ?thesis
    by (rule can_step [of i Next s "cond_after i timed b s"], use pc in \<open>simp add: redox_step_def\<close>)
      (rule reswap_gets, use assms(1) in \<open>simp_all add: cond_after_def\<close>)
qed

text \<open>A thread that has released the mutex wakes the sleeper that the scheduler chooses.\<close>

lemma wake_gets:
  assumes "redox_inv s" "i \<in> set (m_queue s)" "rx_pc s u = Unlock_wake k" "m_word s = 0"
  shows "can (gets i) s"
proof -
  have q: "queues_ok s" using assms(1) by (simp add: redox_inv_def)
  have a: "asleep (rx_pc s i)" using queued_asleep [OF q] assms(2) by blast
  then have "i \<noteq> u" using assms(3) by auto
  have "redox_step (u, Wakes i) s = Some (released u k (wake_up i s))"
    using assms(2,3) by (auto simp: redox_step_def unlock_wake_def futex_wake_m_def)
  moreover have "can (gets i) (released u k (wake_up i s))"
    by (rule resumed_gets [OF _ _ a]) (use assms(4) \<open>i \<noteq> u\<close> in \<open>simp_all add: released_def wake_up_def\<close>)
  ultimately show ?thesis by (rule can_step) simp
qed

lemma look_gets:
  "redox_inv s \<Longrightarrow> i \<in> set (m_queue s) \<Longrightarrow> rx_pc s u = Unlock_look n k \<Longrightarrow> m_word s = 0 \<Longrightarrow> can (gets i) s"
proof (induction n arbitrary: s)
  case 0
  let ?s = "unlock_look u 0 k s"
  have s: "redox_step (u, Next) s = Some ?s" using 0 by (simp add: redox_step_def)
  have "redox_inv ?s" by (rule redox_step_inv [OF 0(1) s])
  then have "can (gets i) ?s" by (rule wake_gets [of _ i u k]) (use 0 in \<open>simp_all add: unlock_look_def unlock_next_def\<close>)
  with s show ?case by (rule can_step) simp
next
  case (Suc n)
  let ?s = "unlock_look u (Suc n) k s"
  have s: "redox_step (u, Next) s = Some ?s" using Suc by (simp add: redox_step_def)
  have inv: "redox_inv ?s" by (rule redox_step_inv [OF Suc(2) s])
  have "can (gets i) ?s"
  proof (cases "n = 0")
    case True
    then show ?thesis by (intro wake_gets [OF inv, of i u k]) (use Suc.prems in \<open>simp_all add: unlock_look_def unlock_next_def\<close>)
  next
    case False
    then show ?thesis by (intro Suc.IH [OF inv]) (use Suc.prems in \<open>simp_all add: unlock_look_def unlock_next_def\<close>)
  qed
  with s show ?case by (rule can_step) simp
qed

lemma mark_gets:
  assumes "redox_inv s" "i \<in> set (m_queue s)" "rx_pc s u = Unlock_mark n k" "m_word s = 0"
  shows "can (gets i) s"
proof -
  let ?s = "unlock_mark u n k s"
  have s: "redox_step (u, Next) s = Some ?s" using assms by (simp add: redox_step_def)
  have inv: "redox_inv ?s" by (rule redox_step_inv [OF assms(1) s])
  have "can (gets i) ?s"
  proof (cases "n > 1")
    case True
    then show ?thesis by (intro look_gets [OF inv, of i u "n - 1" k])
        (use assms in \<open>simp_all add: unlock_mark_def unlock_next_def compare_and_swap_def\<close>)
  next
    case False
    then show ?thesis by (intro wake_gets [OF inv, of i u k])
        (use assms in \<open>simp_all add: unlock_mark_def unlock_next_def compare_and_swap_def\<close>)
  qed
  with s show ?thesis by (rule can_step) simp
qed

text \<open>The state after a step of \<open>u\<close> that goes on: one goal for the step and one for the state.\<close>

lemma can_go:
  assumes "redox_inv s" "redox_step (u, c) s = Some s'" "goes_on c" "redox_inv s' \<Longrightarrow> can P s'"
  shows "can P s"
  using can_step [OF assms(2) _ assms(3)] assms(4) redox_step_inv [OF assms(1,2)] by blast

lemma store_gets:
  assumes "redox_inv s" "i \<in> set (m_queue s)" "rx_pc s h = Unlock_store k"
  shows "can (gets i) s"
  by (rule can_go [OF assms(1), of h Next "unlock_store h k s"])
    (use assms look_gets [of "unlock_store h k s" i h SPINS k] in \<open>simp_all add: redox_step_def unlock_store_def\<close>)

lemma swap_gets:
  assumes "redox_inv s" "i \<in> set (m_queue s)" "rx_pc s h = Unlock_swap k" "m_word s = 2"
  shows "can (gets i) s"
  by (rule can_go [OF assms(1), of h Next "unlock_swap h k s"])
    (use assms look_gets [of "unlock_swap h k s" i h SPINS k] in \<open>simp_all add: redox_step_def unlock_swap_def Let_def\<close>)

lemma read_gets:
  assumes "redox_inv s" "i \<in> set (m_queue s)" "rx_pc s h = Unlock_read k" "m_word s = 2"
  shows "can (gets i) s"
  by (rule can_go [OF assms(1), of h Next "unlock_read h k s"])
    (use assms store_gets [of "unlock_read h k s" i h k] in \<open>simp_all add: redox_step_def unlock_read_def\<close>)

lemma held_gets:
  assumes "redox_inv s" "i \<in> set (m_queue s)" "rx_pc s h = Held" "m_word s = 2"
  shows "can (gets i) s"
  by (rule can_go [OF assms(1), of h Unlock "at_pc h (Unlock_read To_idle) s"])
    (use assms read_gets [of "at_pc h (Unlock_read To_idle) s" i h To_idle] in \<open>simp_all add: redox_step_def redox_begin_def\<close>)

lemma cond_set_gets:
  assumes "redox_inv s" "i \<in> set (m_queue s)" "rx_pc s h = Cv_set timed" "m_word s = 2"
  shows "can (gets i) s"
  by (rule can_go [OF assms(1), of h Next "cond_set h timed s"])
    (use assms read_gets [of "cond_set h timed s" i h "To_cond timed"] in \<open>simp_all add: redox_step_def cond_set_def\<close>)

lemma cond_read_gets:
  assumes "redox_inv s" "i \<in> set (m_queue s)" "rx_pc s h = Cv_read timed" "m_word s = 2"
  shows "can (gets i) s"
  by (rule can_go [OF assms(1), of h Next "cond_read h timed s"])
    (use assms read_gets [of "cond_read h timed s" i h "To_cond timed"] cond_set_gets [of "cond_read h timed s" i h timed]
      in \<open>auto simp: redox_step_def cond_read_def\<close>)

lemma notify_futex_gets:
  assumes "redox_inv s" "i \<in> set (m_queue s)" "rx_pc s h = Notify_futex all True" "m_word s = 2"
  shows "can (gets i) s"
proof -
  have q: "queues_ok s" using assms(1) by (simp add: redox_inv_def)
  define c where "c = (if cv_queue s = [] then Next else Wakes (hd (cv_queue s)))"
  have "\<exists>t. (if all then futex_requeue c s else futex_wake_c c s) = Some t"
    by (cases all; cases "cv_queue s") (simp_all add: c_def futex_requeue_def futex_wake_c_def)
  then obtain t where t: "(if all then futex_requeue c s else futex_wake_c c s) = Some t" by blast
  have "cv_queue s \<noteq> [] \<Longrightarrow> hd (cv_queue s) \<noteq> i" using q assms(2) hd_in_set [of "cv_queue s"] by (auto simp: queues_ok_def)
  then have i: "i \<in> set (m_queue t)" "m_word t = 2"
    using t assms(2,4) by (auto simp: c_def futex_requeue_def futex_wake_c_def wake_up_def split: if_splits)
  have "redox_step (h, c) s = Some (notify_ends h True t)" "goes_on c"
    using t assms(3) by (simp_all add: redox_step_def notify_futex_def, simp add: c_def)
  then show ?thesis
    by (rule can_go [OF assms(1)]) (use i held_gets [of "notify_ends h True t" i h] in \<open>simp_all add: notify_ends_def\<close>)
qed

lemma notify_add_gets:
  assumes "redox_inv s" "i \<in> set (m_queue s)" "rx_pc s h = Notify_add all True" "m_word s = 2"
  shows "can (gets i) s"
  by (rule can_go [OF assms(1), of h Next "notify_add h all True s"])
    (use assms notify_futex_gets [of "notify_add h all True s" i h all] in \<open>simp_all add: redox_step_def notify_add_def\<close>)

lemma notify_read_gets:
  assumes "redox_inv s" "i \<in> set (m_queue s)" "rx_pc s h = Notify_read True" "m_word s = 2"
  shows "can (gets i) s"
  by (rule can_go [OF assms(1), of h Next "notify_all_read h True s"])
    (use assms notify_add_gets [of "notify_all_read h True s" i h True] held_gets [of "notify_all_read h True s" i h]
      in \<open>auto simp: redox_step_def notify_all_read_def notify_ends_def\<close>)

lemma holder_gets:
  assumes "redox_inv s" "i \<in> set (m_queue s)" "m_word s = 2"
  shows "can (gets i) s"
proof -
  obtain h where "holds_m (rx_pc s h)" using assms(1,3) by (auto simp: redox_inv_def owned_def)
  then show ?thesis
    using held_gets [OF assms(1,2), of h] read_gets [OF assms(1,2), of h] store_gets [OF assms(1,2), of h]
      swap_gets [OF assms(1,2), of h] notify_read_gets [OF assms(1,2), of h] notify_add_gets [OF assms(1,2), of h]
      notify_futex_gets [OF assms(1,2), of h] cond_read_gets [OF assms(1,2), of h] cond_set_gets [OF assms(1,2), of h] assms(3)
    by (cases "rx_pc s h") auto
qed

subsection \<open>A thread that will wake\<close>

lemma will_reswap_gets:
  assumes "redox_inv s" "i \<in> set (m_queue s)" "rx_pc s u = Reswap k"
  shows "can (gets i) s"
proof (rule can_go [OF assms(1), of u Next "lock_swap u k s"])
  have "m_queue (lock_swap u k s) = m_queue s" "m_word (lock_swap u k s) = 2"
    using acquired_eq [of u k "s\<lparr>m_word := 2\<rparr>"] by (auto simp: lock_swap_def Let_def)
  then show "redox_inv (lock_swap u k s) \<Longrightarrow> can (gets i) (lock_swap u k s)" using assms(2) holder_gets by simp
qed (use assms(3) in \<open>simp_all add: redox_step_def\<close>)

lemma will_after_gets:
  assumes "redox_inv s" "i \<in> set (m_queue s)" "rx_pc s u = Cv_after timed b"
  shows "can (gets i) s"
  by (rule can_go [OF assms(1), of u Next "cond_after u timed b s"])
    (use assms will_reswap_gets [of "cond_after u timed b s" i u] in \<open>simp_all add: redox_step_def cond_after_def\<close>)

lemma will_mark_gets:
  assumes "redox_inv s" "i \<in> set (m_queue s)" "rx_pc s u = Unlock_mark n k"
  shows "can (gets i) s"
proof (cases "m_word s = 0")
  case True
  then show ?thesis using mark_gets assms by blast
next
  case False
  then have "m_word s = 1 \<or> m_word s = 2" using assms(1) by (auto simp: redox_inv_def owned_def)
  then have "m_word (unlock_mark u n k s) = 2" "m_queue (unlock_mark u n k s) = m_queue s"
    by (auto simp: unlock_mark_def compare_and_swap_def released_def)
  then show ?thesis
    by (intro can_go [OF assms(1), of u Next "unlock_mark u n k s"])
      (use assms holder_gets [of "unlock_mark u n k s" i] in \<open>simp_all add: redox_step_def\<close>)
qed

lemma will_look_gets:
  assumes "redox_inv s" "i \<in> set (m_queue s)" "rx_pc s u = Unlock_look n k"
  shows "can (gets i) s"
proof (cases "m_word s = 0")
  case True
  then show ?thesis using look_gets assms by blast
next
  case False
  show ?thesis
    by (rule can_go [OF assms(1), of u Next "unlock_look u n k s"])
      (use assms False will_mark_gets [of "unlock_look u n k s" i u n k] in \<open>simp_all add: redox_step_def unlock_look_def\<close>)
qed

text \<open>A woken thread that finds the mutex taken marks it and sleeps again; then the holder will wake it.\<close>

lemma taken_again_gets:
  assumes "redox_inv s" "rx_pc s i = Reswap k" "m_word s \<noteq> 0"
  shows "can (gets i) s"
proof (rule can_go [OF assms(1), of i Next "lock_swap i k s"])
  let ?s = "lock_swap i k s"
  have pc: "rx_pc ?s i = Wait_m k" "m_word ?s = 2" using assms(3) by (simp_all add: lock_swap_def)
  assume inv: "redox_inv ?s"
  show "can (gets i) ?s"
    by (rule can_go [OF inv, of i Next "lock_wait i k ?s"])
      (use pc holder_gets [of "lock_wait i k ?s" i] in \<open>simp_all add: redox_step_def lock_wait_def sleep_m_def\<close>)
qed (use assms(2) in \<open>simp_all add: redox_step_def\<close>)

lemma resumed_again_gets:
  assumes "redox_inv s" "rx_pc s i = resume pc" "asleep pc" "m_word s \<noteq> 0"
  shows "can (gets i) s"
proof (cases "\<exists>k. rx_pc s i = Reswap k")
  case True
  then show ?thesis using taken_again_gets assms(1,4) by blast
next
  case False
  then obtain timed b where pc: "rx_pc s i = Cv_after timed b"
    using assms(2,3) by (cases pc) (auto simp: resume_def split: sleeper.splits)
  show ?thesis
    by (rule can_go [OF assms(1), of i Next "cond_after i timed b s"])
      (use pc assms(4) taken_again_gets [of "cond_after i timed b s" i] in \<open>simp_all add: redox_step_def cond_after_def\<close>)
qed

lemma will_wake_gets:
  assumes "redox_inv s" "i \<in> set (m_queue s)" "rx_pc s u = Unlock_wake k"
  shows "can (gets i) s"
proof (cases "m_word s = 0")
  case True
  then show ?thesis using wake_gets assms by blast
next
  case False
  have a: "asleep (rx_pc s i)" using assms(1,2) queued_asleep by (auto simp: redox_inv_def)
  then have "i \<noteq> u" using assms(3) by auto
  let ?s = "released u k (wake_up i s)"
  show ?thesis
  proof (rule can_go [OF assms(1), of u "Wakes i" ?s])
    show "redox_step (u, Wakes i) s = Some ?s"
      using assms(2,3) by (auto simp: redox_step_def unlock_wake_def futex_wake_m_def)
    show "redox_inv ?s \<Longrightarrow> can (gets i) ?s"
      by (rule resumed_again_gets [OF _ _ a]) (use False \<open>i \<noteq> u\<close> in \<open>simp_all add: released_def wake_up_def\<close>)
  qed simp
qed

lemma sleeper_gets:
  assumes "redox_inv s" "i \<in> set (m_queue s)"
  shows "can (gets i) s"
proof (cases "m_word s = 2")
  case True
  then show ?thesis using holder_gets assms by blast
next
  case False
  then obtain u where "will_wake (rx_pc s u)" using assms by (auto simp: redox_inv_def contended_def)
  then show ?thesis
    using will_reswap_gets [OF assms, of u] will_after_gets [OF assms, of u] will_mark_gets [OF assms, of u]
      will_look_gets [OF assms, of u] will_wake_gets [OF assms, of u]
    by (cases "rx_pc s u") auto
qed

subsection \<open>The properties\<close>

text \<open>
  C37: the mutex of Redox, for every schedule of any number of threads that lock, try to lock, unlock, wait on the condition
  variable with or without a timeout, and notify: at most one thread holds it, and the word is 0 exactly while none does. No wakeup of
  the mutex is lost: while a thread sleeps on it, also one that \<open>notify_all\<close> has moved there, the word is 2, so that it is held and its holder will
  look for sleepers, or some thread is on its way to wake one or to set the word to 2; in particular no thread sleeps on the mutex when all other threads are asleep, or
  have no call to finish and do not hold it. And each sleeper can get the mutex when no thread starts any call but the \<open>unlock\<close> of a holder and no
  system call ends early: the threads that are inside a call are enough.
\<close>

theorem Redox_mutex_exclusive_and_live:
  assumes "redox_run as redox_new = Some s"
  shows "(\<forall>i j. holds_m (rx_pc s i) \<longrightarrow> holds_m (rx_pc s j) \<longrightarrow> i = j) \<and>
    (m_word s = 0 \<longleftrightarrow> (\<forall>i. \<not> holds_m (rx_pc s i))) \<and>
    (m_queue s \<noteq> [] \<longrightarrow> m_word s = 2 \<or> (\<exists>u. will_wake (rx_pc s u))) \<and>
    ((\<forall>j. rx_pc s j \<in> {Idle, Unwound} \<or> asleep (rx_pc s j)) \<longrightarrow> m_queue s = []) \<and>
    (\<forall>i \<in> set (m_queue s). \<exists>bs s'. redox_run bs s = Some s' \<and> (\<forall>b \<in> set bs. goes_on (snd b)) \<and> holds_m (rx_pc s' i))"
proof (intro conjI ballI)
  have inv: "redox_inv s" by (rule redox_run_inv [OF assms redox_inv_new])
  then have o: "owned s" by (simp add: redox_inv_def)
  show "\<forall>i j. holds_m (rx_pc s i) \<longrightarrow> holds_m (rx_pc s j) \<longrightarrow> i = j" using holder_unique [OF o] by blast
  show w: "m_word s = 0 \<longleftrightarrow> (\<forall>i. \<not> holds_m (rx_pc s i))" using o by (auto simp: owned_def)
  show c: "m_queue s \<noteq> [] \<longrightarrow> m_word s = 2 \<or> (\<exists>u. will_wake (rx_pc s u))"
    using inv by (simp add: redox_inv_def contended_def)
  show "(\<forall>j. rx_pc s j \<in> {Idle, Unwound} \<or> asleep (rx_pc s j)) \<longrightarrow> m_queue s = []"
  proof
    assume idle: "\<forall>j. rx_pc s j \<in> {Idle, Unwound} \<or> asleep (rx_pc s j)"
    have "\<not> holds_m (rx_pc s j)" "\<not> will_wake (rx_pc s j)" for j using spec [OF idle, of j] by auto
    then show "m_queue s = []" using c w by auto
  qed
  fix i
  assume "i \<in> set (m_queue s)"
  then show "\<exists>bs s'. redox_run bs s = Some s' \<and> (\<forall>b \<in> set bs. goes_on (snd b)) \<and> holds_m (rx_pc s' i)"
    using sleeper_gets [OF inv] by (simp add: can_def)
qed

text \<open>Thread 1 spins, marks the mutex and sleeps while thread 0 holds it.\<close>

definition sleep_schedule :: "(tid \<times> redox_choice) list" where
  "sleep_schedule = [(0, Lock), (0, Next), (1, Lock)] @ replicate 100 (1, Next) @ [(1, Next), (1, Next)]"

lemma redox_run_append: "redox_run (as @ bs) s = (case redox_run as s of None \<Rightarrow> None | Some s' \<Rightarrow> redox_run bs s')"
  by (induction as arbitrary: s) (auto split: option.split)

lemma spinning:
  "rx_pc s 1 = Spin n \<Longrightarrow> 0 < n \<Longrightarrow> m_word s = 1 \<Longrightarrow>
     redox_run (replicate n (1, Next)) s = Some (at_pc 1 Swap s)"
proof (induction n arbitrary: s)
  case (Suc n)
  have step: "redox_step (1, Next) s = Some (if n = 0 then at_pc 1 Swap s else at_pc 1 (Spin n) s)"
    using Suc.prems by (cases s) (simp add: redox_step_def lock_spin_def compare_and_swap_def at_pc_def)
  show ?case
  proof (cases "n = 0")
    case False
    then have "redox_run (replicate n (1, Next)) (at_pc 1 (Spin n) s) = Some (at_pc 1 Swap (at_pc 1 (Spin n) s))"
      using Suc.prems by (intro Suc.IH) simp_all
    then show ?thesis using step False by (simp add: at_pc_def)
  qed (use step in simp)
qed simp

lemma sleep_schedule_run: "\<exists>s. redox_run sleep_schedule redox_new = Some s \<and> m_queue s = [1] \<and> rx_pc s 0 = Held \<and> m_word s = 2"
proof -
  obtain s where s: "redox_run [(0, Lock), (0, Next), (1, Lock)] redox_new = Some s"
    "rx_pc s 1 = Spin 100" "m_word s = 1" "m_queue s = []" "rx_pc s 0 = Held"
    by (simp add: redox_step_def redox_new_def redox_begin_def lock_spin_def acquired_def at_pc_def compare_and_swap_def SPINS_def)
  have "redox_run (replicate 100 (1, Next) @ [(1, Next), (1, Next)]) s = redox_run [(1, Next), (1, Next)] (at_pc 1 Swap s)"
    using spinning [of s 100] s by (simp only: redox_run_append) simp
  then have "\<exists>t. redox_run (replicate 100 (1, Next) @ [(1, Next), (1, Next)]) s = Some t \<and> m_queue t = [1] \<and> rx_pc t 0 = Held \<and> m_word t = 2"
    using s by (simp add: redox_step_def lock_swap_def lock_wait_def sleep_m_def)
  then show ?thesis unfolding sleep_schedule_def redox_run_append [of "[(0, Lock), (0, Next), (1, Lock)]"] s(1) by simp
qed

theorem Redox_mutex_exclusive_and_live_witness:
  "\<exists>s bs s'. redox_run sleep_schedule redox_new = Some s \<and> holds_m (rx_pc s 0) \<and> m_queue s = [1] \<and> m_word s = 2 \<and>
     redox_run bs s = Some s' \<and> (\<forall>b \<in> set bs. goes_on (snd b)) \<and> holds_m (rx_pc s' 1)"
proof -
  obtain s where s: "redox_run sleep_schedule redox_new = Some s" "m_queue s = [1]" "rx_pc s 0 = Held" "m_word s = 2"
    using sleep_schedule_run by blast
  then show ?thesis using Redox_mutex_exclusive_and_live [OF s(1)] by auto
qed

subsection \<open>The condition variable loses wakeups\<close>

text \<open>
  \<open>wait_inner\<close> reads \<open>seq\<close> after it has released the mutex. Thread 0 waits and has released the mutex; thread 1
  takes it, notifies and releases it again; then thread 0 reads the new \<open>seq\<close> and sleeps. Nobody holds the mutex, no other thread does
  anything, and thread 0 sleeps although the notification came after it had started to wait.
\<close>

lemmas redox_exec = redox_step_def redox_new_def redox_begin_def lock_spin_def lock_swap_def unlock_read_def unlock_store_def
  unlock_swap_def notify_add_def notify_futex_def notify_ends_def cond_read_def cond_set_def cond_load_def cond_futex_def
  cond_after_def futex_wake_c_def sleep_c_def wake_up_def resume_def acquired_def released_def at_pc_def compare_and_swap_def

lemma redox_condvar_lost_wakeup:
  "\<exists>s1 s2 s3. redox_run [(0, Lock), (0, Next), (0, Cond_wait False), (0, Next), (0, Next), (0, Next), (0, Next)] redox_new = Some s1 \<and>
     rx_pc s1 0 = Cv_load False \<and>
     redox_run [(1, Lock), (1, Next), (1, Notify_one), (1, Next), (1, Next), (1, Unlock), (1, Next), (1, Next)] s1 = Some s2 \<and>
     rx_pc s2 0 = Cv_load False \<and>
     redox_run [(0, Next), (0, Next)] s2 = Some s3 \<and>
     cv_queue s3 = [0] \<and> rx_pc s3 0 = Asleep (In_cond False 1) \<and> m_word s3 = 0 \<and> (\<forall>i. i \<noteq> 0 \<longrightarrow> rx_pc s3 i = Idle)"
  by (simp add: redox_exec)

text \<open>A wait without a timeout whose system call ends early unwinds, with the mutex taken and released again.\<close>

lemma redox_condvar_early_end_panics:
  "\<exists>s. redox_run [(0, Lock), (0, Next), (0, Cond_wait False), (0, Next), (0, Next), (0, Next), (0, Next), (0, Next), (0, Next),
      (0, Ends_early), (0, Next), (0, Next), (0, Next), (0, Next)] redox_new = Some s \<and>
     rx_pc s 0 = Unlock_look SPINS To_unwound"
  by (simp add: redox_exec)

end
