(* ===== verification/Spsc_Queue.thy ===== *)
theory Spsc_Queue
  imports Rust_Base
begin

section \<open>The queue with one producer and one consumer (src/sync/mpsc/spsc_queue.rs)\<close>

text \<open>
  A linked list of nodes on the heap, with nodes that are used again. The producer appends at \<open>head\<close> and takes used nodes from
  \<open>first\<close>, the consumer takes values after \<open>tail\<close> and gives nodes back by moving \<open>tail_prev\<close>. The two threads are interleaved at
  their accesses to shared memory; an access to memory that is not a live node is undefined behaviour. The additions, which
  \<open>stream.rs\<close> stores beside the queue, are not touched by it. Two ghost fields list the values that have been appended and taken.
\<close>

subsection \<open>State\<close>

record 'a Node =
  n_value :: "'a option"
  n_cached :: bool
  n_next :: usize

datatype 'a producer_pc =
    P_idle
  | P_first 'a          \<comment> \<open>\<open>alloc\<close>: before the first test of \<open>first\<close>\<close>
  | P_copy 'a           \<comment> \<open>before \<open>tail_prev.load\<close>\<close>
  | P_second 'a         \<comment> \<open>before the second test\<close>
  | P_new 'a            \<comment> \<open>before \<open>Node::new\<close>\<close>
  | P_value 'a usize    \<comment> \<open>before the assertion and the write of the value\<close>
  | P_null 'a usize     \<comment> \<open>before \<open>n.next.store(null)\<close>\<close>
  | P_link 'a usize     \<comment> \<open>before \<open>head.next.store(n)\<close>\<close>
  | P_head usize        \<comment> \<open>before \<open>head = n\<close>\<close>

datatype 'a consumer_pc =
    C_idle
  | C_take usize usize         \<comment> \<open>\<open>tail\<close>, \<open>next\<close>: before the assertion and \<open>value.take()\<close>\<close>
  | C_advance usize usize 'a   \<comment> \<open>before \<open>tail = next\<close>\<close>
  | C_retire usize usize 'a    \<comment> \<open>before the test of \<open>cache_bound\<close>\<close>
  | C_cached usize usize 'a    \<comment> \<open>before the test of \<open>tail.cached\<close>\<close>
  | C_unlink usize usize 'a    \<comment> \<open>before \<open>tail_prev.next.store(next)\<close>\<close>
  | C_free usize 'a            \<comment> \<open>before \<open>Box::from_raw(tail)\<close>\<close>

record 'a Queue =
  q_heap :: "usize \<Rightarrow> 'a Node option"
  q_tail :: usize
  q_tail_prev :: usize
  cache_bound :: usize
  cached_nodes :: usize
  q_head :: usize
  q_first :: usize
  q_tail_copy :: usize
  p_pc :: "'a producer_pc"
  c_pc :: "'a consumer_pc"
  pushed :: "'a list"
  popped :: "'a list"

definition Node_new :: "'a Node" where
  "Node_new = \<lparr>n_value = None, n_cached = False, n_next = 0\<rparr>"

text \<open>The two nodes get addresses \<open>n1\<close> and \<open>n2\<close>.\<close>

definition Queue_with_additions :: "usize \<Rightarrow> usize \<Rightarrow> usize \<Rightarrow> 'a Queue" where
  "Queue_with_additions bound n1 n2 =
     \<lparr>q_heap = [n1 \<mapsto> Node_new\<lparr>n_next := n2\<rparr>, n2 \<mapsto> Node_new],
      q_tail = n2, q_tail_prev = n1, cache_bound = bound, cached_nodes = 0,
      q_head = n2, q_first = n1, q_tail_copy = n1,
      p_pc = P_idle, c_pc = C_idle, pushed = [], popped = []\<rparr>"

definition node_at :: "usize \<Rightarrow> 'a Queue \<Rightarrow> 'a Node res" where
  "node_at a s = (case q_heap s a of Some n \<Rightarrow> Inr n | None \<Rightarrow> Inl (Undefined ''access to a dead node''))"

definition set_node :: "usize \<Rightarrow> 'a Node \<Rightarrow> 'a Queue \<Rightarrow> 'a Queue" where
  "set_node a n s = s\<lparr>q_heap := (q_heap s)(a \<mapsto> n)\<rparr>"

definition pgo :: "'a producer_pc \<Rightarrow> 'a Queue \<Rightarrow> 'a Queue" where
  "pgo pc s = s\<lparr>p_pc := pc\<rparr>"

definition cgo :: "'a consumer_pc \<Rightarrow> 'a Queue \<Rightarrow> 'a Queue" where
  "cgo pc s = s\<lparr>c_pc := pc\<rparr>"

subsection \<open>push\<close>

definition take_first :: "'a \<Rightarrow> 'a Queue \<Rightarrow> 'a Queue res" where
  "take_first t s =
     (let r = q_first s in bindR (node_at r s) (\<lambda>n. Inr (pgo (P_value t r) (s\<lparr>q_first := n_next n\<rparr>))))"

definition alloc_first :: "'a \<Rightarrow> 'a Queue \<Rightarrow> 'a Queue res" where
  "alloc_first t s = (if q_first s \<noteq> q_tail_copy s then take_first t s else Inr (pgo (P_copy t) s))"

definition alloc_copy :: "'a \<Rightarrow> 'a Queue \<Rightarrow> 'a Queue" where
  "alloc_copy t s = pgo (P_second t) (s\<lparr>q_tail_copy := q_tail_prev s\<rparr>)"

definition alloc_second :: "'a \<Rightarrow> 'a Queue \<Rightarrow> 'a Queue res" where
  "alloc_second t s = (if q_first s \<noteq> q_tail_copy s then take_first t s else Inr (pgo (P_new t) s))"

definition alloc_new :: "'a \<Rightarrow> usize \<Rightarrow> 'a Queue \<Rightarrow> 'a Queue option" where
  "alloc_new t a s = (if q_heap s a = None \<and> a \<noteq> 0 then Some (pgo (P_value t a) (set_node a Node_new s)) else None)"

definition push_value :: "'a \<Rightarrow> usize \<Rightarrow> 'a Queue \<Rightarrow> 'a Queue res" where
  "push_value t n s =
     bindR (node_at n s) (\<lambda>nd.
     bindR (assertR ''assertion failed: (*n).value.is_none()'' (n_value nd = None)) (\<lambda>_.
     Inr (pgo (P_null t n) (set_node n (nd\<lparr>n_value := Some t\<rparr>) s))))"

definition push_null :: "'a \<Rightarrow> usize \<Rightarrow> 'a Queue \<Rightarrow> 'a Queue res" where
  "push_null t n s = bindR (node_at n s) (\<lambda>nd. Inr (pgo (P_link t n) (set_node n (nd\<lparr>n_next := 0\<rparr>) s)))"

definition push_link :: "'a \<Rightarrow> usize \<Rightarrow> 'a Queue \<Rightarrow> 'a Queue res" where
  "push_link t n s =
     bindR (node_at (q_head s) s) (\<lambda>h.
     Inr (pgo (P_head n) (set_node (q_head s) (h\<lparr>n_next := n\<rparr>) s)\<lparr>pushed := pushed s @ [t]\<rparr>))"

definition push_head :: "usize \<Rightarrow> 'a Queue \<Rightarrow> 'a Queue" where
  "push_head n s = pgo P_idle (s\<lparr>q_head := n\<rparr>)"

subsection \<open>pop and peek\<close>

definition pop_load :: "'a Queue \<Rightarrow> 'a Queue res" where
  "pop_load s =
     (let tail = q_tail s in
      bindR (node_at tail s) (\<lambda>n. if n_next n = 0 then Inr s else Inr (cgo (C_take tail (n_next n)) s)))"

definition pop_take :: "usize \<Rightarrow> usize \<Rightarrow> 'a Queue \<Rightarrow> 'a Queue res" where
  "pop_take tail nxt s =
     bindR (node_at nxt s) (\<lambda>n.
     bindR (expectR ''assertion failed: (*next).value.is_some()'' (n_value n)) (\<lambda>v.
     Inr (cgo (C_advance tail nxt v) (set_node nxt (n\<lparr>n_value := None\<rparr>) s)\<lparr>popped := popped s @ [v]\<rparr>)))"

definition pop_advance :: "usize \<Rightarrow> usize \<Rightarrow> 'a \<Rightarrow> 'a Queue \<Rightarrow> 'a Queue" where
  "pop_advance tail nxt v s = cgo (C_retire tail nxt v) (s\<lparr>q_tail := nxt\<rparr>)"

definition pop_retire :: "usize \<Rightarrow> usize \<Rightarrow> 'a \<Rightarrow> 'a Queue \<Rightarrow> 'a Queue res" where
  "pop_retire tail nxt v s =
     (if cache_bound s = 0 then Inr (cgo C_idle (s\<lparr>q_tail_prev := tail\<rparr>))
      else
        let cached = cached_nodes s in
        bindR (node_at tail s) (\<lambda>n.
        Inr (cgo (C_cached tail nxt v)
          (if cached < cache_bound s \<and> \<not> n_cached n
           then set_node tail (n\<lparr>n_cached := True\<rparr>) (s\<lparr>cached_nodes := cached\<rparr>) else s))))"

definition pop_cached :: "usize \<Rightarrow> usize \<Rightarrow> 'a \<Rightarrow> 'a Queue \<Rightarrow> 'a Queue res" where
  "pop_cached tail nxt v s =
     bindR (node_at tail s) (\<lambda>n.
     if n_cached n then Inr (cgo C_idle (s\<lparr>q_tail_prev := tail\<rparr>)) else Inr (cgo (C_unlink tail nxt v) s))"

definition pop_unlink :: "usize \<Rightarrow> usize \<Rightarrow> 'a \<Rightarrow> 'a Queue \<Rightarrow> 'a Queue res" where
  "pop_unlink tail nxt v s =
     bindR (node_at (q_tail_prev s) s) (\<lambda>n.
     Inr (cgo (C_free tail v) (set_node (q_tail_prev s) (n\<lparr>n_next := nxt\<rparr>) s)))"

definition pop_free :: "usize \<Rightarrow> 'a \<Rightarrow> 'a Queue \<Rightarrow> 'a Queue res" where
  "pop_free tail v s = bindR (node_at tail s) (\<lambda>_. Inr (cgo C_idle (s\<lparr>q_heap := (q_heap s)(tail := None)\<rparr>)))"

definition peek :: "'a Queue \<Rightarrow> 'a option res" where
  "peek s =
     bindR (node_at (q_tail s) s) (\<lambda>n.
     if n_next n = 0 then Inr None else bindR (node_at (n_next n) s) (\<lambda>m. Inr (n_value m)))"

subsection \<open>Steps, runs, and the end\<close>

datatype 'a spsc_choice = Push 'a | Alloc usize | P_go | Pop | C_go

fun producer_step :: "'a producer_pc \<Rightarrow> 'a spsc_choice \<Rightarrow> 'a Queue \<Rightarrow> 'a Queue run" where
  "producer_step P_idle c s = (case c of Push t \<Rightarrow> ret (pgo (P_first t) s) | _ \<Rightarrow> None)"
| "producer_step (P_first t) c s = Some (alloc_first t s)"
| "producer_step (P_copy t) c s = ret (alloc_copy t s)"
| "producer_step (P_second t) c s = Some (alloc_second t s)"
| "producer_step (P_new t) c s = (case c of Alloc a \<Rightarrow> map_option Inr (alloc_new t a s) | _ \<Rightarrow> None)"
| "producer_step (P_value t n) c s = Some (push_value t n s)"
| "producer_step (P_null t n) c s = Some (push_null t n s)"
| "producer_step (P_link t n) c s = Some (push_link t n s)"
| "producer_step (P_head n) c s = ret (push_head n s)"

fun consumer_step :: "'a consumer_pc \<Rightarrow> 'a spsc_choice \<Rightarrow> 'a Queue \<Rightarrow> 'a Queue run" where
  "consumer_step C_idle c s = (if c = Pop then Some (pop_load s) else None)"
| "consumer_step (C_take t n) c s = Some (pop_take t n s)"
| "consumer_step (C_advance t n v) c s = ret (pop_advance t n v s)"
| "consumer_step (C_retire t n v) c s = Some (pop_retire t n v s)"
| "consumer_step (C_cached t n v) c s = Some (pop_cached t n v s)"
| "consumer_step (C_unlink t n v) c s = Some (pop_unlink t n v s)"
| "consumer_step (C_free t v) c s = Some (pop_free t v s)"

definition spsc_step :: "'a spsc_choice \<Rightarrow> 'a Queue \<Rightarrow> 'a Queue run" where
  "spsc_step c s = (if c = Pop \<or> c = C_go then consumer_step (c_pc s) c s else producer_step (p_pc s) c s)"

fun spsc_run :: "'a spsc_choice list \<Rightarrow> 'a Queue \<Rightarrow> 'a Queue run" where
  "spsc_run [] s = ret s"
| "spsc_run (c # cs) s = bindO (spsc_step c s) (spsc_run cs)"

text \<open>\<open>Drop\<close>, when neither thread is in an operation: the loop frees the nodes from \<open>first\<close> on.\<close>

partial_function (option) drop_loop :: "usize \<Rightarrow> (usize \<Rightarrow> 'a Node option) \<Rightarrow> (usize \<Rightarrow> 'a Node option) run" where
  "drop_loop cur h =
     (if cur = 0 then ret h
      else case h cur of
             None \<Rightarrow> Some (Inl (Undefined ''access to a dead node''))
           | Some n \<Rightarrow> drop_loop (n_next n) (h(cur := None)))"

definition Queue_drop :: "'a Queue \<Rightarrow> (usize \<Rightarrow> 'a Node option) run" where
  "Queue_drop s = drop_loop (q_first s) (q_heap s)"

end
