(* ===== verification/Spsc_Queue_Spec.thy ===== *)
theory Spsc_Queue_Spec
  imports Spsc_Queue
begin

section \<open>The queue with one producer and one consumer is a FIFO queue\<close>

text \<open>
  All live nodes form one list from \<open>first\<close>: nodes to be used again, up to \<open>tail_prev\<close>, then the nodes the consumer is at, then
  the nodes with the values in the queue; one more node may be in the hands of the producer.
\<close>

subsection \<open>Linked lists on the heap\<close>

fun nodes :: "(usize \<Rightarrow> 'a Node option) \<Rightarrow> usize list \<Rightarrow> usize \<Rightarrow> bool" where
  "nodes h [] p \<longleftrightarrow> p = 0"
| "nodes h (a # as) p \<longleftrightarrow> p = a \<and> a \<noteq> 0 \<and> (\<exists>n. h a = Some n \<and> nodes h as (n_next n))"

lemma nodes_other [simp]: "a \<notin> set L \<Longrightarrow> nodes (h(a := x)) L p \<longleftrightarrow> nodes h L p"
  by (induction L arbitrary: p) auto

lemma nodes_same_next: "h a = Some n \<Longrightarrow> n_next n' = n_next n \<Longrightarrow> nodes (h(a \<mapsto> n')) L p \<longleftrightarrow> nodes h L p"
  by (induction L arbitrary: p) auto

lemma nodes_node: "nodes h L p \<Longrightarrow> a \<in> set L \<Longrightarrow> a \<noteq> 0 \<and> (\<exists>n. h a = Some n)"
  by (induction L arbitrary: p) auto

lemma nodes_next: "nodes h (xs @ a # b # ys) p \<Longrightarrow> \<exists>n. h a = Some n \<and> n_next n = b"
  by (induction xs arbitrary: p) auto

lemma nodes_last: "nodes h (xs @ [a]) p \<Longrightarrow> \<exists>n. h a = Some n \<and> n_next n = 0"
  by (induction xs arbitrary: p) auto

lemma nodes_link:
  "nodes h (xs @ [a]) p \<Longrightarrow> distinct (xs @ [a]) \<Longrightarrow> x \<notin> set (xs @ [a]) \<Longrightarrow> x \<noteq> 0 \<Longrightarrow> h x = Some nx \<Longrightarrow> n_next nx = 0 \<Longrightarrow>
     h a = Some n \<Longrightarrow> nodes (h(a \<mapsto> n\<lparr>n_next := x\<rparr>)) (xs @ [a, x]) p"
  by (induction xs arbitrary: p) auto

lemma nodes_first: "nodes h (a # as) p \<Longrightarrow> p = a"
  by simp

subsection \<open>The invariant\<close>

definition val :: "(usize \<Rightarrow> 'a Node option) \<Rightarrow> usize \<Rightarrow> 'a option" where
  "val h a = Option.bind (h a) n_value"

fun pending :: "'a producer_pc \<Rightarrow> usize set" where
  "pending (P_value _ n) = {n}"
| "pending (P_null _ n) = {n}"
| "pending (P_link _ n) = {n}"
| "pending _ = {}"

fun pending_ok :: "(usize \<Rightarrow> 'a Node option) \<Rightarrow> 'a producer_pc \<Rightarrow> bool" where
  "pending_ok h (P_value t n) \<longleftrightarrow> n \<noteq> 0 \<and> val h n = None"
| "pending_ok h (P_null t n) \<longleftrightarrow> n \<noteq> 0 \<and> val h n = Some t"
| "pending_ok h (P_link t n) \<longleftrightarrow> n \<noteq> 0 \<and> val h n = Some t \<and> (\<exists>nd. h n = Some nd \<and> n_next nd = 0)"
| "pending_ok h _ \<longleftrightarrow> True"

text \<open>The nodes after \<open>tail_prev\<close> without a value, from what the consumer does, and the first node with a value.\<close>

fun consumer_at :: "'a consumer_pc \<Rightarrow> usize \<Rightarrow> usize list \<Rightarrow> usize list \<Rightarrow> bool" where
  "consumer_at C_idle d E Q \<longleftrightarrow> E = [d]"
| "consumer_at (C_take t n) d E Q \<longleftrightarrow> E = [d] \<and> t = d \<and> Q \<noteq> [] \<and> hd Q = n"
| "consumer_at (C_advance t n v) d E Q \<longleftrightarrow> E = [d, n] \<and> t = d"
| "consumer_at (C_retire t n v) d E Q \<longleftrightarrow> E = [t, n] \<and> d = n"
| "consumer_at (C_cached t n v) d E Q \<longleftrightarrow> E = [t, n] \<and> d = n"
| "consumer_at _ d E Q \<longleftrightarrow> False"

fun cached_ok :: "(usize \<Rightarrow> 'a Node option) \<Rightarrow> 'a consumer_pc \<Rightarrow> bool" where
  "cached_ok h (C_cached t n v) \<longleftrightarrow> (\<exists>nd. h t = Some nd \<and> n_cached nd)"
| "cached_ok h _ \<longleftrightarrow> True"

fun head_at :: "'a producer_pc \<Rightarrow> usize \<Rightarrow> usize \<Rightarrow> bool" where
  "head_at (P_head n) d l \<longleftrightarrow> l = n"
| "head_at _ d l \<longleftrightarrow> l = d"

definition spsc_layout :: "'a Queue \<Rightarrow> usize list \<Rightarrow> usize list \<Rightarrow> usize list \<Rightarrow> bool" where
  "spsc_layout s used E Q \<longleftrightarrow>
     (let L = used @ q_tail_prev s # E @ Q in
      nodes (q_heap s) L (q_first s) \<and> distinct L \<and> dom (q_heap s) = set L \<union> pending (p_pc s) \<and>
      pending (p_pc s) \<inter> set L = {} \<and> q_tail_copy s \<in> set used \<union> {q_tail_prev s} \<and>
      consumer_at (c_pc s) (q_tail s) E Q \<and> head_at (p_pc s) (q_head s) (last L))"

definition spsc_values :: "'a Queue \<Rightarrow> usize list \<Rightarrow> usize list \<Rightarrow> usize list \<Rightarrow> bool" where
  "spsc_values s used E Q \<longleftrightarrow>
     (\<forall>a \<in> set used \<union> {q_tail_prev s} \<union> set E. val (q_heap s) a = None) \<and>
     (\<exists>cs. map (val (q_heap s)) Q = map Some cs \<and> pushed s = popped s @ cs) \<and>
     pending_ok (q_heap s) (p_pc s) \<and> cached_ok (q_heap s) (c_pc s) \<and> cached_nodes s = 0"

definition spsc_inv :: "'a Queue \<Rightarrow> bool" where
  "spsc_inv s \<longleftrightarrow> (\<exists>used E Q. spsc_layout s used E Q \<and> spsc_values s used E Q)"

lemma spsc_inv_new: "n1 \<noteq> 0 \<Longrightarrow> n2 \<noteq> 0 \<Longrightarrow> n1 \<noteq> n2 \<Longrightarrow> spsc_inv (Queue_with_additions bound n1 n2)"
  unfolding spsc_inv_def
  by (intro exI [of _ "[]"] exI [of _ "[n2]"])
    (auto simp: spsc_layout_def spsc_values_def Queue_with_additions_def Node_new_def val_def dom_def)

lemma layoutD:
  assumes "spsc_layout s used E Q"
  shows "nodes (q_heap s) (used @ q_tail_prev s # E @ Q) (q_first s)" "distinct (used @ q_tail_prev s # E @ Q)"
    and "dom (q_heap s) = set (used @ q_tail_prev s # E @ Q) \<union> pending (p_pc s)"
    and "pending (p_pc s) \<inter> set (used @ q_tail_prev s # E @ Q) = {}"
    and "q_tail_copy s \<in> set used \<union> {q_tail_prev s}" "consumer_at (c_pc s) (q_tail s) E Q"
    and "head_at (p_pc s) (q_head s) (last (used @ q_tail_prev s # E @ Q))"
  using assms by (simp_all add: spsc_layout_def Let_def)

subsection \<open>The producer's steps\<close>

definition spsc_safe :: "'a Queue res \<Rightarrow> bool" where
  "spsc_safe r \<longleftrightarrow> (\<exists>s. r = Inr s \<and> spsc_inv s)"

lemma spsc_invE:
  assumes "spsc_inv s"
  obtains used E Q where "spsc_layout s used E Q" "spsc_values s used E Q"
  using assms by (auto simp: spsc_inv_def)

lemma spsc_invI: "spsc_layout s used E Q \<Longrightarrow> spsc_values s used E Q \<Longrightarrow> spsc_inv s"
  by (auto simp: spsc_inv_def)

text \<open>A step that only moves the producer, and possibly \<open>tail_copy\<close>.\<close>

lemma inv_pgo:
  assumes "spsc_inv s" "pending pc = pending (p_pc s)" "pending_ok (q_heap s) pc"
    and "\<And>l. head_at (p_pc s) (q_head s) l \<Longrightarrow> head_at pc (q_head s) l"
  shows "spsc_inv (pgo pc s)"
proof -
  obtain used E Q where l: "spsc_layout s used E Q" "spsc_values s used E Q" using assms(1) by (rule spsc_invE)
  then show ?thesis using assms(2-) by (intro spsc_invI [of _ used E Q]) (auto simp: spsc_layout_def spsc_values_def pgo_def Let_def)
qed

lemma take_first_safe:
  assumes "spsc_inv s" "q_first s \<noteq> q_tail_copy s" "p_pc s = P_first t \<or> p_pc s = P_second t"
  shows "spsc_safe (take_first t s)"
proof -
  obtain used E Q where l: "spsc_layout s used E Q" "spsc_values s used E Q" using assms(1) by (rule spsc_invE)
  note d = layoutD [OF l(1)]
  have "used \<noteq> []" using d(1,5) assms(2) by (cases used) auto
  then obtain us where u: "used = q_first s # us" using d(1) by (cases used) auto
  then obtain n where n: "q_heap s (q_first s) = Some n" "nodes (q_heap s) (us @ q_tail_prev s # E @ Q) (n_next n)"
    using d(1) by auto
  let ?s = "pgo (P_value t (q_first s)) (s\<lparr>q_first := n_next n\<rparr>)"
  have "spsc_layout ?s us E Q"
    using l(1) n u assms(2,3) by (auto simp: spsc_layout_def Let_def pgo_def)
  moreover have "spsc_values ?s us E Q"
    using l(2) n u d(1) by (auto simp: spsc_values_def pgo_def)
  ultimately show ?thesis using n(1) by (auto simp: spsc_safe_def take_first_def node_at_def intro: spsc_invI)
qed

lemma alloc_new_safe:
  assumes "spsc_inv s" "p_pc s = P_new t" "alloc_new t a s = Some s'"
  shows "spsc_inv s'"
proof -
  obtain used E Q where l: "spsc_layout s used E Q" "spsc_values s used E Q" using assms(1) by (rule spsc_invE)
  note d = layoutD [OF l(1)]
  have a: "q_heap s a = None" "a \<noteq> 0" "s' = pgo (P_value t a) (set_node a Node_new s)"
    using assms(3) by (auto simp: alloc_new_def split: if_splits)
  then have na: "a \<notin> set (used @ q_tail_prev s # E @ Q)" using d(3) by (metis UnI1 domIff)
  have v: "val ((q_heap s)(a \<mapsto> Node_new)) b = val (q_heap s) b" if "b \<noteq> a" for b using that by (simp add: val_def)
  have "spsc_layout s' used E Q"
    using l(1) a na assms(2) by (auto simp: spsc_layout_def Let_def pgo_def set_node_def)
  moreover have "spsc_values s' used E Q"
  proof -
    have L: "val (q_heap s') b = val (q_heap s) b" if "b \<in> set (used @ q_tail_prev s # E @ Q)" for b
      using that na v [of b] by (auto simp: a(3) pgo_def set_node_def)
    then have "map (val (q_heap s')) Q = map (val (q_heap s)) Q" by simp
    moreover have "cached_ok (q_heap s') (c_pc s)" using l(2) a(1) by (cases "c_pc s") (auto simp: spsc_values_def a(3) pgo_def set_node_def)
    moreover have "val (q_heap s') a = None" by (simp add: a(3) pgo_def set_node_def val_def Node_new_def)
    ultimately show ?thesis using l(2) a L by (auto simp: spsc_values_def pgo_def set_node_def simp del: map_eq_conv)
  qed
  ultimately show ?thesis by (rule spsc_invI)
qed

text \<open>A write to the node that the producer holds.\<close>

lemma inv_pending_write:
  assumes "spsc_inv s" "pending (p_pc s) = {n}" "pending pc = {n}" "pending_ok ((q_heap s)(n \<mapsto> nd)) pc"
    and "\<And>l. head_at (p_pc s) (q_head s) l \<Longrightarrow> head_at pc (q_head s) l"
  shows "spsc_inv (pgo pc (set_node n nd s))"
proof -
  obtain used E Q where l: "spsc_layout s used E Q" "spsc_values s used E Q" using assms(1) by (rule spsc_invE)
  note d = layoutD [OF l(1)]
  let ?s = "pgo pc (set_node n nd s)" and ?L = "used @ q_tail_prev s # E @ Q"
  have n: "n \<notin> set ?L" using d(4) assms(2) by auto
  have v: "val ((q_heap s)(n \<mapsto> nd)) b = val (q_heap s) b" if "b \<noteq> n" for b using that by (simp add: val_def)
  have "spsc_layout ?s used E Q"
    using l(1) n assms by (auto simp: spsc_layout_def Let_def pgo_def set_node_def)
  moreover have "spsc_values ?s used E Q"
  proof -
    have L: "val (q_heap ?s) b = val (q_heap s) b" if "b \<in> set ?L" for b
      using that n v [of b] by (auto simp: pgo_def set_node_def)
    then have "map (val (q_heap ?s)) Q = map (val (q_heap s)) Q" by simp
    moreover have "cached_ok (q_heap ?s) (c_pc s)"
      using l n d(6) by (cases "c_pc s") (auto simp: spsc_values_def pgo_def set_node_def)
    ultimately show ?thesis using l(2) assms(4) L by (auto simp: spsc_values_def pgo_def set_node_def simp del: map_eq_conv)
  qed
  ultimately show ?thesis by (rule spsc_invI)
qed

lemma push_value_safe:
  assumes "spsc_inv s" "p_pc s = P_value t n"
  shows "spsc_safe (push_value t n s)"
proof -
  obtain used E Q where l: "spsc_layout s used E Q" "spsc_values s used E Q" using assms(1) by (rule spsc_invE)
  have "n \<in> dom (q_heap s)" using layoutD(3) [OF l(1)] assms(2) by simp
  then obtain nd where nd: "q_heap s n = Some nd" by blast
  then have "n_value nd = None" "n \<noteq> 0" using l(2) assms(2) by (auto simp: spsc_values_def val_def)
  moreover have "spsc_inv (pgo (P_null t n) (set_node n (nd\<lparr>n_value := Some t\<rparr>) s))"
    by (rule inv_pending_write [OF assms(1)]) (use assms(2) \<open>n \<noteq> 0\<close> in \<open>auto simp: val_def\<close>)
  ultimately show ?thesis using nd by (simp add: push_value_def node_at_def spsc_safe_def)
qed

lemma push_null_safe:
  assumes "spsc_inv s" "p_pc s = P_null t n"
  shows "spsc_safe (push_null t n s)"
proof -
  obtain used E Q where l: "spsc_layout s used E Q" "spsc_values s used E Q" using assms(1) by (rule spsc_invE)
  have "n \<in> dom (q_heap s)" using layoutD(3) [OF l(1)] assms(2) by simp
  then obtain nd where nd: "q_heap s n = Some nd" by blast
  then have "n_value nd = Some t" "n \<noteq> 0" using l(2) assms(2) by (auto simp: spsc_values_def val_def)
  then have "spsc_inv (pgo (P_link t n) (set_node n (nd\<lparr>n_next := 0\<rparr>) s))"
    by (intro inv_pending_write [OF assms(1)]) (use assms(2) in \<open>auto simp: val_def\<close>)
  then show ?thesis using nd by (simp add: push_null_def node_at_def spsc_safe_def)
qed

text \<open>The new node is linked behind the last one: its value is in the queue from here on.\<close>

lemma push_link_safe:
  assumes "spsc_inv s" "p_pc s = P_link t n"
  shows "spsc_safe (push_link t n s)"
proof -
  obtain used E Q where l: "spsc_layout s used E Q" "spsc_values s used E Q" using assms(1) by (rule spsc_invE)
  note d = layoutD [OF l(1)]
  let ?L = "used @ q_tail_prev s # E @ Q"
  obtain xs where xs: "?L = xs @ [q_head s]"
    using d(7) assms(2) by (metis append_butlast_last_id append_is_Nil_conv head_at.simps(9) list.distinct(1))
  then obtain h where h: "q_heap s (q_head s) = Some h" using nodes_node [OF d(1)] by (metis in_set_conv_decomp)
  obtain nd where nd: "q_heap s n = Some nd" "n_value nd = Some t" "n_next nd = 0" "n \<noteq> 0"
    using l(2) assms(2) by (auto simp: spsc_values_def val_def)
  have n: "n \<notin> set ?L" using d(4) assms(2) by auto
  then have nh: "n \<noteq> q_head s" using xs by auto
  let ?h = "(q_heap s)(q_head s \<mapsto> h\<lparr>n_next := n\<rparr>)"
  let ?s = "pgo (P_head n) (set_node (q_head s) (h\<lparr>n_next := n\<rparr>) s)\<lparr>pushed := pushed s @ [t]\<rparr>"
  have c: "nodes ?h (?L @ [n]) (q_first s)"
    using nodes_link [of "q_heap s" xs "q_head s" "q_first s" n nd h] d(1,2) n nd h unfolding xs by simp
  have v: "val ?h = val (q_heap s)" using h by (auto simp: val_def)
  have ca: "consumer_at (c_pc s) (q_tail s) E (Q @ [n])" using d(6) by (cases "c_pc s") auto
  have "spsc_layout ?s used E (Q @ [n])"
    using c d n nd h ca assms(2) by (auto simp: spsc_layout_def Let_def pgo_def set_node_def)
  moreover have "spsc_values ?s used E (Q @ [n])"
  proof -
    have "cached_ok ?h (c_pc s)" using l(2) h by (cases "c_pc s") (auto simp: spsc_values_def)
    moreover have "val (q_heap s) n = Some t" using nd by (simp add: val_def)
    ultimately show ?thesis using l(2) v assms(2) by (auto simp: spsc_values_def pgo_def set_node_def) 
  qed
  ultimately show ?thesis using h by (auto simp: push_link_def node_at_def spsc_safe_def intro: spsc_invI)
qed

lemma push_head_safe:
  assumes "spsc_inv s" "p_pc s = P_head n"
  shows "spsc_inv (push_head n s)"
proof -
  obtain used E Q where l: "spsc_layout s used E Q" "spsc_values s used E Q" using assms(1) by (rule spsc_invE)
  then show ?thesis using assms(2)
    by (intro spsc_invI [of _ used E Q]) (auto simp: spsc_layout_def spsc_values_def push_head_def pgo_def Let_def)
qed

lemma alloc_copy_safe:
  assumes "spsc_inv s" "p_pc s = P_copy t"
  shows "spsc_inv (alloc_copy t s)"
proof -
  obtain used E Q where l: "spsc_layout s used E Q" "spsc_values s used E Q" using assms(1) by (rule spsc_invE)
  then show ?thesis using assms(2)
    by (intro spsc_invI [of _ used E Q]) (auto simp: spsc_layout_def spsc_values_def alloc_copy_def pgo_def Let_def)
qed

subsection \<open>The consumer's steps\<close>

lemma pop_load_safe:
  assumes "spsc_inv s" "c_pc s = C_idle"
  shows "spsc_safe (pop_load s)" "pop_load s = Inr s' \<Longrightarrow> c_pc s' = C_idle \<Longrightarrow> popped s = pushed s"
proof -
  obtain used E Q where l: "spsc_layout s used E Q" "spsc_values s used E Q" using assms(1) by (rule spsc_invE)
  note d = layoutD [OF l(1)]
  have E: "E = [q_tail s]" using d(6) assms(2) by simp
  have "spsc_safe (pop_load s) \<and> (\<forall>s'. pop_load s = Inr s' \<longrightarrow> c_pc s' = C_idle \<longrightarrow> popped s = pushed s)"
  proof (cases Q)
    case Nil
    then obtain n where "q_heap s (q_tail s) = Some n" "n_next n = 0"
      using d(1) E nodes_last [of "q_heap s" "used @ [q_tail_prev s]" "q_tail s"] by auto
    moreover have "popped s = pushed s" using l(2) Nil by (auto simp: spsc_values_def)
    ultimately show ?thesis using assms(1) by (simp add: pop_load_def node_at_def spsc_safe_def)
  next
    case (Cons q Q')
    then obtain n where n: "q_heap s (q_tail s) = Some n" "n_next n = q"
      using d(1) E nodes_next [of "q_heap s" "used @ [q_tail_prev s]" "q_tail s" q Q'] by auto
    have "q \<noteq> 0" using nodes_node [OF d(1), of q] Cons by simp
    have "spsc_layout (cgo (C_take (q_tail s) q) s) used E Q" "spsc_values (cgo (C_take (q_tail s) q) s) used E Q"
      using l E Cons by (auto simp: spsc_layout_def spsc_values_def cgo_def Let_def)
    then have "spsc_inv (cgo (C_take (q_tail s) q) s)" by (rule spsc_invI)
    then show ?thesis using n \<open>q \<noteq> 0\<close> by (auto simp: pop_load_def node_at_def spsc_safe_def cgo_def)
  qed
  then show "spsc_safe (pop_load s)" "pop_load s = Inr s' \<Longrightarrow> c_pc s' = C_idle \<Longrightarrow> popped s = pushed s" by auto
qed

lemma pop_take_safe:
  assumes "spsc_inv s" "c_pc s = C_take t q"
  shows "spsc_safe (pop_take t q s)"
proof -
  obtain used E Q where l: "spsc_layout s used E Q" "spsc_values s used E Q" using assms(1) by (rule spsc_invE)
  note d = layoutD [OF l(1)]
  obtain Q' where Q: "Q = q # Q'" "E = [q_tail s]" "t = q_tail s" using d(6) assms(2) by (cases Q) auto
  obtain cs where cs: "map (val (q_heap s)) Q = map Some cs" "pushed s = popped s @ cs" using l(2) by (auto simp: spsc_values_def)
  then obtain v cs' where v: "cs = v # cs'" "val (q_heap s) q = Some v" "map (val (q_heap s)) Q' = map Some cs'"
    using Q(1) by (cases cs) auto
  then obtain n where n: "q_heap s q = Some n" "n_value n = Some v" by (auto simp: val_def bind_eq_Some_conv)
  let ?h = "(q_heap s)(q \<mapsto> n\<lparr>n_value := None\<rparr>)"
  let ?s = "cgo (C_advance t q v) (set_node q (n\<lparr>n_value := None\<rparr>) s)\<lparr>popped := popped s @ [v]\<rparr>"
  have q: "q \<notin> set Q'" "q \<notin> pending (p_pc s)" using d(2,4) Q by auto
  have w: "val ?h b = (if b = q then None else val (q_heap s) b)" for b by (simp add: val_def)
  have p: "pending_ok ?h (p_pc s)" using l(2) q(2) w by (cases "p_pc s") (auto simp: spsc_values_def)
  have "map (val ?h) Q' = map Some cs'" using v(3) q(1) w by (simp add: map_eq_conv [of "val ?h" Q' "val (q_heap s)", THEN iffD2])
  moreover have "spsc_layout ?s used [q_tail s, q] Q'"
    using l(1) Q n(1) nodes_same_next [of "q_heap s" q n "n\<lparr>n_value := None\<rparr>"]
    by (auto simp: spsc_layout_def Let_def cgo_def set_node_def)
  ultimately have "spsc_inv ?s"
    using l(2) cs(2) v(1) Q w p
    by (intro spsc_invI [of _ used "[q_tail s, q]" Q']) (auto simp: spsc_values_def cgo_def set_node_def simp del: map_eq_conv)
  then show ?thesis using n by (simp add: pop_take_def node_at_def spsc_safe_def)
qed

lemma pop_advance_safe:
  assumes "spsc_inv s" "c_pc s = C_advance t q v"
  shows "spsc_inv (pop_advance t q v s)"
proof -
  obtain used E Q where l: "spsc_layout s used E Q" "spsc_values s used E Q" using assms(1) by (rule spsc_invE)
  then show ?thesis using assms(2)
    by (intro spsc_invI [of _ used E Q]) (auto simp: spsc_layout_def spsc_values_def pop_advance_def cgo_def Let_def)
qed

text \<open>\<open>tail_prev\<close> moves to the old tail: the node before it can be used again.\<close>

lemma inv_retired:
  assumes "spsc_inv s" "c_pc s = C_retire t q v \<or> c_pc s = C_cached t q v"
  shows "spsc_inv (cgo C_idle (s\<lparr>q_tail_prev := t\<rparr>))"
proof -
  obtain used E Q where l: "spsc_layout s used E Q" "spsc_values s used E Q" using assms(1) by (rule spsc_invE)
  then have "E = [t, q]" "q_tail s = q" using assms(2) by (auto simp: spsc_layout_def Let_def)
  then show ?thesis using l assms(2)
    by (intro spsc_invI [of _ "used @ [q_tail_prev s]" "[q]" Q]) (auto simp: spsc_layout_def spsc_values_def cgo_def Let_def)
qed

lemma pop_retire_safe:
  assumes "spsc_inv s" "c_pc s = C_retire t q v"
  shows "spsc_safe (pop_retire t q v s)"
proof (cases "cache_bound s = 0")
  case True
  moreover have "spsc_inv (cgo C_idle (s\<lparr>q_tail_prev := t\<rparr>))" using inv_retired [OF assms(1)] assms(2) by blast
  ultimately show ?thesis by (simp add: pop_retire_def spsc_safe_def)
next
  case False
  obtain used E Q where l: "spsc_layout s used E Q" "spsc_values s used E Q" using assms(1) by (rule spsc_invE)
  note d = layoutD [OF l(1)]
  have E: "E = [t, q]" "q_tail s = q" using d(6) assms(2) by auto
  obtain n where n: "q_heap s t = Some n" using nodes_node [OF d(1), of t] E by auto
  have c0: "cached_nodes s = 0" using l(2) by (simp add: spsc_values_def)
  have "0 < cache_bound s" using False by (simp add: word_neq_0_conv)
  let ?h = "(q_heap s)(t \<mapsto> n\<lparr>n_cached := True\<rparr>)"
  let ?s = "cgo (C_cached t q v) (set_node t (n\<lparr>n_cached := True\<rparr>) s)"
  have w: "val ?h = val (q_heap s)" using n by (auto simp: val_def)
  have "spsc_layout ?s used E Q"
    using l(1) E n nodes_same_next [of "q_heap s" t n "n\<lparr>n_cached := True\<rparr>"] assms(2)
    by (auto simp: spsc_layout_def Let_def cgo_def set_node_def)
  moreover have "spsc_values ?s used E Q"
  proof -
    have "pending_ok ?h (p_pc s)" using l(2) w n by (cases "p_pc s") (auto simp: spsc_values_def)
    then show ?thesis using l(2) w by (auto simp: spsc_values_def cgo_def set_node_def)
  qed
  ultimately have a: "spsc_inv ?s" by (rule spsc_invI)
  have "spsc_inv (cgo (C_cached t q v) s)" if "n_cached n"
    using l E n that by (intro spsc_invI [of _ used E Q]) (auto simp: spsc_layout_def spsc_values_def Let_def cgo_def)
  moreover have "set_node t x (s\<lparr>cached_nodes := cached_nodes s\<rparr>) = set_node t x s" for x by simp
  ultimately show ?thesis using a n False c0 \<open>0 < cache_bound s\<close>
    by (auto simp: pop_retire_def node_at_def spsc_safe_def Let_def)
qed

lemma pop_cached_safe:
  assumes "spsc_inv s" "c_pc s = C_cached t q v"
  shows "spsc_safe (pop_cached t q v s)"
proof -
  obtain used E Q where l: "spsc_layout s used E Q" "spsc_values s used E Q" using assms(1) by (rule spsc_invE)
  then obtain n where "q_heap s t = Some n" "n_cached n" using assms(2) by (auto simp: spsc_values_def)
  moreover have "spsc_inv (cgo C_idle (s\<lparr>q_tail_prev := t\<rparr>))" using inv_retired [OF assms(1)] assms(2) by blast
  ultimately show ?thesis by (simp add: pop_cached_def node_at_def spsc_safe_def)
qed

subsection \<open>Runs\<close>

lemma consumer_step_safe:
  assumes "spsc_inv s" "consumer_step (c_pc s) c s = Some r"
  shows "spsc_safe r"
proof (cases "c_pc s")
  case C_idle
  then show ?thesis using assms pop_load_safe(1) [OF assms(1)] by (auto split: if_splits)
next
  case (C_take t q)
  then show ?thesis using assms pop_take_safe by auto
next
  case (C_advance t q v)
  then show ?thesis using assms pop_advance_safe by (auto simp: spsc_safe_def)
next
  case (C_retire t q v)
  then show ?thesis using assms pop_retire_safe by auto
next
  case (C_cached t q v)
  then show ?thesis using assms pop_cached_safe by auto
qed (use assms(1) in \<open>auto elim!: spsc_invE simp: spsc_layout_def Let_def\<close>)

lemma producer_step_safe:
  assumes "spsc_inv s" "producer_step (p_pc s) c s = Some r"
  shows "spsc_safe r"
proof (cases "p_pc s")
  case P_idle
  then show ?thesis using assms by (auto simp: spsc_safe_def intro!: inv_pgo split: spsc_choice.splits)
next
  case (P_first t)
  then show ?thesis using assms take_first_safe [OF assms(1), of t]
    by (auto simp: alloc_first_def spsc_safe_def intro!: inv_pgo)
next
  case (P_copy t)
  then show ?thesis using assms alloc_copy_safe by (auto simp: spsc_safe_def)
next
  case (P_second t)
  then show ?thesis using assms take_first_safe [OF assms(1), of t]
    by (auto simp: alloc_second_def spsc_safe_def intro!: inv_pgo)
next
  case (P_new t)
  then show ?thesis using assms alloc_new_safe [OF assms(1)] by (auto simp: spsc_safe_def split: spsc_choice.splits)
next
  case (P_value t n)
  then show ?thesis using assms push_value_safe by auto
next
  case (P_null t n)
  then show ?thesis using assms push_null_safe by auto
next
  case (P_link t n)
  then show ?thesis using assms push_link_safe by auto
next
  case (P_head n)
  then show ?thesis using assms push_head_safe by (auto simp: spsc_safe_def)
qed

lemma spsc_step_safe: "spsc_inv s \<Longrightarrow> spsc_step c s = Some r \<Longrightarrow> spsc_safe r"
  using consumer_step_safe producer_step_safe by (auto simp: spsc_step_def split: if_splits)

lemma spsc_run_safe: "spsc_inv s \<Longrightarrow> spsc_run cs s = Some r \<Longrightarrow> spsc_safe r"
proof (induction cs arbitrary: s)
  case Nil
  then show ?case by (auto simp: spsc_safe_def)
next
  case (Cons c cs)
  then obtain r' where r': "spsc_step c s = Some r'" by (cases "spsc_step c s") auto
  then obtain s' where "r' = Inr s'" "spsc_inv s'" using spsc_step_safe [OF Cons.prems(1)] by (auto simp: spsc_safe_def)
  then show ?case using Cons r' by simp
qed

subsection \<open>The end of the queue\<close>

lemma drop_loop_nodes: "nodes h L p \<Longrightarrow> distinct L \<Longrightarrow> drop_loop p h = ret (\<lambda>a. if a \<in> set L then None else h a)"
proof (induction L arbitrary: h p)
  case Nil
  then show ?case by (subst drop_loop.simps) simp
next
  case (Cons a as)
  then obtain n where n: "h a = Some n" "nodes h as (n_next n)" "p = a" "a \<noteq> 0" by auto
  have c: "nodes (h(a := None)) as (n_next n)" using n(2) Cons.prems(2) by simp
  have "drop_loop (n_next n) (h(a := None)) = ret (\<lambda>b. if b \<in> set as then None else (h(a := None)) b)"
    by (rule Cons.IH [OF c]) (use Cons.prems(2) in simp)
  moreover have "(\<lambda>b. if b \<in> set as then None else (h(a := None)) b) = (\<lambda>b. if b \<in> set (a # as) then None else h b)" by auto
  ultimately show ?case using n by (subst drop_loop.simps) simp
qed

lemma Queue_drop_frees:
  assumes "spsc_inv s" "p_pc s = P_idle"
  shows "Queue_drop s = ret Map.empty"
proof -
  obtain used E Q where l: "spsc_layout s used E Q" "spsc_values s used E Q" using assms(1) by (rule spsc_invE)
  note d = layoutD [OF l(1)]
  let ?L = "used @ q_tail_prev s # E @ Q"
  have "q_heap s a = None" if "a \<notin> set ?L" for a using d(3) assms(2) that by (metis Un_empty_right domIff pending.simps(4))
  then have "(\<lambda>a. if a \<in> set ?L then None else q_heap s a) = Map.empty" by auto
  then show ?thesis using drop_loop_nodes [OF d(1,2)] by (simp add: Queue_drop_def)
qed

subsection \<open>The properties\<close>

text \<open>The values in the queue, and what a step does to them.\<close>

definition fifo :: "'a Queue \<Rightarrow> 'a list" where
  "fifo s = drop (length (popped s)) (pushed s)"

definition fifo_after :: "'a spsc_choice \<Rightarrow> 'a Queue \<Rightarrow> 'a list" where
  "fifo_after c s =
     (if c = Pop \<or> c = C_go then (case c_pc s of C_take _ _ \<Rightarrow> tl (fifo s) | _ \<Rightarrow> fifo s)
      else (case p_pc s of P_link t _ \<Rightarrow> fifo s @ [t] | _ \<Rightarrow> fifo s))"

lemma fifo_step:
  assumes "spsc_inv s" "spsc_step c s = ret s'"
  shows "fifo s' = fifo_after c s"
    and "c = Pop \<or> c = C_go \<Longrightarrow> c_pc s = C_take t n \<Longrightarrow> fifo s \<noteq> [] \<and> c_pc s' = C_advance t n (hd (fifo s))"
proof -
  obtain used E Q where l: "spsc_layout s used E Q" "spsc_values s used E Q" using assms(1) by (rule spsc_invE)
  then obtain q where q: "map (val (q_heap s)) Q = map Some q" "pushed s = popped s @ q" by (auto simp: spsc_values_def)
  then have f: "fifo s = q" by (simp add: fifo_def)
  show t: "c = Pop \<or> c = C_go \<Longrightarrow> c_pc s = C_take t n \<Longrightarrow> fifo s \<noteq> [] \<and> c_pc s' = C_advance t n (hd (fifo s))" for t n
  proof -
    assume c: "c = Pop \<or> c = C_go" "c_pc s = C_take t n"
    then have "Q \<noteq> []" "hd Q = n" using layoutD(6) [OF l(1)] by auto
    then have "q \<noteq> []" "val (q_heap s) n = Some (hd q)" using q(1) by (cases Q; cases q; auto)+
    then show ?thesis using assms(2) c f
      by (auto simp: spsc_step_def pop_take_def node_at_def val_def cgo_def set_node_def bindR_eq_Inr bind_eq_Some_conv split: option.splits)
  qed
  show "fifo s' = fifo_after c s"
  proof (cases "c = Pop \<or> c = C_go")
    case True
    then have st: "consumer_step (c_pc s) c s = ret s'" using assms(2) by (simp add: spsc_step_def)
    show ?thesis
    proof (cases "c_pc s")
      case (C_take a b)
      then have "fifo s \<noteq> []" "length (popped s') = Suc (length (popped s))" "pushed s' = pushed s"
        using t [OF True C_take] st
        by (auto simp: pop_take_def cgo_def set_node_def bindR_eq_Inr)
      then show ?thesis using C_take True by (simp add: fifo_after_def fifo_def drop_Suc tl_drop)
    qed (use st True in \<open>auto simp: fifo_after_def fifo_def pop_load_def pop_advance_def pop_retire_def pop_cached_def pop_unlink_def
          pop_free_def cgo_def set_node_def Let_def bindR_eq_Inr split: if_splits\<close>)
  next
    case False
    then have st: "producer_step (p_pc s) c s = ret s'" using assms(2) by (simp add: spsc_step_def)
    show ?thesis
    proof (cases "p_pc s")
      case (P_link t n)
      then have "pushed s' = pushed s @ [t]" "popped s' = popped s"
        using st by (auto simp: push_link_def pgo_def set_node_def bindR_eq_Inr)
      then show ?thesis using P_link False q(2) by (simp add: fifo_after_def fifo_def)
    qed (use st False in \<open>auto simp: fifo_after_def fifo_def alloc_first_def take_first_def alloc_copy_def alloc_second_def alloc_new_def
          push_value_def push_null_def push_head_def pgo_def set_node_def Let_def bindR_eq_Inr split: if_splits spsc_choice.splits\<close>)
  qed
qed

text \<open>
  C38: the queue is a FIFO queue, for every schedule of one producer and one consumer and every bound of the cache. No schedule
  fails an assertion or accesses a dead node. Every step acts on the list of the values in the queue as pushing at its end (linking a
  node), as taking its first value (which is the value that \<open>pop\<close> returns), or not at all; \<open>pop\<close> answers \<open>None\<close> only when the list is
  empty; the two threads are never at the value of one node together; and dropping a queue that no thread uses frees every node
  once and leaves none.
\<close>

theorem Spsc_queue_is_fifo:
  assumes "n1 \<noteq> 0" "n2 \<noteq> 0" "n1 \<noteq> n2"
  shows "spsc_run cs (Queue_with_additions bound n1 n2) \<noteq> Some (Inl f) \<and>
    (spsc_run cs (Queue_with_additions bound n1 n2) = ret s \<longrightarrow>
       (\<forall>c s'. spsc_step c s = ret s' \<longrightarrow> fifo s' = fifo_after c s \<and>
          (c_pc s = C_idle \<longrightarrow> c = Pop \<longrightarrow> c_pc s' = C_idle \<longrightarrow> fifo s = []) \<and>
          (\<forall>t n. c = C_go \<longrightarrow> c_pc s = C_take t n \<longrightarrow> fifo s \<noteq> [] \<and> c_pc s' = C_advance t n (hd (fifo s)))) \<and>
       (\<forall>v n a b. p_pc s = P_value v n \<longrightarrow> c_pc s = C_take a b \<longrightarrow> n \<noteq> b) \<and>
       (p_pc s = P_idle \<longrightarrow> c_pc s = C_idle \<longrightarrow> Queue_drop s = ret Map.empty))"
proof (intro conjI impI allI)
  note new = spsc_inv_new [OF assms, of bound]
  show "spsc_run cs (Queue_with_additions bound n1 n2) \<noteq> Some (Inl f)"
    using spsc_run_safe [OF new, of cs] by (auto simp: spsc_safe_def)
  assume "spsc_run cs (Queue_with_additions bound n1 n2) = ret s"
  then have inv: "spsc_inv s" using spsc_run_safe [OF new, of cs] by (auto simp: spsc_safe_def)
  show "p_pc s = P_idle \<Longrightarrow> Queue_drop s = ret Map.empty" using Queue_drop_frees [OF inv] by blast
  show "p_pc s = P_value v n \<Longrightarrow> c_pc s = C_take a b \<Longrightarrow> n \<noteq> b" for v n a b
    using inv by (cases rule: spsc_invE) (auto simp: spsc_layout_def Let_def)
  fix c s'
  assume st: "spsc_step c s = ret s'"
  show "fifo s' = fifo_after c s" by (rule fifo_step(1) [OF inv st])
  show "c = C_go \<Longrightarrow> c_pc s = C_take t n \<Longrightarrow> fifo s \<noteq> []" "c = C_go \<Longrightarrow> c_pc s = C_take t n \<Longrightarrow> c_pc s' = C_advance t n (hd (fifo s))"
    for t n using fifo_step(2) [OF inv st, of t n] by auto
  show "c_pc s = C_idle \<Longrightarrow> c = Pop \<Longrightarrow> c_pc s' = C_idle \<Longrightarrow> fifo s = []"
    using pop_load_safe(2) [OF inv, of s'] st by (auto simp: spsc_step_def fifo_def)
qed

lemmas spsc_exec = spsc_step_def Queue_with_additions_def Node_new_def alloc_first_def alloc_copy_def alloc_second_def alloc_new_def
  push_value_def push_null_def push_link_def push_head_def pop_load_def pop_take_def pop_advance_def pop_retire_def pop_cached_def
  take_first_def node_at_def set_node_def pgo_def cgo_def Let_def

text \<open>One value is pushed and popped; the first node is free to be used again.\<close>

theorem Spsc_queue_is_fifo_witness:
  "\<exists>s. spsc_run [Push (7 :: nat), P_go, P_go, P_go, Alloc 3, P_go, P_go, P_go, P_go, Pop, C_go, C_go, C_go]
        (Queue_with_additions 0 1 2) = ret s \<and> popped s = [7] \<and> Queue_drop s = ret Map.empty"
proof -
  let ?cs = "[Push (7 :: nat), P_go, P_go, P_go, Alloc 3, P_go, P_go, P_go, P_go, Pop, C_go, C_go, C_go]"
  obtain s where s: "spsc_run ?cs (Queue_with_additions 0 1 2) = ret s" "p_pc s = P_idle" "c_pc s = C_idle" "popped s = [7]"
    by (simp add: spsc_exec)
  then show ?thesis using Spsc_queue_is_fifo [of 1 2 ?cs 0 undefined s] by simp
qed

text \<open>
  \<open>pop\<close> stores \<open>cached_nodes\<close> back without adding one: it stays 0, every node is marked as cached whatever the bound, and \<open>pop\<close>
  never frees a node.
\<close>

lemma cache_bound_has_no_effect:
  assumes "n1 \<noteq> 0" "n2 \<noteq> 0" "n1 \<noteq> n2" "spsc_run cs (Queue_with_additions bound n1 n2) = ret s"
  shows "cached_nodes s = 0" "c_pc s \<noteq> C_free t v"
proof -
  have "spsc_inv s" using spsc_run_safe [OF spsc_inv_new [OF assms(1-3)] assms(4)] by (auto simp: spsc_safe_def)
  then obtain used E Q where l: "spsc_layout s used E Q" "spsc_values s used E Q" by (rule spsc_invE)
  then show "cached_nodes s = 0" "c_pc s \<noteq> C_free t v" by (auto simp: spsc_layout_def spsc_values_def Let_def)
qed

end
