(* ===== verification/Mpsc_Queue.thy ===== *)
theory Mpsc_Queue
  imports Rust_Base
begin

section \<open>The queue with many producers (src/sync/mpsc/mpsc_queue.rs)\<close>

text \<open>
  A linked list of nodes, whose newest node is \<open>head\<close> and whose oldest, without a value, is \<open>tail\<close>. A producer first swaps its node
  into \<open>head\<close> and then links it behind the one before; in between the list is broken, which the consumer sees as an
  inconsistent queue. Any number of producers and one consumer are interleaved at their accesses to shared memory. The ghost
  fields list the values in the order of the swaps, and the values taken.
\<close>

subsection \<open>State\<close>

datatype 'a PopResult = Data 'a | Empty | Inconsistent

record 'a mnode =
  mn_next :: usize
  mn_value :: "'a option"

datatype 'a mproducer =
    M_idle
  | M_new 'a             \<comment> \<open>before \<open>Node::new\<close>\<close>
  | M_swap 'a usize      \<comment> \<open>before \<open>head.swap(n)\<close>\<close>
  | M_link usize usize   \<comment> \<open>before \<open>prev.next.store(n)\<close>\<close>

datatype 'a mconsumer =
    MC_idle "'a PopResult option"   \<comment> \<open>with what the last \<open>pop\<close> returned\<close>
  | MC_advance usize usize          \<comment> \<open>before \<open>tail = next\<close>\<close>
  | MC_take usize usize             \<comment> \<open>before the assertions and \<open>value.take()\<close>\<close>
  | MC_free usize 'a                \<comment> \<open>before \<open>Box::from_raw(tail)\<close>\<close>
  | MC_head usize                   \<comment> \<open>before \<open>head.load\<close>\<close>

record 'a mqueue =
  mq_heap :: "usize \<Rightarrow> 'a mnode option"
  mq_head :: usize
  mq_tail :: usize
  mq_producer :: "nat \<Rightarrow> 'a mproducer"
  mq_consumer :: "'a mconsumer"
  mq_pushed :: "'a list"
  mq_popped :: "'a list"

definition mnode_new :: "'a option \<Rightarrow> 'a mnode" where
  "mnode_new v = \<lparr>mn_next = 0, mn_value = v\<rparr>"

definition mqueue_new :: "usize \<Rightarrow> 'a mqueue" where
  "mqueue_new stub =
     \<lparr>mq_heap = [stub \<mapsto> mnode_new None], mq_head = stub, mq_tail = stub, mq_producer = (\<lambda>_. M_idle),
      mq_consumer = MC_idle None, mq_pushed = [], mq_popped = []\<rparr>"

definition mnode_at :: "usize \<Rightarrow> 'a mqueue \<Rightarrow> 'a mnode res" where
  "mnode_at a s = (case mq_heap s a of Some n \<Rightarrow> Inr n | None \<Rightarrow> Inl (Undefined ''access to a dead node''))"

definition mset_node :: "usize \<Rightarrow> 'a mnode \<Rightarrow> 'a mqueue \<Rightarrow> 'a mqueue" where
  "mset_node a n s = s\<lparr>mq_heap := (mq_heap s)(a \<mapsto> n)\<rparr>"

definition mpgo :: "nat \<Rightarrow> 'a mproducer \<Rightarrow> 'a mqueue \<Rightarrow> 'a mqueue" where
  "mpgo i pc s = s\<lparr>mq_producer := (mq_producer s)(i := pc)\<rparr>"

definition mcgo :: "'a mconsumer \<Rightarrow> 'a mqueue \<Rightarrow> 'a mqueue" where
  "mcgo pc s = s\<lparr>mq_consumer := pc\<rparr>"

subsection \<open>push\<close>

definition mpush_new :: "nat \<Rightarrow> 'a \<Rightarrow> usize \<Rightarrow> 'a mqueue \<Rightarrow> 'a mqueue option" where
  "mpush_new i t a s =
     (if mq_heap s a = None \<and> a \<noteq> 0 then Some (mpgo i (M_swap t a) (mset_node a (mnode_new (Some t)) s)) else None)"

definition mpush_swap :: "nat \<Rightarrow> 'a \<Rightarrow> usize \<Rightarrow> 'a mqueue \<Rightarrow> 'a mqueue" where
  "mpush_swap i t n s =
     (let prev = mq_head s in mpgo i (M_link prev n) (s\<lparr>mq_head := n, mq_pushed := mq_pushed s @ [t]\<rparr>))"

definition mpush_link :: "nat \<Rightarrow> usize \<Rightarrow> usize \<Rightarrow> 'a mqueue \<Rightarrow> 'a mqueue res" where
  "mpush_link i prev n s =
     bindR (mnode_at prev s) (\<lambda>p. Inr (mpgo i M_idle (mset_node prev (p\<lparr>mn_next := n\<rparr>) s)))"

subsection \<open>pop\<close>

definition mpop_load :: "'a mqueue \<Rightarrow> 'a mqueue res" where
  "mpop_load s =
     (let tail = mq_tail s in
      bindR (mnode_at tail s) (\<lambda>n.
      Inr (mcgo (if mn_next n \<noteq> 0 then MC_advance tail (mn_next n) else MC_head tail) s)))"

definition mpop_advance :: "usize \<Rightarrow> usize \<Rightarrow> 'a mqueue \<Rightarrow> 'a mqueue" where
  "mpop_advance tail nxt s = mcgo (MC_take tail nxt) (s\<lparr>mq_tail := nxt\<rparr>)"

definition mpop_take :: "usize \<Rightarrow> usize \<Rightarrow> 'a mqueue \<Rightarrow> 'a mqueue res" where
  "mpop_take tail nxt s =
     bindR (mnode_at tail s) (\<lambda>t.
     bindR (assertR ''assertion failed: (*tail).value.is_none()'' (mn_value t = None)) (\<lambda>_.
     bindR (mnode_at nxt s) (\<lambda>n.
     bindR (expectR ''assertion failed: (*next).value.is_some()'' (mn_value n)) (\<lambda>v.
     Inr (mcgo (MC_free tail v) (mset_node nxt (n\<lparr>mn_value := None\<rparr>) s)\<lparr>mq_popped := mq_popped s @ [v]\<rparr>)))))"

definition mpop_free :: "usize \<Rightarrow> 'a \<Rightarrow> 'a mqueue \<Rightarrow> 'a mqueue res" where
  "mpop_free tail v s =
     bindR (mnode_at tail s) (\<lambda>_. Inr (mcgo (MC_idle (Some (Data v))) (s\<lparr>mq_heap := (mq_heap s)(tail := None)\<rparr>)))"

definition mpop_head :: "usize \<Rightarrow> 'a mqueue \<Rightarrow> 'a mqueue" where
  "mpop_head tail s = mcgo (MC_idle (Some (if mq_head s = tail then Empty else Inconsistent))) s"

subsection \<open>Steps, runs, and the end\<close>

datatype 'a mpsc_choice = MPush nat 'a | MAlloc nat usize | MGo nat | MPop

fun mproducer_step :: "'a mproducer \<Rightarrow> nat \<Rightarrow> 'a mpsc_choice \<Rightarrow> 'a mqueue \<Rightarrow> 'a mqueue run" where
  "mproducer_step M_idle i c s = (case c of MPush _ t \<Rightarrow> ret (mpgo i (M_new t) s) | _ \<Rightarrow> None)"
| "mproducer_step (M_new t) i c s = (case c of MAlloc _ a \<Rightarrow> map_option Inr (mpush_new i t a s) | _ \<Rightarrow> None)"
| "mproducer_step (M_swap t n) i c s = ret (mpush_swap i t n s)"
| "mproducer_step (M_link p n) i c s = Some (mpush_link i p n s)"

fun mconsumer_step :: "'a mconsumer \<Rightarrow> 'a mqueue \<Rightarrow> 'a mqueue run" where
  "mconsumer_step (MC_idle _) s = Some (mpop_load s)"
| "mconsumer_step (MC_advance t n) s = ret (mpop_advance t n s)"
| "mconsumer_step (MC_take t n) s = Some (mpop_take t n s)"
| "mconsumer_step (MC_free t v) s = Some (mpop_free t v s)"
| "mconsumer_step (MC_head t) s = ret (mpop_head t s)"

definition mpsc_step :: "'a mpsc_choice \<Rightarrow> 'a mqueue \<Rightarrow> 'a mqueue run" where
  "mpsc_step c s =
     (case c of
        MPop \<Rightarrow> mconsumer_step (mq_consumer s) s
      | MPush i _ \<Rightarrow> mproducer_step (mq_producer s i) i c s
      | MAlloc i _ \<Rightarrow> mproducer_step (mq_producer s i) i c s
      | MGo i \<Rightarrow> mproducer_step (mq_producer s i) i c s)"

fun mpsc_run :: "'a mpsc_choice list \<Rightarrow> 'a mqueue \<Rightarrow> 'a mqueue run" where
  "mpsc_run [] s = ret s"
| "mpsc_run (c # cs) s = bindO (mpsc_step c s) (mpsc_run cs)"

text \<open>\<open>Drop\<close>, when no thread is in an operation: the loop frees the nodes from \<open>tail\<close> on.\<close>

partial_function (option) mdrop_loop :: "usize \<Rightarrow> (usize \<Rightarrow> 'a mnode option) \<Rightarrow> (usize \<Rightarrow> 'a mnode option) run" where
  "mdrop_loop cur h =
     (if cur = 0 then ret h
      else case h cur of
             None \<Rightarrow> Some (Inl (Undefined ''access to a dead node''))
           | Some n \<Rightarrow> mdrop_loop (mn_next n) (h(cur := None)))"

definition mqueue_drop :: "'a mqueue \<Rightarrow> (usize \<Rightarrow> 'a mnode option) run" where
  "mqueue_drop s = mdrop_loop (mq_tail s) (mq_heap s)"

end
