(* ===== verification/Mpsc_Queue_Spec.thy ===== *)
theory Mpsc_Queue_Spec
  imports Mpsc_Queue
begin

section \<open>The queue with many producers keeps the order of the swaps\<close>

text \<open>
  The nodes in the order of the swaps form a list that is linked except behind the nodes whose producer has swapped but not
  linked yet.
\<close>

subsection \<open>Lists with gaps\<close>

definition nxt :: "(usize \<Rightarrow> 'a mnode option) \<Rightarrow> usize \<Rightarrow> usize" where
  "nxt h a = (case h a of Some n \<Rightarrow> mn_next n | None \<Rightarrow> 0)"

definition mval :: "(usize \<Rightarrow> 'a mnode option) \<Rightarrow> usize \<Rightarrow> 'a option" where
  "mval h a = Option.bind (h a) mn_value"

text \<open>\<open>G\<close>: the pairs of neighbours that are not linked yet.\<close>

fun linked :: "(usize \<Rightarrow> usize) \<Rightarrow> (usize \<times> usize) set \<Rightarrow> usize list \<Rightarrow> bool" where
  "linked f G [] \<longleftrightarrow> True"
| "linked f G [a] \<longleftrightarrow> f a = 0"
| "linked f G (a # b # as) \<longleftrightarrow> (f a = b \<and> (a, b) \<notin> G \<or> f a = 0 \<and> (a, b) \<in> G) \<and> linked f G (b # as)"

definition adjacent :: "usize list \<Rightarrow> (usize \<times> usize) set" where
  "adjacent L = set (zip L (tl L))"

lemma adjacent_simps [simp]:
  "adjacent [] = {}" "adjacent [a] = {}" "adjacent (a # b # as) = insert (a, b) (adjacent (b # as))"
  by (simp_all add: adjacent_def)

lemma adjacent_set: "(a, b) \<in> adjacent L \<Longrightarrow> a \<in> set L \<and> b \<in> set (tl L)"
  unfolding adjacent_def by (auto dest: set_zip_leftD set_zip_rightD)

lemma adjacent_append: "L \<noteq> [] \<Longrightarrow> adjacent (L @ [x]) = insert (last L, x) (adjacent L)"
  by (induction L rule: induct_list012) auto

lemma adjacent_unique: "distinct L \<Longrightarrow> (a, b) \<in> adjacent L \<Longrightarrow> (a, c) \<in> adjacent L \<Longrightarrow> b = c"
  by (induction L rule: induct_list012) (auto dest: adjacent_set)

lemma linked_cong: "(\<And>a. a \<in> set L \<Longrightarrow> f a = g a) \<Longrightarrow> G \<inter> adjacent L = H \<inter> adjacent L \<Longrightarrow> linked f G L \<longleftrightarrow> linked g H L"
proof (induction L rule: induct_list012)
  case (3 a b as)
  have "G \<inter> adjacent (b # as) = H \<inter> adjacent (b # as)" using 3(4) by auto
  then have "linked f G (b # as) = linked g H (b # as)" using 3 by simp
  moreover have "(a, b) \<in> G \<longleftrightarrow> (a, b) \<in> H" using 3(4) by auto
  ultimately show ?case using 3(3) by auto
qed simp_all

lemma linked_other [simp]: "a \<notin> set L \<Longrightarrow> linked (f(a := x)) G L \<longleftrightarrow> linked f G L"
  by (rule linked_cong) auto

lemma linked_gap: "linked f G L \<Longrightarrow> (a, b) \<in> G \<Longrightarrow> (a, b) \<in> adjacent L \<Longrightarrow> f a = 0"
  by (induction f G L rule: linked.induct) auto

lemma linked_last: "linked f G L \<Longrightarrow> L \<noteq> [] \<Longrightarrow> f (last L) = 0"
  by (induction f G L rule: linked.induct) auto

lemma linked_append:
  "linked f G L \<Longrightarrow> L \<noteq> [] \<Longrightarrow> x \<notin> set L \<Longrightarrow> distinct L \<Longrightarrow> f x = 0 \<Longrightarrow> linked f (insert (last L, x) G) (L @ [x])"
  by (induction f G L rule: linked.induct) auto

lemma linked_fill:
  "linked f G L \<Longrightarrow> distinct L \<Longrightarrow> (a, b) \<in> adjacent L \<Longrightarrow> linked (f(a := b)) (G - {(a, b)}) L"
proof (induction f G L rule: linked.induct)
  case (3 f G x y L)
  show ?case
  proof (cases "x = a")
    case True
    then have "a \<notin> set (y # L)" "b = y" using 3(3,4) by (auto dest: adjacent_set)
    moreover have "linked (f(a := b)) (G - {(a, b)}) (y # L) = linked f G (y # L)"
      by (rule linked_cong) (use \<open>a \<notin> set (y # L)\<close> in \<open>auto dest: adjacent_set\<close>)
    ultimately show ?thesis using 3(2) True by (simp add: fun_upd_def)
  next
    case False
    then show ?thesis using 3 by auto
  qed
qed auto

subsection \<open>The invariant\<close>

fun gap :: "'a mproducer \<Rightarrow> (usize \<times> usize) set" where
  "gap (M_link p n) = {(p, n)}"
| "gap _ = {}"

definition gaps :: "(nat \<Rightarrow> 'a mproducer) \<Rightarrow> (usize \<times> usize) set" where
  "gaps P = (\<Union>i. gap (P i))"

text \<open>A node that a producer has not swapped in yet, and the node that the consumer is about to free.\<close>

fun own :: "'a mproducer \<Rightarrow> usize set" where
  "own (M_swap t n) = {n}"
| "own _ = {}"

definition fresh :: "(nat \<Rightarrow> 'a mproducer) \<Rightarrow> usize set" where
  "fresh P = (\<Union>i. own (P i))"

lemma gap_iff: "(p, n) \<in> gap pc \<longleftrightarrow> pc = M_link p n"
  by (cases pc) auto

lemma own_iff: "n \<in> own pc \<longleftrightarrow> (\<exists>t. pc = M_swap t n)"
  by (cases pc) auto

text \<open>A union over the threads, with one of them changed.\<close>

lemma UN_upd: "(\<Union>j. f ((P(i := x)) j)) = f x \<union> (\<Union>j \<in> - {i}. f (P j))"
proof -
  have "UNIV = insert i (- {i})" by auto
  then have "(\<Union>j. f ((P(i := x)) j)) = (\<Union>j \<in> insert i (- {i}). f ((P(i := x)) j))" by metis
  also have "\<dots> = f x \<union> (\<Union>j \<in> - {i}. f ((P(i := x)) j))" by simp
  also have "(\<Union>j \<in> - {i}. f ((P(i := x)) j)) = (\<Union>j \<in> - {i}. f (P j))" by (rule SUP_cong) auto
  finally show ?thesis .
qed

lemma UN_split: "(\<Union>j. f (P j)) = f (P i) \<union> (\<Union>j \<in> - {i}. f (P j))"
  using UN_upd [of f P i "P i"] by simp

lemma UN_skip: "f (P i) = {} \<Longrightarrow> (\<Union>j. f ((P(i := x)) j)) = f x \<union> (\<Union>j. f (P j))"
  unfolding UN_upd UN_split [of f P i] by simp

lemma UN_drop:
  assumes "f (P i) = {n}" "\<And>j. n \<in> f (P j) \<Longrightarrow> j = i" "f x = {}"
  shows "(\<Union>j. f ((P(i := x)) j)) = (\<Union>j. f (P j)) - {n}"
proof -
  have "n \<notin> (\<Union>j \<in> - {i}. f (P j))" using assms(2) by auto
  then show ?thesis unfolding UN_upd UN_split [of f P i] using assms(1,3) by simp
qed

lemma fresh_skip: "own (P i) = {} \<Longrightarrow> fresh (P(i := pc)) = own pc \<union> fresh P"
  unfolding fresh_def by (rule UN_skip)

lemma fresh_drop: "own (P i) = {n} \<Longrightarrow> (\<And>j. n \<in> own (P j) \<Longrightarrow> j = i) \<Longrightarrow> own pc = {} \<Longrightarrow> fresh (P(i := pc)) = fresh P - {n}"
  unfolding fresh_def by (rule UN_drop)

lemma gaps_skip: "gap (P i) = {} \<Longrightarrow> gaps (P(i := pc)) = gap pc \<union> gaps P"
  unfolding gaps_def by (rule UN_skip)

lemma gaps_drop: "gap (P i) = {g} \<Longrightarrow> (\<And>j. g \<in> gap (P j) \<Longrightarrow> j = i) \<Longrightarrow> gap pc = {} \<Longrightarrow> gaps (P(i := pc)) = gaps P - {g}"
  unfolding gaps_def by (rule UN_drop)

lemma in_fresh: "P i = M_swap t n \<Longrightarrow> n \<in> fresh P"
  unfolding fresh_def by (rule UN_I [of i]) simp_all

lemma in_gaps: "P i = M_link p n \<Longrightarrow> (p, n) \<in> gaps P"
  unfolding gaps_def by (rule UN_I [of i]) simp_all

fun spent :: "'a mconsumer \<Rightarrow> usize set" where
  "spent (MC_take t n) = {t}"
| "spent (MC_free t v) = {t}"
| "spent _ = {}"

text \<open>What the consumer knows: the list of nodes from \<open>tail\<close> and whether the first has lost its value.\<close>

fun consumer_ok :: "(usize \<Rightarrow> 'a mnode option) \<Rightarrow> 'a mconsumer \<Rightarrow> usize list \<Rightarrow> bool" where
  "consumer_ok h (MC_advance t n) L \<longleftrightarrow> (\<exists>as. L = t # n # as) \<and> nxt h t = n"
| "consumer_ok h (MC_take t n) L \<longleftrightarrow> hd L = n \<and> mval h t = None"
| "consumer_ok h (MC_head t) L \<longleftrightarrow> hd L = t"
| "consumer_ok h _ L \<longleftrightarrow> True"

definition waiting :: "'a mconsumer \<Rightarrow> usize list \<Rightarrow> usize list" where
  "waiting c L = (case c of MC_take _ _ \<Rightarrow> L | _ \<Rightarrow> tl L)"

definition nodes_ok :: "'a mqueue \<Rightarrow> usize list \<Rightarrow> bool" where
  "nodes_ok s L \<longleftrightarrow> L \<noteq> [] \<and> distinct L \<and> 0 \<notin> set L \<and> hd L = mq_tail s \<and> last L = mq_head s \<and>
     dom (mq_heap s) = set L \<union> fresh (mq_producer s) \<union> spent (mq_consumer s) \<and>
     fresh (mq_producer s) \<inter> set L = {} \<and> spent (mq_consumer s) \<inter> (set L \<union> fresh (mq_producer s)) = {}"

definition links_ok :: "'a mqueue \<Rightarrow> usize list \<Rightarrow> bool" where
  "links_ok s L \<longleftrightarrow> linked (nxt (mq_heap s)) (gaps (mq_producer s)) L \<and> gaps (mq_producer s) \<subseteq> adjacent L \<and>
     (\<forall>i j p n. mq_producer s i = M_link p n \<longrightarrow> mq_producer s j = M_link p n \<longrightarrow> i = j) \<and>
     (\<forall>i j t u n. mq_producer s i = M_swap t n \<longrightarrow> mq_producer s j = M_swap u n \<longrightarrow> i = j) \<and>
     (\<forall>i t n. mq_producer s i = M_swap t n \<longrightarrow> n \<noteq> 0 \<and> nxt (mq_heap s) n = 0 \<and> mval (mq_heap s) n = Some t)"

definition values_ok :: "'a mqueue \<Rightarrow> usize list \<Rightarrow> bool" where
  "values_ok s L \<longleftrightarrow> consumer_ok (mq_heap s) (mq_consumer s) L \<and>
     ((\<exists>a b. mq_consumer s = MC_take a b) \<or> mval (mq_heap s) (hd L) = None) \<and>
     (\<exists>cs. map (mval (mq_heap s)) (waiting (mq_consumer s) L) = map Some cs \<and> mq_pushed s = mq_popped s @ cs)"

definition mpsc_inv :: "'a mqueue \<Rightarrow> bool" where
  "mpsc_inv s \<longleftrightarrow> (\<exists>L. nodes_ok s L \<and> links_ok s L \<and> values_ok s L)"

lemma mpsc_invE:
  assumes "mpsc_inv s"
  obtains L where "nodes_ok s L" "links_ok s L" "values_ok s L"
  using assms by (auto simp: mpsc_inv_def)

lemma mpsc_invI: "nodes_ok s L \<Longrightarrow> links_ok s L \<Longrightarrow> values_ok s L \<Longrightarrow> mpsc_inv s"
  by (auto simp: mpsc_inv_def)

lemma mpsc_inv_new: "stub \<noteq> 0 \<Longrightarrow> mpsc_inv (mqueue_new stub)"
  by (rule mpsc_invI [of _ "[stub]"])
    (auto simp: nodes_ok_def links_ok_def values_ok_def mqueue_new_def fresh_def gaps_def nxt_def mval_def mnode_new_def waiting_def)

lemma nxt_upd [simp]: "nxt (h(a \<mapsto> n)) = (nxt h)(a := mn_next n)" "nxt (h(a := None)) = (nxt h)(a := 0)"
  by (auto simp: nxt_def)

lemma mval_upd [simp]: "mval (h(a \<mapsto> n)) = (mval h)(a := mn_value n)" "mval (h(a := None)) = (mval h)(a := None)"
  by (auto simp: mval_def)

lemma queue_nodesD:
  assumes "nodes_ok s L"
  shows "L \<noteq> []" "distinct L" "0 \<notin> set L" "hd L = mq_tail s" "last L = mq_head s"
    and "dom (mq_heap s) = set L \<union> fresh (mq_producer s) \<union> spent (mq_consumer s)"
    and "fresh (mq_producer s) \<inter> set L = {}" "spent (mq_consumer s) \<inter> (set L \<union> fresh (mq_producer s)) = {}"
  using assms by (simp_all add: nodes_ok_def)

lemma node_live: "nodes_ok s L \<Longrightarrow> a \<in> set L \<union> fresh (mq_producer s) \<union> spent (mq_consumer s) \<Longrightarrow> \<exists>n. mq_heap s a = Some n"
  using queue_nodesD(6) [of s L] by (metis domD)

definition mpsc_safe :: "'a mqueue res \<Rightarrow> bool" where
  "mpsc_safe r \<longleftrightarrow> (\<exists>s. r = Inr s \<and> mpsc_inv s)"

subsection \<open>The producers' steps\<close>

lemma mpsc_begin:
  assumes "mpsc_inv s" "mq_producer s i = M_idle"
  shows "mpsc_inv (mpgo i (M_new t) s)"
proof -
  obtain L where L: "nodes_ok s L" "links_ok s L" "values_ok s L" using assms(1) by (rule mpsc_invE)
  have "fresh ((mq_producer s)(i := M_new t)) = fresh (mq_producer s)" "gaps ((mq_producer s)(i := M_new t)) = gaps (mq_producer s)"
    using assms(2) by (simp_all add: fresh_skip gaps_skip)
  then show ?thesis using L
    by (intro mpsc_invI [of _ L]) (auto simp: nodes_ok_def links_ok_def values_ok_def mpgo_def split: if_splits)
qed

lemma mpush_new_safe:
  assumes "mpsc_inv s" "mq_producer s i = M_new t" "mpush_new i t a s = Some s'"
  shows "mpsc_inv s'"
proof -
  obtain L where L: "nodes_ok s L" "links_ok s L" "values_ok s L" using assms(1) by (rule mpsc_invE)
  have a: "mq_heap s a = None" "a \<noteq> 0" "s' = mpgo i (M_swap t a) (mset_node a (mnode_new (Some t)) s)"
    using assms(3) by (auto simp: mpush_new_def split: if_splits)
  then have na: "a \<notin> set L" "a \<notin> fresh (mq_producer s)" "a \<notin> spent (mq_consumer s)" using queue_nodesD(6) [OF L(1)] by blast+
  let ?P = "(mq_producer s)(i := M_swap t a)"
  have f: "fresh ?P = insert a (fresh (mq_producer s))" and g: "gaps ?P = gaps (mq_producer s)"
    using assms(2) by (simp_all add: fresh_skip gaps_skip)
  have swap: "mq_producer s j = M_swap u n \<Longrightarrow> n \<in> fresh (mq_producer s)" for j u n by (rule in_fresh)
  have "nodes_ok s' L" using L(1) na f a by (auto simp: nodes_ok_def mpgo_def mset_node_def)
  moreover have "links_ok s' L"
  proof -
    have "linked ((nxt (mq_heap s))(a := 0)) (gaps ?P) L" using L(2) na(1) g by (simp add: links_ok_def)
    then show ?thesis using L(2) na(2) g a swap
      by (auto simp: links_ok_def mpgo_def mset_node_def mnode_new_def split: if_splits)
  qed
  moreover have "values_ok s' L"
  proof -
    have "map ((mval (mq_heap s))(a := Some t)) (waiting (mq_consumer s) L) = map (mval (mq_heap s)) (waiting (mq_consumer s) L)"
      using na(1) by (auto simp: waiting_def dest: list.set_sel(2) split: mconsumer.split) (metis list.sel(2) list.set_sel(2))+
    moreover have "consumer_ok (mq_heap s') (mq_consumer s) L"
      using L(3) na by (cases "mq_consumer s") (auto simp: values_ok_def a(3) mpgo_def mset_node_def)
    moreover have "hd L \<noteq> a" using na(1) queue_nodesD(1) [OF L(1)] by auto
    ultimately show ?thesis using L(3)
      by (auto simp: values_ok_def a(3) mpgo_def mset_node_def mnode_new_def simp del: map_eq_conv)
  qed
  ultimately show ?thesis by (rule mpsc_invI)
qed

lemma waiting_append: "L \<noteq> [] \<Longrightarrow> waiting c (L @ [n]) = waiting c L @ [n]"
  by (simp add: waiting_def split: mconsumer.split)

lemma consumer_ok_append: "L \<noteq> [] \<Longrightarrow> consumer_ok h c L \<Longrightarrow> consumer_ok h c (L @ [n])"
  by (cases c) auto

lemma mpush_swap_safe:
  assumes "mpsc_inv s" "mq_producer s i = M_swap t n"
  shows "mpsc_inv (mpush_swap i t n s)"
proof -
  obtain L where L: "nodes_ok s L" "links_ok s L" "values_ok s L" using assms(1) by (rule mpsc_invE)
  note d = queue_nodesD [OF L(1)]
  have n: "n \<in> fresh (mq_producer s)" using assms(2) by (rule in_fresh)
  then have nL: "n \<notin> set L" using d(7) by auto
  let ?P = "(mq_producer s)(i := M_link (mq_head s) n)"
  have only: "mq_producer s j = M_swap u n \<Longrightarrow> j = i" for j u using L(2) assms(2) by (auto simp: links_ok_def)
  have "n \<in> own (mq_producer s j) \<Longrightarrow> j = i" for j using only unfolding own_iff by blast
  then have f: "fresh ?P = fresh (mq_producer s) - {n}" by (rule fresh_drop [rotated]) (simp_all add: assms(2))
  have g: "gaps ?P = insert (mq_head s, n) (gaps (mq_producer s))"
    using assms(2) by (simp add: gaps_skip)
  have ng: "(p, n) \<notin> gaps (mq_producer s)" for p
  proof
    assume "(p, n) \<in> gaps (mq_producer s)"
    then have "n \<in> set (tl L)" using L(2) adjacent_set [of p n L] by (auto simp: links_ok_def)
    then show False using nL d(1) list.set_sel(2) by metis
  qed
  have sw: "n \<noteq> 0" "nxt (mq_heap s) n = 0" "mval (mq_heap s) n = Some t" using L(2) assms(2) by (auto simp: links_ok_def)
  have "nodes_ok (mpush_swap i t n s) (L @ [n])"
    using d f n nL sw(1) by (auto simp: nodes_ok_def mpush_swap_def mpgo_def Let_def hd_append)
  moreover have "links_ok (mpush_swap i t n s) (L @ [n])"
  proof -
    have "linked (nxt (mq_heap s)) (insert (last L, n) (gaps (mq_producer s))) (L @ [n])"
      using L(2) d(1,2) nL sw(2) by (intro linked_append) (auto simp: links_ok_def)
    moreover have "mq_producer s j \<noteq> M_link p n" for j p using ng in_gaps by metis
    ultimately show ?thesis using L(2) g d(1,5) assms(2)
      by (auto simp: links_ok_def mpush_swap_def mpgo_def Let_def adjacent_append)
  qed
  moreover have "values_ok (mpush_swap i t n s) (L @ [n])"
    using L(3) d(1) sw(3)
    by (auto simp: values_ok_def mpush_swap_def mpgo_def Let_def waiting_append consumer_ok_append hd_append simp del: map_eq_conv)
  ultimately show ?thesis by (rule mpsc_invI)
qed

lemma mpush_link_safe:
  assumes "mpsc_inv s" "mq_producer s i = M_link p n"
  shows "mpsc_safe (mpush_link i p n s)"
proof -
  obtain L where L: "nodes_ok s L" "links_ok s L" "values_ok s L" using assms(1) by (rule mpsc_invE)
  note d = queue_nodesD [OF L(1)]
  have gap: "(p, n) \<in> gaps (mq_producer s)" using assms(2) by (rule in_gaps)
  then have adj: "(p, n) \<in> adjacent L" using L(2) by (auto simp: links_ok_def)
  then have pL: "p \<in> set L" using adjacent_set by blast
  then obtain pn where pn: "mq_heap s p = Some pn" using node_live [OF L(1)] by blast
  have p0: "nxt (mq_heap s) p = 0" using linked_gap [OF _ gap adj] L(2) by (auto simp: links_ok_def)
  let ?P = "(mq_producer s)(i := M_idle)" and ?s = "mpgo i M_idle (mset_node p (pn\<lparr>mn_next := n\<rparr>) s)"
  have only: "mq_producer s j = M_link p n \<Longrightarrow> j = i" for j using L(2) assms(2) by (auto simp: links_ok_def)
  have f: "fresh ?P = fresh (mq_producer s)" using assms(2) by (simp add: fresh_skip)
  have "(p, n) \<in> gap (mq_producer s j) \<Longrightarrow> j = i" for j using only unfolding gap_iff by blast
  then have g: "gaps ?P = gaps (mq_producer s) - {(p, n)}" by (rule gaps_drop [rotated]) (simp_all add: assms(2))
  have v: "mval ((mq_heap s)(p \<mapsto> pn\<lparr>mn_next := n\<rparr>)) = mval (mq_heap s)" using pn by (auto simp: mval_def)
  have "nodes_ok ?s L" using L(1) f pL by (auto simp: nodes_ok_def mpgo_def mset_node_def)
  moreover have "links_ok ?s L"
  proof -
    have "linked ((nxt (mq_heap s))(p := n)) (gaps (mq_producer s) - {(p, n)}) L"
      using L(2) d(2) adj by (intro linked_fill) (auto simp: links_ok_def)
    moreover have "p \<notin> fresh (mq_producer s)" using d(7) pL by auto
    then have "mq_producer s j \<noteq> M_swap u p" for j u using in_fresh by metis
    ultimately show ?thesis using L(2) g v
      by (auto simp: links_ok_def mpgo_def mset_node_def)
  qed
  moreover have "values_ok ?s L"
  proof -
    have "consumer_ok ((mq_heap s)(p \<mapsto> pn\<lparr>mn_next := n\<rparr>)) (mq_consumer s) L"
    proof (cases "mq_consumer s")
      case (MC_advance t m)
      then have "nxt (mq_heap s) t = m" "m \<in> set L" using L(3) by (auto simp: values_ok_def)
      then have "t \<noteq> p" using p0 d(3) by auto
      then show ?thesis using L(3) MC_advance by (auto simp: values_ok_def)
    qed (use L(3) v in \<open>auto simp: values_ok_def simp del: mval_upd\<close>)
    then show ?thesis using L(3) v by (auto simp: values_ok_def mpgo_def mset_node_def simp del: mval_upd)
  qed
  ultimately show ?thesis using pn by (auto simp: mpush_link_def mnode_at_def mpsc_safe_def intro: mpsc_invI)
qed

subsection \<open>The consumer's steps\<close>

lemma mpop_load_safe:
  assumes "mpsc_inv s" "mq_consumer s = MC_idle r"
  shows "mpsc_safe (mpop_load s)"
proof -
  obtain L where L: "nodes_ok s L" "links_ok s L" "values_ok s L" using assms(1) by (rule mpsc_invE)
  note d = queue_nodesD [OF L(1)]
  obtain as where as: "L = mq_tail s # as" using d(1,4) by (cases L) auto
  then obtain n where n: "mq_heap s (mq_tail s) = Some n" using node_live [OF L(1), of "mq_tail s"] by auto
  then have nx: "nxt (mq_heap s) (mq_tail s) = mn_next n" by (simp add: nxt_def)
  let ?pc = "if mn_next n \<noteq> 0 then MC_advance (mq_tail s) (mn_next n) else MC_head (mq_tail s)"
  have "mpsc_inv (mcgo ?pc s)"
  proof (cases "mn_next n = 0")
    case True
    then show ?thesis using L assms(2) as
      by (intro mpsc_invI [of _ L]) (auto simp: nodes_ok_def links_ok_def values_ok_def mcgo_def waiting_def)
  next
    case False
    then obtain b bs where "as = b # bs" "mn_next n = b" using L(2) as nx by (cases as) (auto simp: links_ok_def)
    then show ?thesis using L assms(2) as nx False
      by (intro mpsc_invI [of _ L]) (auto simp: nodes_ok_def links_ok_def values_ok_def mcgo_def waiting_def)
  qed
  then show ?thesis using n by (simp add: mpop_load_def mnode_at_def mpsc_safe_def Let_def)
qed

lemma mpop_advance_safe:
  assumes "mpsc_inv s" "mq_consumer s = MC_advance t n"
  shows "mpsc_inv (mpop_advance t n s)"
proof -
  obtain L where L: "nodes_ok s L" "links_ok s L" "values_ok s L" using assms(1) by (rule mpsc_invE)
  note d = queue_nodesD [OF L(1)]
  obtain as where as: "L = t # n # as" and nx: "nxt (mq_heap s) t = n" using L(3) assms(2) by (auto simp: values_ok_def)
  have n0: "n \<noteq> 0" using d(3) as by auto
  have "(t, b) \<notin> gaps (mq_producer s)" for b
    using linked_gap [of "nxt (mq_heap s)" "gaps (mq_producer s)" L t b] L(2) nx n0 by (auto simp: links_ok_def)
  then have "gaps (mq_producer s) \<subseteq> adjacent (n # as)" using L(2) as by (auto simp: links_ok_def)
  then have "links_ok (mpop_advance t n s) (n # as)"
    using L(2) as by (auto simp: links_ok_def mpop_advance_def mcgo_def)
  moreover have "nodes_ok (mpop_advance t n s) (n # as)"
    using L(1) as assms(2) by (auto simp: nodes_ok_def mpop_advance_def mcgo_def)
  moreover have "values_ok (mpop_advance t n s) (n # as)"
    using L(3) as assms(2) by (auto simp: values_ok_def mpop_advance_def mcgo_def waiting_def)
  ultimately show ?thesis by (intro mpsc_invI)
qed

lemma mpop_take_values:
  assumes "mpsc_inv s" "mq_consumer s = MC_take t n"
  obtains x y v cs where "mq_heap s t = Some x" "mn_value x = None" "mq_heap s n = Some y" "mn_value y = Some v"
    "mq_pushed s = mq_popped s @ v # cs" "mpsc_inv (mcgo (MC_free t v) (mset_node n (y\<lparr>mn_value := None\<rparr>) s)\<lparr>mq_popped := mq_popped s @ [v]\<rparr>)"
proof -
  obtain L where L: "nodes_ok s L" "links_ok s L" "values_ok s L" using assms(1) by (rule mpsc_invE)
  note d = queue_nodesD [OF L(1)]
  obtain as where as: "L = n # as" using L(3) assms(2) d(1) by (cases L) (auto simp: values_ok_def)
  obtain cs where cs: "map (mval (mq_heap s)) L = map Some cs" "mq_pushed s = mq_popped s @ cs"
    using L(3) assms(2) by (auto simp: values_ok_def waiting_def)
  then obtain v cs' where v: "cs = v # cs'" "mval (mq_heap s) n = Some v" "map (mval (mq_heap s)) as = map Some cs'"
    using as by (cases cs) auto
  then obtain y where y: "mq_heap s n = Some y" "mn_value y = Some v" by (auto simp: mval_def bind_eq_Some_conv)
  obtain x where x: "mq_heap s t = Some x" using node_live [OF L(1), of t] assms(2) by auto
  have "mval (mq_heap s) t = None" using L(3) assms(2) by (auto simp: values_ok_def)
  then have x': "mn_value x = None" using x by (simp add: mval_def)
  let ?s = "mcgo (MC_free t v) (mset_node n (y\<lparr>mn_value := None\<rparr>) s)\<lparr>mq_popped := mq_popped s @ [v]\<rparr>"
  have nx: "nxt ((mq_heap s)(n \<mapsto> y\<lparr>mn_value := None\<rparr>)) = nxt (mq_heap s)" using y by (auto simp: nxt_def)
  have "nodes_ok ?s L" using L(1) as assms(2) by (auto simp: nodes_ok_def mcgo_def mset_node_def)
  moreover have "links_ok ?s L"
  proof -
    have "n \<notin> fresh (mq_producer s)" using d(7) as by auto
    then have "mq_producer s j \<noteq> M_swap u n" for j u using in_fresh by metis
    then show ?thesis using L(2) nx by (auto simp: links_ok_def mcgo_def mset_node_def simp del: nxt_upd)
  qed
  moreover have "values_ok ?s L"
  proof -
    have "n \<notin> set as" using d(2) as by simp
    then have "map ((mval (mq_heap s))(n := None)) as = map (mval (mq_heap s)) as" by simp
    then show ?thesis using as v cs by (auto simp: values_ok_def mcgo_def mset_node_def waiting_def simp del: map_eq_conv)
  qed
  ultimately have "mpsc_inv ?s" by (rule mpsc_invI)
  then show thesis using that x x' y cs(2) v(1) by blast
qed

lemma mpop_take_safe: "mpsc_inv s \<Longrightarrow> mq_consumer s = MC_take t n \<Longrightarrow> mpsc_safe (mpop_take t n s)"
  by (erule (1) mpop_take_values) (simp add: mpop_take_def mnode_at_def mpsc_safe_def)

lemma mpop_free_safe:
  assumes "mpsc_inv s" "mq_consumer s = MC_free t v"
  shows "mpsc_safe (mpop_free t v s)"
proof -
  obtain L where L: "nodes_ok s L" "links_ok s L" "values_ok s L" using assms(1) by (rule mpsc_invE)
  note d = queue_nodesD [OF L(1)]
  obtain x where x: "mq_heap s t = Some x" using node_live [OF L(1), of t] assms(2) by auto
  have t: "t \<notin> set L" "t \<notin> fresh (mq_producer s)" using d(8) assms(2) by auto
  then have sw: "mq_producer s j \<noteq> M_swap u t" for j u using in_fresh by metis
  let ?s = "mcgo (MC_idle (Some (Data v))) (s\<lparr>mq_heap := (mq_heap s)(t := None)\<rparr>)"
  have "nodes_ok ?s L" using L(1) t assms(2) by (auto simp: nodes_ok_def mcgo_def)
  moreover have "links_ok ?s L" using L(2) t sw by (auto simp: links_ok_def mcgo_def)
  moreover have "values_ok ?s L"
  proof -
    have "t \<notin> set (tl L)" "hd L \<noteq> t" using t(1) d(1) by (auto dest: list.set_sel(2))
    then have "map ((mval (mq_heap s))(t := None)) (tl L) = map (mval (mq_heap s)) (tl L)" by simp
    then show ?thesis using L(3) \<open>hd L \<noteq> t\<close> assms(2) by (auto simp: values_ok_def mcgo_def waiting_def simp del: map_eq_conv)
  qed
  ultimately have "mpsc_inv ?s" by (rule mpsc_invI)
  then show ?thesis using x by (simp add: mpop_free_def mnode_at_def mpsc_safe_def)
qed

lemma mpop_head_safe:
  assumes "mpsc_inv s" "mq_consumer s = MC_head t"
  shows "mpsc_inv (mpop_head t s)"
proof -
  obtain L where "nodes_ok s L" "links_ok s L" "values_ok s L" using assms(1) by (rule mpsc_invE)
  then show ?thesis using assms(2)
    by (intro mpsc_invI [of _ L]) (auto simp: nodes_ok_def links_ok_def values_ok_def mpop_head_def mcgo_def waiting_def)
qed

subsection \<open>Runs\<close>

lemma mconsumer_step_safe:
  assumes "mpsc_inv s" "mconsumer_step (mq_consumer s) s = Some r"
  shows "mpsc_safe r"
proof (cases "mq_consumer s")
  case (MC_idle r')
  then show ?thesis using assms mpop_load_safe by auto
next
  case (MC_advance t n)
  then show ?thesis using assms mpop_advance_safe by (auto simp: mpsc_safe_def)
next
  case (MC_take t n)
  then show ?thesis using assms mpop_take_safe by auto
next
  case (MC_free t v)
  then show ?thesis using assms mpop_free_safe by auto
next
  case (MC_head t)
  then show ?thesis using assms mpop_head_safe by (auto simp: mpsc_safe_def)
qed

lemma mproducer_step_safe:
  assumes "mpsc_inv s" "mproducer_step (mq_producer s i) i c s = Some r"
  shows "mpsc_safe r"
proof (cases "mq_producer s i")
  case M_idle
  then show ?thesis using assms mpsc_begin [OF assms(1)] by (auto simp: mpsc_safe_def split: mpsc_choice.splits)
next
  case (M_new t)
  then show ?thesis using assms mpush_new_safe [OF assms(1)] by (auto simp: mpsc_safe_def split: mpsc_choice.splits)
next
  case (M_swap t n)
  then show ?thesis using assms mpush_swap_safe by (auto simp: mpsc_safe_def)
next
  case (M_link p n)
  then show ?thesis using assms mpush_link_safe by auto
qed

lemma mpsc_step_safe: "mpsc_inv s \<Longrightarrow> mpsc_step c s = Some r \<Longrightarrow> mpsc_safe r"
  using mconsumer_step_safe mproducer_step_safe by (auto simp: mpsc_step_def split: mpsc_choice.splits)

lemma mpsc_run_safe: "mpsc_inv s \<Longrightarrow> mpsc_run cs s = Some r \<Longrightarrow> mpsc_safe r"
proof (induction cs arbitrary: s)
  case Nil
  then show ?case by (auto simp: mpsc_safe_def)
next
  case (Cons c cs)
  then obtain r' where r': "mpsc_step c s = Some r'" by (cases "mpsc_step c s") auto
  then obtain s' where "r' = Inr s'" "mpsc_inv s'" using mpsc_step_safe [OF Cons.prems(1)] by (auto simp: mpsc_safe_def)
  then show ?case using Cons r' by simp
qed

subsection \<open>The end of the queue\<close>

lemma mdrop_loop_nodes:
  "linked (nxt h) {} L \<Longrightarrow> distinct L \<Longrightarrow> 0 \<notin> set L \<Longrightarrow> set L \<subseteq> dom h \<Longrightarrow> L \<noteq> [] \<Longrightarrow>
     mdrop_loop (hd L) h = ret (\<lambda>a. if a \<in> set L then None else h a)"
proof (induction L arbitrary: h)
  case (Cons a as)
  then obtain n where n: "h a = Some n" "a \<noteq> 0" by auto
  then have nx: "nxt h a = mn_next n" by (simp add: nxt_def)
  show ?case
  proof (cases as)
    case Nil
    then have "mn_next n = 0" using Cons.prems(1) nx by simp
    then have "mdrop_loop a h = ret (h(a := None))" using n by (subst mdrop_loop.simps) (simp add: mdrop_loop.simps [of 0])
    then show ?thesis using Nil by (simp add: fun_upd_def)
  next
    case (Cons b bs)
    then have b: "mn_next n = b" using \<open>linked (nxt h) {} (a # as)\<close> nx by simp
    let ?h = "h(a := None)"
    have "linked (nxt ?h) {} as" using Cons.prems(1,2) Cons by simp
    then have "mdrop_loop (hd as) ?h = ret (\<lambda>c. if c \<in> set as then None else ?h c)"
      by (rule Cons.IH) (use Cons.prems Cons in auto)
    moreover have "(\<lambda>c. if c \<in> set as then None else ?h c) = (\<lambda>c. if c \<in> set (a # as) then None else h c)" by auto
    ultimately show ?thesis using n b Cons by (subst mdrop_loop.simps) simp
  qed
qed simp

lemma mqueue_drop_frees:
  assumes "mpsc_inv s" "\<forall>i. mq_producer s i = M_idle" "mq_consumer s = MC_idle r"
  shows "mqueue_drop s = ret Map.empty"
proof -
  obtain L where L: "nodes_ok s L" "links_ok s L" "values_ok s L" using assms(1) by (rule mpsc_invE)
  note d = queue_nodesD [OF L(1)]
  have e: "fresh (mq_producer s) = {}" "gaps (mq_producer s) = {}" using assms(2) by (simp_all add: fresh_def gaps_def)
  then have "dom (mq_heap s) = set L" using d(6) assms(3) by simp
  then have "mq_heap s a = None" if "a \<notin> set L" for a using that by (metis domIff)
  then have "(\<lambda>a. if a \<in> set L then None else mq_heap s a) = Map.empty" by auto
  then show ?thesis
    using mdrop_loop_nodes [of "mq_heap s" L] L(2) e d \<open>dom (mq_heap s) = set L\<close> by (simp add: mqueue_drop_def links_ok_def)
qed

subsection \<open>The property\<close>

definition mfifo :: "'a mqueue \<Rightarrow> 'a list" where
  "mfifo s = drop (length (mq_popped s)) (mq_pushed s)"

text \<open>The values in the queue after a step.\<close>

definition mfifo_after :: "'a mpsc_choice \<Rightarrow> 'a mqueue \<Rightarrow> 'a list" where
  "mfifo_after c s =
     (case c of
        MPop \<Rightarrow> (case mq_consumer s of MC_take _ _ \<Rightarrow> tl (mfifo s) | _ \<Rightarrow> mfifo s)
      | MPush i _ \<Rightarrow> (case mq_producer s i of M_swap t _ \<Rightarrow> mfifo s @ [t] | _ \<Rightarrow> mfifo s)
      | MAlloc i _ \<Rightarrow> (case mq_producer s i of M_swap t _ \<Rightarrow> mfifo s @ [t] | _ \<Rightarrow> mfifo s)
      | MGo i \<Rightarrow> (case mq_producer s i of M_swap t _ \<Rightarrow> mfifo s @ [t] | _ \<Rightarrow> mfifo s))"

lemma mfifo_values:
  assumes "values_ok s L"
  shows "map (mval (mq_heap s)) (waiting (mq_consumer s) L) = map Some (mfifo s)" "mq_pushed s = mq_popped s @ mfifo s"
  using assms by (auto simp: values_ok_def mfifo_def)

lemma mfifo_take:
  assumes "mpsc_inv s" "mq_consumer s = MC_take t n" "mpsc_step MPop s = ret s'"
  shows "mfifo s = v # mfifo s' \<longleftrightarrow> mq_consumer s' = MC_free t v" "mfifo s \<noteq> []"
proof -
  from assms(1,2) obtain x y w cs where "mq_heap s t = Some x" "mn_value x = None" "mq_heap s n = Some y" "mn_value y = Some w"
    and p: "mq_pushed s = mq_popped s @ w # cs" by (rule mpop_take_values)
  then have s': "mq_pushed s' = mq_pushed s" "mq_popped s' = mq_popped s @ [w]" "mq_consumer s' = MC_free t w"
    using assms(2,3) by (auto simp: mpsc_step_def mpop_take_def mnode_at_def mcgo_def mset_node_def)
  then show "mfifo s = v # mfifo s' \<longleftrightarrow> mq_consumer s' = MC_free t v" "mfifo s \<noteq> []" using p by (auto simp: mfifo_def)
qed

lemma mfifo_producer:
  assumes "mproducer_step (mq_producer s i) i c s = ret s'" "mq_pushed s = mq_popped s @ mfifo s"
  shows "mfifo s' = (case mq_producer s i of M_swap t _ \<Rightarrow> mfifo s @ [t] | _ \<Rightarrow> mfifo s)"
proof (cases "mq_producer s i")
  case (M_swap t n)
  then have "mq_pushed s' = mq_pushed s @ [t]" "mq_popped s' = mq_popped s"
    using assms(1) by (auto simp: mpush_swap_def mpgo_def Let_def)
  moreover obtain q where "mq_pushed s = mq_popped s @ q" "mfifo s = q" using assms(2) by blast
  ultimately show ?thesis using M_swap by (simp add: mfifo_def)
next
  case M_idle
  then show ?thesis using assms(1) by (cases c) (auto simp: mfifo_def mpgo_def)
next
  case (M_new t)
  then obtain a where "mpush_new i t a s = Some s'" using assms(1) by (auto split: mpsc_choice.splits)
  then show ?thesis using M_new by (auto simp: mfifo_def mpush_new_def mpgo_def mset_node_def split: if_splits)
next
  case (M_link p n)
  then have "mpush_link i p n s = Inr s'" using assms(1) by simp
  then show ?thesis using M_link by (auto simp: mfifo_def mpush_link_def mpgo_def mset_node_def bindR_eq_Inr)
qed

lemma mfifo_step:
  assumes "mpsc_inv s" "mpsc_step c s = ret s'"
  shows "mfifo s' = mfifo_after c s"
proof -
  obtain L where L: "nodes_ok s L" "links_ok s L" "values_ok s L" using assms(1) by (rule mpsc_invE)
  note f = mfifo_values(2) [OF L(3)]
  show ?thesis
  proof (cases c)
    case MPop
    show ?thesis
    proof (cases "mq_consumer s")
      case (MC_take t n)
      obtain v where "mq_consumer s' = MC_free t v"
        using assms(2) MPop MC_take by (auto simp: mpsc_step_def mpop_take_def mcgo_def bindR_eq_Inr)
      then have "mfifo s = v # mfifo s'" using mfifo_take(1) [OF assms(1) MC_take] assms(2) MPop by blast
      then show ?thesis using MPop MC_take by (simp add: mfifo_after_def)
    qed (use assms(2) MPop in \<open>auto simp: mpsc_step_def mfifo_after_def mfifo_def mpop_load_def mpop_advance_def mpop_free_def
          mpop_head_def mcgo_def bindR_eq_Inr Let_def\<close>)
  qed (use assms(2) mfifo_producer [OF _ f] in \<open>auto simp: mpsc_step_def mfifo_after_def\<close>)
qed

text \<open>
  C39: the queue is linearizable, for every schedule of any number of producers and one consumer. No schedule fails an assertion or
  accesses a dead node. A value is in the queue from its producer's swap on, in the order of the swaps, until \<open>pop\<close> takes it, always the
  first. \<open>pop\<close> returns \<open>Empty\<close> exactly when the queue has no value at that moment and otherwise \<open>Inconsistent\<close>; it turns away from a
  queue with values only while the producer of the first one has swapped its node but not linked it. Dropping the
  queue frees every node once and leaves none.
\<close>

theorem Mpsc_queue_linearizable:
  assumes "stub \<noteq> 0"
  shows "mpsc_run cs (mqueue_new stub) \<noteq> Some (Inl f) \<and>
    (mpsc_run cs (mqueue_new stub) = ret s \<longrightarrow>
       (\<forall>c s'. mpsc_step c s = ret s' \<longrightarrow> mfifo s' = mfifo_after c s) \<and>
       (\<forall>t n s'. mq_consumer s = MC_take t n \<longrightarrow> mpsc_step MPop s = ret s' \<longrightarrow> mfifo s \<noteq> [] \<and> mq_consumer s' = MC_free t (hd (mfifo s))) \<and>
       (\<forall>t s'. mq_consumer s = MC_head t \<longrightarrow> mpsc_step MPop s = ret s' \<longrightarrow>
          mq_consumer s' = MC_idle (Some (if mfifo s = [] then Empty else Inconsistent))) \<and>
       (\<forall>r t s'. mq_consumer s = MC_idle r \<longrightarrow> mpsc_step MPop s = ret s' \<longrightarrow> mq_consumer s' = MC_head t \<longrightarrow>
          mfifo s = [] \<or> (\<exists>i n. mq_producer s i = M_link t n)) \<and>
       ((\<forall>i. mq_producer s i = M_idle) \<longrightarrow> (\<forall>r. mq_consumer s = MC_idle r \<longrightarrow> mqueue_drop s = ret Map.empty)))"
proof (intro conjI impI allI)
  note new = mpsc_inv_new [OF assms]
  show "mpsc_run cs (mqueue_new stub) \<noteq> Some (Inl f)" using mpsc_run_safe [OF new, of cs] by (auto simp: mpsc_safe_def)
  assume "mpsc_run cs (mqueue_new stub) = ret s"
  then have inv: "mpsc_inv s" using mpsc_run_safe [OF new, of cs] by (auto simp: mpsc_safe_def)
  then obtain L where L: "nodes_ok s L" "links_ok s L" "values_ok s L" by (rule mpsc_invE)
  note d = queue_nodesD [OF L(1)] and v = mfifo_values [OF L(3)]
  obtain as where as: "L = mq_tail s # as" using d(1,4) by (cases L) auto
  have tl: "mfifo s = [] \<longleftrightarrow> as = []" if "\<And>t n. mq_consumer s \<noteq> MC_take t n"
    using v(1) that as by (auto simp: waiting_def split: mconsumer.splits)
  show "mpsc_step c s = ret s' \<Longrightarrow> mfifo s' = mfifo_after c s" for c s' by (rule mfifo_step [OF inv])
  show "mq_consumer s = MC_take t n \<Longrightarrow> mpsc_step MPop s = ret s' \<Longrightarrow> mfifo s \<noteq> []" for t n s' by (rule mfifo_take(2) [OF inv])
  show "mq_consumer s' = MC_free t (hd (mfifo s))" if c: "mq_consumer s = MC_take t n" "mpsc_step MPop s = ret s'" for t n s'
  proof -
    have "mfifo s' = tl (mfifo s)" using mfifo_step [OF inv c(2)] c(1) by (simp add: mfifo_after_def)
    then show ?thesis using mfifo_take(1) [OF inv c, of "hd (mfifo s)"] mfifo_take(2) [OF inv c] by simp
  qed
  show "mq_consumer s' = MC_idle (Some (if mfifo s = [] then Empty else Inconsistent))"
    if c: "mq_consumer s = MC_head t" "mpsc_step MPop s = ret s'" for t s'
  proof -
    have "t = mq_tail s" using L(3) c(1) as by (auto simp: values_ok_def)
    moreover have "mq_head s = mq_tail s \<longleftrightarrow> as = []" using d(2,5) as by (cases "as = []") (auto dest: last_in_set)
    ultimately show ?thesis using c tl by (auto simp: mpsc_step_def mpop_head_def mcgo_def)
  qed
  show "mfifo s = [] \<or> (\<exists>i n. mq_producer s i = M_link t n)"
    if c: "mq_consumer s = MC_idle r" "mpsc_step MPop s = ret s'" "mq_consumer s' = MC_head t" for r t s'
  proof (cases as)
    case Nil
    then show ?thesis using tl c(1) by simp
  next
    case (Cons b bs)
    have t: "t = mq_tail s" "nxt (mq_heap s) t = 0"
      using c by (auto simp: mpsc_step_def mpop_load_def mcgo_def mnode_at_def nxt_def Let_def split: option.splits if_splits)
    then have "(t, b) \<in> gaps (mq_producer s)" using L(2) d(3) as Cons by (auto simp: links_ok_def)
    then show ?thesis by (auto simp: gaps_def gap_iff)
  qed
  show "(\<forall>i. mq_producer s i = M_idle) \<Longrightarrow> mq_consumer s = MC_idle r \<Longrightarrow> mqueue_drop s = ret Map.empty" for r
    by (rule mqueue_drop_frees [OF inv])
qed

lemmas mpsc_exec = mpsc_step_def mqueue_new_def mnode_new_def mpush_new_def mpush_swap_def mpush_link_def mpop_load_def mpop_advance_def
  mpop_take_def mpop_free_def mpop_head_def mnode_at_def mset_node_def mpgo_def mcgo_def Let_def

text \<open>Producer 1 has swapped but not linked: \<open>pop\<close> finds the queue inconsistent, and takes the value after the link.\<close>

theorem Mpsc_queue_linearizable_witness:
  "\<exists>s s'. mpsc_run [MPush 1 (7 :: nat), MAlloc 1 2, MGo 1, MPop, MPop] (mqueue_new 1) = ret s \<and>
     mq_consumer s = MC_idle (Some Inconsistent) \<and> mfifo s = [7] \<and>
     mpsc_run [MGo 1, MPop, MPop, MPop, MPop] s = ret s' \<and> mq_consumer s' = MC_idle (Some (Data 7)) \<and>
     mq_producer s' 1 = M_idle \<and> mqueue_drop s' = ret Map.empty"
proof -
  let ?as = "[MPush 1 (7 :: nat), MAlloc 1 2, MGo 1, MPop, MPop]" and ?bs = "[MGo 1, MPop, MPop, MPop, MPop]"
  obtain s s' where s: "mpsc_run ?as (mqueue_new 1) = ret s" "mq_consumer s = MC_idle (Some Inconsistent)" "mfifo s = [7]"
    "mpsc_run ?bs s = ret s'" "mq_consumer s' = MC_idle (Some (Data 7))" "\<forall>i. mq_producer s' i = M_idle"
    "mpsc_run (?as @ ?bs) (mqueue_new 1) = ret s'"
    by (simp add: mpsc_exec mfifo_def)
  then have "mqueue_drop s' = ret Map.empty" using Mpsc_queue_linearizable [where stub = 1 and cs = "?as @ ?bs" and s = s'] by simp
  then show ?thesis using s by blast
qed

end
