(* ===== verification/C_Str.thy ===== *)
theory C_Str
  imports Io_Base Ip_Addr
begin

section \<open>\<open>ffi::c_str\<close>: strings for foreign functions\<close>

text \<open>
  \<open>src/ffi/c_str.rs\<close>, with \<open>ascii::escape_default\<close> of \<open>src/ascii.rs\<close> and the loop \<open>strlen\<close> of \<open>src/sys/wasm/mod.rs\<close>. The
  byte search \<open>sys::memchr\<close> depends on the platform, so the operations that call it take it as the argument \<open>mc\<close>; its contract is
  the locale \<open>byte_search\<close>, which the fallback of the library implements. The check of \<open>str::from_utf8\<close> is the argument
  \<open>utf8\<close>. A pointer is the list of the bytes from its address to the end of the allocation. Conversions between the
  owners of a string (\<open>Box\<close>, \<open>Rc\<close>, \<open>Arc\<close>) copy or move its bytes.
\<close>

subsection \<open>\<open>ascii::escape_default\<close>\<close>

record EscapeDefault =
  ed_range :: "nat \<times> nat"
  ed_data :: "u8 list"

definition hexify :: "u8 \<Rightarrow> u8 res" where
  "hexify b = (if b \<le> 9 then addP 48 b else bindR (addP 97 b) (\<lambda>s. subP s 10))"

definition escape_default :: "u8 \<Rightarrow> EscapeDefault res" where
  "escape_default c =
     bindR (if c = 9 then Inr ([92, 116, 0, 0], 2)
            else if c = 13 then Inr ([92, 114, 0, 0], 2)
            else if c = 10 then Inr ([92, 110, 0, 0], 2)
            else if c = 92 then Inr ([92, 92, 0, 0], 2)
            else if c = 39 then Inr ([92, 39, 0, 0], 2)
            else if c = 34 then Inr ([92, 34, 0, 0], 2)
            else if 0x20 \<le> c \<and> c \<le> 0x7e then Inr ([c, 0, 0, 0], 1)
            else bindR (hexify (drop_bit 4 c)) (\<lambda>h. bindR (hexify (c AND 0xf)) (\<lambda>l. Inr ([92, 120, h, l], 4))))
       (\<lambda>(data, len). Inr \<lparr>ed_range = (0, len), ed_data = data\<rparr>)"

definition EscapeDefault_next :: "EscapeDefault \<Rightarrow> (u8 option \<times> EscapeDefault) res" where
  "EscapeDefault_next self =
     (case ed_range self of (i, j) \<Rightarrow>
        if i < j then
          if i < length (ed_data self) then Inr (Some (ed_data self ! i), self\<lparr>ed_range := (i + 1, j)\<rparr>)
          else Inl (Panic ''index out of bounds'')
        else Inr (None, self))"

definition EscapeDefault_next_back :: "EscapeDefault \<Rightarrow> (u8 option \<times> EscapeDefault) res" where
  "EscapeDefault_next_back self =
     (case ed_range self of (i, j) \<Rightarrow>
        if i < j then
          if j - 1 < length (ed_data self) then Inr (Some (ed_data self ! (j - 1)), self\<lparr>ed_range := (i, j - 1)\<rparr>)
          else Inl (Panic ''index out of bounds'')
        else Inr (None, self))"

definition EscapeDefault_size_hint :: "EscapeDefault \<Rightarrow> nat \<times> nat option" where
  "EscapeDefault_size_hint self = (case ed_range self of (i, j) \<Rightarrow> (j - i, Some (j - i)))"

text \<open>A \<open>for\<close> loop over the iterator.\<close>

function EscapeDefault_bytes :: "EscapeDefault \<Rightarrow> u8 list res" where
  "EscapeDefault_bytes self =
     bindR (EscapeDefault_next self) (\<lambda>(b, self').
       case b of None \<Rightarrow> Inr [] | Some b \<Rightarrow> bindR (EscapeDefault_bytes self') (\<lambda>bs. Inr (b # bs)))"
  by pat_completeness auto
termination
  by (relation "measure (\<lambda>self. snd (ed_range self) - fst (ed_range self))")
    (auto simp: EscapeDefault_next_def split: if_splits prod.splits)

declare EscapeDefault_bytes.simps [simp del]

subsection \<open>The types\<close>

record CString = cs_inner :: "u8 list"
record CStr = c_inner :: "u8 list"

datatype NulError = NulError nat "u8 list"

datatype FromBytesWithNulErrorKind = InteriorNul nat | NotNulTerminated
record FromBytesWithNulError = fbn_kind :: FromBytesWithNulErrorKind

record 'e IntoStringError =
  is_inner :: CString
  is_error :: 'e

definition FromBytesWithNulError_interior_nul :: "nat \<Rightarrow> FromBytesWithNulError" where
  "FromBytesWithNulError_interior_nul pos = \<lparr>fbn_kind = InteriorNul pos\<rparr>"

definition FromBytesWithNulError_not_nul_terminated :: FromBytesWithNulError where
  "FromBytesWithNulError_not_nul_terminated = \<lparr>fbn_kind = NotNulTerminated\<rparr>"

subsection \<open>\<open>CStr\<close>\<close>

text \<open>\<open>strlen\<close> of \<open>sys::wasm\<close>: reading past the end of the allocation is undefined.\<close>

fun strlen_loop :: "u8 list \<Rightarrow> nat \<Rightarrow> nat res" where
  "strlen_loop [] n = Inl (Undefined ''strlen reads past the end of the allocation'')"
| "strlen_loop (b # s) n = (if b \<noteq> 0 then strlen_loop s (n + 1) else Inr n)"

definition strlen :: "u8 list \<Rightarrow> nat res" where
  "strlen s = strlen_loop s 0"

definition CStr_from_bytes_with_nul_unchecked :: "u8 list \<Rightarrow> CStr" where
  "CStr_from_bytes_with_nul_unchecked bytes = \<lparr>c_inner = bytes\<rparr>"

definition from_raw_parts :: "'a list \<Rightarrow> nat \<Rightarrow> 'a list res" where
  "from_raw_parts ptr len =
     (if len \<le> length ptr then Inr (take len ptr) else Inl (Undefined ''slice::from_raw_parts past the allocation''))"

definition CStr_from_ptr :: "u8 list \<Rightarrow> CStr res" where
  "CStr_from_ptr ptr =
     bindR (strlen ptr) (\<lambda>len. bindR (from_raw_parts ptr (len + 1)) (\<lambda>s. Inr (CStr_from_bytes_with_nul_unchecked s)))"

definition CStr_from_bytes_with_nul ::
  "(u8 \<Rightarrow> u8 list \<Rightarrow> nat option res) \<Rightarrow> u8 list \<Rightarrow> (FromBytesWithNulError + CStr) res" where
  "CStr_from_bytes_with_nul mc bytes =
     bindR (mc 0 bytes) (\<lambda>nul_pos.
       case nul_pos of
         Some nul_pos \<Rightarrow>
           if nul_pos + 1 \<noteq> length bytes then Inr (Inl (FromBytesWithNulError_interior_nul nul_pos))
           else Inr (Inr (CStr_from_bytes_with_nul_unchecked bytes))
       | None \<Rightarrow> Inr (Inl FromBytesWithNulError_not_nul_terminated))"

definition CStr_as_ptr :: "CStr \<Rightarrow> u8 list" where
  "CStr_as_ptr self = c_inner self"

definition CStr_to_bytes_with_nul :: "CStr \<Rightarrow> u8 list" where
  "CStr_to_bytes_with_nul self = c_inner self"

definition sub_one :: "nat \<Rightarrow> nat res" where
  "sub_one n = (if n = 0 then Inl (Panic ''attempt to subtract with overflow'') else Inr (n - 1))"

definition CStr_to_bytes :: "CStr \<Rightarrow> u8 list res" where
  "CStr_to_bytes self =
     (let bytes = CStr_to_bytes_with_nul self in bindR (sub_one (length bytes)) (\<lambda>n. slice_to bytes n))"

definition CStr_to_str :: "(u8 list \<Rightarrow> 'e option) \<Rightarrow> CStr \<Rightarrow> ('e + u8 list) res" where
  "CStr_to_str utf8 self =
     bindR (CStr_to_bytes self) (\<lambda>b. Inr (case utf8 b of None \<Rightarrow> Inr b | Some e \<Rightarrow> Inl e))"

definition CStr_to_owned :: "CStr \<Rightarrow> CString" where
  "CStr_to_owned self = \<lparr>cs_inner = CStr_to_bytes_with_nul self\<rparr>"

definition CStr_into_c_string :: "CStr \<Rightarrow> CString" where
  "CStr_into_c_string self = \<lparr>cs_inner = c_inner self\<rparr>"

definition CStr_default :: "CStr res" where
  "CStr_default = CStr_from_ptr [0]"

definition CStr_boxed_default :: CStr where
  "CStr_boxed_default = \<lparr>c_inner = [0]\<rparr>"

definition CStr_eq :: "CStr \<Rightarrow> CStr \<Rightarrow> bool res" where
  "CStr_eq self other = bindR (CStr_to_bytes self) (\<lambda>a. bindR (CStr_to_bytes other) (\<lambda>b. Inr (a = b)))"

definition CStr_cmp :: "CStr \<Rightarrow> CStr \<Rightarrow> Ordering res" where
  "CStr_cmp self other = bindR (CStr_to_bytes self) (\<lambda>a. bindR (CStr_to_bytes other) (\<lambda>b. Inr (cmp_list a b)))"

definition CStr_partial_cmp :: "CStr \<Rightarrow> CStr \<Rightarrow> Ordering option res" where
  "CStr_partial_cmp self other =
     bindR (CStr_to_bytes self) (\<lambda>a. bindR (CStr_to_bytes other) (\<lambda>b. Inr (Some (cmp_list a b))))"

fun escape_all :: "u8 list \<Rightarrow> u8 list res" where
  "escape_all [] = Inr []"
| "escape_all (b # bs) =
     bindR (escape_default b) (\<lambda>e. bindR (EscapeDefault_bytes e) (\<lambda>x. bindR (escape_all bs) (\<lambda>xs. Inr (x @ xs))))"

definition CStr_fmt :: "CStr \<Rightarrow> string res" where
  "CStr_fmt self =
     bindR (CStr_to_bytes self) (\<lambda>b. bindR (escape_all b) (\<lambda>x.
       Inr ([CHR 0x22] @ map (\<lambda>byte. char_of (unat byte)) x @ [CHR 0x22])))"

subsection \<open>\<open>CString\<close>\<close>

definition CString_from_vec_unchecked :: "u8 list \<Rightarrow> CString" where
  "CString_from_vec_unchecked v = \<lparr>cs_inner = v @ [0]\<rparr>"

definition CString_new :: "(u8 \<Rightarrow> u8 list \<Rightarrow> nat option res) \<Rightarrow> u8 list \<Rightarrow> (NulError + CString) res" where
  "CString_new mc bytes =
     bindR (mc 0 bytes) (\<lambda>i.
       case i of Some i \<Rightarrow> Inr (Inl (NulError i bytes)) | None \<Rightarrow> Inr (Inr (CString_from_vec_unchecked bytes)))"

definition CString_from_raw :: "u8 list \<Rightarrow> CString res" where
  "CString_from_raw ptr =
     bindR (strlen ptr) (\<lambda>n. let len = n + 1 in bindR (from_raw_parts ptr len) (\<lambda>s. Inr \<lparr>cs_inner = s\<rparr>))"

definition CString_into_inner :: "CString \<Rightarrow> u8 list" where
  "CString_into_inner self = cs_inner self"

definition CString_into_raw :: "CString \<Rightarrow> u8 list" where
  "CString_into_raw self = CString_into_inner self"

text \<open>\<open>debug\<close>: whether the debug assertions are compiled in. \<open>Vec::pop\<close> of an empty vector returns \<open>None\<close>.\<close>

definition CString_into_bytes :: "bool \<Rightarrow> CString \<Rightarrow> u8 list res" where
  "CString_into_bytes debug self =
     (let vec = CString_into_inner self;
          nul = (if vec = [] then None else Some (last vec));
          vec = butlast vec
      in bindR (if debug then assertR ''assertion failed: `(left == right)`'' (nul = Some 0) else Inr ()) (\<lambda>_. Inr vec))"

definition CString_into_bytes_with_nul :: "CString \<Rightarrow> u8 list" where
  "CString_into_bytes_with_nul self = CString_into_inner self"

definition CString_as_bytes :: "CString \<Rightarrow> u8 list res" where
  "CString_as_bytes self = bindR (sub_one (length (cs_inner self))) (\<lambda>n. slice_to (cs_inner self) n)"

definition CString_as_bytes_with_nul :: "CString \<Rightarrow> u8 list" where
  "CString_as_bytes_with_nul self = cs_inner self"

definition CString_deref :: "CString \<Rightarrow> CStr" where
  "CString_deref self = CStr_from_bytes_with_nul_unchecked (CString_as_bytes_with_nul self)"

definition CString_into_boxed_c_str :: "CString \<Rightarrow> CStr" where
  "CString_into_boxed_c_str self = \<lparr>c_inner = CString_into_inner self\<rparr>"

text \<open>\<open>String::from_utf8\<close> keeps the bytes in the error.\<close>

definition CString_into_string :: "bool \<Rightarrow> (u8 list \<Rightarrow> 'e option) \<Rightarrow> CString \<Rightarrow> ('e IntoStringError + u8 list) res" where
  "CString_into_string debug utf8 self =
     bindR (CString_into_bytes debug self) (\<lambda>b. Inr
       (case utf8 b of None \<Rightarrow> Inr b | Some e \<Rightarrow> Inl \<lparr>is_inner = CString_from_vec_unchecked b, is_error = e\<rparr>))"

text \<open>The memory that a dropped string leaves.\<close>

definition CString_drop :: "CString \<Rightarrow> u8 list res" where
  "CString_drop self =
     (if cs_inner self = [] then Inl (Undefined ''get_unchecked_mut out of bounds'') else Inr ((cs_inner self)[0 := 0]))"

definition CString_default :: "CString res" where
  "CString_default = bindR CStr_default (\<lambda>a. Inr (CStr_to_owned a))"

text \<open>The derived \<open>PartialEq\<close> and \<open>Ord\<close> compare the field.\<close>

definition CString_eq :: "CString \<Rightarrow> CString \<Rightarrow> bool" where
  "CString_eq self other \<longleftrightarrow> cs_inner self = cs_inner other"

definition CString_cmp :: "CString \<Rightarrow> CString \<Rightarrow> Ordering" where
  "CString_cmp self other = cmp_list (cs_inner self) (cs_inner other)"

definition CString_fmt :: "CString \<Rightarrow> string res" where
  "CString_fmt self = CStr_fmt (CString_deref self)"

subsection \<open>The errors\<close>

definition NulError_nul_position :: "NulError \<Rightarrow> nat" where
  "NulError_nul_position self = (case self of NulError i _ \<Rightarrow> i)"

definition NulError_into_vec :: "NulError \<Rightarrow> u8 list" where
  "NulError_into_vec self = (case self of NulError _ v \<Rightarrow> v)"

definition NulError_description :: "NulError \<Rightarrow> string" where
  "NulError_description self = ''nul byte found in data''"

definition fmt_usize :: "nat \<Rightarrow> string" where
  "fmt_usize n = map digit_char (digits 10 n)"

definition NulError_fmt :: "NulError \<Rightarrow> string" where
  "NulError_fmt self = ''nul byte found in provided data at position: '' @ fmt_usize (NulError_nul_position self)"

definition NulError_to_io_error :: "NulError \<Rightarrow> io_error" where
  "NulError_to_io_error e = Error_new InvalidInput ''data provided contains a nul byte''"

definition FromBytesWithNulError_description :: "FromBytesWithNulError \<Rightarrow> string" where
  "FromBytesWithNulError_description self =
     (case fbn_kind self of
        InteriorNul _ \<Rightarrow> ''data provided contains an interior nul byte''
      | NotNulTerminated \<Rightarrow> ''data provided is not nul terminated'')"

definition FromBytesWithNulError_fmt :: "FromBytesWithNulError \<Rightarrow> string" where
  "FromBytesWithNulError_fmt self =
     FromBytesWithNulError_description self @
     (case fbn_kind self of InteriorNul pos \<Rightarrow> '' at byte pos '' @ fmt_usize pos | NotNulTerminated \<Rightarrow> [])"

definition IntoStringError_into_cstring :: "'e IntoStringError \<Rightarrow> CString" where
  "IntoStringError_into_cstring self = is_inner self"

definition IntoStringError_utf8_error :: "'e IntoStringError \<Rightarrow> 'e" where
  "IntoStringError_utf8_error self = is_error self"

definition IntoStringError_description :: "'e IntoStringError \<Rightarrow> string" where
  "IntoStringError_description self = ''C string contained non-utf8 bytes''"

end
