(* ===== verification/C_Str_Spec.thy ===== *)
theory C_Str_Spec
  imports C_Str
begin

section \<open>What \<open>ffi::c_str\<close> promises\<close>

text \<open>
  The contract of the byte search and the operations that rest on it, what \<open>Debug\<close> prints, and the invariant of the two types:
  every string that safe operations can make, and every one read through a pointer, has one zero byte, at its end.
\<close>

subsection \<open>The byte search\<close>

lemma position_last:
  "position (\<lambda>b. b = (0 :: u8)) bs = Some (length bs - 1) \<and> bs \<noteq> [] \<longleftrightarrow> (\<exists>v. bs = v @ [0] \<and> 0 \<notin> set v)"
proof (cases bs rule: rev_cases)
  case (snoc v x)
  show ?thesis
  proof (cases "position (\<lambda>b. b = 0) v")
    case None
    then have "0 \<notin> set v" by (auto simp: position_None)
    with None snoc show ?thesis by (simp add: position_append)
  next
    case (Some i)
    then have "i < length v" "0 \<in> set v" by (auto simp: position_Some in_set_conv_nth)
    with Some snoc show ?thesis by (simp add: position_append)
  qed
qed simp

locale byte_search =
  fixes mc :: "u8 \<Rightarrow> u8 list \<Rightarrow> nat option res"
  assumes search_first: "mc x bs = Inr (position (\<lambda>b. b = x) bs)"
begin

lemma CString_new_eq:
  "CString_new mc v =
     Inr (case position (\<lambda>b. b = 0) v of
            Some i \<Rightarrow> Inl (NulError i v) | None \<Rightarrow> Inr (CString_from_vec_unchecked v))"
  by (simp add: CString_new_def search_first split: option.split)

lemma CString_new_Ok: "CString_new mc v = Inr (Inr s) \<longleftrightarrow> 0 \<notin> set v \<and> s = \<lparr>cs_inner = v @ [0]\<rparr>"
proof (cases "0 \<in> set v")
  case True
  then have "position (\<lambda>b. b = 0) v \<noteq> None" by (auto simp: position_None)
  with True show ?thesis by (auto simp: CString_new_eq)
next
  case False
  then have "position (\<lambda>b. b = 0) v = None" by (auto simp: position_None)
  with False show ?thesis by (auto simp: CString_new_eq CString_from_vec_unchecked_def)
qed

lemma from_bytes_with_nul_eq:
  "CStr_from_bytes_with_nul mc bs =
     Inr (case position (\<lambda>b. b = 0) bs of
            Some i \<Rightarrow> if i + 1 \<noteq> length bs then Inl \<lparr>fbn_kind = InteriorNul i\<rparr> else Inr \<lparr>c_inner = bs\<rparr>
          | None \<Rightarrow> Inl \<lparr>fbn_kind = NotNulTerminated\<rparr>)"
  by (simp add: CStr_from_bytes_with_nul_def search_first FromBytesWithNulError_interior_nul_def
      FromBytesWithNulError_not_nul_terminated_def CStr_from_bytes_with_nul_unchecked_def split: option.split)

lemma from_bytes_with_nul_Ok:
  "CStr_from_bytes_with_nul mc bs = Inr (Inr c) \<longleftrightarrow> (\<exists>v. bs = v @ [0] \<and> 0 \<notin> set v) \<and> c = \<lparr>c_inner = bs\<rparr>"
proof -
  have "CStr_from_bytes_with_nul mc bs = Inr (Inr c) \<longleftrightarrow>
      (position (\<lambda>b. b = 0) bs = Some (length bs - 1) \<and> bs \<noteq> []) \<and> c = \<lparr>c_inner = bs\<rparr>"
    by (cases bs) (auto simp: from_bytes_with_nul_eq split: option.split)
  then show ?thesis by (simp only: position_last)
qed

end

interpretation fallback: byte_search "memchr addr" for addr
  by unfold_locales (rule memchr_finds_first)

subsection \<open>Strings behind a pointer\<close>

lemma strlen_loop_Inr:
  "strlen_loop p n = Inr m \<longleftrightarrow> (\<exists>v rest. p = v @ 0 # rest \<and> 0 \<notin> set v \<and> m = n + length v)"
proof (induction p arbitrary: n)
  case (Cons b p)
  show ?case
  proof (cases "b = 0")
    case True
    then show ?thesis by (auto simp: Cons_eq_append_conv)
  next
    case False
    then show ?thesis by (auto simp: Cons Cons_eq_append_conv) (metis add_Suc_right add_Suc_shift list.size(4) set_ConsD add.right_neutral add_Suc)
  qed
qed simp

lemma strlen_Inr: "strlen p = Inr m \<longleftrightarrow> (\<exists>v rest. p = v @ 0 # rest \<and> 0 \<notin> set v \<and> m = length v)"
  by (simp add: strlen_def strlen_loop_Inr)

lemma strlen_found: "0 \<notin> set v \<Longrightarrow> strlen (v @ 0 # rest) = Inr (length v)"
  by (simp add: strlen_Inr) blast

lemma from_raw_parts_found: "from_raw_parts (v @ 0 # rest) (Suc (length v)) = Inr (v @ [0])"
  by (simp add: from_raw_parts_def)

lemma from_ptr_found: "0 \<notin> set v \<Longrightarrow> CStr_from_ptr (v @ 0 # rest) = Inr \<lparr>c_inner = v @ [0]\<rparr>"
  by (simp add: CStr_from_ptr_def strlen_found from_raw_parts_found CStr_from_bytes_with_nul_unchecked_def)

lemma from_raw_found: "0 \<notin> set v \<Longrightarrow> CString_from_raw (v @ 0 # rest) = Inr \<lparr>cs_inner = v @ [0]\<rparr>"
  by (simp add: CString_from_raw_def strlen_found from_raw_parts_found Let_def)

lemma from_ptr_Inr:
  "CStr_from_ptr p = Inr c \<longleftrightarrow> (\<exists>v rest. p = v @ 0 # rest \<and> 0 \<notin> set v \<and> c = \<lparr>c_inner = v @ [0]\<rparr>)"
proof
  assume r: "CStr_from_ptr p = Inr c"
  then obtain m where "strlen p = Inr m" by (auto simp: CStr_from_ptr_def bindR_eq_Inr)
  then obtain v rest where "p = v @ 0 # rest" "0 \<notin> set v" by (auto simp: strlen_Inr)
  with r show "\<exists>v rest. p = v @ 0 # rest \<and> 0 \<notin> set v \<and> c = \<lparr>c_inner = v @ [0]\<rparr>" by (auto simp: from_ptr_found)
qed (auto simp: from_ptr_found)

lemma from_raw_Inr:
  "CString_from_raw p = Inr s \<longleftrightarrow> (\<exists>v rest. p = v @ 0 # rest \<and> 0 \<notin> set v \<and> s = \<lparr>cs_inner = v @ [0]\<rparr>)"
proof
  assume r: "CString_from_raw p = Inr s"
  then obtain m where "strlen p = Inr m" by (auto simp: CString_from_raw_def bindR_eq_Inr)
  then obtain v rest where "p = v @ 0 # rest" "0 \<notin> set v" by (auto simp: strlen_Inr)
  with r show "\<exists>v rest. p = v @ 0 # rest \<and> 0 \<notin> set v \<and> s = \<lparr>cs_inner = v @ [0]\<rparr>" by (auto simp: from_raw_found)
qed (auto simp: from_raw_found)

subsection \<open>What \<open>Debug\<close> prints\<close>

definition escaped :: "u8 \<Rightarrow> u8 list" where
  "escaped b =
     (if b = 9 then [92, 116] else if b = 13 then [92, 114] else if b = 10 then [92, 110]
      else if b = 92 \<or> b = 39 \<or> b = 34 then [92, b]
      else if 0x20 \<le> b \<and> b \<le> 0x7e then [b]
      else [92, 120, projr (hexify (drop_bit 4 b)), projr (hexify (b AND 0xf))])"

definition unhex :: "u8 \<Rightarrow> u8" where
  "unhex h = (if h \<le> 57 then h - 48 else h - 87)"

lemma hexify_unhex: "b < 16 \<Longrightarrow> \<exists>h. hexify b = Inr h \<and> unhex h = b"
proof -
  have all: "list_all (\<lambda>n. case hexify (of_nat n) of Inr h \<Rightarrow> unhex h = of_nat n | Inl _ \<Rightarrow> False) [0..<16]"
    by code_simp
  assume "b < 16"
  then have "unat b \<in> set [0..<16]" by (simp add: word_less_nat_alt)
  with all have "case hexify (of_nat (unat b)) of Inr h \<Rightarrow> unhex h = of_nat (unat b) | Inl _ \<Rightarrow> False"
    unfolding list_all_iff by (rule bspec)
  then show ?thesis by (simp split: sum.splits)
qed

lemma nibbles: "drop_bit 4 b < 16" "b AND 0xf < 16" "drop_bit 4 b * 16 + (b AND 0xf) = b" for b :: u8
proof -
  have u: "unat b < 256" using unat_less_length [of b] by simp
  have h: "unat (drop_bit 4 b) = unat b div 16" by (simp add: unat_drop_bit)
  have l: "unat (b AND 0xf) = unat b mod 16" by (simp add: unat_and_masks)
  show "drop_bit 4 b < 16" "b AND 0xf < 16" using u by (simp_all add: word_less_nat_alt h l)
  have "unat (drop_bit 4 b * 16 :: u8) = unat b div 16 * 16"
    using u by (subst unat_mult_small) (simp_all add: h)
  then have "unat (drop_bit 4 b * 16 + (b AND 0xf)) = unat b"
    using u by (subst unat_add_small) (simp_all add: l div_mult_mod_eq)
  then show "drop_bit 4 b * 16 + (b AND 0xf) = b" by (simp add: unat_eq_iff)
qed

lemma EscapeDefault_bytes_eq:
  "j \<le> length d \<Longrightarrow> EscapeDefault_bytes \<lparr>ed_range = (i, j), ed_data = d\<rparr> = Inr (take (j - i) (drop i d))"
proof (induction "j - i" arbitrary: i)
  case 0
  then show ?case by (subst EscapeDefault_bytes.simps) (simp add: EscapeDefault_next_def)
next
  case (Suc n)
  then have "i < j" "i < length d" by simp_all
  moreover have "EscapeDefault_bytes \<lparr>ed_range = (i + 1, j), ed_data = d\<rparr> = Inr (take (j - (i + 1)) (drop (i + 1) d))"
    using Suc by simp
  moreover have "take (j - i) (drop i d) = d ! i # take (j - (i + 1)) (drop (i + 1) d)"
    using \<open>i < j\<close> \<open>i < length d\<close> by (metis Cons_nth_drop_Suc Suc_diff_Suc Suc_eq_plus1 take_Suc_Cons)
  ultimately show ?case
    by (subst EscapeDefault_bytes.simps) (simp add: EscapeDefault_next_def)
qed

lemma escape_default_bytes: "\<exists>e. escape_default b = Inr e \<and> EscapeDefault_bytes e = Inr (escaped b)"
  using hexify_unhex [OF nibbles(1) [of b]] hexify_unhex [OF nibbles(2) [of b]]
  by (auto simp: escape_default_def escaped_def EscapeDefault_bytes_eq)

definition unescape :: "u8 list \<Rightarrow> u8 \<times> u8 list" where
  "unescape xs =
     (if hd xs \<noteq> 92 then (hd xs, tl xs)
      else
        let y = xs ! 1; ys = drop 2 xs in
        if y = 116 then (9, ys) else if y = 114 then (13, ys) else if y = 110 then (10, ys)
        else if y = 120 then (unhex (ys ! 0) * 16 + unhex (ys ! 1), drop 2 ys)
        else (y, ys))"

lemma unescape_simps:
  "x \<noteq> 92 \<Longrightarrow> unescape (x # xs) = (x, xs)"
  "unescape (92 # 116 # xs) = (9, xs)"
  "unescape (92 # 114 # xs) = (13, xs)"
  "unescape (92 # 110 # xs) = (10, xs)"
  "unescape (92 # 92 # xs) = (92, xs)"
  "unescape (92 # 39 # xs) = (39, xs)"
  "unescape (92 # 34 # xs) = (34, xs)"
  "unescape (92 # 120 # h # l # xs) = (unhex h * 16 + unhex l, xs)"
  by (simp_all add: unescape_def)

lemma unescape_escaped: "unescape (escaped b @ xs) = (b, xs)"
proof -
  obtain h l where "hexify (drop_bit 4 b) = Inr h" "hexify (b AND 0xf) = Inr l"
    and "unhex h * 16 + unhex l = b"
    using hexify_unhex [OF nibbles(1) [of b]] hexify_unhex [OF nibbles(2) [of b]] nibbles(3) [of b] by metis
  then show ?thesis by (auto simp: escaped_def unescape_simps)
qed

lemma escaped_append_inj: "escaped b @ xs = escaped c @ ys \<Longrightarrow> b = c \<and> xs = ys"
  by (metis unescape_escaped prod.inject)

lemma escaped_not_Nil: "escaped b \<noteq> []"
  by (simp add: escaped_def)

lemma escape_all_eq: "escape_all bs = Inr (concat (map escaped bs))"
proof (induction bs)
  case (Cons b bs)
  obtain e where "escape_default b = Inr e" "EscapeDefault_bytes e = Inr (escaped b)"
    using escape_default_bytes by blast
  with Cons show ?case by simp
qed simp

lemma concat_escaped_inj: "concat (map escaped bs) = concat (map escaped cs) \<Longrightarrow> bs = cs"
proof (induction bs arbitrary: cs)
  case Nil
  then show ?case by (cases cs) (simp_all add: escaped_not_Nil)
next
  case (Cons b bs)
  then show ?case by (cases cs) (auto simp: escaped_not_Nil dest!: escaped_append_inj)
qed

lemma byte_char_inj: "inj (\<lambda>b :: u8. char_of (unat b) :: char)"
proof (rule injI)
  fix a b :: u8
  assume "(char_of (unat a) :: char) = char_of (unat b)"
  moreover have "unat a < 256" "unat b < 256" using unat_less_length [of a] unat_less_length [of b] by simp_all
  ultimately show "a = b" by (metis of_char_of mod_less unat_eq_iff)
qed

subsection \<open>The invariant\<close>

definition nul_terminated :: "u8 list \<Rightarrow> bool" where
  "nul_terminated bs \<longleftrightarrow> bs \<noteq> [] \<and> last bs = 0 \<and> 0 \<notin> set (butlast bs)"

lemma nul_terminated_iff: "nul_terminated bs \<longleftrightarrow> (\<exists>v. bs = v @ [0] \<and> 0 \<notin> set v)"
  unfolding nul_terminated_def by (metis append_butlast_last_id butlast_snoc last_snoc snoc_eq_iff_butlast)

inductive CString_made and CStr_made
  for mc :: "u8 \<Rightarrow> u8 list \<Rightarrow> nat option res" and utf8 :: "u8 list \<Rightarrow> 'e option" where
  made_new: "CString_new mc v = Inr (Inr s) \<Longrightarrow> CString_made mc utf8 s"
| made_default: "CString_default = Inr s \<Longrightarrow> CString_made mc utf8 s"
| made_from_raw: "CString_from_raw p = Inr s \<Longrightarrow> CString_made mc utf8 s"
| made_to_owned: "CStr_made mc utf8 c \<Longrightarrow> CString_made mc utf8 (CStr_to_owned c)"
| made_into_c_string: "CStr_made mc utf8 c \<Longrightarrow> CString_made mc utf8 (CStr_into_c_string c)"
| made_into_string:
    "CString_made mc utf8 s \<Longrightarrow> CString_into_string debug utf8 s = Inr (Inl e) \<Longrightarrow>
     CString_made mc utf8 (IntoStringError_into_cstring e)"
| made_checked: "CStr_from_bytes_with_nul mc bs = Inr (Inr c) \<Longrightarrow> CStr_made mc utf8 c"
| made_from_ptr: "CStr_from_ptr p = Inr c \<Longrightarrow> CStr_made mc utf8 c"
| made_ref_default: "CStr_default = Inr c \<Longrightarrow> CStr_made mc utf8 c"
| made_boxed_default: "CStr_made mc utf8 CStr_boxed_default"
| made_deref: "CString_made mc utf8 s \<Longrightarrow> CStr_made mc utf8 (CString_deref s)"
| made_boxed: "CString_made mc utf8 s \<Longrightarrow> CStr_made mc utf8 (CString_into_boxed_c_str s)"

lemmas CString_defs =
  CString_as_bytes_def CString_into_bytes_def CString_as_bytes_with_nul_def CString_into_bytes_with_nul_def
  CString_into_inner_def CString_into_raw_def CString_deref_def CString_into_boxed_c_str_def CString_from_vec_unchecked_def
  CString_drop_def CString_eq_def CString_cmp_def CString_fmt_def
  CStr_from_bytes_with_nul_unchecked_def CStr_as_ptr_def CStr_to_bytes_with_nul_def CStr_to_bytes_def CStr_to_owned_def
  CStr_into_c_string_def CStr_boxed_default_def CStr_eq_def CStr_cmp_def CStr_fmt_def sub_one_def slice_to_def

lemma into_bytes_eq: "cs_inner s = v @ [0] \<Longrightarrow> CString_into_bytes debug s = Inr v"
  by (simp add: CString_into_bytes_def CString_into_inner_def Let_def)

lemma into_string_Err:
  "nul_terminated (cs_inner s) \<Longrightarrow> CString_into_string debug utf8 s = Inr (Inl e) \<Longrightarrow>
   nul_terminated (cs_inner (IntoStringError_into_cstring e))"
  by (auto simp: nul_terminated_iff CString_into_string_def into_bytes_eq CString_from_vec_unchecked_def
      IntoStringError_into_cstring_def split: option.splits)

context byte_search
begin

lemma made_nul_terminated:
  "CString_made mc utf8 s \<Longrightarrow> nul_terminated (cs_inner s)"
  "CStr_made mc utf8 c \<Longrightarrow> nul_terminated (c_inner c)"
proof (induction rule: CString_made_CStr_made.inducts)
  case (made_into_string s debug e)
  then show ?case by (blast intro: into_string_Err)
qed (auto simp: CString_new_Ok from_bytes_with_nul_Ok from_raw_Inr from_ptr_Inr CString_default_def CStr_default_def
    nul_terminated_iff CString_defs bindR_eq_Inr)

end

lemma CString_Debug_injective:
  assumes "nul_terminated (cs_inner s)" "nul_terminated (cs_inner t)"
  shows "\<exists>x. CString_fmt s = Inr x" "CString_fmt s = CString_fmt t \<Longrightarrow> s = t"
  using assms
  by (auto simp: nul_terminated_iff CString_defs escape_all_eq dest!: inj_map_eq_map [OF byte_char_inj, THEN iffD1] concat_escaped_inj)

subsection \<open>The comparisons agree\<close>

text \<open>
  The derived comparisons of \<open>CString\<close> see the zero byte, those of \<open>CStr\<close> do not: they agree, as \<open>Borrow\<close> asks.
\<close>

lemma cmp_list_nul:
  "0 \<notin> set v \<Longrightarrow> 0 \<notin> set w \<Longrightarrow> cmp_list (v @ [0]) (w @ [0]) = cmp_list v w" for v w :: "u8 list"
proof (induction v w rule: cmp_list.induct)
  case (2 y ys)
  then have "0 < y" by (simp add: word_neq_0_conv)
  then show ?case by (simp add: cmp_ord_def)
next
  case (3 x xs)
  then have "0 < x" by (simp add: word_neq_0_conv)
  then show ?case by (simp add: cmp_ord_def less_le_not_le)
qed (auto simp: cmp_ord_def)

lemma CString_Borrow_agrees:
  assumes "nul_terminated (cs_inner s)" "nul_terminated (cs_inner t)"
  shows "CStr_eq (CString_deref s) (CString_deref t) = Inr (CString_eq s t)"
    and "CStr_cmp (CString_deref s) (CString_deref t) = Inr (CString_cmp s t)"
  using assms by (auto simp: nul_terminated_iff CString_defs cmp_list_nul)

subsection \<open>The property\<close>

lemma nul_terminated_facts:
  assumes "cs_inner s = v @ [0]" "0 \<notin> set v"
  shows "CString_as_bytes s = Inr v" "CStr_to_bytes (CString_deref s) = Inr v"
    and "CString_from_raw (CString_into_raw s) = Inr s"
    and "CStr_from_ptr (CStr_as_ptr (CString_deref s) @ rest) = Inr (CString_deref s)"
    and "CString_drop s = Inr (if v = [] then [0] else 0 # tl v @ [0])"
proof -
  show "CString_as_bytes s = Inr v" "CStr_to_bytes (CString_deref s) = Inr v"
    using assms by (simp_all add: CString_defs)
  show "CString_from_raw (CString_into_raw s) = Inr s" using assms from_raw_found [of v "[]"] by (simp add: CString_defs)
  show "CStr_from_ptr (CStr_as_ptr (CString_deref s) @ rest) = Inr (CString_deref s)"
    using assms from_ptr_found [of v rest] by (simp add: CString_defs)
  show "CString_drop s = Inr (if v = [] then [0] else 0 # tl v @ [0])"
    using assms by (cases v) (simp_all add: CString_defs)
qed

text \<open>
  C40. The type \<open>CString\<close>: \<open>new\<close> answers every vector, with an error at the first zero byte that gives the vector
  back, or with its bytes and one zero byte after them. Whatever sequence of conversions between \<open>CString\<close>, \<open>CStr\<close>, pointers
  and errors made a string, it is some bytes \<open>v\<close> without a zero byte and one zero byte after them; then no view of it
  panics, \<open>into_bytes\<close> passes its debug assertion, each conversion that reads it again (\<open>new\<close>, \<open>from_raw\<close>,
  \<open>from_ptr\<close> with any memory after it, \<open>from_bytes_with_nul\<close>) gives the same string, and dropping it stays in bounds and leaves the
  empty string in its memory.
\<close>

theorem CString_type_safe:
  shows "CString_new (memchr addr) bytes =
      Inr (case position (\<lambda>b. b = 0) bytes of
             Some i \<Rightarrow> Inl (NulError i bytes) | None \<Rightarrow> Inr \<lparr>cs_inner = bytes @ [0]\<rparr>) \<and>
    (CString_made (memchr addr) utf8 s \<longrightarrow>
      (\<exists>v. 0 \<notin> set v \<and> CString_as_bytes_with_nul s = v @ [0] \<and>
         CString_as_bytes s = Inr v \<and> CString_into_bytes debug s = Inr v \<and> CStr_to_bytes (CString_deref s) = Inr v \<and>
         CString_new (memchr addr') v = Inr (Inr s) \<and>
         CString_from_raw (CString_into_raw s) = Inr s \<and>
         CStr_from_ptr (CStr_as_ptr (CString_deref s) @ rest) = Inr (CString_deref s) \<and>
         CStr_from_bytes_with_nul (memchr addr') (CString_as_bytes_with_nul s) = Inr (Inr (CString_deref s)) \<and>
         (\<exists>m. CString_drop s = Inr m \<and> strlen m = Inr 0)))"
proof (intro conjI impI)
  show "CString_new (memchr addr) bytes =
      Inr (case position (\<lambda>b. b = 0) bytes of
             Some i \<Rightarrow> Inl (NulError i bytes) | None \<Rightarrow> Inr \<lparr>cs_inner = bytes @ [0]\<rparr>)"
    by (simp add: fallback.CString_new_eq CString_from_vec_unchecked_def split: option.split)
  assume "CString_made (memchr addr) utf8 s"
  then have "nul_terminated (cs_inner s)" by (rule fallback.made_nul_terminated)
  then obtain v where v: "cs_inner s = v @ [0]" "0 \<notin> set v" by (auto simp: nul_terminated_iff)
  have "CString_new (memchr addr') v = Inr (Inr s)" using v by (simp add: fallback.CString_new_Ok)
  moreover have "CStr_from_bytes_with_nul (memchr addr') (CString_as_bytes_with_nul s) = Inr (Inr (CString_deref s))"
    using v by (simp add: fallback.from_bytes_with_nul_Ok CString_defs)
  moreover have "strlen (if v = [] then [0] else 0 # tl v @ [0]) = Inr 0" by (simp add: strlen_def)
  ultimately show "\<exists>v. 0 \<notin> set v \<and> CString_as_bytes_with_nul s = v @ [0] \<and>
         CString_as_bytes s = Inr v \<and> CString_into_bytes debug s = Inr v \<and> CStr_to_bytes (CString_deref s) = Inr v \<and>
         CString_new (memchr addr') v = Inr (Inr s) \<and>
         CString_from_raw (CString_into_raw s) = Inr s \<and>
         CStr_from_ptr (CStr_as_ptr (CString_deref s) @ rest) = Inr (CString_deref s) \<and>
         CStr_from_bytes_with_nul (memchr addr') (CString_as_bytes_with_nul s) = Inr (Inr (CString_deref s)) \<and>
         (\<exists>m. CString_drop s = Inr m \<and> strlen m = Inr 0)"
    using v by (intro exI [of _ v]) (simp add: nul_terminated_facts into_bytes_eq CString_as_bytes_with_nul_def)
qed

lemma CString_type_safe_witness:
  "CString_made (memchr 0) (\<lambda>_. None :: unit option) \<lparr>cs_inner = [104, 105, 0]\<rparr> \<and>
   (\<exists>v. CString_into_bytes True \<lparr>cs_inner = [104, 105, 0]\<rparr> = Inr v \<and> 0 \<notin> set v)"
proof -
  have "CString_new (memchr 0) [104, 105] = Inr (Inr \<lparr>cs_inner = [104, 105, 0]\<rparr>)" by code_simp
  then have m: "CString_made (memchr 0) (\<lambda>_. None :: unit option) \<lparr>cs_inner = [104, 105, 0]\<rparr>" by (rule made_new)
  with CString_type_safe [of 0 "[]" "\<lambda>_. None" "\<lparr>cs_inner = [104, 105, 0]\<rparr>" True 0 "[]"] show ?thesis by blast
qed

end
