(* ===== verification/Spec2Isabelle.thy ===== *)
theory Spec2Isabelle
  imports Rust_Base Duration_Time Clock_Spec Hash_Set Socket_Resolve Memchr Wtf8_Spec Path_Ord Env_Paths Io_Spec Io_Write Once_Spec Oneshot_Spec Redox_Lock_Spec Spsc_Queue_Spec Mpsc_Queue_Spec C_Str_Spec
begin

text \<open>
  This development models parts of the Rust standard library, the crate \<open>std\<close> under \<open>src/\<close>, and proves them correct. The crate
  is a layer over the libraries \<open>core\<close> and \<open>alloc\<close> (slices, vectors, strings, options: not in the repository; what the code uses of
  them is modelled where it is used) and over one directory of \<open>src/sys/\<close> for each platform. What is modelled is the part that
  has logic of its own: the hash table, the component iterator of paths, buffered input and output, the encodings of
  strings for the platforms, the addresses of the network, durations, and the synchronisation that is written on
  atomic operations. The rest passes calls on to the operating system and is listed at the end.

  \<^bold>\<open>Conventions.\<close> A machine integer is a word of its width, \<open>usize\<close> a 64-bit one; lengths of slices in the
  components that do no arithmetic near the limit are natural numbers, since the length of an object in memory is below
  \<open>2 ^ 63\<close>. A computation returns \<open>Inr x\<close>, or \<open>Inl (Panic m)\<close> where the source panics, or \<open>Inl (Undefined m)\<close>
  where unsafe code would read or write outside its object, read uninitialised memory or break another rule that the
  language leaves to the programmer; so every theorem that says \<open>Inr\<close> also says that no assertion fails and no unsafe
  operation is misused. Plain operators panic on overflow, as in a build with debug assertions, except where the
  source wraps. A loop whose end depends on data that a caller supplies is a \<^theory_text>\<open>partial_function\<close> into an
  option, with \<open>None\<close> for a run that does not end; the properties state that the result is \<open>Some\<close>, so they say that
  the loop ends. No fuel is used anywhere. Concurrent code is a step function for each thread, at the granularity of its atomic
  operations, under sequential consistency, and a schedule is a list of choices.

  \<^bold>\<open>The prelude.\<close> \<open>Rust_Base\<close> has the results, the arithmetic of words through natural numbers, slices,
  and the comparison of lists.

  \<^bold>\<open>Hash tables\<close> (\<open>src/collections/hash/\<close>). \<open>Raw_Table\<close> is the unsafe array of \<open>table.rs\<close>: one list of stored hashes, one
  of key/value pairs, and the arithmetic of its one allocation. \<open>Table_Iter\<close> has its iterators and \<open>clone\<close>. \<open>Robin_Hood\<close> is the
  mathematics of displacements over a list of slots, without code. \<open>Hash_Map\<close> is the core of \<open>map.rs\<close> (search, insertion that
  takes buckets from entries that are nearer to their place, deletion that shifts back, resizing, reserving). \<open>Hash_Map_Spec\<close>
  proves that each operation keeps the invariant (Robin Hood order, the count, no duplicate key) and acts as the
  operation on the map of keys to values; \<open>Hash_Map_Resize\<close> does so for the resizing that copies buckets in
  order. \<open>Map_Interface\<close> is the locale of a map, which \<open>Hash_Map_Api\<close> interprets on the hash map; that theory adds the entry
  interface and the rest of the public operations, and holds the properties C1 to C8. \<open>Hash_Set\<close> is \<open>set.rs\<close> over the map
  (C9).

  \<^bold>\<open>Time\<close> (\<open>src/time/\<close>). \<open>Duration_Time\<close> is \<open>duration.rs\<close>: durations and their arithmetic against the exact number of
  nanoseconds (C10, C11). \<open>Clock\<close> has the arithmetic of \<open>Instant\<close> and \<open>SystemTime\<close> in \<open>mod.rs\<close> and the \<open>time.rs\<close> of the platforms, and
  \<open>Clock_Spec\<close> the locale of a system clock, interpreted on the times of Unix and of Windows (C12).

  \<^bold>\<open>Network addresses\<close> (\<open>src/net/\<close>). \<open>Ip_Addr\<close> is \<open>ip.rs\<close> and \<open>addr.rs\<close>, \<open>Ip_Parser\<close> the recursive-descent \<open>parser.rs\<close>:
  printing and parsing are inverse (C13, C14). \<open>Socket_Resolve\<close> has \<open>ToSocketAddrs\<close>, with the resolver as an
  argument.

  \<^bold>\<open>Bytes and encodings.\<close> \<open>Memchr\<close> is the byte search of \<open>src/sys_common/memchr.rs\<close>, two words at a time (C15). \<open>Wtf8\<close> and
  \<open>Wtf8_Spec\<close> are \<open>src/sys_common/wtf8.rs\<close>, the encoding of strings of 16-bit units on Windows (C16 to C19). \<open>C_Str\<close> and
  \<open>C_Str_Spec\<close> are \<open>src/ffi/c_str.rs\<close>, over the byte search through the locale \<open>byte_search\<close>, with the escapes of
  \<open>src/ascii.rs\<close> (C40).

  \<^bold>\<open>Paths\<close> (\<open>src/path.rs\<close>, with the platform parts under \<open>src/sys/\<close>). \<open>Iterator_Interface\<close> has the locale of an iterator that
  ends, and the loops over such iterators. \<open>Path\<close> has the prefixes of Windows, the two-ended iterator over
  components, and the operations of \<open>Path\<close> and \<open>PathBuf\<close>. \<open>Path_Components\<close> shows what the iterator yields, \<open>Path_Spec\<close> and \<open>Path_Ord\<close>
  what the operations do to the list of components (C20 to C27). C20, C21 and the comparison of paths in C27 are stated for paths with neither a
  Windows prefix nor a scheme of Redox, because the code loses the first byte of a scheme; C22 to C25 are stated for
  Unix; C26 holds for every path on every platform. \<open>Env_Paths\<close> has the search paths of
  \<open>src/env.rs\<close> in the three versions of \<open>src/sys/\<close>: splitting what \<open>join_paths\<close> wrote gives the paths back (C28).

  \<^bold>\<open>Input and output\<close> (\<open>src/io/\<close>). \<open>Io_Base\<close> has the errors and the provided methods of the traits over any reader or writer,
  \<open>Io_Read\<close> the loops over a \<open>BufRead\<close> (C30), \<open>Io_Buffered\<close> the three buffers, \<open>Io_Spec\<close> the contract of a reader as locales, their
  interpretations on slices, cursors and the adaptors, and C29; \<open>Io_Write\<close> the order of what the buffered
  writers pass on, with errors and unwinding (C31, C32).

  \<^bold>\<open>Synchronisation.\<close> \<open>Thread_Park\<close> is \<open>park\<close> and \<open>unpark\<close> of \<open>src/thread/mod.rs\<close> against the token that the documentation
  promises (C33). \<open>Once\<close> is \<open>src/sync/once.rs\<close> for any number of threads, with its list of waiters on their
  stacks; \<open>Once_Inv\<close> has the invariant and \<open>Once_Spec\<close> C34 and C35. \<open>Redox_Lock\<close> has the mutex and the condition variable of
  \<open>src/sys/redox/\<close>, which are written on a futex; \<open>Redox_Lock_Spec\<close> has C37, and two schedules of the condition variable: one that
  loses a wakeup, one that panics.

  \<^bold>\<open>Channels\<close> (\<open>src/sync/mpsc/\<close>). \<open>Oneshot\<close> is the first flavour of a channel, \<open>oneshot.rs\<close>; the tokens of
  \<open>blocking.rs\<close> are in \<open>Blocking\<close>; \<open>Oneshot_Inv\<close> and \<open>Oneshot_Spec\<close> have its invariant and C36. \<open>Spsc_Queue\<close> and \<open>Mpsc_Queue\<close> are the two lock-free
  queues on which the unbounded flavours are built, with their nodes in an explicit memory: the first, for one producer and one
  consumer, keeps a cache of nodes and is a FIFO queue (C38); the second, for any number of producers, is linearizable, with the
  answer \<open>Inconsistent\<close> for the gap between the two steps of a push (C39).
  The waiters of a \<open>Once\<close> and the receiver of a
  channel sleep by \<open>park\<close>, used through its token with spurious returns.

  \<^bold>\<open>Not modelled.\<close> The allocator and its failure; the order of memory below sequential consistency; \<open>Debug\<close>, \<open>Hash\<close>
  and the conversions that only move a value; \<open>fs\<close>, \<open>process\<close>, the variables and directories of \<open>env\<close>, \<open>net::tcp\<close>, \<open>net::udp\<close>, the
  standard streams and the readings of the clocks, whose methods forward to the operating system; \<open>sync::Mutex\<close>, \<open>RwLock\<close>, \<open>Condvar\<close> and \<open>Barrier\<close>,
  which wrap the locks of a platform; the flavours \<open>stream\<close>, \<open>shared\<close> and \<open>sync\<close> of channels and the selection between channels;
  panicking and backtraces, which are intrinsics and foreign code; the floating-point
  methods, which are calls of the C library; and the bindings of the platforms under \<open>src/sys/\<close> but for the parts named above.
\<close>

end
